(* ===== verification/Fanos_Prelude.thy ===== *)
theory Fanos_Prelude
  imports Main "HOL-Library.Word" "HOL-Library.Monad_Syntax"
    "HOL-Library.List_Lexorder" "HOL-Library.Product_Lexorder" "HOL-Library.Sublist"
begin

text \<open>
  Shared vocabulary of the development: the machine-integer types of the Rust sources, big-endian
  byte strings, byte-cursor readers, the slice operations of the Rust standard library that the
  sources call (\<open>binary_search\<close>, \<open>sort_unstable\<close> followed by \<open>dedup\<close>), saturating 32-bit
  arithmetic, and the \<open>codec\<close> interface: an encoder and a reader that are inverse to each other
  on the well-formed values. Every wire format of the development is an interpretation of that
  locale.
\<close>

named_theorems fanos_defs \<open>definitions that component proofs unfold\<close>
named_theorems codec_simps \<open>evaluation of encoders and readers on one another\<close>

type_synonym byte = "8 word"
type_synonym u16 = "16 word"
type_synonym u32 = "32 word"
type_synonym u64 = "64 word"
type_synonym u128 = "128 word"

text \<open>A reader consumes a prefix of the remaining input and returns the value and the rest.\<close>

type_synonym 'a reader = "byte list \<Rightarrow> ('a \<times> byte list) option"

section \<open>Results and checked arithmetic\<close>

text \<open>
  \<open>Result<T, E>\<close> is the sum \<open>'e + 'a\<close> with the error on the left; \<open>bindR\<close> is the \<open>?\<close> operator.
\<close>

primrec bindR :: "'e + 'a \<Rightarrow> ('a \<Rightarrow> 'e + 'b) \<Rightarrow> 'e + 'b" where
  "bindR (Inl e) f = Inl e"
| "bindR (Inr x) f = f x"

lemma bindR_eq_Inr [simp]: "bindR m f = Inr y \<longleftrightarrow> (\<exists>x. m = Inr x \<and> f x = Inr y)"
  by (cases m) auto

lemma bindR_eq_Inl: "bindR m f = Inl e \<longleftrightarrow> m = Inl e \<or> (\<exists>x. m = Inr x \<and> f x = Inl e)"
  by (cases m) auto

lemma bindR_cong [fundef_cong]:
  "m = m' \<Longrightarrow> (\<And>x. m' = Inr x \<Longrightarrow> f x = g x) \<Longrightarrow> bindR m f = bindR m' g"
  by (cases m') auto

text \<open>The \<open>checked_*\<close> operations of an unsigned machine integer: \<open>None\<close> where it does not fit.\<close>

definition checked_add :: "'w::len word \<Rightarrow> 'w word \<Rightarrow> 'w word option" where
  "checked_add a b = (if unat a + unat b < 2 ^ LENGTH('w) then Some (a + b) else None)"

definition checked_sub :: "'w::len word \<Rightarrow> 'w word \<Rightarrow> 'w word option" where
  "checked_sub a b = (if b \<le> a then Some (a - b) else None)"

definition checked_mul :: "'w::len word \<Rightarrow> 'w word \<Rightarrow> 'w word option" where
  "checked_mul a b = (if unat a * unat b < 2 ^ LENGTH('w) then Some (a * b) else None)"

definition checked_div :: "'w::len word \<Rightarrow> 'w word \<Rightarrow> 'w word option" where
  "checked_div a b = (if b = 0 then None else Some (a div b))"

definition checked_rem :: "'w::len word \<Rightarrow> 'w word \<Rightarrow> 'w word option" where
  "checked_rem a b = (if b = 0 then None else Some (a mod b))"

definition saturating_add :: "'w::len word \<Rightarrow> 'w word \<Rightarrow> 'w word" where
  "saturating_add a b = (case checked_add a b of None \<Rightarrow> - 1 | Some c \<Rightarrow> c)"

definition saturating_sub :: "'w::len word \<Rightarrow> 'w word \<Rightarrow> 'w word" where
  "saturating_sub a b = (if b \<le> a then a - b else 0)"

definition saturating_mul :: "'w::len word \<Rightarrow> 'w word \<Rightarrow> 'w word" where
  "saturating_mul a b = (case checked_mul a b of None \<Rightarrow> - 1 | Some c \<Rightarrow> c)"

lemma unat_lt: "unat (w :: 'w::len word) < 2 ^ LENGTH('w)"
  by (rule unsigned_less)

lemma checked_add_Some:
  "checked_add a b = Some c \<longleftrightarrow> unat c = unat a + unat b"
  for a b c :: "'w::len word"
proof -
  have "unat (a + b) = unat a + unat b \<longleftrightarrow> unat a + unat b < 2 ^ LENGTH('w)"
    by (metis mod_less unat_lt unat_word_ariths(1))
  then show ?thesis
    by (auto simp: checked_add_def word_unat_eq_iff)
       (metis unat_lt)
qed

lemma unat_saturating_add:
  "unat (saturating_add a b) = min (unat a + unat b) (2 ^ LENGTH('w) - 1)" for a b :: "'w::len word"
proof (cases "checked_add a b")
  case None
  then have "2 ^ LENGTH('w) \<le> unat a + unat b"
    using checked_add_Some [of a b "a + b"] by (auto simp: checked_add_def split: if_splits)
  with None show ?thesis by (simp add: saturating_add_def unsigned_minus_1_eq_mask mask_eq_exp_minus_1)
next
  case (Some c)
  then show ?thesis
    using checked_add_Some [of a b c] unat_lt [of c] by (simp add: saturating_add_def)
qed

lemma unat_saturating_sub: "unat (saturating_sub a b) = unat a - unat b"
  by (auto simp: saturating_sub_def unat_sub word_le_nat_alt)

lemma checked_sub_Some:
  "checked_sub a b = Some c \<longleftrightarrow> unat b \<le> unat a \<and> unat c = unat a - unat b"
  for a b c :: "'w::len word"
  by (auto simp: checked_sub_def word_le_nat_alt unat_sub word_unat_eq_iff)

lemma checked_mul_Some:
  "checked_mul a b = Some c \<longleftrightarrow> unat c = unat a * unat b"
  for a b c :: "'w::len word"
proof -
  have "unat (a * b) = unat a * unat b \<longleftrightarrow> unat a * unat b < 2 ^ LENGTH('w)"
    by (metis mod_less unat_lt unat_word_ariths(2))
  then show ?thesis
    by (auto simp: checked_mul_def word_unat_eq_iff)
       (metis unat_lt)
qed

text \<open>\<open>iter().max().unwrap_or(0)\<close> over unsigned values.\<close>

definition max_or0 :: "nat list \<Rightarrow> nat" where
  "max_or0 xs = foldr max xs 0"

lemma max_or0_simps [simp]: "max_or0 [] = 0" "max_or0 (x # xs) = max x (max_or0 xs)"
  by (simp_all add: max_or0_def)

lemma max_or0_le [simp]: "max_or0 xs \<le> n \<longleftrightarrow> (\<forall>x \<in> set xs. x \<le> n)"
  by (induction xs) auto

lemma unat_saturating_mul:
  "unat (saturating_mul a b) = min (unat a * unat b) (2 ^ LENGTH('w) - 1)" for a b :: "'w::len word"
proof (cases "checked_mul a b")
  case None
  then have "2 ^ LENGTH('w) \<le> unat a * unat b" by (auto simp: checked_mul_def split: if_splits)
  with None show ?thesis by (simp add: saturating_mul_def unsigned_minus_1_eq_mask mask_eq_exp_minus_1)
next
  case (Some c)
  then show ?thesis using checked_mul_Some [of a b c] unat_lt [of c] by (simp add: saturating_mul_def)
qed

section \<open>Big-endian byte strings\<close>

text \<open>\<open>to_be_bytes\<close> of an \<open>n\<close>-byte integer, and its inverse \<open>from_be_bytes\<close>.\<close>

primrec be_bytes :: "nat \<Rightarrow> nat \<Rightarrow> byte list" where
  "be_bytes 0 v = []"
| "be_bytes (Suc n) v = be_bytes n (v div 256) @ [word_of_nat v]"

definition from_be :: "byte list \<Rightarrow> nat" where
  "from_be bs = foldl (\<lambda>acc b. acc * 256 + unat b) 0 bs"

lemma length_be_bytes [simp]: "length (be_bytes n v) = n"
  by (induction n arbitrary: v) auto

lemma from_be_Nil [simp]: "from_be [] = 0"
  by (simp add: from_be_def)

lemma from_be_snoc [simp]: "from_be (bs @ [b]) = from_be bs * 256 + unat b"
  by (simp add: from_be_def)

lemma unat_byte_lt: "unat (b :: byte) < 256"
  by (rule order.strict_trans2 [OF unsigned_less]) simp

lemma from_be_lt: "from_be bs < 256 ^ length bs"
proof (induction bs rule: rev_induct)
  case (snoc b bs)
  have "from_be bs * 256 + unat b < (from_be bs + 1) * 256"
    using unat_byte_lt [of b] by simp
  also have "\<dots> \<le> 256 ^ length bs * 256"
    using snoc.IH by (intro mult_le_mono1) simp
  finally show ?case by (simp add: mult.commute)
qed simp

lemma unat_word_of_nat_byte: "unat (word_of_nat v :: byte) = v mod 256"
  by (simp add: unat_of_nat)

lemma from_be_be_bytes: "from_be (be_bytes n v) = v mod 256 ^ n"
proof (induction n arbitrary: v)
  case (Suc n)
  have "v div 256 mod 256 ^ n * 256 + v mod 256 = v mod (256 * 256 ^ n)"
    by (simp add: mod_mult2_eq mult.commute)
  with Suc show ?case by (simp add: unat_word_of_nat_byte)
qed simp

lemma from_be_be_bytes_small: "v < 256 ^ n \<Longrightarrow> from_be (be_bytes n v) = v"
  by (simp add: from_be_be_bytes)

lemma be_bytes_from_be: "length bs = n \<Longrightarrow> be_bytes n (from_be bs) = bs"
proof (induction bs arbitrary: n rule: rev_induct)
  case (snoc b bs)
  have "(from_be bs * 256 + unat b) div 256 = from_be bs"
    using unat_byte_lt [of b] by simp
  moreover have "word_of_nat (from_be bs * 256 + unat b) = b"
  proof -
    have "unat (word_of_nat (from_be bs * 256 + unat b) :: byte) = unat b"
      using unat_byte_lt [of b] by (simp only: unat_word_of_nat_byte) simp
    then show ?thesis by (rule word_unat_eq_iff [THEN iffD2])
  qed
  moreover obtain m where "n = Suc m" and "length bs = m"
    using snoc.prems by (cases n) auto
  ultimately show ?case using snoc.IH [of m] by simp
qed simp

lemma unat_bound_256:
  "unat (w :: u16) < 256 ^ 2" "unat (x :: u32) < 256 ^ 4" "unat (y :: u64) < 256 ^ 8"
  "unat (z :: u128) < 256 ^ 16"
  by (rule order.strict_trans2 [OF unsigned_less], simp)+

section \<open>Cursor reads\<close>

text \<open>Take \<open>n\<close> bytes off the front of the cursor, or fail if fewer remain.\<close>

definition rd_take :: "nat \<Rightarrow> byte list reader" where
  "rd_take n bs = (if n \<le> length bs then Some (take n bs, drop n bs) else None)"

lemma rd_take_append [simp]: "length xs = n \<Longrightarrow> rd_take n (xs @ r) = Some (xs, r)"
  by (auto simp: rd_take_def)

lemma rd_take_iff: "rd_take n bs = Some (x, r) \<longleftrightarrow> length x = n \<and> bs = x @ r"
  by (auto simp: rd_take_def split: if_splits)

section \<open>Slices of the standard library\<close>

text \<open>
  \<open>slice::binary_search_by_key\<close>: the branch-halving loop of the standard library. The index it
  returns is the position of an equal key, or nothing.
\<close>

function bsearch_loop :: "('a \<Rightarrow> 'k::linorder) \<Rightarrow> 'k \<Rightarrow> 'a list \<Rightarrow> nat \<Rightarrow> nat \<Rightarrow> nat" where
  "bsearch_loop f k xs base sz =
     (if sz \<le> 1 then base
      else let half = sz div 2; mid = base + half
           in bsearch_loop f k xs (if k < f (xs ! mid) then base else mid) (sz - half))"
  by pat_completeness auto
termination
  by (relation "measure (\<lambda>(f, k, xs, base, sz). sz)") auto

declare bsearch_loop.simps [simp del]

definition binary_search_by_key :: "('a \<Rightarrow> 'k::linorder) \<Rightarrow> 'k \<Rightarrow> 'a list \<Rightarrow> nat option" where
  "binary_search_by_key f k xs =
     (if xs = [] then None
      else let i = bsearch_loop f k xs 0 (length xs)
           in if f (xs ! i) = k then Some i else None)"

definition binary_search :: "'k::linorder \<Rightarrow> 'k list \<Rightarrow> bool" where
  "binary_search k xs = (binary_search_by_key (\<lambda>x. x) k xs \<noteq> None)"

text \<open>The loop keeps the last position whose key is not above \<open>k\<close> inside the window.\<close>

lemma bsearch_loop_spec:
  assumes "sorted (map f xs)" "0 < sz" "base + sz \<le> length xs"
    and "\<forall>i < length xs. f (xs ! i) = k \<longrightarrow>
           (\<exists>j. base \<le> j \<and> j < base + sz \<and> f (xs ! j) = k)"
    and "base = 0 \<or> f (xs ! base) \<le> k"
  shows "bsearch_loop f k xs base sz < length xs \<and>
    (\<forall>i < length xs. f (xs ! i) = k \<longrightarrow> f (xs ! bsearch_loop f k xs base sz) = k)"
  using assms
proof (induction f k xs base sz rule: bsearch_loop.induct)
  case (1 f k xs base sz)
  show ?case
  proof (cases "sz \<le> 1")
    case True
    with "1.prems"(2) have sz: "sz = 1" by simp
    have "f (xs ! base) = k" if "i < length xs" "f (xs ! i) = k" for i
    proof -
      from "1.prems"(4) that obtain j where "base \<le> j" "j < base + sz" "f (xs ! j) = k"
        by blast
      with sz show ?thesis by (simp add: le_less_Suc_eq)
    qed
    moreover have "bsearch_loop f k xs base sz = base"
      using True by (simp add: bsearch_loop.simps [of f k xs base sz])
    ultimately show ?thesis using sz "1.prems"(3) by simp
  next
    case False
    define half where "half = sz div 2"
    define mid where "mid = base + half"
    define base' where "base' = (if k < f (xs ! mid) then base else mid)"
    have half: "0 < half" "half < sz" using False by (auto simp: half_def)
    have mono: "f (xs ! i) \<le> f (xs ! j)" if "i \<le> j" "j < length xs" for i j
      using sorted_nth_mono [OF "1.prems"(1), of i j] that by simp
    have mid_lt: "mid < length xs" using half "1.prems"(3) by (simp add: mid_def)
    have win: "base' + (sz - half) \<le> length xs"
      using "1.prems"(3) half by (auto simp: base'_def mid_def)
    have loc: "\<exists>j. base' \<le> j \<and> j < base' + (sz - half) \<and> f (xs ! j) = k"
      if "i < length xs" "f (xs ! i) = k" for i
    proof -
      from "1.prems"(4) that obtain j where
        j: "base \<le> j" "j < base + sz" "f (xs ! j) = k" by blast
      show ?thesis
      proof (cases "k < f (xs ! mid)")
        case True
        have "j < mid" using True j(3) mono [of mid j] j(2) "1.prems"(3) by (cases "j < mid") auto
        with True j half show ?thesis
          by (intro exI [of _ j]) (auto simp: base'_def mid_def half_def)
      next
        case False
        show ?thesis
        proof (cases "mid \<le> j")
          case True
          with False j half show ?thesis
            by (intro exI [of _ j]) (auto simp: base'_def mid_def)
        next
          case below: False
          then have "f (xs ! mid) = k" using mono [of j mid] mid_lt j(3) False by auto
          with False half show ?thesis
            by (intro exI [of _ mid]) (auto simp: base'_def)
        qed
      qed
    qed
    have low: "base' = 0 \<or> f (xs ! base') \<le> k"
      using "1.prems"(5) by (auto simp: base'_def)
    have "bsearch_loop f k xs base' (sz - half) < length xs \<and>
      (\<forall>i < length xs. f (xs ! i) = k \<longrightarrow> f (xs ! bsearch_loop f k xs base' (sz - half)) = k)"
      using "1.IH" [OF False refl refl] "1.prems"(1) win loc low half
      unfolding half_def [symmetric] mid_def [symmetric] base'_def [symmetric] by simp
    moreover have "bsearch_loop f k xs base sz = bsearch_loop f k xs base' (sz - half)"
      using False by (simp add: bsearch_loop.simps [of f k xs base sz] Let_def half_def mid_def base'_def)
    ultimately show ?thesis by simp
  qed
qed

lemma binary_search_result:
  assumes "sorted (map f xs)" "xs \<noteq> []"
  obtains i where "i < length xs" "k \<in> f ` set xs \<longleftrightarrow> f (xs ! i) = k"
    "binary_search_by_key f k xs = (if f (xs ! i) = k then Some i else None)"
proof -
  obtain i where i: "bsearch_loop f k xs 0 (length xs) = i" by simp
  have len: "i < length xs" and spec: "\<forall>j < length xs. f (xs ! j) = k \<longrightarrow> f (xs ! i) = k"
    using bsearch_loop_spec [OF assms(1), of "length xs" 0 k] assms(2) unfolding i by auto
  moreover have "k \<in> f ` set xs \<longleftrightarrow> f (xs ! i) = k"
    using len spec by (metis image_iff in_set_conv_nth)
  moreover have "binary_search_by_key f k xs = (if f (xs ! i) = k then Some i else None)"
    using assms(2) unfolding binary_search_by_key_def Let_def i by simp
  ultimately show ?thesis using that by blast
qed

lemma binary_search_by_key_None:
  assumes "sorted (map f xs)"
  shows "binary_search_by_key f k xs = None \<longleftrightarrow> k \<notin> f ` set xs"
proof (cases "xs = []")
  case False
  show ?thesis
    by (rule binary_search_result [OF assms False, of k]) (simp split: if_splits)
qed (simp add: binary_search_by_key_def)

lemma binary_search_by_key_Some:
  assumes "sorted (map f xs)" "binary_search_by_key f k xs = Some i"
  shows "i < length xs \<and> f (xs ! i) = k"
proof -
  from assms(2) have "xs \<noteq> []" by (auto simp: binary_search_by_key_def)
  then show ?thesis
    by (rule binary_search_result [OF assms(1), of k]) (use assms(2) in \<open>simp split: if_splits\<close>)
qed

lemma binary_search_iff [simp]: "sorted xs \<Longrightarrow> binary_search k xs \<longleftrightarrow> k \<in> set xs"
  using binary_search_by_key_None [of "\<lambda>x. x" xs k] by (simp add: binary_search_def)

text \<open>\<open>sort_unstable\<close> followed by \<open>dedup\<close>: equal keys are identical, so stability is moot.\<close>

abbreviation strict_sorted :: "'a::linorder list \<Rightarrow> bool" where
  "strict_sorted xs \<equiv> sorted_wrt (<) xs"

definition sort_dedup :: "'a::linorder list \<Rightarrow> 'a list" where
  "sort_dedup xs = remdups_adj (sort xs)"

lemma set_sort_dedup [simp]: "set (sort_dedup xs) = set xs"
  by (simp add: sort_dedup_def)

lemma strict_sorted_remdups_adj: "sorted xs \<Longrightarrow> strict_sorted (remdups_adj xs)"
  for xs :: "'a::linorder list"
  by (induction xs rule: remdups_adj.induct) (auto simp: order_le_less)

lemma strict_sorted_sort_dedup [simp]: "strict_sorted (sort_dedup xs)"
  by (simp add: sort_dedup_def strict_sorted_remdups_adj)

lemma sorted_sort_dedup [simp]: "sorted (sort_dedup xs)"
  using strict_sorted_sort_dedup strict_sorted_imp_sorted by blast

lemma sort_dedup_id: "strict_sorted xs \<Longrightarrow> sort_dedup xs = xs"
  by (simp add: sort_dedup_def strict_sorted_iff sorted_sort_id remdups_adj_distinct)

lemma sort_dedup_eq_iff: "sort_dedup xs = sort_dedup ys \<longleftrightarrow> set xs = set ys"
  by (metis set_sort_dedup strict_sorted_equal strict_sorted_sort_dedup)

lemma sort_dedup_Nil [simp]: "sort_dedup [] = []"
  by (simp add: sort_dedup_def)

section \<open>The codec interface\<close>

text \<open>
  A codec is an encoder and a reader for the values that satisfy \<open>ok\<close>: reading back what was
  encoded yields the value and leaves the rest of the input, and whatever the reader accepts is
  the encoding of a well-formed value. The second law is the canonicity the sources ask for:
  no other byte string decodes to that value.
\<close>

locale codec =
  fixes enc :: "'a \<Rightarrow> byte list" and dec :: "'a reader" and ok :: "'a \<Rightarrow> bool"
  assumes dec_enc: "ok x \<Longrightarrow> dec (enc x @ r) = Some (x, r)"
    and dec_sound: "dec bs = Some (x, r) \<Longrightarrow> ok x \<and> bs = enc x @ r"

definition rd_whole :: "'a reader \<Rightarrow> byte list \<Rightarrow> 'a option" where
  "rd_whole d bs = (case d bs of Some (x, []) \<Rightarrow> Some x | _ \<Rightarrow> None)"

primrec rd_rep :: "nat \<Rightarrow> 'a reader \<Rightarrow> 'a list reader" where
  "rd_rep 0 item bs = Some ([], bs)"
| "rd_rep (Suc n) item bs =
     do { (x, r) \<leftarrow> item bs; (xs, r') \<leftarrow> rd_rep n item r; Some (x # xs, r') }"

context codec
begin

lemma dec_iff: "dec bs = Some (x, r) \<longleftrightarrow> ok x \<and> bs = enc x @ r"
  using dec_enc dec_sound by blast

lemma prefix_free:
  assumes "ok x" "ok y" "enc x @ r = enc y @ s"
  shows "x = y \<and> r = s"
proof -
  have "Some (x, r) = Some (y, s)"
    by (simp only: dec_enc [OF assms(1), symmetric] dec_enc [OF assms(2), symmetric] assms(3))
  then show ?thesis by simp
qed

lemma enc_inj: "ok x \<Longrightarrow> ok y \<Longrightarrow> enc x = enc y \<Longrightarrow> x = y"
  using prefix_free [of x y "[]" "[]"] by simp

lemma whole_iff: "rd_whole dec bs = Some x \<longleftrightarrow> ok x \<and> bs = enc x"
proof -
  have "rd_whole dec bs = Some x \<longleftrightarrow> dec bs = Some (x, [])"
    by (simp add: rd_whole_def split: option.splits list.splits)
  then show ?thesis by (simp add: dec_iff)
qed

lemma rep_iff:
  "rd_rep n dec bs = Some (xs, r) \<longleftrightarrow>
     length xs = n \<and> list_all ok xs \<and> bs = concat (map enc xs) @ r"
proof (induction n arbitrary: bs xs)
  case (Suc n)
  then show ?case
    by (cases xs) (auto simp: bind_eq_Some_conv dec_iff)
qed auto

end

lemma codecI:
  fixes ok :: "'a \<Rightarrow> bool"
  assumes "\<And>bs x r. dec bs = Some (x, r) \<longleftrightarrow> ok x \<and> bs = enc x @ r"
  shows "codec enc dec ok"
  by unfold_locales (simp_all add: assms)

section \<open>Fixed-width integers and byte arrays\<close>

definition put_word :: "nat \<Rightarrow> 'w::len word \<Rightarrow> byte list" where
  "put_word n w = be_bytes n (unat w)"

definition rd_word :: "nat \<Rightarrow> 'w::len word reader" where
  "rd_word n bs = do { (b, r) \<leftarrow> rd_take n bs; Some (word_of_nat (from_be b), r) }"

lemma length_put_word [simp]: "length (put_word n w) = n"
  by (simp add: put_word_def)

lemma codec_word:
  assumes "LENGTH('w::len) = 8 * n"
  shows "codec (put_word n) (rd_word n) (\<lambda>_ :: 'w word. True)"
proof (rule codecI)
  have size: "(2::nat) ^ LENGTH('w) = 256 ^ n"
    by (simp add: assms power_mult)
  fix bs r and w :: "'w word"
  have rt: "word_of_nat (from_be (put_word n w)) = w"
  proof -
    have "unat w < 256 ^ n" by (simp only: size [symmetric]) (rule unsigned_less)
    then show ?thesis by (simp add: put_word_def from_be_be_bytes_small)
  qed
  have fo: "put_word n (word_of_nat (from_be b) :: 'w word) = b" if "length b = n" for b
  proof -
    have "from_be b < 2 ^ LENGTH('w)" using from_be_lt [of b] that size by simp
    then have "unat (word_of_nat (from_be b) :: 'w word) = from_be b"
      by (simp add: unat_of_nat take_bit_eq_mod)
    then show ?thesis by (simp add: put_word_def be_bytes_from_be that)
  qed
  show "rd_word n bs = Some (w, r) \<longleftrightarrow> True \<and> bs = put_word n w @ r"
    using rt fo by (auto simp: rd_word_def bind_eq_Some_conv rd_take_iff)
qed

interpretation u8: codec "put_word 1" "rd_word 1" "\<lambda>_ :: byte. True"
  by (rule codec_word) simp

interpretation u16: codec "put_word 2" "rd_word 2" "\<lambda>_ :: u16. True"
  by (rule codec_word) simp

interpretation u32: codec "put_word 4" "rd_word 4" "\<lambda>_ :: u32. True"
  by (rule codec_word) simp

interpretation u64: codec "put_word 8" "rd_word 8" "\<lambda>_ :: u64. True"
  by (rule codec_word) simp

interpretation u128: codec "put_word 16" "rd_word 16" "\<lambda>_ :: u128. True"
  by (rule codec_word) simp

interpretation bytes32: codec "\<lambda>b. b" "rd_take 32" "\<lambda>b. length b = 32"
  by (rule codecI) (rule rd_take_iff)

lemmas word_dec_iff [codec_simps] =
  u8.dec_iff u16.dec_iff u32.dec_iff u64.dec_iff u128.dec_iff bytes32.dec_iff

lemmas word_dec_enc =
  u8.dec_enc [OF TrueI] u16.dec_enc [OF TrueI] u32.dec_enc [OF TrueI] u64.dec_enc [OF TrueI] u128.dec_enc [OF TrueI]

text \<open>Little-endian integers, the byte order of the ledger's encodings.\<close>

definition put_le :: "nat \<Rightarrow> 'w::len word \<Rightarrow> byte list" where
  "put_le n w = rev (put_word n w)"

definition rd_le :: "nat \<Rightarrow> 'w::len word reader" where
  "rd_le n bs = do { (b, r) \<leftarrow> rd_take n bs; Some (word_of_nat (from_be (rev b)), r) }"

lemma length_put_le [simp]: "length (put_le n w) = n"
  by (simp add: put_le_def)

lemma codec_le:
  assumes "LENGTH('w::len) = 8 * n"
  shows "codec (put_le n) (rd_le n) (\<lambda>_ :: 'w word. True)"
proof (rule codecI)
  fix bs r and w :: "'w word"
  have "rd_le n bs = Some (w, r) \<longleftrightarrow> (\<exists>b. length b = n \<and> bs = b @ r \<and> rd_word n (rev b) = Some (w, []))"
    by (auto simp: rd_le_def rd_word_def bind_eq_Some_conv rd_take_iff)
  also have "\<dots> \<longleftrightarrow> True \<and> bs = put_le n w @ r"
    using codec.dec_iff [OF codec_word [OF assms]] by (auto simp: put_le_def rev_swap)
  finally show "rd_le n bs = Some (w, r) \<longleftrightarrow> True \<and> bs = put_le n w @ r" .
qed

interpretation le32: codec "put_le 4" "rd_le 4" "\<lambda>_ :: u32. True"
  by (rule codec_le) simp

interpretation le64: codec "put_le 8" "rd_le 8" "\<lambda>_ :: u64. True"
  by (rule codec_le) simp

lemmas le_dec_iff [codec_simps] = le32.dec_iff le64.dec_iff
lemmas le_dec_enc = le32.dec_enc [OF TrueI] le64.dec_enc [OF TrueI]
  le32.dec_enc [OF TrueI, where r = "[]", simplified] le64.dec_enc [OF TrueI, where r = "[]", simplified]

end
