(* ===== verification/Ergon_Value.thy ===== *)
theory Ergon_Value
  imports Fanos_Prelude
begin

text \<open>
  The value and expression layer of the ERGON calculus (\<open>fanos-ergon/src/value.rs\<close> and the
  \<open>Key\<close> type of \<open>fanos-ergon/src/lib.rs\<close>): state keys and their order, 128-bit values and tagged
  records, the deterministic faults, and the total, key-static expressions. The lemmas show that
  arithmetic is exact or faults, that record fields are looked up faithfully, and that an
  expression depends on the state only through the keys it collects.
\<close>

section \<open>Keys\<close>

text \<open>A 32-byte array is a byte list; \<open>key_ok\<close> is its length, which the Rust type fixes.\<close>

datatype key = Key (point: u32) (space: u16) (slot: "byte list")

definition key_at :: "u32 \<Rightarrow> u16 \<Rightarrow> byte list \<Rightarrow> key" where
  "key_at p sp sl = Key p sp sl"

definition key_small :: "u32 \<Rightarrow> u16 \<Rightarrow> u64 \<Rightarrow> key" where
  "key_small p sp n = Key p sp (replicate 24 0 @ put_word 8 n)"

definition key_ok :: "key \<Rightarrow> bool" where
  "key_ok k = (length (slot k) = 32)"

lemma key_small_ok [simp]: "key_ok (key_small p sp n)"
  by (simp add: key_ok_def key_small_def)

text \<open>The derived order of the struct: field by field, the slot lexicographically.\<close>

instantiation key :: linorder
begin

definition less_eq_key :: "key \<Rightarrow> key \<Rightarrow> bool" where
  "less_eq_key k l \<longleftrightarrow> (point k, space k, slot k) \<le> (point l, space l, slot l)"

definition less_key :: "key \<Rightarrow> key \<Rightarrow> bool" where
  "less_key k l \<longleftrightarrow> (point k, space k, slot k) < (point l, space l, slot l)"

instance
proof
  fix x y z :: key
  show "x < y \<longleftrightarrow> x \<le> y \<and> \<not> y \<le> x"
    unfolding less_key_def less_eq_key_def by (rule less_le_not_le)
  show "x \<le> x"
    unfolding less_eq_key_def by (rule order_refl)
  show "x \<le> y \<Longrightarrow> y \<le> z \<Longrightarrow> x \<le> z"
    unfolding less_eq_key_def by (rule order_trans)
  show "x \<le> y \<Longrightarrow> y \<le> x \<Longrightarrow> x = y"
    unfolding less_eq_key_def by (drule (1) order_antisym) (simp add: key.expand)
  show "x \<le> y \<or> y \<le> x"
    unfolding less_eq_key_def by (rule linear)
qed

end

section \<open>Values\<close>

datatype val =
    VInt u128
  | VBytes32 "byte list"
  | VBytes "byte list"
  | VRecord "(u16 \<times> val) list"

datatype fault =
    Overflow
  | DivByZero
  | TypeMismatch
  | ArgOutOfRange byte nat
  | Missing key
  | ExprTooDeep nat
  | OutsideFootprint key
  | Rejected u16
  | ClaimUnproven u16

fun as_int :: "val \<Rightarrow> fault + u128" where
  "as_int (VInt n) = Inr n"
| "as_int _ = Inl TypeMismatch"

fun as_u64 :: "val \<Rightarrow> fault + u64" where
  "as_u64 (VInt n) = (if n \<le> 2 ^ 64 - 1 then Inr (ucast n) else Inl Overflow)"
| "as_u64 _ = Inl TypeMismatch"

fun as_bytes32 :: "val \<Rightarrow> fault + byte list" where
  "as_bytes32 (VBytes32 b) = Inr b"
| "as_bytes32 _ = Inl TypeMismatch"

fun val_field :: "val \<Rightarrow> u16 \<Rightarrow> fault + val" where
  "val_field (VRecord fields) tag =
     (case binary_search_by_key fst tag fields of
        None \<Rightarrow> Inl TypeMismatch
      | Some i \<Rightarrow> (if i < length fields then Inr (snd (fields ! i)) else Inl TypeMismatch))"
| "val_field _ tag = Inl TypeMismatch"

fun as_bytes :: "val \<Rightarrow> fault + byte list" where
  "as_bytes (VBytes b) = Inr b"
| "as_bytes _ = Inl TypeMismatch"

text \<open>\<open>windows(2).any(..)\<close>: two neighbouring fields carry the same tag.\<close>

fun adjacent_dup :: "'a list \<Rightarrow> bool" where
  "adjacent_dup (x # y # xs) = (x = y \<or> adjacent_dup (y # xs))"
| "adjacent_dup _ = False"

definition val_record :: "(u16 \<times> val) list \<Rightarrow> val option" where
  "val_record fields =
     (let fs = sort_key fst fields
      in if adjacent_dup (map fst fs) then None else Some (VRecord fs))"

fun val_depth :: "val \<Rightarrow> nat" where
  "val_depth (VRecord fields) = 1 + max_or0 (map (\<lambda>(t, v). val_depth v) fields)"
| "val_depth _ = 1"

text \<open>The canonical form of a value: every record in it has strictly increasing tags.\<close>

fun val_canon :: "val \<Rightarrow> bool" where
  "val_canon (VRecord fields) =
     (strict_sorted (map fst fields) \<and> list_all (\<lambda>(t, v). val_canon v) fields)"
| "val_canon _ = True"

section \<open>Expressions\<close>

datatype bin_op = BAdd | BSub | BMul | BDiv | BRem | BMin | BMax

datatype expr = Lit val | Load key | Arg byte | Bin bin_op expr expr

definition EXPR_DEPTH_MAX :: nat where
  "EXPR_DEPTH_MAX = 8"

primrec expr_depth :: "expr \<Rightarrow> nat" where
  "expr_depth (Lit v) = 1"
| "expr_depth (Load k) = 1"
| "expr_depth (Arg i) = 1"
| "expr_depth (Bin op l r) = 1 + max (expr_depth l) (expr_depth r)"

text \<open>The accumulator \<open>out\<close> is the vector the source appends to.\<close>

primrec expr_collect_reads :: "expr \<Rightarrow> key list \<Rightarrow> key list" where
  "expr_collect_reads (Lit v) out = out"
| "expr_collect_reads (Load k) out = out @ [k]"
| "expr_collect_reads (Arg i) out = out"
| "expr_collect_reads (Bin op l r) out = expr_collect_reads r (expr_collect_reads l out)"

definition expr_reads :: "expr \<Rightarrow> key list" where
  "expr_reads e = expr_collect_reads e []"

primrec bin_apply :: "bin_op \<Rightarrow> u128 \<Rightarrow> u128 \<Rightarrow> fault + u128" where
  "bin_apply BAdd a b = (case checked_add a b of Some n \<Rightarrow> Inr n | None \<Rightarrow> Inl Overflow)"
| "bin_apply BSub a b = (case checked_sub a b of Some n \<Rightarrow> Inr n | None \<Rightarrow> Inl Overflow)"
| "bin_apply BMul a b = (case checked_mul a b of Some n \<Rightarrow> Inr n | None \<Rightarrow> Inl Overflow)"
| "bin_apply BDiv a b = (case checked_div a b of Some n \<Rightarrow> Inr n | None \<Rightarrow> Inl DivByZero)"
| "bin_apply BRem a b = (case checked_rem a b of Some n \<Rightarrow> Inr n | None \<Rightarrow> Inl DivByZero)"
| "bin_apply BMin a b = Inr (if a < b then a else b)"
| "bin_apply BMax a b = Inr (if a > b then a else b)"

text \<open>A state reader is a partial map; a missing key is \<open>None\<close>.\<close>

primrec expr_eval_unchecked :: "expr \<Rightarrow> (key \<Rightarrow> val option) \<Rightarrow> val list \<Rightarrow> fault + val" where
  "expr_eval_unchecked (Lit v) st args = Inr v"
| "expr_eval_unchecked (Load k) st args =
     (case st k of Some v \<Rightarrow> Inr v | None \<Rightarrow> Inl (Missing k))"
| "expr_eval_unchecked (Arg i) st args =
     (if unat i < length args then Inr (args ! unat i)
      else Inl (ArgOutOfRange i (length args)))"
| "expr_eval_unchecked (Bin op l r) st args =
     bindR (bindR (expr_eval_unchecked l st args) as_int) (\<lambda>a.
     bindR (bindR (expr_eval_unchecked r st args) as_int) (\<lambda>b.
     bindR (bin_apply op a b) (\<lambda>c. Inr (VInt c))))"

definition expr_eval :: "expr \<Rightarrow> (key \<Rightarrow> val option) \<Rightarrow> val list \<Rightarrow> fault + val" where
  "expr_eval e st args =
     (let d = expr_depth e
      in if d > EXPR_DEPTH_MAX then Inl (ExprTooDeep d) else expr_eval_unchecked e st args)"

section \<open>Comparisons\<close>

datatype cmp = CEq | CNe | CLt | CLe | CGt | CGe

definition eq32 :: "byte list \<Rightarrow> byte list \<Rightarrow> bool" where
  "eq32 a b = list_all (\<lambda>i. a ! i = b ! i) [0..<32]"

primrec cmp_apply :: "cmp \<Rightarrow> val \<Rightarrow> val \<Rightarrow> fault + bool" where
  "cmp_apply CEq x y =
     (case (x, y) of
        (VInt p, VInt q) \<Rightarrow> Inr (p = q)
      | (VBytes32 p, VBytes32 q) \<Rightarrow> Inr (eq32 p q)
      | (VRecord p, VRecord q) \<Rightarrow> Inr (x = y)
      | (VBytes p, VBytes q) \<Rightarrow> Inr (p = q)
      | _ \<Rightarrow> Inl TypeMismatch)"
| "cmp_apply CNe x y =
     (case (x, y) of
        (VInt p, VInt q) \<Rightarrow> Inr (p \<noteq> q)
      | (VBytes32 p, VBytes32 q) \<Rightarrow> Inr (\<not> eq32 p q)
      | (VRecord p, VRecord q) \<Rightarrow> Inr (x \<noteq> y)
      | (VBytes p, VBytes q) \<Rightarrow> Inr (p \<noteq> q)
      | _ \<Rightarrow> Inl TypeMismatch)"
| "cmp_apply CLt x y = (case (x, y) of (VInt p, VInt q) \<Rightarrow> Inr (p < q) | _ \<Rightarrow> Inl TypeMismatch)"
| "cmp_apply CLe x y = (case (x, y) of (VInt p, VInt q) \<Rightarrow> Inr (p \<le> q) | _ \<Rightarrow> Inl TypeMismatch)"
| "cmp_apply CGt x y = (case (x, y) of (VInt p, VInt q) \<Rightarrow> Inr (p > q) | _ \<Rightarrow> Inl TypeMismatch)"
| "cmp_apply CGe x y = (case (x, y) of (VInt p, VInt q) \<Rightarrow> Inr (p \<ge> q) | _ \<Rightarrow> Inl TypeMismatch)"

section \<open>Lemmas on values\<close>

lemma eq32_iff: "length a = 32 \<Longrightarrow> length b = 32 \<Longrightarrow> eq32 a b \<longleftrightarrow> a = b"
  by (auto simp: eq32_def list_all_iff list_eq_iff_nth_eq)

lemma adjacent_dup_iff: "sorted xs \<Longrightarrow> \<not> adjacent_dup xs \<longleftrightarrow> strict_sorted xs"
  for xs :: "'a::linorder list"
  by (induction xs rule: adjacent_dup.induct) (auto simp: order_le_less dest: order.strict_trans)

lemma val_field_map_of:
  assumes "strict_sorted (map fst fields)"
  shows "val_field (VRecord fields) tag =
    (case map_of fields tag of None \<Rightarrow> Inl TypeMismatch | Some v \<Rightarrow> Inr v)"
proof (cases "binary_search_by_key fst tag fields")
  case None
  then have "tag \<notin> fst ` set fields"
    using assms by (simp add: binary_search_by_key_None strict_sorted_iff)
  then have "map_of fields tag = None" by (simp add: map_of_eq_None_iff)
  with None show ?thesis by simp
next
  case (Some i)
  from assms have s: "sorted (map fst fields)" and d: "distinct (map fst fields)"
    by (simp_all add: strict_sorted_iff)
  have "i < length fields" "fst (fields ! i) = tag"
    using binary_search_by_key_Some [OF s Some] by auto
  then have "map_of fields tag = Some (snd (fields ! i))"
    using d by (metis map_of_is_SomeI nth_mem prod.collapse)
  with Some \<open>i < length fields\<close> show ?thesis by simp
qed

lemma val_record_Some:
  "val_record fields = Some v \<longleftrightarrow>
     distinct (map fst fields) \<and> v = VRecord (sort_key fst fields)"
proof -
  have d: "distinct (map fst (sort_key fst fields)) = distinct (map fst fields)"
    by (simp add: distinct_map)
  have "\<not> adjacent_dup (map fst (sort_key fst fields)) \<longleftrightarrow> distinct (map fst fields)"
    using adjacent_dup_iff [OF sorted_sort_key [of fst fields]] d
    by (simp add: strict_sorted_iff)
  then show ?thesis by (auto simp: val_record_def Let_def)
qed

section \<open>Lemmas on expressions\<close>

lemma expr_collect_reads_append:
  "expr_collect_reads e out = out @ expr_reads e"
proof -
  have "\<forall>out. expr_collect_reads e out = out @ expr_collect_reads e []"
  proof (induction e)
    case (Bin op l r)
    then show ?case by (metis append.assoc expr_collect_reads.simps(4))
  qed auto
  then show ?thesis unfolding expr_reads_def by blast
qed

lemma expr_reads_simps [simp]:
  "expr_reads (Lit v) = []" "expr_reads (Load k) = [k]" "expr_reads (Arg i) = []"
  "expr_reads (Bin op l r) = expr_reads l @ expr_reads r"
  using expr_collect_reads_append [of r "expr_collect_reads l []"]
  by (simp_all add: expr_reads_def)

lemma expr_eval_unchecked_cong:
  "(\<And>k. k \<in> set (expr_reads e) \<Longrightarrow> st k = st' k) \<Longrightarrow>
     expr_eval_unchecked e st args = expr_eval_unchecked e st' args"
  by (induction e) auto

lemma expr_eval_cong:
  "(\<And>k. k \<in> set (expr_reads e) \<Longrightarrow> st k = st' k) \<Longrightarrow>
     expr_eval e st args = expr_eval e st' args"
  by (simp add: expr_eval_def Let_def expr_eval_unchecked_cong [of e st st'])

lemma expr_eval_within:
  "expr_depth e \<le> EXPR_DEPTH_MAX \<Longrightarrow> expr_eval e st args = expr_eval_unchecked e st args"
  by (simp add: expr_eval_def Let_def)

lemma expr_eval_unchecked_not_deep: "expr_eval_unchecked e st args \<noteq> Inl (ExprTooDeep d)"
proof (induction e)
  case (Bin op l r)
  have "as_int v \<noteq> Inl (ExprTooDeep d)" for v by (cases v) auto
  moreover have "bin_apply op a b \<noteq> Inl (ExprTooDeep d)" for a b
    by (cases op) (auto split: option.splits)
  ultimately show ?case using Bin by (auto simp: bindR_eq_Inl)
qed (auto split: option.splits)

text \<open>The mathematical meaning of an operation, \<open>None\<close> where it has none in the value range.\<close>

primrec bin_math :: "bin_op \<Rightarrow> nat \<Rightarrow> nat \<Rightarrow> nat option" where
  "bin_math BAdd a b = (if a + b < 2 ^ 128 then Some (a + b) else None)"
| "bin_math BSub a b = (if b \<le> a then Some (a - b) else None)"
| "bin_math BMul a b = (if a * b < 2 ^ 128 then Some (a * b) else None)"
| "bin_math BDiv a b = (if b = 0 then None else Some (a div b))"
| "bin_math BRem a b = (if b = 0 then None else Some (a mod b))"
| "bin_math BMin a b = Some (min a b)"
| "bin_math BMax a b = Some (max a b)"

lemma unat_eq_0: "unat w = 0 \<longleftrightarrow> w = 0"
  by (simp add: word_unat_eq_iff)

lemma word_div_nat: "a div b = word_of_nat (unat a div unat b)" for a b :: "'w::len word"
  by (simp flip: unat_div_distrib)

lemma word_mod_nat: "a mod b = word_of_nat (unat a mod unat b)" for a b :: "'w::len word"
  by (simp flip: unat_mod_distrib)

text \<open>
  Arithmetic is exact or refused: every operator returns the mathematical result when it lies in
  the 128-bit range, a division by zero is its own fault, and everything else is \<open>Overflow\<close>, so no
  result ever wraps.
\<close>

theorem bin_apply_exact:
  "bin_apply op a b =
     (case bin_math op (unat a) (unat b) of
        Some n \<Rightarrow> Inr (word_of_nat n)
      | None \<Rightarrow> Inl (if op = BDiv \<or> op = BRem then DivByZero else Overflow))"
  by (cases op)
     (auto simp: checked_add_def checked_sub_def checked_mul_def checked_div_def checked_rem_def
       word_div_nat word_mod_nat unat_eq_0 word_less_nat_alt word_le_nat_alt min_def max_def split: option.splits)

text \<open>
  A record answers a field exactly as the list it was built from: construction sorts the fields
  and refuses a repeated tag, and the binary search of a later access finds the field given for the tag.
\<close>

theorem val_record_field:
  "val_record fs =
     (if distinct (map fst fs) then Some (VRecord (sort_key fst fs)) else None) \<and>
   (distinct (map fst fs) \<longrightarrow> val_field (VRecord (sort_key fst fs)) tag =
     (case map_of fs tag of None \<Rightarrow> Inl TypeMismatch | Some v \<Rightarrow> Inr v))"
proof -
  have "val_field (VRecord (sort_key fst fs)) tag =
     (case map_of fs tag of None \<Rightarrow> Inl TypeMismatch | Some v \<Rightarrow> Inr v)" if d: "distinct (map fst fs)"
  proof -
    have s: "distinct (map fst (sort_key fst fs))" using d by (simp add: distinct_map)
    then have "map_of (sort_key fst fs) = map_of fs" using d by (intro map_of_inject_set [THEN iffD2]) auto
    with s show ?thesis by (subst val_field_map_of) (auto simp: strict_sorted_iff)
  qed
  moreover have "val_record fs = None" if "\<not> distinct (map fst fs)"
    using that val_record_Some by (metis not_Some_eq)
  ultimately show ?thesis by (simp add: val_record_Some)
qed

theorem val_record_field_witness:
  "val_field (VRecord (sort_key fst [(5, VInt 1), (2, VInt 3)])) 5 = Inr (VInt 1)"
  using val_record_field [of "[(5, VInt 1), (2, VInt 3)]" 5] by simp

end
