(* ===== verification/Ergon_Term.thy ===== *)
theory Ergon_Term
  imports Ergon_Value
begin

text \<open>
  The ERGON term algebra (\<open>fanos-ergon/src/lib.rs\<close>): footprints and their conflict test, effects,
  predicates, claims and terms, the derived footprint, nesting depth, size and cost of a term, and
  the admission check \<open>well_typed\<close>. The lemmas give every derived quantity a set-level or
  declarative meaning: the merge \<open>intersects\<close> is intersection, the derived footprint is the set of
  declared keys and loaded keys of the whole term, and a term passes \<open>well_typed\<close> iff it satisfies
  the declarative typing conditions.
\<close>

definition D_MAX :: nat where
  "D_MAX = 3"

datatype locality = LocEmpty | LocPoint u32 | LocLine u32 | LocPlaneWide

section \<open>Footprints\<close>

record footprint =
  reads :: "key list"
  writes :: "key list"

definition fp_empty :: footprint where
  "fp_empty = \<lparr>reads = [], writes = []\<rparr>"

definition fp_new :: "key list \<Rightarrow> key list \<Rightarrow> footprint" where
  "fp_new rs ws = \<lparr>reads = sort_dedup rs, writes = sort_dedup ws\<rparr>"

definition fp_width :: "footprint \<Rightarrow> nat" where
  "fp_width f = length (reads f) + length (writes f)"

definition fp_union :: "footprint \<Rightarrow> footprint \<Rightarrow> footprint" where
  "fp_union f g = fp_new (reads f @ reads g) (writes f @ writes g)"

text \<open>The linear merge of two sorted slices; the two indices are the remaining suffixes.\<close>

fun intersects :: "key list \<Rightarrow> key list \<Rightarrow> bool" where
  "intersects (x # xs) (y # ys) =
     (if x = y then True
      else if x < y then intersects xs (y # ys)
      else intersects (x # xs) ys)"
| "intersects _ _ = False"

definition fp_conflicts :: "footprint \<Rightarrow> footprint \<Rightarrow> bool" where
  "fp_conflicts f g =
     (intersects (writes f) (writes g) \<or> intersects (writes f) (reads g)
      \<or> intersects (reads f) (writes g))"

definition parallel_safe :: "footprint \<Rightarrow> footprint \<Rightarrow> bool" where
  "parallel_safe f g = (\<not> fp_conflicts f g)"

definition fp_points :: "footprint \<Rightarrow> u32 list" where
  "fp_points f = sort_dedup (map point (reads f @ writes f))"

definition fp_locality :: "(u32 list \<Rightarrow> u32 option) \<Rightarrow> footprint \<Rightarrow> locality" where
  "fp_locality common_line f =
     (case fp_points f of
        [] \<Rightarrow> LocEmpty
      | [p] \<Rightarrow> LocPoint p
      | many \<Rightarrow> (case common_line many of None \<Rightarrow> LocPlaneWide | Some l \<Rightarrow> LocLine l))"

text \<open>
  The fields of the Rust struct are private and every constructor normalises them, so a footprint
  value always satisfies \<open>fp_ok\<close>.
\<close>

definition fp_ok :: "footprint \<Rightarrow> bool" where
  "fp_ok f = (strict_sorted (reads f) \<and> strict_sorted (writes f))"

definition fp_keys :: "footprint \<Rightarrow> key set" where
  "fp_keys f = set (reads f) \<union> set (writes f)"

lemma fp_new_simps [simp]:
  "set (reads (fp_new rs ws)) = set rs" "set (writes (fp_new rs ws)) = set ws"
  "fp_ok (fp_new rs ws)"
  by (simp_all add: fp_new_def fp_ok_def)

lemma fp_empty_simps [simp]:
  "reads fp_empty = []" "writes fp_empty = []" "fp_ok fp_empty"
  by (simp_all add: fp_empty_def fp_ok_def)

lemma fp_union_simps [simp]:
  "set (reads (fp_union f g)) = set (reads f) \<union> set (reads g)"
  "set (writes (fp_union f g)) = set (writes f) \<union> set (writes g)"
  "fp_ok (fp_union f g)"
  by (simp_all add: fp_union_def)

lemma fp_okD: "fp_ok f \<Longrightarrow> sorted (reads f)" "fp_ok f \<Longrightarrow> sorted (writes f)"
  by (simp_all add: fp_ok_def strict_sorted_iff)

lemma fp_new_id: "fp_ok f \<Longrightarrow> fp_new (reads f) (writes f) = f"
  by (simp add: fp_new_def fp_ok_def sort_dedup_id)

lemma intersects_iff:
  "strict_sorted xs \<Longrightarrow> strict_sorted ys \<Longrightarrow> intersects xs ys \<longleftrightarrow> set xs \<inter> set ys \<noteq> {}"
  by (induction xs ys rule: intersects.induct) (auto dest: order.strict_trans)

lemma fp_conflicts_iff:
  assumes "fp_ok f" "fp_ok g"
  shows "fp_conflicts f g \<longleftrightarrow>
    set (writes f) \<inter> fp_keys g \<noteq> {} \<or> set (writes g) \<inter> fp_keys f \<noteq> {}"
  using assms by (auto simp: fp_conflicts_def fp_ok_def fp_keys_def intersects_iff)

section \<open>Effects, predicates, claims, terms\<close>

record effect =
  eff_kind :: u16
  eff_footprint :: footprint
  eff_args :: "expr list"
  eff_external :: bool

definition effect_internal :: "u16 \<Rightarrow> footprint \<Rightarrow> effect" where
  "effect_internal k f = \<lparr>eff_kind = k, eff_footprint = f, eff_args = [], eff_external = False\<rparr>"

definition effect_external :: "u16 \<Rightarrow> footprint \<Rightarrow> effect" where
  "effect_external k f = \<lparr>eff_kind = k, eff_footprint = f, eff_args = [], eff_external = True\<rparr>"

definition effect_with_args :: "effect \<Rightarrow> expr list \<Rightarrow> effect" where
  "effect_with_args e as = e\<lparr>eff_args := as\<rparr>"

definition effect_footprint :: "effect \<Rightarrow> footprint" where
  "effect_footprint e =
     (if eff_args e = [] then eff_footprint e
      else fp_new (fold expr_collect_reads (eff_args e) (reads (eff_footprint e)))
             (writes (eff_footprint e)))"

datatype predicate =
    PHost u16 "key list" "expr list"
  | PCompare cmp expr expr
  | PAnd "predicate list"
  | POr "predicate list"
  | PNot predicate

definition predicate_host :: "u16 \<Rightarrow> key list \<Rightarrow> predicate" where
  "predicate_host k rs = PHost k (sort_dedup rs) []"

definition predicate_host_with :: "u16 \<Rightarrow> key list \<Rightarrow> expr list \<Rightarrow> predicate" where
  "predicate_host_with k rs as = PHost k (sort_dedup rs) as"

fun pred_collect_reads :: "predicate \<Rightarrow> key list \<Rightarrow> key list" where
  "pred_collect_reads (PHost k rs as) out = fold expr_collect_reads as (out @ rs)"
| "pred_collect_reads (PCompare c l r) out = expr_collect_reads r (expr_collect_reads l out)"
| "pred_collect_reads (PAnd ps) out = fold pred_collect_reads ps out"
| "pred_collect_reads (POr ps) out = fold pred_collect_reads ps out"
| "pred_collect_reads (PNot p) out = pred_collect_reads p out"

definition pred_footprint :: "predicate \<Rightarrow> footprint" where
  "pred_footprint p = fp_new (pred_collect_reads p []) []"

fun pred_expr_depth :: "predicate \<Rightarrow> nat" where
  "pred_expr_depth (PHost k rs as) = max_or0 (map expr_depth as)"
| "pred_expr_depth (PCompare c l r) = max (expr_depth l) (expr_depth r)"
| "pred_expr_depth (PAnd ps) = max_or0 (map pred_expr_depth ps)"
| "pred_expr_depth (POr ps) = max_or0 (map pred_expr_depth ps)"
| "pred_expr_depth (PNot p) = pred_expr_depth p"

record claim =
  claim_kind :: u16
  claim_footprint :: footprint
  claim_proof_bytes :: u32

datatype ergon_term =
    Do effect
  | Seq "ergon_term list"
  | Par "ergon_term list"
  | Gate predicate ergon_term
  | Alt "(predicate \<times> ergon_term) list"
  | Prove claim

fun term_footprint :: "ergon_term \<Rightarrow> footprint" where
  "term_footprint (Do e) = effect_footprint e"
| "term_footprint (Seq ts) = foldl (\<lambda>acc t. fp_union acc (term_footprint t)) fp_empty ts"
| "term_footprint (Par ts) = foldl (\<lambda>acc t. fp_union acc (term_footprint t)) fp_empty ts"
| "term_footprint (Gate p t) = fp_union (term_footprint t) (pred_footprint p)"
| "term_footprint (Alt bs) =
     foldl (\<lambda>acc (p, t). fp_union (fp_union acc (term_footprint t)) (pred_footprint p)) fp_empty bs"
| "term_footprint (Prove c) = claim_footprint c"

definition term_locality :: "(u32 list \<Rightarrow> u32 option) \<Rightarrow> ergon_term \<Rightarrow> locality" where
  "term_locality common_line t = fp_locality common_line (term_footprint t)"

fun term_depth :: "ergon_term \<Rightarrow> nat" where
  "term_depth (Do e) = 0"
| "term_depth (Prove c) = 0"
| "term_depth (Seq ts) = 1 + max_or0 (map term_depth ts)"
| "term_depth (Par ts) = 1 + max_or0 (map term_depth ts)"
| "term_depth (Gate p t) = 1 + term_depth t"
| "term_depth (Alt bs) = 1 + max_or0 (map (\<lambda>(p, t). term_depth t) bs)"

fun term_size :: "ergon_term \<Rightarrow> nat" where
  "term_size (Do e) = 1"
| "term_size (Prove c) = 1"
| "term_size (Seq ts) = 1 + sum_list (map term_size ts)"
| "term_size (Par ts) = 1 + sum_list (map term_size ts)"
| "term_size (Gate p t) = 1 + term_size t"
| "term_size (Alt bs) = 1 + sum_list (map (\<lambda>(p, t). term_size t) bs)"

fun is_external :: "ergon_term \<Rightarrow> bool" where
  "is_external (Do e) = eff_external e"
| "is_external (Prove c) = False"
| "is_external (Seq ts) = list_ex is_external ts"
| "is_external (Par ts) = list_ex is_external ts"
| "is_external (Gate p t) = is_external t"
| "is_external (Alt bs) = list_ex (\<lambda>(p, t). is_external t) bs"

fun collect_kinds :: "ergon_term \<Rightarrow> u16 list \<Rightarrow> u16 list" where
  "collect_kinds (Do e) out = out @ [eff_kind e]"
| "collect_kinds (Prove c) out = out"
| "collect_kinds (Seq ts) out = fold collect_kinds ts out"
| "collect_kinds (Par ts) out = fold collect_kinds ts out"
| "collect_kinds (Gate p t) out = collect_kinds t out"
| "collect_kinds (Alt bs) out = fold (\<lambda>(p, t). collect_kinds t) bs out"

definition effect_kinds :: "ergon_term \<Rightarrow> u16 list" where
  "effect_kinds t = collect_kinds t []"

section \<open>The admission check\<close>

datatype type_error =
    TooDeep nat
  | ParallelConflict nat nat
  | EmptyCombinator
  | ProofTooLarge u32 u32
  | ExprTooDeepT nat nat
  | FootprintTooWide nat nat

record limits =
  proof_bytes_cap :: u32
  footprint_width_cap :: nat

definition limits_unbounded :: limits where
  "limits_unbounded = \<lparr>proof_bytes_cap = - 1, footprint_width_cap = 2 ^ 64 - 1\<rparr>"

fun expr_depth_of :: "ergon_term \<Rightarrow> nat" where
  "expr_depth_of (Do e) = max_or0 (map expr_depth (eff_args e))"
| "expr_depth_of (Seq ts) = max_or0 (map expr_depth_of ts)"
| "expr_depth_of (Par ts) = max_or0 (map expr_depth_of ts)"
| "expr_depth_of (Gate p t) = max (pred_expr_depth p) (expr_depth_of t)"
| "expr_depth_of (Alt bs) = max_or0 (map (\<lambda>(p, t). max (pred_expr_depth p) (expr_depth_of t)) bs)"
| "expr_depth_of (Prove c) = 0"

text \<open>\<open>try_for_each\<close>: the first error in order, or success.\<close>

fun first_err :: "('e + unit) list \<Rightarrow> 'e + unit" where
  "first_err [] = Inr ()"
| "first_err (Inl e # rs) = Inl e"
| "first_err (Inr _ # rs) = first_err rs"

text \<open>The two nested loops over the branch footprints: the first pair that is not parallel-safe.\<close>

definition first_conflict :: "footprint list \<Rightarrow> (nat \<times> nat) option" where
  "first_conflict prints =
     find (\<lambda>(i, j). \<not> parallel_safe (prints ! i) (prints ! j))
       [(i, j). i \<leftarrow> [0..<length prints], j \<leftarrow> [Suc i..<length prints]]"

fun check_structure :: "ergon_term \<Rightarrow> limits \<Rightarrow> type_error + unit" where
  "check_structure (Do e) lim = Inr ()"
| "check_structure (Prove c) lim =
     (if claim_proof_bytes c > proof_bytes_cap lim
      then Inl (ProofTooLarge (claim_proof_bytes c) (proof_bytes_cap lim)) else Inr ())"
| "check_structure (Seq ts) lim =
     (if ts = [] then Inl EmptyCombinator else first_err (map (\<lambda>t. check_structure t lim) ts))"
| "check_structure (Par ts) lim =
     (if ts = [] then Inl EmptyCombinator
      else case first_conflict (map term_footprint ts) of
             Some (i, j) \<Rightarrow> Inl (ParallelConflict i j)
           | None \<Rightarrow> first_err (map (\<lambda>t. check_structure t lim) ts))"
| "check_structure (Gate p t) lim = check_structure t lim"
| "check_structure (Alt bs) lim =
     (if bs = [] then Inl EmptyCombinator
      else first_err (map (\<lambda>(p, t). check_structure t lim) bs))"

definition well_typed :: "ergon_term \<Rightarrow> limits \<Rightarrow> type_error + unit" where
  "well_typed t lim =
     (let depth = term_depth t
      in if depth > D_MAX then Inl (TooDeep depth)
         else let ed = expr_depth_of t
              in if ed > EXPR_DEPTH_MAX then Inl (ExprTooDeepT ed EXPR_DEPTH_MAX)
                 else let width = fp_width (term_footprint t)
                      in if width > footprint_width_cap lim
                         then Inl (FootprintTooWide width (footprint_width_cap lim))
                         else check_structure t lim)"

text \<open>The price of a term, in \<open>u64\<close>: the sums wrap in a release build.\<close>

fun term_cost :: "ergon_term \<Rightarrow> u64" where
  "term_cost (Do e) = 1"
| "term_cost (Prove c) = 1 + ucast (claim_proof_bytes c) div 32"
| "term_cost (Seq ts) = 1 + sum_list (map term_cost ts)"
| "term_cost (Par ts) = 1 + sum_list (map term_cost ts)"
| "term_cost (Gate p t) = 1 + 1 + term_cost t"
| "term_cost (Alt bs) = 1 + word_of_nat (length bs) * 1 + fold max (map (\<lambda>(p, t). term_cost t) bs) 0"

section \<open>Set-level meaning of the derived footprint\<close>

fun pred_reads :: "predicate \<Rightarrow> key set" where
  "pred_reads (PHost k rs as) = set rs \<union> (\<Union>a \<in> set as. set (expr_reads a))"
| "pred_reads (PCompare c l r) = set (expr_reads l) \<union> set (expr_reads r)"
| "pred_reads (PAnd ps) = (\<Union>p \<in> set ps. pred_reads p)"
| "pred_reads (POr ps) = (\<Union>p \<in> set ps. pred_reads p)"
| "pred_reads (PNot p) = pred_reads p"

fun term_reads :: "ergon_term \<Rightarrow> key set" where
  "term_reads (Do e) =
     set (reads (eff_footprint e)) \<union> (\<Union>a \<in> set (eff_args e). set (expr_reads a))"
| "term_reads (Seq ts) = (\<Union>t \<in> set ts. term_reads t)"
| "term_reads (Par ts) = (\<Union>t \<in> set ts. term_reads t)"
| "term_reads (Gate p t) = pred_reads p \<union> term_reads t"
| "term_reads (Alt bs) = (\<Union>(p, t) \<in> set bs. pred_reads p \<union> term_reads t)"
| "term_reads (Prove c) = set (reads (claim_footprint c))"

fun term_writes :: "ergon_term \<Rightarrow> key set" where
  "term_writes (Do e) = set (writes (eff_footprint e))"
| "term_writes (Seq ts) = (\<Union>t \<in> set ts. term_writes t)"
| "term_writes (Par ts) = (\<Union>t \<in> set ts. term_writes t)"
| "term_writes (Gate p t) = term_writes t"
| "term_writes (Alt bs) = (\<Union>(p, t) \<in> set bs. term_writes t)"
| "term_writes (Prove c) = set (writes (claim_footprint c))"

abbreviation term_keys :: "ergon_term \<Rightarrow> key set" where
  "term_keys t \<equiv> term_reads t \<union> term_writes t"

text \<open>Every declared footprint in the term is normalised, as the Rust type guarantees.\<close>

fun fps_ok :: "ergon_term \<Rightarrow> bool" where
  "fps_ok (Do e) = fp_ok (eff_footprint e)"
| "fps_ok (Seq ts) = list_all fps_ok ts"
| "fps_ok (Par ts) = list_all fps_ok ts"
| "fps_ok (Gate p t) = fps_ok t"
| "fps_ok (Alt bs) = list_all (\<lambda>(p, t). fps_ok t) bs"
| "fps_ok (Prove c) = fp_ok (claim_footprint c)"

lemma set_fold_expr_collect:
  "set (fold expr_collect_reads as out) = set out \<union> (\<Union>a \<in> set as. set (expr_reads a))"
  by (induction as arbitrary: out) (auto simp: expr_collect_reads_append)

lemma effect_footprint_sets:
  "set (reads (effect_footprint e)) =
     set (reads (eff_footprint e)) \<union> (\<Union>a \<in> set (eff_args e). set (expr_reads a))"
  "set (writes (effect_footprint e)) = set (writes (eff_footprint e))"
  "fp_ok (eff_footprint e) \<Longrightarrow> fp_ok (effect_footprint e)"
  by (simp_all add: effect_footprint_def set_fold_expr_collect)

lemma set_pred_collect_reads: "set (pred_collect_reads p out) = set out \<union> pred_reads p"
proof (induction p out rule: pred_collect_reads.induct)
  have fold_reads: "set (fold pred_collect_reads ps out) = set out \<union> (\<Union>p \<in> set ps. pred_reads p)"
    if "\<And>p out. p \<in> set ps \<Longrightarrow> set (pred_collect_reads p out) = set out \<union> pred_reads p" for ps out
    using that by (induction ps arbitrary: out) auto
  {
    case (3 ps out)
    then show ?case using fold_reads [of ps out] by auto
  next
    case (4 ps out)
    then show ?case using fold_reads [of ps out] by auto
  }
qed (auto simp: set_fold_expr_collect expr_collect_reads_append)

lemma pred_footprint_simps [simp]:
  "set (reads (pred_footprint p)) = pred_reads p" "set (writes (pred_footprint p)) = {}"
  "fp_ok (pred_footprint p)"
  by (simp_all add: pred_footprint_def set_pred_collect_reads)

lemma foldl_union_sets:
  "set (reads (foldl (\<lambda>acc t. fp_union acc (g t)) f ts)) =
     set (reads f) \<union> (\<Union>t \<in> set ts. set (reads (g t)))"
  "set (writes (foldl (\<lambda>acc t. fp_union acc (g t)) f ts)) =
     set (writes f) \<union> (\<Union>t \<in> set ts. set (writes (g t)))"
  by (induction ts arbitrary: f) auto

lemma foldl_union2_sets:
  "set (reads (foldl (\<lambda>acc (p, t). fp_union (fp_union acc (g t)) (h p)) f bs)) =
     set (reads f) \<union> (\<Union>(p, t) \<in> set bs. set (reads (h p)) \<union> set (reads (g t)))"
  "set (writes (foldl (\<lambda>acc (p, t). fp_union (fp_union acc (g t)) (h p)) f bs)) =
     set (writes f) \<union> (\<Union>(p, t) \<in> set bs. set (writes (h p)) \<union> set (writes (g t)))"
  by (induction bs arbitrary: f) (auto simp: case_prod_beta)

lemma foldl_union_ok:
  "fp_ok f \<Longrightarrow> fp_ok (foldl (\<lambda>acc t. fp_union acc (g t)) f ts)"
  by (induction ts arbitrary: f) auto

lemma foldl_union2_ok:
  "fp_ok f \<Longrightarrow> fp_ok (foldl (\<lambda>acc (p, t). fp_union (fp_union acc (g t)) (h p)) f bs)"
  by (induction bs arbitrary: f) (auto simp: case_prod_beta)

lemma term_footprint_reads: "set (reads (term_footprint t)) = term_reads t"
  by (induction t rule: term_footprint.induct)
     (auto simp: effect_footprint_sets foldl_union_sets foldl_union2_sets)

lemma term_footprint_writes: "set (writes (term_footprint t)) = term_writes t"
  by (induction t rule: term_footprint.induct)
     (auto simp: effect_footprint_sets foldl_union_sets foldl_union2_sets)

lemma term_footprint_ok: "fps_ok t \<Longrightarrow> fp_ok (term_footprint t)"
  by (induction t rule: term_footprint.induct)
     (auto simp: effect_footprint_sets foldl_union_ok foldl_union2_ok)

lemmas term_footprint_sets = term_footprint_reads term_footprint_writes

section \<open>Declarative typing\<close>

definition terms_disjoint :: "ergon_term \<Rightarrow> ergon_term \<Rightarrow> bool" where
  "terms_disjoint t u \<longleftrightarrow>
     term_writes t \<inter> term_keys u = {} \<and> term_writes u \<inter> term_keys t = {}"

lemma parallel_safe_iff:
  assumes "fps_ok t" "fps_ok u"
  shows "parallel_safe (term_footprint t) (term_footprint u) \<longleftrightarrow> terms_disjoint t u"
  using assms
  by (auto simp: parallel_safe_def fp_conflicts_iff term_footprint_ok fp_keys_def
      term_footprint_sets terms_disjoint_def)

fun structure_ok :: "limits \<Rightarrow> ergon_term \<Rightarrow> bool" where
  "structure_ok lim (Do e) = True"
| "structure_ok lim (Prove c) = (claim_proof_bytes c \<le> proof_bytes_cap lim)"
| "structure_ok lim (Seq ts) = (ts \<noteq> [] \<and> list_all (structure_ok lim) ts)"
| "structure_ok lim (Par ts) =
     (ts \<noteq> [] \<and> sorted_wrt terms_disjoint ts \<and> list_all (structure_ok lim) ts)"
| "structure_ok lim (Gate p t) = structure_ok lim t"
| "structure_ok lim (Alt bs) = (bs \<noteq> [] \<and> list_all (\<lambda>(p, t). structure_ok lim t) bs)"

lemma first_err_ok: "first_err rs = Inr () \<longleftrightarrow> list_all (\<lambda>r. r = Inr ()) rs"
  by (induction rs rule: first_err.induct) auto

lemma first_conflict_None:
  "first_conflict prints = None \<longleftrightarrow> sorted_wrt parallel_safe prints"
proof -
  have "set [(i, j). i \<leftarrow> [0..<length prints], j \<leftarrow> [Suc i..<length prints]] =
    {(i, j). i < j \<and> j < length prints}"
    apply auto
    subgoal for i j by (rule bexI [of _ i]) auto
    done
  then show ?thesis
    unfolding first_conflict_def find_None_iff sorted_wrt_iff_nth_less by auto
qed

lemma first_conflict_terms:
  assumes "list_all fps_ok ts"
  shows "first_conflict (map term_footprint ts) = None \<longleftrightarrow> sorted_wrt terms_disjoint ts"
proof -
  have "sorted_wrt (\<lambda>t u. parallel_safe (term_footprint t) (term_footprint u)) ts \<longleftrightarrow>
    sorted_wrt terms_disjoint ts"
    using assms by (induction ts) (auto simp: list_all_iff parallel_safe_iff)
  then show ?thesis by (simp add: first_conflict_None sorted_wrt_map)
qed

lemma check_structure_ok: "fps_ok t \<Longrightarrow> check_structure t lim = Inr () \<longleftrightarrow> structure_ok lim t"
proof (induction t lim rule: check_structure.induct)
  case (4 ts lim)
  then have "first_conflict (map term_footprint ts) = None \<longleftrightarrow> sorted_wrt terms_disjoint ts"
    by (intro first_conflict_terms) simp
  with 4 show ?case
    by (cases "first_conflict (map term_footprint ts)")
       (auto simp: first_err_ok list_all_iff)
next
  case (6 bs lim)
  have "check_structure t lim = Inr () \<longleftrightarrow> structure_ok lim t" if "(p, t) \<in> set bs" for p t
  proof (rule "6.IH" [of "(p, t)" p t])
    show "fps_ok t" using "6.prems" that by (auto simp: list_all_iff)
  qed (use that in auto)
  then show ?case by (auto simp: first_err_ok list_all_iff)
qed (auto simp: first_err_ok list_all_iff not_less)

lemma fp_width_card:
  assumes "fps_ok t"
  shows "fp_width (term_footprint t) = card (term_reads t) + card (term_writes t)"
proof -
  have "distinct (reads (term_footprint t))" "distinct (writes (term_footprint t))"
    using term_footprint_ok [OF assms] by (auto simp: fp_ok_def strict_sorted_iff)
  then show ?thesis
    by (simp add: fp_width_def flip: distinct_card term_footprint_sets)
qed

lemma well_typed_ok:
  assumes "fps_ok t"
  shows "well_typed t lim = Inr () \<longleftrightarrow>
    term_depth t \<le> D_MAX \<and> expr_depth_of t \<le> EXPR_DEPTH_MAX \<and>
    fp_width (term_footprint t) \<le> footprint_width_cap lim \<and> structure_ok lim t"
  using check_structure_ok [OF assms, of lim] by (auto simp: well_typed_def Let_def)

text \<open>
  The type checker decides the declarative typing: a term whose declared footprints are sorted and free of duplicates
  (as \<open>Footprint::new\<close> makes them) passes iff it nests at most \<open>D_MAX\<close> deep, its expressions at most
  \<open>EXPR_DEPTH_MAX\<close>, the number of keys it reads plus the number of keys it writes is within the cap (a key both read and
  written counts twice), no composite is empty, every proof is within the cap, and the children of every \<open>Par\<close> are
  pairwise disjoint: neither writes a key the other reads or writes.
\<close>

theorem well_typed_iff:
  assumes "fps_ok t"
  shows "well_typed t lim = Inr () \<longleftrightarrow>
    term_depth t \<le> D_MAX \<and> expr_depth_of t \<le> EXPR_DEPTH_MAX \<and>
    card (term_reads t) + card (term_writes t) \<le> footprint_width_cap lim \<and> structure_ok lim t"
  by (simp add: well_typed_ok [OF assms] fp_width_card [OF assms])

definition toy_touch :: "u32 \<Rightarrow> ergon_term" where
  "toy_touch p = Do (effect_internal 1 (fp_new [key_small p 0 0] [key_small p 0 0]))"

lemma toy_touch_sets: "fps_ok (toy_touch p)" "term_reads (toy_touch p) = {key_small p 0 0}" "term_writes (toy_touch p) = {key_small p 0 0}"
  by (simp_all add: toy_touch_def effect_internal_def)

lemma key_small_inj: "key_small p 0 0 = key_small q 0 0 \<longleftrightarrow> p = q"
  by (simp add: key_small_def)

theorem well_typed_iff_witness:
  "well_typed (Par [toy_touch 1, toy_touch 2]) \<lparr>proof_bytes_cap = 0, footprint_width_cap = 4\<rparr> = Inr () \<and>
   well_typed (Par [toy_touch 1, toy_touch 1]) \<lparr>proof_bytes_cap = 0, footprint_width_cap = 4\<rparr> \<noteq> Inr ()"
  using well_typed_iff [of "Par [toy_touch 1, toy_touch 2]" "\<lparr>proof_bytes_cap = 0, footprint_width_cap = 4\<rparr>"]
    well_typed_iff [of "Par [toy_touch 1, toy_touch 1]" "\<lparr>proof_bytes_cap = 0, footprint_width_cap = 4\<rparr>"]
  by (simp add: toy_touch_sets terms_disjoint_def key_small_inj) (simp add: toy_touch_def effect_internal_def D_MAX_def)

text \<open>
  The documentation of \<open>Footprint::width\<close> and of the cap speaks of distinct keys touched; a term that reads and writes
  one key is refused under a cap of one.
\<close>

theorem shared_key_counts_twice:
  "well_typed (toy_touch p) \<lparr>proof_bytes_cap = 0, footprint_width_cap = 1\<rparr> = Inl (FootprintTooWide 2 1)"
proof -
  have "fp_width (term_footprint (toy_touch p)) = 2" using fp_width_card [OF toy_touch_sets(1)] by (simp add: toy_touch_sets)
  then show ?thesis by (simp add: well_typed_def Let_def) (simp add: toy_touch_def effect_internal_def D_MAX_def)
qed

end
