(* ===== verification/Ergon_Exec.thy ===== *)
theory Ergon_Exec
  imports Ergon_Term
begin

text \<open>
  Execution of ERGON terms (\<open>fanos-ergon/src/exec.rs\<close>): the host interface, the confined state
  views, the undo journal and the evaluator. A host rule is native code that the evaluator hands a
  state view; it is modelled as the tree of its interactions with that view (\<open>act\<close>: a sequence of
  reads and writes that ends in a result), so a theorem about every tree is a theorem about every
  rule. The lemmas show that execution is confined to the derived footprint, depends on nothing
  else, and that the children of a \<open>Par\<close> behave as if each ran alone on the pre-state.
\<close>

section \<open>Host rules as interaction trees\<close>

datatype 'a act = Ret 'a | GetK key "val option \<Rightarrow> 'a act" | SetK key val "'a act"

datatype 'a ract = RRet 'a | RGetK key "val option \<Rightarrow> 'a ract"

text \<open>
  The trait \<open>Host\<close>. The host has a state of its own (\<open>&mut self\<close>), which an effect may change; a
  predicate and a verification only read it.
\<close>

record 'h host =
  host_effect :: "'h \<Rightarrow> u16 \<Rightarrow> val list \<Rightarrow> ('h \<times> (fault + unit)) act"
  host_predicate :: "'h \<Rightarrow> u16 \<Rightarrow> key list \<Rightarrow> val list \<Rightarrow> (fault + bool) ract"
  host_verify :: "'h \<Rightarrow> claim \<Rightarrow> fault + bool"

text \<open>The default \<open>verify\<close> of the trait refuses every claim.\<close>

definition default_verify :: "'h \<Rightarrow> claim \<Rightarrow> fault + bool" where
  "default_verify h c = Inr False"

type_synonym store = "key \<Rightarrow> val option"

section \<open>The undo journal\<close>

record journal =
  jinner :: store
  jundo :: "(key \<times> val option) list"

definition journal_new :: "store \<Rightarrow> journal" where
  "journal_new s = \<lparr>jinner = s, jundo = []\<rparr>"

definition journal_get :: "journal \<Rightarrow> key \<Rightarrow> val option" where
  "journal_get j k = jinner j k"

definition journal_set :: "journal \<Rightarrow> key \<Rightarrow> val \<Rightarrow> journal" where
  "journal_set j k v =
     (let undo = (if list_ex (\<lambda>(k', _). k' = k) (jundo j) then jundo j
                  else jundo j @ [(k, jinner j k)])
      in \<lparr>jinner = (jinner j)(k \<mapsto> v), jundo = undo\<rparr>)"

text \<open>
  \<open>rollback\<close> pops the log from its end. A key that was absent is written back as \<open>Int(0)\<close>, since the
  trait has no removal.
\<close>

definition rollback_entry :: "key \<times> val option \<Rightarrow> store \<Rightarrow> store" where
  "rollback_entry e s =
     (case e of (k, before) \<Rightarrow> s(k \<mapsto> (case before of Some v \<Rightarrow> v | None \<Rightarrow> VInt 0)))"

definition journal_rollback :: "journal \<Rightarrow> journal" where
  "journal_rollback j = \<lparr>jinner = fold rollback_entry (rev (jundo j)) (jinner j), jundo = []\<rparr>"

section \<open>Confined views\<close>

text \<open>\<open>Confined::record\<close> keeps the first violation only.\<close>

definition confined_record :: "key option \<Rightarrow> key \<Rightarrow> key option" where
  "confined_record viol k = (case viol of None \<Rightarrow> Some k | Some k' \<Rightarrow> Some k')"

text \<open>
  Running a rule against the \<open>Confined\<close> view: \<open>get\<close> and \<open>set\<close> of the view, threaded through the
  rule's interactions, with the violation cell.
\<close>

primrec run_confined ::
    "'a act \<Rightarrow> footprint \<Rightarrow> journal \<Rightarrow> key option \<Rightarrow> 'a \<times> journal \<times> key option" where
  "run_confined (Ret x) fp j viol = (x, j, viol)"
| "run_confined (GetK k c) fp j viol =
     (if \<not> binary_search k (reads fp) \<and> \<not> binary_search k (writes fp)
      then run_confined (c None) fp j (confined_record viol k)
      else run_confined (c (journal_get j k)) fp j viol)"
| "run_confined (SetK k v c) fp j viol =
     (if \<not> binary_search k (writes fp)
      then run_confined c fp j (confined_record viol k)
      else run_confined c fp (journal_set j k v) viol)"

primrec run_confined_reader ::
    "'a ract \<Rightarrow> key list \<Rightarrow> store \<Rightarrow> key option \<Rightarrow> 'a \<times> key option" where
  "run_confined_reader (RRet x) rs st viol = (x, viol)"
| "run_confined_reader (RGetK k c) rs st viol =
     (if k \<notin> set rs then run_confined_reader (c None) rs st (confined_record viol k)
      else run_confined_reader (c (st k)) rs st viol)"

section \<open>The evaluator\<close>

record receipt =
  rc_effects :: nat
  rc_predicates :: nat
  rc_claims :: nat
  rc_declined :: nat

definition receipt_default :: receipt where
  "receipt_default = \<lparr>rc_effects = 0, rc_predicates = 0, rc_claims = 0, rc_declined = 0\<rparr>"

text \<open>The loop that evaluates argument expressions, stopping at the first fault.\<close>

primrec eval_args :: "expr list \<Rightarrow> store \<Rightarrow> val list \<Rightarrow> fault + val list" where
  "eval_args [] st args = Inr []"
| "eval_args (a # as) st args =
     bindR (expr_eval a st args) (\<lambda>v. bindR (eval_args as st args) (\<lambda>vs. Inr (v # vs)))"

fun eval_predicate ::
      "'h host \<Rightarrow> 'h \<Rightarrow> val list \<Rightarrow> store \<Rightarrow> predicate \<Rightarrow> receipt \<Rightarrow> (fault + bool) \<times> receipt"
  and eval_and :: "'h host \<Rightarrow> 'h \<Rightarrow> val list \<Rightarrow> store \<Rightarrow> predicate list \<Rightarrow> receipt \<Rightarrow> (fault + bool) \<times> receipt"
  and eval_or :: "'h host \<Rightarrow> 'h \<Rightarrow> val list \<Rightarrow> store \<Rightarrow> predicate list \<Rightarrow> receipt \<Rightarrow> (fault + bool) \<times> receipt"
where
  "eval_predicate H h args st (PHost kind rs exprs) rc =
     (let rc = rc\<lparr>rc_predicates := rc_predicates rc + 1\<rparr>
      in (case eval_args exprs st args of
            Inl f \<Rightarrow> (Inl f, rc)
          | Inr evaluated \<Rightarrow>
              (case run_confined_reader (host_predicate H h kind rs evaluated) rs st None of
                 (verdict, Some k) \<Rightarrow> (Inl (OutsideFootprint k), rc)
               | (verdict, None) \<Rightarrow> (verdict, rc))))"
| "eval_predicate H h args st (PCompare op lhs rhs) rc =
     (let rc = rc\<lparr>rc_predicates := rc_predicates rc + 1\<rparr>
      in (bindR (expr_eval lhs st args) (\<lambda>a. bindR (expr_eval rhs st args) (\<lambda>b. cmp_apply op a b)), rc))"
| "eval_predicate H h args st (PAnd ps) rc =
     eval_and H h args st ps (rc\<lparr>rc_predicates := rc_predicates rc + 1\<rparr>)"
| "eval_predicate H h args st (POr ps) rc =
     eval_or H h args st ps (rc\<lparr>rc_predicates := rc_predicates rc + 1\<rparr>)"
| "eval_predicate H h args st (PNot p) rc =
     (case eval_predicate H h args st p (rc\<lparr>rc_predicates := rc_predicates rc + 1\<rparr>) of
        (r, rc) \<Rightarrow> (bindR r (\<lambda>b. Inr (\<not> b)), rc))"
| "eval_and H h args st [] rc = (Inr True, rc)"
| "eval_and H h args st (p # ps) rc =
     (case eval_predicate H h args st p rc of
        (Inl f, rc) \<Rightarrow> (Inl f, rc)
      | (Inr b, rc) \<Rightarrow> (if \<not> b then (Inr False, rc) else eval_and H h args st ps rc))"
| "eval_or H h args st [] rc = (Inr False, rc)"
| "eval_or H h args st (p # ps) rc =
     (case eval_predicate H h args st p rc of
        (Inl f, rc) \<Rightarrow> (Inl f, rc)
      | (Inr b, rc) \<Rightarrow> (if b then (Inr True, rc) else eval_or H h args st ps rc))"

text \<open>
  A host rule behind the confined view, for an effect and for a proven claim alike: the violation
  is consulted before the rule's own outcome.
\<close>

definition confined_effect ::
    "'h host \<Rightarrow> footprint \<Rightarrow> u16 \<Rightarrow> val list \<Rightarrow> 'h \<Rightarrow> journal \<Rightarrow> (fault + unit) \<times> 'h \<times> journal" where
  "confined_effect H fp kind vs h j =
     (case run_confined (host_effect H h kind vs) fp j None of
        ((h', outcome), j', viol) \<Rightarrow>
          (case viol of Some k \<Rightarrow> Inl (OutsideFootprint k) | None \<Rightarrow> outcome, h', j'))"

fun run ::
      "'h host \<Rightarrow> val list \<Rightarrow> ergon_term \<Rightarrow> 'h \<Rightarrow> journal \<Rightarrow> receipt \<Rightarrow>
       (fault + unit) \<times> 'h \<times> journal \<times> receipt"
  and run_list ::
      "'h host \<Rightarrow> val list \<Rightarrow> ergon_term list \<Rightarrow> 'h \<Rightarrow> journal \<Rightarrow> receipt \<Rightarrow>
       (fault + unit) \<times> 'h \<times> journal \<times> receipt"
  and run_alt ::
      "'h host \<Rightarrow> val list \<Rightarrow> (predicate \<times> ergon_term) list \<Rightarrow> 'h \<Rightarrow> journal \<Rightarrow> receipt \<Rightarrow>
       (fault + unit) \<times> 'h \<times> journal \<times> receipt"
where
  "run H args (Do e) h j rc =
     (case eval_args (eff_args e) (journal_get j) args of
        Inl f \<Rightarrow> (Inl f, h, j, rc)
      | Inr evaluated \<Rightarrow>
          (case confined_effect H (effect_footprint e) (eff_kind e) evaluated h j of
             (Inl f, h', j') \<Rightarrow> (Inl f, h', j', rc)
           | (Inr _, h', j') \<Rightarrow> (Inr (), h', j', rc\<lparr>rc_effects := rc_effects rc + 1\<rparr>)))"
| "run H args (Seq ts) h j rc = run_list H args ts h j rc"
| "run H args (Par ts) h j rc = run_list H args ts h j rc"
| "run H args (Gate p t) h j rc =
     (case eval_predicate H h args (journal_get j) p rc of
        (Inl f, rc) \<Rightarrow> (Inl f, h, j, rc)
      | (Inr b, rc) \<Rightarrow> (if b then run H args t h j rc else (Inr (), h, j, rc)))"
| "run H args (Alt bs) h j rc = run_alt H args bs h j rc"
| "run H args (Prove c) h j rc =
     (case host_verify H h c of
        Inl f \<Rightarrow> (Inl f, h, j, rc)
      | Inr verified \<Rightarrow>
          (if \<not> verified then (Inl (ClaimUnproven (claim_kind c)), h, j, rc)
           else case confined_effect H (claim_footprint c) (claim_kind c) [] h j of
                  (Inl f, h', j') \<Rightarrow> (Inl f, h', j', rc)
                | (Inr _, h', j') \<Rightarrow> (Inr (), h', j', rc\<lparr>rc_claims := rc_claims rc + 1\<rparr>)))"
| "run_list H args [] h j rc = (Inr (), h, j, rc)"
| "run_list H args (t # ts) h j rc =
     (case run H args t h j rc of
        (Inl f, h', j', rc') \<Rightarrow> (Inl f, h', j', rc')
      | (Inr _, h', j', rc') \<Rightarrow> run_list H args ts h' j' rc')"
| "run_alt H args [] h j rc = (Inr (), h, j, rc)"
| "run_alt H args ((p, t) # bs) h j rc =
     (case eval_predicate H h args (journal_get j) p rc of
        (Inl f, rc) \<Rightarrow> (Inl f, h, j, rc)
      | (Inr b, rc) \<Rightarrow>
          (if b then run H args t h j rc
           else run_alt H args bs h j (rc\<lparr>rc_declined := rc_declined rc + 1\<rparr>)))"

text \<open>
  The entry point. \<open>Checked\<close> is a term that passed \<open>well_typed\<close>; the result carries the host and
  the state after the call, and on a fault the journal is rolled back.
\<close>

definition checked_new :: "ergon_term \<Rightarrow> limits \<Rightarrow> type_error + ergon_term" where
  "checked_new t lim = bindR (well_typed t lim) (\<lambda>_. Inr t)"

definition ergon_eval ::
    "'h host \<Rightarrow> ergon_term \<Rightarrow> val list \<Rightarrow> 'h \<Rightarrow> store \<Rightarrow> (fault + receipt) \<times> 'h \<times> store" where
  "ergon_eval H t args h s =
     (case run H args t h (journal_new s) receipt_default of
        (Inr _, h', j, rc) \<Rightarrow> (Inr rc, h', jinner j)
      | (Inl f, h', j, rc) \<Rightarrow> (Inl f, h', jinner (journal_rollback j)))"

section \<open>Journals\<close>

lemma journal_set_inner [simp]: "jinner (journal_set j k v) = (jinner j)(k \<mapsto> v)"
  by (simp add: journal_set_def Let_def)

lemma journal_new_inner [simp]: "jinner (journal_new s) = s" "jundo (journal_new s) = []"
  by (simp_all add: journal_new_def)

text \<open>
  The journal invariant: the log holds the pre-state value of every key written since the journal
  was opened on \<open>s\<close>, once, and every other key still has its pre-state value.
\<close>

definition journal_inv :: "store \<Rightarrow> journal \<Rightarrow> bool" where
  "journal_inv s j \<longleftrightarrow>
     (\<forall>(k, b) \<in> set (jundo j). b = s k) \<and> distinct (map fst (jundo j)) \<and>
     (\<forall>k. k \<notin> fst ` set (jundo j) \<longrightarrow> jinner j k = s k)"

lemma journal_inv_new: "journal_inv s (journal_new s)"
  by (simp add: journal_inv_def)

lemma journal_inv_set: "journal_inv s j \<Longrightarrow> journal_inv s (journal_set j k v)"
proof (cases "k \<in> fst ` set (jundo j)")
  case True
  moreover from True have "list_ex (\<lambda>(k', _). k' = k) (jundo j)"
    by (force simp: list_ex_iff)
  moreover assume "journal_inv s j"
  ultimately show ?thesis by (auto simp: journal_inv_def journal_set_def Let_def)
next
  case False
  then have "\<not> list_ex (\<lambda>(k', _). k' = k) (jundo j)" by (force simp: list_ex_iff)
  moreover assume "journal_inv s j"
  ultimately show ?thesis using False
    by (auto simp: journal_inv_def journal_set_def Let_def)
qed

text \<open>What the rollback of a log over pre-state \<open>s\<close> leaves at a key.\<close>

definition restored :: "store \<Rightarrow> key \<Rightarrow> val option" where
  "restored s k = (case s k of Some v \<Rightarrow> Some v | None \<Rightarrow> Some (VInt 0))"

lemma fold_rollback:
  assumes "\<forall>(k, b) \<in> set es. b = s k"
  shows "fold rollback_entry es m k = (if k \<in> fst ` set es then restored s k else m k)"
  using assms
proof (induction es arbitrary: m)
  case (Cons e es)
  obtain k' b where e: "e = (k', b)" by (cases e)
  with Cons show ?case
    by (auto simp: rollback_entry_def restored_def split: option.splits)
qed simp

lemma rollback_restores:
  assumes "journal_inv s j"
  shows "jinner (journal_rollback j) k = (if k \<in> fst ` set (jundo j) then restored s k else s k)"
  using assms fold_rollback [of "rev (jundo j)" s "jinner j" k]
  by (auto simp: journal_rollback_def journal_inv_def)

section \<open>Preservation: what a run may do to the journal\<close>

abbreviation res_j :: "'r \<times> 'h \<times> journal \<times> 'c \<Rightarrow> journal" where
  "res_j x \<equiv> fst (snd (snd x))"

lemma run_confined_inv:
  assumes "\<And>j k v. k \<in> set (writes fp) \<Longrightarrow> P j \<Longrightarrow> P (journal_set j k v)" "fp_ok fp" "P j"
  shows "P (fst (snd (run_confined a fp j viol)))"
  using assms(3)
proof (induction a arbitrary: j viol)
  case (SetK k v c)
  then show ?case using assms(1,2) by (simp add: fp_okD)
qed simp_all

lemma confined_effect_inv:
  assumes "\<And>j k v. k \<in> set (writes fp) \<Longrightarrow> P j \<Longrightarrow> P (journal_set j k v)" "fp_ok fp" "P j"
  shows "P (snd (snd (confined_effect H fp kind vs h j)))"
  using run_confined_inv [of fp P j "host_effect H h kind vs" None, OF assms]
  by (simp add: confined_effect_def case_prod_beta)

lemma run_inv:
  "fps_ok t \<Longrightarrow> (\<And>j k v. k \<in> term_writes t \<Longrightarrow> P j \<Longrightarrow> P (journal_set j k v)) \<Longrightarrow> P j \<Longrightarrow>
     P (res_j (run H args t h j rc))"
  "list_all fps_ok ts \<Longrightarrow>
     (\<And>j k v. k \<in> (\<Union>t \<in> set ts. term_writes t) \<Longrightarrow> P j \<Longrightarrow> P (journal_set j k v)) \<Longrightarrow> P j \<Longrightarrow>
     P (res_j (run_list H args ts h j rc))"
  "list_all (\<lambda>(p, t). fps_ok t) bs \<Longrightarrow>
     (\<And>j k v. k \<in> (\<Union>(p, t) \<in> set bs. term_writes t) \<Longrightarrow> P j \<Longrightarrow> P (journal_set j k v)) \<Longrightarrow> P j \<Longrightarrow>
     P (res_j (run_alt H args bs h j rc))"
proof (induction H args t h j rc and H args ts h j rc and H args bs h j rc
    rule: run_run_list_run_alt.induct)
  case (1 H args e h j rc)
  have "P (snd (snd (confined_effect H (effect_footprint e) (eff_kind e) vs h j)))" for vs
    by (rule confined_effect_inv) (use 1 in \<open>auto simp: effect_footprint_sets\<close>)
  then show ?case using 1(3)
    by (simp split: sum.splits prod.splits) (metis snd_conv)
next
  case (6 H args c h j rc)
  have "P (snd (snd (confined_effect H (claim_footprint c) (claim_kind c) [] h j)))"
    by (rule confined_effect_inv) (use 6 in auto)
  then show ?case using 6(3) by (auto split: sum.splits prod.splits)
next
  case (8 H args t ts h j rc)
  then show ?case by (auto split: sum.splits prod.splits)
qed (auto split: sum.splits prod.splits)

section \<open>Dependence: what a run may observe\<close>

text \<open>
  Two journals agree on \<open>K\<close> when they hold the same values there; with the flag set they have also
  logged the same keys.
\<close>

definition agree :: "bool \<Rightarrow> key set \<Rightarrow> journal \<Rightarrow> journal \<Rightarrow> bool" where
  "agree b K j j' \<longleftrightarrow>
     (\<forall>k \<in> K. jinner j k = jinner j' k) \<and> (b \<longrightarrow> map fst (jundo j) = map fst (jundo j'))"

definition res_agree ::
    "bool \<Rightarrow> key set \<Rightarrow> 'r \<times> 'h \<times> journal \<times> 'c \<Rightarrow> 'r \<times> 'h \<times> journal \<times> 'c \<Rightarrow> bool" where
  "res_agree b K R S \<longleftrightarrow>
     fst R = fst S \<and> fst (snd R) = fst (snd S) \<and> agree b K (res_j R) (res_j S) \<and>
     snd (snd (snd R)) = snd (snd (snd S))"

lemma res_agree_Pair [simp]:
  "res_agree b K (r, h, j, c) (r', h', j', c') \<longleftrightarrow> r = r' \<and> h = h' \<and> agree b K j j' \<and> c = c'"
  by (simp add: res_agree_def)

lemma agree_mono: "agree b K j j' \<Longrightarrow> L \<subseteq> K \<Longrightarrow> agree b L j j'"
  by (auto simp: agree_def)

lemma journal_set_logged:
  "map fst (jundo (journal_set j k v)) =
     (if k \<in> set (map fst (jundo j)) then map fst (jundo j) else map fst (jundo j) @ [k])"
  by (force simp: journal_set_def Let_def list_ex_iff)

lemma agree_set: "agree b K j j' \<Longrightarrow> agree b K (journal_set j k v) (journal_set j' k v)"
  unfolding agree_def journal_set_logged by simp

lemma eval_args_cong:
  "(\<And>k. k \<in> (\<Union>a \<in> set as. set (expr_reads a)) \<Longrightarrow> st k = st' k) \<Longrightarrow>
     eval_args as st args = eval_args as st' args"
proof (induction as)
  case (Cons a as)
  then have "expr_eval a st args = expr_eval a st' args"
    by (intro expr_eval_cong) auto
  with Cons show ?case by simp
qed simp

lemma run_confined_reader_cong:
  "(\<And>k. k \<in> set rs \<Longrightarrow> st k = st' k) \<Longrightarrow>
     run_confined_reader a rs st viol = run_confined_reader a rs st' viol"
  by (induction a arbitrary: viol) auto

lemma eval_predicate_cong:
  "(\<And>k. k \<in> pred_reads p \<Longrightarrow> st k = st' k) \<Longrightarrow>
     eval_predicate H h args st p rc = eval_predicate H h args st' p rc"
  "(\<And>k. k \<in> (\<Union>p \<in> set ps. pred_reads p) \<Longrightarrow> st k = st' k) \<Longrightarrow>
     eval_and H h args st ps rc = eval_and H h args st' ps rc"
  "(\<And>k. k \<in> (\<Union>p \<in> set ps. pred_reads p) \<Longrightarrow> st k = st' k) \<Longrightarrow>
     eval_or H h args st ps rc = eval_or H h args st' ps rc"
proof (induction H h args st p rc and H h args st ps rc and H h args st ps rc
    rule: eval_predicate_eval_and_eval_or.induct)
  case (1 H h args st kind rs exprs rc)
  then have "eval_args exprs st args = eval_args exprs st' args"
    and "run_confined_reader a rs st viol = run_confined_reader a rs st' viol" for a :: "(fault + bool) ract" and viol
    by (auto intro!: eval_args_cong run_confined_reader_cong)
  then show ?case by (simp add: Let_def split: sum.split)
next
  case (2 H h args st op lhs rhs rc)
  then have "expr_eval lhs st args = expr_eval lhs st' args"
    "expr_eval rhs st args = expr_eval rhs st' args"
    by (auto intro!: expr_eval_cong)
  then show ?case by simp
qed (auto split: prod.splits sum.splits)

lemma run_confined_agree:
  assumes "fp_ok fp" "fp_keys fp \<subseteq> K"
  shows "agree b K j j' \<Longrightarrow>
    (case (run_confined a fp j viol, run_confined a fp j' viol) of
       ((x, i, v), (x', i', v')) \<Rightarrow> x = x' \<and> agree b K i i' \<and> v = v')"
proof (induction a arbitrary: j j' viol)
  case (GetK k c)
  have "journal_get j k = journal_get j' k" if "k \<in> fp_keys fp"
    using that GetK.prems assms(2) by (auto simp: agree_def journal_get_def)
  with GetK assms(1) show ?case by (simp add: fp_okD fp_keys_def)
next
  case (SetK k v c)
  then show ?case using assms(1) by (simp add: fp_okD agree_set)
qed simp

lemma confined_effect_agree:
  assumes "fp_ok fp" "fp_keys fp \<subseteq> K" "agree b K j j'"
  obtains r h' i i' where
    "confined_effect H fp kind vs h j = (r, h', i)"
    "confined_effect H fp kind vs h j' = (r, h', i')" "agree b K i i'"
  using run_confined_agree [OF assms, of "host_effect H h kind vs" None]
  by (auto simp: confined_effect_def split: prod.splits)

lemma eval_predicate_agree:
  assumes "agree b K j j'" "pred_reads p \<subseteq> K"
  shows "eval_predicate H h args (journal_get j) p rc = eval_predicate H h args (journal_get j') p rc"
  by (rule eval_predicate_cong) (use assms in \<open>auto simp: agree_def journal_get_def\<close>)

lemma run_agree:
  "fps_ok t \<Longrightarrow> term_keys t \<subseteq> K \<Longrightarrow> agree b K j j' \<Longrightarrow>
     res_agree b K (run H args t h j rc) (run H args t h j' rc)"
  "list_all fps_ok ts \<Longrightarrow> (\<Union>t \<in> set ts. term_keys t) \<subseteq> K \<Longrightarrow> agree b K j j' \<Longrightarrow>
     res_agree b K (run_list H args ts h j rc) (run_list H args ts h j' rc)"
  "list_all (\<lambda>(p, t). fps_ok t) bs \<Longrightarrow>
     (\<Union>(p, t) \<in> set bs. pred_reads p \<union> term_keys t) \<subseteq> K \<Longrightarrow> agree b K j j' \<Longrightarrow>
     res_agree b K (run_alt H args bs h j rc) (run_alt H args bs h j' rc)"
proof (induction H args t h j rc and H args ts h j rc and H args bs h j rc arbitrary: j' and j' and j'
    rule: run_run_list_run_alt.induct)
  case (1 H args e h j rc)
  have args_eq: "eval_args (eff_args e) (journal_get j) args = eval_args (eff_args e) (journal_get j') args"
    by (rule eval_args_cong) (use 1 in \<open>auto simp: agree_def journal_get_def\<close>)
  have keys: "fp_ok (effect_footprint e)" "fp_keys (effect_footprint e) \<subseteq> K"
    using 1 by (auto simp: effect_footprint_sets fp_keys_def)
  show ?case
  proof (cases "eval_args (eff_args e) (journal_get j') args")
    case (Inl f)
    with args_eq 1(3) show ?thesis by simp
  next
    case (Inr vs)
    from keys 1(3) obtain r h' i i' where
      "confined_effect H (effect_footprint e) (eff_kind e) vs h j = (r, h', i)"
      "confined_effect H (effect_footprint e) (eff_kind e) vs h j' = (r, h', i')" "agree b K i i'"
      by (rule confined_effect_agree [where H = H and kind = "eff_kind e" and vs = vs and h = h])
    with args_eq Inr show ?thesis by (cases r) auto
  qed
next
  case (4 H args p t h j rc)
  then have "eval_predicate H h args (journal_get j) p rc = eval_predicate H h args (journal_get j') p rc"
    by (intro eval_predicate_agree [of b K]) auto
  with 4 show ?case by (auto split: prod.splits sum.splits)
next
  case (6 H args c h j rc)
  have keys: "fp_ok (claim_footprint c)" "fp_keys (claim_footprint c) \<subseteq> K"
    using 6 by (auto simp: fp_keys_def)
  from keys 6(3) obtain r h' i i' where
    "confined_effect H (claim_footprint c) (claim_kind c) [] h j = (r, h', i)"
    "confined_effect H (claim_footprint c) (claim_kind c) [] h j' = (r, h', i')" "agree b K i i'"
    by (rule confined_effect_agree [where H = H and kind = "claim_kind c" and vs = "[]" and h = h])
  with 6(3) show ?case by (cases r) (auto split: sum.splits)
next
  case (8 H args t ts h j rc)
  then have "res_agree b K (run H args t h j rc) (run H args t h j' rc)" by auto
  then obtain r h1 i i' c where
    run_t: "run H args t h j rc = (r, h1, i, c)" "run H args t h j' rc = (r, h1, i', c)" "agree b K i i'"
    by (cases "run H args t h j rc"; cases "run H args t h j' rc") auto
  with 8 show ?case by (cases r) auto
next
  case (10 H args p t bs h j rc)
  then have "eval_predicate H h args (journal_get j) p rc = eval_predicate H h args (journal_get j') p rc"
    by (intro eval_predicate_agree [of b K]) auto
  with 10 show ?case by (auto split: prod.splits sum.splits)
next
  case (2 H args ts h j rc)
  then show ?case by (simp add: UN_subset_iff)
next
  case (3 H args ts h j rc)
  then show ?case by (simp add: UN_subset_iff)
next
  case (5 H args bs h j rc)
  moreover have "(\<Union>(p, t) \<in> set bs. pred_reads p \<union> term_keys t) \<subseteq> K"
  proof (rule UN_least)
    fix x assume "x \<in> set bs"
    then show "(case x of (p, t) \<Rightarrow> pred_reads p \<union> term_keys t) \<subseteq> K"
      using 5(3) by (cases x) auto
  qed
  ultimately show ?case by simp
qed auto

section \<open>Receipts do not influence execution\<close>

definition same_fst :: "'a \<times> 'b \<Rightarrow> 'a \<times> 'b \<Rightarrow> bool" where
  "same_fst x y \<longleftrightarrow> fst x = fst y"

lemma same_fst_Pair [simp]: "same_fst (a, b) (a', b') \<longleftrightarrow> a = a'"
  by (simp add: same_fst_def)

lemma same_fstE:
  assumes "same_fst x y"
  obtains a b b' where "x = (a, b)" "y = (a, b')"
  using assms by (cases x; cases y) auto

lemma eval_predicate_rc:
  "same_fst (eval_predicate H h args st p rc) (eval_predicate H h args st p rc')"
  "same_fst (eval_and H h args st ps rc) (eval_and H h args st ps rc')"
  "same_fst (eval_or H h args st ps rc) (eval_or H h args st ps rc')"
proof (induction H h args st p rc and H h args st ps rc and H h args st ps rc arbitrary: rc' and rc' and rc'
    rule: eval_predicate_eval_and_eval_or.induct)
  case (5 H h args st p rc)
  show ?case
    by (rule same_fstE [OF 5 [of "rc'\<lparr>rc_predicates := rc_predicates rc' + 1\<rparr>"]]) simp
next
  case (7 H h args st p ps rc)
  show ?case
    by (rule same_fstE [OF 7(1) [of rc']]) (use 7(2) in \<open>auto split: sum.splits\<close>)
next
  case (9 H h args st p ps rc)
  show ?case
    by (rule same_fstE [OF 9(1) [of rc']]) (use 9(2) in \<open>auto split: sum.splits\<close>)
qed (auto simp: Let_def split: sum.splits prod.splits option.splits)

definition same_run :: "'r \<times> 'h \<times> journal \<times> 'c \<Rightarrow> 'r \<times> 'h \<times> journal \<times> 'c \<Rightarrow> bool" where
  "same_run R S \<longleftrightarrow> fst R = fst S \<and> fst (snd R) = fst (snd S) \<and> res_j R = res_j S"

lemma same_run_Pair [simp]: "same_run (r, h, j, c) (r', h', j', c') \<longleftrightarrow> r = r' \<and> h = h' \<and> j = j'"
  by (simp add: same_run_def)

lemma same_runE:
  assumes "same_run x y"
  obtains r h j c c' where "x = (r, h, j, c)" "y = (r, h, j, c')"
  using assms by (cases x; cases y) auto

lemma run_rc:
  "same_run (run H args t h j rc) (run H args t h j rc')"
  "same_run (run_list H args ts h j rc) (run_list H args ts h j rc')"
  "same_run (run_alt H args bs h j rc) (run_alt H args bs h j rc')"
proof (induction H args t h j rc and H args ts h j rc and H args bs h j rc arbitrary: rc' and rc' and rc'
    rule: run_run_list_run_alt.induct)
  case (4 H args p t h j rc)
  show ?case
    by (rule same_fstE [OF eval_predicate_rc(1) [of H h args "journal_get j" p rc rc']])
       (use 4 in \<open>auto split: sum.splits\<close>)
next
  case (8 H args t ts h j rc)
  show ?case
    by (rule same_runE [OF 8(1) [of rc']]) (use 8(2) in \<open>auto split: sum.splits\<close>)
next
  case (10 H args p t bs h j rc)
  show ?case
    by (rule same_fstE [OF eval_predicate_rc(1) [of H h args "journal_get j" p rc rc']])
       (use 10 in \<open>auto split: sum.splits\<close>)
qed (auto split: sum.splits prod.splits)

section \<open>Evaluation and the children of a parallel term\<close>

lemma ergon_eval_Inr:
  "ergon_eval H t args h s = (Inr rc, h', s') \<longleftrightarrow>
     (\<exists>j. run H args t h (journal_new s) receipt_default = (Inr (), h', j, rc) \<and> s' = jinner j)"
  by (auto simp: ergon_eval_def split: prod.splits sum.splits)

lemma run_frame:
  assumes "fps_ok t" "k \<notin> term_writes t"
  shows "jinner (res_j (run H args t h j rc)) k = jinner j k"
  by (rule run_inv(1) [where P = "\<lambda>j'. jinner j' k = jinner j k"]) (use assms in auto)

lemma run_journal_inv:
  assumes "fps_ok t" "journal_inv s j"
  shows "journal_inv s (res_j (run H args t h j rc))"
  by (rule run_inv(1)) (use assms in \<open>auto intro: journal_inv_set\<close>)

text \<open>The keys a run has logged are keys the term may write.\<close>

lemma run_logged:
  assumes "fps_ok t"
  shows "fst ` set (jundo (res_j (run H args t h j rc))) \<subseteq> fst ` set (jundo j) \<union> term_writes t"
  by (rule run_inv(1) [where P = "\<lambda>i. fst ` set (jundo i) \<subseteq> fst ` set (jundo j) \<union> term_writes t"])
     (use assms in \<open>auto simp: journal_set_def Let_def\<close>)

text \<open>
  For a host without state of its own, a child of a disjoint list runs as it would have run first.
\<close>

lemma run_after_disjoint:
  fixes H :: "unit host"
  assumes "fps_ok t" "fps_ok u" "terms_disjoint t u"
  shows "res_agree False (term_keys u) (run H args u () (res_j (run H args t () j rc)) rc')
    (run H args u () j rc')"
proof (rule run_agree(1) [OF assms(2)])
  show "agree False (term_keys u) (res_j (run H args t () j rc)) j"
    unfolding agree_def
    by (intro conjI ballI impI run_frame [OF assms(1)])
       (use assms(3) in \<open>auto simp: terms_disjoint_def\<close>)
qed simp

definition solo :: "unit host \<Rightarrow> val list \<Rightarrow> ergon_term \<Rightarrow> journal \<Rightarrow> (fault + unit) \<times> unit \<times> journal \<times> receipt" where
  "solo H args t j = run H args t () j receipt_default"

lemma solo_after_disjoint:
  assumes "fps_ok t" "fps_ok u" "terms_disjoint t u"
  shows "fst (solo H args u (res_j (run H args t () j rc))) = fst (solo H args u j)"
    "k \<in> term_keys u \<Longrightarrow>
       jinner (res_j (solo H args u (res_j (run H args t () j rc)))) k = jinner (res_j (solo H args u j)) k"
  using run_after_disjoint [OF assms, of H args j rc receipt_default]
  by (auto simp: res_agree_def agree_def solo_def)

lemma run_solo:
  "fst (run H args t () j rc) = fst (solo H args t j)"
  "res_j (run H args t () j rc) = res_j (solo H args t j)"
  using run_rc(1) [of H args t "()" j rc receipt_default] by (simp_all add: same_run_def solo_def)

lemma run_list_parallel:
  fixes H :: "unit host"
  assumes "list_all fps_ok ts" "sorted_wrt terms_disjoint ts"
  shows "(fst (run_list H args ts () j rc) = Inr () \<longleftrightarrow> (\<forall>t \<in> set ts. fst (solo H args t j) = Inr ())) \<and>
    (fst (run_list H args ts () j rc) = Inr () \<longrightarrow> (\<forall>t \<in> set ts. \<forall>k \<in> term_writes t.
       jinner (res_j (run_list H args ts () j rc)) k = jinner (res_j (solo H args t j)) k))"
  using assms
proof (induction ts arbitrary: j rc)
  case (Cons u ts)
  obtain r i c where run_u: "run H args u () j rc = (r, (), i, c)"
    by (cases "run H args u () j rc") auto
  have solo_u: "fst (solo H args u j) = r" "res_j (solo H args u j) = i"
    using run_solo [of H args u j rc] run_u by auto
  have disj: "terms_disjoint u t'" "fps_ok u" "fps_ok t'" if "t' \<in> set ts" for t'
    using Cons.prems that by (auto simp: list_all_iff)
  have later: "fst (solo H args t' i) = fst (solo H args t' j)"
    "k' \<in> term_keys t' \<Longrightarrow> jinner (res_j (solo H args t' i)) k' = jinner (res_j (solo H args t' j)) k'"
    if "t' \<in> set ts" for t' k'
    using solo_after_disjoint [OF disj(2,3,1), OF that that that, where H = H and args = args and j = j and rc = rc] run_u by auto
  show ?case
  proof (cases r)
    case (Inl f)
    with run_u solo_u show ?thesis by auto
  next
    case (Inr x)
    then have eq: "run_list H args (u # ts) () j rc = run_list H args ts () i c"
      using run_u by simp
    have tail: "jinner (res_j (run_list H args ts () i c)) k = jinner i k" if "k \<in> term_writes u" for k
    proof (rule run_inv(2) [where P = "\<lambda>j'. jinner j' k = jinner i k"])
      fix j' :: journal and k' v
      assume "k' \<in> (\<Union>t \<in> set ts. term_writes t)" "jinner j' k = jinner i k"
      moreover from this that disj(1) have "k \<noteq> k'" by (auto simp: terms_disjoint_def)
      ultimately show "jinner (journal_set j' k' v) k = jinner i k" by simp
    qed (use Cons.prems in auto)
    have "list_all fps_ok ts" "sorted_wrt terms_disjoint ts" using Cons.prems by auto
    note IH = Cons.IH [OF this, of i c]
    show ?thesis unfolding eq using IH later tail solo_u Inr by auto
  qed
qed auto

text \<open>The same for a well-typed \<open>Par\<close> run from a fresh journal, with the keys no child writes.\<close>

lemma run_par_succeeds:
  fixes H :: "unit host"
  assumes "fps_ok (Par ts)" "well_typed (Par ts) lim = Inr ()"
  shows "fst (run_list H args ts () (journal_new s) receipt_default) = Inr () \<longleftrightarrow>
      (\<forall>t \<in> set ts. fst (solo H args t (journal_new s)) = Inr ())"
    "fst (run_list H args ts () (journal_new s) receipt_default) = Inr () \<Longrightarrow>
      t \<in> set ts \<Longrightarrow> k \<in> term_writes t \<Longrightarrow>
      jinner (res_j (run_list H args ts () (journal_new s) receipt_default)) k =
      jinner (res_j (solo H args t (journal_new s))) k"
    "k \<notin> (\<Union>t \<in> set ts. term_writes t) \<Longrightarrow>
      jinner (res_j (run_list H args ts () (journal_new s) receipt_default)) k = s k"
proof -
  have ok: "list_all fps_ok ts" "sorted_wrt terms_disjoint ts"
    using assms well_typed_ok by auto
  note R = run_list_parallel [OF ok, of H args "journal_new s" receipt_default]
  show "fst (run_list H args ts () (journal_new s) receipt_default) = Inr () \<longleftrightarrow>
      (\<forall>t \<in> set ts. fst (solo H args t (journal_new s)) = Inr ())"
    using R by blast
  show "fst (run_list H args ts () (journal_new s) receipt_default) = Inr () \<Longrightarrow>
      t \<in> set ts \<Longrightarrow> k \<in> term_writes t \<Longrightarrow>
      jinner (res_j (run_list H args ts () (journal_new s) receipt_default)) k =
      jinner (res_j (solo H args t (journal_new s))) k"
    using R by blast
  show "k \<notin> (\<Union>t \<in> set ts. term_writes t) \<Longrightarrow>
      jinner (res_j (run_list H args ts () (journal_new s) receipt_default)) k = s k"
    using run_frame [OF assms(1), of k H args "()" "journal_new s" receipt_default] by simp
qed

abbreviation res_rc :: "'r \<times> 'h \<times> 'j \<times> receipt \<Rightarrow> receipt" where
  "res_rc x \<equiv> snd (snd (snd x))"

section \<open>Properties of evaluation\<close>

text \<open>
  A host for the witnesses below: kind \<open>n\<close> stores its first argument at slot \<open>n\<close> of point 0, kind 0
  refuses.
\<close>

definition cell_key :: "u16 \<Rightarrow> key" where
  "cell_key n = key_small 0 0 (ucast n)"

definition slot_host :: "unit host" where
  "slot_host =
     \<lparr>host_effect = (\<lambda>h kind args.
        if kind = 0 then Ret ((), Inl (Rejected kind))
        else case args of [] \<Rightarrow> Ret ((), Inl TypeMismatch)
             | v # _ \<Rightarrow> SetK (cell_key kind) v (Ret ((), Inr ()))),
      host_predicate = (\<lambda>h kind rs args. RRet (Inr True)),
      host_verify = default_verify\<rparr>"

definition store_slot :: "u16 \<Rightarrow> expr \<Rightarrow> ergon_term" where
  "store_slot n e =
     Do (effect_with_args (effect_internal n (fp_new [] [cell_key n])) [e])"

definition refuse :: ergon_term where
  "refuse = Do (effect_internal 0 fp_empty)"

lemma expr_eval_leaf [simp]:
  "expr_eval (Lit v) st args = Inr v"
  "expr_eval (Load k) st args = (case st k of Some v \<Rightarrow> Inr v | None \<Rightarrow> Inl (Missing k))"
  by (simp_all add: expr_eval_def EXPR_DEPTH_MAX_def)

lemma cell_key_inj [simp]: "cell_key m = cell_key n \<longleftrightarrow> m = n"
proof
  assume "cell_key m = cell_key n"
  then have "put_word 8 (ucast m :: u64) = put_word 8 (ucast n :: u64)"
    by (simp add: cell_key_def key_small_def)
  then have "(ucast m :: u64) = ucast n" by (rule u64.enc_inj [OF TrueI TrueI])
  moreover have "take_bit 64 (unat w) = unat w" for w :: u16
    by (rule take_bit_nat_eq_self) (use unat_lt [of w] in simp)
  ultimately show "m = n" by (simp add: word_unat_eq_iff unsigned_ucast_eq)
qed simp

lemma store_slot_simps [simp]:
  "fps_ok (store_slot n e)" "term_writes (store_slot n e) = {cell_key n}"
  "term_reads (store_slot n e) = set (expr_reads e)"
  "term_depth (store_slot n e) = 0" "expr_depth_of (store_slot n e) = expr_depth e"
  "structure_ok lim (store_slot n e)"
  by (simp_all add: store_slot_def effect_with_args_def effect_internal_def)

lemma run_store_slot:
  assumes "n \<noteq> 0" "expr_eval e (jinner j) args = Inr v"
  shows "run slot_host args (store_slot n e) () j rc =
    (Inr (), (), journal_set j (cell_key n) v, rc\<lparr>rc_effects := rc_effects rc + 1\<rparr>)"
  using assms
  by (simp add: store_slot_def effect_with_args_def effect_internal_def effect_footprint_def
      confined_effect_def slot_host_def fp_new_def journal_get_def [abs_def])

lemma run_refuse:
  "run slot_host args refuse () j rc = (Inl (Rejected 0), (), j, rc)"
  by (simp add: refuse_def effect_internal_def effect_footprint_def confined_effect_def slot_host_def)

lemma eval_frame:
  assumes "fps_ok t" "k \<notin> set (writes (term_footprint t))"
    and "ergon_eval H t args h s = (r, h', s')"
  shows "s' k = s k"
proof -
  define R where "R = run H args t h (journal_new s) receipt_default"
  have k: "k \<notin> term_writes t" using assms(2) by (simp add: term_footprint_sets)
  have frame: "jinner (res_j R) k = s k"
    using run_frame [OF assms(1) k, of H args h "journal_new s"] by (simp add: R_def)
  have "journal_inv s (res_j R)"
    using run_journal_inv [OF assms(1) journal_inv_new] by (simp add: R_def)
  moreover have "k \<notin> fst ` set (jundo (res_j R))"
    using run_logged [OF assms(1), of H args h "journal_new s" receipt_default] k
    unfolding R_def [symmetric] by auto
  ultimately have "jinner (journal_rollback (res_j R)) k = s k" by (simp add: rollback_restores)
  with frame assms(3) show ?thesis
    by (cases R) (auto simp: ergon_eval_def R_def split: sum.splits)
qed

text \<open>
  C4. Execution is confined to the derived footprint: whatever the host's rules try, and whether the
  call succeeds or faults, a key that is not in the write set the scheduler was given keeps its
  value.
\<close>

theorem eval_confined:
  assumes "fps_ok t" "k \<notin> set (writes (term_footprint t))"
    and "ergon_eval H t args h s = (r, h', s')"
  shows "s' k = s k"
  using assms by (rule eval_frame)

theorem eval_confined_witness:
  "snd (snd (ergon_eval slot_host (store_slot 1 (Lit (VInt 7))) [] () Map.empty)) (cell_key 2) = None"
  by (rule eval_confined [where k = "cell_key 2" and s = Map.empty and t = "store_slot 1 (Lit (VInt 7))"
        and H = slot_host and args = "[]" and h = "()" and h' = "()"
        and r = "fst (ergon_eval slot_host (store_slot 1 (Lit (VInt 7))) [] () Map.empty)"])
     (simp_all add: term_footprint_sets prod_eq_iff)

lemma eval_depends:
  assumes "fps_ok t" "\<forall>k \<in> fp_keys (term_footprint t). s k = u k"
    and "ergon_eval H t args h s = (r, h', s')"
  shows "\<exists>u'. ergon_eval H t args h u = (r, h', u') \<and> (\<forall>k \<in> fp_keys (term_footprint t). s' k = u' k)"
proof -
  have keys: "fp_keys (term_footprint t) = term_keys t"
    by (simp add: fp_keys_def term_footprint_sets)
  have "res_agree True (term_keys t) (run H args t h (journal_new s) receipt_default)
    (run H args t h (journal_new u) receipt_default)"
    by (rule run_agree(1) [OF assms(1) order_refl]) (use assms(2) keys in \<open>simp add: agree_def\<close>)
  then obtain q hq i i' c where
    R: "run H args t h (journal_new s) receipt_default = (q, hq, i, c)"
      "run H args t h (journal_new u) receipt_default = (q, hq, i', c)"
    and ag: "\<forall>k \<in> term_keys t. jinner i k = jinner i' k" "map fst (jundo i) = map fst (jundo i')"
    by (cases "run H args t h (journal_new s) receipt_default";
        cases "run H args t h (journal_new u) receipt_default") (auto simp: agree_def)
  have inv: "journal_inv s i" "journal_inv u i'"
    using run_journal_inv [OF assms(1) journal_inv_new, of s H args h receipt_default]
      run_journal_inv [OF assms(1) journal_inv_new, of u H args h receipt_default] R by auto
  have logged: "fst ` set (jundo i) = fst ` set (jundo i')" using ag(2) by (metis set_map)
  have rolled: "jinner (journal_rollback i) k = jinner (journal_rollback i') k" if "k \<in> term_keys t" for k
    using that assms(2) keys inv logged by (simp add: rollback_restores restored_def)
  show ?thesis
    using assms(3) R ag rolled unfolding keys by (cases q) (auto simp: ergon_eval_def)
qed

text \<open>
  C5. The derived footprint is everything a term can observe: if two stores agree on it, evaluation
  has the same result, receipt, fault and host effect on both, and leaves stores that agree on it.
\<close>

theorem eval_depends_on_footprint:
  assumes "fps_ok t" "\<forall>k \<in> fp_keys (term_footprint t). s k = u k"
    and "ergon_eval H t args h s = (r, h', s')"
  shows "\<exists>u'. ergon_eval H t args h u = (r, h', u') \<and> (\<forall>k \<in> fp_keys (term_footprint t). s' k = u' k)"
  using assms by (rule eval_depends)

theorem eval_depends_on_footprint_witness:
  "\<exists>u'. ergon_eval slot_host (store_slot 1 (Load (cell_key 3))) [] ()
          [cell_key 3 \<mapsto> VInt 5, cell_key 4 \<mapsto> VInt 6] =
     (fst (ergon_eval slot_host (store_slot 1 (Load (cell_key 3))) [] () [cell_key 3 \<mapsto> VInt 5]), (), u')"
  using eval_depends_on_footprint [of "store_slot 1 (Load (cell_key 3))" "[cell_key 3 \<mapsto> VInt 5]"
      "[cell_key 3 \<mapsto> VInt 5, cell_key 4 \<mapsto> VInt 6]" slot_host "[]" "()"
      "fst (ergon_eval slot_host (store_slot 1 (Load (cell_key 3))) [] () [cell_key 3 \<mapsto> VInt 5])" "()"
      "snd (snd (ergon_eval slot_host (store_slot 1 (Load (cell_key 3))) [] () [cell_key 3 \<mapsto> VInt 5]))"]
  by (fastforce simp: fp_keys_def term_footprint_sets prod_eq_iff)

text \<open>
  C6. A parallel term does what its children do alone. For a host without state of its own, a
  well-typed \<open>Par\<close> succeeds exactly when every child would succeed on the pre-state by itself, and
  then each child's writes hold what that child alone would have left there.
\<close>

theorem eval_par_is_independent:
  fixes H :: "unit host"
  assumes "fps_ok (Par ts)" "well_typed (Par ts) lim = Inr ()"
    and "ergon_eval H (Par ts) args () s = (r, (), s')"
  shows "(isl r \<longleftrightarrow> (\<exists>t \<in> set ts. isl (fst (ergon_eval H t args () s)))) \<and>
    (\<not> isl r \<longrightarrow> (\<forall>t \<in> set ts. \<forall>k \<in> set (writes (term_footprint t)).
       s' k = snd (snd (ergon_eval H t args () s)) k))"
proof -
  have solo_eval: "fst (ergon_eval H t args () s) = Inr (res_rc (solo H args t (journal_new s))) \<and>
      snd (snd (ergon_eval H t args () s)) = jinner (res_j (solo H args t (journal_new s)))"
    if "fst (solo H args t (journal_new s)) = Inr ()" for t
    using that by (cases "solo H args t (journal_new s)") (auto simp: solo_def ergon_eval_def)
  have solo_isl: "isl (fst (ergon_eval H t args () s)) \<longleftrightarrow> fst (solo H args t (journal_new s)) \<noteq> Inr ()" for t
    by (auto simp: solo_def ergon_eval_def split: prod.splits sum.splits)
  have whole: "isl r \<longleftrightarrow> fst (run_list H args ts () (journal_new s) receipt_default) \<noteq> Inr ()"
    "\<not> isl r \<Longrightarrow> s' = jinner (res_j (run_list H args ts () (journal_new s) receipt_default))"
    using assms(3) by (auto simp: ergon_eval_def split: prod.splits sum.splits)
  show ?thesis
    using run_par_succeeds(1,2) [OF assms(1,2), where H = H and args = args and s = s] whole solo_isl solo_eval
    by (auto simp: term_footprint_sets)
qed

theorem eval_par_is_independent_witness:
  "snd (snd (ergon_eval slot_host (Par [store_slot 1 (Lit (VInt 7)), store_slot 2 (Load (cell_key 3))])
      [] () [cell_key 3 \<mapsto> VInt 5])) (cell_key 2) =
   snd (snd (ergon_eval slot_host (store_slot 2 (Load (cell_key 3))) [] () [cell_key 3 \<mapsto> VInt 5])) (cell_key 2)"
proof -
  let ?ts = "[store_slot 1 (Lit (VInt 7)), store_slot 2 (Load (cell_key 3))]"
  have ok: "fps_ok (Par ?ts)" by simp
  moreover have "well_typed (Par ?ts) limits_unbounded = Inr ()"
    using well_typed_ok [OF ok] fp_width_card [OF ok]
    by (simp add: terms_disjoint_def limits_unbounded_def D_MAX_def EXPR_DEPTH_MAX_def)
  moreover obtain r s' where e: "ergon_eval slot_host (Par ?ts) [] () [cell_key 3 \<mapsto> VInt 5] = (r, (), s')"
    by (metis old.unit.exhaust prod_cases3)
  moreover have "\<not> isl r" using e by (auto simp: ergon_eval_def run_store_slot split: if_splits)
  ultimately show ?thesis using eval_par_is_independent [of ?ts limits_unbounded slot_host "[]" _ r s']
    by (auto simp: term_footprint_sets)
qed

text \<open>
  The order of a parallel term does not matter: two well-typed \<open>Par\<close> terms over the same children
  in any two orders succeed together, and then leave the same store.
\<close>

theorem eval_par_order_irrelevant:
  fixes H :: "unit host"
  assumes "fps_ok (Par ts)" "well_typed (Par ts) lim = Inr ()" "well_typed (Par us) lim = Inr ()"
    and "set ts = set us"
    and "ergon_eval H (Par ts) args () s = (Inr rc, (), s')"
  shows "\<exists>rc'. ergon_eval H (Par us) args () s = (Inr rc', (), s')"
proof -
  note sets = assms(4)
  then have okus: "fps_ok (Par us)" using assms(1) by (simp add: list_all_iff)
  note ts = run_par_succeeds [OF assms(1,2), where H = H and args = args and s = s]
    and us = run_par_succeeds [OF okus assms(3), where H = H and args = args and s = s]
  from assms(5) have ts_ok: "fst (run_list H args ts () (journal_new s) receipt_default) = Inr ()"
    "s' = jinner (res_j (run_list H args ts () (journal_new s) receipt_default))"
    by (auto simp: ergon_eval_Inr)
  then have us_ok: "fst (run_list H args us () (journal_new s) receipt_default) = Inr ()"
    using ts us sets by simp
  have "jinner (res_j (run_list H args us () (journal_new s) receipt_default)) k = s' k" for k
    using ts us sets ts_ok us_ok by (cases "k \<in> (\<Union>t \<in> set ts. term_writes t)") auto
  then have "jinner (res_j (run_list H args us () (journal_new s) receipt_default)) = s'" by blast
  with us_ok show ?thesis
    by (cases "run_list H args us () (journal_new s) receipt_default") (auto simp: ergon_eval_def)
qed

theorem eval_par_order_irrelevant_witness:
  "\<exists>rc'. ergon_eval slot_host (Par [store_slot 2 (Lit (VInt 8)), store_slot 1 (Lit (VInt 7))]) [] () Map.empty =
     (Inr rc', (), [cell_key 1 \<mapsto> VInt 7, cell_key 2 \<mapsto> VInt 8])"
proof (rule eval_par_order_irrelevant [where ts = "[store_slot 1 (Lit (VInt 7)), store_slot 2 (Lit (VInt 8))]"
      and lim = limits_unbounded and rc = "receipt_default\<lparr>rc_effects := 2\<rparr>"])
  show "well_typed (Par [store_slot 1 (Lit (VInt 7)), store_slot 2 (Lit (VInt 8))]) limits_unbounded = Inr ()"
    "well_typed (Par [store_slot 2 (Lit (VInt 8)), store_slot 1 (Lit (VInt 7))]) limits_unbounded = Inr ()"
    using well_typed_ok fp_width_card
    by (simp_all add: terms_disjoint_def limits_unbounded_def D_MAX_def EXPR_DEPTH_MAX_def)
qed (auto simp: ergon_eval_def run_store_slot receipt_default_def)

text \<open>
  C7. A faulting call is rolled back: every key either has its pre-state value again or was absent and
  is in the write set, in which case it holds the integer 0. In particular a call whose write set was
  populated is exactly undone.
\<close>

theorem eval_fault_rolls_back:
  assumes "fps_ok t" "ergon_eval H t args h s = (Inl f, h', s')"
  shows "(s' k = s k \<or> s k = None \<and> s' k = Some (VInt 0) \<and> k \<in> set (writes (term_footprint t))) \<and>
    (set (writes (term_footprint t)) \<subseteq> dom s \<longrightarrow> s' = s)"
proof -
  define i where "i = res_j (run H args t h (journal_new s) receipt_default)"
  have inv: "journal_inv s i" unfolding i_def by (rule run_journal_inv [OF assms(1) journal_inv_new])
  have log: "fst ` set (jundo i) \<subseteq> term_writes t"
    unfolding i_def using run_logged [OF assms(1), of H args h "journal_new s" receipt_default] by simp
  have "s' = jinner (journal_rollback i)"
    using assms(2) by (auto simp: i_def ergon_eval_def split: prod.splits sum.splits)
  then have s': "s' k = (if k \<in> fst ` set (jundo i) then restored s k else s k)" for k
    by (simp add: rollback_restores [OF inv])
  have "s' = s" if "term_writes t \<subseteq> dom s"
  proof
    show "s' k = s k" for k
      using s' [of k] log that by (cases "s k") (auto simp: restored_def)
  qed
  moreover have "s' k = s k \<or> s k = None \<and> s' k = Some (VInt 0) \<and> k \<in> term_writes t"
    using s' [of k] log by (cases "s k") (auto simp: restored_def)
  ultimately show ?thesis by (simp add: term_footprint_sets)
qed

theorem eval_fault_rolls_back_witness:
  "snd (snd (ergon_eval slot_host (Seq [store_slot 1 (Lit (VInt 7)), refuse])
     [] () [cell_key 1 \<mapsto> VInt 3])) = [cell_key 1 \<mapsto> VInt 3]"
proof -
  let ?t = "Seq [store_slot 1 (Lit (VInt 7)), refuse]"
  let ?s = "[cell_key 1 \<mapsto> VInt 3]"
  have "ergon_eval slot_host ?t [] () ?s =
      (Inl (Rejected 0), (), snd (snd (ergon_eval slot_host ?t [] () ?s)))"
    by (simp add: ergon_eval_def run_store_slot run_refuse)
  moreover have "fps_ok ?t" by (simp add: refuse_def effect_internal_def)
  moreover have "set (writes (term_footprint ?t)) \<subseteq> dom ?s"
    by (simp add: term_footprint_writes refuse_def effect_internal_def effect_footprint_sets)
  ultimately show ?thesis using eval_fault_rolls_back [of ?t slot_host "[]" "()" ?s "Rejected 0" "()"] by blast
qed

text \<open>
  The rollback is not exact for a key that was absent: a call that wrote a fresh key and then
  faulted leaves the integer 0 there, which the program can tell from an absent key.
\<close>

theorem eval_fault_leaves_zero:
  "ergon_eval slot_host (Seq [store_slot 1 (Lit (VInt 7)), refuse]) [] () Map.empty =
     (Inl (Rejected 0), (), [cell_key 1 \<mapsto> VInt 0]) \<and>
   expr_eval (Load (cell_key 1)) Map.empty [] \<noteq> expr_eval (Load (cell_key 1)) [cell_key 1 \<mapsto> VInt 0] []"
  by (simp add: ergon_eval_def run_store_slot run_refuse journal_rollback_def rollback_entry_def
      journal_set_def Let_def expr_eval_def EXPR_DEPTH_MAX_def)

text \<open>
  Predicates are not priced: behind one gate, a conjunction of any number of comparisons is
  evaluated in full while the cost of the term stays 3.
\<close>

theorem gate_predicates_not_priced:
  "term_cost (Gate (PAnd (replicate n (PCompare CEq (Lit (VInt 0)) (Lit (VInt 0))))) (store_slot 1 (Lit (VInt 7)))) = 3 \<and>
   ergon_eval slot_host
     (Gate (PAnd (replicate n (PCompare CEq (Lit (VInt 0)) (Lit (VInt 0))))) (store_slot 1 (Lit (VInt 7)))) [] () s =
   (Inr (receipt_default\<lparr>rc_effects := 1, rc_predicates := n + 1\<rparr>), (), s(cell_key 1 \<mapsto> VInt 7))"
proof -
  have "eval_and slot_host () [] s (replicate n (PCompare CEq (Lit (VInt 0)) (Lit (VInt 0)))) rc =
    (Inr True, rc\<lparr>rc_predicates := rc_predicates rc + n\<rparr>)" for rc
    by (induction n arbitrary: rc) (simp_all add: Let_def)
  moreover have "term_cost (store_slot 1 (Lit (VInt 7))) = 1" by (simp add: store_slot_def)
  moreover have "journal_get (journal_new s) = s" by (simp add: journal_get_def [abs_def])
  ultimately show ?thesis
    by (simp add: ergon_eval_def run_store_slot receipt_default_def)
qed

end
