(* ===== verification/Ergon_Codec.thy ===== *)
theory Ergon_Codec
  imports Ergon_Exec
begin

text \<open>
  The canonical encoding of ERGON values and terms (\<open>fanos-ergon/src/codec.rs\<close>) and the checked
  wire path \<open>Checked::decode\<close> of \<open>lib.rs\<close>. A reader takes the unread bytes and returns the value with
  the bytes left. Every reader is an interpretation of the locale \<open>codec\<close>, at every nesting depth:
  decoding accepts exactly the encodings of the well-formed values, so an artefact has one encoding.
\<close>

section \<open>Sequences\<close>

definition SEQ_MAX :: nat where
  "SEQ_MAX = 4096"

fun rd_u8 :: "byte reader" where
  "rd_u8 (b # r) = Some (b, r)"
| "rd_u8 [] = None"

definition rd_bool :: "bool reader" where
  "rd_bool bs = do { (b, r) \<leftarrow> rd_u8 bs;
     if b = 0 then Some (False, r) else if b = 1 then Some (True, r) else None }"

definition rd_seq :: "'a reader \<Rightarrow> 'a list reader" where
  "rd_seq item bs = do {
     (n, r) \<leftarrow> (rd_word 2 :: u16 reader) bs;
     if unat n > SEQ_MAX then None else rd_rep (unat n) item r }"

text \<open>\<open>put_seq\<close> writes the count saturated at \<open>u16::MAX\<close>, and every item.\<close>

definition put_seq :: "('a \<Rightarrow> byte list) \<Rightarrow> 'a list \<Rightarrow> byte list" where
  "put_seq f items =
     put_word 2 (if length items < 2 ^ 16 then word_of_nat (length items) else (- 1 :: u16)) @
     concat (map f items)"

text \<open>\<open>Reader::finish\<close> after a reader: nothing may be left.\<close>

definition rd_finish :: "'a reader \<Rightarrow> byte list \<Rightarrow> 'a option" where
  "rd_finish d bs = do { (x, r) \<leftarrow> d bs; if r = [] then Some x else None }"

lemma put_seq_cong [fundef_cong]:
  "xs = ys \<Longrightarrow> (\<And>x. x \<in> set ys \<Longrightarrow> f x = g x) \<Longrightarrow> put_seq f xs = put_seq g ys"
  by (simp add: put_seq_def cong: map_cong)

lemma rd_u8_iff [codec_simps]: "rd_u8 bs = Some (b, r) \<longleftrightarrow> bs = b # r"
  by (cases bs) auto

lemma rd_bool_iff [codec_simps]: "rd_bool bs = Some (b, r) \<longleftrightarrow> bs = of_bool b # r"
  by (cases bs; cases b) (auto simp: rd_bool_def bind_eq_Some_conv split: if_splits)

lemma seq_count:
  "length xs \<le> SEQ_MAX \<Longrightarrow>
     put_seq f xs = put_word 2 (word_of_nat (length xs) :: u16) @ concat (map f xs)"
  "length xs \<le> SEQ_MAX \<Longrightarrow> unat (word_of_nat (length xs) :: u16) = length xs"
  by (simp_all add: put_seq_def SEQ_MAX_def unat_of_nat take_bit_eq_mod)

lemma codec_seq:
  assumes "codec enc dec ok"
  shows "codec (put_seq enc) (rd_seq dec) (\<lambda>xs. length xs \<le> SEQ_MAX \<and> list_all ok xs)"
proof (rule codecI)
  note rep = codec.rep_iff [OF assms]
  fix bs xs r
  show "rd_seq dec bs = Some (xs, r) \<longleftrightarrow> (length xs \<le> SEQ_MAX \<and> list_all ok xs) \<and> bs = put_seq enc xs @ r"
    (is "?L \<longleftrightarrow> ?R")
  proof
    assume ?L
    then obtain n :: u16 where n: "bs = put_word 2 n @ concat (map enc xs) @ r" "unat n = length xs"
        "length xs \<le> SEQ_MAX" "list_all ok xs"
      by (auto simp: rd_seq_def bind_eq_Some_conv rep u16.dec_iff split: if_splits)
    moreover have "word_of_nat (length xs) = n" by (simp flip: n(2))
    ultimately show ?R by (simp add: seq_count)
  next
    assume ?R
    then show ?L by (simp add: rd_seq_def seq_count u16.dec_enc rep)
  qed
qed

lemma rd_finish_whole: "rd_finish d bs = Some x \<longleftrightarrow> d bs = Some (x, [])"
  by (auto simp: rd_finish_def bind_eq_Some_conv)

section \<open>Leaves\<close>

definition put_key :: "key \<Rightarrow> byte list" where
  "put_key k = put_word 4 (point k) @ put_word 2 (space k) @ slot k"

definition dec_key :: "key reader" where
  "dec_key bs = do {
     (p, r) \<leftarrow> rd_word 4 bs; (sp, r) \<leftarrow> rd_word 2 r; (sl, r) \<leftarrow> rd_take 32 r;
     Some (key_at p sp sl, r) }"

interpretation key_codec: codec put_key dec_key key_ok
proof (rule codecI)
  fix bs r k
  show "dec_key bs = Some (k, r) \<longleftrightarrow> key_ok k \<and> bs = put_key k @ r"
    by (cases k) (auto simp: dec_key_def put_key_def key_ok_def key_at_def bind_eq_Some_conv
        word_dec_iff)
qed

interpretation key_seq: codec "put_seq put_key" "rd_seq dec_key" "\<lambda>ks. length ks \<le> SEQ_MAX \<and> list_all key_ok ks"
  by (rule codec_seq) (rule key_codec.codec_axioms)

interpretation byte_seq: codec "put_seq (\<lambda>b. [b])" "rd_seq rd_u8" "\<lambda>bs. length bs \<le> SEQ_MAX \<and> list_all (\<lambda>_. True) bs"
  by (rule codec_seq, rule codecI) (simp add: rd_u8_iff)

fun put_value :: "val \<Rightarrow> byte list" where
  "put_value (VInt n) = 0 # put_word 16 n"
| "put_value (VBytes32 b) = 1 # b"
| "put_value (VBytes b) = 3 # put_seq (\<lambda>x. [x]) b"
| "put_value (VRecord fs) = 2 # put_seq (\<lambda>(tag, v). put_word 2 tag @ put_value v) fs"

text \<open>
  The field loop of a record: \<open>seq\<close> with a closure that keeps the last tag, refusing a tag that is
  not above it.
\<close>

primrec rd_fields :: "nat \<Rightarrow> val reader \<Rightarrow> u16 option \<Rightarrow> (u16 \<times> val) list reader" where
  "rd_fields 0 item lst bs = Some ([], bs)"
| "rd_fields (Suc n) item lst bs = do {
     (tag, r) \<leftarrow> rd_word 2 bs;
     if (case lst of Some prev \<Rightarrow> prev \<ge> tag | None \<Rightarrow> False) then None
     else do {
       (v, r) \<leftarrow> item r;
       (fs, r) \<leftarrow> rd_fields n item (Some tag) r;
       Some ((tag, v) # fs, r) } }"

definition rd_field_seq :: "val reader \<Rightarrow> (u16 \<times> val) list reader" where
  "rd_field_seq item bs = do {
     (n, r) \<leftarrow> (rd_word 2 :: u16 reader) bs;
     if unat n > SEQ_MAX then None else rd_fields (unat n) item None r }"

function value_at :: "nat \<Rightarrow> val reader" where
  "value_at depth bs =
     (if depth > EXPR_DEPTH_MAX then None
      else do {
        (t, r) \<leftarrow> rd_u8 bs;
        if t = 0 then do { (n, r) \<leftarrow> rd_word 16 r; Some (VInt n, r) }
        else if t = 1 then do { (b, r) \<leftarrow> rd_take 32 r; Some (VBytes32 b, r) }
        else if t = 3 then do { (b, r) \<leftarrow> rd_seq rd_u8 r; Some (VBytes b, r) }
        else if t = 2 then do { (fs, r) \<leftarrow> rd_field_seq (\<lambda>r. value_at (depth + 1) r) r; Some (VRecord fs, r) }
        else None })"
  by pat_completeness auto
termination
  by (relation "measure (\<lambda>(d, _). Suc EXPR_DEPTH_MAX - d)") auto

declare value_at.simps [simp del]

definition dec_value :: "val reader" where
  "dec_value bs = value_at 1 bs"

definition encode_value :: "val \<Rightarrow> byte list" where
  "encode_value v = put_value v"

definition decode_value :: "byte list \<Rightarrow> val option" where
  "decode_value bs = rd_finish dec_value bs"

text \<open>The values the decoder can produce, apart from the nesting bound.\<close>

fun val_wf :: "val \<Rightarrow> bool" where
  "val_wf (VInt n) = True"
| "val_wf (VBytes32 b) = (length b = 32)"
| "val_wf (VBytes b) = (length b \<le> SEQ_MAX)"
| "val_wf (VRecord fs) =
     (length fs \<le> SEQ_MAX \<and> strict_sorted (map fst fs) \<and> list_all (\<lambda>(t, v). val_wf v) fs)"

lemma rd_fields_iff:
  assumes "codec put_value item ok"
  shows "rd_fields n item lst bs = Some (fs, r) \<longleftrightarrow>
    length fs = n \<and> list_all (\<lambda>(t, v). ok v) fs \<and> strict_sorted (map fst fs) \<and>
    (\<forall>prev \<in> set_option lst. \<forall>t \<in> set (map fst fs). prev < t) \<and>
    bs = concat (map (\<lambda>(tag, v). put_word 2 tag @ put_value v) fs) @ r"
proof (induction n arbitrary: lst bs fs)
  case (Suc n)
  show ?case
  proof (cases fs)
    case (Cons f gs)
    obtain t v where f: "f = (t, v)" by (cases f)
    show ?thesis unfolding Cons f
      by (cases lst) (auto simp: bind_eq_Some_conv u16.dec_iff codec.dec_iff [OF assms] Suc not_le dest: order.strict_trans)
  qed (auto simp: bind_eq_Some_conv split: if_splits)
qed auto

lemma rd_field_seq_iff:
  assumes "codec put_value item ok"
  shows "rd_field_seq item bs = Some (fs, r) \<longleftrightarrow>
    (length fs \<le> SEQ_MAX \<and> strict_sorted (map fst fs) \<and> list_all (\<lambda>(t, v). ok v) fs) \<and>
    bs = put_seq (\<lambda>(tag, v). put_word 2 tag @ put_value v) fs @ r"
    (is "?L \<longleftrightarrow> ?R")
proof
  assume ?L
  then obtain n :: u16 where n: "unat n = length fs" "length fs \<le> SEQ_MAX" "strict_sorted (map fst fs)"
      "list_all (\<lambda>(t, v). ok v) fs"
      "bs = put_word 2 n @ concat (map (\<lambda>(tag, v). put_word 2 tag @ put_value v) fs) @ r"
    by (auto simp: rd_field_seq_def bind_eq_Some_conv rd_fields_iff [OF assms] u16.dec_iff split: if_splits)
  moreover have "word_of_nat (length fs) = n" by (simp flip: n(1))
  ultimately show ?R by (simp add: seq_count)
next
  assume ?R
  then show ?L
    by (simp add: rd_field_seq_def seq_count u16.dec_enc rd_fields_iff [OF assms])
qed

lemma add_max_or0_le: "d + max_or0 (map f xs) \<le> n \<longleftrightarrow> d \<le> n \<and> (\<forall>x \<in> set xs. d + f x \<le> n)"
  by (induction xs) auto

lemma val_depth_pos: "0 < val_depth v"
  by (cases v) auto

lemma codec_value: "codec put_value (value_at depth) (\<lambda>v. val_wf v \<and> depth + val_depth v \<le> Suc EXPR_DEPTH_MAX)"
proof (induction "Suc EXPR_DEPTH_MAX - depth" arbitrary: depth)
  case 0
  then have deep: "EXPR_DEPTH_MAX < depth" by simp
  moreover have "\<not> depth + val_depth v \<le> Suc EXPR_DEPTH_MAX" for v
    using deep val_depth_pos [of v] by simp
  ultimately show ?case by (intro codecI) (simp add: value_at.simps)
next
  case (Suc n)
  then have deep: "depth \<le> EXPR_DEPTH_MAX" by simp
  have "codec put_value (value_at (Suc depth)) (\<lambda>v. val_wf v \<and> Suc depth + val_depth v \<le> Suc EXPR_DEPTH_MAX)"
    using Suc(2) by (intro Suc(1)) simp
  note fields = rd_field_seq_iff [OF this]
  show ?case
  proof (rule codecI)
    fix bs v r
    show "value_at depth bs = Some (v, r) \<longleftrightarrow>
      (val_wf v \<and> depth + val_depth v \<le> Suc EXPR_DEPTH_MAX) \<and> bs = put_value v @ r"
      using deep
      by (cases bs; cases v)
         (auto simp: value_at.simps [of depth] bind_eq_Some_conv fields codec_simps byte_seq.dec_iff
           add_max_or0_le list_all_iff case_prod_beta split: if_splits)
  qed
qed

interpretation value_codec: codec put_value "value_at depth"
  "\<lambda>v. val_wf v \<and> depth + val_depth v \<le> Suc EXPR_DEPTH_MAX" for depth
  by (rule codec_value)

lemma dec_value_iff [codec_simps]:
  "dec_value bs = Some (v, r) \<longleftrightarrow> val_wf v \<and> val_depth v \<le> EXPR_DEPTH_MAX \<and> bs = put_value v @ r"
  by (auto simp: dec_value_def value_codec.dec_iff)

section \<open>Footprints and operators\<close>

definition put_footprint :: "footprint \<Rightarrow> byte list" where
  "put_footprint f = put_seq put_key (reads f) @ put_seq put_key (writes f)"

text \<open>\<open>windows(2).all(|w| w.first() < w.last())\<close>\<close>

fun is_sorted_unique :: "key list \<Rightarrow> bool" where
  "is_sorted_unique (k # l # ks) = (k < l \<and> is_sorted_unique (l # ks))"
| "is_sorted_unique _ = True"

definition dec_footprint :: "footprint reader" where
  "dec_footprint bs = do {
     (rs, r) \<leftarrow> rd_seq dec_key bs;
     (ws, r) \<leftarrow> rd_seq dec_key r;
     if \<not> is_sorted_unique rs \<or> \<not> is_sorted_unique ws then None else Some (fp_new rs ws, r) }"

lemma is_sorted_unique_iff [simp]: "is_sorted_unique ks \<longleftrightarrow> strict_sorted ks"
  by (induction ks rule: is_sorted_unique.induct) (auto dest: order.strict_trans)

definition keys_wf :: "key list \<Rightarrow> bool" where
  "keys_wf ks \<longleftrightarrow> length ks \<le> SEQ_MAX \<and> list_all key_ok ks \<and> strict_sorted ks"

definition fp_wf :: "footprint \<Rightarrow> bool" where
  "fp_wf f \<longleftrightarrow> keys_wf (reads f) \<and> keys_wf (writes f)"

interpretation footprint_codec: codec put_footprint dec_footprint fp_wf
proof (rule codecI)
  fix bs r f
  show "dec_footprint bs = Some (f, r) \<longleftrightarrow> fp_wf f \<and> bs = put_footprint f @ r"
    by (cases f) (auto simp: dec_footprint_def put_footprint_def fp_wf_def keys_wf_def bind_eq_Some_conv
        key_seq.dec_iff fp_new_def sort_dedup_id split: if_splits)
qed

primrec binop_byte :: "bin_op \<Rightarrow> byte" where
  "binop_byte BAdd = 0" | "binop_byte BSub = 1" | "binop_byte BMul = 2" | "binop_byte BDiv = 3"
| "binop_byte BRem = 4" | "binop_byte BMin = 5" | "binop_byte BMax = 6"

definition dec_binop :: "bin_op reader" where
  "dec_binop bs = do {
     (t, r) \<leftarrow> rd_u8 bs;
     if t = 0 then Some (BAdd, r) else if t = 1 then Some (BSub, r) else if t = 2 then Some (BMul, r)
     else if t = 3 then Some (BDiv, r) else if t = 4 then Some (BRem, r) else if t = 5 then Some (BMin, r)
     else if t = 6 then Some (BMax, r) else None }"

primrec cmp_byte :: "cmp \<Rightarrow> byte" where
  "cmp_byte CEq = 0" | "cmp_byte CNe = 1" | "cmp_byte CLt = 2" | "cmp_byte CLe = 3"
| "cmp_byte CGt = 4" | "cmp_byte CGe = 5"

definition dec_cmp :: "cmp reader" where
  "dec_cmp bs = do {
     (t, r) \<leftarrow> rd_u8 bs;
     if t = 0 then Some (CEq, r) else if t = 1 then Some (CNe, r) else if t = 2 then Some (CLt, r)
     else if t = 3 then Some (CLe, r) else if t = 4 then Some (CGt, r) else if t = 5 then Some (CGe, r)
     else None }"

interpretation binop_codec: codec "\<lambda>op. [binop_byte op]" dec_binop "\<lambda>_. True"
proof (rule codecI)
  show "dec_binop bs = Some (op, r) \<longleftrightarrow> True \<and> bs = [binop_byte op] @ r" for bs op r
    by (cases bs; cases op) (auto simp: dec_binop_def split: if_splits)
qed

interpretation cmp_codec: codec "\<lambda>op. [cmp_byte op]" dec_cmp "\<lambda>_. True"
proof (rule codecI)
  show "dec_cmp bs = Some (op, r) \<longleftrightarrow> True \<and> bs = [cmp_byte op] @ r" for bs op r
    by (cases bs; cases op) (auto simp: dec_cmp_def split: if_splits)
qed

section \<open>Expressions\<close>

primrec put_expr :: "expr \<Rightarrow> byte list" where
  "put_expr (Lit v) = 0 # put_value v"
| "put_expr (Load k) = 1 # put_key k"
| "put_expr (Arg i) = [2, i]"
| "put_expr (Bin op l r) = 3 # binop_byte op # put_expr l @ put_expr r"

function dec_expr :: "nat \<Rightarrow> expr reader" where
  "dec_expr depth bs =
     (if depth > EXPR_DEPTH_MAX then None
      else do {
        (t, r) \<leftarrow> rd_u8 bs;
        if t = 0 then do { (v, r) \<leftarrow> dec_value r; Some (Lit v, r) }
        else if t = 1 then do { (k, r) \<leftarrow> dec_key r; Some (Load k, r) }
        else if t = 2 then do { (i, r) \<leftarrow> rd_u8 r; Some (Arg i, r) }
        else if t = 3 then do {
          (op, r) \<leftarrow> dec_binop r;
          (lhs, r) \<leftarrow> dec_expr (depth + 1) r;
          (rhs, r) \<leftarrow> dec_expr (depth + 1) r;
          Some (Bin op lhs rhs, r) }
        else None })"
  by pat_completeness auto
termination
  by (relation "measure (\<lambda>(d, _). Suc EXPR_DEPTH_MAX - d)") auto

declare dec_expr.simps [simp del]

primrec expr_wf :: "expr \<Rightarrow> bool" where
  "expr_wf (Lit v) = (val_wf v \<and> val_depth v \<le> EXPR_DEPTH_MAX)"
| "expr_wf (Load k) = key_ok k"
| "expr_wf (Arg i) = True"
| "expr_wf (Bin op l r) = (expr_wf l \<and> expr_wf r)"

lemma expr_depth_pos: "0 < expr_depth e"
  by (cases e) auto

lemma codec_expr: "codec put_expr (dec_expr depth) (\<lambda>e. expr_wf e \<and> depth + expr_depth e \<le> Suc EXPR_DEPTH_MAX)"
proof (induction "Suc EXPR_DEPTH_MAX - depth" arbitrary: depth)
  case 0
  then have deep: "EXPR_DEPTH_MAX < depth" by simp
  moreover have "\<not> depth + expr_depth e \<le> Suc EXPR_DEPTH_MAX" for e
    using deep expr_depth_pos [of e] by simp
  ultimately show ?case by (intro codecI) (simp add: dec_expr.simps)
next
  case (Suc n)
  then have deep: "depth \<le> EXPR_DEPTH_MAX" by simp
  have "codec put_expr (dec_expr (Suc depth)) (\<lambda>e. expr_wf e \<and> Suc depth + expr_depth e \<le> Suc EXPR_DEPTH_MAX)"
    using Suc(2) by (intro Suc(1)) simp
  note sub = codec.dec_iff [OF this]
  show ?case
  proof (rule codecI)
    fix bs e r
    show "dec_expr depth bs = Some (e, r) \<longleftrightarrow>
      (expr_wf e \<and> depth + expr_depth e \<le> Suc EXPR_DEPTH_MAX) \<and> bs = put_expr e @ r"
      using deep
      by (cases bs; cases e)
         (auto simp: dec_expr.simps [of depth] bind_eq_Some_conv sub codec_simps key_codec.dec_iff
           binop_codec.dec_iff split: if_splits)
  qed
qed

interpretation expr_codec: codec put_expr "dec_expr depth"
  "\<lambda>e. expr_wf e \<and> depth + expr_depth e \<le> Suc EXPR_DEPTH_MAX" for depth
  by (rule codec_expr)

interpretation expr_seq: codec "put_seq put_expr" "rd_seq (\<lambda>r. dec_expr 1 r)"
  "\<lambda>es. length es \<le> SEQ_MAX \<and> list_all (\<lambda>e. expr_wf e \<and> 1 + expr_depth e \<le> Suc EXPR_DEPTH_MAX) es"
  by (rule codec_seq) (rule codec_expr)

definition exprs_wf :: "expr list \<Rightarrow> bool" where
  "exprs_wf es \<longleftrightarrow> length es \<le> SEQ_MAX \<and> list_all (\<lambda>e. expr_wf e \<and> expr_depth e \<le> EXPR_DEPTH_MAX) es"

lemma expr_seq_iff [codec_simps]:
  "rd_seq (\<lambda>r. dec_expr (Suc 0) r) bs = Some (es, r) \<longleftrightarrow> exprs_wf es \<and> bs = put_seq put_expr es @ r"
  using expr_seq.dec_iff [of bs es r] by (simp add: exprs_wf_def)

lemma expr_top_iff [codec_simps]:
  "dec_expr (Suc 0) bs = Some (e, r) \<longleftrightarrow> expr_wf e \<and> expr_depth e \<le> EXPR_DEPTH_MAX \<and> bs = put_expr e @ r"
  using expr_codec.dec_iff [of 1 bs e r] by simp

section \<open>Predicates\<close>

fun put_predicate :: "predicate \<Rightarrow> byte list" where
  "put_predicate (PHost kind rs args) = 0 # put_word 2 kind @ put_seq put_key rs @ put_seq put_expr args"
| "put_predicate (PCompare op lhs rhs) = 1 # cmp_byte op # put_expr lhs @ put_expr rhs"
| "put_predicate (PAnd parts) = 2 # put_seq put_predicate parts"
| "put_predicate (POr parts) = 3 # put_seq put_predicate parts"
| "put_predicate (PNot inner) = 4 # put_predicate inner"

function dec_predicate :: "nat \<Rightarrow> predicate reader" where
  "dec_predicate depth bs =
     (if depth > EXPR_DEPTH_MAX then None
      else do {
        (t, r) \<leftarrow> rd_u8 bs;
        if t = 0 then do {
          (kind, r) \<leftarrow> rd_word 2 r;
          (rs, r) \<leftarrow> rd_seq dec_key r;
          if \<not> is_sorted_unique rs then None
          else do { (args, r) \<leftarrow> rd_seq (\<lambda>r. dec_expr 1 r) r; Some (PHost kind rs args, r) } }
        else if t = 1 then do {
          (op, r) \<leftarrow> dec_cmp r;
          (lhs, r) \<leftarrow> dec_expr 1 r;
          (rhs, r) \<leftarrow> dec_expr 1 r;
          Some (PCompare op lhs rhs, r) }
        else if t = 2 then do { (ps, r) \<leftarrow> rd_seq (\<lambda>r. dec_predicate (depth + 1) r) r; Some (PAnd ps, r) }
        else if t = 3 then do { (ps, r) \<leftarrow> rd_seq (\<lambda>r. dec_predicate (depth + 1) r) r; Some (POr ps, r) }
        else if t = 4 then do { (p, r) \<leftarrow> dec_predicate (depth + 1) r; Some (PNot p, r) }
        else None })"
  by pat_completeness auto
termination
  by (relation "measure (\<lambda>(d, _). Suc EXPR_DEPTH_MAX - d)") auto

declare dec_predicate.simps [simp del]

text \<open>Boolean nesting, counted as the parser counts it.\<close>

fun pred_levels :: "predicate \<Rightarrow> nat" where
  "pred_levels (PAnd ps) = 1 + max_or0 (map pred_levels ps)"
| "pred_levels (POr ps) = 1 + max_or0 (map pred_levels ps)"
| "pred_levels (PNot p) = 1 + pred_levels p"
| "pred_levels _ = 1"

fun pred_wf :: "predicate \<Rightarrow> bool" where
  "pred_wf (PHost kind rs args) = (keys_wf rs \<and> exprs_wf args)"
| "pred_wf (PCompare op lhs rhs) =
     (expr_wf lhs \<and> expr_depth lhs \<le> EXPR_DEPTH_MAX \<and> expr_wf rhs \<and> expr_depth rhs \<le> EXPR_DEPTH_MAX)"
| "pred_wf (PAnd ps) = (length ps \<le> SEQ_MAX \<and> list_all pred_wf ps)"
| "pred_wf (POr ps) = (length ps \<le> SEQ_MAX \<and> list_all pred_wf ps)"
| "pred_wf (PNot p) = pred_wf p"

lemma pred_levels_pos: "0 < pred_levels p"
  by (cases p) auto

lemma codec_predicate:
  "codec put_predicate (dec_predicate depth) (\<lambda>p. pred_wf p \<and> depth + pred_levels p \<le> Suc EXPR_DEPTH_MAX)"
proof (induction "Suc EXPR_DEPTH_MAX - depth" arbitrary: depth)
  case 0
  then have deep: "EXPR_DEPTH_MAX < depth" by simp
  moreover have "\<not> depth + pred_levels p \<le> Suc EXPR_DEPTH_MAX" for p
    using deep pred_levels_pos [of p] by simp
  ultimately show ?case by (intro codecI) (simp add: dec_predicate.simps)
next
  case (Suc n)
  then have deep: "depth \<le> EXPR_DEPTH_MAX" by simp
  have *: "codec put_predicate (dec_predicate (Suc depth))
      (\<lambda>p. pred_wf p \<and> Suc depth + pred_levels p \<le> Suc EXPR_DEPTH_MAX)"
    using Suc(2) by (intro Suc(1)) simp
  note sub = codec.dec_iff [OF *] codec.dec_iff [OF codec_seq [OF *]]
  show ?case
  proof (rule codecI)
    fix bs p r
    show "dec_predicate depth bs = Some (p, r) \<longleftrightarrow>
      (pred_wf p \<and> depth + pred_levels p \<le> Suc EXPR_DEPTH_MAX) \<and> bs = put_predicate p @ r"
      using deep
      by (cases bs; cases p)
         (auto simp: dec_predicate.simps [of depth] bind_eq_Some_conv sub codec_simps key_seq.dec_iff
           keys_wf_def cmp_codec.dec_iff add_max_or0_le list_all_iff split: if_splits)
  qed
qed

interpretation predicate_codec: codec put_predicate "dec_predicate depth"
  "\<lambda>p. pred_wf p \<and> depth + pred_levels p \<le> Suc EXPR_DEPTH_MAX" for depth
  by (rule codec_predicate)

section \<open>Effects, claims, terms\<close>

definition put_effect :: "effect \<Rightarrow> byte list" where
  "put_effect e =
     put_word 2 (eff_kind e) @ put_footprint (eff_footprint e) @ put_seq put_expr (eff_args e) @
     [of_bool (eff_external e)]"

definition dec_effect :: "effect reader" where
  "dec_effect bs = do {
     (kind, r) \<leftarrow> rd_word 2 bs;
     (fp, r) \<leftarrow> dec_footprint r;
     (args, r) \<leftarrow> rd_seq (\<lambda>r. dec_expr 1 r) r;
     (external, r) \<leftarrow> rd_bool r;
     Some (\<lparr>eff_kind = kind, eff_footprint = fp, eff_args = args, eff_external = external\<rparr>, r) }"

definition put_claim :: "claim \<Rightarrow> byte list" where
  "put_claim c =
     put_word 2 (claim_kind c) @ put_footprint (claim_footprint c) @ put_word 4 (claim_proof_bytes c)"

definition dec_claim :: "claim reader" where
  "dec_claim bs = do {
     (kind, r) \<leftarrow> rd_word 2 bs;
     (fp, r) \<leftarrow> dec_footprint r;
     (n, r) \<leftarrow> rd_word 4 r;
     Some (\<lparr>claim_kind = kind, claim_footprint = fp, claim_proof_bytes = n\<rparr>, r) }"

definition effect_wf :: "effect \<Rightarrow> bool" where
  "effect_wf e \<longleftrightarrow> fp_wf (eff_footprint e) \<and> exprs_wf (eff_args e)"

interpretation effect_codec: codec put_effect dec_effect effect_wf
proof (rule codecI)
  show "dec_effect bs = Some (e, r) \<longleftrightarrow> effect_wf e \<and> bs = put_effect e @ r" for bs e r
    by (cases e) (auto simp: dec_effect_def put_effect_def effect_wf_def bind_eq_Some_conv codec_simps
        footprint_codec.dec_iff)
qed

interpretation claim_codec: codec put_claim dec_claim "\<lambda>c. fp_wf (claim_footprint c)"
proof (rule codecI)
  show "dec_claim bs = Some (c, r) \<longleftrightarrow> fp_wf (claim_footprint c) \<and> bs = put_claim c @ r" for bs c r
    by (cases c) (auto simp: dec_claim_def put_claim_def bind_eq_Some_conv codec_simps
        footprint_codec.dec_iff)
qed

fun put_term :: "ergon_term \<Rightarrow> byte list" where
  "put_term (Do e) = 0 # put_effect e"
| "put_term (Seq ts) = 1 # put_seq put_term ts"
| "put_term (Par ts) = 2 # put_seq put_term ts"
| "put_term (Gate p t) = 3 # put_predicate p @ put_term t"
| "put_term (Alt bs) = 4 # put_seq (\<lambda>(p, t). put_predicate p @ put_term t) bs"
| "put_term (Prove c) = 5 # put_claim c"

text \<open>The closure that reads one branch of an \<open>Alt\<close>.\<close>

definition dec_branch :: "ergon_term reader \<Rightarrow> (predicate \<times> ergon_term) reader" where
  "dec_branch item bs = do {
     (p, r) \<leftarrow> dec_predicate 1 bs;
     (t, r) \<leftarrow> item r;
     Some ((p, t), r) }"

function dec_term :: "nat \<Rightarrow> ergon_term reader" where
  "dec_term depth bs =
     (if depth > D_MAX then None
      else do {
        (t, r) \<leftarrow> rd_u8 bs;
        if t = 0 then do { (e, r) \<leftarrow> dec_effect r; Some (Do e, r) }
        else if t = 1 then do { (ts, r) \<leftarrow> rd_seq (\<lambda>r. dec_term (depth + 1) r) r; Some (Seq ts, r) }
        else if t = 2 then do { (ts, r) \<leftarrow> rd_seq (\<lambda>r. dec_term (depth + 1) r) r; Some (Par ts, r) }
        else if t = 3 then do {
          (p, r) \<leftarrow> dec_predicate 1 r;
          (b, r) \<leftarrow> dec_term (depth + 1) r;
          Some (Gate p b, r) }
        else if t = 4 then do {
          (branches, r) \<leftarrow> rd_seq (dec_branch (\<lambda>r. dec_term (depth + 1) r)) r;
          Some (Alt branches, r) }
        else if t = 5 then do { (c, r) \<leftarrow> dec_claim r; Some (Prove c, r) }
        else None })"
  by pat_completeness auto
termination
  by (relation "measure (\<lambda>(d, _). Suc D_MAX - d)") auto

declare dec_term.simps [simp del]

definition term_encode :: "ergon_term \<Rightarrow> byte list" where
  "term_encode t = put_term t"

definition term_decode :: "byte list \<Rightarrow> ergon_term option" where
  "term_decode bs = rd_finish (dec_term 1) bs"

text \<open>\<open>Checked::decode\<close>: \<open>Inl None\<close> for bytes that are no encoding, \<open>Inl (Some e)\<close> for an ill-typed term.\<close>

definition checked_decode :: "byte list \<Rightarrow> limits \<Rightarrow> type_error option + ergon_term" where
  "checked_decode bs lim =
     (case term_decode bs of
        None \<Rightarrow> Inl None
      | Some t \<Rightarrow> (case checked_new t lim of Inl e \<Rightarrow> Inl (Some e) | Inr t \<Rightarrow> Inr t))"

section \<open>Which terms have an encoding\<close>

text \<open>The nesting of a term counted as the parser counts it, and the well-formedness it enforces.\<close>

fun term_levels :: "ergon_term \<Rightarrow> nat" where
  "term_levels (Seq ts) = 1 + max_or0 (map term_levels ts)"
| "term_levels (Par ts) = 1 + max_or0 (map term_levels ts)"
| "term_levels (Gate p t) = 1 + term_levels t"
| "term_levels (Alt bs) = 1 + max_or0 (map (\<lambda>(p, t). term_levels t) bs)"
| "term_levels _ = 1"

fun term_wf :: "ergon_term \<Rightarrow> bool" where
  "term_wf (Do e) = effect_wf e"
| "term_wf (Seq ts) = (length ts \<le> SEQ_MAX \<and> list_all term_wf ts)"
| "term_wf (Par ts) = (length ts \<le> SEQ_MAX \<and> list_all term_wf ts)"
| "term_wf (Gate p t) = (pred_wf p \<and> pred_levels p \<le> EXPR_DEPTH_MAX \<and> term_wf t)"
| "term_wf (Alt bs) =
     (length bs \<le> SEQ_MAX \<and> list_all (\<lambda>(p, t). pred_wf p \<and> pred_levels p \<le> EXPR_DEPTH_MAX \<and> term_wf t) bs)"
| "term_wf (Prove c) = fp_wf (claim_footprint c)"

definition encodable :: "ergon_term \<Rightarrow> bool" where
  "encodable t \<longleftrightarrow> term_wf t \<and> term_levels t \<le> D_MAX"

lemma term_levels_pos: "0 < term_levels t"
  by (cases t) auto

lemma codec_branch:
  assumes "codec put_term item ok"
  shows "codec (\<lambda>(p, t). put_predicate p @ put_term t) (dec_branch item)
    (\<lambda>(p, t). pred_wf p \<and> pred_levels p \<le> EXPR_DEPTH_MAX \<and> ok t)"
  by (rule codecI) (auto simp: dec_branch_def bind_eq_Some_conv predicate_codec.dec_iff codec.dec_iff [OF assms])

lemma codec_term: "codec put_term (dec_term depth) (\<lambda>t. term_wf t \<and> depth + term_levels t \<le> Suc D_MAX)"
proof (induction "Suc D_MAX - depth" arbitrary: depth)
  case 0
  then have deep: "D_MAX < depth" by simp
  moreover have "\<not> depth + term_levels t \<le> Suc D_MAX" for t
    using deep term_levels_pos [of t] by simp
  ultimately show ?case by (intro codecI) (simp add: dec_term.simps)
next
  case (Suc n)
  then have deep: "depth \<le> D_MAX" by simp
  have *: "codec put_term (dec_term (Suc depth)) (\<lambda>t. term_wf t \<and> Suc depth + term_levels t \<le> Suc D_MAX)"
    using Suc(2) by (intro Suc(1)) simp
  note sub = codec.dec_iff [OF *] codec.dec_iff [OF codec_seq [OF *]]
    codec.dec_iff [OF codec_seq [OF codec_branch [OF *]]]
  show ?case
  proof (rule codecI)
    fix bs t r
    show "dec_term depth bs = Some (t, r) \<longleftrightarrow>
      (term_wf t \<and> depth + term_levels t \<le> Suc D_MAX) \<and> bs = put_term t @ r"
      using deep
      by (cases bs; cases t)
         (auto simp: dec_term.simps [of depth] bind_eq_Some_conv sub effect_codec.dec_iff
           claim_codec.dec_iff predicate_codec.dec_iff add_max_or0_le list_all_iff case_prod_beta
           split: if_splits)
  qed
qed

interpretation term_codec: codec put_term "dec_term depth"
  "\<lambda>t. term_wf t \<and> depth + term_levels t \<le> Suc D_MAX" for depth
  by (rule codec_term)

lemma term_decode_Some: "term_decode bs = Some t \<longleftrightarrow> encodable t \<and> bs = term_encode t"
  by (auto simp: term_decode_def rd_finish_whole term_codec.dec_iff encodable_def term_encode_def)

lemma fp_wf_ok: "fp_wf f \<Longrightarrow> fp_ok f"
  by (simp add: fp_wf_def keys_wf_def fp_ok_def)

lemma term_wf_fps_ok: "term_wf t \<Longrightarrow> fps_ok t"
  by (induction t rule: term_wf.induct)
     (auto simp: effect_wf_def list_all_iff intro: fp_wf_ok)

text \<open>On terms without empty composites the parser's count is the depth of \<open>Term::depth\<close>, plus one.\<close>

lemma max_or0_Suc:
  "xs \<noteq> [] \<Longrightarrow> (\<And>x. x \<in> set xs \<Longrightarrow> g x = Suc (f x)) \<Longrightarrow> max_or0 (map g xs) = Suc (max_or0 (map f xs))"
  by (induction xs rule: induct_list012) auto

lemma term_levels_depth: "structure_ok lim t \<Longrightarrow> term_levels t = Suc (term_depth t)"
proof (induction lim t rule: structure_ok.induct)
  case (6 lim bs)
  then show ?case
    using max_or0_Suc [of bs "\<lambda>(p, t). term_levels t" "\<lambda>(p, t). term_depth t"]
    by (force simp: list_all_iff)
qed (auto simp: list_all_iff intro!: max_or0_Suc)

section \<open>Properties of the encoding\<close>

text \<open>
  C8. The term codec is a bijection between the encodable terms and the byte strings it accepts:
  decoding succeeds with \<open>t\<close> exactly on the one canonical encoding of \<open>t\<close>, so a contract hash names
  one term and no artefact is malleable.
\<close>

theorem term_codec_bijective:
  "term_decode bs = Some t \<longleftrightarrow> encodable t \<and> bs = term_encode t"
  by (rule term_decode_Some)

text \<open>
  C9. The wire path delivers only what execution relies on: a term that \<open>Checked::decode\<close> returns is
  well typed, has sorted footprints and bounded expressions, nests at most twice, and re-encodes to
  the artefact's bytes.
\<close>

theorem checked_decode_sound:
  assumes "checked_decode bs lim = Inr t"
  shows "fps_ok t \<and> well_typed t lim = Inr () \<and> expr_depth_of t \<le> EXPR_DEPTH_MAX \<and> term_depth t < D_MAX \<and>
    term_encode t = bs"
proof -
  from assms have dec: "encodable t" "bs = term_encode t" and typed: "well_typed t lim = Inr ()"
    by (auto simp: checked_decode_def checked_new_def term_decode_Some bindR_eq_Inr split: option.splits sum.splits)
  then have fps: "fps_ok t" by (simp add: encodable_def term_wf_fps_ok)
  then have "structure_ok lim t" "expr_depth_of t \<le> EXPR_DEPTH_MAX" using typed well_typed_ok by auto
  with dec typed fps show ?thesis using term_levels_depth [of lim t] by (simp add: encodable_def)
qed

theorem checked_decode_sound_witness:
  "fps_ok (Seq [store_slot 1 (Lit (VInt 7))]) \<and>
   term_depth (Seq [store_slot 1 (Lit (VInt 7))]) < D_MAX"
proof -
  let ?t = "Seq [store_slot 1 (Lit (VInt 7))]"
  have "encodable ?t"
    by (simp add: encodable_def D_MAX_def SEQ_MAX_def store_slot_def effect_wf_def effect_with_args_def
        effect_internal_def fp_wf_def keys_wf_def fp_new_def exprs_wf_def EXPR_DEPTH_MAX_def cell_key_def
        sort_dedup_id)
  then have "term_decode (term_encode ?t) = Some ?t" by (simp add: term_decode_Some)
  moreover have "well_typed ?t limits_unbounded = Inr ()"
    using well_typed_ok fp_width_card by (simp add: limits_unbounded_def D_MAX_def EXPR_DEPTH_MAX_def)
  ultimately have "checked_decode (term_encode ?t) limits_unbounded = Inr ?t"
    by (simp add: checked_decode_def checked_new_def)
  then show ?thesis using checked_decode_sound by blast
qed

text \<open>
  Encoding a well-typed term and decoding it again gives the term back when it nests at most
  twice. At the type checker's own ceiling of three levels the decoder refuses the encoding, for
  every such term.
\<close>

theorem checked_decode_encode:
  assumes "term_wf t" "well_typed t lim = Inr ()"
  shows "checked_decode (term_encode t) lim = (if term_depth t < D_MAX then Inr t else Inl None)"
proof -
  have typed: "structure_ok lim t" "term_depth t \<le> D_MAX"
    using assms well_typed_ok term_wf_fps_ok by blast+
  then have levels: "term_levels t \<le> Suc D_MAX" using term_levels_depth [of lim t] by simp
  from typed have enc: "encodable t \<longleftrightarrow> term_depth t < D_MAX"
    using assms(1) term_levels_depth [of lim t] by (auto simp: encodable_def)
  show ?thesis
  proof (cases "term_depth t < D_MAX")
    case True
    then have "term_decode (term_encode t) = Some t" by (simp add: term_decode_Some enc)
    with True assms(2) show ?thesis by (simp add: checked_decode_def checked_new_def)
  next
    case False
    have "\<not> (encodable u \<and> term_encode t = term_encode u)" for u
    proof
      assume u: "encodable u \<and> term_encode t = term_encode u"
      have "t = u"
        by (rule term_codec.enc_inj [where depth = 0])
           (use u assms(1) levels in \<open>auto simp: encodable_def term_encode_def\<close>)
      with u enc False show False by simp
    qed
    then have "term_decode (term_encode t) = None" using term_decode_Some by (metis not_Some_eq)
    with False show ?thesis by (simp add: checked_decode_def)
  qed
qed

theorem checked_decode_encode_witness:
  "well_typed (Seq [Seq [Seq [store_slot 1 (Lit (VInt 7))]]]) limits_unbounded = Inr () \<and>
   checked_decode (term_encode (Seq [Seq [Seq [store_slot 1 (Lit (VInt 7))]]])) limits_unbounded = Inl None \<and>
   checked_decode (term_encode (Seq [Seq [store_slot 1 (Lit (VInt 7))]])) limits_unbounded =
     Inr (Seq [Seq [store_slot 1 (Lit (VInt 7))]])"
proof -
  let ?t = "store_slot 1 (Lit (VInt 7))"
  have wf: "term_wf ?t"
    by (simp add: store_slot_def effect_wf_def effect_with_args_def effect_internal_def fp_wf_def keys_wf_def
        fp_new_def exprs_wf_def SEQ_MAX_def EXPR_DEPTH_MAX_def cell_key_def sort_dedup_id)
  have typed: "well_typed (Seq [Seq [?t]]) limits_unbounded = Inr ()"
    "well_typed (Seq [Seq [Seq [?t]]]) limits_unbounded = Inr ()"
    using well_typed_ok fp_width_card
    by (simp_all add: limits_unbounded_def D_MAX_def EXPR_DEPTH_MAX_def)
  show ?thesis
    using typed wf checked_decode_encode [of "Seq [Seq [?t]]" limits_unbounded]
      checked_decode_encode [of "Seq [Seq [Seq [?t]]]" limits_unbounded]
    by (simp add: D_MAX_def SEQ_MAX_def)
qed

text \<open>
  The value codec has the same property: a value decodes exactly from its one encoding, for the
  values with sorted records nested at most \<open>EXPR_DEPTH_MAX\<close> deep and sequences of at most \<open>SEQ_MAX\<close>.
\<close>

theorem value_codec_bijective:
  "decode_value bs = Some v \<longleftrightarrow> val_wf v \<and> val_depth v \<le> EXPR_DEPTH_MAX \<and> bs = encode_value v"
  by (simp add: decode_value_def rd_finish_whole dec_value_iff encode_value_def)

end
