(* ===== verification/Btree.thy ===== *)
theory Btree
  imports Fanos_Prelude
begin

text \<open>
  The ordered maps of the Rust standard library (\<open>BTreeMap\<close>, \<open>BTreeSet\<close>) as the components use them:
  a map is its entries in key order, so iteration, \<open>keys().next_back()\<close> and \<open>range\<close> read the list as
  the source does. The locale \<open>ordered_map\<close> is the contract clients rely on; its interpretation
  discharges it for the entry list.
\<close>

type_synonym ('k, 'v) btree = "('k \<times> 'v) list"

definition bt_ok :: "('k::linorder, 'v) btree \<Rightarrow> bool" where
  "bt_ok m \<longleftrightarrow> strict_sorted (map fst m)"

definition bt_get :: "('k, 'v) btree \<Rightarrow> 'k \<Rightarrow> 'v option" where
  "bt_get m k = map_of m k"

primrec bt_insert :: "'k::linorder \<Rightarrow> 'v \<Rightarrow> ('k, 'v) btree \<Rightarrow> ('k, 'v) btree" where
  "bt_insert k v [] = [(k, v)]"
| "bt_insert k v (e # m) =
     (if k < fst e then (k, v) # e # m
      else if k = fst e then (k, v) # m
      else e # bt_insert k v m)"

definition bt_remove :: "'k \<Rightarrow> ('k, 'v) btree \<Rightarrow> ('k, 'v) btree" where
  "bt_remove k m = filter (\<lambda>e. fst e \<noteq> k) m"

text \<open>\<open>split_off(&k)\<close> returns the entries from \<open>k\<close> on.\<close>

definition bt_split_off :: "'k::linorder \<Rightarrow> ('k, 'v) btree \<Rightarrow> ('k, 'v) btree" where
  "bt_split_off k m = filter (\<lambda>e. k \<le> fst e) m"

definition bt_range :: "'k::linorder \<Rightarrow> 'k \<Rightarrow> ('k, 'v) btree \<Rightarrow> ('k, 'v) btree" where
  "bt_range a b m = filter (\<lambda>e. a \<le> fst e \<and> fst e < b) m"

definition bt_contains :: "('k, 'v) btree \<Rightarrow> 'k \<Rightarrow> bool" where
  "bt_contains m k = (bt_get m k \<noteq> None)"

definition bt_last_key :: "('k, 'v) btree \<Rightarrow> 'k option" where
  "bt_last_key m = (if m = [] then None else Some (fst (last m)))"

abbreviation bt_keys :: "('k, 'v) btree \<Rightarrow> 'k set" where
  "bt_keys m \<equiv> fst ` set m"

section \<open>The contract of an ordered map\<close>

locale ordered_map =
  fixes empty :: "'m"
    and lookup :: "'m \<Rightarrow> 'k::linorder \<Rightarrow> 'v option"
    and update :: "'k \<Rightarrow> 'v \<Rightarrow> 'm \<Rightarrow> 'm"
    and remove :: "'k \<Rightarrow> 'm \<Rightarrow> 'm"
    and split_off :: "'k \<Rightarrow> 'm \<Rightarrow> 'm"
    and inv :: "'m \<Rightarrow> bool"
  assumes lookup_empty: "lookup empty k = None"
    and lookup_update: "lookup (update k v m) k' = (if k' = k then Some v else lookup m k')"
    and lookup_remove: "lookup (remove k m) k' = (if k' = k then None else lookup m k')"
    and lookup_split_off: "lookup (split_off k m) k' = (if k \<le> k' then lookup m k' else None)"
    and inv_empty: "inv empty"
    and inv_update: "inv m \<Longrightarrow> inv (update k v m)"
    and inv_remove: "inv m \<Longrightarrow> inv (remove k m)"
    and inv_split_off: "inv m \<Longrightarrow> inv (split_off k m)"
begin

lemmas inv_ops [intro, simp] = inv_empty inv_update inv_remove inv_split_off

lemma lookup_entry:
  "lookup (case lookup m k of None \<Rightarrow> update k v m | Some _ \<Rightarrow> m) k' =
     (if k' = k then Some (case lookup m k of None \<Rightarrow> v | Some w \<Rightarrow> w) else lookup m k')"
  by (simp add: lookup_update split: option.splits)

lemma dom_split_off: "dom (lookup (split_off k m)) = dom (lookup m) \<inter> {k..}"
  by (auto simp: dom_def lookup_split_off)

end

lemma bt_keys_insert [simp]: "bt_keys (bt_insert k v m) = insert k (bt_keys m)"
  by (induction m) auto

lemma bt_get_insert: "bt_get (bt_insert k v m) k' = (if k' = k then Some v else bt_get m k')"
  by (induction m) (auto simp: bt_get_def)

lemma bt_ok_insert: "bt_ok m \<Longrightarrow> bt_ok (bt_insert k v m)"
  using bt_keys_insert [of k v]
  by (induction m) (auto simp: bt_ok_def simp del: bt_keys_insert)

lemma bt_get_filter: "bt_get (filter (\<lambda>e. P (fst e)) m) k = (if P k then bt_get m k else None)"
  by (induction m) (auto simp: bt_get_def)

lemma bt_ok_filter: "bt_ok m \<Longrightarrow> bt_ok (filter P m)"
  by (simp add: bt_ok_def sorted_wrt_map sorted_wrt_filter)

interpretation bt: ordered_map "[]" bt_get bt_insert bt_remove bt_split_off bt_ok
proof unfold_locales
  show "bt_get (bt_remove k m) k' = (if k' = k then None else bt_get m k')" for k k' and m :: "('a, 'b) btree"
    using bt_get_filter [of "\<lambda>x. x \<noteq> k" m k'] by (simp add: bt_remove_def)
  show "bt_get (bt_split_off k m) k' = (if k \<le> k' then bt_get m k' else None)" for k k' and m :: "('a, 'b) btree"
    using bt_get_filter [of "\<lambda>x. k \<le> x" m k'] by (simp add: bt_split_off_def)
qed (simp_all add: bt_get_insert bt_ok_insert bt_ok_filter bt_remove_def bt_split_off_def,
     simp_all add: bt_get_def bt_ok_def)

lemmas bt_get_simps [simp] = bt.lookup_empty bt.lookup_update bt.lookup_remove bt.lookup_split_off

section \<open>Entries and keys\<close>

lemma bt_contains_iff [simp]: "bt_contains m k \<longleftrightarrow> k \<in> bt_keys m"
  by (simp add: bt_contains_def bt_get_def map_of_eq_None_iff)

lemma bt_get_Some: "bt_ok m \<Longrightarrow> bt_get m k = Some v \<longleftrightarrow> (k, v) \<in> set m"
  by (simp add: bt_get_def bt_ok_def strict_sorted_iff)

lemma bt_get_None: "bt_get m k = None \<longleftrightarrow> k \<notin> bt_keys m"
  by (simp add: bt_get_def map_of_eq_None_iff)

lemma bt_keys_filter [simp]:
  "bt_keys (bt_remove k m) = bt_keys m - {k}"
  "bt_keys (bt_split_off k m) = bt_keys m \<inter> {k..}"
  by (auto simp: bt_remove_def bt_split_off_def)

lemma length_bt: "bt_ok m \<Longrightarrow> length m = card (bt_keys m)"
  by (metis bt_ok_def distinct_card length_map set_map strict_sorted_iff)

lemma length_bt_remove: "k \<in> bt_keys m \<Longrightarrow> length (bt_remove k m) < length m"
  unfolding bt_remove_def by (induction m) (auto simp: le_imp_less_Suc)

lemma bt_last_key_Some:
  assumes "bt_ok m" "bt_last_key m = Some h"
  shows "h \<in> bt_keys m" "k \<in> bt_keys m \<Longrightarrow> k \<le> h"
proof -
  from assms(2) have m: "m = butlast m @ [last m]" "h = fst (last m)"
    by (auto simp: bt_last_key_def split: if_splits)
  have "strict_sorted (map fst (butlast m @ [last m]))" using assms(1) m(1) by (simp add: bt_ok_def)
  then have below: "\<forall>x \<in> bt_keys (butlast m). x < h" by (simp add: sorted_wrt_append m(2))
  have keys: "bt_keys m = insert h (bt_keys (butlast m))" using m by (metis list.set_map map_append list.simps(8,9) set_append Un_insert_right list.simps(15) empty_set sup_bot_right)
  show "h \<in> bt_keys m" "k \<in> bt_keys m \<Longrightarrow> k \<le> h" using below keys by auto
qed

lemma bt_last_key_None [simp]: "bt_last_key m = None \<longleftrightarrow> m = []" "bt_last_key [] = None"
  by (simp_all add: bt_last_key_def)

end
