(* ===== verification/Stream_Sender.thy ===== *)
theory Stream_Sender
  imports Btree
begin

unbundle bit_operations_syntax

text \<open>
  The sender half of the reliable byte stream (\<open>fanos-stream/src/lib.rs\<close>): the retransmit-timeout
  estimator and its jitter, segments and their encoding, acknowledgements, and \<open>StreamSender\<close> with
  every operation. A \<open>u32\<close> is a natural number kept below \<open>2 ^ 32\<close> by the operations: saturating
  operations are \<open>sat_add\<close> and \<open>sat_mul\<close>, unchecked ones wrap (\<open>wrap32\<close>), as in a release build. The
  lemmas keep the timer within its clamp, bound the time to the next retransmission, and maintain
  the correspondence between sequence numbers and the bytes pushed.
\<close>

section \<open>32-bit arithmetic and constants\<close>

definition U32_MAX :: nat where
  "U32_MAX = 2 ^ 32 - 1"

definition sat_add :: "nat \<Rightarrow> nat \<Rightarrow> nat" where
  "sat_add a b = min (a + b) U32_MAX"

definition sat_mul :: "nat \<Rightarrow> nat \<Rightarrow> nat" where
  "sat_mul a b = min (a * b) U32_MAX"

definition wrap32 :: "nat \<Rightarrow> nat" where
  "wrap32 a = a mod 2 ^ 32"

definition clamp :: "nat \<Rightarrow> nat \<Rightarrow> nat \<Rightarrow> nat" where
  "clamp lo hi x = (if x < lo then lo else if hi < x then hi else x)"

definition abs_diff :: "nat \<Rightarrow> nat \<Rightarrow> nat" where
  "abs_diff a b = (if a < b then b - a else a - b)"

definition MAX_SEGMENT :: nat where "MAX_SEGMENT = 1024"
definition SACK_WIDTH :: nat where "SACK_WIDTH = 64"
definition DEFAULT_WINDOW :: nat where "DEFAULT_WINDOW = 32"
definition RTO_INIT_TICKS :: nat where "RTO_INIT_TICKS = 3"
definition RTO_MIN_TICKS :: nat where "RTO_MIN_TICKS = 1"
definition RTO_MAX_TICKS :: nat where "RTO_MAX_TICKS = 240"
definition RTO_BACKOFF_MULT :: nat where "RTO_BACKOFF_MULT = 4"
definition DUP_ACK_THRESHOLD :: nat where "DUP_ACK_THRESHOLD = 3"
definition FAST_RETX_JITTER_SPAN :: nat where "FAST_RETX_JITTER_SPAN = 5"
definition GOLDEN_Q32 :: nat where "GOLDEN_Q32 = 2654435769"
definition SILVER_Q32 :: nat where "SILVER_Q32 = 1779033703"

lemmas stream_consts = MAX_SEGMENT_def SACK_WIDTH_def DEFAULT_WINDOW_def RTO_INIT_TICKS_def
  RTO_MIN_TICKS_def RTO_MAX_TICKS_def RTO_BACKOFF_MULT_def DUP_ACK_THRESHOLD_def
  FAST_RETX_JITTER_SPAN_def U32_MAX_def

section \<open>The retransmit timer\<close>

record rtt_estimator =
  srtt_x8 :: nat
  rttvar_x4 :: nat
  rto :: nat
  base_rto :: nat

definition rtt_new :: rtt_estimator where
  "rtt_new = \<lparr>srtt_x8 = 0, rttvar_x4 = 0, rto = RTO_INIT_TICKS, base_rto = RTO_INIT_TICKS\<rparr>"

definition rtt_sample :: "nat \<Rightarrow> rtt_estimator \<Rightarrow> rtt_estimator" where
  "rtt_sample m e =
     (let m = max m 1;
          e = (if srtt_x8 e = 0
               then e\<lparr>srtt_x8 := wrap32 (m * 8), rttvar_x4 := wrap32 (m * 2)\<rparr>
               else let srtt = srtt_x8 e div 8;
                        delta = abs_diff srtt m
                    in e\<lparr>rttvar_x4 := wrap32 (rttvar_x4 e - rttvar_x4 e div 4 + delta),
                         srtt_x8 := wrap32 (srtt_x8 e - srtt_x8 e div 8 + m)\<rparr>);
          b = clamp RTO_MIN_TICKS RTO_MAX_TICKS (wrap32 (srtt_x8 e div 8 + max (rttvar_x4 e) 1))
      in e\<lparr>base_rto := b, rto := b\<rparr>)"

definition back_off :: "rtt_estimator \<Rightarrow> rtt_estimator" where
  "back_off e =
     (let ceiling = min (sat_mul (base_rto e) RTO_BACKOFF_MULT) RTO_MAX_TICKS
      in e\<lparr>rto := max (min (sat_mul (rto e) 2) ceiling) RTO_MIN_TICKS\<rparr>)"

definition jitter_ticks :: "nat \<Rightarrow> nat \<Rightarrow> nat \<Rightarrow> nat" where
  "jitter_ticks seq attempt r =
     (let phase = wrap32 (wrap32 (seq * SILVER_Q32) + wrap32 (attempt * GOLDEN_Q32));
          scaled = (phase * max r 1) div 2 ^ 32
      in if scaled \<le> U32_MAX then scaled else 0)"

section \<open>Acknowledgements and segments\<close>

record ack =
  cumulative :: nat
  sack :: u64
  rwnd :: nat

record segment =
  seg_stream_id :: nat
  seg_seq :: nat
  seg_fin :: bool
  seg_data :: "byte list"

definition segment_encode :: "segment \<Rightarrow> byte list" where
  "segment_encode s =
     be_bytes 4 (seg_stream_id s) @ be_bytes 4 (seg_seq s) @ [of_bool (seg_fin s)] @ seg_data s"

definition segment_decode :: "byte list \<Rightarrow> segment option" where
  "segment_decode bs = do {
     (sid, r) \<leftarrow> rd_take 4 bs;
     (sq, r) \<leftarrow> rd_take 4 r;
     (f, r) \<leftarrow> rd_take 1 r;
     Some \<lparr>seg_stream_id = from_be sid, seg_seq = from_be sq, seg_fin = (hd f \<noteq> 0), seg_data = r\<rparr> }"

section \<open>The sender\<close>

record sender =
  tx_stream_id :: nat
  segments :: "byte list list"
  base :: nat
  pending :: "byte list"
  finished :: bool
  acked :: nat
  sacked :: "(nat, unit) btree"
  window :: nat
  peer_rwnd :: nat
  clock :: nat
  last_sent :: "(nat, nat) btree"
  due_at :: "(nat, nat) btree"
  retransmitted :: "(nat, nat) btree"
  rtt :: rtt_estimator
  last_cumulative :: nat
  dup_acks :: nat

definition sender_open :: "nat \<Rightarrow> sender" where
  "sender_open stream_id =
     \<lparr>tx_stream_id = stream_id, segments = [], base = 0, pending = [], finished = False, acked = 0,
      sacked = [], window = DEFAULT_WINDOW, peer_rwnd = SACK_WIDTH, clock = 0, last_sent = [],
      due_at = [], retransmitted = [], rtt = rtt_new, last_cumulative = 0, dup_acks = 0\<rparr>"

definition tx_total :: "sender \<Rightarrow> nat" where
  "tx_total s = sat_add (base s) (if length (segments s) \<le> U32_MAX then length (segments s) else U32_MAX)"

definition with_window :: "nat \<Rightarrow> sender \<Rightarrow> sender" where
  "with_window w s = s\<lparr>window := clamp 1 SACK_WIDTH w\<rparr>"

function seal_full :: "sender \<Rightarrow> sender" where
  "seal_full s =
     (if length (pending s) \<ge> MAX_SEGMENT
      then seal_full (s\<lparr>segments := segments s @ [take MAX_SEGMENT (pending s)],
                        pending := drop MAX_SEGMENT (pending s)\<rparr>)
      else s)"
  by pat_completeness auto
termination
  by (relation "measure (\<lambda>s. length (pending s))") (auto simp: MAX_SEGMENT_def)

declare seal_full.simps [simp del]

definition push :: "byte list \<Rightarrow> sender \<Rightarrow> sender" where
  "push extra s =
     (if finished s then s else seal_full (s\<lparr>pending := pending s @ extra\<rparr>))"

definition flush :: "sender \<Rightarrow> sender" where
  "flush s =
     (if finished s \<or> pending s = [] then s
      else s\<lparr>pending := [], segments := segments s @ [pending s]\<rparr>)"

definition finish :: "sender \<Rightarrow> sender" where
  "finish s =
     (if finished s then s
      else s\<lparr>pending := [], segments := segments s @ [pending s], finished := True\<rparr>)"

definition sender_new :: "nat \<Rightarrow> byte list \<Rightarrow> sender" where
  "sender_new stream_id payload = finish (push payload (sender_open stream_id))"

text \<open>The exclusive end of the effective window, common to both sweeps.\<close>

definition window_end :: "sender \<Rightarrow> nat" where
  "window_end s =
     (let win = min (window s) (max (peer_rwnd s) 1)
      in min (wrap32 (acked s + win)) (tx_total s))"

definition make_segment :: "nat \<Rightarrow> nat \<Rightarrow> sender \<Rightarrow> segment list" where
  "make_segment lst seq s =
     (let idx = seq - base s
      in if idx < length (segments s)
         then [\<lparr>seg_stream_id = tx_stream_id s, seg_seq = seq, seg_fin = (finished s \<and> seq = lst),
                seg_data = segments s ! idx\<rparr>]
         else [])"

definition attempts :: "nat \<Rightarrow> sender \<Rightarrow> nat" where
  "attempts seq s = (case bt_get (retransmitted s) seq of None \<Rightarrow> 0 | Some n \<Rightarrow> n)"

text \<open>Counting a retransmission, and backing the timer off once per sweep.\<close>

definition mark_resend :: "nat \<Rightarrow> bool \<Rightarrow> sender \<Rightarrow> sender" where
  "mark_resend seq backed_off s =
     (let s = s\<lparr>retransmitted := bt_insert seq (wrap32 (attempts seq s + 1)) (retransmitted s)\<rparr>
      in if backed_off then s else s\<lparr>rtt := back_off (rtt s)\<rparr>)"

text \<open>Writing the next resend of \<open>seq\<close> into the schedule: the timeout plus its jitter from now.\<close>

definition schedule :: "nat \<Rightarrow> nat \<Rightarrow> sender \<Rightarrow> sender" where
  "schedule seq attempt s =
     (let interval = sat_add (rto (rtt s)) (jitter_ticks seq attempt (rto (rtt s)))
      in s\<lparr>last_sent := bt_insert seq (clock s) (last_sent s),
           due_at := bt_insert seq (sat_add (clock s) interval) (due_at s)\<rparr>)"

text \<open>
  One iteration of the sweep in \<open>outbound\<close>: the sender, the \<open>backed_off\<close> flag and the output so far.
\<close>

definition outbound_step ::
    "nat \<Rightarrow> nat \<Rightarrow> sender \<times> bool \<times> segment list \<Rightarrow> sender \<times> bool \<times> segment list" where
  "outbound_step lst seq = (\<lambda>(s, backed_off, out).
     if bt_contains (sacked s) seq then (s, backed_off, out)
     else if seq < base s then (s, backed_off, out)
     else
       let scheduled = bt_get (due_at s) seq;
           due = (case scheduled of None \<Rightarrow> True | Some at \<Rightarrow> clock s \<ge> at)
       in if \<not> due then (s, backed_off, out)
          else
            let s = (if scheduled \<noteq> None then mark_resend seq backed_off s else s);
                backed_off = (backed_off \<or> scheduled \<noteq> None);
                s = schedule seq (attempts seq s) s
            in (s, backed_off, out @ make_segment lst seq s))"

definition outbound :: "sender \<Rightarrow> sender \<times> segment list" where
  "outbound s =
     (let s = s\<lparr>clock := sat_add (clock s) 1\<rparr>;
          lst = tx_total s - 1
      in case fold (outbound_step lst) [acked s..<window_end s] (s, False, []) of
           (s, _, out) \<Rightarrow> (s, out))"

definition poll_step :: "nat \<Rightarrow> nat \<Rightarrow> sender \<times> segment list \<Rightarrow> sender \<times> segment list" where
  "poll_step lst seq = (\<lambda>(s, out).
     if bt_contains (due_at s) seq then (s, out)
     else if seq < base s then (s, out)
     else
       let s = schedule seq 0 s in (s, out @ make_segment lst seq s))"

definition poll_new :: "sender \<Rightarrow> sender \<times> segment list" where
  "poll_new s = fold (poll_step (tx_total s - 1)) [acked s..<window_end s] (s, [])"

section \<open>Acknowledgement processing\<close>

text \<open>The fast-retransmit trigger of \<open>on_ack\<close>.\<close>

definition note_dup_ack :: "ack \<Rightarrow> sender \<Rightarrow> sender" where
  "note_dup_ack a s =
     (if cumulative a = last_cumulative s \<and> sack a \<noteq> 0 \<and> cumulative a < tx_total s
      then let s = s\<lparr>dup_acks := sat_add (dup_acks s) 1\<rparr>
           in if dup_acks s \<ge> DUP_ACK_THRESHOLD
              then let seq = cumulative a;
                       target = sat_add (clock s) (jitter_ticks seq (attempts seq s) FAST_RETX_JITTER_SPAN);
                       at = (case bt_get (due_at s) seq of None \<Rightarrow> target | Some d \<Rightarrow> min d target)
                   in s\<lparr>due_at := bt_insert seq at (due_at s), dup_acks := 0\<rparr>
              else s
      else if cumulative a > last_cumulative s
      then s\<lparr>last_cumulative := cumulative a, dup_acks := 0\<rparr>
      else s)"

text \<open>The loop over the bitmap: bit \<open>i\<close> acknowledges \<open>cumulative + i\<close> if that sequence exists.\<close>

definition sack_step :: "ack \<Rightarrow> nat \<Rightarrow> nat \<Rightarrow> (nat, unit) btree \<Rightarrow> (nat, unit) btree" where
  "sack_step a tot i m =
     (if bit (sack a) i
      then let seq = sat_add (cumulative a) i in if seq < tot then bt_insert seq () m else m
      else m)"

function absorb_sacked :: "(nat, unit) btree \<Rightarrow> nat \<Rightarrow> (nat, unit) btree \<times> nat" where
  "absorb_sacked m a =
     (if bt_contains m a then absorb_sacked (bt_remove a m) (sat_add a 1) else (m, a))"
  by pat_completeness auto
termination
  by (relation "measure (\<lambda>(m, a). length m)") (auto simp: length_bt_remove)

declare absorb_sacked.simps [simp del]

text \<open>\<open>while self.base < self.acked && self.segments.pop_front().is_some()\<close>\<close>

primrec reclaim :: "nat \<Rightarrow> byte list list \<Rightarrow> nat \<Rightarrow> nat \<times> byte list list" where
  "reclaim ackd [] b = (b, [])"
| "reclaim ackd (x # xs) b = (if b < ackd then reclaim ackd xs (sat_add b 1) else (b, x # xs))"

definition karn_sample :: "nat \<Rightarrow> sender \<Rightarrow> sender" where
  "karn_sample prev_acked s =
     (if acked s > prev_acked
      then case find (\<lambda>(seq, _). \<not> bt_contains (retransmitted s) seq)
                  (rev (bt_range prev_acked (acked s) (last_sent s))) of
             None \<Rightarrow> s
           | Some (_, sent) \<Rightarrow> s\<lparr>rtt := rtt_sample (wrap32 (clock s + 2 ^ 32 - sent)) (rtt s)\<rparr>
      else s)"

definition on_ack :: "ack \<Rightarrow> sender \<Rightarrow> sender" where
  "on_ack a s =
     (let s = s\<lparr>peer_rwnd := rwnd a\<rparr>;
          tot = tx_total s;
          prev_acked = acked s;
          s = note_dup_ack a s;
          s = s\<lparr>acked := min (max (acked s) (cumulative a)) tot\<rparr>;
          s = s\<lparr>sacked := fold (sack_step a tot) [1..<SACK_WIDTH] (sacked s)\<rparr>;
          (m, ackd) = absorb_sacked (sacked s) (acked s);
          s = s\<lparr>acked := ackd, sacked := bt_split_off ackd m\<rparr>;
          s = karn_sample prev_acked s;
          (b, segs) = reclaim (acked s) (segments s) (base s)
      in s\<lparr>base := b, segments := segs,
           last_sent := bt_split_off (acked s) (last_sent s),
           due_at := bt_split_off (acked s) (due_at s),
           retransmitted := bt_split_off (acked s) (retransmitted s)\<rparr>)"

definition is_complete :: "sender \<Rightarrow> bool" where
  "is_complete s \<longleftrightarrow> finished s \<and> acked s \<ge> tx_total s"

definition tx_buffered_bytes :: "sender \<Rightarrow> nat" where
  "tx_buffered_bytes s = sum_list (map length (segments s)) + length (pending s)"

definition stalled_attempts :: "sender \<Rightarrow> nat" where
  "stalled_attempts s =
     max_or0 (map snd (filter (\<lambda>(seq, _). seq \<ge> acked s \<and> \<not> bt_contains (sacked s) seq) (retransmitted s)))"

section \<open>Arithmetic and the timer\<close>

lemma sat_add_le [simp]: "sat_add a b \<le> a + b" "sat_add a b \<le> U32_MAX"
  by (simp_all add: sat_add_def)

lemma sat_add_mono: "b \<le> b' \<Longrightarrow> sat_add a b \<le> sat_add a b'"
  by (simp add: sat_add_def)

lemma wrap32_le [simp]: "wrap32 a \<le> a" "wrap32 a < 4294967296"
  by (simp_all add: wrap32_def)

lemma tx_total_alt: "tx_total s = min (base s + length (segments s)) U32_MAX"
  by (auto simp: tx_total_def sat_add_def)

text \<open>The clamp of the timeout, kept by every operation of the estimator.\<close>

definition rtt_ok :: "rtt_estimator \<Rightarrow> bool" where
  "rtt_ok e \<longleftrightarrow> RTO_MIN_TICKS \<le> base_rto e \<and> base_rto e \<le> RTO_MAX_TICKS \<and>
     RTO_MIN_TICKS \<le> rto e \<and> rto e \<le> RTO_MAX_TICKS \<and> rto e \<le> RTO_BACKOFF_MULT * base_rto e"

lemma rtt_ok_new: "rtt_ok rtt_new"
  by (simp add: rtt_ok_def rtt_new_def stream_consts)

lemma clamp_bounds: "lo \<le> hi \<Longrightarrow> lo \<le> clamp lo hi x \<and> clamp lo hi x \<le> hi"
  by (simp add: clamp_def)

lemma rtt_ok_sample: "rtt_ok (rtt_sample m e)"
proof -
  obtain e' x where "rtt_sample m e = e'\<lparr>base_rto := clamp RTO_MIN_TICKS RTO_MAX_TICKS x,
      rto := clamp RTO_MIN_TICKS RTO_MAX_TICKS x\<rparr>"
    unfolding rtt_sample_def Let_def by blast
  moreover have "RTO_MIN_TICKS \<le> RTO_MAX_TICKS" "y \<le> RTO_BACKOFF_MULT * y" for y
    by (simp_all add: stream_consts)
  ultimately show ?thesis using clamp_bounds by (simp add: rtt_ok_def)
qed

lemma rtt_ok_back_off: "rtt_ok e \<Longrightarrow> rtt_ok (back_off e)"
  by (auto simp: rtt_ok_def back_off_def Let_def sat_mul_def stream_consts)

lemma jitter_lt: "jitter_ticks seq attempt r < max r 1"
proof -
  define phase where "phase = wrap32 (wrap32 (seq * SILVER_Q32) + wrap32 (attempt * GOLDEN_Q32))"
  define q where "q = max r 1"
  have "phase < 2 ^ 32" by (simp add: phase_def wrap32_def)
  then have "phase * q < q * 2 ^ 32"
    unfolding mult.commute [of q] by (rule mult_strict_right_mono) (simp add: q_def)
  then have "(phase * q) div 2 ^ 32 < q" by (rule less_mult_imp_div_less)
  moreover have "0 < q" by (simp add: q_def)
  ultimately show ?thesis
    unfolding jitter_ticks_def Let_def phase_def [symmetric] q_def [symmetric] by simp
qed

text \<open>The longest time the schedule may put between two sends of a segment.\<close>

definition RETX_MAX :: nat where
  "RETX_MAX = 2 * RTO_MAX_TICKS"

lemma interval_bound:
  assumes "rtt_ok e"
  shows "sat_add c (sat_add (rto e) (jitter_ticks seq n (rto e))) \<le> sat_add c RETX_MAX"
proof -
  have "jitter_ticks seq n (rto e) \<le> RTO_MAX_TICKS"
    using jitter_lt [of seq n "rto e"] assms by (simp add: rtt_ok_def stream_consts)
  moreover have "rto e \<le> RTO_MAX_TICKS" using assms by (simp add: rtt_ok_def)
  ultimately have "sat_add (rto e) (jitter_ticks seq n (rto e)) \<le> RETX_MAX"
    unfolding RETX_MAX_def using sat_add_le(1) [of "rto e" "jitter_ticks seq n (rto e)"] by linarith
  then show ?thesis by (rule sat_add_mono)
qed

section \<open>The sender invariant\<close>

text \<open>
  What a sweep leaves alone; the window and the data of a sender are a function of these fields.
\<close>

definition tx_data :: "sender \<Rightarrow> nat \<times> byte list list \<times> nat \<times> byte list \<times> bool \<times> nat \<times> (nat, unit) btree \<times> nat \<times> nat" where
  "tx_data s = (tx_stream_id s, segments s, base s, pending s, finished s, acked s, sacked s, window s, peer_rwnd s)"

definition timer_ok :: "sender \<Rightarrow> bool" where
  "timer_ok s \<longleftrightarrow> clock s \<le> U32_MAX \<and> rtt_ok (rtt s) \<and> bt_ok (due_at s) \<and> (\<forall>(k, d) \<in> set (due_at s). d \<le> sat_add (clock s) RETX_MAX)"

definition tx_ok :: "sender \<Rightarrow> bool" where
  "tx_ok s \<longleftrightarrow> base s = acked s \<and> acked s \<le> tx_total s \<and> bt_ok (sacked s) \<and>
     bt_keys (sacked s) \<subseteq> {acked s<..<tx_total s} \<and> 1 \<le> window s \<and> window s \<le> SACK_WIDTH \<and> timer_ok s"

lemma due_insert:
  assumes "bt_ok m" "\<forall>(k, d) \<in> set m. d \<le> c" "at \<le> c"
  shows "\<forall>(k, d) \<in> set (bt_insert seq at m). d \<le> c"
  using assms(2,3) by (induction m) auto

lemma timer_ok_schedule: "timer_ok s \<Longrightarrow> timer_ok (schedule seq n s)"
  using interval_bound [of "rtt s" "clock s" seq n] due_insert [of "due_at s"]
  by (simp add: timer_ok_def schedule_def)

lemma timer_ok_mark: "timer_ok s \<Longrightarrow> timer_ok (mark_resend seq b s)"
  by (simp add: timer_ok_def mark_resend_def Let_def rtt_ok_back_off)

lemma sweep_frame [simp]:
  "tx_data (schedule seq n s) = tx_data s" "clock (schedule seq n s) = clock s"
  "tx_data (mark_resend seq b s) = tx_data s" "clock (mark_resend seq b s) = clock s"
  "due_at (mark_resend seq b s) = due_at s" "sacked (mark_resend seq b s) = sacked s"
  "base (mark_resend seq b s) = base s" "sacked (schedule seq n s) = sacked s" "base (schedule seq n s) = base s"
  "k \<noteq> seq \<Longrightarrow> bt_get (due_at (schedule seq n s)) k = bt_get (due_at s) k"
  by (simp_all add: schedule_def mark_resend_def tx_data_def Let_def)

lemma make_segment_cong: "tx_data s = tx_data s' \<Longrightarrow> make_segment lst seq s = make_segment lst seq s'"
  by (simp add: tx_data_def make_segment_def Let_def)

lemma timer_ok_tick: "timer_ok s \<Longrightarrow> timer_ok (s\<lparr>clock := sat_add (clock s) 1\<rparr>)"
  by (force simp: timer_ok_def sat_add_def)

lemma make_segment_sweep [simp]:
  "make_segment lst q (schedule seq n s) = make_segment lst q s"
  "make_segment lst q (mark_resend seq b s) = make_segment lst q s"
  by (rule make_segment_cong, simp)+

text \<open>A sweep over the sequences \<open>qs\<close>: its effect on the state, and what it puts on the wire.\<close>

lemma outbound_fold:
  assumes "fold (outbound_step lst) qs (s, b, out) = (s', b', out')"
  shows "tx_data s' = tx_data s \<and> clock s' = clock s \<and> (timer_ok s \<longrightarrow> timer_ok s') \<and>
    (\<forall>k. k \<notin> set qs \<longrightarrow> bt_get (due_at s') k = bt_get (due_at s) k) \<and>
    (\<exists>new. out' = out @ new \<and> set new \<subseteq> (\<Union>q \<in> set qs. set (make_segment lst q s)))"
  using assms
proof (induction qs arbitrary: s b out)
  case (Cons q qs)
  obtain s1 b1 out1 where step: "outbound_step lst q (s, b, out) = (s1, b1, out1)"
    by (metis prod_cases3)
  have data: "tx_data s1 = tx_data s" "clock s1 = clock s" "timer_ok s \<Longrightarrow> timer_ok s1"
    "\<And>k. k \<noteq> q \<Longrightarrow> bt_get (due_at s1) k = bt_get (due_at s) k"
    using step
    by (auto simp: outbound_step_def Let_def timer_ok_schedule timer_ok_mark split: if_splits)
  have out1: "out1 = out \<or> out1 = out @ make_segment lst q s"
    using step
    by (auto simp: outbound_step_def Let_def split: if_splits)
  have seg: "make_segment lst k s1 = make_segment lst k s" for k
    by (rule make_segment_cong [OF data(1)])
  have rest: "fold (outbound_step lst) qs (s1, b1, out1) = (s', b', out')"
    using Cons.prems step by simp
  note IH = Cons.IH [OF rest]
  then obtain new where new: "out' = out1 @ new" "set new \<subseteq> (\<Union>q \<in> set qs. set (make_segment lst q s))"
    unfolding seg by blast
  have "\<exists>new. out' = out @ new \<and> set new \<subseteq> (\<Union>q \<in> set (q # qs). set (make_segment lst q s))"
    using out1 new by (elim disjE) (rule exI [of _ new] exI [of _ "make_segment lst q s @ new"]; auto)+
  then show ?case using IH data by simp
qed simp

lemma poll_fold:
  assumes "fold (poll_step lst) qs (s, out) = (s', out')"
  shows "tx_data s' = tx_data s \<and> clock s' = clock s \<and> (timer_ok s \<longrightarrow> timer_ok s') \<and>
    (\<exists>new. out' = out @ new \<and> set new \<subseteq> (\<Union>q \<in> set qs. set (make_segment lst q s)))"
  using assms
proof (induction qs arbitrary: s out)
  case (Cons q qs)
  obtain s1 out1 where step: "poll_step lst q (s, out) = (s1, out1)" by (metis prod.collapse)
  have data: "tx_data s1 = tx_data s" "clock s1 = clock s" "timer_ok s \<Longrightarrow> timer_ok s1"
    using step by (auto simp: poll_step_def Let_def timer_ok_schedule split: if_splits)
  have out1: "out1 = out \<or> out1 = out @ make_segment lst q s"
    using step by (auto simp: poll_step_def Let_def split: if_splits)
  have seg: "make_segment lst k s1 = make_segment lst k s" for k
    by (rule make_segment_cong [OF data(1)])
  have rest: "fold (poll_step lst) qs (s1, out1) = (s', out')"
    using Cons.prems step by simp
  note IH = Cons.IH [OF rest]
  then obtain new where new: "out' = out1 @ new" "set new \<subseteq> (\<Union>q \<in> set qs. set (make_segment lst q s))"
    unfolding seg by blast
  have "\<exists>new. out' = out @ new \<and> set new \<subseteq> (\<Union>q \<in> set (q # qs). set (make_segment lst q s))"
    using out1 new by (elim disjE) (rule exI [of _ new] exI [of _ "make_segment lst q s @ new"]; auto)+
  then show ?case using IH data by simp
qed simp

text \<open>A segment on the wire is the sealed segment of its sequence, and carries the FIN only at the end.\<close>

definition seg_of :: "sender \<Rightarrow> segment \<Rightarrow> bool" where
  "seg_of s g \<longleftrightarrow> seg_stream_id g = tx_stream_id s \<and> base s \<le> seg_seq g \<and> acked s \<le> seg_seq g \<and>
     seg_seq g < tx_total s \<and> seg_seq g - base s < length (segments s) \<and>
     seg_data g = segments s ! (seg_seq g - base s) \<and> seg_fin g = (finished s \<and> seg_seq g = tx_total s - 1)"

lemma window_end_le: "window_end s \<le> tx_total s"
  by (simp add: window_end_def Let_def)

lemma outbound_unfold:
  "outbound s = (case fold (outbound_step (tx_total s - 1)) [acked s..<window_end s]
     (s\<lparr>clock := sat_add (clock s) 1\<rparr>, False, []) of (s', _, out) \<Rightarrow> (s', out))"
  by (simp add: outbound_def Let_def tx_total_def window_end_def)

lemma outbound_spec:
  assumes "outbound s = (s', out)"
  shows "tx_data s' = tx_data s" "clock s' = sat_add (clock s) 1" "timer_ok s \<Longrightarrow> timer_ok s'"
    "tx_ok s \<Longrightarrow> g \<in> set out \<Longrightarrow> seg_of s g"
proof -
  define s0 where "s0 = s\<lparr>clock := sat_add (clock s) 1\<rparr>"
  have d0: "tx_data s0 = tx_data s" "tx_total s0 = tx_total s" "window_end s0 = window_end s"
    by (simp_all add: s0_def tx_data_def tx_total_def window_end_def)
  obtain b where f: "fold (outbound_step (tx_total s - 1)) [acked s..<window_end s] (s0, False, []) = (s', b, out)"
    using assms by (auto simp: outbound_unfold s0_def split: prod.splits)
  note F = outbound_fold [OF f]
  show "tx_data s' = tx_data s" "clock s' = sat_add (clock s) 1" using F d0 by (simp_all add: s0_def)
  show "timer_ok s \<Longrightarrow> timer_ok s'" using F timer_ok_tick [of s] by (simp add: s0_def)
  assume ok: "tx_ok s" and "g \<in> set out"
  then obtain q where "q \<in> {acked s..<window_end s}" "g \<in> set (make_segment (tx_total s - 1) q s)"
    using F make_segment_cong [OF d0(1)] by auto
  then show "seg_of s g"
    using ok window_end_le [of s] by (auto simp: make_segment_def seg_of_def tx_ok_def Let_def split: if_splits)
qed

lemma poll_new_spec:
  assumes "poll_new s = (s', out)"
  shows "tx_data s' = tx_data s" "clock s' = clock s" "timer_ok s \<Longrightarrow> timer_ok s'"
    "tx_ok s \<Longrightarrow> g \<in> set out \<Longrightarrow> seg_of s g"
proof -
  note F = poll_fold [OF assms [unfolded poll_new_def]]
  show "tx_data s' = tx_data s" "clock s' = clock s" "timer_ok s \<Longrightarrow> timer_ok s'" using F by simp_all
  assume ok: "tx_ok s" and "g \<in> set out"
  then obtain q where "q \<in> {acked s..<window_end s}" "g \<in> set (make_segment (tx_total s - 1) q s)"
    using F by auto
  then show "seg_of s g"
    using ok window_end_le [of s] by (auto simp: make_segment_def seg_of_def tx_ok_def Let_def split: if_splits)
qed

lemma tx_ok_sweep: "tx_ok s \<Longrightarrow> tx_data s' = tx_data s \<Longrightarrow> timer_ok s' \<Longrightarrow> tx_ok s'"
  using tx_total_alt [of s] tx_total_alt [of s'] by (auto simp: tx_ok_def tx_data_def)

lemma outbound_ok: "tx_ok s \<Longrightarrow> outbound s = (s', out) \<Longrightarrow> tx_ok s'"
  using outbound_spec(1,3) tx_ok_sweep tx_ok_def by blast

lemma poll_new_ok: "tx_ok s \<Longrightarrow> poll_new s = (s', out) \<Longrightarrow> tx_ok s'"
  using poll_new_spec(1,3) tx_ok_sweep tx_ok_def by blast

section \<open>Acknowledgements keep the invariant\<close>

lemma note_dup_ack_frame [simp]:
  "segments (note_dup_ack a s) = segments s" "base (note_dup_ack a s) = base s"
  "acked (note_dup_ack a s) = acked s" "sacked (note_dup_ack a s) = sacked s"
  "pending (note_dup_ack a s) = pending s" "finished (note_dup_ack a s) = finished s"
  "tx_stream_id (note_dup_ack a s) = tx_stream_id s" "window (note_dup_ack a s) = window s"
  by (simp_all add: note_dup_ack_def Let_def)

lemma timer_ok_due:
  "timer_ok s \<Longrightarrow> at \<le> sat_add (clock s) RETX_MAX \<Longrightarrow>
     timer_ok (s\<lparr>due_at := bt_insert seq at (due_at s), dup_acks := n\<rparr>)"
  using due_insert [of "due_at s" "sat_add (clock s) RETX_MAX" at seq] by (simp add: timer_ok_def bt_ok_insert)

lemma timer_ok_note_dup_ack:
  assumes "timer_ok s"
  shows "timer_ok (note_dup_ack a s)"
proof -
  have "jitter_ticks q n FAST_RETX_JITTER_SPAN \<le> RETX_MAX" for q n
    using jitter_lt [of q n FAST_RETX_JITTER_SPAN] by (simp add: RETX_MAX_def stream_consts)
  then have t: "sat_add (clock s) (jitter_ticks q n FAST_RETX_JITTER_SPAN) \<le> sat_add (clock s) RETX_MAX" for q n
    by (rule sat_add_mono)
  have m: "min d (sat_add (clock s) (jitter_ticks q n FAST_RETX_JITTER_SPAN)) \<le> sat_add (clock s) RETX_MAX" for d q n
    by (rule order_trans [OF min.cobounded2 t])
  have at: "(case d of None \<Rightarrow> sat_add (clock s) (jitter_ticks q n FAST_RETX_JITTER_SPAN)
      | Some d \<Rightarrow> min d (sat_add (clock s) (jitter_ticks q n FAST_RETX_JITTER_SPAN))) \<le> sat_add (clock s) RETX_MAX" for d q n
    using t m by (simp split: option.split)
  have same: "timer_ok (s\<lparr>dup_acks := n\<rparr>)" "timer_ok (s\<lparr>last_cumulative := c, dup_acks := n\<rparr>)" for n c
    using assms by (simp_all add: timer_ok_def)
  show ?thesis
    using assms same timer_ok_due [OF assms at] by (simp add: note_dup_ack_def Let_def)
qed

lemma sack_fold:
  "bt_ok m \<Longrightarrow> bt_keys m \<subseteq> {..<tot} \<Longrightarrow>
     bt_ok (fold (sack_step a tot) is m) \<and> bt_keys (fold (sack_step a tot) is m) \<subseteq> {..<tot}"
  by (induction "is" arbitrary: m) (auto simp: sack_step_def Let_def bt_ok_insert)

lemma sack_fold_keys:
  "bt_keys (fold (sack_step a tot) is m) \<subseteq> bt_keys m \<union> {sat_add (cumulative a) i |i. bit (sack a) i}"
proof (induction "is" arbitrary: m)
  case (Cons i "is")
  have "bt_keys (sack_step a tot i m) \<subseteq> bt_keys m \<union> {sat_add (cumulative a) i |i. bit (sack a) i}"
    unfolding sack_step_def Let_def by (simp only: bt_keys_insert split: if_split) blast
  then show ?case using Cons.IH [of "sack_step a tot i m"] by (simp only: fold.simps o_apply) blast
qed simp

lemma absorb_sacked_spec:
  assumes "bt_ok m" "bt_keys m \<subseteq> {..<tot}" "a \<le> tot" "tot \<le> U32_MAX" "absorb_sacked m a = (m', a')"
  shows "bt_ok m' \<and> a \<le> a' \<and> a' \<le> tot \<and> a' \<notin> bt_keys m' \<and> bt_keys m' \<subseteq> bt_keys m \<and> {a..<a'} \<subseteq> bt_keys m"
  using assms
proof (induction m a rule: absorb_sacked.induct)
  case (1 m a)
  show ?case
  proof (cases "a \<in> bt_keys m")
    case True
    then have "a < tot" using "1.prems"(2) by auto
    then have succ: "sat_add a 1 = Suc a" "Suc a \<le> tot" using "1.prems"(4) by (simp_all add: sat_add_def)
    have "absorb_sacked (bt_remove a m) (Suc a) = (m', a')"
      using True "1.prems"(5) succ(1) by (subst (asm) absorb_sacked.simps) simp
    moreover have "bt_keys (bt_remove a m) \<subseteq> {..<tot}" unfolding bt_keys_filter using "1.prems"(2) by blast
    ultimately have "bt_ok m' \<and> Suc a \<le> a' \<and> a' \<le> tot \<and> a' \<notin> bt_keys m' \<and> bt_keys m' \<subseteq> bt_keys m - {a} \<and>
        {Suc a..<a'} \<subseteq> bt_keys m - {a}"
      unfolding bt_keys_filter(1) [symmetric]
      by (intro "1.IH" [unfolded succ(1)]) (use True "1.prems" succ in \<open>simp_all add: bt.inv_remove\<close>)
    moreover from this have "{a..<a'} = insert a {Suc a..<a'}" by auto
    ultimately show ?thesis using Suc_leD True by blast
  next
    case False
    with "1.prems" show ?thesis by (subst (asm) absorb_sacked.simps) auto
  qed
qed

lemma reclaim_spec:
  "b \<le> ackd \<Longrightarrow> ackd \<le> b + length segs \<Longrightarrow> ackd \<le> U32_MAX \<Longrightarrow>
     reclaim ackd segs b = (ackd, drop (ackd - b) segs)"
proof (induction segs arbitrary: b)
  case (Cons x xs)
  show ?case
  proof (cases "b < ackd")
    case True
    then have "sat_add b 1 = Suc b" using Cons.prems by (simp add: sat_add_def)
    moreover have "ackd - b = Suc (ackd - Suc b)" using True by simp
    ultimately show ?thesis using True Cons by simp
  qed (use Cons.prems in simp)
qed simp

lemma karn_sample_frame:
  "\<exists>e. karn_sample p s = s\<lparr>rtt := e\<rparr> \<and> (rtt_ok (rtt s) \<longrightarrow> rtt_ok e)"
  by (auto simp: karn_sample_def rtt_ok_sample split: option.splits intro: exI [of _ "rtt s"])

text \<open>
  \<open>claimed\<close> is what the sender may believe received after an acknowledgement: what it believed before
  and what the acknowledgement says. Whatever the acknowledgement claims, the cumulative point only moves forward, never past what was
  sealed, and exactly the segments below it are dropped.
\<close>

definition claimed :: "ack \<Rightarrow> sender \<Rightarrow> nat set" where
  "claimed a s = {..<acked s} \<union> {..<cumulative a} \<union> bt_keys (sacked s) \<union>
     {sat_add (cumulative a) i |i. bit (sack a) i}"

lemma on_ack_spec:
  assumes "tx_ok s"
  shows "{..<acked (on_ack a s)} \<subseteq> claimed a s \<and> bt_keys (sacked (on_ack a s)) \<subseteq> claimed a s \<and> tx_ok (on_ack a s) \<and> acked s \<le> acked (on_ack a s) \<and> acked (on_ack a s) \<le> tx_total s \<and>
    segments (on_ack a s) = drop (acked (on_ack a s) - acked s) (segments s) \<and>
    pending (on_ack a s) = pending s \<and> finished (on_ack a s) = finished s \<and>
    tx_stream_id (on_ack a s) = tx_stream_id s \<and>
    min (cumulative a) (tx_total s) \<le> acked (on_ack a s) \<and> tx_total (on_ack a s) = tx_total s"
proof -
  define s1 where "s1 = note_dup_ack a (s\<lparr>peer_rwnd := rwnd a\<rparr>)"
  define a1 where "a1 = min (max (acked s) (cumulative a)) (tx_total s)"
  define m1 where "m1 = fold (sack_step a (tx_total s)) [1..<SACK_WIDTH] (sacked s)"
  obtain m2 k where ab: "absorb_sacked m1 a1 = (m2, k)" by fastforce
  have ok: "base s = acked s" "acked s \<le> tx_total s" "bt_ok (sacked s)"
      "bt_keys (sacked s) \<subseteq> {..<tx_total s}" "tx_total s \<le> U32_MAX" "timer_ok s"
      "1 \<le> window s" "window s \<le> SACK_WIDTH"
    using assms by (auto simp: tx_ok_def tx_total_alt)
  have "bt_ok m1" "bt_keys m1 \<subseteq> {..<tx_total s}" using sack_fold [OF ok(3,4)] by (simp_all add: m1_def)
  moreover have "a1 \<le> tx_total s" "acked s \<le> a1" using ok(2) by (simp_all add: a1_def)
  ultimately have k: "bt_ok m2" "acked s \<le> k" "k \<le> tx_total s" "k \<notin> bt_keys m2" "bt_keys m2 \<subseteq> {..<tx_total s}"
      "bt_keys m2 \<subseteq> bt_keys m1" "{a1..<k} \<subseteq> bt_keys m1" "a1 \<le> k"
    using absorb_sacked_spec [OF _ _ _ ok(5) ab] by (blast intro: order_trans)+
  have m1: "bt_keys m1 \<subseteq> claimed a s" unfolding m1_def claimed_def
    using sack_fold_keys [of a "tx_total s" "[1..<SACK_WIDTH]" "sacked s"] by blast
  have "{..<k} \<subseteq> {..<a1} \<union> {a1..<k}" by auto
  moreover have "{..<a1} \<subseteq> claimed a s" by (auto simp: a1_def claimed_def)
  ultimately have claim: "{..<k} \<subseteq> claimed a s" "bt_keys (bt_split_off k m2) \<subseteq> claimed a s"
    using k(6,7) m1 unfolding bt_keys_filter by blast+
  have tot: "tx_total (s\<lparr>peer_rwnd := rwnd a\<rparr>) = tx_total s" by (simp add: tx_total_def)
  have timer1: "timer_ok s1" using ok(6) timer_ok_note_dup_ack [of "s\<lparr>peer_rwnd := rwnd a\<rparr>"]
    by (simp add: s1_def timer_ok_def)
  obtain e where e: "karn_sample (acked s) (s1\<lparr>acked := k, sacked := bt_split_off k m2\<rparr>) =
      s1\<lparr>acked := k, sacked := bt_split_off k m2, rtt := e\<rparr>" "rtt_ok e"
    using karn_sample_frame [of "acked s" "s1\<lparr>acked := k, sacked := bt_split_off k m2\<rparr>"] timer1
    by (auto simp: timer_ok_def)
  have rec: "reclaim k (segments s) (base s) = (k, drop (k - acked s) (segments s))"
    using reclaim_spec [of "base s" k "segments s"] k ok by (simp add: tx_total_alt)
  define r where "r = s1\<lparr>acked := k, sacked := bt_split_off k m2, rtt := e, base := k,
      segments := drop (k - acked s) (segments s), last_sent := bt_split_off k (last_sent s1),
      due_at := bt_split_off k (due_at s1), retransmitted := bt_split_off k (retransmitted s1)\<rparr>"
  have r: "on_ack a s = r"
    unfolding on_ack_def Let_def tot s1_def [symmetric]
    using ab e(1) rec by (simp add: s1_def [symmetric] a1_def m1_def r_def tot) (simp add: s1_def)
  have len: "k + (length (segments s) - (k - acked s)) = acked s + length (segments s)"
    using k ok by (simp add: tx_total_alt)
  have total_r: "tx_total r = tx_total s" by (simp add: r_def tx_total_alt len ok(1))
  have "timer_ok r" using timer1 e(2) by (auto simp: r_def timer_ok_def bt_split_off_def bt_ok_filter)
  moreover have "bt_keys (bt_split_off k m2) \<subseteq> {k<..<tx_total s}"
  proof
    fix x
    assume "x \<in> bt_keys (bt_split_off k m2)"
    then have "x \<in> bt_keys m2" "k \<le> x" unfolding bt_keys_filter by blast+
    moreover from this k(4) have "x \<noteq> k" by metis
    ultimately show "x \<in> {k<..<tx_total s}" using k(5) by fastforce
  qed
  ultimately have "tx_ok r" using k ok by (simp add: tx_ok_def total_r) (simp add: r_def s1_def bt.inv_split_off)
  moreover have "min (cumulative a) (tx_total s) \<le> k" using k(8) by (simp add: a1_def)
  ultimately show ?thesis using k claim total_r by (simp add: r) (simp add: r_def s1_def)
qed

section \<open>Sealing\<close>

lemma seal_full_spec:
  "\<exists>new rest. seal_full s = s\<lparr>segments := segments s @ new, pending := rest\<rparr> \<and>
     concat new @ rest = pending s \<and> (\<forall>x \<in> set new. length x = MAX_SEGMENT) \<and> length rest < MAX_SEGMENT"
proof (induction s rule: seal_full.induct)
  case (1 s)
  show ?case
  proof (cases "length (pending s) \<ge> MAX_SEGMENT")
    case True
    then obtain new rest where IH:
      "seal_full s = s\<lparr>segments := segments s @ take MAX_SEGMENT (pending s) # new, pending := rest\<rparr>"
      "concat new @ rest = drop MAX_SEGMENT (pending s)" "\<forall>x \<in> set new. length x = MAX_SEGMENT"
      "length rest < MAX_SEGMENT"
      using 1 [OF True] True seal_full.simps [of s] by auto
    with True show ?thesis
      by (intro exI [of _ "take MAX_SEGMENT (pending s) # new"] exI [of _ rest]) (simp add: min_absorb2)
  next
    case False
    then show ?thesis by (intro exI [of _ "[]"] exI [of _ "pending s"]) (simp add: seal_full.simps [of s])
  qed
qed

section \<open>What the sender carries\<close>

text \<open>
  The abstract stream behind a sender: \<open>sealed\<close> is every segment sealed so far, by sequence number,
  and with the unsealed tail it spells the bytes pushed. The sender holds the segments from \<open>base\<close> on.
\<close>

definition tx_carries :: "byte list list \<Rightarrow> byte list \<Rightarrow> sender \<Rightarrow> bool" where
  "tx_carries sealed pushed s \<longleftrightarrow>
     base s \<le> length sealed \<and> segments s = drop (base s) sealed \<and> concat sealed @ pending s = pushed \<and>
     (\<forall>x \<in> set sealed. length x \<le> MAX_SEGMENT) \<and> length (pending s) < MAX_SEGMENT \<and>
     (finished s \<longrightarrow> sealed \<noteq> [] \<and> pending s = [])"

lemma tx_ok_append:
  "tx_ok s \<Longrightarrow> tx_ok (s\<lparr>segments := segments s @ new, pending := p, finished := f\<rparr>)"
  by (auto simp: tx_ok_def tx_total_alt timer_ok_def)

lemma tx_carries_append:
  assumes "tx_carries sealed pushed s" "concat new @ p = pending s @ b" "\<forall>x \<in> set new. length x \<le> MAX_SEGMENT"
    "length p < MAX_SEGMENT" "f \<longrightarrow> new \<noteq> [] \<and> p = []"
  shows "tx_carries (sealed @ new) (pushed @ b) (s\<lparr>segments := segments s @ new, pending := p, finished := f\<rparr>)"
  using assms by (auto simp: tx_carries_def)

lemma sender_open_ok: "tx_ok (sender_open i)" "tx_carries [] [] (sender_open i)"
  by (simp_all add: tx_ok_def tx_carries_def sender_open_def tx_total_alt timer_ok_def rtt_ok_new bt.inv_empty
      stream_consts)

lemma record_finished: "finished s = f \<Longrightarrow> s\<lparr>finished := f\<rparr> = s"
  by auto

lemma finished_append: "finished (s\<lparr>segments := x, pending := p, finished := f\<rparr>) = f"
  by simp

lemma push_form:
  assumes "\<not> finished s"
  obtains new p where "push b s = s\<lparr>segments := segments s @ new, pending := p, finished := False\<rparr>"
    "concat new @ p = pending s @ b" "\<forall>x \<in> set new. length x \<le> MAX_SEGMENT" "length p < MAX_SEGMENT"
proof -
  obtain new p where "seal_full (s\<lparr>pending := pending s @ b\<rparr>) =
      s\<lparr>pending := pending s @ b, segments := segments s @ new, pending := p\<rparr>"
    "concat new @ p = pending s @ b" "\<forall>x \<in> set new. length x = MAX_SEGMENT" "length p < MAX_SEGMENT"
    using seal_full_spec [of "s\<lparr>pending := pending s @ b\<rparr>"] by auto
  with assms show ?thesis by (intro that [where new = new and p = p]) (simp_all add: push_def)
qed

lemma push_ok:
  assumes "tx_ok s" "tx_carries sealed pushed s"
  shows "tx_ok (push b s)"
    "\<exists>new. tx_carries (sealed @ new) (if finished s then pushed else pushed @ b) (push b s) \<and>
       (finished s \<longrightarrow> new = [])"
    "finished (push b s) = finished s"
proof -
  show "tx_ok (push b s)"
    using assms(1) by (cases "finished s") (simp add: push_def, metis push_form tx_ok_append)
  show "finished (push b s) = finished s"
    by (cases "finished s") (simp add: push_def, metis push_form finished_append)
  show "\<exists>new. tx_carries (sealed @ new) (if finished s then pushed else pushed @ b) (push b s) \<and>
       (finished s \<longrightarrow> new = [])"
  proof (cases "finished s")
    case True
    with assms(2) show ?thesis by (intro exI [of _ "[]"]) (simp add: push_def)
  next
    case False
    then obtain new p where new: "push b s = s\<lparr>segments := segments s @ new, pending := p, finished := False\<rparr>"
      "concat new @ p = pending s @ b" "\<forall>x \<in> set new. length x \<le> MAX_SEGMENT" "length p < MAX_SEGMENT"
      by (rule push_form)
    have "tx_carries (sealed @ new) (pushed @ b) (push b s)"
      unfolding new(1) by (rule tx_carries_append [OF assms(2) new(2-4)]) simp
    with False show ?thesis by auto
  qed
qed

lemma flush_ok:
  assumes "tx_ok s" "tx_carries sealed pushed s"
  shows "tx_ok (flush s)" "\<exists>new. tx_carries (sealed @ new) pushed (flush s) \<and> (finished s \<longrightarrow> new = [])"
    "finished (flush s) = finished s"
proof -
  have form: "flush s = s \<or> \<not> finished s \<and>
      flush s = s\<lparr>segments := segments s @ [pending s], pending := [], finished := False\<rparr>"
    by (simp add: flush_def)
  show "tx_ok (flush s)" using form assms(1) tx_ok_append by metis
  have "tx_carries (sealed @ [pending s]) (pushed @ [])
      (s\<lparr>segments := segments s @ [pending s], pending := [], finished := False\<rparr>)"
    using assms(2) by (intro tx_carries_append) (auto simp: tx_carries_def MAX_SEGMENT_def)
  with form assms(2) show "\<exists>new. tx_carries (sealed @ new) pushed (flush s) \<and> (finished s \<longrightarrow> new = [])"
    by (metis append_Nil2)
  show "finished (flush s) = finished s" by (simp add: flush_def)
qed

lemma finish_ok:
  assumes "tx_ok s" "tx_carries sealed pushed s"
  shows "tx_ok (finish s)"
    "\<exists>new. tx_carries (sealed @ new) pushed (finish s) \<and> (finished s \<longleftrightarrow> new = [])"
    "finished (finish s)"
proof -
  have form: "finish s = (if finished s then s
      else s\<lparr>segments := segments s @ [pending s], pending := [], finished := True\<rparr>)"
    by (simp add: finish_def)
  show "tx_ok (finish s)" using form assms(1) tx_ok_append by metis
  have "tx_carries (sealed @ [pending s]) (pushed @ [])
      (s\<lparr>segments := segments s @ [pending s], pending := [], finished := True\<rparr>)"
    using assms(2) by (intro tx_carries_append) (auto simp: tx_carries_def MAX_SEGMENT_def)
  with form assms(2) show "\<exists>new. tx_carries (sealed @ new) pushed (finish s) \<and> (finished s \<longleftrightarrow> new = [])"
    by (metis append_Nil2 list.distinct(1))
  show "finished (finish s)" by (simp add: finish_def)
qed

lemma on_ack_carries:
  assumes "tx_ok s" "tx_carries sealed pushed s"
  shows "tx_carries sealed pushed (on_ack a s)"
proof -
  note A = on_ack_spec [OF assms(1), of a]
  have "base (on_ack a s) = acked (on_ack a s)" "base s = acked s" using A assms(1) by (simp_all add: tx_ok_def)
  moreover have "acked (on_ack a s) \<le> length sealed"
    using A assms(2) by (auto simp: tx_carries_def tx_total_alt)
  ultimately show ?thesis using A assms(2) by (simp add: tx_carries_def)
qed

lemma tx_carries_sweep: "tx_carries sealed pushed s \<Longrightarrow> tx_data s' = tx_data s \<Longrightarrow> tx_carries sealed pushed s'"
  by (simp add: tx_carries_def tx_data_def)

text \<open>A segment taken from a sender is the sealed segment of its number.\<close>

definition seg_carries :: "byte list list \<Rightarrow> bool \<Rightarrow> segment \<Rightarrow> bool" where
  "seg_carries sealed fin_ok g \<longleftrightarrow> seg_seq g < length sealed \<and> seg_data g = sealed ! seg_seq g \<and>
     (length sealed \<le> U32_MAX \<longrightarrow> (seg_fin g \<longleftrightarrow> fin_ok \<and> Suc (seg_seq g) = length sealed))"

lemma seg_of_carries:
  assumes "seg_of s g" "tx_carries sealed pushed s"
  shows "seg_carries sealed (finished s) g"
  using assms by (auto simp: seg_of_def tx_carries_def seg_carries_def tx_total_alt min_def)

lemma seg_carries_append:
  "seg_carries sealed False g \<Longrightarrow> f \<longrightarrow> new \<noteq> [] \<Longrightarrow> seg_carries (sealed @ new) f g"
  by (cases new) (auto simp: seg_carries_def nth_append)

section \<open>A lost segment is resent in bounded time\<close>

lemma outbound_head:
  assumes "tx_ok s" "acked s < window_end s" "outbound s = (s', out)"
  shows "(\<exists>g \<in> set out. seg_seq g = acked s) \<or>
    (\<exists>d. bt_get (due_at s) (acked s) = Some d \<and> bt_get (due_at s') (acked s) = Some d \<and> clock s' < d)"
proof -
  define q where "q = acked s"
  define s0 where "s0 = s\<lparr>clock := sat_add (clock s) 1\<rparr>"
  define lst where "lst = tx_total s - 1"
  obtain s1 b1 out1 where step: "outbound_step lst q (s0, False, []) = (s1, b1, out1)" by (metis prod_cases3)
  have "[q..<window_end s] = q # [Suc q..<window_end s]" using assms(2) by (simp add: q_def upt_conv_Cons)
  then obtain b' where rest: "fold (outbound_step lst) [Suc q..<window_end s] (s1, b1, out1) = (s', b', out)"
    using assms(3) step unfolding outbound_unfold q_def [symmetric] lst_def [symmetric] s0_def [symmetric]
    by (auto split: prod.splits)
  obtain new where out: "out = out1 @ new" and due: "bt_get (due_at s') q = bt_get (due_at s1) q"
    "clock s' = clock s1" using outbound_fold [OF rest] by auto
  have inside: "\<not> bt_contains (sacked s0) q" "\<not> q < base s0" "q - base s0 < length (segments s0)"
    using assms(1,2) window_end_le [of s] by (auto simp: s0_def q_def tx_ok_def tx_total_alt)
  show ?thesis
  proof (cases "bt_get (due_at s0) q")
    case None
    then have "out1 = make_segment lst q s0" using step inside by (simp add: outbound_step_def Let_def)
    with inside(3) show ?thesis by (auto simp: out make_segment_def q_def)
  next
    case (Some d)
    show ?thesis
    proof (cases "d \<le> clock s0")
      case True
      then have "out1 = make_segment lst q s0" using step inside Some by (simp add: outbound_step_def Let_def)
      with inside(3) show ?thesis by (auto simp: out make_segment_def q_def)
    next
      case False
      then have "s1 = s0" using step inside Some by (simp add: outbound_step_def Let_def)
      with False Some due show ?thesis by (auto simp: q_def s0_def)
    qed
  qed
qed

lemma resend_within:
  assumes "tx_ok s" "acked s < window_end s"
    and "\<And>d. bt_get (due_at s) (acked s) = Some d \<Longrightarrow> d \<le> sat_add (clock s) m"
  shows "\<exists>n \<le> m. \<exists>g \<in> set (snd (outbound (((\<lambda>s. fst (outbound s)) ^^ n) s))). seg_seq g = acked s"
  using assms
proof (induction m arbitrary: s)
  case (0 s)
  obtain s' out where o: "outbound s = (s', out)" by fastforce
  have "clock s \<le> clock s'" using outbound_spec(2) [OF o] "0.prems"(1) by (simp add: tx_ok_def timer_ok_def sat_add_def)
  moreover have "sat_add (clock s) 0 \<le> clock s" by (simp add: sat_add_def)
  ultimately show ?case using outbound_head [OF "0.prems"(1,2) o] "0.prems"(3) o by fastforce
next
  case (Suc m)
  obtain s' out where o: "outbound s = (s', out)" by fastforce
  note spec = outbound_spec(1-3) [OF o]
  from spec(1) have same: "acked s' = acked s" "window_end s' = window_end s"
    by (simp_all add: tx_data_def window_end_def tx_total_def)
  have ok': "tx_ok s'" by (rule outbound_ok [OF Suc.prems(1) o])
  consider "\<exists>g \<in> set out. seg_seq g = acked s"
    | d where "bt_get (due_at s) (acked s) = Some d" "bt_get (due_at s') (acked s) = Some d" "clock s' < d"
    using outbound_head [OF Suc.prems(1,2) o] by blast
  then show ?case
  proof cases
    case 1
    with o show ?thesis by (intro exI [of _ 0]) simp
  next
    case 2
    have "d \<le> sat_add (clock s') m" if "bt_get (due_at s') (acked s') = Some d" for d
      using that 2 Suc.prems(3) spec(2) same by (auto simp: sat_add_def)
    then have "\<exists>n \<le> m. \<exists>g \<in> set (snd (outbound (((\<lambda>s. fst (outbound s)) ^^ n) s'))). seg_seq g = acked s'"
      using ok' Suc.prems(2) same by (intro Suc.IH) auto
    then obtain n where "n \<le> m" "\<exists>g \<in> set (snd (outbound (((\<lambda>s. fst (outbound s)) ^^ n) s'))). seg_seq g = acked s"
      using same by auto
    then show ?thesis using o by (intro exI [of _ "Suc n"]) (simp add: funpow_swap1 [symmetric] funpow_Suc_right del: funpow.simps)
  qed
qed

section \<open>Reachable senders\<close>

text \<open>Every state an application, a driver and an arbitrary peer can bring a sender to.\<close>

inductive tx_reach :: "sender \<Rightarrow> bool" where
  tx_open: "tx_reach (sender_open i)"
| tx_window: "tx_reach s \<Longrightarrow> tx_reach (with_window w s)"
| tx_push: "tx_reach s \<Longrightarrow> tx_reach (push b s)"
| tx_flush: "tx_reach s \<Longrightarrow> tx_reach (flush s)"
| tx_finish: "tx_reach s \<Longrightarrow> tx_reach (finish s)"
| tx_outbound: "tx_reach s \<Longrightarrow> outbound s = (s', out) \<Longrightarrow> tx_reach s'"
| tx_poll: "tx_reach s \<Longrightarrow> poll_new s = (s', out) \<Longrightarrow> tx_reach s'"
| tx_ack: "tx_reach s \<Longrightarrow> tx_reach (on_ack a s)"

lemma with_window_ok: "tx_ok s \<Longrightarrow> tx_ok (with_window w s)"
  "tx_carries sealed pushed s \<Longrightarrow> tx_carries sealed pushed (with_window w s)"
  using clamp_bounds [of 1 SACK_WIDTH w]
  by (auto simp: tx_ok_def with_window_def tx_total_alt timer_ok_def tx_carries_def stream_consts)

lemma tx_reach_ok: "tx_reach s \<Longrightarrow> tx_ok s \<and> (\<exists>sealed pushed. tx_carries sealed pushed s)"
proof (induction rule: tx_reach.induct)
  case (tx_outbound s s' out)
  then show ?case using outbound_ok tx_carries_sweep outbound_spec(1) by blast
next
  case (tx_poll s s' out)
  then show ?case using poll_new_ok tx_carries_sweep poll_new_spec(1) by blast
next
  case (tx_open i)
  then show ?case using sender_open_ok by blast
next
  case (tx_window s w)
  then show ?case using with_window_ok by blast
next
  case (tx_push s b)
  then obtain sealed pushed where "tx_ok s" "tx_carries sealed pushed s" by blast
  from push_ok [OF this, of b] show ?case by blast
next
  case (tx_flush s)
  then obtain sealed pushed where "tx_ok s" "tx_carries sealed pushed s" by blast
  from flush_ok [OF this] show ?case by blast
next
  case (tx_finish s)
  then obtain sealed pushed where "tx_ok s" "tx_carries sealed pushed s" by blast
  from finish_ok [OF this] show ?case by blast
next
  case (tx_ack s a)
  then obtain sealed pushed where "tx_ok s" "tx_carries sealed pushed s" by blast
  from on_ack_carries [OF this, of a] on_ack_spec [OF this(1), of a] show ?case by blast
qed

section \<open>Properties of the sender\<close>

text \<open>
  A loss cannot stall the sender: from any state a peer and an application can reach whose cumulative point is at
  least \<open>SACK_WIDTH\<close> below the end of the 32-bit sequence space, if a segment is unacknowledged then after at most
  \<open>RETX_MAX\<close> sweeps the next sweep transmits the segment at the cumulative point again, whatever acknowledgements
  arrived before.
\<close>

theorem retransmit_within_bound:
  assumes "tx_reach s" "acked s < tx_total s" "acked s + SACK_WIDTH \<le> U32_MAX"
  shows "\<exists>n \<le> RETX_MAX. \<exists>g \<in> set (snd (outbound (((\<lambda>s. fst (outbound s)) ^^ n) s))). seg_seq g = acked s"
proof (rule resend_within)
  show ok: "tx_ok s" using tx_reach_ok [OF assms(1)] by blast
  have win: "1 \<le> window s" "window s \<le> SACK_WIDTH" using ok by (simp_all add: tx_ok_def)
  then have "acked s + min (window s) (max (peer_rwnd s) 1) < 2 ^ 32"
    using assms(3) by (simp add: U32_MAX_def min_def)
  then show "acked s < window_end s"
    using win assms(2) by (simp add: window_end_def Let_def wrap32_def)
  show "d \<le> sat_add (clock s) RETX_MAX" if "bt_get (due_at s) (acked s) = Some d" for d
    using ok that by (auto simp: tx_ok_def timer_ok_def bt_get_Some)
qed

theorem retransmit_within_bound_witness:
  "\<exists>n \<le> RETX_MAX. \<exists>g \<in> set (snd (outbound (((\<lambda>s. fst (outbound s)) ^^ n)
     (flush (push [1, 2] (sender_open 7)))))). seg_seq g = 0"
proof -
  let ?s = "flush (push [1, 2] (sender_open 7))"
  have "tx_reach ?s" by (intro tx_reach.intros)
  moreover have "acked ?s = 0" "tx_total ?s = 1"
    by (simp_all add: flush_def push_def sender_open_def seal_full.simps tx_total_def sat_add_def stream_consts)
  ultimately show ?thesis using retransmit_within_bound [of ?s] by (simp add: stream_consts)
qed

text \<open>
  The retransmit timer stays clamped: in every reachable state the timeout lies between one tick
  and \<open>RTO_MAX_TICKS\<close>, backs off to at most four times the measured base, and the jitter added to it
  is below the timeout.
\<close>

theorem timeout_clamped:
  assumes "tx_reach s"
  shows "1 \<le> rto (rtt s) \<and> rto (rtt s) \<le> RTO_MAX_TICKS \<and> rto (rtt s) \<le> RTO_BACKOFF_MULT * base_rto (rtt s) \<and>
    jitter_ticks seq n (rto (rtt s)) < rto (rtt s)"
  using tx_reach_ok [OF assms] jitter_lt [of seq n "rto (rtt s)"]
  by (auto simp: tx_ok_def timer_ok_def rtt_ok_def RTO_MIN_TICKS_def max_def split: if_splits)

theorem timeout_clamped_witness: "jitter_ticks 5 2 (rto (rtt (sender_open 7))) < rto (rtt (sender_open 7))"
  using timeout_clamped [OF tx_reach.tx_open] by blast

text \<open>
  Segment encoding round-trips, stream id and sequence number taken at their 32 bits, and the
  decoder refuses exactly the buffers shorter than its nine-byte header.
\<close>

theorem segment_roundtrip:
  "segment_decode (segment_encode g) =
     Some (g\<lparr>seg_stream_id := seg_stream_id g mod 2 ^ 32, seg_seq := seg_seq g mod 2 ^ 32\<rparr>) \<and>
   (segment_decode bs = None \<longleftrightarrow> length bs < 9)"
proof -
  have "segment_decode bs = None \<longleftrightarrow> length bs < 9"
    by (auto simp: segment_decode_def rd_take_def bind_eq_None_conv split: if_splits)
  moreover have "rd_take 1 (b # r) = Some ([b], r)" for b r by (simp add: rd_take_def)
  ultimately show ?thesis
    by (cases g) (simp add: segment_decode_def segment_encode_def from_be_be_bytes)
qed

end
