(* ===== verification/Stream_Receiver.thy ===== *)
theory Stream_Receiver
  imports Stream_Sender
begin

unbundle bit_operations_syntax

text \<open>
  The receiver half of the reliable byte stream (\<open>StreamReceiver\<close> of \<open>fanos-stream/src/lib.rs\<close>). The
  loop that advances the contiguous frontier has no bound of its own in the source, so it is a
  \<open>partial_function\<close> and \<open>on_segment\<close> returns \<open>None\<close> where it would not return; the lemmas show that
  it always returns, for any segment of any peer, that the buffer never exceeds its window, and that
  the acknowledgement reports exactly what is held.
\<close>

record receiver =
  rx_stream_id :: nat
  received :: "(nat, byte list) btree"
  frontier :: nat
  delivered :: nat
  fin_seq :: "nat option"
  recv_window :: nat

definition receiver_new :: "nat \<Rightarrow> receiver" where
  "receiver_new stream_id =
     \<lparr>rx_stream_id = stream_id, received = [], frontier = 0, delivered = 0, fin_seq = None,
      recv_window = DEFAULT_WINDOW\<rparr>"

definition with_recv_window :: "nat \<Rightarrow> receiver \<Rightarrow> receiver" where
  "with_recv_window w r = r\<lparr>recv_window := clamp 1 SACK_WIDTH w\<rparr>"

definition rx_ack :: "receiver \<Rightarrow> ack" where
  "rx_ack r =
     (let sk = fold (\<lambda>i sk. if bt_contains (received r) (sat_add (frontier r) i) then sk OR push_bit i 1 else sk)
                 [1..<SACK_WIDTH] 0;
          held = (if length (received r) \<le> U32_MAX then length (received r) else U32_MAX)
      in \<lparr>cumulative = frontier r, sack = sk, rwnd = recv_window r - held\<rparr>)"

text \<open>\<open>while self.received.contains_key(&self.next)\<close>\<close>

partial_function (option) rx_advance :: "(nat, byte list) btree \<Rightarrow> nat \<Rightarrow> nat option" where
  "rx_advance m n = (if bt_contains m n then rx_advance m (sat_add n 1) else Some n)"

definition on_segment :: "segment \<Rightarrow> receiver \<Rightarrow> (receiver \<times> ack) option" where
  "on_segment g r =
     (if seg_stream_id g \<noteq> rx_stream_id r then Some (r, rx_ack r)
      else if length (seg_data g) > MAX_SEGMENT then Some (r, rx_ack r)
      else
        let in_window = (seg_seq g \<ge> delivered r \<and> seg_seq g < sat_add (delivered r) (recv_window r))
        in if in_window
           then
             let beyond_declared_end = (case fin_seq r of None \<Rightarrow> False | Some fin \<Rightarrow> seg_seq g > fin);
                 fin_contradicts_held = (seg_fin g \<and>
                   (case bt_last_key (received r) of None \<Rightarrow> False | Some hi \<Rightarrow> hi > seg_seq g))
             in if beyond_declared_end \<or> fin_contradicts_held then Some (r, rx_ack r)
                else
                  let r = (if seg_fin g then r\<lparr>fin_seq := Some (seg_seq g)\<rparr> else r);
                      r = r\<lparr>received := (case bt_get (received r) (seg_seq g) of
                                          None \<Rightarrow> bt_insert (seg_seq g) (seg_data g) (received r)
                                        | Some _ \<Rightarrow> received r)\<rparr>
                  in do {
                    n \<leftarrow> rx_advance (received r) (frontier r);
                    let r = r\<lparr>frontier := n\<rparr> in Some (r, rx_ack r) }
           else Some (r, rx_ack r))"

definition rx_buffered_bytes :: "receiver \<Rightarrow> nat" where
  "rx_buffered_bytes r = sum_list (map (\<lambda>e. length (snd e)) (received r))"

text \<open>
  \<open>take\<close>: the loop runs while \<open>delivered < next\<close>; the second guard is implied by the 32-bit range of
  \<open>next\<close>, where the saturating increment is a plain one.
\<close>

function take_loop :: "receiver \<Rightarrow> byte list \<Rightarrow> receiver \<times> byte list" where
  "take_loop r out =
     (if delivered r < frontier r \<and> delivered r < U32_MAX
      then
        let out' = (case bt_get (received r) (delivered r) of Some seg \<Rightarrow> out @ seg | None \<Rightarrow> out);
            r' = r\<lparr>received := bt_remove (delivered r) (received r),
                   delivered := sat_add (delivered r) 1\<rparr>
        in take_loop r' out'
      else (r, out))"
  by pat_completeness auto
termination
  by (relation "measure (\<lambda>(r, _). frontier r - delivered r)") (auto simp: sat_add_def)

declare take_loop.simps [simp del]

definition rx_take :: "receiver \<Rightarrow> receiver \<times> byte list" where
  "rx_take r = take_loop r []"

text \<open>The loop over \<open>0..=fin\<close> of \<open>deliver\<close>, leaving early when a segment is not held.\<close>

primrec collect :: "(nat, byte list) btree \<Rightarrow> nat list \<Rightarrow> byte list option" where
  "collect m [] = Some []"
| "collect m (k # ks) = do { d \<leftarrow> bt_get m k; ds \<leftarrow> collect m ks; Some (d @ ds) }"

definition deliver :: "receiver \<Rightarrow> byte list option" where
  "deliver r = do {
     fin \<leftarrow> fin_seq r;
     if frontier r \<le> fin then None else collect (received r) [0..<Suc fin] }"

definition is_finished :: "receiver \<Rightarrow> bool" where
  "is_finished r = (case fin_seq r of None \<Rightarrow> False | Some fin \<Rightarrow> frontier r > fin)"

section \<open>The receiver invariant\<close>

text \<open>
  The buffer holds only sequences of the admission window, every one below \<open>u32::MAX\<close> and at most
  \<open>MAX_SEGMENT\<close> long, and all of the contiguous run not yet taken.
\<close>

definition rx_ok :: "receiver \<Rightarrow> bool" where
  "rx_ok r \<longleftrightarrow> bt_ok (received r) \<and>
     (\<forall>(k, v) \<in> set (received r). delivered r \<le> k \<and> k < delivered r + recv_window r \<and> k < U32_MAX \<and>
        length v \<le> MAX_SEGMENT) \<and>
     delivered r \<le> frontier r \<and> frontier r \<le> U32_MAX \<and> {delivered r..<frontier r} \<subseteq> bt_keys (received r) \<and>
     frontier r \<notin> bt_keys (received r) \<and> 1 \<le> recv_window r \<and> recv_window r \<le> SACK_WIDTH"

lemma receiver_new_ok: "rx_ok (receiver_new i)"
  by (simp add: rx_ok_def receiver_new_def bt.inv_empty stream_consts)

text \<open>The frontier loop ends at the first sequence not held.\<close>

lemma rx_advance_returns:
  assumes "\<forall>k \<in> bt_keys m. k < U32_MAX" "n \<le> U32_MAX"
  shows "\<exists>n'. rx_advance m n = Some n' \<and> n \<le> n' \<and> n' \<le> U32_MAX \<and> {n..<n'} \<subseteq> bt_keys m \<and> n' \<notin> bt_keys m"
  using assms
proof (induction "U32_MAX - n" arbitrary: n)
  case 0
  then have "n \<notin> bt_keys m" by force
  then show ?case using 0 by (subst rx_advance.simps) simp
next
  case (Suc d)
  show ?case
  proof (cases "n \<in> bt_keys m")
    case True
    have "sat_add n 1 = Suc n" using Suc by (simp add: sat_add_def)
    then have step: "rx_advance m n = rx_advance m (Suc n)" using True by (subst rx_advance.simps) simp
    have "\<exists>n'. rx_advance m (Suc n) = Some n' \<and> Suc n \<le> n' \<and> n' \<le> U32_MAX \<and> {Suc n..<n'} \<subseteq> bt_keys m \<and> n' \<notin> bt_keys m"
      using Suc by (intro Suc(1)) auto
    then obtain n' where n': "rx_advance m (Suc n) = Some n'" "Suc n \<le> n'" "n' \<le> U32_MAX"
      "{Suc n..<n'} \<subseteq> bt_keys m" "n' \<notin> bt_keys m" by blast
    have "{n..<n'} = insert n {Suc n..<n'}" using n'(2) by auto
    with n' True step show ?thesis by auto
  next
    case False
    then show ?thesis using Suc by (subst rx_advance.simps) simp
  qed
qed

text \<open>The three outcomes of a segment: ignored, refused by the FIN rules, or admitted.\<close>

definition admits :: "segment \<Rightarrow> receiver \<Rightarrow> bool" where
  "admits g r \<longleftrightarrow> seg_stream_id g = rx_stream_id r \<and> length (seg_data g) \<le> MAX_SEGMENT \<and>
     delivered r \<le> seg_seq g \<and> seg_seq g < sat_add (delivered r) (recv_window r) \<and>
     (\<forall>fin. fin_seq r = Some fin \<longrightarrow> seg_seq g \<le> fin) \<and>
     (seg_fin g \<longrightarrow> (\<forall>k \<in> bt_keys (received r). k \<le> seg_seq g))"

definition admitted :: "segment \<Rightarrow> receiver \<Rightarrow> (nat, byte list) btree" where
  "admitted g r =
     (case bt_get (received r) (seg_seq g) of
        None \<Rightarrow> bt_insert (seg_seq g) (seg_data g) (received r)
      | Some _ \<Rightarrow> received r)"

lemma admitted_set:
  "set (admitted g r) \<subseteq> insert (seg_seq g, seg_data g) (set (received r))"
  "bt_keys (admitted g r) = insert (seg_seq g) (bt_keys (received r))"
  "bt_ok (received r) \<Longrightarrow> bt_ok (admitted g r)"
proof -
  have ins: "set (bt_insert k v m) \<subseteq> insert (k, v) (set m)" for k :: nat and v :: "byte list" and m
    by (induction m) auto
  show "set (admitted g r) \<subseteq> insert (seg_seq g, seg_data g) (set (received r))"
    using ins by (auto simp: admitted_def split: option.splits)
  show "bt_keys (admitted g r) = insert (seg_seq g) (bt_keys (received r))"
    using bt_get_None [of "received r" "seg_seq g"]
    by (cases "bt_get (received r) (seg_seq g)") (simp_all add: admitted_def insert_absorb)
  show "bt_ok (received r) \<Longrightarrow> bt_ok (admitted g r)"
    by (auto simp: admitted_def bt_ok_insert split: option.splits)
qed

lemma on_segment_unfold:
  assumes "bt_ok (received r)"
  shows "on_segment g r =
    (if admits g r then do {
       n \<leftarrow> rx_advance (admitted g r) (frontier r);
       let r' = r\<lparr>fin_seq := (if seg_fin g then Some (seg_seq g) else fin_seq r),
                  received := admitted g r, frontier := n\<rparr>
       in Some (r', rx_ack r') }
     else Some (r, rx_ack r))"
proof -
  have hi: "(case bt_last_key (received r) of None \<Rightarrow> False | Some hi \<Rightarrow> hi > q) \<longleftrightarrow>
      \<not> (\<forall>k \<in> bt_keys (received r). k \<le> q)" for q
  proof (cases "bt_last_key (received r)")
    case (Some h)
    have "h \<in> bt_keys (received r)" "\<forall>k \<in> bt_keys (received r). k \<le> h"
      using bt_last_key_Some [OF assms Some] by blast+
    then have "q < h \<longleftrightarrow> \<not> (\<forall>k \<in> bt_keys (received r). k \<le> q)" by (meson leD leI le_less_trans)
    with Some show ?thesis by simp
  next
    case None
    then show ?thesis by simp
  qed
  show ?thesis
    unfolding on_segment_def admits_def admitted_def hi
    by (auto simp: Let_def not_le not_less split: option.splits)
qed

text \<open>
  Every segment is processed: the state is unchanged, or the segment was admitted, the frontier moved
  over held sequences only, and the invariant holds again.
\<close>

lemma on_segment_ok:
  assumes "rx_ok r"
  obtains r' where "on_segment g r = Some (r', rx_ack r')" "rx_ok r'"
    "r' = r \<or> admits g r \<and> (\<exists>n. r' = r\<lparr>fin_seq := (if seg_fin g then Some (seg_seq g) else fin_seq r),
       received := admitted g r, frontier := n\<rparr> \<and> frontier r \<le> n \<and>
       {frontier r..<n} \<subseteq> bt_keys (admitted g r))"
proof (cases "admits g r")
  case False
  with assms show ?thesis by (intro that [of r]) (simp_all add: on_segment_unfold rx_ok_def)
next
  case True
  have ok: "bt_ok (received r)" using assms by (simp add: rx_ok_def)
  have seq: "delivered r \<le> seg_seq g" "seg_seq g < delivered r + recv_window r" "seg_seq g < U32_MAX"
      "length (seg_data g) \<le> MAX_SEGMENT"
    using True by (auto simp: admits_def sat_add_def)
  have entries: "\<forall>(k, v) \<in> set (admitted g r). delivered r \<le> k \<and> k < delivered r + recv_window r \<and>
      k < U32_MAX \<and> length v \<le> MAX_SEGMENT"
    using assms seq admitted_set(1) [of g r] unfolding rx_ok_def by blast
  then have "\<forall>k \<in> bt_keys (admitted g r). k < U32_MAX" by auto
  then obtain n where n: "rx_advance (admitted g r) (frontier r) = Some n" "frontier r \<le> n" "n \<le> U32_MAX"
      "{frontier r..<n} \<subseteq> bt_keys (admitted g r)" "n \<notin> bt_keys (admitted g r)"
    using rx_advance_returns [of "admitted g r" "frontier r"] assms by (auto simp: rx_ok_def)
  define r' where "r' = r\<lparr>fin_seq := (if seg_fin g then Some (seg_seq g) else fin_seq r),
       received := admitted g r, frontier := n\<rparr>"
  have "{delivered r..<n} \<subseteq> bt_keys (admitted g r)"
  proof
    fix k
    assume "k \<in> {delivered r..<n}"
    then have "k \<in> {delivered r..<frontier r} \<or> k \<in> {frontier r..<n}" by auto
    moreover have "{delivered r..<frontier r} \<subseteq> bt_keys (received r)" using assms by (simp add: rx_ok_def)
    ultimately show "k \<in> bt_keys (admitted g r)" using n(4) admitted_set(2) [of g r] by blast
  qed
  then have "rx_ok r'"
    using assms entries n admitted_set(3) [OF ok] by (simp add: rx_ok_def r'_def)
  moreover have "on_segment g r = Some (r', rx_ack r')"
    using True n(1) by (simp add: on_segment_unfold [OF ok] Let_def r'_def)
  ultimately show ?thesis using True n by (intro that [of r']) (auto simp: r'_def)
qed

section \<open>Reading the in-order prefix\<close>

text \<open>What \<open>take\<close> returns: the held segments from \<open>delivered\<close> up to the frontier.\<close>

definition run_bytes :: "(nat, byte list) btree \<Rightarrow> nat \<Rightarrow> nat \<Rightarrow> byte list" where
  "run_bytes m a b = concat (map (\<lambda>k. the (bt_get m k)) [a..<b])"

lemma take_loop_spec:
  assumes "rx_ok r"
  shows "take_loop r out = (r\<lparr>received := bt_split_off (frontier r) (received r), delivered := frontier r\<rparr>,
      out @ run_bytes (received r) (delivered r) (frontier r)) \<and>
    rx_ok (r\<lparr>received := bt_split_off (frontier r) (received r), delivered := frontier r\<rparr>)"
  using assms
proof (induction r out rule: take_loop.induct)
  case (1 r out)
  show ?case
  proof (cases "delivered r < frontier r")
    case False
    with "1.prems" have "delivered r = frontier r" by (simp add: rx_ok_def)
    moreover from this "1.prems" have "bt_split_off (frontier r) (received r) = received r"
      by (auto simp: bt_split_off_def rx_ok_def intro!: filter_True)
    ultimately show ?thesis using "1.prems" by (simp add: take_loop.simps [of r] run_bytes_def rx_ok_def)
  next
    case True
    have lt: "delivered r < U32_MAX" and succ: "sat_add (delivered r) 1 = Suc (delivered r)"
      using True "1.prems" by (simp_all add: rx_ok_def sat_add_def)
    have "delivered r \<in> bt_keys (received r)" using True "1.prems" by (auto simp: rx_ok_def)
    then obtain d where d: "bt_get (received r) (delivered r) = Some d"
      using bt_get_None by (metis not_Some_eq)
    define r1 where "r1 = r\<lparr>received := bt_remove (delivered r) (received r), delivered := Suc (delivered r)\<rparr>"
    have ok1: "rx_ok r1"
    proof -
      have "{Suc (delivered r)..<frontier r} \<subseteq> bt_keys (received r) - {delivered r}"
        using "1.prems" by (force simp: rx_ok_def)
      moreover have "frontier r \<notin> bt_keys (received r) - {delivered r}" using "1.prems" by (simp add: rx_ok_def)
      moreover have "\<forall>(k, v) \<in> set (bt_remove (delivered r) (received r)). Suc (delivered r) \<le> k \<and>
          k < Suc (delivered r) + recv_window r \<and> k < U32_MAX \<and> length v \<le> MAX_SEGMENT"
        using "1.prems" by (force simp: rx_ok_def bt_remove_def)
      ultimately show ?thesis using True "1.prems" by (simp add: rx_ok_def r1_def bt.inv_remove bt_keys_filter(1))
    qed
    have step: "take_loop r out = take_loop r1 (out @ d)"
      using True lt succ d by (subst take_loop.simps) (simp add: r1_def)
    have off: "bt_split_off (frontier r) (received r1) = bt_split_off (frontier r) (received r)"
      using True by (auto simp: r1_def bt_split_off_def bt_remove_def intro!: filter_cong)
    have IH: "take_loop r1 (out @ d) =
        (r1\<lparr>received := bt_split_off (frontier r) (received r), delivered := frontier r\<rparr>,
         out @ d @ run_bytes (received r1) (Suc (delivered r)) (frontier r))"
      "rx_ok (r1\<lparr>received := bt_split_off (frontier r) (received r), delivered := frontier r\<rparr>)"
      using "1.IH" [of "out @ d" r1] True lt succ d ok1 off by (auto simp: r1_def)
    have "run_bytes (received r) (delivered r) (frontier r) = d @ run_bytes (received r1) (Suc (delivered r)) (frontier r)"
      using True d by (auto simp: run_bytes_def upt_conv_Cons r1_def intro!: arg_cong [where f = concat])
    with IH step show ?thesis by (simp add: r1_def)
  qed
qed

lemma rx_take_spec:
  assumes "rx_ok r" "rx_take r = (r', out)"
  shows "r' = r\<lparr>received := bt_split_off (frontier r) (received r), delivered := frontier r\<rparr>" "rx_ok r'"
    "out = run_bytes (received r) (delivered r) (frontier r)"
  using take_loop_spec [OF assms(1), of "[]"] assms(2) by (auto simp: rx_take_def)

section \<open>Bounded buffer and faithful acknowledgements\<close>

lemma rx_held_bound: "rx_ok r \<Longrightarrow> length (received r) \<le> recv_window r"
proof -
  assume ok: "rx_ok r"
  then have "bt_keys (received r) \<subseteq> {delivered r..<delivered r + recv_window r}" by (auto simp: rx_ok_def)
  then have "card (bt_keys (received r)) \<le> recv_window r"
    using card_mono [of "{delivered r..<delivered r + recv_window r}"] by simp
  with ok show ?thesis by (simp add: rx_ok_def length_bt)
qed

lemma sum_list_bound: "(\<forall>x \<in> set xs. f x \<le> c) \<Longrightarrow> sum_list (map f xs) \<le> length xs * c" for c :: nat
  by (induction xs) auto

lemma rx_bytes_bound: "rx_ok r \<Longrightarrow> rx_buffered_bytes r \<le> recv_window r * MAX_SEGMENT"
proof -
  assume ok: "rx_ok r"
  then have "rx_buffered_bytes r \<le> length (received r) * MAX_SEGMENT"
    unfolding rx_buffered_bytes_def by (intro sum_list_bound) (auto simp: rx_ok_def)
  also have "\<dots> \<le> recv_window r * MAX_SEGMENT" using rx_held_bound [OF ok] by simp
  finally show ?thesis .
qed

lemma sack_bits:
  "bit (fold (\<lambda>i sk. if P i then sk OR push_bit i 1 else sk) [a..<b] (w :: u64)) j \<longleftrightarrow>
     bit w j \<or> a \<le> j \<and> j < b \<and> j < 64 \<and> P j"
proof (induction b)
  case (Suc b)
  then show ?case
    by (cases "a \<le> b") (auto simp: bit_or_iff bit_exp_iff possible_bit_word less_Suc_eq le_Suc_eq)
qed simp

lemma rx_ack_sack:
  "bit (sack (rx_ack r)) i \<longleftrightarrow> 1 \<le> i \<and> i < SACK_WIDTH \<and> sat_add (frontier r) i \<in> bt_keys (received r)"
  using sack_bits [of "\<lambda>i. bt_contains (received r) (sat_add (frontier r) i)" 1 SACK_WIDTH 0 i]
  by (auto simp: rx_ack_def Let_def SACK_WIDTH_def)

section \<open>Reachable receivers\<close>

text \<open>Every state that any sequence of segments, from any peer, and reads can bring a receiver to.\<close>

inductive rx_reach :: "receiver \<Rightarrow> bool" where
  rx_init: "rx_reach (receiver_new i)"
| rx_window: "rx_reach (with_recv_window w (receiver_new i))"
| rx_segment: "rx_reach r \<Longrightarrow> on_segment g r = Some (r', a) \<Longrightarrow> rx_reach r'"
| rx_read: "rx_reach r \<Longrightarrow> rx_take r = (r', out) \<Longrightarrow> rx_reach r'"

lemma with_recv_window_ok: "rx_ok (with_recv_window w (receiver_new i))"
  using clamp_bounds [of 1 SACK_WIDTH w]
  by (simp add: rx_ok_def receiver_new_def with_recv_window_def bt.inv_empty stream_consts)

lemma rx_reach_ok: "rx_reach r \<Longrightarrow> rx_ok r"
proof (induction rule: rx_reach.induct)
  case (rx_segment r g r' a)
  show ?case
    by (rule on_segment_ok [OF rx_segment.IH, of g]) (use rx_segment.hyps(2) in simp)
next
  case (rx_read r r' out)
  then show ?case using rx_take_spec(2) by blast
qed (rule receiver_new_ok with_recv_window_ok)+

text \<open>
  The receiver always answers: whatever segments arrived before, in whatever order and from
  whomever, the frontier loop terminates on the next segment and an acknowledgement is returned.
\<close>

theorem on_segment_returns:
  assumes "rx_reach r"
  shows "\<exists>r' a. on_segment g r = Some (r', a)"
  by (rule on_segment_ok [OF rx_reach_ok [OF assms], of g]) blast

theorem on_segment_returns_witness:
  "\<exists>r' a. on_segment \<lparr>seg_stream_id = 7, seg_seq = 0, seg_fin = False, seg_data = [1]\<rparr> (receiver_new 7) = Some (r', a)"
  by (rule on_segment_returns) (rule rx_reach.rx_init)

text \<open>
  C12. The receive buffer is bounded whatever the peer sends: at most \<open>recv_window\<close> segments and
  \<open>recv_window * MAX_SEGMENT\<close> bytes are held, and the window is at most \<open>SACK_WIDTH\<close>.
\<close>

theorem receive_buffer_bounded:
  assumes "rx_reach r"
  shows "length (received r) \<le> recv_window r \<and> rx_buffered_bytes r \<le> recv_window r * MAX_SEGMENT \<and>
    recv_window r \<le> SACK_WIDTH"
  using rx_reach_ok [OF assms] rx_held_bound rx_bytes_bound by (simp add: rx_ok_def)

theorem receive_buffer_bounded_witness:
  "rx_buffered_bytes (with_recv_window 5 (receiver_new 7)) \<le> recv_window (with_recv_window 5 (receiver_new 7)) * MAX_SEGMENT"
  using receive_buffer_bounded [OF rx_reach.rx_window, of 5 7] by blast

text \<open>
  The acknowledgement is exact: the cumulative point is the first sequence not held, every
  sequence from the read point up to it is held, bit \<open>i\<close> of the bitmap says whether \<open>cumulative + i\<close> is
  held, and the credit is the window less the segments held.
\<close>

theorem ack_reports_buffer:
  assumes "rx_reach r"
  shows "cumulative (rx_ack r) \<notin> bt_keys (received r) \<and>
    {delivered r..<cumulative (rx_ack r)} \<subseteq> bt_keys (received r) \<and>
    (\<forall>i. bit (sack (rx_ack r)) i \<longleftrightarrow> i < SACK_WIDTH \<and> cumulative (rx_ack r) + i \<in> bt_keys (received r)) \<and>
    rwnd (rx_ack r) + length (received r) = recv_window r"
proof -
  have ok: "rx_ok r" by (rule rx_reach_ok [OF assms])
  have cum: "cumulative (rx_ack r) = frontier r" by (simp add: rx_ack_def Let_def)
  have bits: "sat_add (frontier r) i \<in> bt_keys (received r) \<and> 1 \<le> i \<longleftrightarrow> frontier r + i \<in> bt_keys (received r)" for i
  proof -
    have lt: "k < U32_MAX" if "k \<in> bt_keys (received r)" for k using ok that by (auto simp: rx_ok_def)
    have "frontier r \<notin> bt_keys (received r)" using ok by (simp add: rx_ok_def)
    then show ?thesis using lt [of "frontier r + i"] lt [of "sat_add (frontier r) i"]
      by (cases "i = 0"; cases "frontier r + i < U32_MAX") (auto simp: sat_add_def min_def split: if_splits)
  qed
  have "rwnd (rx_ack r) + length (received r) = recv_window r"
    using rx_held_bound [OF ok] ok by (simp add: rx_ack_def Let_def rx_ok_def stream_consts)
  then show ?thesis using ok cum bits by (auto simp: rx_ok_def rx_ack_sack)
qed

theorem ack_reports_buffer_witness:
  "rwnd (rx_ack (receiver_new 7)) + length (received (receiver_new 7)) = recv_window (receiver_new 7)"
  using ack_reports_buffer [OF rx_reach.rx_init, of 7] by blast

end
