(* ===== verification/Stream_Net.thy ===== *)
theory Stream_Net
  imports Stream_Receiver
begin

text \<open>
  One stream end to end: a sender and a receiver of \<open>fanos-stream\<close> joined by an overlay that may lose,
  duplicate, delay and reorder. A transmitted segment stays available for delivery for ever, so every
  interleaving of losses, copies and delays is a run. Foreign and oversized segments may be injected.
  Acknowledgements are those the receiver produced, in any order and any number of times, or, with
  the flag \<open>hostile\<close>, arbitrary ones. The theorems say that the bytes read are a prefix of the bytes
  written, that a delivered message is the message sent, and that a sender that calls a stream complete
  is right about it.
\<close>

record net =
  n_tx :: sender
  n_rx :: receiver
  n_wire :: "segment set"
  n_acks :: "ack set"
  n_pushed :: "byte list"
  n_taken :: "byte list"

definition net_init :: "nat \<Rightarrow> nat \<Rightarrow> nat \<Rightarrow> net" where
  "net_init i w v =
     \<lparr>n_tx = with_window w (sender_open i), n_rx = with_recv_window v (receiver_new i), n_wire = {},
      n_acks = {}, n_pushed = [], n_taken = []\<rparr>"

inductive net_step :: "bool \<Rightarrow> net \<Rightarrow> net \<Rightarrow> bool" for hostile where
  step_push: "net_step hostile n
     (n\<lparr>n_tx := push b (n_tx n), n_pushed := (if finished (n_tx n) then n_pushed n else n_pushed n @ b)\<rparr>)"
| step_flush: "net_step hostile n (n\<lparr>n_tx := flush (n_tx n)\<rparr>)"
| step_finish: "net_step hostile n (n\<lparr>n_tx := finish (n_tx n)\<rparr>)"
| step_outbound: "outbound (n_tx n) = (s', out) \<Longrightarrow>
     net_step hostile n (n\<lparr>n_tx := s', n_wire := n_wire n \<union> set out\<rparr>)"
| step_poll: "poll_new (n_tx n) = (s', out) \<Longrightarrow>
     net_step hostile n (n\<lparr>n_tx := s', n_wire := n_wire n \<union> set out\<rparr>)"
| step_ack: "a \<in> n_acks n \<or> hostile \<Longrightarrow> net_step hostile n (n\<lparr>n_tx := on_ack a (n_tx n)\<rparr>)"
| step_segment: "g \<in> n_wire n \<or> seg_stream_id g \<noteq> rx_stream_id (n_rx n) \<or> length (seg_data g) > MAX_SEGMENT \<Longrightarrow>
     on_segment g (n_rx n) = Some (r', a) \<Longrightarrow>
     net_step hostile n (n\<lparr>n_rx := r', n_acks := insert a (n_acks n)\<rparr>)"
| step_take: "rx_take (n_rx n) = (r', out) \<Longrightarrow>
     net_step hostile n (n\<lparr>n_rx := r', n_taken := n_taken n @ out\<rparr>)"

inductive net_reach :: "bool \<Rightarrow> net \<Rightarrow> bool" for hostile where
  net_start: "net_reach hostile (net_init i w v)"
| net_next: "net_reach hostile n \<Longrightarrow> net_step hostile n n' \<Longrightarrow> net_reach hostile n'"

section \<open>The invariant of the data path\<close>

text \<open>A sequence the receiver has got: read already, or held.\<close>

definition got :: "receiver \<Rightarrow> nat \<Rightarrow> bool" where
  "got r k \<longleftrightarrow> k < delivered r \<or> k \<in> bt_keys (received r)"

text \<open>The receiver knows the end of the stream exactly when it has got the last segment.\<close>

definition fin_agrees :: "byte list list \<Rightarrow> bool \<Rightarrow> receiver \<Rightarrow> bool" where
  "fin_agrees sealed fin r \<longleftrightarrow>
     (\<forall>f. fin_seq r = Some f \<longrightarrow> fin \<and> Suc f = length sealed) \<and>
     (\<forall>k. fin \<and> Suc k = length sealed \<and> got r k \<longrightarrow> fin_seq r = Some k)"

definition rx_carries :: "byte list list \<Rightarrow> bool \<Rightarrow> receiver \<Rightarrow> bool" where
  "rx_carries sealed fin r \<longleftrightarrow>
     (\<forall>(k, d) \<in> set (received r). k < length sealed \<and> d = sealed ! k) \<and> frontier r \<le> length sealed \<and>
     (length sealed \<le> U32_MAX \<longrightarrow> fin_agrees sealed fin r)"

definition net_ok :: "byte list list \<Rightarrow> net \<Rightarrow> bool" where
  "net_ok sealed n \<longleftrightarrow>
     tx_ok (n_tx n) \<and> tx_carries sealed (n_pushed n) (n_tx n) \<and> rx_ok (n_rx n) \<and>
     rx_carries sealed (finished (n_tx n)) (n_rx n) \<and>
     (\<forall>g \<in> n_wire n. seg_carries sealed (finished (n_tx n)) g) \<and>
     n_taken n = concat (take (delivered (n_rx n)) sealed)"

lemma rx_carries_append:
  assumes "rx_ok r" "rx_carries sealed False r" "f \<longrightarrow> new \<noteq> []"
  shows "rx_carries (sealed @ new) f r"
proof -
  have held: "\<forall>(k, d) \<in> set (received r). k < length (sealed @ new) \<and> d = (sealed @ new) ! k"
    using assms(2) by (auto simp: rx_carries_def nth_append)
  have "\<not> got r k" if "f" "Suc k = length sealed + length new" for k
  proof -
    have "length sealed \<le> k" using that assms(3) by (cases new) auto
    moreover have "delivered r \<le> length sealed" using assms(1,2) by (simp add: rx_ok_def rx_carries_def)
    moreover have "\<forall>k \<in> bt_keys (received r). k < length sealed" using assms(2) by (auto simp: rx_carries_def)
    ultimately show ?thesis by (auto simp: got_def)
  qed
  with held assms(2) show ?thesis by (auto simp: rx_carries_def fin_agrees_def)
qed

text \<open>Sealing more segments, before the stream is finished or by finishing it.\<close>

lemma net_ok_extend:
  assumes "net_ok sealed n" "tx_ok s'" "tx_carries (sealed @ new) p s'" "finished (n_tx n) \<longrightarrow> new = []"
    "finished s' \<longrightarrow> finished (n_tx n) \<or> new \<noteq> []" "finished (n_tx n) \<longrightarrow> finished s'"
  shows "net_ok (sealed @ new) (n\<lparr>n_tx := s', n_pushed := p\<rparr>)"
proof (cases "finished (n_tx n)")
  case True
  with assms show ?thesis by (simp add: net_ok_def)
next
  case False
  have "rx_carries (sealed @ new) (finished s') (n_rx n)"
    using assms(1,5) False by (intro rx_carries_append) (auto simp: net_ok_def)
  moreover have "\<forall>g \<in> n_wire n. seg_carries (sealed @ new) (finished s') g"
    using assms(1,5) False by (auto simp: net_ok_def intro!: seg_carries_append)
  moreover have "delivered (n_rx n) \<le> length sealed"
    using assms(1) by (auto simp: net_ok_def rx_ok_def rx_carries_def)
  ultimately show ?thesis using assms(1-3) by (simp add: net_ok_def)
qed

lemma net_ok_sweep:
  assumes "net_ok sealed n" "tx_ok s'" "tx_data s' = tx_data (n_tx n)" "\<And>g. g \<in> out \<Longrightarrow> seg_of (n_tx n) g"
  shows "net_ok sealed (n\<lparr>n_tx := s', n_wire := n_wire n \<union> out\<rparr>)"
proof -
  have "finished s' = finished (n_tx n)" using assms(3) by (simp add: tx_data_def)
  moreover have "seg_carries sealed (finished (n_tx n)) g" if "g \<in> out" for g
    using seg_of_carries [OF assms(4) [OF that]] assms(1) unfolding net_ok_def by blast
  ultimately show ?thesis
    using assms(1,2) tx_carries_sweep [OF _ assms(3)] by (auto simp: net_ok_def)
qed

text \<open>The outcome of a segment, in one rule.\<close>

definition admit_to :: "segment \<Rightarrow> nat \<Rightarrow> receiver \<Rightarrow> receiver" where
  "admit_to g m r = r\<lparr>fin_seq := (if seg_fin g then Some (seg_seq g) else fin_seq r),
     received := admitted g r, frontier := m\<rparr>"

lemma on_segment_result:
  assumes "rx_ok r" "on_segment g r = Some (r', a)"
  shows "a = rx_ack r'" "rx_ok r'" "delivered r' = delivered r" "\<And>k. got r k \<Longrightarrow> got r' k"
    "r' = r \<or> (\<exists>m. admits g r \<and> admit_to g m r = r' \<and> frontier r \<le> m \<and>
       {frontier r..<m} \<subseteq> bt_keys (admitted g r))"
proof -
  obtain q where q: "on_segment g r = Some (q, rx_ack q)" "rx_ok q"
    "q = r \<or> admits g r \<and> (\<exists>m. q = admit_to g m r \<and> frontier r \<le> m \<and> {frontier r..<m} \<subseteq> bt_keys (admitted g r))"
    by (rule on_segment_ok [OF assms(1), of g, folded admit_to_def])
  have r': "r' = q" "a = rx_ack q" using assms(2) q(1) by auto
  show "a = rx_ack r'" "rx_ok r'" using q(2) r' by auto
  show "delivered r' = delivered r" using q(3) r' by (auto simp: admit_to_def)
  show "got r' k" if "got r k" for k
    using q(3)
  proof
    assume "admits g r \<and> (\<exists>m. q = admit_to g m r \<and> frontier r \<le> m \<and> {frontier r..<m} \<subseteq> bt_keys (admitted g r))"
    then have "received q = admitted g r" "delivered q = delivered r" by (auto simp: admit_to_def)
    with that show ?thesis unfolding r' got_def using admitted_set(2) [of g r] by simp blast
  qed (use that r' in simp)
  show "r' = r \<or> (\<exists>m. admits g r \<and> admit_to g m r = r' \<and> frontier r \<le> m \<and>
       {frontier r..<m} \<subseteq> bt_keys (admitted g r))"
    using q(3) r' by blast
qed

text \<open>An admitted segment of the stream keeps the receiver in step with what was sealed.\<close>

lemma rx_carries_segment:
  assumes "rx_ok r" "rx_carries sealed fin r" "seg_carries sealed fin g"
    and adm: "admit_to g m r = r'" and "frontier r \<le> m" "{frontier r..<m} \<subseteq> bt_keys (admitted g r)"
  shows "rx_carries sealed fin r'"
proof -
  note r' = adm [symmetric, unfolded admit_to_def]
  have held: "\<forall>(k, d) \<in> set (admitted g r). k < length sealed \<and> d = sealed ! k"
    using assms(2,3) admitted_set(1) [of g r] unfolding rx_carries_def seg_carries_def by blast
  have "m \<le> length sealed"
  proof (cases "frontier r = m")
    case True
    with assms(2) show ?thesis by (simp add: rx_carries_def)
  next
    case False
    then have "m - 1 \<in> bt_keys (admitted g r)" using assms(5,6) by auto
    with held show ?thesis by auto
  qed
  moreover have got: "got r' k \<longleftrightarrow> got r k \<or> k = seg_seq g" for k
    unfolding got_def r' using admitted_set(2) [of g r] by simp blast
  moreover have "fin_agrees sealed fin r'" if "length sealed \<le> U32_MAX"
  proof -
    have new: "seg_fin g \<longleftrightarrow> fin \<and> Suc (seg_seq g) = length sealed"
      using assms(3) that by (simp add: seg_carries_def)
    have old: "fin_agrees sealed fin r" using assms(2) that by (simp add: rx_carries_def)
    have fs: "fin_seq r' = (if seg_fin g then Some (seg_seq g) else fin_seq r)" by (simp add: r')
    show ?thesis using new old unfolding fin_agrees_def got fs by (metis nat.inject option.inject)
  qed
  ultimately show ?thesis
    using held by (simp add: rx_carries_def r')
qed

lemma take_nth_run:
  "a \<le> b \<Longrightarrow> b \<le> length xs \<Longrightarrow> concat (take a xs) @ concat (map ((!) xs) [a..<b]) = concat (take b xs)"
proof (induction b)
  case (Suc b)
  show ?case
  proof (cases "a = Suc b")
    case False
    with Suc.prems have "a \<le> b" "b \<le> length xs" "b < length xs" by auto
    with Suc.IH show ?thesis by (simp add: take_Suc_conv_app_nth flip: append_assoc)
  qed simp
qed simp

text \<open>Reading neither loses nor invents a sequence.\<close>

lemma take_got:
  assumes "rx_ok r" "rx_take r = (r', out)"
  shows "got r' k \<longleftrightarrow> got r k"
proof -
  have "{delivered r..<frontier r} \<subseteq> bt_keys (received r)" "delivered r \<le> frontier r"
    using assms(1) by (simp_all add: rx_ok_def)
  then show ?thesis
    unfolding got_def rx_take_spec(1) [OF assms] by (auto simp del: image_iff simp: subset_iff) (meson leI)+
qed

lemma net_ok_take:
  assumes "net_ok sealed n" "rx_take (n_rx n) = (r', out)"
  shows "net_ok sealed (n\<lparr>n_rx := r', n_taken := n_taken n @ out\<rparr>)"
proof -
  let ?r = "n_rx n"
  have ok: "rx_ok ?r" "rx_carries sealed (finished (n_tx n)) ?r" using assms(1) by (simp_all add: net_ok_def)
  note m = rx_take_spec [OF ok(1) assms(2)]
  have get: "the (bt_get (received ?r) k) = sealed ! k" if "k \<in> {delivered ?r..<frontier ?r}" for k
  proof -
    have "k \<in> bt_keys (received ?r)" using ok(1) that by (auto simp: rx_ok_def)
    then obtain d where "(k, d) \<in> set (received ?r)" by auto
    moreover from this ok have "bt_get (received ?r) k = Some d" by (simp add: bt_get_Some rx_ok_def)
    ultimately show ?thesis using ok(2) by (auto simp: rx_carries_def)
  qed
  then have "out = concat (map ((!) sealed) [delivered ?r..<frontier ?r])"
    unfolding m(3) run_bytes_def by (intro arg_cong [where f = concat] map_cong) auto
  then have taken: "n_taken n @ out = concat (take (frontier ?r) sealed)"
    using take_nth_run [of "delivered ?r" "frontier ?r" sealed] assms(1) ok
    by (simp add: net_ok_def rx_ok_def rx_carries_def)
  have got: "got ?r k" if "got r' k" for k using that take_got [OF ok(1) assms(2)] by simp
  have held: "\<forall>(k, d) \<in> set (received r'). k < length sealed \<and> d = sealed ! k"
    using ok(2) by (auto simp: rx_carries_def m(1) bt_split_off_def)
  have same: "frontier r' = frontier ?r" "fin_seq r' = fin_seq ?r" by (simp_all add: m(1))
  have "fin_agrees sealed f r'" if "fin_agrees sealed f ?r" for f
    using that got unfolding fin_agrees_def same by blast
  then have "rx_carries sealed (finished (n_tx n)) r'"
    using held ok(2) by (simp add: rx_carries_def same)
  with assms(1) m(1,2) taken show ?thesis by (simp add: net_ok_def)
qed

lemma net_step_ok:
  assumes "net_step hostile n n'" "net_ok sealed n"
  shows "\<exists>sealed'. net_ok sealed' n'"
  using assms(1)
proof cases
  case (step_push b)
  have tx: "tx_ok (n_tx n)" "tx_carries sealed (n_pushed n) (n_tx n)" using assms(2) by (simp_all add: net_ok_def)
  from push_ok [OF tx, of b] show ?thesis unfolding step_push by (blast intro: net_ok_extend [OF assms(2)])
next
  case step_flush
  have tx: "tx_ok (n_tx n)" "tx_carries sealed (n_pushed n) (n_tx n)" using assms(2) by (simp_all add: net_ok_def)
  have "n' = n\<lparr>n_tx := flush (n_tx n), n_pushed := n_pushed n\<rparr>" using step_flush by simp
  with flush_ok [OF tx] show ?thesis by (blast intro: net_ok_extend [OF assms(2)])
next
  case step_finish
  have tx: "tx_ok (n_tx n)" "tx_carries sealed (n_pushed n) (n_tx n)" using assms(2) by (simp_all add: net_ok_def)
  have "n' = n\<lparr>n_tx := finish (n_tx n), n_pushed := n_pushed n\<rparr>" using step_finish by simp
  with finish_ok [OF tx] show ?thesis by (blast intro: net_ok_extend [OF assms(2)])
next
  case (step_outbound s' out)
  have ok: "tx_ok (n_tx n)" using assms(2) by (simp add: net_ok_def)
  show ?thesis unfolding step_outbound(1)
    using net_ok_sweep [OF assms(2) outbound_ok [OF ok step_outbound(2)] outbound_spec(1) [OF step_outbound(2)]
        outbound_spec(4) [OF step_outbound(2) ok]] by blast
next
  case (step_poll s' out)
  have ok: "tx_ok (n_tx n)" using assms(2) by (simp add: net_ok_def)
  show ?thesis unfolding step_poll(1)
    using net_ok_sweep [OF assms(2) poll_new_ok [OF ok step_poll(2)] poll_new_spec(1) [OF step_poll(2)]
        poll_new_spec(4) [OF step_poll(2) ok]] by blast
next
  case (step_ack a)
  have tx: "tx_ok (n_tx n)" "tx_carries sealed (n_pushed n) (n_tx n)" using assms(2) by (simp_all add: net_ok_def)
  show ?thesis using step_ack(1) assms(2) on_ack_spec [OF tx(1), of a] on_ack_carries [OF tx, of a]
    by (intro exI [of _ sealed]) (simp add: net_ok_def)
next
  case (step_segment g r' a)
  have ok: "rx_ok (n_rx n)" "rx_carries sealed (finished (n_tx n)) (n_rx n)" using assms(2) by (simp_all add: net_ok_def)
  have wire: "g \<in> n_wire n" if "admits g (n_rx n)" using step_segment(2) that by (auto simp: admits_def)
  note R = on_segment_result [OF ok(1) step_segment(3)]
  have "rx_carries sealed (finished (n_tx n)) r'"
    using R(5)
  proof
    assume "\<exists>m. admits g (n_rx n) \<and> admit_to g m (n_rx n) = r' \<and> frontier (n_rx n) \<le> m \<and>
      {frontier (n_rx n)..<m} \<subseteq> bt_keys (admitted g (n_rx n))"
    then show ?thesis using ok wire assms(2) rx_carries_segment [OF ok] unfolding net_ok_def by blast
  qed (use ok in simp)
  with R(2,3) have "rx_ok r'" "rx_carries sealed (finished (n_tx n)) r'" "delivered r' = delivered (n_rx n)"
    by simp_all
  then show ?thesis unfolding step_segment(1) using assms(2)
    by (intro exI [of _ sealed]) (simp add: net_ok_def)
next
  case (step_take r' out)
  then show ?thesis using net_ok_take [OF assms(2)] by blast
qed

lemma net_reach_ok: "net_reach hostile n \<Longrightarrow> \<exists>sealed. net_ok sealed n"
proof (induction rule: net_reach.induct)
  case (net_start i w v)
  have "net_ok [] (net_init i w v)"
    using with_window_ok sender_open_ok with_recv_window_ok
    by (auto simp: net_ok_def net_init_def rx_carries_def fin_agrees_def with_recv_window_def receiver_new_def)
  then show ?case by blast
qed (blast intro: net_step_ok)

section \<open>Acknowledgements of an honest receiver\<close>

text \<open>
  With the receiver's own acknowledgements only, everything a sender believes received, and everything
  an acknowledgement in flight claims, has been got.
\<close>

definition believed :: "sender \<Rightarrow> nat set" where
  "believed s = {..<acked s} \<union> bt_keys (sacked s)"

definition ack_claims :: "ack \<Rightarrow> nat set" where
  "ack_claims a = {..<cumulative a} \<union> {sat_add (cumulative a) i |i. bit (sack a) i}"

definition acks_true :: "net \<Rightarrow> bool" where
  "acks_true n \<longleftrightarrow> (\<forall>k \<in> believed (n_tx n). got (n_rx n) k) \<and>
     (\<forall>a \<in> n_acks n. \<forall>k \<in> ack_claims a. got (n_rx n) k)"

lemma rx_ack_true:
  assumes "rx_ok r" "k \<in> ack_claims (rx_ack r)"
  shows "got r k"
proof (cases "k < cumulative (rx_ack r)")
  case True
  then have "k < frontier r" by (simp add: rx_ack_def Let_def)
  then show ?thesis using assms(1) by (cases "k < delivered r") (auto simp: got_def rx_ok_def)
next
  case False
  then obtain i where "k = sat_add (frontier r) i" "bit (sack (rx_ack r)) i"
    using assms(2) by (auto simp: ack_claims_def rx_ack_def Let_def)
  then show ?thesis by (simp add: got_def rx_ack_sack)
qed

lemma believed_on_ack:
  assumes "tx_ok s"
  shows "believed (on_ack a s) \<subseteq> believed s \<union> ack_claims a"
  using on_ack_spec [OF assms, of a] unfolding believed_def ack_claims_def claimed_def by blast

lemma acks_true_rx:
  assumes "acks_true n" "\<And>k. got (n_rx n) k \<Longrightarrow> got r' k" "A \<subseteq> insert (rx_ack r') (n_acks n)" "rx_ok r'"
  shows "acks_true (n\<lparr>n_rx := r', n_acks := A, n_taken := t\<rparr>)"
  using assms(1,2,3) rx_ack_true [OF assms(4)] unfolding acks_true_def by simp blast

lemma acks_true_tx:
  "acks_true n \<Longrightarrow> acked s' = acked (n_tx n) \<Longrightarrow> sacked s' = sacked (n_tx n) \<Longrightarrow>
     acks_true (n\<lparr>n_tx := s', n_wire := w, n_pushed := p\<rparr>)"
  by (simp add: acks_true_def believed_def)

lemma seal_full_acked: "acked (seal_full s) = acked s" "sacked (seal_full s) = sacked s"
  using seal_full_spec [of s] by auto

lemma app_acked [simp]:
  "acked (push b s) = acked s" "sacked (push b s) = sacked s" "acked (flush s) = acked s" "sacked (flush s) = sacked s"
  "acked (finish s) = acked s" "sacked (finish s) = sacked s"
  by (simp_all add: push_def flush_def finish_def seal_full_acked)

lemma acks_true_step:
  assumes "net_step False n n'" "net_ok sealed n" "acks_true n"
  shows "acks_true n'"
  using assms(1)
proof cases
  case (step_push b)
  then show ?thesis using acks_true_tx [OF assms(3), where s' = "push b (n_tx n)" and w = "n_wire n"] by simp
next
  case step_flush
  then show ?thesis using acks_true_tx [OF assms(3), where s' = "flush (n_tx n)" and w = "n_wire n" and p = "n_pushed n"] by simp
next
  case step_finish
  then show ?thesis using acks_true_tx [OF assms(3), where s' = "finish (n_tx n)" and w = "n_wire n" and p = "n_pushed n"] by simp
next
  case (step_outbound s' out)
  have "acked s' = acked (n_tx n)" "sacked s' = sacked (n_tx n)"
    using outbound_spec(1) [OF step_outbound(2)] by (simp_all add: tx_data_def)
  then show ?thesis using step_outbound(1) acks_true_tx [OF assms(3), where s' = s' and w = "n_wire n \<union> set out" and p = "n_pushed n"] by simp
next
  case (step_poll s' out)
  have "acked s' = acked (n_tx n)" "sacked s' = sacked (n_tx n)"
    using poll_new_spec(1) [OF step_poll(2)] by (simp_all add: tx_data_def)
  then show ?thesis using step_poll(1) acks_true_tx [OF assms(3), where s' = s' and w = "n_wire n \<union> set out" and p = "n_pushed n"] by simp
next
  case (step_ack a)
  have "tx_ok (n_tx n)" using assms(2) by (simp add: net_ok_def)
  then show ?thesis using believed_on_ack [of "n_tx n" a] step_ack assms(3)
    unfolding acks_true_def by (simp add: step_ack(1)) blast
next
  case (step_segment g r' a)
  have ok: "rx_ok (n_rx n)" using assms(2) by (simp add: net_ok_def)
  note R = on_segment_result [OF ok step_segment(3)]
  show ?thesis using step_segment(1) R(1)
      acks_true_rx [OF assms(3) R(4) _ R(2), where A = "insert a (n_acks n)" and t = "n_taken n"] by simp
next
  case (step_take r' out)
  have ok: "rx_ok (n_rx n)" using assms(2) by (simp add: net_ok_def)
  show ?thesis using step_take(1) take_got [OF ok step_take(2)]
      acks_true_rx [OF assms(3) _ _ rx_take_spec(2) [OF ok step_take(2)], where A = "n_acks n" and t = "n_taken n @ out"]
    by auto
qed

lemma honest_reach: "net_reach False n \<Longrightarrow> acks_true n \<and> (\<exists>sealed. net_ok sealed n)"
proof (induction rule: net_reach.induct)
  case (net_start i w v)
  have "acks_true (net_init i w v)"
    by (simp add: acks_true_def believed_def net_init_def with_window_def sender_open_def)
  with net_reach_ok [OF net_reach.net_start] show ?case by blast
next
  case (net_next n n')
  then show ?case using acks_true_step net_step_ok by blast
qed

section \<open>A run\<close>

text \<open>
  A two-byte message over stream 7: pushed, finished, sent, received, acknowledged. \<open>demo_sent\<close>,
  \<open>demo_got\<close> and \<open>demo_done\<close> are the states after the send, the receipt and the acknowledgement.
\<close>

definition demo_seg :: segment where
  "demo_seg = \<lparr>seg_stream_id = 7, seg_seq = 0, seg_fin = True, seg_data = [1, 2]\<rparr>"

definition demo_tx :: sender where
  "demo_tx = finish (push [1, 2] (with_window 4 (sender_open 7)))"

definition demo_rx :: receiver where
  "demo_rx = (receiver_new 7)\<lparr>recv_window := 4, received := [(0, [1, 2])], frontier := 1, fin_seq := Some 0\<rparr>"

definition demo_sent :: net where
  "demo_sent = (net_init 7 4 4)\<lparr>n_tx := fst (outbound demo_tx), n_pushed := [1, 2], n_wire := {demo_seg}\<rparr>"

definition demo_got :: net where
  "demo_got = demo_sent\<lparr>n_rx := demo_rx, n_acks := {rx_ack demo_rx}\<rparr>"

definition demo_done :: net where
  "demo_done = demo_got\<lparr>n_tx := on_ack (rx_ack demo_rx) (fst (outbound demo_tx))\<rparr>"

lemma demo_tx_eq: "demo_tx = (with_window 4 (sender_open 7))\<lparr>segments := [[1, 2]], finished := True\<rparr>"
  by (simp add: demo_tx_def finish_def push_def with_window_def sender_open_def seal_full.simps MAX_SEGMENT_def)

lemma demo_outbound: "snd (outbound demo_tx) = [demo_seg]"
  by (simp add: demo_tx_eq outbound_def window_end_def with_window_def sender_open_def tx_total_def
      sat_add_def wrap32_def clamp_def stream_consts outbound_step_def make_segment_def schedule_def
      demo_seg_def)

lemma demo_outbound_data: "base (fst (outbound demo_tx)) + length (segments (fst (outbound demo_tx))) = 1"
  using outbound_spec(1) [of demo_tx "fst (outbound demo_tx)" "snd (outbound demo_tx)"]
  by (simp add: tx_data_def demo_tx_eq with_window_def sender_open_def)

lemma demo_on_segment: "on_segment demo_seg (with_recv_window 4 (receiver_new 7)) = Some (demo_rx, rx_ack demo_rx)"
  by (simp add: on_segment_def demo_seg_def with_recv_window_def receiver_new_def clamp_def stream_consts
      sat_add_def demo_rx_def bt_get_def rx_advance.simps Let_def)

lemma demo_sent_reach: "net_reach False demo_sent"
proof -
  let ?n1 = "(net_init 7 4 4)\<lparr>n_tx := push [1, 2] (with_window 4 (sender_open 7)), n_pushed := [1, 2]\<rparr>"
  let ?n2 = "?n1\<lparr>n_tx := demo_tx\<rparr>"
  have "net_step False (net_init 7 4 4) ?n1"
    using net_step.step_push [of False "net_init 7 4 4" "[1, 2]"]
    by (simp add: net_init_def with_window_def sender_open_def)
  moreover have "net_step False ?n1 ?n2"
    using net_step.step_finish [of False ?n1] by (simp add: demo_tx_def)
  moreover have "net_step False ?n2 demo_sent"
    using net_step.step_outbound [of ?n2 "fst (outbound demo_tx)" "[demo_seg]" False] demo_outbound
    by (simp add: demo_sent_def net_init_def prod_eq_iff)
  ultimately show ?thesis using net_reach.net_start net_reach.net_next by metis
qed

lemma demo_reach: "net_reach False demo_got" "net_reach False demo_done"
proof -
  have "net_step False demo_sent demo_got"
    using net_step.step_segment [of demo_seg demo_sent demo_rx "rx_ack demo_rx" False] demo_on_segment
    by (simp add: demo_got_def demo_sent_def net_init_def)
  then show got: "net_reach False demo_got" using demo_sent_reach net_reach.net_next by blast
  have "net_step False demo_got demo_done"
    using net_step.step_ack [of "rx_ack demo_rx" demo_got False]
    by (simp add: demo_done_def demo_got_def demo_sent_def net_init_def)
  with got show "net_reach False demo_done" using net_reach.net_next by blast
qed

lemma demo_data:
  "n_pushed demo_got = [1, 2]" "n_rx demo_got = demo_rx" "n_rx demo_done = demo_rx"
  "base (n_tx demo_got) + length (segments (n_tx demo_got)) = 1"
  by (simp_all add: demo_done_def demo_got_def demo_sent_def demo_outbound_data)

section \<open>Properties of the stream\<close>

text \<open>
  C10. Reliable and in order: whatever the network loses, duplicates, delays or reorders, whatever
  acknowledgements a hostile peer forges, and however the calls interleave, the bytes read from the
  receiver are a prefix of the bytes pushed into the sender.
\<close>

theorem read_is_prefix_of_written:
  assumes "net_reach hostile n"
  shows "prefix (n_taken n) (n_pushed n)"
proof -
  obtain sealed where ok: "net_ok sealed n" using net_reach_ok [OF assms] by blast
  have "concat sealed = concat (take (delivered (n_rx n)) sealed) @ concat (drop (delivered (n_rx n)) sealed)"
    by (simp flip: concat_append)
  moreover have "n_pushed n = concat sealed @ pending (n_tx n)"
      "n_taken n = concat (take (delivered (n_rx n)) sealed)"
    using ok by (auto simp: net_ok_def tx_carries_def)
  ultimately show ?thesis by (metis append.assoc prefixI)
qed

theorem read_is_prefix_of_written_witness:
  "n_pushed demo_got = [1, 2] \<and> prefix (n_taken demo_got) (n_pushed demo_got)"
  using read_is_prefix_of_written [OF demo_reach(1)] by (simp add: demo_data)

text \<open>
  A message is delivered whole or not at all: when the receiver delivers, the payload is exactly
  what was pushed, and the sender has finished the stream (for streams of fewer than \<open>2 ^ 32\<close> segments).
\<close>

theorem delivered_is_written:
  assumes "net_reach hostile n" "base (n_tx n) + length (segments (n_tx n)) \<le> U32_MAX"
    and "deliver (n_rx n) = Some payload"
  shows "payload = n_pushed n \<and> finished (n_tx n)"
proof -
  obtain sealed where ok: "net_ok sealed n" using net_reach_ok [OF assms(1)] by blast
  then have tx: "tx_carries sealed (n_pushed n) (n_tx n)" by (simp add: net_ok_def)
  then have len: "length sealed \<le> U32_MAX" using assms(2) by (simp add: tx_carries_def)
  obtain f where f: "fin_seq (n_rx n) = Some f" "collect (received (n_rx n)) [0..<Suc f] = Some payload"
    using assms(3) by (auto simp: deliver_def bind_eq_Some_conv split: if_splits)
  have fin: "finished (n_tx n)" "Suc f = length sealed"
    using ok len f(1) by (auto simp: net_ok_def rx_carries_def fin_agrees_def)
  have col: "collect (received (n_rx n)) ks = Some p \<Longrightarrow> p = concat (map ((!) sealed) ks)" for ks p
  proof (induction ks arbitrary: p)
    case (Cons k ks)
    obtain d where "bt_get (received (n_rx n)) k = Some d" using Cons.prems by (auto simp: bind_eq_Some_conv)
    moreover from this have "d = sealed ! k"
      using ok by (auto simp: net_ok_def rx_ok_def bt_get_Some rx_carries_def)
    ultimately show ?case using Cons by (auto simp: bind_eq_Some_conv)
  qed simp
  have "payload = concat sealed" using col [OF f(2)] take_nth_run [of 0 "length sealed" sealed] fin(2) by simp
  with tx fin(1) show ?thesis by (auto simp: tx_carries_def)
qed

theorem delivered_is_written_witness: "deliver demo_rx = Some [1, 2] \<and> finished (n_tx demo_got)"
proof -
  have "deliver demo_rx = Some [1, 2]" by (simp add: deliver_def demo_rx_def receiver_new_def bt_get_def)
  then show ?thesis
    using delivered_is_written [OF demo_reach(1), of "[1, 2]"] by (simp add: demo_data stream_consts)
qed

text \<open>
  The end of the stream is the end of the data: once the receiver reports the stream finished, the
  bytes read so far and the next read together are everything that was pushed.
\<close>

theorem finished_read_is_everything:
  assumes "net_reach hostile n" "base (n_tx n) + length (segments (n_tx n)) \<le> U32_MAX"
    and "is_finished (n_rx n)" "rx_take (n_rx n) = (r', out)"
  shows "n_taken n @ out = n_pushed n"
proof -
  obtain sealed where ok: "net_ok sealed n" using net_reach_ok [OF assms(1)] by blast
  then have tx: "tx_carries sealed (n_pushed n) (n_tx n)" by (simp add: net_ok_def)
  then have len: "length sealed \<le> U32_MAX" using assms(2) by (simp add: tx_carries_def)
  obtain f where f: "fin_seq (n_rx n) = Some f" "f < frontier (n_rx n)"
    using assms(3) by (auto simp: is_finished_def split: option.splits)
  have fin: "finished (n_tx n)" "frontier (n_rx n) = length sealed"
    using ok len f by (auto simp: net_ok_def rx_carries_def fin_agrees_def)
  have "rx_ok (n_rx n)" using ok by (simp add: net_ok_def)
  then have "n_taken n @ out = concat (take (delivered r') sealed)" "delivered r' = frontier (n_rx n)"
    using net_ok_take [OF ok assms(4)] rx_take_spec(1) [of "n_rx n"] assms(4) by (auto simp: net_ok_def)
  moreover have "n_pushed n = concat sealed" using tx fin(1) by (auto simp: tx_carries_def)
  ultimately show ?thesis by (simp add: fin(2))
qed

theorem finished_read_is_everything_witness: "n_taken demo_got @ snd (rx_take demo_rx) = [1, 2]"
proof -
  have "is_finished demo_rx" by (simp add: is_finished_def demo_rx_def)
  then show ?thesis
    using finished_read_is_everything [OF demo_reach(1), of "fst (rx_take demo_rx)" "snd (rx_take demo_rx)"]
    by (simp add: demo_data stream_consts)
qed

text \<open>
  C11. Completion is truthful: with an honest receiver behind an arbitrary lossy, duplicating, reordering
  network, in a stream of at most \<open>2\<^sup>32 - 1\<close> segments (beyond that the segment count saturates), a sender that calls the
  stream complete is right, the receiver has the FIN and every segment.
\<close>

theorem complete_means_received:
  assumes "net_reach False n" "base (n_tx n) + length (segments (n_tx n)) \<le> U32_MAX" "is_complete (n_tx n)"
  shows "is_finished (n_rx n)"
proof -
  obtain sealed where ok: "net_ok sealed n" and acks: "acks_true n" using honest_reach [OF assms(1)] by blast
  then have tx: "tx_carries sealed (n_pushed n) (n_tx n)" "tx_ok (n_tx n)" by (simp_all add: net_ok_def)
  then have len: "length sealed \<le> U32_MAX" "tx_total (n_tx n) = length sealed"
    using assms(2) by (auto simp: tx_carries_def tx_total_alt)
  have fin: "finished (n_tx n)" "sealed \<noteq> []" using assms(3) tx(1) by (auto simp: is_complete_def tx_carries_def)
  have got: "got (n_rx n) k" if "k < length sealed" for k
    using acks that assms(3) len(2) by (auto simp: acks_true_def believed_def is_complete_def)
  have rx: "rx_ok (n_rx n)" "frontier (n_rx n) \<le> length sealed"
    using ok by (simp_all add: net_ok_def rx_carries_def)
  have "\<not> got (n_rx n) (frontier (n_rx n))" using rx(1) by (simp add: got_def rx_ok_def)
  then have "frontier (n_rx n) = length sealed" using got rx(2) le_eq_less_or_eq by blast
  moreover obtain k where k: "length sealed = Suc k" using fin(2) by (cases sealed) auto
  have "fin_agrees sealed True (n_rx n)" using ok fin(1) len(1) by (simp add: net_ok_def rx_carries_def)
  then have "fin_seq (n_rx n) = Some k" using got [of k] k unfolding fin_agrees_def by (metis lessI)
  ultimately show ?thesis using k by (simp add: is_finished_def)
qed

theorem complete_means_received_witness: "is_complete (n_tx demo_done) \<and> is_finished (n_rx demo_done)"
proof -
  have tx: "tx_ok (n_tx demo_got)" using net_reach_ok [OF demo_reach(1)] by (auto simp: net_ok_def)
  have eq: "n_tx demo_done = on_ack (rx_ack demo_rx) (n_tx demo_got)" by (simp add: demo_done_def demo_got_def demo_sent_def)
  have fin: "finished (n_tx demo_got)" "tx_total (n_tx demo_got) = 1"
    using outbound_spec(1) [of demo_tx "fst (outbound demo_tx)" "snd (outbound demo_tx)"] demo_outbound_data
    by (simp_all add: demo_got_def demo_sent_def tx_data_def demo_tx_eq tx_total_alt stream_consts)
  have "cumulative (rx_ack demo_rx) = 1" by (simp add: rx_ack_def demo_rx_def Let_def)
  then have complete: "is_complete (n_tx demo_done)"
    using on_ack_spec [OF tx, of "rx_ack demo_rx"] fin unfolding eq is_complete_def by simp
  have "tx_carries sealed p (n_tx demo_done) \<Longrightarrow> tx_ok (n_tx demo_done) \<Longrightarrow>
      base (n_tx demo_done) + length (segments (n_tx demo_done)) \<le> U32_MAX" for sealed p
    using on_ack_spec [OF tx, of "rx_ack demo_rx"] fin unfolding eq
    by (simp add: tx_total_alt stream_consts min_def split: if_splits)
  then have "base (n_tx demo_done) + length (segments (n_tx demo_done)) \<le> U32_MAX"
    using net_reach_ok [OF demo_reach(2)] by (auto simp: net_ok_def)
  with complete show ?thesis using complete_means_received [OF demo_reach(2)] by blast
qed

end
