(* ===== verification/Primitives_Codec.thy ===== *)
theory Primitives_Codec
  imports Btree
begin

text \<open>
  The shared ledger codec (\<open>fanos-primitives/src/codec.rs\<close>): little-endian scalars, length-prefixed
  byte strings, bounded sequences and maps. A \<open>Reader\<close> is a function from the bytes left to a value and
  the bytes left after it.
\<close>

section \<open>Readers\<close>

definition rd_byte :: "byte reader" where
  "rd_byte bs = do { (s, r) \<leftarrow> rd_take 1 bs; Some (hd s, r) }"

definition rd_u32 :: "u32 reader" where
  "rd_u32 = rd_le 4"

definition rd_u64 :: "u64 reader" where
  "rd_u64 = rd_le 8"

definition rd_var_bytes :: "byte list reader" where
  "rd_var_bytes bs = do { (len, r) \<leftarrow> rd_u32 bs; rd_take (unat len) r }"

definition rd_bounded_seq :: "nat \<Rightarrow> 'a reader \<Rightarrow> 'a list reader" where
  "rd_bounded_seq min_elem f bs = do {
     (count, r) \<leftarrow> rd_u32 bs;
     if min_elem = 0 \<or> unat count > length r div min_elem then None
     else rd_rep (unat count) f r }"

section \<open>Writers\<close>

text \<open>\<open>u32::try_from(n).unwrap_or(u32::MAX)\<close>.\<close>

definition len_u32 :: "nat \<Rightarrow> u32" where
  "len_u32 n = (if n < 2 ^ 32 then word_of_nat n else - 1)"

definition put_u32 :: "u32 \<Rightarrow> byte list" where
  "put_u32 v = put_le 4 v"

definition put_u64 :: "u64 \<Rightarrow> byte list" where
  "put_u64 v = put_le 8 v"

definition put_var_bytes :: "byte list \<Rightarrow> byte list" where
  "put_var_bytes b = put_u32 (len_u32 (length b)) @ b"

definition put_map :: "('k \<times> 'v \<Rightarrow> byte list) \<Rightarrow> ('k, 'v) btree \<Rightarrow> byte list" where
  "put_map kv m = put_u32 (len_u32 (length m)) @ concat (map kv m)"

text \<open>\<open>into_iter().collect()\<close> inserts the decoded pairs one by one.\<close>

definition bt_collect :: "('k::linorder \<times> 'v) list \<Rightarrow> ('k, 'v) btree" where
  "bt_collect es = foldl (\<lambda>m e. bt_insert (fst e) (snd e) m) [] es"

definition read_map :: "nat \<Rightarrow> ('k::linorder \<times> 'v) reader \<Rightarrow> ('k, 'v) btree reader" where
  "read_map min_elem kv bs = do { (es, r) \<leftarrow> rd_bounded_seq min_elem kv bs; Some (bt_collect es, r) }"

section \<open>Laws\<close>

lemma rd_byte_iff [codec_simps]: "rd_byte bs = Some (b, r) \<longleftrightarrow> bs = b # r"
  by (cases bs) (auto simp: rd_byte_def rd_take_def)

lemma rd_byte_Cons [simp]: "rd_byte (b # r) = Some (b, r)"
  by (simp add: rd_byte_iff)

lemma scalar_iff [codec_simps]:
  "rd_u32 bs = Some (v, r) \<longleftrightarrow> bs = put_u32 v @ r"
  "rd_u64 bs = Some (w, r) \<longleftrightarrow> bs = put_u64 w @ r"
  by (simp_all add: rd_u32_def put_u32_def rd_u64_def put_u64_def codec_simps)

lemma scalar_dec_enc [simp]: "rd_u32 (put_u32 v @ r) = Some (v, r)" "rd_u64 (put_u64 w @ r) = Some (w, r)"
  by (simp_all add: scalar_iff)

lemma scalar_lengths [simp]: "length (put_u32 v) = 4" "length (put_u64 w) = 8"
  by (simp_all add: put_u32_def put_u64_def)

lemma unat_len_u32 [simp]: "n < 2 ^ 32 \<Longrightarrow> unat (len_u32 n) = n"
  by (simp add: len_u32_def unat_of_nat take_bit_eq_mod)

lemma len_u32_unat [simp]: "len_u32 (unat v) = v"
  using unat_lt [of v] by (simp add: len_u32_def)

interpretation var_bytes: codec put_var_bytes rd_var_bytes "\<lambda>b. length b < 2 ^ 32"
proof (rule codecI)
  fix bs x r
  show "rd_var_bytes bs = Some (x, r) \<longleftrightarrow> length x < 2 ^ 32 \<and> bs = put_var_bytes x @ r"
  proof
    assume "rd_var_bytes bs = Some (x, r)"
    then obtain len where l: "bs = put_u32 len @ x @ r" "length x = unat len"
      by (auto simp: rd_var_bytes_def bind_eq_Some_conv codec_simps rd_take_iff)
    then show "length x < 2 ^ 32 \<and> bs = put_var_bytes x @ r"
      using unat_lt [of len] by (simp add: put_var_bytes_def)
  next
    assume "length x < 2 ^ 32 \<and> bs = put_var_bytes x @ r"
    then show "rd_var_bytes bs = Some (x, r)"
      by (simp add: rd_var_bytes_def put_var_bytes_def)
  qed
qed

lemma bt_insert_last:
  "\<forall>k' \<in> bt_keys m. k' < k \<Longrightarrow> bt_insert k v m = m @ [(k, v)]"
  by (induction m) auto

lemma bt_collect_sorted:
  assumes "bt_ok es"
  shows "bt_collect es = es"
  using assms
proof (induction es rule: rev_induct)
  case (snoc e es)
  then have "bt_ok es" "\<forall>k' \<in> bt_keys es. k' < fst e"
    by (auto simp: bt_ok_def sorted_wrt_append)
  with snoc.IH show ?case by (simp add: bt_collect_def bt_insert_last)
qed (simp add: bt_collect_def)

lemma bt_ok_collect: "bt_ok (bt_collect es)"
proof -
  have "bt_ok (foldl (\<lambda>m e. bt_insert (fst e) (snd e) m) m es)" if "bt_ok m" for m :: "('a, 'b) btree"
    using that by (induction es arbitrary: m) simp_all
  then show ?thesis by (simp add: bt_collect_def)
qed

lemma concat_map_length_ge:
  "(\<And>e. e \<in> set es \<Longrightarrow> k \<le> length (f e)) \<Longrightarrow> k * length es \<le> length (concat (map f es))"
  by (induction es) (auto simp: add_mono)

lemma read_map_put_map:
  assumes "codec enc dec ok" "list_all ok m" "bt_ok m" "length m < 2 ^ 32" "0 < k"
    and "\<And>e. ok e \<Longrightarrow> k \<le> length (enc e)"
  shows "read_map k dec (put_map enc m @ r) = Some (m, r)"
proof -
  have "k * length m \<le> length (concat (map enc m))"
    using assms(2,6) by (intro concat_map_length_ge) (auto simp: list_all_iff)
  then have "length m \<le> length (concat (map enc m)) div k"
    using assms(5) by (simp add: less_eq_div_iff_mult_less_eq mult.commute)
  then have le: "\<not> length m > length (concat (map enc m) @ r) div k"
    using div_le_mono [of "length (concat (map enc m))" "length (concat (map enc m) @ r)" k]
    by (simp only: length_append not_less le_add1 order.trans)
  have "rd_rep (length m) dec (concat (map enc m) @ r) = Some (m, r)"
    using codec.rep_iff [OF assms(1)] assms(2) by blast
  then show ?thesis
    using assms(3,4,5) le by (simp add: read_map_def rd_bounded_seq_def put_map_def bt_collect_sorted)
qed

end
