(* ===== verification/Fanos_Crypto.thy ===== *)
theory Fanos_Crypto
  imports Fanos_Prelude "HOL-Library.Char_ord"
begin

text \<open>
  The hybrid signature of \<open>fanos-pqcrypto/src/sig.rs\<close> and the labelled hash of
  \<open>fanos-primitives/src/hash.rs\<close>. Ed25519, ML-DSA-65 and BLAKE3 are third-party crates: they are the
  fields of the parameter record \<open>crypto\<close>, every operation that reaches them takes it as an argument,
  and what a theorem needs of them is a named hypothesis of that theorem. A signing key is modelled by
  its signing function.
\<close>

section \<open>The third-party primitives\<close>

text \<open>
  \<open>'e\<close> and \<open>'m\<close> are the verifying keys of Ed25519 and ML-DSA-65, \<open>'s\<close> the ML-DSA-65 signatures. An
  Ed25519 signature is its 64 bytes (its decoder is total and keeps them). Decoders that can refuse
  return an option. BLAKE3 has a 32-byte digest and an extendable output of any requested length.
\<close>

record ('e, 'm, 's) crypto =
  ed_verify :: "'e \<Rightarrow> byte list \<Rightarrow> byte list \<Rightarrow> bool"
  ed_vk_encode :: "'e \<Rightarrow> byte list"
  ed_vk_decode :: "byte list \<Rightarrow> 'e option"
  ml_verify :: "'m \<Rightarrow> byte list \<Rightarrow> 's \<Rightarrow> bool"
  ml_vk_encode :: "'m \<Rightarrow> byte list"
  ml_vk_decode :: "byte list \<Rightarrow> 'm"
  ml_sig_encode :: "'s \<Rightarrow> byte list"
  ml_sig_decode :: "byte list \<Rightarrow> 's option"
  blake3 :: "byte list \<Rightarrow> byte list"
  blake3_xof :: "byte list \<Rightarrow> nat \<Rightarrow> byte list"

text \<open>
  The documented serialization of the two key types: 32 and 1952 bytes, read back unchanged.
\<close>

definition vk_serialization :: "('e, 'm, 's) crypto \<Rightarrow> bool" where
  "vk_serialization C \<longleftrightarrow>
     (\<forall>k. length (ed_vk_encode C k) = 32 \<and> ed_vk_decode C (ed_vk_encode C k) = Some k) \<and>
     (\<forall>k. length (ml_vk_encode C k) = 1952 \<and> ml_vk_decode C (ml_vk_encode C k) = k)"

section \<open>Labelled hashing\<close>

definition ascii :: "string \<Rightarrow> byte list" where
  "ascii s = map (\<lambda>c. of_char c) s"

definition labeled_hasher :: "string \<Rightarrow> byte list \<Rightarrow> byte list" where
  "labeled_hasher label d = ascii label @ [0x1f] @ d"

definition hash_labeled :: "('e, 'm, 's) crypto \<Rightarrow> string \<Rightarrow> byte list \<Rightarrow> byte list" where
  "hash_labeled C label d = blake3 C (labeled_hasher label d)"

definition hash_xof :: "('e, 'm, 's) crypto \<Rightarrow> string \<Rightarrow> byte list \<Rightarrow> nat \<Rightarrow> byte list" where
  "hash_xof C label d n = blake3_xof C (labeled_hasher label d) n"

section \<open>Hybrid keys and signatures\<close>

definition ED25519_SIG_LEN :: nat where "ED25519_SIG_LEN = 64"
definition MLDSA65_SIG_LEN :: nat where "MLDSA65_SIG_LEN = 3309"
definition HYBRID_SIG_LEN :: nat where "HYBRID_SIG_LEN = ED25519_SIG_LEN + MLDSA65_SIG_LEN"
definition ED25519_VK_LEN :: nat where "ED25519_VK_LEN = 32"
definition MLDSA65_VK_LEN :: nat where "MLDSA65_VK_LEN = 1952"
definition CIPHERTEXT_LEN :: nat where "CIPHERTEXT_LEN = 32 + 1088"
definition HYBRID_VK_LEN :: nat where "HYBRID_VK_LEN = ED25519_VK_LEN + MLDSA65_VK_LEN"

lemmas crypto_lens = ED25519_SIG_LEN_def MLDSA65_SIG_LEN_def HYBRID_SIG_LEN_def
  ED25519_VK_LEN_def MLDSA65_VK_LEN_def HYBRID_VK_LEN_def

record 's hybrid_sig_secret =
  hs_ed :: "byte list \<Rightarrow> byte list"
  hs_ml :: "byte list \<Rightarrow> 's"

record ('e, 'm) hybrid_verifier =
  hv_ed :: 'e
  hv_ml :: 'm

record 's hybrid_signature =
  hsig_ed :: "byte list"
  hsig_ml :: 's

definition hybrid_sign :: "'s hybrid_sig_secret \<Rightarrow> byte list \<Rightarrow> 's hybrid_signature" where
  "hybrid_sign sk m = \<lparr>hsig_ed = hs_ed sk m, hsig_ml = hs_ml sk m\<rparr>"

definition hsig_to_bytes :: "('e, 'm, 's) crypto \<Rightarrow> 's hybrid_signature \<Rightarrow> byte list" where
  "hsig_to_bytes C s = hsig_ed s @ ml_sig_encode C (hsig_ml s)"

definition hsig_from_bytes :: "('e, 'm, 's) crypto \<Rightarrow> byte list \<Rightarrow> 's hybrid_signature option" where
  "hsig_from_bytes C bs =
     (if length bs \<noteq> HYBRID_SIG_LEN then None
      else case ml_sig_decode C (drop ED25519_SIG_LEN bs) of
             None \<Rightarrow> None
           | Some ml \<Rightarrow> Some \<lparr>hsig_ed = take ED25519_SIG_LEN bs, hsig_ml = ml\<rparr>)"

definition hybrid_verify ::
    "('e, 'm, 's) crypto \<Rightarrow> ('e, 'm) hybrid_verifier \<Rightarrow> byte list \<Rightarrow> 's hybrid_signature \<Rightarrow> bool" where
  "hybrid_verify C k m s \<longleftrightarrow> ed_verify C (hv_ed k) m (hsig_ed s) \<and> ml_verify C (hv_ml k) m (hsig_ml s)"

definition vk_encode :: "('e, 'm, 's) crypto \<Rightarrow> ('e, 'm) hybrid_verifier \<Rightarrow> byte list" where
  "vk_encode C k = ed_vk_encode C (hv_ed k) @ ml_vk_encode C (hv_ml k)"

definition vk_decode :: "('e, 'm, 's) crypto \<Rightarrow> byte list \<Rightarrow> ('e, 'm) hybrid_verifier option" where
  "vk_decode C bs =
     (if length bs \<noteq> HYBRID_VK_LEN then None
      else case ed_vk_decode C (take ED25519_VK_LEN bs) of
             None \<Rightarrow> None
           | Some ed \<Rightarrow> Some \<lparr>hv_ed = ed, hv_ml = ml_vk_decode C (drop ED25519_VK_LEN bs)\<rparr>)"

text \<open>
  The pattern every signed object of the sources repeats: decode the stored signature bytes, then
  verify them over the object's canonical content.
\<close>

definition sig_bytes_verify ::
    "('e, 'm, 's) crypto \<Rightarrow> ('e, 'm) hybrid_verifier \<Rightarrow> byte list \<Rightarrow> byte list \<Rightarrow> bool" where
  "sig_bytes_verify C k m sig =
     (case hsig_from_bytes C sig of None \<Rightarrow> False | Some s \<Rightarrow> hybrid_verify C k m s)"

lemma length_vk_encode [simp]: "vk_serialization C \<Longrightarrow> length (vk_encode C k) = HYBRID_VK_LEN"
  by (simp add: vk_serialization_def vk_encode_def crypto_lens)

lemma vk_decode_encode [simp]: "vk_serialization C \<Longrightarrow> vk_decode C (vk_encode C k) = Some k"
  by (simp add: vk_decode_def vk_encode_def crypto_lens vk_serialization_def)

lemma sig_bytes_verify_length: "sig_bytes_verify C k m sig \<Longrightarrow> length sig = HYBRID_SIG_LEN"
  by (auto simp: sig_bytes_verify_def hsig_from_bytes_def split: if_splits)

section \<open>A concrete instance\<close>

text \<open>
  Toy primitives on which the hypotheses of the theorems hold and witnesses evaluate: keys are byte
  strings carried in their encoding, a signature verifies when its bytes start with the key's first
  byte, and the hash keeps the data behind the label, cut to 32 bytes.
\<close>

definition toy_crypto :: "(byte, byte, byte list) crypto" where
  "toy_crypto = \<lparr>
     ed_verify = (\<lambda>k m s. take 1 s = [k]),
     ed_vk_encode = (\<lambda>k. k # replicate 31 0),
     ed_vk_decode = (\<lambda>bs. case bs of [] \<Rightarrow> None | b # _ \<Rightarrow> Some b),
     ml_verify = (\<lambda>k m s. True),
     ml_vk_encode = (\<lambda>k. k # replicate 1951 0),
     ml_vk_decode = (\<lambda>bs. case bs of [] \<Rightarrow> 0 | b # _ \<Rightarrow> b),
     ml_sig_encode = (\<lambda>s. s),
     ml_sig_decode = (\<lambda>s. Some s),
     blake3 = (\<lambda>bs. take 32 (drop 1 (dropWhile (\<lambda>b. b \<noteq> 0x1f) bs) @ replicate 32 0)),
     blake3_xof = (\<lambda>bs n. replicate n 2)\<rparr>"

definition toy_key :: "byte \<Rightarrow> (byte, byte) hybrid_verifier" where
  "toy_key i = \<lparr>hv_ed = i, hv_ml = 0\<rparr>"

definition toy_sig :: "byte \<Rightarrow> byte list" where
  "toy_sig i = i # replicate 3372 0"

lemma toy_serialization: "vk_serialization toy_crypto"
  by (simp add: vk_serialization_def toy_crypto_def)

lemma toy_sig_verify [simp]: "sig_bytes_verify toy_crypto (toy_key i) m (toy_sig j) \<longleftrightarrow> i = j"
  by (auto simp: sig_bytes_verify_def hsig_from_bytes_def hybrid_verify_def toy_crypto_def toy_key_def
      toy_sig_def crypto_lens)

end
