(* ===== verification/Dromos_Token.thy ===== *)
theory Dromos_Token
  imports Btree Fanos_Crypto
begin

text \<open>
  The authenticated token ledger of DROMOS (\<open>fanos-dromos/src/token.rs\<close>): signed transfers, the
  proof-of-retrievability authorisation, balances and nonces, the state root and the state-sync
  snapshot. Amounts are 64-bit words. The theorems: a settled transfer moves exactly its amount and
  conserves the supply, a settled transfer is never settled again, the snapshot restores every balance
  and nonce, and the restored ledger has the same state root exactly when no account is inert.
\<close>

section \<open>Accounts and transfers\<close>

type_synonym account = "byte list"

definition ACCOUNT_LABEL :: string where "ACCOUNT_LABEL = ''FANOS-dromos-v1/account-id''"
definition TRANSFER_LABEL :: string where "TRANSFER_LABEL = ''FANOS-dromos-v1/transfer''"
definition ROOT_LABEL :: string where "ROOT_LABEL = ''FANOS-dromos-v1/token-root''"
definition PROVER_AUTH_LABEL :: string where "PROVER_AUTH_LABEL = ''FANOS-v1/dromos-prover-auth''"

definition account_id :: "('e, 'm, 's) crypto \<Rightarrow> ('e, 'm) hybrid_verifier \<Rightarrow> account" where
  "account_id C k = hash_labeled C ACCOUNT_LABEL (vk_encode C k)"

record transfer =
  t_from :: account
  t_to :: account
  t_amount :: u64
  t_nonce :: u64

definition signable :: "transfer \<Rightarrow> byte list" where
  "signable t = ascii TRANSFER_LABEL @ t_from t @ t_to t @ put_le 8 (t_amount t) @ put_le 8 (t_nonce t)"

record ('e, 'm) signed_transfer =
  st_transfer :: transfer
  st_from_key :: "('e, 'm) hybrid_verifier"
  st_sig :: "byte list"

definition WIRE_LEN :: nat where "WIRE_LEN = 80 + HYBRID_VK_LEN + HYBRID_SIG_LEN"

definition st_sign ::
    "('e, 'm, 's) crypto \<Rightarrow> transfer \<Rightarrow> 's hybrid_sig_secret \<Rightarrow> ('e, 'm) hybrid_verifier \<Rightarrow> ('e, 'm) signed_transfer" where
  "st_sign C t sk k = \<lparr>st_transfer = t, st_from_key = k, st_sig = hsig_to_bytes C (hybrid_sign sk (signable t))\<rparr>"

definition st_verify :: "('e, 'm, 's) crypto \<Rightarrow> ('e, 'm) signed_transfer \<Rightarrow> bool" where
  "st_verify C st =
     (if account_id C (st_from_key st) \<noteq> t_from (st_transfer st) then False
      else sig_bytes_verify C (st_from_key st) (signable (st_transfer st)) (st_sig st))"

definition st_to_bytes :: "('e, 'm, 's) crypto \<Rightarrow> ('e, 'm) signed_transfer \<Rightarrow> byte list" where
  "st_to_bytes C st =
     (let t = st_transfer st
      in t_from t @ t_to t @ put_le 8 (t_amount t) @ put_le 8 (t_nonce t) @ vk_encode C (st_from_key st) @ st_sig st)"

definition st_from_bytes :: "('e, 'm, 's) crypto \<Rightarrow> byte list \<Rightarrow> ('e, 'm) signed_transfer option" where
  "st_from_bytes C bs =
     (if length bs \<noteq> 80 + HYBRID_VK_LEN + HYBRID_SIG_LEN then None
      else do {
        (f, r) \<leftarrow> rd_take 32 bs;
        (t, r) \<leftarrow> rd_take 32 r;
        (a, r) \<leftarrow> rd_le 8 r;
        (n, r) \<leftarrow> rd_le 8 r;
        (kb, sig) \<leftarrow> rd_take HYBRID_VK_LEN r;
        k \<leftarrow> vk_decode C kb;
        Some \<lparr>st_transfer = \<lparr>t_from = f, t_to = t, t_amount = a, t_nonce = n\<rparr>, st_from_key = k, st_sig = sig\<rparr> })"

text \<open>The per-audit authorisation of a storage provider.\<close>

record ('e, 'm) prover_auth =
  pa_provider_key :: "('e, 'm) hybrid_verifier"
  pa_sig :: "byte list"

definition challenge :: "('e, 'm, 's) crypto \<Rightarrow> byte list \<Rightarrow> byte list \<Rightarrow> byte list" where
  "challenge C deal_id response =
     ascii PROVER_AUTH_LABEL @ deal_id @ hash_labeled C PROVER_AUTH_LABEL response"

definition pa_sign ::
    "('e, 'm, 's) crypto \<Rightarrow> byte list \<Rightarrow> byte list \<Rightarrow> 's hybrid_sig_secret \<Rightarrow> ('e, 'm) hybrid_verifier \<Rightarrow>
     ('e, 'm) prover_auth" where
  "pa_sign C deal_id response sk k =
     \<lparr>pa_provider_key = k, pa_sig = hsig_to_bytes C (hybrid_sign sk (challenge C deal_id response))\<rparr>"

definition pa_verify ::
    "('e, 'm, 's) crypto \<Rightarrow> ('e, 'm) prover_auth \<Rightarrow> byte list \<Rightarrow> byte list \<Rightarrow> account \<Rightarrow> bool" where
  "pa_verify C pa deal_id response provider =
     (if account_id C (pa_provider_key pa) \<noteq> provider then False
      else sig_bytes_verify C (pa_provider_key pa) (challenge C deal_id response) (pa_sig pa))"

definition pa_to_bytes :: "('e, 'm, 's) crypto \<Rightarrow> ('e, 'm) prover_auth \<Rightarrow> byte list" where
  "pa_to_bytes C pa = vk_encode C (pa_provider_key pa) @ pa_sig pa"

definition pa_from_bytes :: "('e, 'm, 's) crypto \<Rightarrow> byte list \<Rightarrow> ('e, 'm) prover_auth option" where
  "pa_from_bytes C bs =
     (if length bs \<noteq> HYBRID_VK_LEN + HYBRID_SIG_LEN then None
      else do {
        (kb, sig) \<leftarrow> rd_take HYBRID_VK_LEN bs;
        k \<leftarrow> vk_decode C kb;
        Some \<lparr>pa_provider_key = k, pa_sig = sig\<rparr> })"

section \<open>The ledger\<close>

datatype token_error = Unauthorized | BadNonce | NonceAhead | InsufficientFunds

record token_ledger =
  tl_balances :: "(account, u64) btree"
  tl_nonces :: "(account, u64) btree"

definition tl_new :: token_ledger where
  "tl_new = \<lparr>tl_balances = [], tl_nonces = []\<rparr>"

definition bt_get0 :: "('k, u64) btree \<Rightarrow> 'k \<Rightarrow> u64" where
  "bt_get0 m k = (case bt_get m k of None \<Rightarrow> 0 | Some v \<Rightarrow> v)"

definition balance :: "token_ledger \<Rightarrow> account \<Rightarrow> u64" where
  "balance L a = bt_get0 (tl_balances L) a"

definition nonce :: "token_ledger \<Rightarrow> account \<Rightarrow> u64" where
  "nonce L a = bt_get0 (tl_nonces L) a"

text \<open>\<open>entry(account).or_insert(0)\<close>, then a saturating addition.\<close>

definition credit :: "token_ledger \<Rightarrow> account \<Rightarrow> u64 \<Rightarrow> token_ledger" where
  "credit L a amount =
     L\<lparr>tl_balances := bt_insert a (saturating_add (bt_get0 (tl_balances L) a) amount) (tl_balances L)\<rparr>"

text \<open>\<open>if let Some(bal) = balances.get_mut(from) { *bal -= amount }\<close>.\<close>

definition debit :: "token_ledger \<Rightarrow> account \<Rightarrow> u64 \<Rightarrow> token_ledger" where
  "debit L a amount =
     (case bt_get (tl_balances L) a of
        None \<Rightarrow> L
      | Some b \<Rightarrow> L\<lparr>tl_balances := bt_insert a (b - amount) (tl_balances L)\<rparr>)"

text \<open>\<open>*nonces.entry(account).or_insert(0) += 1\<close>, which wraps at 64 bits.\<close>

definition bump_nonce :: "token_ledger \<Rightarrow> account \<Rightarrow> token_ledger" where
  "bump_nonce L a = L\<lparr>tl_nonces := bt_insert a (bt_get0 (tl_nonces L) a + 1) (tl_nonces L)\<rparr>"

definition apply_with_verdict ::
    "token_ledger \<Rightarrow> ('e, 'm) signed_transfer \<Rightarrow> bool \<Rightarrow> token_ledger \<times> (token_error + unit)" where
  "apply_with_verdict L st sig_ok =
     (if \<not> sig_ok then (L, Inl Unauthorized)
      else let t = st_transfer st; expected = nonce L (t_from t)
           in if t_nonce t > expected then (L, Inl NonceAhead)
              else if t_nonce t \<noteq> expected then (L, Inl BadNonce)
              else if balance L (t_from t) < t_amount t then (L, Inl InsufficientFunds)
              else (bump_nonce (credit (debit L (t_from t) (t_amount t)) (t_to t) (t_amount t)) (t_from t), Inr ()))"

definition tl_apply ::
    "('e, 'm, 's) crypto \<Rightarrow> token_ledger \<Rightarrow> ('e, 'm) signed_transfer \<Rightarrow> token_ledger \<times> (token_error + unit)" where
  "tl_apply C L st = apply_with_verdict L st (st_verify C st)"

definition set_balance :: "token_ledger \<Rightarrow> account \<Rightarrow> u64 \<Rightarrow> token_ledger" where
  "set_balance L a amount = L\<lparr>tl_balances := bt_insert a amount (tl_balances L)\<rparr>"

definition is_premature :: "token_ledger \<Rightarrow> ('e, 'm) signed_transfer \<Rightarrow> bool" where
  "is_premature L st \<longleftrightarrow> t_nonce (st_transfer st) > nonce L (t_from (st_transfer st))"

definition move_system :: "token_ledger \<Rightarrow> account \<Rightarrow> account \<Rightarrow> u64 \<Rightarrow> token_ledger \<times> bool" where
  "move_system L f t amount =
     (if balance L f < amount then (L, False) else (credit (debit L f amount) t amount, True))"

definition consume_nonce :: "token_ledger \<Rightarrow> account \<Rightarrow> u64 \<Rightarrow> token_ledger \<times> bool" where
  "consume_nonce L a n = (if nonce L a \<noteq> n then (L, False) else (bump_nonce L a, True))"

text \<open>The \<open>BTreeSet\<close> union of the two key sets, in order.\<close>

definition tl_accounts :: "token_ledger \<Rightarrow> account list" where
  "tl_accounts L = sort_dedup (map fst (tl_balances L) @ map fst (tl_nonces L))"

definition put_account :: "account \<times> u64 \<times> u64 \<Rightarrow> byte list" where
  "put_account e = (case e of (a, b, n) \<Rightarrow> a @ put_le 8 b @ put_le 8 n)"

definition tl_entries :: "token_ledger \<Rightarrow> (account \<times> u64 \<times> u64) list" where
  "tl_entries L = map (\<lambda>a. (a, balance L a, nonce L a)) (tl_accounts L)"

text \<open>The bytes \<open>state_root\<close> hashes.\<close>

definition root_preimage :: "token_ledger \<Rightarrow> byte list" where
  "root_preimage L = concat (map put_account (tl_entries L))"

definition tl_state_root :: "('e, 'm, 's) crypto \<Rightarrow> token_ledger \<Rightarrow> byte list" where
  "tl_state_root C L = hash_labeled C ROOT_LABEL (root_preimage L)"

definition tl_to_bytes :: "token_ledger \<Rightarrow> byte list" where
  "tl_to_bytes L = put_le 4 (word_of_nat (length (tl_accounts L)) :: u32) @ concat (map put_account (tl_entries L))"

definition rd_account :: "(account \<times> u64 \<times> u64) reader" where
  "rd_account bs = do {
     (a, r) \<leftarrow> rd_take 32 bs;
     (b, r) \<leftarrow> rd_le 8 r;
     (n, r) \<leftarrow> rd_le 8 r;
     Some ((a, b, n), r) }"

text \<open>One iteration of the loop of \<open>from_bytes\<close>: only non-zero values are stored.\<close>

definition restore_entry :: "token_ledger \<Rightarrow> account \<times> u64 \<times> u64 \<Rightarrow> token_ledger" where
  "restore_entry L e =
     (case e of (a, b, n) \<Rightarrow>
        \<lparr>tl_balances = (if b > 0 then bt_insert a b (tl_balances L) else tl_balances L),
         tl_nonces = (if n > 0 then bt_insert a n (tl_nonces L) else tl_nonces L)\<rparr>)"

definition tl_from_bytes :: "byte list \<Rightarrow> token_ledger option" where
  "tl_from_bytes bs = do {
     (count, r) \<leftarrow> (rd_le 4 :: u32 reader) bs;
     if unat count > (length bs - 4) div 48 then None
     else do {
       (es, r) \<leftarrow> rd_rep (unat count) rd_account r;
       if r \<noteq> [] then None else Some (foldl restore_entry tl_new es) } }"

section \<open>Sums over an ordered map\<close>

definition bt_sum :: "('k, u64) btree \<Rightarrow> nat" where
  "bt_sum m = sum_list (map (\<lambda>e. unat (snd e)) m)"

lemma bt_get0_insert [simp]: "bt_get0 (bt_insert k v m) k' = (if k' = k then v else bt_get0 m k')"
  by (simp add: bt_get0_def)

lemma bt_get0_remove [simp]: "bt_get0 (bt_remove k m) k' = (if k' = k then 0 else bt_get0 m k')"
  for k :: "'k::linorder"
  by (simp add: bt_get0_def)

lemma bt_get0_notin: "k \<notin> bt_keys m \<Longrightarrow> bt_get0 m k = 0"
  by (simp add: bt_get0_def bt_get_None [THEN iffD2])

lemma bt_ok_Cons: "bt_ok (e # m) \<longleftrightarrow> (\<forall>k \<in> bt_keys m. fst e < k) \<and> bt_ok m"
  by (simp add: bt_ok_def)

lemma bt_get0_Cons: "bt_get0 (e # m) k = (if k = fst e then snd e else bt_get0 m k)"
  by (simp add: bt_get0_def bt_get_def split: prod.split)

lemma bt_sum_insert: "bt_ok m \<Longrightarrow> bt_sum (bt_insert k v m) + unat (bt_get0 m k) = bt_sum m + unat v"
proof (induction m)
  case (Cons e m)
  then have "bt_get0 m k = 0" if "k \<le> fst e"
    using that by (intro bt_get0_notin) (auto simp: bt_ok_Cons)
  with Cons show ?case by (auto simp: bt_sum_def bt_ok_Cons bt_get0_Cons)
qed (simp add: bt_sum_def bt_get0_def)

lemma bt_sum_remove: "bt_ok m \<Longrightarrow> bt_sum (bt_remove k m) + unat (bt_get0 m k) = bt_sum m"
proof (induction m)
  case (Cons e m)
  then have "bt_get0 m (fst e) = 0" by (intro bt_get0_notin) (auto simp: bt_ok_Cons)
  with Cons show ?case by (auto simp: bt_sum_def bt_ok_Cons bt_get0_Cons bt_remove_def)
qed (simp add: bt_sum_def bt_get0_def bt_remove_def)

lemma bt_get0_le_sum: "bt_ok m \<Longrightarrow> unat (bt_get0 m k) \<le> bt_sum m"
  using bt_sum_remove [of m k] by linarith

lemma bt_get0_pair_le_sum:
  assumes "bt_ok m" "k \<noteq> k'"
  shows "unat (bt_get0 m k) + unat (bt_get0 m k') \<le> bt_sum m"
  using bt_sum_remove [OF assms(1), of k] bt_get0_le_sum [of "bt_remove k m" k'] assms bt.inv_remove [OF assms(1)]
  by simp

section \<open>What the operations do\<close>

definition tl_supply :: "token_ledger \<Rightarrow> nat" where
  "tl_supply L = bt_sum (tl_balances L)"

definition ledger_ok :: "token_ledger \<Rightarrow> bool" where
  "ledger_ok L \<longleftrightarrow> bt_ok (tl_balances L) \<and> bt_ok (tl_nonces L)"

lemma ledger_ok_ops [simp, intro]:
  "ledger_ok tl_new"
  "ledger_ok L \<Longrightarrow> ledger_ok (credit L a x)"
  "ledger_ok L \<Longrightarrow> ledger_ok (debit L a x)"
  "ledger_ok L \<Longrightarrow> ledger_ok (bump_nonce L a)"
  "ledger_ok L \<Longrightarrow> ledger_ok (set_balance L a x)"
  by (auto simp: ledger_ok_def tl_new_def credit_def debit_def bump_nonce_def set_balance_def split: option.split)

lemma nonce_ops [simp]:
  "nonce (credit L a x) b = nonce L b"
  "nonce (debit L a x) b = nonce L b"
  "nonce (bump_nonce L a) b = (if b = a then nonce L a + 1 else nonce L b)"
  by (auto simp: nonce_def credit_def debit_def bump_nonce_def split: option.split)

lemma balance_bump_nonce [simp]: "balance (bump_nonce L a) b = balance L b" "tl_supply (bump_nonce L a) = tl_supply L"
  by (simp_all add: balance_def tl_supply_def bump_nonce_def)

lemma balance_le_supply: "ledger_ok L \<Longrightarrow> unat (balance L a) \<le> tl_supply L"
  by (simp add: ledger_ok_def balance_def tl_supply_def bt_get0_le_sum)

lemma debit_effect:
  assumes "ledger_ok L" "x \<le> balance L a"
  shows "unat (balance (debit L a x) b) = (if b = a then unat (balance L a) - unat x else unat (balance L b))"
    and "tl_supply (debit L a x) + unat x = tl_supply L"
proof -
  have x: "unat (balance L a - x) = unat (balance L a) - unat x" using assms(2) by (rule unat_sub)
  show "unat (balance (debit L a x) b) = (if b = a then unat (balance L a) - unat x else unat (balance L b))"
  proof (cases "bt_get (tl_balances L) a")
    case None
    then show ?thesis using assms(2) by (auto simp: debit_def balance_def bt_get0_def)
  next
    case (Some v)
    then show ?thesis using x by (auto simp: debit_def balance_def bt_get0_def)
  qed
  show "tl_supply (debit L a x) + unat x = tl_supply L"
  proof (cases "bt_get (tl_balances L) a")
    case None
    then show ?thesis using assms(2) by (auto simp: debit_def tl_supply_def balance_def bt_get0_def)
  next
    case (Some v)
    then have v: "balance L a = v" by (simp add: balance_def bt_get0_def)
    have "bt_sum (bt_insert a (v - x) (tl_balances L)) + unat v = tl_supply L + unat (v - x)"
      using bt_sum_insert [of "tl_balances L" a "v - x"] assms(1) Some
      by (simp add: ledger_ok_def tl_supply_def bt_get0_def)
    moreover have "unat x \<le> unat v" using assms(2) v by (simp add: word_le_nat_alt)
    ultimately show ?thesis using Some x v by (simp add: debit_def tl_supply_def)
  qed
qed

lemma credit_effect:
  assumes "ledger_ok L" "tl_supply L + unat x < 2 ^ 64"
  shows "unat (balance (credit L a x) b) = (if b = a then unat (balance L a) + unat x else unat (balance L b))"
    and "tl_supply (credit L a x) = tl_supply L + unat x"
proof -
  have "unat (bt_get0 (tl_balances L) a) + unat x < 2 ^ 64"
    using balance_le_supply [OF assms(1), of a] assms(2) by (simp add: balance_def)
  then have sat: "unat (saturating_add (bt_get0 (tl_balances L) a) x) = unat (bt_get0 (tl_balances L) a) + unat x"
    by (simp add: unat_saturating_add)
  show "unat (balance (credit L a x) b) = (if b = a then unat (balance L a) + unat x else unat (balance L b))"
    using sat by (simp add: credit_def balance_def)
  show "tl_supply (credit L a x) = tl_supply L + unat x"
    using bt_sum_insert [of "tl_balances L" a "saturating_add (bt_get0 (tl_balances L) a) x"] assms(1) sat
    by (simp add: credit_def tl_supply_def ledger_ok_def)
qed

text \<open>A debit followed by a credit of the same amount: the move every settlement makes.\<close>

definition after_move :: "(account \<Rightarrow> u64) \<Rightarrow> account \<Rightarrow> account \<Rightarrow> u64 \<Rightarrow> account \<Rightarrow> nat" where
  "after_move bal f t x a = unat (bal a) - (if a = f then unat x else 0) + (if a = t then unat x else 0)"

lemma move_effect:
  assumes "ledger_ok L" "tl_supply L < 2 ^ 64" "x \<le> balance L f"
  shows "unat (balance (credit (debit L f x) t x) a) = after_move (balance L) f t x a"
    and "tl_supply (credit (debit L f x) t x) = tl_supply L"
proof -
  note d = debit_effect [OF assms(1,3)]
  have sup: "tl_supply (debit L f x) + unat x < 2 ^ 64" using d(2) assms(2) by linarith
  have ok: "ledger_ok (debit L f x)" using assms(1) by simp
  show "tl_supply (credit (debit L f x) t x) = tl_supply L" using credit_effect(2) [OF ok sup] d(2) by simp
  have "unat x \<le> unat (balance L f)" using assms(3) by (simp add: word_le_nat_alt)
  then show "unat (balance (credit (debit L f x) t x) a) = after_move (balance L) f t x a"
    using credit_effect(1) [OF ok sup, of t a] d(1) by (auto simp: after_move_def)
qed

lemma move_system_effect:
  assumes "ledger_ok L" "tl_supply L < 2 ^ 64" "x \<le> balance L f"
  shows "snd (move_system L f t x)" "ledger_ok (fst (move_system L f t x))"
    "tl_supply (fst (move_system L f t x)) = tl_supply L"
    "unat (balance (fst (move_system L f t x)) a) = after_move (balance L) f t x a"
    "nonce (fst (move_system L f t x)) a = nonce L a"
  using move_effect [OF assms] assms(1,3) by (auto simp: move_system_def not_less)

section \<open>Transfers\<close>

definition settled :: "token_ledger \<times> (token_error + unit) \<Rightarrow> bool" where
  "settled r \<longleftrightarrow> snd r = Inr ()"

lemma apply_error_unchanged: "\<not> settled (apply_with_verdict L st v) \<Longrightarrow> fst (apply_with_verdict L st v) = L"
  by (auto simp: settled_def apply_with_verdict_def Let_def)

lemma settled_apply:
  "settled (apply_with_verdict L st v) \<longleftrightarrow>
     v \<and> t_nonce (st_transfer st) = nonce L (t_from (st_transfer st)) \<and>
     t_amount (st_transfer st) \<le> balance L (t_from (st_transfer st))"
  by (auto simp: settled_def apply_with_verdict_def Let_def)

lemma apply_settled:
  assumes "settled (apply_with_verdict L st v)"
  shows "fst (apply_with_verdict L st v) =
    bump_nonce (credit (debit L (t_from (st_transfer st)) (t_amount (st_transfer st)))
      (t_to (st_transfer st)) (t_amount (st_transfer st))) (t_from (st_transfer st))"
  using assms by (auto simp: settled_def apply_with_verdict_def Let_def split: if_splits)

lemma ledger_ok_apply [simp, intro]: "ledger_ok L \<Longrightarrow> ledger_ok (fst (apply_with_verdict L st v))"
  by (simp add: apply_with_verdict_def Let_def)

lemma apply_effect:
  assumes "ledger_ok L" "tl_supply L < 2 ^ 64"
  shows "tl_supply (fst (apply_with_verdict L st v)) = tl_supply L"
    and "settled (apply_with_verdict L st v) \<Longrightarrow>
      unat (balance (fst (apply_with_verdict L st v)) a) =
        after_move (balance L) (t_from (st_transfer st)) (t_to (st_transfer st)) (t_amount (st_transfer st)) a"
    and "settled (apply_with_verdict L st v) \<Longrightarrow>
      nonce (fst (apply_with_verdict L st v)) a = nonce L a + (if a = t_from (st_transfer st) then 1 else 0)"
proof -
  show bal: "unat (balance (fst (apply_with_verdict L st v)) a) =
        after_move (balance L) (t_from (st_transfer st)) (t_to (st_transfer st)) (t_amount (st_transfer st)) a"
    if "settled (apply_with_verdict L st v)"
    using move_effect(1) [OF assms] that by (simp add: apply_settled settled_apply)
  show "nonce (fst (apply_with_verdict L st v)) a = nonce L a + (if a = t_from (st_transfer st) then 1 else 0)"
    if "settled (apply_with_verdict L st v)"
    using that by (simp add: apply_settled)
  show "tl_supply (fst (apply_with_verdict L st v)) = tl_supply L"
    using move_effect(2) [OF assms] by (cases "settled (apply_with_verdict L st v)")
      (simp_all add: apply_settled settled_apply apply_error_unchanged)
qed

text \<open>
  On a ledger whose supply is below \<open>2\<^sup>64\<close> (so that no credit saturates), a transfer is settled exactly when its key hashes to the sender's account, its signature
  verifies over its content, its nonce is the sender's next one and the sender can pay. Settling it
  moves exactly the amount (also when sender and recipient coincide), advances only the sender's nonce,
  and leaves the total supply as it was; a refused transfer changes nothing.
\<close>

theorem transfer_moves_exactly:
  assumes "ledger_ok L" "tl_supply L < 2 ^ 64" "tl_apply C L st = (L', r)" "st_transfer st = t"
  shows "(r = Inr () \<longleftrightarrow>
            account_id C (st_from_key st) = t_from t \<and> sig_bytes_verify C (st_from_key st) (signable t) (st_sig st) \<and>
            t_nonce t = nonce L (t_from t) \<and> t_amount t \<le> balance L (t_from t)) \<and>
         (r = Inr () \<longrightarrow>
            (\<forall>a. unat (balance L' a) = after_move (balance L) (t_from t) (t_to t) (t_amount t) a) \<and>
            (\<forall>a. nonce L' a = nonce L a + (if a = t_from t then 1 else 0))) \<and>
         (r \<noteq> Inr () \<longrightarrow> L' = L) \<and> tl_supply L' = tl_supply L"
proof -
  have r: "r = Inr () \<longleftrightarrow> settled (apply_with_verdict L st (st_verify C st))"
    and L': "L' = fst (apply_with_verdict L st (st_verify C st))"
    using assms(3) by (simp_all add: tl_apply_def settled_def)
  show ?thesis
    unfolding r unfolding L' using apply_effect [OF assms(1,2), of st "st_verify C st"] assms(4)
    by (auto simp: settled_apply st_verify_def apply_error_unchanged)
qed

definition toy_account :: "byte \<Rightarrow> account" where
  "toy_account i = i # replicate 31 0"

lemma toy_account_id [simp]: "account_id toy_crypto (toy_key i) = toy_account i"
  by (simp add: account_id_def hash_labeled_def labeled_hasher_def ascii_def ACCOUNT_LABEL_def vk_encode_def
      toy_crypto_def toy_key_def toy_account_def)

lemma toy_account_eq [simp]: "toy_account i = toy_account j \<longleftrightarrow> i = j"
  by (simp add: toy_account_def)

definition toy_transfer :: "byte \<Rightarrow> account \<Rightarrow> u64 \<Rightarrow> u64 \<Rightarrow> (byte, byte) signed_transfer" where
  "toy_transfer i a x n =
     \<lparr>st_transfer = \<lparr>t_from = toy_account i, t_to = a, t_amount = x, t_nonce = n\<rparr>,
      st_from_key = toy_key i, st_sig = toy_sig i\<rparr>"

definition toy_ledger :: token_ledger where
  "toy_ledger = credit tl_new (toy_account 1) 100"

lemma toy_ledger_simps [simp]:
  "ledger_ok toy_ledger" "tl_supply toy_ledger = 100" "nonce toy_ledger a = 0"
  "balance toy_ledger a = (if a = toy_account 1 then 100 else 0)"
  by (simp_all add: toy_ledger_def credit_def tl_supply_def bt_sum_def tl_new_def saturating_add_def checked_add_def
      bt_get0_def nonce_def balance_def bt_get_def ledger_ok_def bt_ok_def)

theorem transfer_moves_exactly_witness:
  "\<exists>L'. tl_apply toy_crypto toy_ledger (toy_transfer 1 (toy_account 2) 30 0) = (L', Inr ()) \<and>
     unat (balance L' (toy_account 1)) = 70 \<and> unat (balance L' (toy_account 2)) = 30 \<and>
     nonce L' (toy_account 1) = 1 \<and> tl_supply L' = 100"
proof -
  let ?st = "toy_transfer 1 (toy_account 2) 30 0"
  obtain L' r where r: "tl_apply toy_crypto toy_ledger ?st = (L', r)" by fastforce
  show ?thesis
    using transfer_moves_exactly [OF _ _ r refl] r by (simp add: toy_transfer_def after_move_def)
qed

section \<open>Replay\<close>

definition run_transfers ::
    "('e, 'm, 's) crypto \<Rightarrow> token_ledger \<Rightarrow> ('e, 'm) signed_transfer list \<Rightarrow> token_ledger" where
  "run_transfers C L sts = foldl (\<lambda>L st. fst (tl_apply C L st)) L sts"

lemma nonce_apply_cases:
  "nonce (fst (apply_with_verdict L st v)) a = nonce L a \<or> nonce (fst (apply_with_verdict L st v)) a = nonce L a + 1"
  by (cases "settled (apply_with_verdict L st v)") (auto simp: apply_settled apply_error_unchanged)

lemma unat_word_succ: "unat w + 1 < 2 ^ 64 \<Longrightarrow> unat (w + 1) = unat w + 1" for w :: u64
  by (simp add: unat_word_ariths)

lemma run_transfers_nonce:
  assumes "unat (nonce L a) + length sts < 2 ^ 64"
  shows "unat (nonce L a) \<le> unat (nonce (run_transfers C L sts) a)"
  using assms
proof (induction sts arbitrary: L)
  case (Cons st sts)
  let ?L = "fst (tl_apply C L st)"
  have n: "unat (nonce L a) \<le> unat (nonce ?L a)" "unat (nonce ?L a) \<le> unat (nonce L a) + 1"
    using unat_word_succ [of "nonce L a"] Cons.prems nonce_apply_cases [of L st "st_verify C st" a]
    by (auto simp: tl_apply_def)
  then have "unat (nonce ?L a) \<le> unat (nonce (run_transfers C ?L sts) a)" using Cons by simp
  with n show ?case by (simp add: run_transfers_def)
qed (simp add: run_transfers_def)

text \<open>
  C17. A transfer that was settled once is refused as a replay ever after: whatever transfers follow (up
  to the 64-bit wrap of the sender's nonce), submitting it again is \<open>BadNonce\<close> and changes nothing.
\<close>

theorem settled_transfer_never_replays:
  assumes "tl_apply C L st = (L1, Inr ())" "unat (t_nonce (st_transfer st)) + 1 + length sts < 2 ^ 64"
  shows "tl_apply C (run_transfers C L1 sts) st = (run_transfers C L1 sts, Inl BadNonce)"
proof -
  let ?a = "t_from (st_transfer st)" and ?L = "run_transfers C L1 sts"
  have s: "settled (apply_with_verdict L st (st_verify C st))" and L1: "L1 = fst (apply_with_verdict L st (st_verify C st))"
    using assms(1) by (simp_all add: tl_apply_def settled_def)
  then have ok: "st_verify C st" "t_nonce (st_transfer st) = nonce L ?a" by (simp_all add: settled_apply)
  have "nonce L1 ?a = nonce L ?a + 1" using s by (simp add: L1 apply_settled)
  then have n1: "unat (nonce L1 ?a) = unat (nonce L ?a) + 1" using unat_word_succ assms(2) ok(2) by simp
  have "unat (nonce L1 ?a) \<le> unat (nonce ?L ?a)"
    using run_transfers_nonce [of L1 ?a sts C] n1 assms(2) ok(2) by simp
  then have "t_nonce (st_transfer st) < nonce ?L ?a" using n1 ok(2) by (simp add: word_less_nat_alt)
  then show ?thesis using ok(1) by (auto simp: tl_apply_def apply_with_verdict_def Let_def)
qed

theorem settled_transfer_never_replays_witness:
  "\<exists>L1. tl_apply toy_crypto toy_ledger (toy_transfer 1 (toy_account 2) 30 0) = (L1, Inr ()) \<and>
     snd (tl_apply toy_crypto (run_transfers toy_crypto L1 [toy_transfer 1 (toy_account 3) 10 1])
            (toy_transfer 1 (toy_account 2) 30 0)) = Inl BadNonce"
proof -
  let ?st = "toy_transfer 1 (toy_account 2) 30 0"
  have "snd (tl_apply toy_crypto toy_ledger ?st) = Inr ()"
    by (simp add: tl_apply_def apply_with_verdict_def toy_transfer_def st_verify_def)
  then obtain L1 where r: "tl_apply toy_crypto toy_ledger ?st = (L1, Inr ())" by (metis prod.collapse)
  show ?thesis
    using settled_transfer_never_replays [OF r, of "[toy_transfer 1 (toy_account 3) 10 1]"] r
    by (simp add: toy_transfer_def)
qed

section \<open>Snapshots\<close>

definition ledger_wf :: "token_ledger \<Rightarrow> bool" where
  "ledger_wf L \<longleftrightarrow> ledger_ok L \<and> list_all (\<lambda>a. length a = 32) (tl_accounts L) \<and> length (tl_accounts L) < 2 ^ 32"

text \<open>An account with an entry but neither a balance nor a nonce.\<close>

definition inert :: "token_ledger \<Rightarrow> account \<Rightarrow> bool" where
  "inert L a \<longleftrightarrow> balance L a = 0 \<and> nonce L a = 0"

definition restored :: "token_ledger \<Rightarrow> token_ledger" where
  "restored L = foldl restore_entry tl_new (tl_entries L)"

interpretation account_codec: codec put_account rd_account "\<lambda>e. length (fst e) = 32"
  by (rule codecI) (auto simp: rd_account_def put_account_def bind_eq_Some_conv codec_simps)

lemma length_put_account [simp]: "length (fst e) = 32 \<Longrightarrow> length (put_account e) = 48"
  by (cases e) (auto simp: put_account_def)

lemma length_put_accounts:
  "list_all (\<lambda>e. length (fst e) = 32) es \<Longrightarrow> length (concat (map put_account es)) = 48 * length es"
  by (induction es) simp_all

lemma restore_fold:
  "bt_get (tl_balances (foldl restore_entry L (map (\<lambda>a. (a, f a, g a)) as))) a =
     (if a \<in> set as \<and> f a \<noteq> 0 then Some (f a) else bt_get (tl_balances L) a)"
  "bt_get (tl_nonces (foldl restore_entry L (map (\<lambda>a. (a, f a, g a)) as))) a =
     (if a \<in> set as \<and> g a \<noteq> 0 then Some (g a) else bt_get (tl_nonces L) a)"
  by (induction as arbitrary: L) (auto simp: restore_entry_def word_greater_zero_iff)

lemma notin_accounts: "a \<notin> set (tl_accounts L) \<Longrightarrow> balance L a = 0 \<and> nonce L a = 0"
  by (auto simp: tl_accounts_def balance_def nonce_def intro!: bt_get0_notin)

lemma restored_gets:
  "bt_get (tl_balances (restored L)) a = (if balance L a \<noteq> 0 then Some (balance L a) else None)"
  "bt_get (tl_nonces (restored L)) a = (if nonce L a \<noteq> 0 then Some (nonce L a) else None)"
  using notin_accounts [of a L] by (auto simp: restored_def tl_entries_def restore_fold tl_new_def)

lemma restored_values: "balance (restored L) a = balance L a" "nonce (restored L) a = nonce L a"
  by (simp_all add: balance_def [of "restored L"] nonce_def [of "restored L"] bt_get0_def restored_gets)

lemma restored_accounts: "tl_accounts (restored L) = filter (\<lambda>a. \<not> inert L a) (tl_accounts L)"
proof -
  have "set (tl_accounts (restored L)) = {a. bt_get (tl_balances (restored L)) a \<noteq> None \<or> bt_get (tl_nonces (restored L)) a \<noteq> None}"
    by (auto simp: tl_accounts_def bt_get_None)
  also have "\<dots> = {a. \<not> inert L a}" by (auto simp: restored_gets inert_def)
  also have "\<dots> = set (filter (\<lambda>a. \<not> inert L a) (tl_accounts L))"
    using notin_accounts [of _ L] by (auto simp: inert_def)
  finally show ?thesis
    by (intro strict_sorted_equal) (auto simp: tl_accounts_def sorted_wrt_filter)
qed

lemma from_bytes_to_bytes:
  assumes "ledger_wf L"
  shows "tl_from_bytes (tl_to_bytes L) = Some (restored L)"
proof -
  have len: "unat (word_of_nat (length (tl_accounts L)) :: u32) = length (tl_entries L)"
    using assms by (simp add: ledger_wf_def tl_entries_def unat_of_nat take_bit_eq_mod)
  have ok: "list_all (\<lambda>e. length (fst e) = 32) (tl_entries L)"
    using assms by (simp add: ledger_wf_def tl_entries_def list_all_iff)
  have "rd_rep (length (tl_entries L)) rd_account (concat (map put_account (tl_entries L))) = Some (tl_entries L, [])"
    using ok by (simp add: account_codec.rep_iff)
  then show ?thesis
    by (simp add: tl_from_bytes_def tl_to_bytes_def le_dec_enc len length_put_accounts [OF ok] restored_def)
qed

text \<open>
  A state-sync snapshot restores the ledger: decoding the canonical bytes of a well-formed ledger
  (32-byte account ids, fewer than \<open>2\<^sup>32\<close> accounts) succeeds and every account has the balance and the
  nonce it had.
\<close>

theorem snapshot_restores_values:
  assumes "ledger_wf L"
  shows "\<exists>L'. tl_from_bytes (tl_to_bytes L) = Some L' \<and> (\<forall>a. balance L' a = balance L a \<and> nonce L' a = nonce L a)"
  using from_bytes_to_bytes [OF assms] restored_values by auto

lemma root_preimage_restored:
  assumes "ledger_wf L"
  shows "root_preimage (restored L) = root_preimage L \<longleftrightarrow> (\<forall>a \<in> set (tl_accounts L). \<not> inert L a)"
proof
  assume eq: "root_preimage (restored L) = root_preimage L"
  have ok: "list_all (\<lambda>e. length (fst e) = 32) (tl_entries L)" "list_all (\<lambda>e. length (fst e) = 32) (tl_entries (restored L))"
    using assms by (simp_all add: ledger_wf_def tl_entries_def list_all_iff restored_accounts)
  have "length (tl_entries (restored L)) = length (tl_entries L)"
    using eq length_put_accounts [OF ok(1)] length_put_accounts [OF ok(2)] by (simp add: root_preimage_def)
  then have "length (filter (\<lambda>a. \<not> inert L a) (tl_accounts L)) = length (tl_accounts L)"
    by (simp add: tl_entries_def restored_accounts)
  then show "\<forall>a \<in> set (tl_accounts L). \<not> inert L a" 
    by (metis length_filter_less less_irrefl)
next
  assume "\<forall>a \<in> set (tl_accounts L). \<not> inert L a"
  then have "tl_accounts (restored L) = tl_accounts L" by (simp add: restored_accounts)
  then show "root_preimage (restored L) = root_preimage L"
    by (simp add: root_preimage_def tl_entries_def restored_values)
qed

text \<open>
  The restored ledger hashes the same bytes into its state root exactly when no account of the
  original is inert, that is, has an entry with balance 0 and nonce 0. A transfer of amount 0 to a fresh
  account leaves such an entry, and so does draining a keyless sink, so \<open>from_bytes\<close> does not always
  reproduce the \<open>state_root\<close> the documentation of \<open>to_bytes\<close>, \<open>from_bytes\<close> and \<open>restore\<close> promises.
\<close>

theorem snapshot_root_stable_iff:
  assumes "ledger_wf L" "tl_from_bytes (tl_to_bytes L) = Some L'"
  shows "root_preimage L' = root_preimage L \<longleftrightarrow> (\<forall>a \<in> set (tl_accounts L). \<not> inert L a)"
  using assms(2) from_bytes_to_bytes [OF assms(1)] root_preimage_restored [OF assms(1)] by simp

text \<open>The ledger after a settled transfer of amount 0 to an account never seen before.\<close>

definition dusted_ledger :: token_ledger where
  "dusted_ledger = fst (tl_apply toy_crypto toy_ledger (toy_transfer 1 (toy_account 2) 0 0))"

lemma dusted_ledger_eq:
  "dusted_ledger = \<lparr>tl_balances = [(toy_account 1, 100), (toy_account 2, 0)], tl_nonces = [(toy_account 1, 1)]\<rparr>"
  by (simp add: dusted_ledger_def tl_apply_def apply_with_verdict_def st_verify_def toy_transfer_def)
    (simp add: toy_ledger_def credit_def debit_def bump_nonce_def tl_new_def bt_get_def bt_get0_def
      saturating_add_def checked_add_def toy_account_def)

lemma dusted_accounts: "tl_accounts dusted_ledger = [toy_account 1, toy_account 2]"
  by (simp add: tl_accounts_def dusted_ledger_eq sort_dedup_def toy_account_def)

lemma dusted_wf: "ledger_wf dusted_ledger"
  by (simp add: ledger_wf_def dusted_accounts) (simp add: toy_account_def dusted_ledger_eq ledger_ok_def bt_ok_def)

theorem snapshot_restores_values_witness:
  "\<exists>L'. tl_from_bytes (tl_to_bytes dusted_ledger) = Some L' \<and> balance L' (toy_account 1) = 100 \<and>
     nonce L' (toy_account 1) = 1"
  using snapshot_restores_values [OF dusted_wf]
  by (auto simp: dusted_ledger_eq balance_def nonce_def bt_get0_def bt_get_def)

theorem snapshot_root_stable_iff_witness:
  "\<exists>L'. tl_from_bytes (tl_to_bytes dusted_ledger) = Some L' \<and> root_preimage L' \<noteq> root_preimage dusted_ledger"
proof -
  have "inert dusted_ledger (toy_account 2)"
    by (simp add: inert_def dusted_ledger_eq balance_def nonce_def bt_get0_def bt_get_def)
  then show ?thesis
    using snapshot_root_stable_iff [OF dusted_wf] from_bytes_to_bytes [OF dusted_wf] by (auto simp: dusted_accounts)
qed

end
