(* ===== verification/Taxis_Quorum.thy ===== *)
theory Taxis_Quorum
  imports Ergon_Codec Fanos_Crypto
begin

text \<open>
  The quorum system of TAXIS: the cell parameters (\<open>fanos-taxis/src/params.rs\<close>), votes and quorum
  certificates (\<open>vote.rs\<close>) and equivocation evidence (\<open>incentive.rs\<close>). Signatures are those of
  \<open>Fanos_Crypto\<close>. The theorems give the safety
  of finality in its accountable form: two certificates for different blocks in one slot exhibit more
  equivocators, each with a slashable proof, than the fault budget allows.
\<close>

section \<open>Cell parameters\<close>

record cell_params =
  cp_q :: nat
  cp_n :: nat
  cp_f :: nat
  cp_quorum :: nat

definition fault_budget :: "nat \<Rightarrow> nat" where
  "fault_budget n = (n - 1) div 3"

text \<open>
  \<open>for_order\<close> on a 64-bit target: the checked operations of \<open>n = q\<^sup>2 + q + 1\<close>, and the unchecked sum of
  the quorum, which wraps.
\<close>

definition for_order :: "nat \<Rightarrow> cell_params option" where
  "for_order q =
     (if q < 2 then None
      else if q * q + q + 1 \<ge> 2 ^ 64 then None
      else let n = q * q + q + 1;
               f = fault_budget n;
               quorum = ((n + f + 2) mod 2 ^ 64) div 2
           in Some \<lparr>cp_q = q, cp_n = n, cp_f = f, cp_quorum = quorum\<rparr>)"

definition FANO :: cell_params where
  "FANO = \<lparr>cp_q = 2, cp_n = 7, cp_f = 2, cp_quorum = 5\<rparr>"

definition params_checked :: "nat \<Rightarrow> nat \<Rightarrow> nat \<Rightarrow> nat \<Rightarrow> cell_params option" where
  "params_checked q n f quorum =
     (case for_order q of
        None \<Rightarrow> None
      | Some d \<Rightarrow> (if cp_n d = n \<and> cp_f d = f \<and> cp_quorum d = quorum then Some d else None))"

definition line_size :: "cell_params \<Rightarrow> nat" where
  "line_size p = cp_q p + 1"

definition seal_committee_size :: "cell_params \<Rightarrow> nat" where
  "seal_committee_size p = cp_n p"

definition seal_threshold :: "cell_params \<Rightarrow> nat" where
  "seal_threshold p = (let t = min (cp_f p + 1) (cp_n p) in if t \<le> 255 then t else 255)"

definition seal_is_sound :: "cell_params \<Rightarrow> bool" where
  "seal_is_sound p =
     (let m = seal_committee_size p; t = seal_threshold p
      in m \<ge> 2 * cp_f p + 1 \<and> t > cp_f p \<and> t \<le> m - cp_f p)"

definition is_safe :: "cell_params \<Rightarrow> bool" where
  "is_safe p \<longleftrightarrow> (2 * cp_quorum p) mod 2 ^ 64 > (cp_n p + cp_f p) mod 2 ^ 64"

definition is_live :: "cell_params \<Rightarrow> bool" where
  "is_live p \<longleftrightarrow> cp_n p - cp_f p \<ge> cp_quorum p"

definition is_tight :: "cell_params \<Rightarrow> bool" where
  "is_tight p \<longleftrightarrow> cp_n p = 3 * cp_f p + 1"

section \<open>Votes\<close>

datatype phase = Prepare | Commit

primrec phase_code :: "phase \<Rightarrow> byte" where
  "phase_code Prepare = 0"
| "phase_code Commit = 1"

definition phase_from_code :: "byte \<Rightarrow> phase option" where
  "phase_from_code c = (if c = 0 then Some Prepare else if c = 1 then Some Commit else None)"

definition VOTE_LEN :: nat where "VOTE_LEN = 8 + 4 + 32 + 1 + 1"

record vote =
  v_height :: u64
  v_round :: u32
  v_block :: "byte list"
  v_phase :: phase
  v_voter :: byte

definition vote_to_bytes :: "vote \<Rightarrow> byte list" where
  "vote_to_bytes v =
     put_word 8 (v_height v) @ put_word 4 (v_round v) @ v_block v @ [phase_code (v_phase v), v_voter v]"

definition vote_from_bytes :: "byte list \<Rightarrow> vote option" where
  "vote_from_bytes bs =
     (if length bs < VOTE_LEN then None
      else do {
        (h, r) \<leftarrow> rd_word 8 bs;
        (rd, r) \<leftarrow> rd_word 4 r;
        (b, r) \<leftarrow> rd_take 32 r;
        (c, r) \<leftarrow> rd_u8 r;
        p \<leftarrow> phase_from_code c;
        (i, r) \<leftarrow> rd_u8 r;
        Some \<lparr>v_height = h, v_round = rd, v_block = b, v_phase = p, v_voter = i\<rparr> })"

record signed_vote =
  sv_vote :: vote
  sv_sig :: "byte list"

definition sv_verify :: "('e, 'm, 's) crypto \<Rightarrow> signed_vote \<Rightarrow> ('e, 'm) hybrid_verifier \<Rightarrow> bool" where
  "sv_verify C sv k = sig_bytes_verify C k (vote_to_bytes (sv_vote sv)) (sv_sig sv)"

definition sv_sign :: "('e, 'm, 's) crypto \<Rightarrow> vote \<Rightarrow> 's hybrid_sig_secret \<Rightarrow> signed_vote" where
  "sv_sign C v sk = \<lparr>sv_vote = v, sv_sig = hsig_to_bytes C (hybrid_sign sk (vote_to_bytes v))\<rparr>"

definition sv_to_bytes :: "signed_vote \<Rightarrow> byte list" where
  "sv_to_bytes sv = vote_to_bytes (sv_vote sv) @ sv_sig sv"

definition sv_from_bytes :: "byte list \<Rightarrow> signed_vote option" where
  "sv_from_bytes bs =
     (if length bs \<noteq> VOTE_LEN + HYBRID_SIG_LEN then None
      else do { v \<leftarrow> vote_from_bytes (take VOTE_LEN bs); Some \<lparr>sv_vote = v, sv_sig = drop VOTE_LEN bs\<rparr> })"

section \<open>Certificates\<close>

record certificate =
  c_phase :: phase
  c_height :: u64
  c_round :: u32
  c_block :: "byte list"
  c_votes :: "signed_vote list"

text \<open>The loop of \<open>Certificate::verify\<close>: the votes left, the voters seen, the count.\<close>

fun cert_loop ::
    "('e, 'm, 's) crypto \<Rightarrow> certificate \<Rightarrow> ('e, 'm) hybrid_verifier list \<Rightarrow> signed_vote list \<Rightarrow> bool list \<Rightarrow> nat \<Rightarrow> nat option" where
  "cert_loop C c vks [] seen n = Some n"
| "cert_loop C c vks (sv # svs) seen n =
     (let v = sv_vote sv; idx = unat (v_voter v)
      in if v_phase v \<noteq> c_phase c \<or> v_height v \<noteq> c_height c \<or> v_round v \<noteq> c_round c \<or> v_block v \<noteq> c_block c
         then None
         else if length vks \<le> idx then None
         else if length seen \<le> idx \<or> seen ! idx then None
         else if \<not> sv_verify C sv (vks ! idx) then None
         else cert_loop C c vks svs (seen[idx := True]) (n + 1))"

definition cert_verify :: "('e, 'm, 's) crypto \<Rightarrow> certificate \<Rightarrow> nat \<Rightarrow> ('e, 'm) hybrid_verifier list \<Rightarrow> bool" where
  "cert_verify C c quorum vks =
     (case cert_loop C c vks (c_votes c) (replicate (length vks) False) 0 of
        None \<Rightarrow> False
      | Some n \<Rightarrow> n \<ge> quorum)"

definition cert_to_bytes :: "certificate \<Rightarrow> byte list" where
  "cert_to_bytes c =
     [phase_code (c_phase c)] @ put_word 8 (c_height c) @ put_word 4 (c_round c) @ c_block c @
     put_word 4 (if length (c_votes c) < 2 ^ 32 then word_of_nat (length (c_votes c)) else (- 1 :: u32)) @
     concat (map sv_to_bytes (c_votes c))"

text \<open>One iteration of the vote loop of \<open>from_bytes\<close>: a slice of the fixed width, decoded.\<close>

definition rd_signed_vote :: "signed_vote reader" where
  "rd_signed_vote bs = do {
     (b, r) \<leftarrow> rd_take (VOTE_LEN + HYBRID_SIG_LEN) bs;
     sv \<leftarrow> sv_from_bytes b;
     Some (sv, r) }"

definition cert_from_bytes :: "byte list \<Rightarrow> certificate option" where
  "cert_from_bytes bs = do {
     (c, r) \<leftarrow> rd_u8 bs;
     p \<leftarrow> phase_from_code c;
     (h, r) \<leftarrow> rd_word 8 r;
     (rd, r) \<leftarrow> rd_word 4 r;
     (b, r) \<leftarrow> rd_take 32 r;
     (n, r) \<leftarrow> (rd_word 4 :: u32 reader) r;
     (svs, r) \<leftarrow> rd_rep (unat n) rd_signed_vote r;
     if r \<noteq> [] then None
     else Some \<lparr>c_phase = p, c_height = h, c_round = rd, c_block = b, c_votes = svs\<rparr> }"

section \<open>Equivocation\<close>

record slash_evidence =
  ev_validator :: byte
  ev_height :: u64
  ev_round :: u32
  ev_phase :: phase
  ev_vote_a :: signed_vote
  ev_vote_b :: signed_vote

definition detect_equivocation ::
    "('e, 'm, 's) crypto \<Rightarrow> signed_vote \<Rightarrow> signed_vote \<Rightarrow> ('e, 'm) hybrid_verifier \<Rightarrow> slash_evidence option" where
  "detect_equivocation C a b k =
     (let va = sv_vote a; vb = sv_vote b
      in if v_voter va \<noteq> v_voter vb \<or> v_height va \<noteq> v_height vb \<or> v_round va \<noteq> v_round vb \<or> v_phase va \<noteq> v_phase vb
         then None
         else if v_block va = v_block vb then None
         else if \<not> sv_verify C a k \<or> \<not> sv_verify C b k then None
         else Some \<lparr>ev_validator = v_voter va, ev_height = v_height va, ev_round = v_round va,
                    ev_phase = v_phase va, ev_vote_a = a, ev_vote_b = b\<rparr>)"

section \<open>What a verified certificate is\<close>

abbreviation voter_index :: "signed_vote \<Rightarrow> nat" where
  "voter_index sv \<equiv> unat (v_voter (sv_vote sv))"

definition vote_counts :: "('e, 'm, 's) crypto \<Rightarrow> certificate \<Rightarrow> ('e, 'm) hybrid_verifier list \<Rightarrow> signed_vote \<Rightarrow> bool" where
  "vote_counts C c vks sv \<longleftrightarrow> v_phase (sv_vote sv) = c_phase c \<and> v_height (sv_vote sv) = c_height c \<and>
     v_round (sv_vote sv) = c_round c \<and> v_block (sv_vote sv) = c_block c \<and> voter_index sv < length vks \<and>
     sv_verify C sv (vks ! voter_index sv)"

lemma cert_loop_Some:
  assumes "length seen = length vks"
  shows "cert_loop C c vks svs seen n = Some m \<longleftrightarrow>
    list_all (vote_counts C c vks) svs \<and> distinct (map voter_index svs) \<and>
    (\<forall>sv \<in> set svs. \<not> seen ! voter_index sv) \<and> m = n + length svs"
  using assms
proof (induction svs arbitrary: seen n)
  case (Cons sv svs)
  let ?i = "voter_index sv"
  show ?case
  proof (cases "vote_counts C c vks sv \<and> \<not> seen ! ?i")
    case True
    have "cert_loop C c vks (sv # svs) seen n = cert_loop C c vks svs (seen[?i := True]) (n + 1)"
      using True Cons.prems by (simp add: vote_counts_def Let_def)
    also have "\<dots> = Some m \<longleftrightarrow> list_all (vote_counts C c vks) svs \<and> distinct (map voter_index svs) \<and>
        (\<forall>v \<in> set svs. \<not> seen[?i := True] ! voter_index v) \<and> m = n + 1 + length svs"
      by (rule Cons.IH) (simp add: Cons.prems)
    also have "(\<forall>v \<in> set svs. \<not> seen[?i := True] ! voter_index v) \<longleftrightarrow>
        (\<forall>v \<in> set svs. \<not> seen ! voter_index v) \<and> ?i \<notin> voter_index ` set svs"
      using True Cons.prems by (auto simp: nth_list_update vote_counts_def)
    finally show ?thesis using True by auto
  next
    case False
    then have "cert_loop C c vks (sv # svs) seen n = None"
      using Cons.prems by (auto simp: vote_counts_def Let_def)
    with False show ?thesis by auto
  qed
qed auto

lemma cert_verify_iff:
  "cert_verify C c quorum vks \<longleftrightarrow>
     list_all (vote_counts C c vks) (c_votes c) \<and> distinct (map voter_index (c_votes c)) \<and>
     quorum \<le> length (c_votes c)"
proof -
  have unseen: "\<not> replicate (length vks) False ! voter_index sv" if "vote_counts C c vks sv" for sv
    using that by (simp add: vote_counts_def)
  have loop: "cert_loop C c vks (c_votes c) (replicate (length vks) False) 0 = Some m \<longleftrightarrow>
      list_all (vote_counts C c vks) (c_votes c) \<and> distinct (map voter_index (c_votes c)) \<and>
      m = length (c_votes c)" for m
    using unseen by (auto simp: cert_loop_Some list_all_iff)
  show ?thesis
  proof (cases "cert_loop C c vks (c_votes c) (replicate (length vks) False) 0")
    case None
    then show ?thesis using loop [of "length (c_votes c)"] by (auto simp: cert_verify_def)
  next
    case (Some m)
    then show ?thesis using loop [of m] by (simp add: cert_verify_def)
  qed
qed

lemma quorum_overlap:
  fixes A B :: "nat set"
  assumes "A \<subseteq> {..<n}" "B \<subseteq> {..<n}" "q \<le> card A" "q \<le> card B"
  shows "2 * q \<le> n + card (A \<inter> B)"
proof -
  have fin: "finite A" "finite B" using assms(1,2) finite_subset by blast+
  have "card (A \<union> B) \<le> n" using card_mono [of "{..<n}" "A \<union> B"] assms(1,2) by simp
  then show ?thesis using card_Un_Int [OF fin] assms(3,4) by linarith
qed

section \<open>The quorum arithmetic of a cell\<close>

lemma for_order_Some:
  assumes "for_order q = Some p" "q < 2 ^ 31"
  shows "cp_q p = q" "cp_n p = q * q + q + 1" "cp_f p = (cp_n p - 1) div 3"
    "cp_quorum p = (cp_n p + cp_f p + 2) div 2" "2 \<le> q" "cp_n p + cp_f p + 2 < 2 ^ 64"
proof -
  have "q * q < 2 ^ 31 * 2 ^ 31" using assms(2) by (intro mult_strict_mono) auto
  then have n: "q * q + q + 1 < 2 ^ 63" using assms(2) by simp
  have le: "(q * q + q) div 3 \<le> q * q + q" by simp
  have small: "q * q + q + 1 + (q * q + q) div 3 + 2 < 2 ^ 64"
    using n div_le_dividend [of "q * q + q" 3] assms(2) by simp
  show "cp_q p = q" "cp_n p = q * q + q + 1" "cp_f p = (cp_n p - 1) div 3"
    "cp_quorum p = (cp_n p + cp_f p + 2) div 2" "2 \<le> q" "cp_n p + cp_f p + 2 < 2 ^ 64"
    using assms(1) small n by (auto simp: for_order_def fault_budget_def Let_def split: if_splits)
qed

lemma plane_mod_3: "(q * q + q) mod 3 = 0 \<longleftrightarrow> q mod 3 \<noteq> 1" for q :: nat
proof -
  have "(q * q + q) mod 3 = (q * q mod 3 + q mod 3) mod 3" by (rule mod_add_eq [symmetric])
  also have "q * q mod 3 = (q mod 3) * (q mod 3) mod 3" by (rule mod_mult_eq [symmetric])
  finally have "(q * q + q) mod 3 = ((q mod 3) * (q mod 3) mod 3 + q mod 3) mod 3" .
  moreover have "q mod 3 = 0 \<or> q mod 3 = 1 \<or> q mod 3 = 2" by presburger
  ultimately show ?thesis by (auto dest: dvd_imp_le)
qed

text \<open>
  Every cell a plane order \<open>q < 2\<^sup>31\<close> derives is safe (two quorums share more than \<open>f\<close> validators)
  and live (the honest validators contain a quorum); it is tight, \<open>n = 3f + 1\<close>, exactly when \<open>q\<close> is not
  1 modulo 3; and its anti-MEV sealing parameters are sound exactly while the fault budget fits below
  the saturating one-byte threshold.
\<close>

theorem for_order_sound:
  assumes "for_order q = Some p" "q < 2 ^ 31"
  shows "is_safe p \<and> is_live p \<and> (is_tight p \<longleftrightarrow> q mod 3 \<noteq> 1) \<and> (seal_is_sound p \<longleftrightarrow> cp_f p < 255)"
proof -
  note p = for_order_Some [OF assms]
  define x where "x = cp_n p + cp_f p"
  have "x < 2 * ((x + 2) div 2)" "2 * ((x + 2) div 2) \<le> x + 2" by presburger+
  then have safe: "is_safe p"
    using p(4,6) unfolding is_safe_def p(4) x_def [symmetric] by (simp only: mod_less)
  have live: "is_live p" using p(2,3,4) by (simp add: is_live_def)
  have "is_tight p \<longleftrightarrow> (q * q + q) mod 3 = 0" using p(2,3) by (simp add: is_tight_def) presburger
  then have tight: "is_tight p \<longleftrightarrow> q mod 3 \<noteq> 1" by (simp only: plane_mod_3)
  have "3 * cp_f p + 1 \<le> cp_n p" using p(2,3) by simp
  then have seal: "seal_is_sound p \<longleftrightarrow> cp_f p < 255"
    by (auto simp: seal_is_sound_def seal_committee_size_def seal_threshold_def Let_def)
  show ?thesis using safe live tight seal by simp
qed

theorem for_order_sound_witness:
  "for_order 2 = Some FANO \<and> is_safe FANO \<and> is_live FANO \<and> is_tight FANO \<and> seal_is_sound FANO"
  using for_order_sound [of 2 FANO] by (simp add: for_order_def FANO_def fault_budget_def)

section \<open>Accountable safety\<close>

lemma cert_voters:
  assumes "cert_verify C c quorum vks"
  shows "voter_index ` set (c_votes c) \<subseteq> {..<length vks}" "quorum \<le> card (voter_index ` set (c_votes c))"
proof -
  from assms have v: "list_all (vote_counts C c vks) (c_votes c)" "distinct (map voter_index (c_votes c))"
    "quorum \<le> length (c_votes c)" by (simp_all add: cert_verify_iff)
  show "voter_index ` set (c_votes c) \<subseteq> {..<length vks}"
    using v(1) by (auto simp: list_all_iff vote_counts_def)
  show "quorum \<le> card (voter_index ` set (c_votes c))"
    using v(2,3) distinct_card [of "map voter_index (c_votes c)"] by simp
qed

lemma conflicting_votes_are_evidence:
  assumes "vote_counts C c1 vks a" "vote_counts C c2 vks b" "voter_index a = voter_index b"
    and "c_phase c1 = c_phase c2" "c_height c1 = c_height c2" "c_round c1 = c_round c2"
    and "c_block c1 \<noteq> c_block c2"
  shows "\<exists>ev. detect_equivocation C a b (vks ! voter_index a) = Some ev \<and> unat (ev_validator ev) = voter_index a"
proof -
  have "v_voter (sv_vote a) = v_voter (sv_vote b)" using assms(3) by (simp only: word_unat_eq_iff)
  with assms show ?thesis by (auto simp: detect_equivocation_def vote_counts_def Let_def)
qed

text \<open>
  C13. Accountable safety of finality. In a cell derived from its plane order, two certificates of one
  phase, height and round that both verify and name different blocks convict at least \<open>f + 1\<close>
  validators: for each of them a vote of the first and a vote of the second certificate make
  \<open>detect_equivocation\<close> return slashable evidence against that validator. So a fork needs more faults
  than the cell tolerates, whoever assembled the certificates and with no assumption on the signatures.
\<close>

theorem accountable_safety:
  assumes "for_order q = Some p" "q < 2 ^ 31" "length vks = cp_n p"
    and "cert_verify C c1 (cp_quorum p) vks" "cert_verify C c2 (cp_quorum p) vks"
    and "c_phase c1 = c_phase c2" "c_height c1 = c_height c2" "c_round c1 = c_round c2"
    and "c_block c1 \<noteq> c_block c2"
  shows "cp_f p + 1 \<le> card {i. i < cp_n p \<and>
    (\<exists>a \<in> set (c_votes c1). \<exists>b \<in> set (c_votes c2). \<exists>ev.
       detect_equivocation C a b (vks ! i) = Some ev \<and> unat (ev_validator ev) = i)}"
    (is "_ \<le> card ?E")
proof -
  let ?A = "voter_index ` set (c_votes c1)" and ?B = "voter_index ` set (c_votes c2)"
  have "2 * cp_quorum p \<le> cp_n p + card (?A \<inter> ?B)"
    using quorum_overlap [OF cert_voters(1) [OF assms(4)] cert_voters(1) [OF assms(5)]
        cert_voters(2) [OF assms(4)] cert_voters(2) [OF assms(5)]] assms(3) by simp
  then have overlap: "cp_f p + 1 \<le> card (?A \<inter> ?B)"
    using for_order_Some(4) [OF assms(1,2)] by linarith
  have "?A \<inter> ?B \<subseteq> ?E"
  proof
    fix i assume "i \<in> ?A \<inter> ?B"
    then obtain a b where ab: "a \<in> set (c_votes c1)" "b \<in> set (c_votes c2)" "voter_index a = i" "voter_index b = i"
      by auto
    have "vote_counts C c1 vks a" "vote_counts C c2 vks b"
      using assms(4,5) ab(1,2) by (auto simp: cert_verify_iff list_all_iff)
    with ab assms(3,6-9) show "i \<in> ?E"
      using conflicting_votes_are_evidence [of C c1 vks a c2 b] by (auto simp: vote_counts_def)
  qed
  then have "card (?A \<inter> ?B) \<le> card ?E" by (intro card_mono) auto
  with overlap show ?thesis by linarith
qed

definition toy_vote :: "byte \<Rightarrow> byte \<Rightarrow> signed_vote" where
  "toy_vote b i = \<lparr>sv_vote = \<lparr>v_height = 9, v_round = 1, v_block = replicate 32 b, v_phase = Commit, v_voter = i\<rparr>,
     sv_sig = toy_sig i\<rparr>"

definition toy_cert :: "byte \<Rightarrow> byte list \<Rightarrow> certificate" where
  "toy_cert b is = \<lparr>c_phase = Commit, c_height = 9, c_round = 1, c_block = replicate 32 b,
     c_votes = map (toy_vote b) is\<rparr>"

definition toy_cell :: "(byte, byte) hybrid_verifier list" where
  "toy_cell = map toy_key [0, 1, 2, 3, 4, 5, 6]"

lemma toy_cert_verify:
  "cert_verify toy_crypto (toy_cert 7 [0, 1, 2, 3, 4]) 5 toy_cell"
  "cert_verify toy_crypto (toy_cert 8 [2, 3, 4, 5, 6]) 5 toy_cell"
  by (simp_all add: cert_verify_iff toy_cert_def toy_cell_def toy_vote_def vote_counts_def sv_verify_def)

theorem accountable_safety_witness:
  "for_order 2 = Some FANO \<and>
   3 \<le> card {i. i < 7 \<and>
    (\<exists>a \<in> set (c_votes (toy_cert 7 [0, 1, 2, 3, 4])). \<exists>b \<in> set (c_votes (toy_cert 8 [2, 3, 4, 5, 6])). \<exists>ev.
       detect_equivocation toy_crypto a b (toy_cell ! i) = Some ev \<and> unat (ev_validator ev) = i)}"
proof -
  have fano: "for_order 2 = Some FANO" by (simp add: for_order_def FANO_def fault_budget_def)
  show ?thesis
    using fano toy_cert_verify accountable_safety [OF fano, of toy_cell toy_crypto "toy_cert 7 [0, 1, 2, 3, 4]" "toy_cert 8 [2, 3, 4, 5, 6]"]
    by (simp add: FANO_def toy_cell_def toy_cert_def)
qed

text \<open>
  Votes name their validator in one byte, so a certificate carries at most 256 of them: in a cell of
  order 20 or more (the first plane order is 23, with 553 validators and a quorum of 369), which
  \<open>for_order\<close> accepts, no certificate verifies and nothing can be finalized.
\<close>

theorem large_cell_never_finalizes:
  assumes "for_order q = Some p" "q < 2 ^ 31" "20 \<le> q"
  shows "\<not> cert_verify C c (cp_quorum p) vks"
proof
  assume "cert_verify C c (cp_quorum p) vks"
  then have "cp_quorum p \<le> card (voter_index ` set (c_votes c))" by (rule cert_voters(2))
  also have "\<dots> \<le> card {..<256 :: nat}"
    by (intro card_mono) (auto simp: unat_byte_lt)
  finally have "cp_quorum p \<le> 256" by simp
  moreover have "20 * 20 \<le> q * q" using assms(3) by (intro mult_mono) auto
  ultimately show False using for_order_Some(2,3,4) [OF assms(1,2)] assms(3) by simp
qed

theorem large_cell_never_finalizes_witness:
  "\<exists>p. for_order 23 = Some p \<and> cp_n p = 553 \<and> cp_quorum p = 369 \<and>
     \<not> cert_verify toy_crypto (toy_cert 7 [0, 1, 2, 3, 4]) (cp_quorum p) toy_cell"
  using large_cell_never_finalizes [of 23 _ toy_crypto "toy_cert 7 [0, 1, 2, 3, 4]" toy_cell]
  by (simp add: for_order_def fault_budget_def)

section \<open>The wire form of votes and certificates\<close>

lemma phase_from_code_iff [codec_simps]: "phase_from_code c = Some p \<longleftrightarrow> c = phase_code p"
  by (cases p) (auto simp: phase_from_code_def split: if_splits)

lemma phase_from_code_code [simp]: "phase_from_code (phase_code p) = Some p"
  by (simp add: phase_from_code_iff)

definition vote_wf :: "vote \<Rightarrow> bool" where
  "vote_wf v \<longleftrightarrow> length (v_block v) = 32"

definition sv_wf :: "signed_vote \<Rightarrow> bool" where
  "sv_wf sv \<longleftrightarrow> vote_wf (sv_vote sv) \<and> length (sv_sig sv) = HYBRID_SIG_LEN"

definition cert_wf :: "certificate \<Rightarrow> bool" where
  "cert_wf c \<longleftrightarrow> length (c_block c) = 32 \<and> list_all sv_wf (c_votes c) \<and> length (c_votes c) < 2 ^ 32"

lemma length_vote_to_bytes [simp]: "vote_wf v \<Longrightarrow> length (vote_to_bytes v) = VOTE_LEN"
  by (simp add: vote_to_bytes_def vote_wf_def VOTE_LEN_def)

lemma vote_from_bytes_iff:
  assumes "length bs = VOTE_LEN"
  shows "vote_from_bytes bs = Some v \<longleftrightarrow> vote_wf v \<and> bs = vote_to_bytes v"
proof
  assume "vote_from_bytes bs = Some v"
  with assms show "vote_wf v \<and> bs = vote_to_bytes v"
    by (auto simp: vote_from_bytes_def bind_eq_Some_conv codec_simps vote_to_bytes_def vote_wf_def VOTE_LEN_def)
next
  assume "vote_wf v \<and> bs = vote_to_bytes v"
  with assms show "vote_from_bytes bs = Some v"
    by (simp add: vote_from_bytes_def word_dec_enc vote_to_bytes_def vote_wf_def)
qed

lemma sv_from_bytes_iff: "sv_from_bytes bs = Some sv \<longleftrightarrow> sv_wf sv \<and> bs = sv_to_bytes sv"
proof -
  have "sv_from_bytes bs = Some sv \<longleftrightarrow> length bs = VOTE_LEN + HYBRID_SIG_LEN \<and>
      vote_from_bytes (take VOTE_LEN bs) = Some (sv_vote sv) \<and> drop VOTE_LEN bs = sv_sig sv"
    by (auto simp: sv_from_bytes_def bind_eq_Some_conv)
  also have "\<dots> \<longleftrightarrow> sv_wf sv \<and> bs = sv_to_bytes sv"
    by (auto simp: vote_from_bytes_iff sv_wf_def sv_to_bytes_def) (metis length_drop add_diff_cancel_left' append_take_drop_id)+
  finally show ?thesis .
qed

interpretation sv_codec: codec sv_to_bytes rd_signed_vote sv_wf
  by (rule codecI)
     (auto simp: rd_signed_vote_def bind_eq_Some_conv rd_take_iff sv_from_bytes_iff sv_to_bytes_def sv_wf_def)

text \<open>
  The wire form of certificates is canonical: \<open>Certificate::from_bytes\<close> accepts exactly the
  encodings of well-formed certificates (32-byte digests, full-width signatures, fewer than \<open>2\<^sup>32\<close>
  votes) and returns the certificate encoded. A truncated, padded or re-counted encoding is refused, and
  a certificate stored as a block's \<open>last_commit\<close> is read back unchanged.
\<close>

theorem cert_codec_bijective:
  "cert_from_bytes bs = Some c \<longleftrightarrow> cert_wf c \<and> bs = cert_to_bytes c"
proof
  assume "cert_from_bytes bs = Some c"
  then show "cert_wf c \<and> bs = cert_to_bytes c"
    by (auto simp: cert_from_bytes_def bind_eq_Some_conv codec_simps sv_codec.rep_iff cert_wf_def cert_to_bytes_def
        unat_lt [where 'w = 32, simplified] split: if_splits)
next
  assume wf: "cert_wf c \<and> bs = cert_to_bytes c"
  then have "unat (word_of_nat (length (c_votes c)) :: u32) = length (c_votes c)"
    by (simp add: cert_wf_def unat_of_nat take_bit_eq_mod)
  moreover have "rd_rep (length (c_votes c)) rd_signed_vote (concat (map sv_to_bytes (c_votes c))) = Some (c_votes c, [])"
    using wf by (simp add: sv_codec.rep_iff cert_wf_def)
  ultimately show "cert_from_bytes bs = Some c"
    using wf by (simp add: cert_from_bytes_def word_dec_enc cert_wf_def cert_to_bytes_def)
qed

end
