(* ===== verification/Dromos_Stake.thy ===== *)
theory Dromos_Stake
  imports Primitives_Codec Dromos_Token Taxis_Quorum
begin

text \<open>
  Validator staking and slashing (\<open>fanos-dromos/src/stake.rs\<close>): the staking and slashing transactions,
  the stake ledger (bonded collateral and the equivocation slots already punished) and its snapshot.
\<close>

section \<open>Transactions\<close>

definition STAKE_ROOT_LABEL :: string where "STAKE_ROOT_LABEL = ''FANOS-dromos-v1/stake-root''"
definition SLASHED_SLOT_LABEL :: string where "SLASHED_SLOT_LABEL = ''FANOS-dromos-v1/slashed-slot''"
definition STAKE_SINK :: account where "STAKE_SINK = ascii ''FANOS-dromos-stake-collateral!!!''"

datatype ('e, 'm) stake_tx =
    Bond "('e, 'm) signed_transfer"
  | Unbond "('e, 'm) signed_transfer"

primrec stake_transfer :: "('e, 'm) stake_tx \<Rightarrow> ('e, 'm) signed_transfer" where
  "stake_transfer (Bond st) = st"
| "stake_transfer (Unbond st) = st"

definition stake_tx_to_bytes :: "('e, 'm, 's) crypto \<Rightarrow> ('e, 'm) stake_tx \<Rightarrow> byte list" where
  "stake_tx_to_bytes C tx = (case tx of Bond st \<Rightarrow> 0 # st_to_bytes C st | Unbond st \<Rightarrow> 1 # st_to_bytes C st)"

definition stake_tx_from_bytes :: "('e, 'm, 's) crypto \<Rightarrow> byte list \<Rightarrow> ('e, 'm) stake_tx option" where
  "stake_tx_from_bytes C bs =
     (case bs of
        [] \<Rightarrow> None
      | tag # rest \<Rightarrow> do {
          st \<leftarrow> st_from_bytes C rest;
          if tag = 0 then Some (Bond st) else if tag = 1 then Some (Unbond st) else None })"

record ('e, 'm) slash_tx =
  sl_vote_a :: signed_vote
  sl_vote_b :: signed_vote
  sl_verifier :: "('e, 'm) hybrid_verifier"

definition evidence :: "('e, 'm, 's) crypto \<Rightarrow> ('e, 'm) slash_tx \<Rightarrow> slash_evidence option" where
  "evidence C tx = detect_equivocation C (sl_vote_a tx) (sl_vote_b tx) (sl_verifier tx)"

definition slash_tx_to_bytes :: "('e, 'm, 's) crypto \<Rightarrow> ('e, 'm) slash_tx \<Rightarrow> byte list" where
  "slash_tx_to_bytes C tx =
     put_var_bytes (sv_to_bytes (sl_vote_a tx)) @ put_var_bytes (sv_to_bytes (sl_vote_b tx)) @
     put_var_bytes (vk_encode C (sl_verifier tx))"

definition slash_tx_from_bytes :: "('e, 'm, 's) crypto \<Rightarrow> byte list \<Rightarrow> ('e, 'm) slash_tx option" where
  "slash_tx_from_bytes C bs = do {
     (ab, r) \<leftarrow> rd_var_bytes bs;
     a \<leftarrow> sv_from_bytes ab;
     (bb, r) \<leftarrow> rd_var_bytes r;
     b \<leftarrow> sv_from_bytes bb;
     (kb, r) \<leftarrow> rd_var_bytes r;
     k \<leftarrow> vk_decode C kb;
     if r \<noteq> [] then None else Some \<lparr>sl_vote_a = a, sl_vote_b = b, sl_verifier = k\<rparr> }"

section \<open>The stake ledger\<close>

record stake_ledger =
  sk_bonded :: "(account, u64) btree"
  sk_slashed :: "(byte list, unit) btree"

definition stake_new :: stake_ledger where
  "stake_new = \<lparr>sk_bonded = [], sk_slashed = []\<rparr>"

definition bonded :: "stake_ledger \<Rightarrow> account \<Rightarrow> u64" where
  "bonded S a = bt_get0 (sk_bonded S) a"

definition total_bonded :: "stake_ledger \<Rightarrow> u64" where
  "total_bonded S = foldl (\<lambda>acc e. saturating_add acc (snd e)) 0 (sk_bonded S)"

definition bonded_count :: "stake_ledger \<Rightarrow> nat" where
  "bonded_count S = length (sk_bonded S)"

definition increase :: "stake_ledger \<Rightarrow> account \<Rightarrow> u64 \<Rightarrow> stake_ledger" where
  "increase S a amount =
     S\<lparr>sk_bonded := bt_insert a (saturating_add (bt_get0 (sk_bonded S) a) amount) (sk_bonded S)\<rparr>"

definition decrease :: "stake_ledger \<Rightarrow> account \<Rightarrow> u64 \<Rightarrow> stake_ledger \<times> bool" where
  "decrease S a amount =
     (case bt_get (sk_bonded S) a of
        None \<Rightarrow> (S, False)
      | Some bal \<Rightarrow>
          if bal < amount then (S, False)
          else if bal - amount = 0 then (S\<lparr>sk_bonded := bt_remove a (sk_bonded S)\<rparr>, True)
          else (S\<lparr>sk_bonded := bt_insert a (bal - amount) (sk_bonded S)\<rparr>, True))"

definition record_slashed :: "stake_ledger \<Rightarrow> byte list \<Rightarrow> stake_ledger \<times> bool" where
  "record_slashed S k =
     (S\<lparr>sk_slashed := bt_insert k () (sk_slashed S)\<rparr>, \<not> bt_contains (sk_slashed S) k)"

definition put_stake :: "account \<times> u64 \<Rightarrow> byte list" where
  "put_stake e = fst e @ put_u64 (snd e)"

definition stake_to_bytes :: "stake_ledger \<Rightarrow> byte list" where
  "stake_to_bytes S =
     put_u32 (len_u32 (length (sk_bonded S))) @ concat (map put_stake (sk_bonded S)) @
     put_u32 (len_u32 (length (sk_slashed S))) @ concat (map fst (sk_slashed S))"

definition rd_stake :: "(account \<times> u64) reader" where
  "rd_stake bs = do { (a, r) \<leftarrow> rd_take 32 bs; (x, r) \<leftarrow> rd_u64 r; Some ((a, x), r) }"

definition stake_from_bytes :: "byte list \<Rightarrow> stake_ledger option" where
  "stake_from_bytes bs = do {
     (n, r) \<leftarrow> rd_u32 bs;
     (es, r) \<leftarrow> rd_rep (unat n) rd_stake r;
     (m, r) \<leftarrow> rd_u32 r;
     (ss, r) \<leftarrow> rd_rep (unat m) (rd_take 32) r;
     if r \<noteq> [] then None
     else Some \<lparr>sk_bonded = bt_collect es, sk_slashed = bt_collect (map (\<lambda>s. (s, ())) ss)\<rparr> }"

definition stake_state_root :: "('e, 'm, 's) crypto \<Rightarrow> stake_ledger \<Rightarrow> byte list" where
  "stake_state_root C S = hash_labeled C STAKE_ROOT_LABEL (stake_to_bytes S)"

definition slot_key :: "('e, 'm, 's) crypto \<Rightarrow> account \<Rightarrow> slash_evidence \<Rightarrow> byte list" where
  "slot_key C a ev =
     hash_labeled C SLASHED_SLOT_LABEL
       (a @ put_word 8 (ev_height ev) @ put_word 4 (ev_round ev) @ [phase_code (ev_phase ev)])"

section \<open>Effects\<close>

definition stake_ok :: "stake_ledger \<Rightarrow> bool" where
  "stake_ok S \<longleftrightarrow> bt_ok (sk_bonded S) \<and> bt_ok (sk_slashed S)"

definition staked :: "stake_ledger \<Rightarrow> nat" where
  "staked S = bt_sum (sk_bonded S)"

lemma stake_ok_ops [simp, intro]:
  "stake_ok stake_new"
  "stake_ok S \<Longrightarrow> stake_ok (increase S a x)"
  "stake_ok S \<Longrightarrow> stake_ok (fst (decrease S a x))"
  "stake_ok S \<Longrightarrow> stake_ok (fst (record_slashed S k))"
  by (auto simp: stake_ok_def stake_new_def increase_def decrease_def record_slashed_def bt_ok_def [of "[]"]
      split: option.split)

lemma staked_ops [simp]: "staked stake_new = 0" "staked (fst (record_slashed S k)) = staked S"
  by (simp_all add: staked_def stake_new_def bt_sum_def record_slashed_def)

lemma unat_foldl_saturating:
  "unat (foldl (\<lambda>acc e. saturating_add acc (snd e)) a m) = min (unat a + bt_sum m) (2 ^ 64 - 1)" for a :: u64
proof (induction m arbitrary: a)
  case Nil
  then show ?case using unat_lt [of a] by (simp add: bt_sum_def)
next
  case (Cons e m)
  then show ?case by (simp add: bt_sum_def unat_saturating_add)
qed

lemma total_bonded_exact: "staked S < 2 ^ 64 \<Longrightarrow> unat (total_bonded S) = staked S"
  by (simp add: total_bonded_def unat_foldl_saturating staked_def)

lemma increase_effect:
  assumes "stake_ok S" "staked S + unat x < 2 ^ 64"
  shows "staked (increase S a x) = staked S + unat x"
proof -
  have "unat (bt_get0 (sk_bonded S) a) \<le> staked S"
    using assms(1) by (simp add: stake_ok_def staked_def bt_get0_le_sum)
  then have sat: "unat (saturating_add (bt_get0 (sk_bonded S) a) x) = unat (bt_get0 (sk_bonded S) a) + unat x"
    using assms(2) by (simp add: unat_saturating_add)
  show ?thesis
    using bt_sum_insert [of "sk_bonded S" a "saturating_add (bt_get0 (sk_bonded S) a) x"] assms(1) sat
    by (simp add: increase_def staked_def stake_ok_def)
qed

text \<open>A stake that is there can be removed, unless nothing is bonded and nothing is asked for.\<close>

lemma decrease_effect:
  assumes "stake_ok S" "x \<le> bonded S a" "x \<noteq> 0 \<or> a \<in> bt_keys (sk_bonded S)"
  shows "snd (decrease S a x)" "staked (fst (decrease S a x)) + unat x = staked S"
    "bonded (fst (decrease S a x)) b = (if b = a then bonded S a - x else bonded S b)"
proof -
  have "bt_get (sk_bonded S) a \<noteq> None"
    using assms(2,3) bt_get_None [of "sk_bonded S" a] by (auto simp: bonded_def bt_get0_def split: option.splits)
  then obtain v where v: "bt_get (sk_bonded S) a = Some v" by blast
  then have g: "bt_get0 (sk_bonded S) a = v" "bonded S a = v" by (simp_all add: bt_get0_def bonded_def)
  have x: "unat (v - x) = unat v - unat x" "unat x \<le> unat v"
    using assms(2) g by (auto simp: unat_sub word_le_nat_alt)
  have sums: "bt_sum (bt_remove a (sk_bonded S)) + unat v = staked S"
    "bt_sum (bt_insert a (v - x) (sk_bonded S)) + unat v = staked S + unat (v - x)"
    using bt_sum_remove [of "sk_bonded S" a] bt_sum_insert [of "sk_bonded S" a "v - x"] assms(1) g
    by (simp_all add: stake_ok_def staked_def)
  show "snd (decrease S a x)" using v assms(2) g by (auto simp: decrease_def)
  show "bonded (fst (decrease S a x)) b = (if b = a then bonded S a - x else bonded S b)"
    using v assms(2) g by (auto simp: decrease_def bonded_def)
  show "staked (fst (decrease S a x)) + unat x = staked S"
  proof (cases "v - x = 0")
    case True
    then show ?thesis using v assms(2) g sums x by (auto simp: decrease_def staked_def)
  next
    case False
    then show ?thesis using v assms(2) g sums x by (auto simp: decrease_def staked_def)
  qed
qed

section \<open>The snapshot\<close>

interpretation stake_codec: codec put_stake rd_stake "\<lambda>e. length (fst e) = 32"
  by (rule codecI) (auto simp: rd_stake_def put_stake_def bind_eq_Some_conv codec_simps)

lemma stake_snapshot_roundtrip:
  assumes "stake_ok S" "list_all (\<lambda>e. length (fst e) = 32) (sk_bonded S)" "list_all (\<lambda>e. length (fst e) = 32) (sk_slashed S)"
    and "length (sk_bonded S) < 2 ^ 32" "length (sk_slashed S) < 2 ^ 32"
  shows "stake_from_bytes (stake_to_bytes S) = Some S"
proof -
  have unit: "map (\<lambda>s. (s, ())) (map fst (sk_slashed S)) = sk_slashed S" 
    by (simp add: comp_def) (rule map_idI, simp add: prod_eq_iff)
  have "rd_rep (length (sk_bonded S)) rd_stake (concat (map put_stake (sk_bonded S)) @ r) = Some (sk_bonded S, r)" for r
    using assms(2) by (simp add: stake_codec.rep_iff)
  moreover have "rd_rep (length (sk_slashed S)) (rd_take 32) (concat (map fst (sk_slashed S))) = Some (map fst (sk_slashed S), [])"
    using assms(3) bytes32.rep_iff [of "length (sk_slashed S)" _ "map fst (sk_slashed S)" "[]"]
    by (simp add: list_all_iff)
  ultimately show ?thesis
    using assms(1,4,5) unit bt_collect_sorted [of "sk_bonded S"] bt_collect_sorted [of "sk_slashed S"]
    by (simp add: stake_from_bytes_def stake_to_bytes_def stake_ok_def)
qed

end
