(* ===== verification/Hermes_Htlc.thy ===== *)
theory Hermes_Htlc
  imports Primitives_Codec Dromos_Token
begin

text \<open>
  HERMES: the hash time-locked contract (\<open>fanos-hermes/src/htlc.rs\<close>) and its ledger side, the contract
  identifiers, the \<open>TAG_HTLC\<close> transactions and the book of live contracts
  (\<open>fanos-dromos/src/hermes.rs\<close>). A contract pays out at most once, to the recipient before the timeout or
  to the sender from it on, and two contracts on one hashlock make an atomic swap.
\<close>

section \<open>The contract\<close>

definition TERMS_LEN :: nat where "TERMS_LEN = 32 + 32 + 8 + 32 + 8"
definition HASHLOCK_LABEL :: string where "HASHLOCK_LABEL = ''FANOS-hermes-v1/htlc-hashlock''"

definition hashlock :: "('e, 'm, 's) crypto \<Rightarrow> byte list \<Rightarrow> byte list" where
  "hashlock C preimage = hash_labeled C HASHLOCK_LABEL preimage"

record htlc_terms =
  ht_sender :: account
  ht_recipient :: account
  ht_amount :: u64
  ht_hashlock :: "byte list"
  ht_timeout :: u64

definition terms_to_bytes :: "htlc_terms \<Rightarrow> byte list" where
  "terms_to_bytes t =
     ht_sender t @ ht_recipient t @ put_le 8 (ht_amount t) @ ht_hashlock t @ put_le 8 (ht_timeout t)"

definition terms_from_bytes :: "byte list \<Rightarrow> htlc_terms option" where
  "terms_from_bytes bs =
     (if length bs \<noteq> TERMS_LEN then None
      else do {
        (s, r) \<leftarrow> rd_take 32 bs;
        (rc, r) \<leftarrow> rd_take 32 r;
        (a, r) \<leftarrow> rd_le 8 r;
        (h, r) \<leftarrow> rd_take 32 r;
        (t, r) \<leftarrow> rd_le 8 r;
        Some \<lparr>ht_sender = s, ht_recipient = rc, ht_amount = a, ht_hashlock = h, ht_timeout = t\<rparr> })"

datatype htlc_state = Locked | Claimed | Refunded

datatype resolution = Pay (pay_to: account) (pay_amount: u64)

record htlc =
  h_terms :: htlc_terms
  h_state :: htlc_state

definition htlc_new :: "htlc_terms \<Rightarrow> htlc" where
  "htlc_new t = \<lparr>h_terms = t, h_state = Locked\<rparr>"

primrec state_byte :: "htlc_state \<Rightarrow> byte" where
  "state_byte Locked = 0"
| "state_byte Claimed = 1"
| "state_byte Refunded = 2"

definition htlc_to_bytes :: "htlc \<Rightarrow> byte list" where
  "htlc_to_bytes h = terms_to_bytes (h_terms h) @ [state_byte (h_state h)]"

definition htlc_from_bytes :: "byte list \<Rightarrow> htlc option" where
  "htlc_from_bytes bs = do {
     (tb, r) \<leftarrow> rd_take TERMS_LEN bs;
     t \<leftarrow> terms_from_bytes tb;
     (b, r) \<leftarrow> rd_byte r;
     s \<leftarrow> (if b = 0 then Some Locked else if b = 1 then Some Claimed else if b = 2 then Some Refunded else None);
     if r \<noteq> [] then None else Some \<lparr>h_terms = t, h_state = s\<rparr> }"

definition htlc_claim :: "('e, 'm, 's) crypto \<Rightarrow> htlc \<Rightarrow> byte list \<Rightarrow> u64 \<Rightarrow> htlc \<times> resolution option" where
  "htlc_claim C h preimage height =
     (if h_state h \<noteq> Locked \<or> height \<ge> ht_timeout (h_terms h) \<or> hashlock C preimage \<noteq> ht_hashlock (h_terms h)
      then (h, None)
      else (h\<lparr>h_state := Claimed\<rparr>, Some (Pay (ht_recipient (h_terms h)) (ht_amount (h_terms h)))))"

definition htlc_refund :: "htlc \<Rightarrow> u64 \<Rightarrow> htlc \<times> resolution option" where
  "htlc_refund h height =
     (if h_state h \<noteq> Locked \<or> height < ht_timeout (h_terms h) then (h, None)
      else (h\<lparr>h_state := Refunded\<rparr>, Some (Pay (ht_sender (h_terms h)) (ht_amount (h_terms h)))))"

section \<open>The ledger side\<close>

definition HTLC_ESCROW :: account where "HTLC_ESCROW = ascii ''FANOS-hermes-htlc-escrow-sink!!!''"
definition HTLC_ID_LABEL :: string where "HTLC_ID_LABEL = ''FANOS-dromos-v1/htlc-id''"
definition HTLC_ROOT_LABEL :: string where "HTLC_ROOT_LABEL = ''FANOS-dromos-v1/htlc-root''"

definition htlc_id :: "('e, 'm, 's) crypto \<Rightarrow> htlc_terms \<Rightarrow> u64 \<Rightarrow> byte list" where
  "htlc_id C t funding_nonce = hash_labeled C HTLC_ID_LABEL (terms_to_bytes t @ put_le 8 funding_nonce)"

datatype ('e, 'm) htlc_tx =
    Lock htlc_terms "('e, 'm) signed_transfer"
  | Claim "byte list" "byte list"
  | Refund "byte list"

primrec htlc_tx_to_bytes :: "('e, 'm, 's) crypto \<Rightarrow> ('e, 'm) htlc_tx \<Rightarrow> byte list" where
  "htlc_tx_to_bytes C (Lock t p) = 0 # terms_to_bytes t @ st_to_bytes C p"
| "htlc_tx_to_bytes C (Claim i s) = 1 # i @ s"
| "htlc_tx_to_bytes C (Refund i) = 2 # i"

definition htlc_tx_from_bytes :: "('e, 'm, 's) crypto \<Rightarrow> byte list \<Rightarrow> ('e, 'm) htlc_tx option" where
  "htlc_tx_from_bytes C bs =
     (case bs of
        [] \<Rightarrow> None
      | op # body \<Rightarrow>
          if op = 0 then do {
            (tb, r) \<leftarrow> rd_take TERMS_LEN body;
            t \<leftarrow> terms_from_bytes tb;
            p \<leftarrow> st_from_bytes C r;
            Some (Lock t p) }
          else if op = 1 then do {
            (i, r) \<leftarrow> rd_take 32 body;
            (s, r) \<leftarrow> rd_take 32 r;
            Some (Claim i s) }
          else if op = 2 \<and> length body = 32 then Some (Refund body)
          else None)"

type_synonym htlc_book = "(byte list, htlc) btree"

definition book_state :: "htlc_book \<Rightarrow> byte list \<Rightarrow> htlc_state option" where
  "book_state b i = map_option h_state (bt_get b i)"

definition book_root_preimage :: "htlc_book \<Rightarrow> byte list" where
  "book_root_preimage b = concat (map (\<lambda>e. fst e @ [state_byte (h_state (snd e))]) b)"

definition book_state_root :: "('e, 'm, 's) crypto \<Rightarrow> htlc_book \<Rightarrow> byte list" where
  "book_state_root C b = hash_labeled C HTLC_ROOT_LABEL (book_root_preimage b)"

definition put_contract :: "byte list \<times> htlc \<Rightarrow> byte list" where
  "put_contract e = fst e @ put_var_bytes (htlc_to_bytes (snd e))"

definition rd_contract :: "(byte list \<times> htlc) reader" where
  "rd_contract bs = do {
     (i, r) \<leftarrow> rd_take 32 bs;
     (hb, r) \<leftarrow> rd_var_bytes r;
     h \<leftarrow> htlc_from_bytes hb;
     Some ((i, h), r) }"

definition book_to_bytes :: "htlc_book \<Rightarrow> byte list" where
  "book_to_bytes b = put_map put_contract b"

definition book_from_bytes :: "byte list \<Rightarrow> htlc_book option" where
  "book_from_bytes bs = do {
     (b, r) \<leftarrow> read_map 36 rd_contract bs;
     if r \<noteq> [] then None else Some b }"

section \<open>A contract pays at most once\<close>

datatype attempt = TryClaim "byte list" u64 | TryRefund u64

primrec attempt_step :: "('e, 'm, 's) crypto \<Rightarrow> htlc \<Rightarrow> attempt \<Rightarrow> htlc \<times> resolution option" where
  "attempt_step C h (TryClaim s height) = htlc_claim C h s height"
| "attempt_step C h (TryRefund height) = htlc_refund h height"

fun attempts_run :: "('e, 'm, 's) crypto \<Rightarrow> htlc \<Rightarrow> attempt list \<Rightarrow> htlc \<times> resolution list" where
  "attempts_run C h [] = (h, [])"
| "attempts_run C h (a # as) =
     (let (h', p) = attempt_step C h a; (h'', ps) = attempts_run C h' as
      in (h'', (case p of None \<Rightarrow> ps | Some x \<Rightarrow> x # ps)))"

lemma resolved_stays:
  "h_state h \<noteq> Locked \<Longrightarrow> attempts_run C h as = (h, [])"
proof (induction as)
  case (Cons a as)
  then show ?case by (cases a) (simp_all add: htlc_claim_def htlc_refund_def)
qed simp

text \<open>Which attempt resolves a locked contract, and how.\<close>

definition resolves :: "('e, 'm, 's) crypto \<Rightarrow> htlc_terms \<Rightarrow> attempt \<Rightarrow> (htlc_state \<times> resolution) option" where
  "resolves C t a =
     (case a of
        TryClaim s height \<Rightarrow>
          (if height < ht_timeout t \<and> hashlock C s = ht_hashlock t then Some (Claimed, Pay (ht_recipient t) (ht_amount t)) else None)
      | TryRefund height \<Rightarrow>
          (if ht_timeout t \<le> height then Some (Refunded, Pay (ht_sender t) (ht_amount t)) else None))"

text \<open>
  Over any sequence of claim and refund attempts, whatever their secrets and heights, a contract
  pays exactly what its first admissible attempt resolves to and nothing afterwards: the recipient on a
  claim with a matching preimage strictly before the timeout, the sender on a refund from the timeout
  on, and no payment when no attempt is admissible. No height admits both.
\<close>

theorem htlc_pays_once:
  "attempts_run C (htlc_new t) as =
     (case find (\<lambda>a. resolves C t a \<noteq> None) as of
        None \<Rightarrow> (htlc_new t, [])
      | Some a \<Rightarrow> (case the (resolves C t a) of (s, p) \<Rightarrow> (\<lparr>h_terms = t, h_state = s\<rparr>, [p])))"
proof (induction as)
  case (Cons a as)
  have step: "attempt_step C (htlc_new t) a =
      (case resolves C t a of None \<Rightarrow> (htlc_new t, None) | Some (s, p) \<Rightarrow> (\<lparr>h_terms = t, h_state = s\<rparr>, Some p))"
    by (cases a) (auto simp: htlc_claim_def htlc_refund_def resolves_def htlc_new_def)
  show ?case
  proof (cases "resolves C t a")
    case None
    then show ?thesis using Cons step by (simp add: Let_def split: prod.splits)
  next
    case (Some sp)
    then obtain s p where sp: "resolves C t a = Some (s, p)" by (cases sp) simp
    then have "s \<noteq> Locked" by (auto simp: resolves_def split: attempt.splits if_splits)
    then show ?thesis using step sp by (simp add: resolved_stays)
  qed
qed simp

text \<open>
  C18. Two contracts on one hashlock make an atomic swap. Once the counterparty's claim on the second
  contract has paid, the secret it revealed also pays the first contract at every height before its
  timeout, however many refunds were attempted there meanwhile; and when nobody reveals a matching
  secret, no sequence of attempts pays a recipient on either side.
\<close>

theorem atomic_swap:
  assumes "ht_hashlock tA = ht_hashlock tB"
    and "snd (htlc_claim C (htlc_new tB) s hB) = Some p"
    and "list_all (\<lambda>h. h < ht_timeout tA) hs" "hA < ht_timeout tA"
  shows "snd (attempts_run C (htlc_new tA) (map TryRefund hs @ [TryClaim s hA])) = [Pay (ht_recipient tA) (ht_amount tA)] \<and>
    (\<forall>as t. list_all (\<lambda>a. case a of TryClaim x _ \<Rightarrow> hashlock C x \<noteq> ht_hashlock t | TryRefund _ \<Rightarrow> True) as \<longrightarrow>
       list_all (\<lambda>r. r = Pay (ht_sender t) (ht_amount t)) (snd (attempts_run C (htlc_new t) as)))"
proof
  have s: "hashlock C s = ht_hashlock tA"
    using assms(1,2) by (auto simp: htlc_claim_def htlc_new_def split: if_splits)
  have "attempts_run C (htlc_new tA) (map TryRefund hs @ [TryClaim s hA]) =
      (\<lparr>h_terms = tA, h_state = Claimed\<rparr>, [Pay (ht_recipient tA) (ht_amount tA)])"
    using assms(3,4) s by (induction hs) (auto simp: htlc_claim_def htlc_refund_def htlc_new_def)
  then show "snd (attempts_run C (htlc_new tA) (map TryRefund hs @ [TryClaim s hA])) = [Pay (ht_recipient tA) (ht_amount tA)]"
    by simp
next
  have "list_all (\<lambda>r. r = Pay (ht_sender t) (ht_amount t)) (snd (attempts_run C (htlc_new t) as))"
    if "list_all (\<lambda>a. case a of TryClaim x _ \<Rightarrow> hashlock C x \<noteq> ht_hashlock t | TryRefund _ \<Rightarrow> True) as" for as t
    using that
  proof (induction as)
    case (Cons a as)
    then show ?case
      by (cases a) (auto simp: htlc_claim_def htlc_refund_def htlc_new_def resolved_stays split: prod.splits)
  qed (simp add: htlc_new_def)
  then show "\<forall>as t. list_all (\<lambda>a. case a of TryClaim x _ \<Rightarrow> hashlock C x \<noteq> ht_hashlock t | TryRefund _ \<Rightarrow> True) as \<longrightarrow>
       list_all (\<lambda>r. r = Pay (ht_sender t) (ht_amount t)) (snd (attempts_run C (htlc_new t) as))" by blast
qed

definition toy_terms :: "byte \<Rightarrow> byte \<Rightarrow> u64 \<Rightarrow> htlc_terms" where
  "toy_terms i j T = \<lparr>ht_sender = toy_account i, ht_recipient = toy_account j, ht_amount = 40,
     ht_hashlock = hashlock toy_crypto (replicate 32 9), ht_timeout = T\<rparr>"

theorem atomic_swap_witness:
  "snd (attempts_run toy_crypto (htlc_new (toy_terms 1 2 200)) [TryRefund 50, TryClaim (replicate 32 9) 120]) =
     [Pay (toy_account 2) 40]"
  using atomic_swap [of "toy_terms 1 2 200" "toy_terms 2 1 100" toy_crypto "replicate 32 9" 90 _ "[50]" 120]
  by (simp add: toy_terms_def htlc_claim_def htlc_new_def)

section \<open>Wire forms\<close>

definition terms_wf :: "htlc_terms \<Rightarrow> bool" where
  "terms_wf t \<longleftrightarrow> length (ht_sender t) = 32 \<and> length (ht_recipient t) = 32 \<and> length (ht_hashlock t) = 32"

lemma terms_from_bytes_iff [codec_simps]: "terms_from_bytes bs = Some t \<longleftrightarrow> terms_wf t \<and> bs = terms_to_bytes t"
proof
  assume "terms_from_bytes bs = Some t"
  then show "terms_wf t \<and> bs = terms_to_bytes t"
    by (auto simp: terms_from_bytes_def bind_eq_Some_conv codec_simps terms_to_bytes_def terms_wf_def TERMS_LEN_def
        split: if_splits)
next
  assume "terms_wf t \<and> bs = terms_to_bytes t"
  then show "terms_from_bytes bs = Some t"
    by (simp add: terms_from_bytes_def le_dec_enc terms_to_bytes_def terms_wf_def TERMS_LEN_def)
qed

lemma terms_from_to [simp]: "terms_wf t \<Longrightarrow> terms_from_bytes (terms_to_bytes t) = Some t"
  by (simp add: terms_from_bytes_iff)

lemma length_terms_to_bytes [simp]: "terms_wf t \<Longrightarrow> length (terms_to_bytes t) = TERMS_LEN"
  by (simp add: terms_to_bytes_def terms_wf_def TERMS_LEN_def)

lemma htlc_from_bytes_iff [codec_simps]:
  "htlc_from_bytes bs = Some h \<longleftrightarrow> terms_wf (h_terms h) \<and> bs = htlc_to_bytes h"
proof
  assume "htlc_from_bytes bs = Some h"
  then show "terms_wf (h_terms h) \<and> bs = htlc_to_bytes h"
    by (auto simp: htlc_from_bytes_def bind_eq_Some_conv codec_simps rd_take_iff htlc_to_bytes_def split: if_splits)
next
  assume "terms_wf (h_terms h) \<and> bs = htlc_to_bytes h"
  then show "htlc_from_bytes bs = Some h"
    by (cases "h_state h") (simp_all add: htlc_from_bytes_def htlc_to_bytes_def)
qed

definition contract_wf :: "byte list \<times> htlc \<Rightarrow> bool" where
  "contract_wf e \<longleftrightarrow> length (fst e) = 32 \<and> terms_wf (h_terms (snd e))"

lemma length_htlc_to_bytes [simp]: "terms_wf (h_terms h) \<Longrightarrow> length (htlc_to_bytes h) = 113"
  by (simp add: htlc_to_bytes_def TERMS_LEN_def)

interpretation contract_codec: codec put_contract rd_contract contract_wf
  by (rule codecI)
     (auto simp: rd_contract_def put_contract_def bind_eq_Some_conv codec_simps var_bytes.dec_iff contract_wf_def)

text \<open>
  A state-sync snapshot of the HTLC book restores it exactly, contracts, states and order, so also
  its state root.
\<close>

theorem book_snapshot_roundtrip:
  assumes "bt_ok b" "list_all contract_wf b" "length b < 2 ^ 32"
  shows "book_from_bytes (book_to_bytes b) = Some b"
proof -
  have "36 \<le> length (put_contract e)" if "contract_wf e" for e
    using that by (simp add: put_contract_def contract_wf_def put_var_bytes_def)
  then show ?thesis
    using read_map_put_map [OF contract_codec.codec_axioms assms(2,1,3), of 36 "[]"]
    by (simp add: book_from_bytes_def book_to_bytes_def)
qed

theorem book_snapshot_roundtrip_witness:
  "book_from_bytes (book_to_bytes [(replicate 32 5, htlc_new (toy_terms 1 2 200))]) =
     Some [(replicate 32 5, htlc_new (toy_terms 1 2 200))]"
  by (rule book_snapshot_roundtrip)
     (simp_all add: bt_ok_def contract_wf_def htlc_new_def terms_wf_def toy_terms_def toy_account_def hashlock_def
       hash_labeled_def toy_crypto_def)

text \<open>
  A claim is decoded from any body that starts with 64 bytes: what follows is ignored, unlike the
  refund, whose body must have its exact length.
\<close>

lemma claim_ignores_trailing_bytes:
  assumes "length i = 32" "length s = 32"
  shows "htlc_tx_from_bytes C (htlc_tx_to_bytes C (Claim i s) @ junk) = Some (Claim i s)"
  using assms by (simp add: htlc_tx_from_bytes_def)

end
