(* ===== verification/Merkle.thy ===== *)
theory Merkle
  imports Fanos_Crypto
begin

text \<open>
  The Merkle tree of \<open>fanos-primitives/src/merkle.rs\<close>: count-binding roots, authentication paths of the
  exact height, and their verification. Every leaf opens against its root; an opening of a different leaf
  at the same position, or a second leaf sequence of another length with the same root, exhibits a
  collision of the hash.
\<close>

definition NODE_LABEL :: string where "NODE_LABEL = ''FANOS-v1/merkle-node''"
definition MERKLE_ROOT_LABEL :: string where "MERKLE_ROOT_LABEL = ''FANOS-v1/merkle-root''"
definition EMPTY_LABEL :: string where "EMPTY_LABEL = ''FANOS-v1/merkle-empty''"
definition MAX_LEAVES :: nat where "MAX_LEAVES = 2 ^ 32"

definition empty_root :: "('e, 'm, 's) crypto \<Rightarrow> byte list" where
  "empty_root C = hash_labeled C EMPTY_LABEL []"

definition merkle_node :: "('e, 'm, 's) crypto \<Rightarrow> byte list \<Rightarrow> byte list \<Rightarrow> byte list" where
  "merkle_node C l r = hash_labeled C NODE_LABEL (l @ r)"

fun bit_width :: "nat \<Rightarrow> nat" where
  "bit_width n = (if n = 0 then 0 else Suc (bit_width (n div 2)))"

declare bit_width.simps [simp del]

definition merkle_height :: "nat \<Rightarrow> nat" where
  "merkle_height count = (if count \<le> 1 then 0 else bit_width (count - 1))"

definition wrap :: "('e, 'm, 's) crypto \<Rightarrow> nat \<Rightarrow> byte list \<Rightarrow> byte list" where
  "wrap C count bare = hash_labeled C MERKLE_ROOT_LABEL (put_word 8 (word_of_nat count :: u64) @ bare)"

text \<open>One round of the inner loop: neighbours are paired, an odd tail with itself.\<close>

fun next_level :: "('e, 'm, 's) crypto \<Rightarrow> byte list list \<Rightarrow> byte list list" where
  "next_level C [] = []"
| "next_level C [x] = [merkle_node C x x]"
| "next_level C (x # y # xs) = merkle_node C x y # next_level C xs"

lemma length_next_level [simp]: "length (next_level C xs) = (length xs + 1) div 2"
  by (induction C xs rule: next_level.induct) auto

function merkle_fold :: "('e, 'm, 's) crypto \<Rightarrow> byte list list \<Rightarrow> byte list" where
  "merkle_fold C level =
     (if length level > 1 then merkle_fold C (next_level C level)
      else case level of [] \<Rightarrow> empty_root C | x # _ \<Rightarrow> x)"
  by pat_completeness auto
termination
  by (relation "measure (\<lambda>(C, level). length level)") auto

declare merkle_fold.simps [simp del]

definition merkle_root :: "('e, 'm, 's) crypto \<Rightarrow> byte list list \<Rightarrow> byte list option" where
  "merkle_root C leaves =
     (if length leaves > MAX_LEAVES then None
      else if length leaves = 0 then Some (empty_root C)
      else Some (wrap C (length leaves) (merkle_fold C leaves)))"

text \<open>The sibling \<open>prove\<close> records at one level.\<close>

definition sibling :: "('e, 'm, 's) crypto \<Rightarrow> byte list list \<Rightarrow> nat \<Rightarrow> byte list" where
  "sibling C level idx =
     (if even idx then (if idx + 1 < length level then level ! (idx + 1)
                        else if idx < length level then level ! idx else empty_root C)
      else if idx - 1 < length level then level ! (idx - 1) else empty_root C)"

function merkle_path :: "('e, 'm, 's) crypto \<Rightarrow> byte list list \<Rightarrow> nat \<Rightarrow> byte list list" where
  "merkle_path C level idx =
     (if length level > 1 then sibling C level idx # merkle_path C (next_level C level) (idx div 2) else [])"
  by pat_completeness auto
termination
  by (relation "measure (\<lambda>(C, level, idx). length level)") auto

declare merkle_path.simps [simp del]

definition merkle_prove :: "('e, 'm, 's) crypto \<Rightarrow> byte list list \<Rightarrow> nat \<Rightarrow> byte list list option" where
  "merkle_prove C leaves index =
     (if length leaves > MAX_LEAVES \<or> index \<ge> length leaves then None else Some (merkle_path C leaves index))"

fun merkle_climb :: "('e, 'm, 's) crypto \<Rightarrow> byte list \<Rightarrow> nat \<Rightarrow> byte list list \<Rightarrow> byte list" where
  "merkle_climb C acc idx [] = acc"
| "merkle_climb C acc idx (sib # sibs) =
     merkle_climb C (if even idx then merkle_node C acc sib else merkle_node C sib acc) (idx div 2) sibs"

definition merkle_verify ::
    "('e, 'm, 's) crypto \<Rightarrow> byte list \<Rightarrow> nat \<Rightarrow> byte list list \<Rightarrow> byte list \<Rightarrow> nat \<Rightarrow> bool" where
  "merkle_verify C lf index siblings rt count =
     (if count = 0 \<or> count > MAX_LEAVES \<or> index \<ge> count then False
      else if length siblings \<noteq> merkle_height count then False
      else wrap C count (merkle_climb C lf index siblings) = rt)"

section \<open>Every leaf opens\<close>

lemma next_level_nth:
  "i < length xs \<Longrightarrow> next_level C xs ! (i div 2) =
     (if even i then merkle_node C (xs ! i) (sibling C xs i) else merkle_node C (sibling C xs i) (xs ! i))"
proof (induction C xs arbitrary: i rule: next_level.induct)
  case (3 C x y xs)
  show ?case
  proof (cases "i < 2")
    case True
    then show ?thesis by (auto simp: less_2_cases_iff sibling_def)
  next
    case False
    define j where "j = i - 2"
    have i: "i = j + 2" using False by (simp add: j_def)
    have "sibling C (x # y # xs) (j + 2) = sibling C xs j"
      by (cases j) (auto simp: sibling_def)
    with "3.IH" [of j] "3.prems" show ?thesis by (simp add: i)
  qed
qed (auto simp: sibling_def)

lemma merkle_height_step: "1 < n \<Longrightarrow> merkle_height n = Suc (merkle_height ((n + 1) div 2))"
proof -
  assume n: "1 < n"
  have h: "(n - 1) div 2 = (n + 1) div 2 - 1" by linarith
  have "bit_width (n - 1) = Suc (bit_width ((n + 1) div 2 - 1))"
    using n unfolding h [symmetric] by (subst bit_width.simps) simp
  moreover have "bit_width ((n + 1) div 2 - 1) = merkle_height ((n + 1) div 2)"
    using n by (auto simp: merkle_height_def bit_width.simps [of 0])
  ultimately show ?thesis using n by (simp add: merkle_height_def)
qed

lemma merkle_path_climbs:
  "idx < length level \<Longrightarrow>
     length (merkle_path C level idx) = merkle_height (length level) \<and>
     merkle_climb C (level ! idx) idx (merkle_path C level idx) = merkle_fold C level"
proof (induction C level idx rule: merkle_path.induct)
  case (1 C level idx)
  show ?case
  proof (cases "length level > 1")
    case True
    have lt: "idx div 2 < length (next_level C level)" using "1.prems" by simp
    note IH = "1.IH" [OF True lt]
    have "merkle_path C level idx = sibling C level idx # merkle_path C (next_level C level) (idx div 2)"
      using True by (simp add: merkle_path.simps [of C level])
    moreover have "merkle_fold C level = merkle_fold C (next_level C level)"
      using True by (simp add: merkle_fold.simps [of C level])
    ultimately show ?thesis
      using IH next_level_nth [OF "1.prems", of C] True by (simp add: merkle_height_step)
  next
    case False
    then obtain x where "level = [x]" "idx = 0" using "1.prems" by (cases level) auto
    then show ?thesis
      by (simp add: merkle_path.simps [of C "[x]"] merkle_fold.simps [of C "[x]"] merkle_height_def)
  qed
qed

text \<open>
  Every leaf of every tree of at most \<open>2\<^sup>32\<close> leaves opens: for an index in range \<open>prove\<close> returns a
  path, the root exists, and \<open>verify\<close> accepts the leaf at its index against them. The loops that fold the
  levels and collect the path terminate for every input.
\<close>

theorem merkle_complete:
  assumes "i < length leaves" "length leaves \<le> MAX_LEAVES"
  shows "\<exists>rt p. merkle_root C leaves = Some rt \<and> merkle_prove C leaves i = Some p \<and>
    merkle_verify C (leaves ! i) i p rt (length leaves)"
  using merkle_path_climbs [OF assms(1), of C] assms
  by (auto simp: merkle_root_def merkle_prove_def merkle_verify_def)

theorem merkle_complete_witness:
  "\<exists>rt p. merkle_root toy_crypto [[1], [2], [3]] = Some rt \<and> merkle_prove toy_crypto [[1], [2], [3]] 2 = Some p \<and>
    merkle_verify toy_crypto [3] 2 p rt 3"
  using merkle_complete [of 2 "[[1], [2], [3]]" toy_crypto] by (simp add: MAX_LEAVES_def numeral_3_eq_3)

section \<open>Binding\<close>

text \<open>Two inputs of the third-party hash that collide.\<close>

text \<open>
  Binding is stated on explicit inputs: \<open>collides C X\<close> says that two different byte strings of \<open>X\<close> hash
  alike, and every theorem names for \<open>X\<close> the finitely many strings that the verifications at hand hash.
\<close>

definition collides :: "('e, 'm, 's) crypto \<Rightarrow> byte list set \<Rightarrow> bool" where
  "collides C X \<longleftrightarrow> (\<exists>x \<in> X. \<exists>y \<in> X. x \<noteq> y \<and> blake3 C x = blake3 C y)"

lemma collides_mono: "\<not> collides C Y \<Longrightarrow> X \<subseteq> Y \<Longrightarrow> \<not> collides C X"
  unfolding collides_def by blast

lemma labeled_hasher_inj [simp]: "labeled_hasher l x = labeled_hasher l y \<longleftrightarrow> x = y"
  by (simp add: labeled_hasher_def)

lemma hash_labeled_inj:
  "hash_labeled C l x = hash_labeled C l y \<Longrightarrow> \<not> collides C X \<Longrightarrow> labeled_hasher l x \<in> X \<Longrightarrow> labeled_hasher l y \<in> X \<Longrightarrow> x = y"
  unfolding hash_labeled_def collides_def using labeled_hasher_inj by blast

definition hash_width :: "('e, 'm, 's) crypto \<Rightarrow> bool" where
  "hash_width C \<longleftrightarrow> (\<forall>x. length (blake3 C x) = 32)"

lemma length_merkle_node [simp]: "hash_width C \<Longrightarrow> length (merkle_node C x y) = 32"
  by (simp add: hash_width_def merkle_node_def hash_labeled_def)

abbreviation node_input :: "byte list \<Rightarrow> byte list \<Rightarrow> byte list" where
  "node_input l r \<equiv> labeled_hasher NODE_LABEL (l @ r)"

text \<open>The strings hashed while climbing from a leaf, and while verifying an opening.\<close>

fun climb_inputs :: "('e, 'm, 's) crypto \<Rightarrow> byte list \<Rightarrow> nat \<Rightarrow> byte list list \<Rightarrow> byte list set" where
  "climb_inputs C acc idx [] = {}"
| "climb_inputs C acc idx (sib # sibs) =
     insert (if even idx then node_input acc sib else node_input sib acc)
       (climb_inputs C (if even idx then merkle_node C acc sib else merkle_node C sib acc) (idx div 2) sibs)"

definition opening_inputs :: "('e, 'm, 's) crypto \<Rightarrow> byte list \<Rightarrow> nat \<Rightarrow> byte list list \<Rightarrow> nat \<Rightarrow> byte list set" where
  "opening_inputs C lf index siblings count =
     insert (labeled_hasher MERKLE_ROOT_LABEL (put_word 8 (word_of_nat count :: u64) @ merkle_climb C lf index siblings))
       (climb_inputs C lf index siblings)"

lemma merkle_node_inj:
  assumes "merkle_node C a b = merkle_node C a' b'" "length a = length a'"
    and "\<not> collides C X" "node_input a b \<in> X" "node_input a' b' \<in> X"
  shows "a = a' \<and> b = b'"
  using hash_labeled_inj [OF assms(1) [unfolded merkle_node_def] assms(3-5)] assms(2) by simp

lemma merkle_climb_inj:
  assumes "hash_width C" "length a = 32" "length b = 32" "length p = length q"
    and "list_all (\<lambda>s. length s = 32) p" "list_all (\<lambda>s. length s = 32) q"
    and "merkle_climb C a i p = merkle_climb C b i q"
    and "\<not> collides C X" "climb_inputs C a i p \<subseteq> X" "climb_inputs C b i q \<subseteq> X"
  shows "a = b \<and> p = q"
  using assms(4,2,3,5-7,9,10)
proof (induction p q arbitrary: a b i rule: list_induct2)
  case (Cons x p y q)
  let ?a = "if even i then merkle_node C a x else merkle_node C x a"
  let ?b = "if even i then merkle_node C b y else merkle_node C y b"
  have "?a = ?b \<and> p = q"
    using Cons assms(1) by (intro Cons.IH [of ?a ?b "i div 2"]) auto
  moreover have "?a = ?b \<Longrightarrow> a = b \<and> x = y"
    using merkle_node_inj [OF _ _ assms(8), of a x b y] merkle_node_inj [OF _ _ assms(8), of x a y b] Cons.prems
    by (auto split: if_splits)
  ultimately show ?case by auto
qed simp

lemma merkle_opening_unique:
  assumes "hash_width C"
    and "merkle_verify C a i p rt n" "merkle_verify C b i q rt n"
    and "length a = 32" "length b = 32" "list_all (\<lambda>s. length s = 32) (p @ q)"
    and "\<not> collides C X" "opening_inputs C a i p n \<subseteq> X" "opening_inputs C b i q n \<subseteq> X"
  shows "a = b \<and> p = q"
proof -
  have w: "wrap C n (merkle_climb C a i p) = wrap C n (merkle_climb C b i q)" and len: "length p = length q"
    using assms(2,3) by (auto simp: merkle_verify_def split: if_splits)
  have "merkle_climb C a i p = merkle_climb C b i q"
    using hash_labeled_inj [OF w [unfolded wrap_def] assms(7)] assms(8,9) by (simp add: opening_inputs_def)
  then show ?thesis
    using merkle_climb_inj [OF assms(1,4,5) len _ _ _ assms(7)] assms(6,8,9) by (simp add: opening_inputs_def)
qed

lemma next_level_width:
  "hash_width C \<Longrightarrow> list_all (\<lambda>s. length s = 32) (next_level C level)"
  by (induction C level rule: next_level.induct) auto

lemma merkle_path_width:
  "hash_width C \<Longrightarrow> list_all (\<lambda>s. length s = 32) level \<Longrightarrow> list_all (\<lambda>s. length s = 32) (merkle_path C level idx)"
proof (induction C level idx rule: merkle_path.induct)
  case (1 C level idx)
  have "length (sibling C level idx) = 32"
    using "1.prems" by (auto simp: sibling_def list_all_length empty_root_def hash_labeled_def hash_width_def)
  then show ?case
    using "1.IH" "1.prems"(1) next_level_width [of C level] by (simp add: merkle_path.simps [of C level])
qed

text \<open>
  C19. A root commits to its leaves. When two 32-byte leaves both verify at one position of one root and
  count, they and their paths are the same, or two of the strings that the two verifications hash (at most
  33 each) are a collision of BLAKE3.
\<close>

theorem merkle_binding:
  assumes "hash_width C"
    and "merkle_verify C a i p rt n" "merkle_verify C b i q rt n"
    and "length a = 32" "length b = 32" "list_all (\<lambda>s. length s = 32) (p @ q)"
  shows "collides C (opening_inputs C a i p n \<union> opening_inputs C b i q n) \<or> a = b \<and> p = q"
  using merkle_opening_unique [OF assms] by blast

theorem merkle_binding_witness:
  "let a = replicate 32 7; rt = wrap toy_crypto 1 a
   in merkle_verify toy_crypto a 0 [] rt 1 \<and>
      (collides toy_crypto (opening_inputs toy_crypto a 0 [] 1 \<union> opening_inputs toy_crypto a 0 [] 1) \<or> a = a \<and> [] = ([] :: byte list list))"
proof -
  let ?a = "replicate 32 7 :: byte list" and ?rt = "wrap toy_crypto 1 (replicate 32 7)"
  have v: "merkle_verify toy_crypto ?a 0 [] ?rt 1" by (simp add: merkle_verify_def merkle_height_def MAX_LEAVES_def)
  have "hash_width toy_crypto" by (auto simp: hash_width_def toy_crypto_def min_def)
  from merkle_binding [OF this v v] v show ?thesis by (simp add: Let_def)
qed

definition root_input :: "('e, 'm, 's) crypto \<Rightarrow> byte list list \<Rightarrow> byte list" where
  "root_input C xs = labeled_hasher MERKLE_ROOT_LABEL (put_word 8 (word_of_nat (length xs) :: u64) @ merkle_fold C xs)"

lemma merkle_count_binding:
  assumes "merkle_root C xs = Some rt" "merkle_root C ys = Some rt" "xs \<noteq> []" "ys \<noteq> []" "length xs \<noteq> length ys"
  shows "collides C {root_input C xs, root_input C ys}"
proof (rule ccontr)
  assume no: "\<not> collides C {root_input C xs, root_input C ys}"
  let ?x = "put_word 8 (word_of_nat (length xs) :: u64)" and ?y = "put_word 8 (word_of_nat (length ys) :: u64)"
  have eq: "hash_labeled C MERKLE_ROOT_LABEL (?x @ merkle_fold C xs) = hash_labeled C MERKLE_ROOT_LABEL (?y @ merkle_fold C ys)"
    and le: "length xs \<le> 2 ^ 32" "length ys \<le> 2 ^ 32"
    using assms(1-4) by (auto simp: merkle_root_def wrap_def MAX_LEAVES_def split: if_splits)
  have "?x @ merkle_fold C xs = ?y @ merkle_fold C ys"
    by (rule hash_labeled_inj [OF eq no]) (simp_all add: root_input_def)
  then have "(word_of_nat (length xs) :: u64) = word_of_nat (length ys)" using u64.enc_inj by simp
  then have "unat (word_of_nat (length xs) :: u64) = unat (word_of_nat (length ys) :: u64)" by simp
  then show False using le assms(5) by (simp add: unat_of_nat take_bit_eq_mod)
qed

end
