(* ===== verification/Thesauros_Por.thy ===== *)
theory Thesauros_Por
  imports Merkle Primitives_Codec
begin

text \<open>
  THESAUROS content addressing (\<open>fanos-thesauros/src/content.rs\<close>) and the proof of retrievability
  (\<open>por.rs\<close>): position-bound leaves under a Merkle root, beacon-driven challenges, responses and their
  verification and wire form. The challenge loop draws until it has enough distinct indices and is a
  partial function: \<open>None\<close> is a loop that does not end. Byte offsets and lengths fit a \<open>usize\<close>.
\<close>

section \<open>Content\<close>

definition LEAF :: nat where "LEAF = 4096"
definition CHUNK :: nat where "CHUNK = 262144"
definition LEAF_LABEL :: string where "LEAF_LABEL = ''FANOS-v1/thesauros-leaf''"

text \<open>\<open>slice::chunks\<close>.\<close>

function chunks_of :: "nat \<Rightarrow> 'a list \<Rightarrow> 'a list list" where
  "chunks_of n xs = (if n = 0 \<or> xs = [] then [] else take n xs # chunks_of n (drop n xs))"
  by pat_completeness auto
termination
  by (relation "measure (\<lambda>(n, xs). length xs)") auto

declare chunks_of.simps [simp del]

definition leaf_hash :: "('e, 'm, 's) crypto \<Rightarrow> nat \<Rightarrow> byte list \<Rightarrow> byte list" where
  "leaf_hash C index bytes = hash_labeled C LEAF_LABEL (put_le 8 (word_of_nat index :: u64) @ bytes)"

definition leaf_hashes :: "('e, 'm, 's) crypto \<Rightarrow> byte list \<Rightarrow> byte list list" where
  "leaf_hashes C chunk =
     (if chunk = [] then [leaf_hash C 0 []]
      else map (\<lambda>(i, b). leaf_hash C i b) (enumerate 0 (chunks_of LEAF chunk)))"

definition content_root :: "('e, 'm, 's) crypto \<Rightarrow> byte list list \<Rightarrow> byte list" where
  "content_root C leaves = (case merkle_root C leaves of None \<Rightarrow> empty_root C | Some r \<Rightarrow> r)"

definition leaf_count :: "byte list \<Rightarrow> nat" where
  "leaf_count chunk = (if chunk = [] then 1 else (length chunk + LEAF - 1) div LEAF)"

definition chunk_leaf :: "byte list \<Rightarrow> nat \<Rightarrow> byte list option" where
  "chunk_leaf chunk index =
     (if chunk = [] then (if index = 0 then Some [] else None)
      else if index < length (chunks_of LEAF chunk) then Some (chunks_of LEAF chunk ! index) else None)"

definition chunk_cid :: "('e, 'm, 's) crypto \<Rightarrow> byte list \<Rightarrow> byte list" where
  "chunk_cid C chunk = content_root C (leaf_hashes C chunk)"

definition merkle_proof :: "('e, 'm, 's) crypto \<Rightarrow> byte list \<Rightarrow> nat \<Rightarrow> byte list list option" where
  "merkle_proof C chunk index = merkle_prove C (leaf_hashes C chunk) index"

definition prove_leaf :: "('e, 'm, 's) crypto \<Rightarrow> byte list \<Rightarrow> nat \<Rightarrow> (byte list \<times> byte list list) option" where
  "prove_leaf C chunk index = do {
     p \<leftarrow> merkle_proof C chunk index;
     b \<leftarrow> chunk_leaf chunk index;
     Some (b, p) }"

definition verify_leaf ::
    "('e, 'm, 's) crypto \<Rightarrow> byte list \<Rightarrow> nat \<Rightarrow> byte list \<Rightarrow> byte list list \<Rightarrow> nat \<Rightarrow> bool" where
  "verify_leaf C cid index leaf_bytes proof leaves =
     merkle_verify C (leaf_hash C index leaf_bytes) index proof cid leaves"

record chunk_ref =
  cr_cid :: "byte list"
  cr_len :: u32

type_synonym manifest = "chunk_ref list"

definition manifest_of :: "('e, 'm, 's) crypto \<Rightarrow> byte list \<Rightarrow> manifest" where
  "manifest_of C object =
     map (\<lambda>c. \<lparr>cr_cid = chunk_cid C c, cr_len = len_u32 (length c)\<rparr>) (chunks_of CHUNK object)"

definition total_len :: "manifest \<Rightarrow> nat" where
  "total_len m = sum_list (map (\<lambda>c. unat (cr_len c)) m) mod 2 ^ 64"

definition put_chunk_ref :: "chunk_ref \<Rightarrow> byte list" where
  "put_chunk_ref c = cr_cid c @ put_u32 (cr_len c)"

definition manifest_encode :: "manifest \<Rightarrow> byte list" where
  "manifest_encode m = put_u32 (len_u32 (length m)) @ concat (map put_chunk_ref m)"

definition rd_chunk_ref :: "chunk_ref reader" where
  "rd_chunk_ref bs = do { (c, r) \<leftarrow> rd_take 32 bs; (l, r) \<leftarrow> rd_u32 r; Some (\<lparr>cr_cid = c, cr_len = l\<rparr>, r) }"

definition manifest_decode :: "byte list \<Rightarrow> manifest option" where
  "manifest_decode bs = do {
     (count, body) \<leftarrow> rd_u32 bs;
     if length body \<noteq> unat count * 36 then None
     else do { (cs, r) \<leftarrow> rd_rep (unat count) rd_chunk_ref body; Some cs } }"

definition manifest_cid :: "('e, 'm, 's) crypto \<Rightarrow> manifest \<Rightarrow> byte list" where
  "manifest_cid C m = chunk_cid C (manifest_encode m)"

section \<open>The audit\<close>

definition CHALLENGE_LABEL :: string where "CHALLENGE_LABEL = ''FANOS-v1/thesauros-challenge''"
definition DRAW_LABEL :: string where "DRAW_LABEL = ''FANOS-v1/thesauros-draw''"
definition MAX_AUDIT_LEAVES :: nat where "MAX_AUDIT_LEAVES = 2 ^ 20"

definition challenge_seed :: "('e, 'm, 's) crypto \<Rightarrow> byte list \<Rightarrow> byte list \<Rightarrow> byte list" where
  "challenge_seed C cid beacon = hash_labeled C CHALLENGE_LABEL (cid @ beacon)"

text \<open>The low 8 bytes of the digest, little-endian, reduced modulo the leaf count.\<close>

definition draw :: "('e, 'm, 's) crypto \<Rightarrow> byte list \<Rightarrow> u64 \<Rightarrow> nat \<Rightarrow> nat" where
  "draw C seed counter m =
     from_be (rev (take 8 (hash_labeled C DRAW_LABEL (seed @ put_le 8 counter)))) mod m"

partial_function (option) challenge_loop ::
    "('e, 'm, 's) crypto \<Rightarrow> byte list \<Rightarrow> nat \<Rightarrow> nat \<Rightarrow> (nat, unit) btree \<Rightarrow> u64 \<Rightarrow> (nat, unit) btree option" where
  "challenge_loop C seed k leaves chosen counter =
     (if length chosen < k
      then challenge_loop C seed k leaves (bt_insert (draw C seed counter leaves) () chosen) (saturating_add counter 1)
      else Some chosen)"

definition por_challenge :: "('e, 'm, 's) crypto \<Rightarrow> byte list \<Rightarrow> byte list \<Rightarrow> nat \<Rightarrow> nat \<Rightarrow> nat list option" where
  "por_challenge C cid beacon k leaves =
     (let leaves = min leaves MAX_AUDIT_LEAVES; k = min k leaves
      in if leaves = 0 then Some []
         else if k \<ge> leaves then Some [0..<leaves]
         else map_option (map fst) (challenge_loop C (challenge_seed C cid beacon) k leaves [] 0))"

record leaf_proof =
  lp_index :: nat
  lp_bytes :: "byte list"
  lp_path :: "byte list list"

fun por_prove :: "('e, 'm, 's) crypto \<Rightarrow> byte list \<Rightarrow> nat list \<Rightarrow> leaf_proof list option" where
  "por_prove C chunk [] = Some []"
| "por_prove C chunk (i # is) = do {
     (b, p) \<leftarrow> prove_leaf C chunk i;
     ps \<leftarrow> por_prove C chunk is;
     Some (\<lparr>lp_index = i, lp_bytes = b, lp_path = p\<rparr> # ps) }"

definition por_verify ::
    "('e, 'm, 's) crypto \<Rightarrow> byte list \<Rightarrow> byte list \<Rightarrow> nat \<Rightarrow> nat \<Rightarrow> leaf_proof list \<Rightarrow> bool option" where
  "por_verify C cid beacon k leaves response =
     map_option (\<lambda>expected.
       if length response \<noteq> length expected then False
       else list_all (\<lambda>(lp, index). lp_index lp = index \<and> verify_leaf C cid index (lp_bytes lp) (lp_path lp) leaves)
              (zip response expected))
     (por_challenge C cid beacon k leaves)"

section \<open>The wire form of responses\<close>

definition len_u16 :: "nat \<Rightarrow> u16" where
  "len_u16 n = (if n < 2 ^ 16 then word_of_nat n else - 1)"

definition encode_leaf_proof :: "leaf_proof \<Rightarrow> byte list" where
  "encode_leaf_proof lp =
     put_u32 (len_u32 (lp_index lp)) @ put_u32 (len_u32 (length (lp_bytes lp))) @ lp_bytes lp @
     put_le 2 (len_u16 (length (lp_path lp))) @ concat (lp_path lp)"

definition encode_response :: "leaf_proof list \<Rightarrow> byte list" where
  "encode_response ps = put_u32 (len_u32 (length ps)) @ concat (map encode_leaf_proof ps)"

definition decode_leaf_proof :: "leaf_proof reader" where
  "decode_leaf_proof bs = do {
     (i, r) \<leftarrow> rd_u32 bs;
     (blen, r) \<leftarrow> rd_u32 r;
     (b, r) \<leftarrow> rd_take (unat blen) r;
     (steps, r) \<leftarrow> (rd_le 2 :: u16 reader) r;
     (p, r) \<leftarrow> rd_rep (unat steps) (rd_take 32) r;
     Some (\<lparr>lp_index = unat i, lp_bytes = b, lp_path = p\<rparr>, r) }"

definition MIN_LEAFPROOF_LEN :: nat where "MIN_LEAFPROOF_LEN = 4 + 4 + 2"

definition decode_response :: "byte list \<Rightarrow> leaf_proof list option" where
  "decode_response bs = do {
     (count, r) \<leftarrow> rd_u32 bs;
     if unat count > (length bs - 4) div MIN_LEAFPROOF_LEN then None
     else do {
       (ps, r) \<leftarrow> rd_rep (unat count) decode_leaf_proof r;
       if r \<noteq> [] then None else Some ps } }"

section \<open>Leaves\<close>

lemma length_chunks_of: "0 < n \<Longrightarrow> length (chunks_of n xs) = (length xs + n - 1) div n"
proof (induction n xs rule: chunks_of.induct)
  case (1 n xs)
  show ?case
  proof (cases "xs = []")
    case False
    have len: "length (chunks_of n xs) = Suc (length (chunks_of n (drop n xs)))"
      using False "1.prems" by (simp add: chunks_of.simps [of n xs])
    show ?thesis
    proof (cases "length xs \<le> n")
      case True
      have "0 < length xs" using False by simp
      then have "length xs + n - 1 = n + (length xs - 1)" "length xs - 1 < n" using True by linarith+
      then have "(length xs + n - 1) div n = 1" using "1.prems" by (simp only: div_add_self1 div_less)
      moreover have "drop n xs = []" using True by simp
      ultimately show ?thesis using len by (simp add: chunks_of.simps [of n "[]"])
    next
      case more: False
      define m where "m = length (drop n xs) + n - 1"
      have "length (chunks_of n (drop n xs)) = m div n"
        using "1.IH" False "1.prems" by (simp add: m_def)
      moreover have "length xs + n - 1 = n + m" using more "1.prems" by (simp add: m_def)
      ultimately show ?thesis using len "1.prems" by (simp only: div_add_self1 Suc_eq_plus1)
    qed
  qed (use "1.prems" in \<open>simp add: chunks_of.simps [of n "[]"]\<close>)
qed

lemma length_leaf_hashes [simp]: "length (leaf_hashes C chunk) = leaf_count chunk"
  by (simp add: leaf_hashes_def leaf_count_def length_chunks_of LEAF_def)

lemma leaf_count_pos: "0 < leaf_count chunk"
  by (cases chunk) (simp_all add: leaf_count_def LEAF_def)

lemma chunk_leaf_hash:
  assumes "i < leaf_count chunk"
  obtains b where "chunk_leaf chunk i = Some b" "leaf_hashes C chunk ! i = leaf_hash C i b"
proof (cases "chunk = []")
  case True
  then show ?thesis using that [of "[]"] assms by (simp add: chunk_leaf_def leaf_hashes_def leaf_count_def)
next
  case False
  have "length (chunks_of LEAF chunk) = leaf_count chunk"
    using False by (simp add: leaf_count_def length_chunks_of LEAF_def)
  then show ?thesis
    using that [of "chunks_of LEAF chunk ! i"] assms False
    by (simp add: chunk_leaf_def leaf_hashes_def nth_enumerate_eq)
qed

lemma prove_leaf_verifies:
  assumes "i < leaf_count chunk" "leaf_count chunk \<le> MAX_LEAVES"
  obtains b p where "prove_leaf C chunk i = Some (b, p)" "chunk_leaf chunk i = Some b"
    "verify_leaf C (chunk_cid C chunk) i b p (leaf_count chunk)"
proof -
  obtain b where b: "chunk_leaf chunk i = Some b" "leaf_hashes C chunk ! i = leaf_hash C i b"
    using chunk_leaf_hash [OF assms(1)] .
  let ?p = "merkle_path C (leaf_hashes C chunk) i"
  have root: "merkle_root C (leaf_hashes C chunk) = Some (wrap C (leaf_count chunk) (merkle_fold C (leaf_hashes C chunk)))"
    using assms leaf_count_pos [of chunk] by (simp add: merkle_root_def)
  have prove: "merkle_prove C (leaf_hashes C chunk) i = Some ?p"
    using assms by (simp add: merkle_prove_def)
  have "merkle_verify C (leaf_hashes C chunk ! i) i ?p (chunk_cid C chunk) (leaf_count chunk)"
    using merkle_path_climbs [of i "leaf_hashes C chunk" C] assms root
    by (simp add: merkle_verify_def chunk_cid_def content_root_def)
  then show ?thesis
    using that [of b ?p] b prove by (simp add: prove_leaf_def merkle_proof_def verify_leaf_def)
qed

section \<open>Challenges\<close>

definition chosen_ok :: "nat \<Rightarrow> (nat, unit) btree \<Rightarrow> bool" where
  "chosen_ok leaves chosen \<longleftrightarrow> bt_ok chosen \<and> bt_keys chosen \<subseteq> {..<leaves}"

lemma length_bt_insert_le: "length (bt_insert k v m) \<le> Suc (length m)"
  by (induction m) auto

lemma challenge_loop_result:
  assumes "challenge_loop C seed k leaves chosen counter = Some r"
  shows "0 < leaves \<longrightarrow> chosen_ok leaves chosen \<longrightarrow> length chosen \<le> k \<longrightarrow> chosen_ok leaves r \<and> length r = k"
proof (rule challenge_loop.raw_induct [OF _ assms])
  fix loop and C :: "('a, 'b, 'c) crypto" and seed k leaves chosen counter r
  assume IH: "\<And>C seed k leaves chosen counter r. loop C seed k leaves chosen counter = Some r \<Longrightarrow>
      0 < leaves \<longrightarrow> chosen_ok leaves chosen \<longrightarrow> length chosen \<le> k \<longrightarrow> chosen_ok leaves r \<and> length r = k"
    and body: "(if length chosen < k
        then loop C seed k leaves (bt_insert (draw C seed counter leaves) () chosen) (saturating_add counter 1)
        else Some chosen) = Some r"
  show "0 < leaves \<longrightarrow> chosen_ok leaves chosen \<longrightarrow> length chosen \<le> k \<longrightarrow> chosen_ok leaves r \<and> length r = k"
  proof (intro impI)
    assume pos: "0 < leaves" and ok: "chosen_ok leaves chosen" and le: "length chosen \<le> k"
    show "chosen_ok leaves r \<and> length r = k"
    proof (cases "length chosen < k")
      case True
      let ?c = "bt_insert (draw C seed counter leaves) () chosen"
      have "chosen_ok leaves ?c" using ok pos by (auto simp: chosen_ok_def draw_def)
      moreover have "length ?c \<le> k"
        using True length_bt_insert_le [of "draw C seed counter leaves" "()" chosen] by linarith
      ultimately show ?thesis using IH body True pos by simp
    qed (use body ok le in simp)
  qed
qed

lemma por_challenge_indices:
  assumes "por_challenge C cid beacon k leaves = Some is"
  shows "strict_sorted is" "set is \<subseteq> {..<leaves}" "length is = min k (min leaves MAX_AUDIT_LEAVES)"
proof -
  let ?l = "min leaves MAX_AUDIT_LEAVES" and ?k = "min k (min leaves MAX_AUDIT_LEAVES)"
  have "strict_sorted is \<and> set is \<subseteq> {..<leaves} \<and> length is = ?k"
  proof (cases "?l = 0 \<or> ?k \<ge> ?l")
    case True
    then have "is = [0..<?l]" "?k = ?l" using assms by (auto simp: por_challenge_def Let_def split: if_splits)
    then show ?thesis by auto
  next
    case False
    then obtain m where m: "challenge_loop C (challenge_seed C cid beacon) ?k ?l [] 0 = Some m" "is = map fst m"
      using assms by (auto simp: por_challenge_def Let_def)
    have "chosen_ok ?l m \<and> length m = ?k"
      using challenge_loop_result [OF m(1)] False by (simp add: chosen_ok_def bt_ok_def)
    then show ?thesis using m(2) by (auto simp: chosen_ok_def bt_ok_def)
  qed
  then show "strict_sorted is" "set is \<subseteq> {..<leaves}" "length is = min k (min leaves MAX_AUDIT_LEAVES)" by auto
qed

section \<open>Retrievability\<close>

lemma por_prove_verifies:
  assumes "set is \<subseteq> {..<leaf_count chunk}" "leaf_count chunk \<le> MAX_LEAVES"
  obtains ps where "por_prove C chunk is = Some ps" "length ps = length is"
    "list_all (\<lambda>(lp, i). lp_index lp = i \<and> chunk_leaf chunk i = Some (lp_bytes lp) \<and>
       verify_leaf C (chunk_cid C chunk) i (lp_bytes lp) (lp_path lp) (leaf_count chunk)) (zip ps is)"
  using assms(1)
proof (induction "is" arbitrary: thesis)
  case (Cons i "is")
  from Cons.prems(2) obtain ps where ps: "por_prove C chunk is = Some ps" "length ps = length is"
    "list_all (\<lambda>(lp, i). lp_index lp = i \<and> chunk_leaf chunk i = Some (lp_bytes lp) \<and>
       verify_leaf C (chunk_cid C chunk) i (lp_bytes lp) (lp_path lp) (leaf_count chunk)) (zip ps is)"
    using Cons.IH by auto
  obtain b p where "prove_leaf C chunk i = Some (b, p)" "chunk_leaf chunk i = Some b"
    "verify_leaf C (chunk_cid C chunk) i b p (leaf_count chunk)"
    using prove_leaf_verifies [of i chunk C] Cons.prems(2) assms(2) by auto
  with ps show ?case by (intro Cons.prems(1)) auto
qed auto

text \<open>
  The strings hashed when one leaf of a response is verified, and when the chunk's own leaf at that position
  is proved and verified.
\<close>

definition leaf_inputs :: "('e, 'm, 's) crypto \<Rightarrow> nat \<Rightarrow> nat \<Rightarrow> byte list \<Rightarrow> byte list list \<Rightarrow> byte list set" where
  "leaf_inputs C count i bytes p =
     insert (labeled_hasher LEAF_LABEL (put_le 8 (word_of_nat i :: u64) @ bytes)) (opening_inputs C (leaf_hash C i bytes) i p count)"

definition audit_inputs :: "('e, 'm, 's) crypto \<Rightarrow> byte list \<Rightarrow> nat \<Rightarrow> byte list \<Rightarrow> byte list list \<Rightarrow> byte list set" where
  "audit_inputs C chunk i bytes p =
     leaf_inputs C (leaf_count chunk) i bytes p \<union>
     (case prove_leaf C chunk i of None \<Rightarrow> {} | Some (own, q) \<Rightarrow> leaf_inputs C (leaf_count chunk) i own q)"

lemma verified_leaf_is_the_leaf:
  assumes "hash_width C" "leaf_count chunk \<le> MAX_LEAVES" "i < leaf_count chunk"
    and "verify_leaf C (chunk_cid C chunk) i b p (leaf_count chunk)" "list_all (\<lambda>s. length s = 32) p"
    and "\<not> collides C (audit_inputs C chunk i b p)"
  shows "chunk_leaf chunk i = Some b"
proof -
  let ?q = "merkle_path C (leaf_hashes C chunk) i"
  obtain b' q where q: "prove_leaf C chunk i = Some (b', q)" "chunk_leaf chunk i = Some b'"
    "verify_leaf C (chunk_cid C chunk) i b' q (leaf_count chunk)"
    using prove_leaf_verifies [OF assms(3,2)] .
  have qe: "q = ?q" using q(1) assms(2,3) by (auto simp: prove_leaf_def merkle_proof_def merkle_prove_def bind_eq_Some_conv)
  have hashes: "list_all (\<lambda>s. length s = 32) (leaf_hashes C chunk)"
    using assms(1) by (auto simp: leaf_hashes_def list_all_iff leaf_hash_def hash_labeled_def hash_width_def)
  have w: "list_all (\<lambda>s. length s = 32) (p @ q)"
    using merkle_path_width [OF assms(1) hashes, of i] assms(5) qe by simp
  have l: "length (leaf_hash C i x) = 32" for x
    using assms(1) by (simp add: leaf_hash_def hash_labeled_def hash_width_def)
  have eq: "leaf_hash C i b = leaf_hash C i b'"
    using merkle_opening_unique [OF assms(1) assms(4) [unfolded verify_leaf_def] q(3) [unfolded verify_leaf_def] l l w assms(6)] q(1)
    by (auto simp: audit_inputs_def leaf_inputs_def)
  have "put_le 8 (word_of_nat i :: u64) @ b = put_le 8 (word_of_nat i :: u64) @ b'"
    by (rule hash_labeled_inj [OF eq [unfolded leaf_hash_def] assms(6)]) (simp_all add: audit_inputs_def leaf_inputs_def q(1))
  then show ?thesis using q(2) by simp
qed

text \<open>The challenge loop ends once its draws have named enough leaves.\<close>

lemma challenge_loop_returns:
  assumes "bt_ok chosen" "k \<le> card (bt_keys chosen \<union> (\<lambda>c. draw C seed (word_of_nat c) leaves) ` {c..<c + n})" "c + n \<le> 2 ^ 64"
  shows "\<exists>r. challenge_loop C seed k leaves chosen (word_of_nat c) = Some r"
  using assms
proof (induction n arbitrary: chosen c)
  case 0
  have "card (bt_keys chosen) = length chosen" using "0.prems"(1) distinct_card [of "map fst chosen"]
    by (auto simp: bt_ok_def strict_sorted_iff)
  then show ?case using "0.prems"(2) by (subst challenge_loop.simps) simp
next
  case (Suc n)
  let ?d = "draw C seed (word_of_nat c) leaves"
  have range: "{c..<c + Suc n} = insert c {Suc c..<Suc c + n}" by auto
  have next_counter: "saturating_add (word_of_nat c :: u64) 1 = word_of_nat (Suc c)" if "0 < n"
  proof -
    have "unat (word_of_nat c :: u64) = c" using Suc.prems(3) by (simp add: unat_of_nat take_bit_nat_eq_self_iff)
    then have "checked_add (word_of_nat c :: u64) 1 = Some (word_of_nat c + 1)" using Suc.prems(3) that by (simp add: checked_add_def)
    then show ?thesis by (simp add: saturating_add_def add.commute)
  qed
  have ok: "bt_ok (bt_insert ?d () chosen)" using Suc.prems(1) by (rule bt_ok_insert)
  have enough: "k \<le> card (bt_keys (bt_insert ?d () chosen) \<union> (\<lambda>c. draw C seed (word_of_nat c) leaves) ` {Suc c..<Suc c + n})"
    using Suc.prems(2) unfolding range by simp
  show ?case
  proof (cases "n = 0")
    case True
    have "k \<le> length (bt_insert ?d () chosen)"
      using enough True ok distinct_card [of "map fst (bt_insert ?d () chosen)"] by (auto simp: bt_ok_def strict_sorted_iff)
    then show ?thesis by (subst challenge_loop.simps) (subst challenge_loop.simps, simp)
  next
    case False
    then show ?thesis
      using Suc.IH [OF ok enough] Suc.prems(3) next_counter by (subst challenge_loop.simps) simp
  qed
qed

lemma por_challenge_returns:
  assumes "leaves \<le> k \<or> k \<le> card ((\<lambda>c. draw C (challenge_seed C cid beacon) (word_of_nat c) (min leaves MAX_AUDIT_LEAVES)) ` {..<n})"
    and "n \<le> 2 ^ 64"
  shows "\<exists>is. por_challenge C cid beacon k leaves = Some is"
proof (cases "min leaves MAX_AUDIT_LEAVES = 0 \<or> min leaves MAX_AUDIT_LEAVES \<le> k")
  case True
  then show ?thesis by (auto simp: por_challenge_def Let_def)
next
  case False
  then have "\<exists>r. challenge_loop C (challenge_seed C cid beacon) k (min leaves MAX_AUDIT_LEAVES) [] (word_of_nat 0) = Some r"
    using assms by (intro challenge_loop_returns [where n = n]) (auto simp: bt_ok_def atLeast0LessThan)
  moreover have "min k (min leaves MAX_AUDIT_LEAVES) = k" using False by (simp add: min_def)
  ultimately show ?thesis using False by (auto simp: por_challenge_def Let_def)
qed

text \<open>
  C20. The audit of an honest provider ends and passes: for a chunk of at most \<open>2\<^sup>32\<close> leaves, if every leaf is challenged
  or the first \<open>n \<le> 2\<^sup>64\<close> draws of the hash stream name \<open>k\<close> different leaves, the challenge loop returns, answering the
  challenged indices from the chunk succeeds, and the response verifies against the chunk's content id.
\<close>

theorem por_complete:
  assumes "leaf_count chunk \<le> MAX_LEAVES"
    and "leaf_count chunk \<le> k \<or> k \<le> card ((\<lambda>c. draw C (challenge_seed C (chunk_cid C chunk) beacon) (word_of_nat c)
      (min (leaf_count chunk) MAX_AUDIT_LEAVES)) ` {..<n})" "n \<le> 2 ^ 64"
  shows "\<exists>is ps. por_challenge C (chunk_cid C chunk) beacon k (leaf_count chunk) = Some is \<and> por_prove C chunk is = Some ps \<and>
    por_verify C (chunk_cid C chunk) beacon k (leaf_count chunk) ps = Some True"
proof -
  obtain "is" where "is": "por_challenge C (chunk_cid C chunk) beacon k (leaf_count chunk) = Some is"
    using por_challenge_returns [OF assms(2,3)] by blast
  obtain ps where ps: "por_prove C chunk is = Some ps" "length ps = length is"
    "list_all (\<lambda>(lp, i). lp_index lp = i \<and> chunk_leaf chunk i = Some (lp_bytes lp) \<and>
       verify_leaf C (chunk_cid C chunk) i (lp_bytes lp) (lp_path lp) (leaf_count chunk)) (zip ps is)"
    using por_prove_verifies [OF por_challenge_indices(2) [OF "is"] assms(1)] by blast
  then have "list_all (\<lambda>(lp, i). lp_index lp = i \<and>
       verify_leaf C (chunk_cid C chunk) i (lp_bytes lp) (lp_path lp) (leaf_count chunk)) (zip ps is)"
    by (auto simp: list_all_iff)
  then show ?thesis using ps(1,2) "is" by (simp add: por_verify_def)
qed

text \<open>Two of the three leaves of a chunk, drawn by a hash that reads its input from the end.\<close>

definition rev_crypto :: "(byte, byte, byte list) crypto" where
  "rev_crypto = toy_crypto\<lparr>blake3 := rev\<rparr>"

lemma rev_draws: "draw rev_crypto seed 0 3 = 0" "draw rev_crypto seed 1 3 = 1"
proof -
  have "be_bytes 8 0 = [0, 0, 0, 0, 0, 0, 0, 0]" "be_bytes 8 1 = [0, 0, 0, 0, 0, 0, 0, 1]"
    using be_bytes_from_be [of "[0, 0, 0, 0, 0, 0, 0, 0]" 8] be_bytes_from_be [of "[0, 0, 0, 0, 0, 0, 0, 1]" 8]
    by (simp_all add: from_be_def)
  moreover have "draw rev_crypto seed c 3 = from_be (rev (put_word 8 c)) mod 3" for c
    by (simp add: draw_def hash_labeled_def rev_crypto_def labeled_hasher_def put_le_def)
  ultimately show "draw rev_crypto seed 0 3 = 0" "draw rev_crypto seed 1 3 = 1" by (simp_all add: put_word_def from_be_def)
qed

theorem por_complete_witness:
  "\<exists>is ps. por_challenge rev_crypto (chunk_cid rev_crypto (replicate 8193 0)) [9] 2 3 = Some is \<and>
    por_prove rev_crypto (replicate 8193 0) is = Some ps \<and>
    por_verify rev_crypto (chunk_cid rev_crypto (replicate 8193 0)) [9] 2 3 ps = Some True"
proof -
  have leaves: "leaf_count (replicate 8193 0) = 3" by (simp add: leaf_count_def LEAF_def)
  have two: "{..<2 :: nat} = {0, 1}" by auto
  have "(\<lambda>c. draw rev_crypto seed (word_of_nat c) 3) ` {..<2} = {0, 1}" for seed
    unfolding two by (simp add: rev_draws)
  then show ?thesis
    using por_complete [of "replicate 8193 0" 2 rev_crypto "[9]" 2] leaves by (simp add: MAX_LEAVES_def MAX_AUDIT_LEAVES_def)
qed

text \<open>
  C21. A response that passes the audit of a chunk's content id holds the chunk's own bytes at every
  challenged position, in order, or one of its leaves and the chunk's own leaf at that position hash two
  colliding strings while they are verified: no other bytes answer the challenge, and the indices are the
  ones the beacon drew.
\<close>

theorem por_sound:
  assumes "hash_width C" "leaf_count chunk \<le> MAX_LEAVES"
    and "por_challenge C (chunk_cid C chunk) beacon k (leaf_count chunk) = Some is"
    and "por_verify C (chunk_cid C chunk) beacon k (leaf_count chunk) ps = Some True"
    and "list_all (\<lambda>lp. list_all (\<lambda>s. length s = 32) (lp_path lp)) ps"
  shows "(\<exists>lp \<in> set ps. collides C (audit_inputs C chunk (lp_index lp) (lp_bytes lp) (lp_path lp))) \<or>
    map lp_index ps = is \<and> list_all (\<lambda>lp. chunk_leaf chunk (lp_index lp) = Some (lp_bytes lp)) ps"
proof (cases "\<exists>lp \<in> set ps. collides C (audit_inputs C chunk (lp_index lp) (lp_bytes lp) (lp_path lp))")
  case False
  have len: "length ps = length is" and ok: "list_all (\<lambda>(lp, i). lp_index lp = i \<and>
      verify_leaf C (chunk_cid C chunk) i (lp_bytes lp) (lp_path lp) (leaf_count chunk)) (zip ps is)"
    using assms(3,4) by (auto simp: por_verify_def split: if_splits)
  have "lp_index (ps ! j) = is ! j \<and> chunk_leaf chunk (is ! j) = Some (lp_bytes (ps ! j))" if j: "j < length ps" for j
  proof -
    have "lp_index (ps ! j) = is ! j"
      "verify_leaf C (chunk_cid C chunk) (is ! j) (lp_bytes (ps ! j)) (lp_path (ps ! j)) (leaf_count chunk)"
      using ok j len by (auto simp: list_all_length)
    moreover have "is ! j < leaf_count chunk"
      using por_challenge_indices(2) [OF assms(3)] subsetD [OF _ nth_mem, of "is" "{..<leaf_count chunk}" j] j len
      by simp
    moreover have "\<not> collides C (audit_inputs C chunk (lp_index (ps ! j)) (lp_bytes (ps ! j)) (lp_path (ps ! j)))"
      using False j nth_mem by blast
    moreover have "list_all (\<lambda>s. length s = 32) (lp_path (ps ! j))" using assms(5) j by (simp add: list_all_length)
    ultimately show ?thesis using verified_leaf_is_the_leaf [OF assms(1,2)] by simp
  qed
  then show ?thesis using len by (auto simp: list_all_length intro: nth_equalityI)
qed simp

theorem por_sound_witness:
  "\<exists>ps. por_verify toy_crypto (chunk_cid toy_crypto [1, 2, 3]) [9] 4 1 ps = Some True \<and>
     ((\<exists>lp \<in> set ps. collides toy_crypto (audit_inputs toy_crypto [1, 2, 3] (lp_index lp) (lp_bytes lp) (lp_path lp))) \<or>
      map lp_index ps = [0] \<and> list_all (\<lambda>lp. chunk_leaf [1, 2, 3] (lp_index lp) = Some (lp_bytes lp)) ps)"
proof -
  let ?ps = "[\<lparr>lp_index = 0, lp_bytes = [1, 2, 3], lp_path = []\<rparr>]"
  have one: "leaf_count [1, 2, 3] = 1" by (simp add: leaf_count_def LEAF_def)
  have ch: "por_challenge toy_crypto (chunk_cid toy_crypto [1, 2, 3]) [9] 4 1 = Some [0]"
    by (simp add: por_challenge_def MAX_AUDIT_LEAVES_def)
  have "leaf_hashes toy_crypto [1, 2, 3] = [leaf_hash toy_crypto 0 [1, 2, 3]]"
    by (simp add: leaf_hashes_def LEAF_def chunks_of.simps)
  then have v: "por_verify toy_crypto (chunk_cid toy_crypto [1, 2, 3]) [9] 4 1 ?ps = Some True"
    unfolding por_verify_def ch
    by (simp add: verify_leaf_def merkle_verify_def chunk_cid_def content_root_def merkle_root_def merkle_height_def
        MAX_LEAVES_def merkle_fold.simps [of toy_crypto "[_]"])
  have "hash_width toy_crypto" by (auto simp: hash_width_def toy_crypto_def min_def)
  from por_sound [OF this, of "[1, 2, 3]" "[9]" 4 "[0]" ?ps] v ch one show ?thesis
    by (auto simp: MAX_LEAVES_def)
qed

end
