(* ===== verification/Thesauros_Deal.thy ===== *)
theory Thesauros_Deal
  imports Primitives_Codec
begin

text \<open>
  The storage deal of THESAUROS (\<open>fanos-thesauros/src/market.rs\<close>): parameters, the settlement of audit
  epochs, closing, abandonment and lapse, and the snapshot form. Amounts and heights are 64-bit words.
  Whatever is called in whatever order, the money a deal moves is exactly what it records as released,
  never more than its price, and a provider is never ahead of the audit schedule.
\<close>

section \<open>Parameters\<close>

definition DEAL_PARAMS_LEN :: nat where "DEAL_PARAMS_LEN = 32 + 8 + 8 + 1 + 4 + 4 + 4 + 8 + 32 + 32"

record deal_params =
  dp_cid :: "byte list"
  dp_size :: u64
  dp_duration :: u64
  dp_replication :: byte
  dp_lambda_bits :: u32
  dp_f_tol_permille :: u32
  dp_k :: u32
  dp_price :: u64
  dp_provider :: "byte list"
  dp_consumer :: "byte list"

definition params_to_bytes :: "deal_params \<Rightarrow> byte list" where
  "params_to_bytes p =
     dp_cid p @ put_le 8 (dp_size p) @ put_le 8 (dp_duration p) @ [dp_replication p] @ put_le 4 (dp_lambda_bits p) @
     put_le 4 (dp_f_tol_permille p) @ put_le 4 (dp_k p) @ put_le 8 (dp_price p) @ dp_provider p @ dp_consumer p"

definition params_from_bytes :: "byte list \<Rightarrow> deal_params option" where
  "params_from_bytes bs =
     (if length bs \<noteq> DEAL_PARAMS_LEN then None
      else do {
        (cid, r) \<leftarrow> rd_take 32 bs;
        (sz, r) \<leftarrow> rd_le 8 r;
        (dur, r) \<leftarrow> rd_le 8 r;
        (rep, r) \<leftarrow> rd_byte r;
        (lam, r) \<leftarrow> rd_le 4 r;
        (ftol, r) \<leftarrow> rd_le 4 r;
        (k, r) \<leftarrow> rd_le 4 r;
        (price, r) \<leftarrow> rd_le 8 r;
        (prov, r) \<leftarrow> rd_take 32 r;
        (cons, r) \<leftarrow> rd_take 32 r;
        Some \<lparr>dp_cid = cid, dp_size = sz, dp_duration = dur, dp_replication = rep, dp_lambda_bits = lam,
              dp_f_tol_permille = ftol, dp_k = k, dp_price = price, dp_provider = prov, dp_consumer = cons\<rparr> })"

section \<open>The deal\<close>

datatype deal_state = Active | Completed | DealClosed

datatype settlement = SPay "byte list" u64 | SMiss "byte list"

record deal =
  d_params :: deal_params
  d_epoch :: u64
  d_passed :: u64
  d_released :: u64
  d_state :: deal_state
  d_last_height :: "u64 option"
  d_open_height :: "u64 option"

definition missed_audits :: "deal \<Rightarrow> u64 \<Rightarrow> u64 \<Rightarrow> u64 option" where
  "missed_audits d height audit_period =
     (case d_open_height d of
        None \<Rightarrow> None
      | Some op \<Rightarrow>
          if audit_period = 0 then None
          else let elapsed = saturating_sub height op div audit_period
               in Some (saturating_sub (min elapsed (dp_duration (d_params d))) (d_passed d)))"

definition abandonment_threshold :: "deal \<Rightarrow> u64" where
  "abandonment_threshold d = ucast (dp_lambda_bits (d_params d))"

definition is_abandoned :: "deal \<Rightarrow> u64 \<Rightarrow> u64 \<Rightarrow> bool" where
  "is_abandoned d height audit_period =
     (case d_open_height d of
        None \<Rightarrow> False
      | Some op \<Rightarrow>
          if audit_period = 0 then False
          else let since = (case d_last_height d of None \<Rightarrow> op | Some h \<Rightarrow> h);
                   silent = saturating_sub height since div audit_period
               in min silent (dp_duration (d_params d)) \<ge> abandonment_threshold d)"

definition open_inner :: "deal_params \<Rightarrow> u64 option \<Rightarrow> deal option" where
  "open_inner p oh =
     (if dp_duration p = 0 then None
      else Some \<lparr>d_params = p, d_epoch = 0, d_passed = 0, d_released = 0, d_state = Active,
                 d_last_height = None, d_open_height = oh\<rparr>)"

definition deal_open :: "deal_params \<Rightarrow> deal option" where
  "deal_open p = open_inner p None"

definition open_at :: "deal_params \<Rightarrow> u64 \<Rightarrow> deal option" where
  "open_at p h = open_inner p (Some h)"

primrec deal_state_byte :: "deal_state \<Rightarrow> byte" where
  "deal_state_byte Active = 0"
| "deal_state_byte Completed = 1"
| "deal_state_byte DealClosed = 2"

definition put_height :: "u64 option \<Rightarrow> byte list" where
  "put_height h = (case h of Some v \<Rightarrow> 1 # put_u64 v | None \<Rightarrow> [0])"

definition deal_to_bytes :: "deal \<Rightarrow> byte list" where
  "deal_to_bytes d =
     params_to_bytes (d_params d) @ put_u64 (d_epoch d) @ put_u64 (d_passed d) @ put_u64 (d_released d) @
     [deal_state_byte (d_state d)] @ put_height (d_last_height d) @ put_height (d_open_height d)"

definition rd_height :: "u64 option reader" where
  "rd_height bs = do {
     (t, r) \<leftarrow> rd_byte bs;
     if t = 0 then Some (None, r)
     else if t = 1 then do { (v, r) \<leftarrow> rd_u64 r; Some (Some v, r) }
     else None }"

definition deal_from_bytes :: "byte list \<Rightarrow> deal option" where
  "deal_from_bytes bs = do {
     (pb, r) \<leftarrow> rd_take DEAL_PARAMS_LEN bs;
     p \<leftarrow> params_from_bytes pb;
     (ep, r) \<leftarrow> rd_u64 r;
     (pa, r) \<leftarrow> rd_u64 r;
     (re, r) \<leftarrow> rd_u64 r;
     (b, r) \<leftarrow> rd_byte r;
     st \<leftarrow> (if b = 0 then Some Active else if b = 1 then Some Completed else if b = 2 then Some DealClosed else None);
     (lh, r) \<leftarrow> rd_height r;
     (oh, r) \<leftarrow> rd_height r;
     if r \<noteq> [] then None
     else Some \<lparr>d_params = p, d_epoch = ep, d_passed = pa, d_released = re, d_state = st,
                d_last_height = lh, d_open_height = oh\<rparr> }"

definition refundable :: "deal \<Rightarrow> u64" where
  "refundable d = saturating_sub (dp_price (d_params d)) (d_released d)"

text \<open>The 128-bit product and its division, which panics on a zero duration (\<open>None\<close>).\<close>

definition owed_after_passes :: "deal \<Rightarrow> u64 option" where
  "owed_after_passes d =
     (if dp_duration (d_params d) = 0 then None
      else let owed = unat (dp_price (d_params d)) * unat (d_passed d) div unat (dp_duration (d_params d))
           in Some (if owed < 2 ^ 64 then word_of_nat owed else dp_price (d_params d)))"

text \<open>
  The outer option is the panic of the division. The replay and cadence guard comes first.
\<close>

definition settle_blocked :: "deal \<Rightarrow> u64 \<Rightarrow> u64 \<Rightarrow> bool" where
  "settle_blocked d height min_interval =
     (case d_open_height d of
        Some op \<Rightarrow> height < saturating_add (case d_last_height d of None \<Rightarrow> op | Some h \<Rightarrow> h) min_interval
      | None \<Rightarrow> (case d_last_height d of None \<Rightarrow> False | Some l \<Rightarrow> height \<le> l))"

definition complete_if_due :: "deal \<Rightarrow> deal" where
  "complete_if_due d = (if d_epoch d \<ge> dp_duration (d_params d) then d\<lparr>d_state := Completed\<rparr> else d)"

definition settle_epoch :: "deal \<Rightarrow> u64 \<Rightarrow> bool \<Rightarrow> u64 \<Rightarrow> (deal \<times> settlement option) option" where
  "settle_epoch d height proof_ok min_interval =
     (if d_state d \<noteq> Active then Some (d, None)
      else if settle_blocked d height min_interval then Some (d, None)
      else let d1 = d\<lparr>d_last_height := Some height, d_epoch := saturating_add (d_epoch d) 1\<rparr>
           in if proof_ok then
                let d2 = d1\<lparr>d_passed := saturating_add (d_passed d1) 1\<rparr>
                in case owed_after_passes d2 of
                     None \<Rightarrow> None
                   | Some target \<Rightarrow>
                       Some (complete_if_due (d2\<lparr>d_released := target\<rparr>),
                             Some (SPay (dp_provider (d_params d)) (saturating_sub target (d_released d2))))
              else Some (complete_if_due d1, Some (SMiss (dp_provider (d_params d)))))"

definition deal_close :: "deal \<Rightarrow> deal \<times> u64" where
  "deal_close d = (d\<lparr>d_released := dp_price (d_params d), d_state := DealClosed\<rparr>, refundable d)"

definition missed :: "deal \<Rightarrow> u64" where
  "missed d = saturating_sub (dp_duration (d_params d)) (d_passed d)"

definition terminate_if_abandoned :: "deal \<Rightarrow> u64 \<Rightarrow> u64 \<Rightarrow> deal \<times> u64 option" where
  "terminate_if_abandoned d height audit_period =
     (if d_state d \<noteq> Active \<or> \<not> is_abandoned d height audit_period then (d, None)
      else (d\<lparr>d_released := dp_price (d_params d), d_state := Completed\<rparr>,
            Some (saturating_sub (dp_price (d_params d)) (d_released d))))"

definition finalize_if_lapsed :: "deal \<Rightarrow> u64 \<Rightarrow> u64 \<Rightarrow> deal \<times> u64 option" where
  "finalize_if_lapsed d height audit_period =
     (if d_state d \<noteq> Active then (d, None)
      else case d_open_height d of
             None \<Rightarrow> (d, None)
           | Some op \<Rightarrow>
               if height < saturating_add op (saturating_mul (dp_duration (d_params d)) audit_period) then (d, None)
               else (d\<lparr>d_released := dp_price (d_params d), d_state := Completed\<rparr>,
                     Some (saturating_sub (dp_price (d_params d)) (d_released d))))"

section \<open>Accounting\<close>

abbreviation d_price :: "deal \<Rightarrow> nat" where
  "d_price d \<equiv> unat (dp_price (d_params d))"

abbreviation d_duration :: "deal \<Rightarrow> nat" where
  "d_duration d \<equiv> unat (dp_duration (d_params d))"

definition deal_ok :: "deal \<Rightarrow> bool" where
  "deal_ok d \<longleftrightarrow> 0 < d_duration d \<and> unat (d_passed d) \<le> unat (d_epoch d) \<and> unat (d_epoch d) \<le> d_duration d \<and>
     unat (d_released d) \<le> d_price d \<and>
     (d_state d = Active \<longrightarrow> unat (d_epoch d) < d_duration d \<and>
        unat (d_released d) = d_price d * unat (d_passed d) div d_duration d)"

lemma open_inner_ok:
  "open_inner p oh = Some d \<Longrightarrow>
     deal_ok d \<and> d_params d = p \<and> d_state d = Active \<and> d_released d = 0 \<and> d_epoch d = 0 \<and> d_passed d = 0 \<and>
     d_last_height d = None \<and> d_open_height d = oh"
  by (auto simp: open_inner_def deal_ok_def unat_gt_0 split: if_splits)

lemma unat_succ_below: "unat x < unat y \<Longrightarrow> unat (saturating_add x 1) = unat x + 1" for x y :: u64
  using unat_lt [of y] by (simp add: unat_saturating_add)

lemma owed_after_passes_exact:
  assumes "0 < d_duration d" "unat (d_passed d) \<le> d_duration d"
  obtains t where "owed_after_passes d = Some t" "unat t = d_price d * unat (d_passed d) div d_duration d" "unat t \<le> d_price d"
proof -
  let ?o = "d_price d * unat (d_passed d) div d_duration d"
  have "?o \<le> d_price d * d_duration d div d_duration d" using assms(2) by (intro div_le_mono mult_le_mono2)
  then have le: "?o \<le> d_price d" using assms(1) by simp
  then have lt: "?o < 2 ^ 64" using unat_lt [of "dp_price (d_params d)"] by simp
  then have "unat (word_of_nat ?o :: u64) = ?o" by (simp add: unat_of_nat take_bit_eq_mod)
  then show ?thesis
    using that [of "word_of_nat ?o"] assms(1) lt le by (auto simp: owed_after_passes_def Let_def unat_gt_0)
qed

text \<open>The money one operation moves out of the deal's escrow.\<close>

datatype deal_op = OpSettle u64 bool | OpClose | OpAbandon u64 | OpLapse u64

definition settled_amount :: "settlement option \<Rightarrow> nat" where
  "settled_amount s = (case s of Some (SPay _ x) \<Rightarrow> unat x | _ \<Rightarrow> 0)"

definition refund_amount :: "u64 option \<Rightarrow> nat" where
  "refund_amount r = (case r of None \<Rightarrow> 0 | Some x \<Rightarrow> unat x)"

primrec deal_step :: "u64 \<Rightarrow> deal \<Rightarrow> deal_op \<Rightarrow> (deal \<times> nat) option" where
  "deal_step P d (OpSettle h ok) = map_option (\<lambda>(d', s). (d', settled_amount s)) (settle_epoch d h ok P)"
| "deal_step P d OpClose = Some (fst (deal_close d), unat (snd (deal_close d)))"
| "deal_step P d (OpAbandon h) = Some (fst (terminate_if_abandoned d h P), refund_amount (snd (terminate_if_abandoned d h P)))"
| "deal_step P d (OpLapse h) = Some (fst (finalize_if_lapsed d h P), refund_amount (snd (finalize_if_lapsed d h P)))"

fun deal_run :: "u64 \<Rightarrow> deal \<Rightarrow> deal_op list \<Rightarrow> (deal \<times> nat) option" where
  "deal_run P d [] = Some (d, 0)"
| "deal_run P d (a # as) =
     (case deal_step P d a of
        None \<Rightarrow> None
      | Some (d', m) \<Rightarrow> map_option (\<lambda>(d'', n). (d'', m + n)) (deal_run P d' as))"

text \<open>Settling an active deal that is not blocked, on a pass and on a miss.\<close>

lemma settle_pass:
  assumes "deal_ok d" "d_state d = Active" "\<not> settle_blocked d h P"
  obtains t where "settle_epoch d h True P = Some (complete_if_due (d\<lparr>d_last_height := Some h,
      d_epoch := saturating_add (d_epoch d) 1, d_passed := saturating_add (d_passed d) 1, d_released := t\<rparr>),
      Some (SPay (dp_provider (d_params d)) (saturating_sub t (d_released d))))"
    "unat t = d_price d * (unat (d_passed d) + 1) div d_duration d" "unat t \<le> d_price d" "unat (d_released d) \<le> unat t"
proof -
  let ?d = "d\<lparr>d_last_height := Some h, d_epoch := saturating_add (d_epoch d) 1, d_passed := saturating_add (d_passed d) 1\<rparr>"
  have e: "unat (d_passed d) < d_duration d" using assms(1,2) by (auto simp: deal_ok_def)
  then have p: "unat (d_passed ?d) = unat (d_passed d) + 1" by (simp add: unat_succ_below)
  obtain t where t: "owed_after_passes ?d = Some t" "unat t = d_price d * unat (d_passed ?d) div d_duration d" "unat t \<le> d_price d"
    using owed_after_passes_exact [of ?d] e p assms(1) by (auto simp: deal_ok_def)
  have "unat (d_released d) = d_price d * unat (d_passed d) div d_duration d" using assms(1,2) by (simp add: deal_ok_def)
  also have "\<dots> \<le> unat t" unfolding t(2) p by (intro div_le_mono mult_le_mono2) simp
  finally have "unat (d_released d) \<le> unat t" .
  then show ?thesis
    using that [of t] t p assms by (simp add: settle_epoch_def Let_def)
qed

lemma settle_idle:
  "\<not> (d_state d = Active \<and> \<not> settle_blocked d h P) \<Longrightarrow> settle_epoch d h ok P = Some (d, None)"
  by (simp add: settle_epoch_def)

lemma complete_if_due_fields [simp]:
  "d_params (complete_if_due d) = d_params d" "d_epoch (complete_if_due d) = d_epoch d"
  "d_passed (complete_if_due d) = d_passed d" "d_released (complete_if_due d) = d_released d"
  "d_last_height (complete_if_due d) = d_last_height d" "d_open_height (complete_if_due d) = d_open_height d"
  "d_state d = Active \<Longrightarrow> d_state (complete_if_due d) = (if d_epoch d \<ge> dp_duration (d_params d) then Completed else Active)"
  by (simp_all add: complete_if_due_def)

lemma deal_step_accounts:
  assumes "deal_ok d"
  obtains d' m where "deal_step P d a = Some (d', m)" "deal_ok d'" "d_params d' = d_params d"
    "unat (d_released d') = unat (d_released d) + m"
proof (cases a)
  case (OpSettle h ok)
  show ?thesis
  proof (cases "d_state d = Active \<and> \<not> settle_blocked d h P")
    case False
    then show ?thesis
      using that [of d 0] assms OpSettle by (simp add: settle_idle settled_amount_def)
  next
    case act: True
    have e: "unat (d_epoch d) < d_duration d" "unat (d_passed d) \<le> unat (d_epoch d)"
      using assms act by (auto simp: deal_ok_def)
    then have ep: "unat (saturating_add (d_epoch d) 1) = unat (d_epoch d) + 1"
      "unat (saturating_add (d_passed d) 1) = unat (d_passed d) + 1"
      using unat_succ_below [of "d_epoch d" "dp_duration (d_params d)"] unat_succ_below [of "d_passed d" "dp_duration (d_params d)"]
      by auto
    show ?thesis
    proof (cases ok)
      case True
      obtain t where t: "settle_epoch d h True P = Some (complete_if_due (d\<lparr>d_last_height := Some h,
          d_epoch := saturating_add (d_epoch d) 1, d_passed := saturating_add (d_passed d) 1, d_released := t\<rparr>),
          Some (SPay (dp_provider (d_params d)) (saturating_sub t (d_released d))))"
        "unat t = d_price d * (unat (d_passed d) + 1) div d_duration d" "unat t \<le> d_price d" "unat (d_released d) \<le> unat t"
        using settle_pass [OF assms] act by blast
      show ?thesis
        by (rule that [OF _ _ _ _], use OpSettle True t(1) in simp)
           (use assms act e ep t in \<open>auto simp: deal_ok_def settled_amount_def unat_saturating_sub word_le_nat_alt\<close>)
    next
      case False
      show ?thesis
        by (rule that [OF _ _ _ _], use OpSettle False act in \<open>simp add: settle_epoch_def Let_def\<close>)
           (use assms act e ep in \<open>auto simp: deal_ok_def settled_amount_def word_le_nat_alt\<close>)
    qed
  qed
next
  case OpClose
  then show ?thesis
    using that [of "fst (deal_close d)" "unat (snd (deal_close d))"] assms
    by (auto simp: deal_close_def refundable_def unat_saturating_sub deal_ok_def)
next
  case (OpAbandon h)
  then show ?thesis
    using that [of "fst (terminate_if_abandoned d h P)" "refund_amount (snd (terminate_if_abandoned d h P))"] assms
    by (auto simp: terminate_if_abandoned_def refund_amount_def unat_saturating_sub deal_ok_def)
next
  case (OpLapse h)
  then show ?thesis
    using that [of "fst (finalize_if_lapsed d h P)" "refund_amount (snd (finalize_if_lapsed d h P))"] assms
    by (auto simp: finalize_if_lapsed_def refund_amount_def unat_saturating_sub deal_ok_def split: option.splits)
qed

lemma deal_run_accounts:
  assumes "deal_ok d"
  shows "\<exists>d' n. deal_run P d as = Some (d', n) \<and> deal_ok d' \<and> d_params d' = d_params d \<and>
    unat (d_released d') = unat (d_released d) + n"
  using assms
proof (induction as arbitrary: d)
  case (Cons a as)
  obtain d1 m where d1: "deal_step P d a = Some (d1, m)" "deal_ok d1" "d_params d1 = d_params d"
    "unat (d_released d1) = unat (d_released d) + m"
    using deal_step_accounts [OF Cons.prems] by blast
  obtain d' n where "deal_run P d1 as = Some (d', n)" "deal_ok d'" "d_params d' = d_params d1"
    "unat (d_released d') = unat (d_released d1) + n"
    using Cons.IH [OF d1(2)] by blast
  with d1 show ?case by simp
qed simp

lemma deal_run_keeps:
  assumes "\<And>d a d' m. deal_ok d \<Longrightarrow> I d \<Longrightarrow> deal_step P d a = Some (d', m) \<Longrightarrow> ok a \<Longrightarrow> I d'"
  shows "deal_run P d as = Some (d', n) \<Longrightarrow> list_all ok as \<Longrightarrow> deal_ok d \<Longrightarrow> I d \<Longrightarrow> I d'"
proof (induction as arbitrary: d n)
  case (Cons a as)
  obtain d1 m n' where d1: "deal_step P d a = Some (d1, m)" "deal_run P d1 as = Some (d', n')"
    using Cons.prems(1) by (auto split: option.splits)
  have "I d1" by (rule assms [OF Cons.prems(3,4) d1(1)]) (use Cons.prems(2) in simp)
  moreover have "deal_ok d1" using deal_step_accounts [OF Cons.prems(3), of P a] d1(1) by auto
  ultimately show ?case using Cons.IH [OF d1(2)] Cons.prems(2) by simp
qed simp

text \<open>Every audit so far passed, and an ended deal has released its price.\<close>

definition all_passed :: "deal \<Rightarrow> bool" where
  "all_passed d \<longleftrightarrow> d_passed d = d_epoch d \<and> (d_state d \<noteq> Active \<longrightarrow> d_released d = dp_price (d_params d))"

lemma deal_step_all_passed:
  assumes "deal_ok d" "all_passed d" "deal_step P d a = Some (d', m)" "\<forall>h. a \<noteq> OpSettle h False"
  shows "all_passed d'"
proof (cases a)
  case (OpSettle h ok)
  with assms(4) have ok: "ok = True" by auto
  show ?thesis
  proof (cases "d_state d = Active \<and> \<not> settle_blocked d h P")
    case False
    then show ?thesis using assms OpSettle by (simp add: settle_idle)
  next
    case act: True
    obtain t where t: "settle_epoch d h True P = Some (complete_if_due (d\<lparr>d_last_height := Some h,
        d_epoch := saturating_add (d_epoch d) 1, d_passed := saturating_add (d_passed d) 1, d_released := t\<rparr>),
        Some (SPay (dp_provider (d_params d)) (saturating_sub t (d_released d))))"
      "unat t = d_price d * (unat (d_passed d) + 1) div d_duration d"
      using settle_pass [OF assms(1)] act by blast
    have e: "unat (d_epoch d) < d_duration d" "0 < d_duration d" using assms(1) act by (auto simp: deal_ok_def)
    have "t = dp_price (d_params d)" if "dp_duration (d_params d) \<le> saturating_add (d_epoch d) 1"
    proof -
      have "unat (d_epoch d) + 1 = d_duration d"
        using that e unat_succ_below [of "d_epoch d" "dp_duration (d_params d)"] by (auto simp: word_le_nat_alt)
      then have eq: "unat (d_passed d) + 1 = d_duration d" using assms(2) by (simp add: all_passed_def)
      have "unat t = d_price d" unfolding t(2) eq using e by simp
      then show ?thesis by (simp only: word_unat_eq_iff)
    qed
    then show ?thesis using t(1) assms(2,3) OpSettle ok act by (auto simp: all_passed_def split: if_splits)
  qed
qed (use assms in \<open>auto simp: all_passed_def deal_close_def terminate_if_abandoned_def finalize_if_lapsed_def split: option.splits if_splits\<close>)

text \<open>
  C22. The accounting of a storage deal. Over any sequence of settlements, closings, abandonments and
  lapses from its opening, no operation panics, the money moved out of the escrow is exactly what the
  deal records as released, and it never exceeds the price. When every settled audit passed (the only
  verdict the ledger settles), an ended deal has paid out its whole price to provider and consumer.
\<close>

theorem deal_accounting:
  assumes "open_inner p oh = Some d"
  shows "\<exists>d' n. deal_run P d as = Some (d', n) \<and> unat (d_released d') = n \<and> n \<le> unat (dp_price p) \<and>
    (list_all (\<lambda>a. \<forall>h. a \<noteq> OpSettle h False) as \<and> d_state d' \<noteq> Active \<longrightarrow> n = unat (dp_price p))"
proof -
  note op = open_inner_ok [OF assms]
  obtain d' n where run: "deal_run P d as = Some (d', n)" "deal_ok d'" "d_params d' = d_params d"
    "unat (d_released d') = unat (d_released d) + n"
    using deal_run_accounts [of d P as] op by blast
  have ap: "all_passed d" using op by (simp add: all_passed_def)
  have "all_passed d'" if "list_all (\<lambda>a. \<forall>h. a \<noteq> OpSettle h False) as"
    by (rule deal_run_keeps [where I = all_passed and ok = "\<lambda>a. \<forall>h. a \<noteq> OpSettle h False",
          OF _ run(1) that conjunct1 [OF op] ap]) (rule deal_step_all_passed)
  then have "n = unat (dp_price p)" if "list_all (\<lambda>a. \<forall>h. a \<noteq> OpSettle h False) as \<and> d_state d' \<noteq> Active"
    using that run(3,4) op by (simp add: all_passed_def)
  moreover have "unat (d_released d') = n" "n \<le> unat (dp_price p)"
    using run(2-4) op by (simp_all add: deal_ok_def)
  ultimately show ?thesis using run(1) by blast
qed

definition toy_deal_params :: deal_params where
  "toy_deal_params = \<lparr>dp_cid = replicate 32 1, dp_size = 3, dp_duration = 2, dp_replication = 1, dp_lambda_bits = 40,
     dp_f_tol_permille = 10, dp_k = 4, dp_price = 101, dp_provider = replicate 32 2, dp_consumer = replicate 32 3\<rparr>"

theorem deal_accounting_witness:
  "\<exists>d d'. open_at toy_deal_params 10 = Some d \<and> deal_run 64 d [OpSettle 80 True, OpClose] = Some (d', 101)"
proof -
  obtain d where d: "open_inner toy_deal_params (Some 10) = Some d" by (simp add: open_inner_def toy_deal_params_def)
  obtain d' n where r: "deal_run 64 d [OpSettle 80 True, OpClose] = Some (d', n)" "d_state d' \<noteq> Active \<longrightarrow> n = 101"
    using deal_accounting [OF d, of 64 "[OpSettle 80 True, OpClose]"] by (auto simp: toy_deal_params_def)
  have "d_state d' \<noteq> Active"
    using r(1) by (auto simp: deal_close_def split: option.splits)
  with r d show ?thesis by (auto simp: open_at_def)
qed

section \<open>The audit schedule\<close>

text \<open>Each settled epoch cost a full audit period since the opening.\<close>

definition on_schedule :: "u64 \<Rightarrow> u64 \<Rightarrow> deal \<Rightarrow> bool" where
  "on_schedule P op d \<longleftrightarrow> d_open_height d = Some op \<and>
     (case d_last_height d of None \<Rightarrow> d_epoch d = 0 | Some l \<Rightarrow> unat op + unat (d_epoch d) * unat P \<le> unat l)"

lemma settle_on_schedule:
  assumes "on_schedule P op d" "\<not> settle_blocked d h P" "h \<noteq> - 1" "unat (saturating_add (d_epoch d) 1) = unat (d_epoch d) + 1"
  shows "unat op + unat (saturating_add (d_epoch d) 1) * unat P \<le> unat h"
proof -
  let ?s = "case d_last_height d of None \<Rightarrow> op | Some l \<Rightarrow> l"
  have "unat h \<noteq> 2 ^ 64 - 1"
  proof
    assume "unat h = 2 ^ 64 - 1"
    then have "unat h = unat (- 1 :: u64)" by (simp add: unsigned_minus_1_eq_mask mask_eq_exp_minus_1)
    with assms(3) show False by (simp only: word_unat_eq_iff)
  qed
  then have "unat h < 2 ^ 64 - 1" using unat_lt [of h] by simp
  moreover have "unat (saturating_add ?s P) \<le> unat h"
    using assms(1,2) by (simp add: settle_blocked_def on_schedule_def not_less word_le_nat_alt)
  ultimately have "unat ?s + unat P \<le> unat h" by (simp add: unat_saturating_add)
  moreover have "unat op + unat (d_epoch d) * unat P \<le> unat ?s"
    using assms(1) by (auto simp: on_schedule_def split: option.splits)
  ultimately show ?thesis by (simp add: assms(4))
qed

lemma settle_fields:
  assumes "d_state d = Active" "\<not> settle_blocked d h P" "settle_epoch d h ok P = Some (d', x)"
  shows "d_open_height d' = d_open_height d" "d_last_height d' = Some h" "d_epoch d' = saturating_add (d_epoch d) 1"
  using assms by (auto simp: settle_epoch_def Let_def split: if_splits option.splits)

lemma deal_step_on_schedule:
  assumes "deal_ok d" "on_schedule P op d" "deal_step P d a = Some (d', m)" "\<forall>ok. a \<noteq> OpSettle (- 1) ok"
  shows "on_schedule P op d'"
proof (cases a)
  case (OpSettle h ok)
  show ?thesis
  proof (cases "d_state d = Active \<and> \<not> settle_blocked d h P")
    case False
    then show ?thesis using assms OpSettle by (simp add: settle_idle)
  next
    case act: True
    have e: "unat (d_epoch d) < d_duration d" using assms(1) act by (auto simp: deal_ok_def)
    have "h \<noteq> - 1" using OpSettle assms(4) by auto
    then have sch: "unat op + unat (saturating_add (d_epoch d) 1) * unat P \<le> unat h"
      using settle_on_schedule [OF assms(2)] act unat_succ_below [OF e] by blast
    obtain x where "settle_epoch d h ok P = Some (d', x)" using assms(3) OpSettle by auto
    from settle_fields [OF _ _ this] act sch assms(2) show ?thesis by (simp add: on_schedule_def)
  qed
qed (use assms in \<open>auto simp: on_schedule_def deal_close_def terminate_if_abandoned_def finalize_if_lapsed_def split: option.splits if_splits\<close>)

text \<open>
  C23. A provider is paid in arrears. For a deal opened at height \<open>op\<close>, after any operations (with
  settlements at heights below the 64-bit maximum), an active deal that last settled at height \<open>l\<close> has
  released at most the share of its price that the full audit periods between \<open>op\<close> and \<open>l\<close> account for:
  proofs cannot be front-loaded to drain the escrow early.
\<close>

theorem deal_paid_in_arrears:
  assumes "open_at p op = Some d" "list_all (\<lambda>a. \<forall>ok. a \<noteq> OpSettle (- 1) ok) as" "0 < unat P"
    and "deal_run P d as = Some (d', n)" "d_state d' = Active" "d_last_height d' = Some l"
  shows "n * unat (dp_duration p) \<le> unat (dp_price p) * ((unat l - unat op) div unat P)"
proof -
  note op = open_inner_ok [OF assms(1) [unfolded open_at_def]]
  have os: "on_schedule P op d" using op by (simp add: on_schedule_def)
  have "on_schedule P op d'"
    by (rule deal_run_keeps [where I = "on_schedule P op" and ok = "\<lambda>a. \<forall>ok. a \<noteq> OpSettle (- 1) ok",
          OF _ assms(4,2) conjunct1 [OF op] os]) (rule deal_step_on_schedule)
  then have "unat (d_epoch d') * unat P \<le> unat l - unat op" using assms(6) by (auto simp: on_schedule_def)
  then have ep: "unat (d_epoch d') \<le> (unat l - unat op) div unat P"
    using assms(3) by (simp add: less_eq_div_iff_mult_less_eq)
  obtain d'' n' where "deal_run P d as = Some (d'', n')" "deal_ok d''" "d_params d'' = d_params d"
    "unat (d_released d'') = unat (d_released d) + n'"
    using deal_run_accounts [of d P as] op by blast
  then have d': "deal_ok d'" "d_params d' = p" "n = unat (d_released d')" using assms(4) op by auto
  have "n = unat (dp_price p) * unat (d_passed d') div unat (dp_duration p)"
    using d' assms(5) by (simp add: deal_ok_def)
  then have "n * unat (dp_duration p) \<le> unat (dp_price p) * unat (d_passed d')"
    by (metis div_times_less_eq_dividend)
  also have "\<dots> \<le> unat (dp_price p) * ((unat l - unat op) div unat P)"
    using ep d'(1) by (intro mult_le_mono2) (auto simp: deal_ok_def)
  finally show ?thesis .
qed

theorem deal_paid_in_arrears_witness:
  "\<exists>d d' n. open_at toy_deal_params 10 = Some d \<and> deal_run 64 d [OpSettle 80 True] = Some (d', n) \<and>
     n * 2 \<le> 101 * ((80 - 10) div 64)"
proof -
  obtain d where d: "open_at toy_deal_params 10 = Some d" by (simp add: open_at_def open_inner_def toy_deal_params_def)
  have op: "deal_ok d" "d_params d = toy_deal_params" "d_state d = Active" "d_epoch d = 0" "d_last_height d = None" "d_open_height d = Some 10"
    using open_inner_ok [OF d [unfolded open_at_def]] by simp_all
  have nb: "\<not> settle_blocked d 80 64"
    by (simp add: settle_blocked_def op saturating_add_def checked_add_def)
  obtain d' x where s: "settle_epoch d 80 True 64 = Some (d', x)"
    using settle_pass [OF op(1,3) nb] by blast
  have run: "deal_run 64 d [OpSettle 80 True] = Some (d', settled_amount x)" using s by simp
  have act: "d_state d' = Active"
  proof -
    obtain t where "settle_epoch d 80 True 64 = Some (complete_if_due (d\<lparr>d_last_height := Some 80,
        d_epoch := saturating_add (d_epoch d) 1, d_passed := saturating_add (d_passed d) 1, d_released := t\<rparr>),
        Some (SPay (dp_provider (d_params d)) (saturating_sub t (d_released d))))"
      by (rule settle_pass [OF op(1,3) nb])
    with s have "d' = complete_if_due (d\<lparr>d_last_height := Some 80,
        d_epoch := saturating_add (d_epoch d) 1, d_passed := saturating_add (d_passed d) 1, d_released := t\<rparr>)" by simp
    then show ?thesis using op by (simp add: complete_if_due_def word_le_nat_alt toy_deal_params_def saturating_add_def checked_add_def)
  qed
  show ?thesis
    using deal_paid_in_arrears [OF d _ _ run act settle_fields(2) [OF op(3) nb s]] d run
    by (auto simp: toy_deal_params_def)
qed

section \<open>The snapshot form\<close>

definition params_wf :: "deal_params \<Rightarrow> bool" where
  "params_wf p \<longleftrightarrow> length (dp_cid p) = 32 \<and> length (dp_provider p) = 32 \<and> length (dp_consumer p) = 32"

lemma params_from_to [simp]: "params_wf p \<Longrightarrow> params_from_bytes (params_to_bytes p) = Some p"
  by (simp add: params_from_bytes_def params_to_bytes_def params_wf_def DEAL_PARAMS_LEN_def le_dec_enc rd_take_def)

lemma length_params_to_bytes [simp]: "params_wf p \<Longrightarrow> length (params_to_bytes p) = DEAL_PARAMS_LEN"
  by (simp add: params_to_bytes_def params_wf_def DEAL_PARAMS_LEN_def)

lemma rd_put_height [simp]: "rd_height (put_height h @ r) = Some (h, r)"
  by (cases h) (simp_all add: rd_height_def put_height_def)

lemma rd_put_height_end [simp]: "rd_height (put_height h) = Some (h, [])"
  using rd_put_height [of h "[]"] by simp

lemma deal_from_to [simp]: "params_wf (d_params d) \<Longrightarrow> deal_from_bytes (deal_to_bytes d) = Some d"
  by (cases "d_state d") (simp_all add: deal_from_bytes_def deal_to_bytes_def)

lemma length_deal_to_bytes: "params_wf (d_params d) \<Longrightarrow> length (deal_to_bytes d) \<le> 176"
  by (simp add: deal_to_bytes_def put_height_def DEAL_PARAMS_LEN_def split: option.split)

end
