(* ===== verification/Dromos_Storage.thy ===== *)
theory Dromos_Storage
  imports Thesauros_Por Thesauros_Deal Dromos_Token
begin

text \<open>
  The storage market's transactions and sub-state (\<open>fanos-dromos/src/storage.rs\<close>): the escrow account, the
  bounds on a deal, deal identifiers, the three transactions with their wire forms, the market's state
  root and its snapshot.
\<close>

definition STORAGE_ESCROW :: account where "STORAGE_ESCROW = ascii ''FANOS-thesauros-storage-escrow!!''"
definition AUDIT_PERIOD :: u64 where "AUDIT_PERIOD = 64"
definition MAX_DEAL_SIZE :: u64 where "MAX_DEAL_SIZE = word_of_nat CHUNK"
definition MAX_DEAL_DURATION :: u64 where "MAX_DEAL_DURATION = 2 ^ 20"
definition DEAL_ID_LABEL :: string where "DEAL_ID_LABEL = ''FANOS-dromos-v1/storage-deal''"
definition STORAGE_ROOT_LABEL :: string where "STORAGE_ROOT_LABEL = ''FANOS-dromos-v1/storage-root''"

definition deal_id :: "('e, 'm, 's) crypto \<Rightarrow> deal_params \<Rightarrow> u64 \<Rightarrow> byte list" where
  "deal_id C p funding_nonce = hash_labeled C DEAL_ID_LABEL (params_to_bytes p @ put_le 8 funding_nonce)"

datatype ('e, 'm) storage_tx =
    Open deal_params "('e, 'm) signed_transfer"
  | Prove "byte list" "('e, 'm) prover_auth" "byte list"
  | Close "byte list" "('e, 'm) signed_transfer"

primrec storage_tx_to_bytes :: "('e, 'm, 's) crypto \<Rightarrow> ('e, 'm) storage_tx \<Rightarrow> byte list" where
  "storage_tx_to_bytes C (Open p pay) = 0 # params_to_bytes p @ st_to_bytes C pay"
| "storage_tx_to_bytes C (Prove i auth response) = 1 # i @ pa_to_bytes C auth @ response"
| "storage_tx_to_bytes C (Close i auth) = 2 # i @ st_to_bytes C auth"

definition storage_tx_from_bytes :: "('e, 'm, 's) crypto \<Rightarrow> byte list \<Rightarrow> ('e, 'm) storage_tx option" where
  "storage_tx_from_bytes C bs =
     (case bs of
        [] \<Rightarrow> None
      | op # body \<Rightarrow>
          if op = 0 then do {
            (pb, r) \<leftarrow> rd_take DEAL_PARAMS_LEN body;
            p \<leftarrow> params_from_bytes pb;
            pay \<leftarrow> st_from_bytes C r;
            Some (Open p pay) }
          else if op = 1 then do {
            (i, r) \<leftarrow> rd_take 32 body;
            (ab, r) \<leftarrow> rd_take (HYBRID_VK_LEN + HYBRID_SIG_LEN) r;
            auth \<leftarrow> pa_from_bytes C ab;
            Some (Prove i auth r) }
          else if op = 2 then do {
            (i, r) \<leftarrow> rd_take 32 body;
            auth \<leftarrow> st_from_bytes C r;
            Some (Close i auth) }
          else None)"

type_synonym storage_market = "(byte list, deal) btree"

definition market_root_preimage :: "storage_market \<Rightarrow> byte list" where
  "market_root_preimage M =
     concat (map (\<lambda>e. fst e @ put_le 8 (d_released (snd e)) @ put_le 8 (d_epoch (snd e)) @ put_le 8 (d_passed (snd e)) @
       [deal_state_byte (d_state (snd e))]) M)"

definition market_state_root :: "('e, 'm, 's) crypto \<Rightarrow> storage_market \<Rightarrow> byte list" where
  "market_state_root C M = hash_labeled C STORAGE_ROOT_LABEL (market_root_preimage M)"

definition put_deal :: "byte list \<times> deal \<Rightarrow> byte list" where
  "put_deal e = fst e @ put_var_bytes (deal_to_bytes (snd e))"

definition rd_deal :: "(byte list \<times> deal) reader" where
  "rd_deal bs = do {
     (i, r) \<leftarrow> rd_take 32 bs; (db, r) \<leftarrow> rd_var_bytes r; d \<leftarrow> deal_from_bytes db; Some ((i, d), r) }"

definition market_to_bytes :: "storage_market \<Rightarrow> byte list" where
  "market_to_bytes M = put_map put_deal M"

definition market_from_bytes :: "byte list \<Rightarrow> storage_market option" where
  "market_from_bytes bs = do {
     (M, r) \<leftarrow> read_map 36 rd_deal bs;
     if r \<noteq> [] then None else Some M }"

definition leaves_for_size :: "u64 \<Rightarrow> nat" where
  "leaves_for_size sz = max ((unat sz + LEAF - 1) div LEAF) 1"

section \<open>Laws\<close>

text \<open>A deal of the sizes the ledger opens is audited over at most 64 leaves.\<close>

lemma leaves_bounded: "sz \<le> MAX_DEAL_SIZE \<Longrightarrow> 1 \<le> leaves_for_size sz \<and> leaves_for_size sz \<le> 64"
  by (auto simp: leaves_for_size_def MAX_DEAL_SIZE_def CHUNK_def LEAF_def word_le_nat_alt)

definition deal_wf :: "byte list \<times> deal \<Rightarrow> bool" where
  "deal_wf e \<longleftrightarrow> length (fst e) = 32 \<and> params_wf (d_params (snd e))"

lemma rd_put_deal: "deal_wf e \<Longrightarrow> rd_deal (put_deal e @ r) = Some (e, r)"
  using length_deal_to_bytes [of "snd e"]
  by (cases e) (simp add: rd_deal_def put_deal_def deal_wf_def var_bytes.dec_enc)

lemma rd_rep_put_deals:
  "list_all deal_wf M \<Longrightarrow> rd_rep (length M) rd_deal (concat (map put_deal M) @ r) = Some (M, r)"
  by (induction M) (simp_all add: rd_put_deal)

lemma market_snapshot_roundtrip:
  assumes "bt_ok M" "list_all deal_wf M" "length M < 2 ^ 32"
  shows "market_from_bytes (market_to_bytes M) = Some M"
proof -
  have "36 \<le> length (put_deal e)" if "deal_wf e" for e
    using that by (simp add: put_deal_def deal_wf_def put_var_bytes_def)
  then have "36 * length M \<le> length (concat (map put_deal M))"
    using assms(2) by (intro concat_map_length_ge) (auto simp: list_all_iff)
  then have "length M \<le> length (concat (map put_deal M)) div 36" by simp
  then show ?thesis
    using rd_rep_put_deals [OF assms(2), of "[]"] assms(1,3)
    by (simp add: market_from_bytes_def market_to_bytes_def read_map_def rd_bounded_seq_def put_map_def bt_collect_sorted)
qed

end
