(* ===== verification/Dromos_Names.thy ===== *)
theory Dromos_Names
  imports Primitives_Codec Dromos_Token
begin

text \<open>
  The name registry (\<open>fanos-dromos/src/naming.rs\<close>): prices, descriptors, records, the four operations with
  the fee payment that authorises them, the wire forms, the state root and the snapshot. The theorems: an
  operation either changes nothing or settles its fee and makes exactly its own change; an unexpired name
  changes only through a payment signed by its owner; and that signature does not cover the operation.
\<close>

section \<open>Names, prices and descriptors\<close>

definition TREASURY :: account where "TREASURY = ascii ''FANOS-onoma-treasury-v1-account!''"
definition MIN_NAME_LEN :: nat where "MIN_NAME_LEN = 1"
definition MAX_NAME_LEN :: nat where "MAX_NAME_LEN = 64"
definition NAME_ROOT_LABEL :: string where "NAME_ROOT_LABEL = ''FANOS-dromos-v1/name-root''"
definition NAME_KEY_LABEL :: string where "NAME_KEY_LABEL = ''FANOS-dromos-v1/name-key''"

definition name_digest :: "('e, 'm, 's) crypto \<Rightarrow> byte list \<Rightarrow> byte list" where
  "name_digest C nm = hash_labeled C NAME_KEY_LABEL nm"

definition price :: "byte list \<Rightarrow> u64 \<Rightarrow> u64" where
  "price nm duration =
     (let tier = (if length nm \<le> 2 then 1000 else if length nm \<le> 4 then 100 else if length nm \<le> 8 then 10 else 1)
      in saturating_mul (saturating_mul 100 tier) (max duration 1))"

datatype descriptor_kind = Payment | Service | Messenger | Storage | Raw

primrec kind_tag :: "descriptor_kind \<Rightarrow> byte" where
  "kind_tag Payment = 0"
| "kind_tag Service = 1"
| "kind_tag Messenger = 2"
| "kind_tag Raw = 3"
| "kind_tag Storage = 4"

definition kind_from_tag :: "byte \<Rightarrow> descriptor_kind option" where
  "kind_from_tag t =
     (if t = 0 then Some Payment else if t = 1 then Some Service else if t = 2 then Some Messenger
      else if t = 3 then Some Raw else if t = 4 then Some Storage else None)"

record descriptor =
  ds_kind :: descriptor_kind
  ds_data :: "byte list"

definition descriptor_to_bytes :: "descriptor \<Rightarrow> byte list" where
  "descriptor_to_bytes d = kind_tag (ds_kind d) # ds_data d"

definition descriptor_from_bytes :: "byte list \<Rightarrow> descriptor option" where
  "descriptor_from_bytes bs =
     (case bs of [] \<Rightarrow> None | t # d \<Rightarrow> do { k \<leftarrow> kind_from_tag t; Some \<lparr>ds_kind = k, ds_data = d\<rparr> })"

section \<open>Operations\<close>

record name_record =
  nr_name :: "byte list"
  nr_owner :: account
  nr_target :: "byte list"
  nr_expiry :: u64

datatype name_op =
    Register "byte list" "byte list" u64
  | Renew "byte list" u64
  | Update "byte list" "byte list"
  | TransferName "byte list" account

primrec op_name :: "name_op \<Rightarrow> byte list" where
  "op_name (Register nm target d) = nm"
| "op_name (Renew nm d) = nm"
| "op_name (Update nm target) = nm"
| "op_name (TransferName nm owner) = nm"

record ('e, 'm) name_tx =
  nx_op :: name_op
  nx_payment :: "('e, 'm) signed_transfer"

datatype name_error = BadName | WrongPayee | InsufficientFee | NameTaken | NotRegistered | NotOwner | PaymentRefused token_error

type_synonym name_registry = "(byte list, name_record) btree"

definition names_new :: name_registry where "names_new = []"

definition resolve :: "('e, 'm, 's) crypto \<Rightarrow> name_registry \<Rightarrow> byte list \<Rightarrow> u64 \<Rightarrow> name_record option" where
  "resolve C R nm now =
     (case bt_get R (name_digest C nm) of None \<Rightarrow> None | Some r \<Rightarrow> if now \<le> nr_expiry r then Some r else None)"

definition resolve_descriptor :: "('e, 'm, 's) crypto \<Rightarrow> name_registry \<Rightarrow> byte list \<Rightarrow> u64 \<Rightarrow> descriptor option" where
  "resolve_descriptor C R nm now = do { r \<leftarrow> resolve C R nm now; descriptor_from_bytes (nr_target r) }"

definition owned_record ::
    "('e, 'm, 's) crypto \<Rightarrow> name_registry \<Rightarrow> byte list \<Rightarrow> account \<Rightarrow> u64 \<Rightarrow> name_error + name_record" where
  "owned_record C R nm actor now =
     (case resolve C R nm now of
        None \<Rightarrow> Inl NotRegistered
      | Some r \<Rightarrow> if nr_owner r \<noteq> actor then Inl NotOwner else Inr r)"

text \<open>\<open>Mutation::Set(name, rec)\<close> and its commit.\<close>

type_synonym mutation = "byte list \<times> name_record"

definition plan ::
    "('e, 'm, 's) crypto \<Rightarrow> name_registry \<Rightarrow> name_op \<Rightarrow> byte list \<Rightarrow> account \<Rightarrow> u64 \<Rightarrow> u64 \<Rightarrow> name_error + mutation" where
  "plan C R op nm actor now fee =
     (case op of
        Register _ target duration \<Rightarrow>
          (if resolve C R nm now \<noteq> None then Inl NameTaken
           else if fee < price nm duration then Inl InsufficientFee
           else Inr (nm, \<lparr>nr_name = nm, nr_owner = actor, nr_target = target, nr_expiry = saturating_add now duration\<rparr>))
      | Renew _ duration \<Rightarrow>
          bindR (owned_record C R nm actor now) (\<lambda>r.
            if fee < price nm duration then Inl InsufficientFee
            else Inr (nm, r\<lparr>nr_expiry := saturating_add (max (nr_expiry r) now) duration\<rparr>))
      | Update _ target \<Rightarrow> bindR (owned_record C R nm actor now) (\<lambda>r. Inr (nm, r\<lparr>nr_target := target\<rparr>))
      | TransferName _ new_owner \<Rightarrow> bindR (owned_record C R nm actor now) (\<lambda>r. Inr (nm, r\<lparr>nr_owner := new_owner\<rparr>)))"

definition mutation_commit :: "('e, 'm, 's) crypto \<Rightarrow> mutation \<Rightarrow> name_registry \<Rightarrow> name_registry" where
  "mutation_commit C m R = bt_insert (name_digest C (fst m)) (snd m) R"

definition name_apply ::
    "('e, 'm, 's) crypto \<Rightarrow> name_registry \<Rightarrow> ('e, 'm) name_tx \<Rightarrow> token_ledger \<Rightarrow> u64 \<Rightarrow>
     name_registry \<times> token_ledger \<times> (name_error + unit)" where
  "name_apply C R tx tokens now =
     (let nm = op_name (nx_op tx); t = st_transfer (nx_payment tx) in
      if \<not> (MIN_NAME_LEN \<le> length nm \<and> length nm \<le> MAX_NAME_LEN) then (R, tokens, Inl BadName)
      else if t_to t \<noteq> TREASURY then (R, tokens, Inl WrongPayee)
      else case plan C R (nx_op tx) nm (t_from t) now (t_amount t) of
             Inl e \<Rightarrow> (R, tokens, Inl e)
           | Inr m \<Rightarrow>
               (case tl_apply C tokens (nx_payment tx) of
                  (tokens', Inl e) \<Rightarrow> (R, tokens', Inl (PaymentRefused e))
                | (tokens', Inr _) \<Rightarrow> (mutation_commit C m R, tokens', Inr ())))"

definition record_at :: "name_registry \<Rightarrow> byte list \<Rightarrow> name_record option" where
  "record_at R k = bt_get R k"

definition name_put :: "('e, 'm, 's) crypto \<Rightarrow> name_registry \<Rightarrow> name_record \<Rightarrow> name_registry" where
  "name_put C R r = bt_insert (name_digest C (nr_name r)) r R"

section \<open>Commitment, snapshot and wire forms\<close>

definition put_record_root :: "byte list \<times> name_record \<Rightarrow> byte list" where
  "put_record_root e =
     (let r = snd e
      in fst e @ put_le 4 (word_of_nat (length (nr_name r)) :: u32) @ nr_name r @ nr_owner r @ put_le 8 (nr_expiry r) @
         put_le 4 (word_of_nat (length (nr_target r)) :: u32) @ nr_target r)"

definition names_state_root :: "('e, 'm, 's) crypto \<Rightarrow> name_registry \<Rightarrow> byte list" where
  "names_state_root C R = hash_labeled C NAME_ROOT_LABEL (concat (map put_record_root R))"

definition put_record :: "byte list \<times> name_record \<Rightarrow> byte list" where
  "put_record e =
     (let r = snd e
      in fst e @ put_var_bytes (nr_name r) @ nr_owner r @ put_u64 (nr_expiry r) @ put_var_bytes (nr_target r))"

definition names_to_bytes :: "name_registry \<Rightarrow> byte list" where
  "names_to_bytes R = put_map put_record R"

definition rd_record :: "('e, 'm, 's) crypto \<Rightarrow> (byte list \<times> name_record) reader" where
  "rd_record C bs = do {
     (k, r) \<leftarrow> rd_take 32 bs; (nm, r) \<leftarrow> rd_var_bytes r; (ow, r) \<leftarrow> rd_take 32 r; (ex, r) \<leftarrow> rd_u64 r; (tg, r) \<leftarrow> rd_var_bytes r;
     if k = name_digest C nm
     then Some ((k, \<lparr>nr_name = nm, nr_owner = ow, nr_target = tg, nr_expiry = ex\<rparr>), r) else None }"

definition names_from_bytes :: "('e, 'm, 's) crypto \<Rightarrow> byte list \<Rightarrow> name_registry option" where
  "names_from_bytes C bs = do {
     (R, r) \<leftarrow> read_map 80 (rd_record C) bs;
     if r \<noteq> [] then None else Some R }"

definition put_op_bytes :: "byte list \<Rightarrow> byte list" where
  "put_op_bytes b = put_le 4 (word_of_nat (length b) :: u32) @ b"

primrec name_op_to_bytes :: "name_op \<Rightarrow> byte list" where
  "name_op_to_bytes (Register nm target d) = 0 # put_op_bytes nm @ put_op_bytes target @ put_le 8 d"
| "name_op_to_bytes (Renew nm d) = 1 # put_op_bytes nm @ put_le 8 d"
| "name_op_to_bytes (Update nm target) = 2 # put_op_bytes nm @ put_op_bytes target"
| "name_op_to_bytes (TransferName nm owner) = 3 # put_op_bytes nm @ owner"

definition name_op_from_bytes :: "byte list \<Rightarrow> name_op option" where
  "name_op_from_bytes bs =
     (case bs of
        [] \<Rightarrow> None
      | tag # rest \<Rightarrow>
          if tag = 0 then do {
            (nm, r) \<leftarrow> rd_var_bytes rest; (tg, r) \<leftarrow> rd_var_bytes r; (d, r) \<leftarrow> rd_le 8 r; Some (Register nm tg d) }
          else if tag = 1 then do { (nm, r) \<leftarrow> rd_var_bytes rest; (d, r) \<leftarrow> rd_le 8 r; Some (Renew nm d) }
          else if tag = 2 then do { (nm, r) \<leftarrow> rd_var_bytes rest; (tg, r) \<leftarrow> rd_var_bytes r; Some (Update nm tg) }
          else if tag = 3 then do { (nm, r) \<leftarrow> rd_var_bytes rest; (ow, r) \<leftarrow> rd_take 32 r; Some (TransferName nm ow) }
          else None)"

definition name_tx_to_bytes :: "('e, 'm, 's) crypto \<Rightarrow> ('e, 'm) name_tx \<Rightarrow> byte list" where
  "name_tx_to_bytes C tx = name_op_to_bytes (nx_op tx) @ st_to_bytes C (nx_payment tx)"

definition name_tx_from_bytes :: "('e, 'm, 's) crypto \<Rightarrow> byte list \<Rightarrow> ('e, 'm) name_tx option" where
  "name_tx_from_bytes C bs =
     (if length bs < WIRE_LEN then None
      else do {
        op \<leftarrow> name_op_from_bytes (take (length bs - WIRE_LEN) bs);
        p \<leftarrow> st_from_bytes C (drop (length bs - WIRE_LEN) bs);
        Some \<lparr>nx_op = op, nx_payment = p\<rparr> })"

section \<open>What an operation does\<close>

lemma name_apply_cases:
  obtains (refused) e where "name_apply C R tx L now = (R, L, Inl e)"
  | (settled) m where "name_apply C R tx L now = (mutation_commit C m R, fst (tl_apply C L (nx_payment tx)), Inr ())"
      "plan C R (nx_op tx) (op_name (nx_op tx)) (t_from (st_transfer (nx_payment tx))) now (t_amount (st_transfer (nx_payment tx))) = Inr m"
      "settled (apply_with_verdict L (nx_payment tx) (st_verify C (nx_payment tx)))" "t_to (st_transfer (nx_payment tx)) = TREASURY"
proof (cases "snd (snd (name_apply C R tx L now))")
  case (Inl e)
  have "fst (tl_apply C L (nx_payment tx)) = L" if "snd (tl_apply C L (nx_payment tx)) = Inl e'" for e'
    using apply_error_unchanged [of L "nx_payment tx" "st_verify C (nx_payment tx)"] that by (simp add: tl_apply_def settled_def)
  then have "name_apply C R tx L now = (R, L, Inl e)"
    using Inl by (auto simp: name_apply_def Let_def split: sum.splits prod.splits if_splits)
  then show ?thesis by (rule refused)
next
  case (Inr u)
  then show ?thesis
    using settled by (auto simp: name_apply_def Let_def settled_def tl_apply_def split: sum.splits prod.splits if_splits)
qed

lemma plan_name: "plan C R op nm actor now fee = Inr m \<Longrightarrow> fst m = nm"
  by (auto simp: plan_def split: name_op.splits if_splits)

text \<open>An operation on an unexpired name is planned for its owner only.\<close>

lemma plan_owner:
  assumes "plan C R op nm actor now fee = Inr m" "bt_get R (name_digest C nm) = Some r" "now \<le> nr_expiry r"
  shows "actor = nr_owner r"
  using assms by (auto simp: plan_def resolve_def owned_record_def split: name_op.splits if_splits)

text \<open>
  A name operation is atomic and paid for by the account it acts for, on a ledger whose supply is below \<open>2\<^sup>64\<close>. A
  refused operation leaves registry and balances as they were. An applied one has a payment to the treasury that is settled
  exactly as a transfer signed by the payer, keeps the supply, changes the record of its own name only, and either claims
  a name nobody holds unexpired for the payer, for at least its price, or edits a record the payer owns. The signature is
  on the payment only: it does not cover the operation (\<open>update_payment_transfers_name\<close>).
\<close>

theorem name_apply_authorised:
  assumes "ledger_ok L" "tl_supply L < 2 ^ 64" "name_apply C R tx L now = (R', L', r)"
    and "t = st_transfer (nx_payment tx)" "nm = op_name (nx_op tx)"
  shows "(r \<noteq> Inr () \<longrightarrow> R' = R \<and> L' = L) \<and>
    (r = Inr () \<longrightarrow>
       st_verify C (nx_payment tx) \<and> t_to t = TREASURY \<and> tl_supply L' = tl_supply L \<and>
       (\<forall>a. unat (balance L' a) = after_move (balance L) (t_from t) TREASURY (t_amount t) a) \<and>
       (\<forall>k. k \<noteq> name_digest C nm \<longrightarrow> bt_get R' k = bt_get R k) \<and>
       (case nx_op tx of
          Register _ target d \<Rightarrow> resolve C R nm now = None \<and> price nm d \<le> t_amount t \<and>
            bt_get R' (name_digest C nm) =
              Some \<lparr>nr_name = nm, nr_owner = t_from t, nr_target = target, nr_expiry = saturating_add now d\<rparr>
        | Renew _ d \<Rightarrow> price nm d \<le> t_amount t \<and> (\<exists>rec. resolve C R nm now = Some rec \<and> nr_owner rec = t_from t \<and>
            bt_get R' (name_digest C nm) = Some (rec\<lparr>nr_expiry := saturating_add (max (nr_expiry rec) now) d\<rparr>))
        | Update _ target \<Rightarrow> (\<exists>rec. resolve C R nm now = Some rec \<and> nr_owner rec = t_from t \<and>
            bt_get R' (name_digest C nm) = Some (rec\<lparr>nr_target := target\<rparr>))
        | TransferName _ owner \<Rightarrow> (\<exists>rec. resolve C R nm now = Some rec \<and> nr_owner rec = t_from t \<and>
            bt_get R' (name_digest C nm) = Some (rec\<lparr>nr_owner := owner\<rparr>))))"
proof (cases rule: name_apply_cases [of C R tx L now])
  case (refused e)
  then show ?thesis using assms(3) by simp
next
  case (settled m)
  note eff = apply_effect [OF assms(1,2), of "nx_payment tx" "st_verify C (nx_payment tx)"]
  have R': "R' = bt_insert (name_digest C nm) (snd m) R" "L' = fst (apply_with_verdict L (nx_payment tx) (st_verify C (nx_payment tx)))" "r = Inr ()"
    using settled(1) assms(3,5) plan_name [OF settled(2)] by (auto simp: mutation_commit_def tl_apply_def)
  have "st_verify C (nx_payment tx)" using settled(3) by (simp add: settled_apply)
  then show ?thesis
    using settled(2-4) eff unfolding R'
    by (auto simp: assms(4,5) plan_def owned_record_def split: name_op.splits if_splits option.splits)
qed

definition toy_name_tx :: "name_op \<Rightarrow> u64 \<Rightarrow> u64 \<Rightarrow> (byte, byte) name_tx" where
  "toy_name_tx op x n = \<lparr>nx_op = op, nx_payment = toy_transfer 1 TREASURY x n\<rparr>"

abbreviation "toy_name \<equiv> [97, 108, 105, 99, 101, 46, 102, 97, 110] :: byte list"

lemma toy_pays: "x \<le> 100 \<Longrightarrow> settled (apply_with_verdict toy_ledger (toy_transfer 1 a x 0) (st_verify toy_crypto (toy_transfer 1 a x 0)))"
  by (simp add: settled_apply toy_transfer_def st_verify_def)

lemma toy_register:
  "\<exists>R L. name_apply toy_crypto names_new (toy_name_tx (Register toy_name [3, 9] 1) 100 0) toy_ledger 7 = (R, L, Inr ())"
proof -
  have "snd (tl_apply toy_crypto toy_ledger (toy_transfer 1 TREASURY 100 0)) = Inr ()"
    using toy_pays [of 100 TREASURY] by (simp add: settled_def tl_apply_def)
  then obtain L where L: "tl_apply toy_crypto toy_ledger (toy_transfer 1 TREASURY 100 0) = (L, Inr ())"
    by (cases "tl_apply toy_crypto toy_ledger (toy_transfer 1 TREASURY 100 0)") simp
  have p: "price toy_name 1 = 100" by (simp add: price_def saturating_mul_def checked_mul_def)
  have t: "t_to (st_transfer (toy_transfer 1 TREASURY 100 0)) = TREASURY" "t_amount (st_transfer (toy_transfer 1 TREASURY 100 0)) = 100"
    by (simp_all add: toy_transfer_def)
  show ?thesis
    using L t p by (simp add: name_apply_def Let_def toy_name_tx_def MIN_NAME_LEN_def MAX_NAME_LEN_def plan_def resolve_def names_new_def)
qed

theorem name_apply_authorised_witness:
  "\<exists>R L. name_apply toy_crypto names_new (toy_name_tx (Register toy_name [3, 9] 1) 100 0) toy_ledger 7 = (R, L, Inr ()) \<and>
     bt_get R (name_digest toy_crypto toy_name) =
       Some \<lparr>nr_name = toy_name, nr_owner = toy_account 1, nr_target = [3, 9], nr_expiry = saturating_add 7 1\<rparr> \<and>
     tl_supply L = 100"
proof -
  obtain R L where r: "name_apply toy_crypto names_new (toy_name_tx (Register toy_name [3, 9] 1) 100 0) toy_ledger 7 = (R, L, Inr ())"
    using toy_register by blast
  show ?thesis
    using name_apply_authorised [OF _ _ r refl refl] r by (simp add: toy_name_tx_def toy_transfer_def)
qed

section \<open>Ownership\<close>

definition run_names ::
    "('e, 'm, 's) crypto \<Rightarrow> name_registry \<times> token_ledger \<Rightarrow> (('e, 'm) name_tx \<times> u64) list \<Rightarrow> name_registry \<times> token_ledger" where
  "run_names C s txs = foldl (\<lambda>(R, L) (tx, now). case name_apply C R tx L now of (R', L', _) \<Rightarrow> (R', L')) s txs"

lemma foreign_op_keeps_record:
  assumes "bt_get R (name_digest C nm) = Some rec" "now \<le> nr_expiry rec"
    and "t_from (st_transfer (nx_payment tx)) = nr_owner rec \<longrightarrow> \<not> st_verify C (nx_payment tx)"
    and "name_apply C R tx L now = (R', L', r)"
  shows "bt_get R' (name_digest C nm) = Some rec"
proof (cases rule: name_apply_cases [of C R tx L now])
  case (refused e)
  then show ?thesis using assms(1,4) by simp
next
  case (settled m)
  let ?nm = "op_name (nx_op tx)"
  have R': "R' = bt_insert (name_digest C ?nm) (snd m) R"
    using settled(1) assms(4) plan_name [OF settled(2)] by (simp add: mutation_commit_def)
  have "name_digest C ?nm \<noteq> name_digest C nm"
    using plan_owner [OF settled(2), of rec] settled(3) assms(1-3) by (auto simp: settled_apply)
  then show ?thesis using assms(1) by (simp add: R')
qed

text \<open>
  A held name is its owner's. While its record is unexpired, no sequence of name operations whatever
  changes it, unless one of them carries a payment from the owner's account with the owner's signature.
\<close>

theorem held_name_is_kept:
  assumes "bt_get R (name_digest C nm) = Some rec"
    and "list_all (\<lambda>(tx, now). now \<le> nr_expiry rec \<and>
      (t_from (st_transfer (nx_payment tx)) = nr_owner rec \<longrightarrow> \<not> st_verify C (nx_payment tx))) txs"
  shows "bt_get (fst (run_names C (R, L) txs)) (name_digest C nm) = Some rec"
  using assms
proof (induction txs arbitrary: R L)
  case (Cons e txs)
  obtain tx now where e: "e = (tx, now)" by fastforce
  obtain R' L' r where r: "name_apply C R tx L now = (R', L', r)" by (metis prod_cases3)
  have "bt_get R' (name_digest C nm) = Some rec"
    by (rule foreign_op_keeps_record [OF Cons.prems(1) _ _ r]) (use Cons.prems(2) e in simp_all)
  from Cons.IH [OF this, of L'] Cons.prems(2) show ?case by (simp add: run_names_def e r)
qed (simp add: run_names_def)

definition toy_registry :: name_registry where
  "toy_registry = [(name_digest toy_crypto toy_name, \<lparr>nr_name = toy_name, nr_owner = toy_account 1, nr_target = [3, 9], nr_expiry = 50\<rparr>)]"

theorem held_name_is_kept_witness:
  "let tx = \<lparr>nx_op = TransferName toy_name (toy_account 2), nx_payment = toy_transfer 2 TREASURY 0 0\<rparr>
   in bt_get (fst (run_names toy_crypto (toy_registry, toy_ledger) [(tx, 20)])) (name_digest toy_crypto toy_name) =
        Some \<lparr>nr_name = toy_name, nr_owner = toy_account 1, nr_target = [3, 9], nr_expiry = 50\<rparr>"
  unfolding Let_def
  by (rule held_name_is_kept) (simp_all add: toy_registry_def bt_get_def toy_transfer_def)

text \<open>
  The signature of a name operation covers its payment, not the operation. Whenever an owner's update of
  its name is applied, the very same signed payment, attached by anyone to a transfer of that name to any
  account, is applied as well, settles the same fee, and makes that account the owner.
\<close>

theorem update_payment_transfers_name:
  assumes "name_apply C R \<lparr>nx_op = Update nm target, nx_payment = pay\<rparr> L now = (R1, L1, Inr ())"
  shows "\<exists>R2 rec. name_apply C R \<lparr>nx_op = TransferName nm thief, nx_payment = pay\<rparr> L now = (R2, L1, Inr ()) \<and>
    bt_get R2 (name_digest C nm) = Some rec \<and> nr_owner rec = thief"
  using assms
  by (auto simp: name_apply_def Let_def plan_def mutation_commit_def owned_record_def split: sum.splits prod.splits if_splits option.splits)

theorem update_payment_transfers_name_witness:
  "\<exists>R2 L1 rec. name_apply toy_crypto toy_registry (toy_name_tx (TransferName toy_name (toy_account 9)) 5 0) toy_ledger 20 = (R2, L1, Inr ()) \<and>
     bt_get R2 (name_digest toy_crypto toy_name) = Some rec \<and> nr_owner rec = toy_account 9"
proof -
  have "snd (tl_apply toy_crypto toy_ledger (toy_transfer 1 TREASURY 5 0)) = Inr ()"
    using toy_pays [of 5 TREASURY] by (simp add: settled_def tl_apply_def)
  then obtain L where L: "tl_apply toy_crypto toy_ledger (toy_transfer 1 TREASURY 5 0) = (L, Inr ())"
    by (cases "tl_apply toy_crypto toy_ledger (toy_transfer 1 TREASURY 5 0)") simp
  have t: "t_to (st_transfer (toy_transfer 1 TREASURY 5 0)) = TREASURY" "t_from (st_transfer (toy_transfer 1 TREASURY 5 0)) = toy_account 1"
    by (simp_all add: toy_transfer_def)
  have "\<exists>R1. name_apply toy_crypto toy_registry \<lparr>nx_op = Update toy_name [0], nx_payment = toy_transfer 1 TREASURY 5 0\<rparr> toy_ledger 20 = (R1, L, Inr ())"
    using L t
    by (simp add: name_apply_def Let_def MIN_NAME_LEN_def MAX_NAME_LEN_def plan_def resolve_def owned_record_def toy_registry_def bt_get_def)
  then obtain R1 where u: "name_apply toy_crypto toy_registry \<lparr>nx_op = Update toy_name [0], nx_payment = toy_transfer 1 TREASURY 5 0\<rparr> toy_ledger 20 = (R1, L, Inr ())"
    by blast
  from update_payment_transfers_name [OF u, of "toy_account 9"] show ?thesis by (auto simp: toy_name_tx_def)
qed

section \<open>Round trips\<close>

definition record_wf :: "('e, 'm, 's) crypto \<Rightarrow> byte list \<times> name_record \<Rightarrow> bool" where
  "record_wf C e \<longleftrightarrow>
     length (fst e) = 32 \<and> fst e = name_digest C (nr_name (snd e)) \<and> length (nr_owner (snd e)) = 32 \<and>
     length (nr_name (snd e)) < 2 ^ 32 \<and> length (nr_target (snd e)) < 2 ^ 32"

lemma record_codec: "codec put_record (rd_record C) (record_wf C)"
proof
  fix e r assume "record_wf C e"
  moreover obtain k rec where "e = (k, rec)" by fastforce
  ultimately show "rd_record C (put_record e @ r) = Some (e, r)"
    by (auto simp: rd_record_def put_record_def record_wf_def Let_def var_bytes.dec_enc)
next
  fix bs e r assume "rd_record C bs = Some (e, r)"
  then show "record_wf C e \<and> bs = put_record e @ r"
    by (auto simp: rd_record_def put_record_def record_wf_def Let_def bind_eq_Some_conv codec_simps var_bytes.dec_iff split: if_splits)
qed

lemma names_snapshot_roundtrip:
  assumes "bt_ok R" "list_all (record_wf C) R" "length R < 2 ^ 32"
  shows "names_from_bytes C (names_to_bytes R) = Some R"
proof -
  have "80 \<le> length (put_record e)" if "record_wf C e" for e
    using that by (cases e) (simp add: put_record_def record_wf_def Let_def put_var_bytes_def)
  then show ?thesis
    using read_map_put_map [OF record_codec assms(2,1,3), of 80 "[]"]
    by (simp add: names_from_bytes_def names_to_bytes_def)
qed

lemma put_op_bytes_var: "length b < 2 ^ 32 \<Longrightarrow> put_op_bytes b = put_var_bytes b"
  by (simp add: put_op_bytes_def put_var_bytes_def put_u32_def len_u32_def)

text \<open>Decoding an operation returns it, and ignores whatever follows its fields.\<close>

lemma name_op_ignores_trailing_bytes:
  assumes "length nm < 2 ^ 32" "length target < 2 ^ 32"
  shows "name_op_from_bytes (name_op_to_bytes (Register nm target d) @ junk) = Some (Register nm target d)"
    "name_op_from_bytes (name_op_to_bytes (Renew nm d) @ junk) = Some (Renew nm d)"
    "name_op_from_bytes (name_op_to_bytes (Update nm target) @ junk) = Some (Update nm target)"
    "length owner = 32 \<Longrightarrow> name_op_from_bytes (name_op_to_bytes (TransferName nm owner) @ junk) = Some (TransferName nm owner)"
  using assms by (simp_all add: name_op_from_bytes_def put_op_bytes_var var_bytes.dec_enc le_dec_enc)

end
