(* ===== verification/Obolos_Commit.thy ===== *)
theory Obolos_Commit
  imports Fanos_Crypto Primitives_Codec "HOL-Library.Signed_Division"
begin

text \<open>
  The value commitments of the shielded pool (\<open>fanos-obolos/src/commit.rs\<close> and their wire forms in
  \<open>codec.rs\<close>): the common reference string, ternary randomness, the commitment, its homomorphic sum and
  difference, and the balance check. Coefficients are unbounded integers; \<open>commit_fits_i128\<close> shows that
  the accumulators of the source stay inside their 128 bits.
\<close>

section \<open>Parameters\<close>

definition Q :: int where "Q = 2 ^ 61 - 1"
definition N :: nat where "N = 128"
definition L :: nat where "L = 256"
definition MAX_VALUE :: u64 where "MAX_VALUE = 2 ^ 51"
definition MAX_NOTES_PER_TX :: nat where "MAX_NOTES_PER_TX = nat (Q div 2 ^ 51) - 2"
definition CRS_LABEL :: string where "CRS_LABEL = ''FANOS-obolos-v1/commit-crs''"
definition RAND_LABEL :: string where "RAND_LABEL = ''FANOS-obolos-v1/commit-rand''"

definition rem_q :: "int \<Rightarrow> int" where
  "rem_q x = (x smod Q + Q) smod Q"

record commit_params =
  cp_a1 :: "int list"
  cp_a2 :: "int list"

type_synonym randomness = "int list"

text \<open>\<open>as_chunks::<L>()\<close> of the row-major matrix: the complete rows.\<close>

definition cp_rows :: "commit_params \<Rightarrow> int list list" where
  "cp_rows p = map (\<lambda>i. take L (drop (i * L) (cp_a1 p))) [0..<length (cp_a1 p) div L]"

definition dot :: "int list \<Rightarrow> int list \<Rightarrow> int" where
  "dot a x = sum_list (map2 (*) a x)"

definition m_times :: "commit_params \<Rightarrow> int list \<Rightarrow> int list" where
  "m_times p y = map (\<lambda>row. rem_q (dot row y)) (cp_rows p) @ [rem_q (dot (cp_a2 p) y)]"

text \<open>The complete eight-byte words of a byte string, little-endian.\<close>

fun le_words :: "byte list \<Rightarrow> u64 list" where
  "le_words (a # b # c # d # e # f # g # h # r) =
     word_of_nat (from_be (rev [a, b, c, d, e, f, g, h])) # le_words r"
| "le_words _ = []"

definition params_from_seed :: "('e, 'm, 's) crypto \<Rightarrow> byte list \<Rightarrow> commit_params" where
  "params_from_seed C seed =
     (let words = le_words (hash_xof C CRS_LABEL seed ((N * L + L) * 8));
          uniform = map (\<lambda>w. rem_q (uint w))
      in \<lparr>cp_a1 = uniform (take (N * L) words), cp_a2 = uniform (take L (drop (N * L) words))\<rparr>)"

definition params_standard :: "('e, 'm, 's) crypto \<Rightarrow> commit_params" where
  "params_standard C = params_from_seed C (ascii ''FANOS-obolos-v1/standard-crs'')"

section \<open>Randomness\<close>

text \<open>One block of the rejection sampler: bytes below 252 become ternary digits until \<open>L\<close> are there.\<close>

fun sample_block :: "byte list \<Rightarrow> randomness \<Rightarrow> randomness" where
  "sample_block [] coeffs = coeffs"
| "sample_block (b # bs) coeffs =
     (if length coeffs = L then coeffs
      else sample_block bs (if b < 252 then coeffs @ [int (unat b mod 3) - 1] else coeffs))"

partial_function (option) sample_loop ::
    "('e, 'm, 's) crypto \<Rightarrow> byte list \<Rightarrow> u64 \<Rightarrow> randomness \<Rightarrow> randomness option" where
  "sample_loop C seed round coeffs =
     (if length coeffs < L
      then sample_loop C seed (round + 1) (sample_block (hash_xof C RAND_LABEL (seed @ put_le 8 round) 256) coeffs)
      else Some coeffs)"

definition randomness_from_seed :: "('e, 'm, 's) crypto \<Rightarrow> byte list \<Rightarrow> randomness option" where
  "randomness_from_seed C seed = sample_loop C seed 0 []"

definition is_ternary :: "randomness \<Rightarrow> bool" where
  "is_ternary r \<longleftrightarrow> length r = L \<and> list_all (\<lambda>c. - 1 \<le> c \<and> c \<le> 1) r"

definition rand_add :: "randomness \<Rightarrow> randomness \<Rightarrow> randomness" where
  "rand_add r s = map2 (+) r s"

definition rand_sub :: "randomness \<Rightarrow> randomness \<Rightarrow> randomness" where
  "rand_sub r s = map2 (-) r s"

definition zero_randomness :: randomness where
  "zero_randomness = replicate L 0"

definition sum_randomness :: "randomness list \<Rightarrow> randomness" where
  "sum_randomness rs = foldl rand_add (case rs of [] \<Rightarrow> zero_randomness | r # _ \<Rightarrow> r) (drop 1 rs)"

section \<open>Commitments\<close>

record commitment =
  cm_t0 :: "int list"
  cm_t1 :: int

definition commit :: "commit_params \<Rightarrow> u64 \<Rightarrow> randomness \<Rightarrow> commitment" where
  "commit p v r = \<lparr>cm_t0 = map (\<lambda>row. rem_q (dot row r)) (cp_rows p), cm_t1 = rem_q (dot (cp_a2 p) r + uint v)\<rparr>"

definition public_value :: "u64 \<Rightarrow> commitment" where
  "public_value v = \<lparr>cm_t0 = replicate N 0, cm_t1 = rem_q (uint v)\<rparr>"

definition cm_add :: "commitment \<Rightarrow> commitment \<Rightarrow> commitment" where
  "cm_add a b = \<lparr>cm_t0 = map2 (\<lambda>x y. rem_q (x + y)) (cm_t0 a) (cm_t0 b), cm_t1 = rem_q (cm_t1 a + cm_t1 b)\<rparr>"

definition cm_sub :: "commitment \<Rightarrow> commitment \<Rightarrow> commitment" where
  "cm_sub a b = \<lparr>cm_t0 = map2 (\<lambda>x y. rem_q (x - y)) (cm_t0 a) (cm_t0 b), cm_t1 = rem_q (cm_t1 a - cm_t1 b)\<rparr>"

definition opens_to :: "commitment \<Rightarrow> commit_params \<Rightarrow> u64 \<Rightarrow> randomness \<Rightarrow> bool" where
  "opens_to c p v r \<longleftrightarrow> c = commit p v r"

definition cm_sum :: "commitment list \<Rightarrow> commitment" where
  "cm_sum cs = foldl cm_add (public_value 0) cs"

definition verify_balance ::
    "commit_params \<Rightarrow> commitment list \<Rightarrow> commitment list \<Rightarrow> u64 \<Rightarrow> randomness \<Rightarrow> bool" where
  "verify_balance p inputs outputs fee r_balance =
     opens_to (cm_sub (cm_sub (cm_sum inputs) (cm_sum outputs)) (public_value fee)) p 0 r_balance"

section \<open>Wire forms\<close>

text \<open>An \<open>i64\<close> on the wire is its two's complement, little-endian.\<close>

definition put_i64 :: "int \<Rightarrow> byte list" where
  "put_i64 x = put_le 8 (word_of_int x :: u64)"

definition rd_i64 :: "int reader" where
  "rd_i64 bs = do { (w, r) \<leftarrow> rd_le 8 bs; Some (sint (w :: u64), r) }"

definition COMMITMENT_LEN :: nat where "COMMITMENT_LEN = (N + 1) * 8"
definition RANDOMNESS_LEN :: nat where "RANDOMNESS_LEN = L * 8"

definition cm_to_bytes :: "commitment \<Rightarrow> byte list" where
  "cm_to_bytes c = concat (map put_i64 (cm_t0 c)) @ put_i64 (cm_t1 c)"

definition cm_from_bytes :: "byte list \<Rightarrow> commitment option" where
  "cm_from_bytes bs =
     (if length bs \<noteq> COMMITMENT_LEN then None
      else do {
        (t0, r) \<leftarrow> rd_rep N rd_i64 bs;
        (t1, r) \<leftarrow> rd_i64 r;
        Some \<lparr>cm_t0 = t0, cm_t1 = t1\<rparr> })"

definition rand_to_bytes :: "randomness \<Rightarrow> byte list" where
  "rand_to_bytes x = concat (map put_i64 x)"

definition rand_from_bytes :: "byte list \<Rightarrow> randomness option" where
  "rand_from_bytes bs =
     (if length bs \<noteq> RANDOMNESS_LEN then None
      else do {
        (coeffs, r) \<leftarrow> rd_rep L rd_i64 bs;
        if is_ternary coeffs then Some coeffs else None })"

section \<open>The homomorphism\<close>

lemma Q_pos: "0 < Q" by (simp add: Q_def)

lemma smod_pos_mod: "0 < q \<Longrightarrow> (x smod q) mod q = x mod q" for x q :: int
proof -
  assume q: "0 < q"
  have "(x smod q) mod q = (q * (x sdiv q) + x smod q) mod q" by simp
  then show "(x smod q) mod q = x mod q" by (simp only: mult_sdiv_smod_eq)
qed

lemma rem_q_mod [simp]: "rem_q x = x mod Q"
proof -
  have "0 < x smod Q + Q" using smod_int_range [of Q x] Q_pos by auto
  then have "rem_q x = (x smod Q + Q) mod Q" using Q_pos by (simp add: rem_q_def signed_modulo_int_def)
  then show ?thesis using smod_pos_mod [OF Q_pos] by simp
qed

lemma dot_linear:
  "length r = length s \<Longrightarrow> length a \<le> length r \<Longrightarrow> dot a (rand_add r s) = dot a r + dot a s"
  "length r = length s \<Longrightarrow> length a \<le> length r \<Longrightarrow> dot a (rand_sub r s) = dot a r - dot a s"
proof (induction r s arbitrary: a rule: list_induct2)
  case (Cons x r y s)
  {
    case 1
    then show ?case using Cons by (cases a) (auto simp: dot_def rand_add_def algebra_simps)
  next
    case 2
    then show ?case using Cons by (cases a) (auto simp: dot_def rand_sub_def algebra_simps)
  }
qed (simp_all add: dot_def rand_add_def rand_sub_def)

lemma dot_zero [simp]: "dot a (replicate n 0) = 0"
proof (induction a arbitrary: n)
  case (Cons x a)
  then show ?case by (cases n) (simp_all add: dot_def)
qed (simp add: dot_def)

lemma rand_lengths [simp]:
  "length (rand_add r s) = min (length r) (length s)" "length (rand_sub r s) = min (length r) (length s)"
  "length zero_randomness = L"
  by (simp_all add: rand_add_def rand_sub_def zero_randomness_def)

definition params_ok :: "commit_params \<Rightarrow> bool" where
  "params_ok p \<longleftrightarrow> length (cp_a1 p) = N * L \<and> length (cp_a2 p) = L"

lemma cp_rows_ok:
  assumes "params_ok p"
  shows "length (cp_rows p) = N" "row \<in> set (cp_rows p) \<Longrightarrow> length row \<le> L"
  using assms by (auto simp: params_ok_def cp_rows_def L_def)

text \<open>The commitment as a linear map on integers modulo \<open>Q\<close>.\<close>

definition cm_lin :: "commit_params \<Rightarrow> int \<Rightarrow> randomness \<Rightarrow> commitment" where
  "cm_lin p v r = \<lparr>cm_t0 = map (\<lambda>row. dot row r mod Q) (cp_rows p), cm_t1 = (dot (cp_a2 p) r + v) mod Q\<rparr>"

lemma commit_lin: "commit p v r = cm_lin p (uint v) r"
  by (simp add: commit_def cm_lin_def)

lemma public_value_lin: "params_ok p \<Longrightarrow> public_value v = cm_lin p (uint v) zero_randomness"
  by (simp add: public_value_def cm_lin_def zero_randomness_def map_replicate_const cp_rows_ok)

lemma cm_lin_ops:
  assumes "params_ok p" "length r = L" "length s = L"
  shows "cm_add (cm_lin p v r) (cm_lin p w s) = cm_lin p (v + w) (rand_add r s)"
    and "cm_sub (cm_lin p v r) (cm_lin p w s) = cm_lin p (v - w) (rand_sub r s)"
proof -
  have d: "dot row (rand_add r s) = dot row r + dot row s" "dot row (rand_sub r s) = dot row r - dot row s"
    if "length row \<le> L" for row
    using dot_linear [of r s row] assms(2,3) that by simp_all
  have a2: "length (cp_a2 p) \<le> L" using assms(1) by (simp add: params_ok_def)
  have zip: "map2 f (map g xs) (map h xs) = map (\<lambda>x. f (g x) (h x)) xs" for f g h and xs :: "int list list"
    by (induction xs) auto
  have "cm_t0 (cm_add (cm_lin p v r) (cm_lin p w s)) = cm_t0 (cm_lin p (v + w) (rand_add r s))"
    "cm_t0 (cm_sub (cm_lin p v r) (cm_lin p w s)) = cm_t0 (cm_lin p (v - w) (rand_sub r s))"
    using cp_rows_ok(2) [OF assms(1)] by (auto simp: cm_add_def cm_sub_def cm_lin_def zip d mod_simps)
  moreover have "cm_t1 (cm_add (cm_lin p v r) (cm_lin p w s)) = cm_t1 (cm_lin p (v + w) (rand_add r s))"
    "cm_t1 (cm_sub (cm_lin p v r) (cm_lin p w s)) = cm_t1 (cm_lin p (v - w) (rand_sub r s))"
    by (simp_all add: cm_add_def cm_sub_def cm_lin_def d a2 mod_add_eq mod_diff_eq, simp_all add: algebra_simps)
  ultimately show "cm_add (cm_lin p v r) (cm_lin p w s) = cm_lin p (v + w) (rand_add r s)"
    "cm_sub (cm_lin p v r) (cm_lin p w s) = cm_lin p (v - w) (rand_sub r s)"
    by (simp_all add: commitment.equality)
qed

lemma cm_lin_cong:
  assumes "\<And>row. length row \<le> L \<Longrightarrow> dot row r = dot row s" "params_ok p"
  shows "cm_lin p v r = cm_lin p v s"
  using assms cp_rows_ok(2) [OF assms(2)] by (auto simp: cm_lin_def params_ok_def)

text \<open>An opening: an amount and the randomness that hides it.\<close>

type_synonym value_opening = "u64 \<times> randomness"

definition openings_ok :: "value_opening list \<Rightarrow> bool" where
  "openings_ok os \<longleftrightarrow> list_all (\<lambda>o'. length (snd o') = L) os"

definition sum_values :: "value_opening list \<Rightarrow> int" where
  "sum_values os = (\<Sum>o' \<leftarrow> os. uint (fst o'))"

lemma foldl_rand_add: "length r = L \<Longrightarrow> openings_ok os \<Longrightarrow> length (foldl rand_add r (map snd os)) = L"
  by (induction os arbitrary: r) (auto simp: openings_ok_def)

lemma foldl_cm_add:
  assumes "params_ok p" "length r = L" "openings_ok os"
  shows "foldl cm_add (cm_lin p v r) (map (\<lambda>o'. commit p (fst o') (snd o')) os) =
    cm_lin p (v + sum_values os) (foldl rand_add r (map snd os))"
  using assms(2,3)
proof (induction os arbitrary: v r)
  case (Cons o' os)
  then have "cm_add (cm_lin p v r) (commit p (fst o') (snd o')) = cm_lin p (v + uint (fst o')) (rand_add r (snd o'))"
    by (simp add: commit_lin cm_lin_ops [OF assms(1)] openings_ok_def)
  then show ?case
    using Cons.IH [of "rand_add r (snd o')" "v + uint (fst o')"] Cons.prems
    by (simp add: openings_ok_def sum_values_def add.assoc)
qed (simp add: sum_values_def)

lemma dot_foldl_add:
  assumes "length r = L" "openings_ok os" "length row \<le> L"
  shows "dot row (foldl rand_add r (map snd os)) = dot row r + (\<Sum>o' \<leftarrow> os. dot row (snd o'))"
  using assms(1,2)
proof (induction os arbitrary: r)
  case (Cons o' os)
  then show ?case
    using Cons.IH [of "rand_add r (snd o')"] dot_linear(1) [of r "snd o'" row] assms(3)
    by (simp add: openings_ok_def)
qed simp

lemma dot_sum_randomness:
  assumes "openings_ok os" "length row \<le> L"
  shows "length (sum_randomness (map snd os)) = L"
    and "dot row (sum_randomness (map snd os)) = (\<Sum>o' \<leftarrow> os. dot row (snd o'))"
proof (atomize (full), cases os)
  case Nil
  then show "length (sum_randomness (map snd os)) = L \<and> dot row (sum_randomness (map snd os)) = (\<Sum>o' \<leftarrow> os. dot row (snd o'))"
    by (simp add: sum_randomness_def) (simp add: zero_randomness_def)
next
  case (Cons o' os')
  then show "length (sum_randomness (map snd os)) = L \<and> dot row (sum_randomness (map snd os)) = (\<Sum>o' \<leftarrow> os. dot row (snd o'))"
    using foldl_rand_add [of "snd o'" os'] dot_foldl_add [of "snd o'" os' row] assms
    by (simp add: sum_randomness_def openings_ok_def)
qed

lemma cm_sum_lin:
  assumes "params_ok p" "openings_ok os"
  shows "cm_sum (map (\<lambda>o'. commit p (fst o') (snd o')) os) = cm_lin p (sum_values os) (sum_randomness (map snd os))"
proof -
  have "cm_sum (map (\<lambda>o'. commit p (fst o') (snd o')) os) =
      cm_lin p (sum_values os) (foldl rand_add zero_randomness (map snd os))"
    using foldl_cm_add [OF assms(1) _ assms(2), of zero_randomness 0]
    by (simp add: cm_sum_def public_value_lin [OF assms(1)])
  also have "\<dots> = cm_lin p (sum_values os) (sum_randomness (map snd os))"
    by (rule cm_lin_cong [OF _ assms(1)])
       (simp add: dot_foldl_add [OF _ assms(2)] dot_sum_randomness [OF assms(2)], simp add: zero_randomness_def)
  finally show ?thesis .
qed

text \<open>The balance check, on commitments with the revealed openings, is exactly the balance of the amounts modulo \<open>Q\<close>.\<close>

lemma verify_balance_iff:
  assumes "params_ok p" "openings_ok ins" "openings_ok outs"
  shows "verify_balance p (map (\<lambda>o'. commit p (fst o') (snd o')) ins) (map (\<lambda>o'. commit p (fst o') (snd o')) outs) fee
      (rand_sub (sum_randomness (map snd ins)) (sum_randomness (map snd outs))) \<longleftrightarrow>
    (sum_values ins - sum_values outs - uint fee) mod Q = 0"
proof -
  let ?r = "sum_randomness (map snd ins)" and ?s = "sum_randomness (map snd outs)"
  let ?v = "sum_values ins - sum_values outs - uint fee"
  have len: "length ?r = L" "length ?s = L" using dot_sum_randomness(1) [of _ "[]"] assms(2,3) by simp_all
  have "cm_sub (cm_sub (cm_lin p (sum_values ins) ?r) (cm_lin p (sum_values outs) ?s)) (public_value fee) =
      cm_lin p ?v (rand_sub (rand_sub ?r ?s) zero_randomness)"
    using len by (simp add: public_value_lin [OF assms(1)] cm_lin_ops [OF assms(1)])
  also have "\<dots> = cm_lin p ?v (rand_sub ?r ?s)"
    using dot_linear(2) [of "rand_sub ?r ?s" zero_randomness] len
    by (intro cm_lin_cong [OF _ assms(1)]) (simp add: zero_randomness_def)
  finally have "verify_balance p (map (\<lambda>o'. commit p (fst o') (snd o')) ins) (map (\<lambda>o'. commit p (fst o') (snd o')) outs) fee (rand_sub ?r ?s)
      \<longleftrightarrow> cm_lin p ?v (rand_sub ?r ?s) = cm_lin p 0 (rand_sub ?r ?s)"
    by (simp add: verify_balance_def opens_to_def cm_sum_lin [OF assms(1)] assms(2,3) commit_lin [of p 0])
  also have "\<dots> \<longleftrightarrow> (dot (cp_a2 p) (rand_sub ?r ?s) + ?v) mod Q = dot (cp_a2 p) (rand_sub ?r ?s) mod Q"
    by (simp add: cm_lin_def)
  also have "\<dots> \<longleftrightarrow> ?v mod Q = 0"
    by (simp add: mod_eq_dvd_iff dvd_eq_mod_eq_0)
  finally show ?thesis .
qed

text \<open>
  With every amount below \<open>MAX_VALUE\<close> and at most \<open>MAX_NOTES_PER_TX\<close> of them, no sum wraps modulo \<open>Q\<close>.
\<close>

lemma uint_MAX_VALUE: "uint MAX_VALUE = 2 ^ 51"
  unfolding MAX_VALUE_def by (simp add: uint_2p)

lemma below_MAX_VALUE: "v < MAX_VALUE \<longleftrightarrow> uint v < 2 ^ 51"
  by (simp add: word_less_def uint_MAX_VALUE del: MAX_VALUE_def)

lemma amount_bound:
  assumes "list_all (\<lambda>o'. fst o' < MAX_VALUE) os"
  shows "0 \<le> sum_values os" "sum_values os \<le> int (length os) * (2 ^ 51 - 1)"
proof -
  show "sum_values os \<le> int (length os) * (2 ^ 51 - 1)"
    using assms by (induction os) (auto simp: sum_values_def below_MAX_VALUE algebra_simps)
  show "0 \<le> sum_values os" unfolding sum_values_def by (rule sum_list_nonneg) auto
qed

lemma no_wrap_balance:
  assumes "list_all (\<lambda>o'. fst o' < MAX_VALUE) (ins @ outs)" "length ins + length outs \<le> MAX_NOTES_PER_TX"
    and "0 \<le> c" "c < 2 * 2 ^ 51"
  shows "(sum_values ins - sum_values outs - c) mod Q = 0 \<longleftrightarrow> sum_values ins = sum_values outs + c"
proof -
  have n: "int (length ins) + int (length outs) \<le> 1021"
    using assms(2) by (simp add: MAX_NOTES_PER_TX_def Q_def)
  note i = amount_bound [of ins] and u = amount_bound [of outs]
  have "sum_values ins - sum_values outs - c < Q" using i u assms n by (simp add: Q_def)
  moreover have "- Q < sum_values ins - sum_values outs - c" using i u assms n by (simp add: Q_def)
  ultimately have "(sum_values ins - sum_values outs - c) mod Q = 0 \<longleftrightarrow> sum_values ins - sum_values outs - c = 0"
    by (metis abs_less_iff dvd_eq_mod_eq_0 dvd_imp_le_int minus_less_iff mod_0 not_le Q_pos abs_of_pos)
  then show ?thesis by auto
qed

section \<open>The accumulators\<close>

lemma dot_abs_le:
  assumes "list_all (\<lambda>c. 0 \<le> c \<and> c < Q) a" "list_all (\<lambda>c. - b \<le> c \<and> c \<le> b) r" "0 \<le> b"
  shows "\<bar>dot a r\<bar> \<le> int (length a) * (Q * b)"
  using assms(1,2)
proof (induction a arbitrary: r)
  case (Cons x a)
  show ?case
  proof (cases r)
    case Nil
    then show ?thesis using assms(3) Q_pos by (simp add: dot_def)
  next
    case (Cons c r')
    then have "\<bar>x * c\<bar> \<le> Q * b"
      using Cons.prems mult_mono [of x Q "\<bar>c\<bar>" b] Q_pos by (auto simp: abs_mult)
    moreover have "\<bar>dot a r'\<bar> \<le> int (length a) * (Q * b)" using Cons.IH [of r'] Cons.prems Cons by simp
    ultimately have "\<bar>x * c + dot a r'\<bar> \<le> Q * b + int (length a) * (Q * b)" by linarith
    then show ?thesis using Cons by (simp add: dot_def algebra_simps)
  qed
qed (simp add: dot_def)

definition params_reduced :: "commit_params \<Rightarrow> bool" where
  "params_reduced p \<longleftrightarrow> list_all (\<lambda>c. 0 \<le> c \<and> c < Q) (cp_a1 p @ cp_a2 p)"

text \<open>
  Randomness with coefficients up to \<open>1021\<close> in size, so ternary randomness and every balance randomness of
  a transaction, keeps each accumulator of \<open>commit\<close> below \<open>2\<^sup>80\<close>, far inside the 128 bits of the source.
\<close>

lemma commit_fits_i128:
  assumes "params_ok p" "params_reduced p" "length r = L" "list_all (\<lambda>c. - 1021 \<le> c \<and> c \<le> 1021) r"
    and "row \<in> set (cp_rows p) \<or> row = cp_a2 p"
  shows "\<bar>dot row r + uint (v :: u64)\<bar> < 2 ^ 80"
proof -
  have "set row \<subseteq> set (cp_a1 p @ cp_a2 p)"
    using assms(5) by (auto simp: cp_rows_def dest!: in_set_takeD in_set_dropD)
  then have "list_all (\<lambda>c. 0 \<le> c \<and> c < Q) row" using assms(2) by (auto simp: params_reduced_def list_all_iff)
  then have "\<bar>dot row r\<bar> \<le> int (length row) * (Q * 1021)" using dot_abs_le [of row 1021 r] assms(4) by simp
  moreover have "int (length row) \<le> 256"
    using assms(1,5) cp_rows_ok(2) [OF assms(1)] by (auto simp: params_ok_def L_def)
  then have "int (length row) * (Q * 1021) \<le> 256 * (Q * 1021)" using Q_pos by (intro mult_right_mono) auto
  moreover have "uint v < 2 ^ 64" using uint_bounded [of v] by simp
  moreover have "256 * (Q * 1021) + 2 ^ 64 < 2 ^ 80" by (simp add: Q_def)
  ultimately show ?thesis using uint_nonnegative [of v] unfolding abs_less_iff abs_le_iff by linarith
qed

lemma params_from_seed_ok:
  assumes "\<And>d n. length (blake3_xof C d n) = n"
  shows "params_ok (params_from_seed C seed)" "params_reduced (params_from_seed C seed)"
proof -
  have len: "length (le_words bs) = length bs div 8" for bs
    by (induction bs rule: le_words.induct) auto
  show "params_ok (params_from_seed C seed)"
    by (simp add: params_from_seed_def params_ok_def Let_def len hash_xof_def assms N_def L_def)
  show "params_reduced (params_from_seed C seed)"
    using Q_pos by (auto simp: params_from_seed_def params_reduced_def Let_def list_all_iff)
qed

section \<open>Wire laws\<close>

lemma sint_range_u64: "- (2 ^ 63) \<le> sint (w :: u64)" "sint (w :: u64) < 2 ^ 63"
  using sint_greater_eq [of w] sint_less [of w] by simp_all

lemma sint_word_of_int_u64: "- (2 ^ 63) \<le> x \<Longrightarrow> x < 2 ^ 63 \<Longrightarrow> sint (word_of_int x :: u64) = x"
  by (simp add: signed_of_int signed_take_bit_int_eq_self)

interpretation i64_codec: codec put_i64 rd_i64 "\<lambda>x. - (2 ^ 63) \<le> x \<and> x < 2 ^ 63"
  using sint_range_u64 by (intro codecI)
    (auto simp: rd_i64_def put_i64_def bind_eq_Some_conv codec_simps sint_word_of_int_u64)

lemma length_put_i64 [simp]: "length (put_i64 x) = 8"
  by (simp add: put_i64_def)

lemma length_concat_i64 [simp]: "length (concat (map put_i64 xs)) = 8 * length xs"
  by (induction xs) auto

definition cm_wf :: "commitment \<Rightarrow> bool" where
  "cm_wf c \<longleftrightarrow> length (cm_t0 c) = N \<and> list_all (\<lambda>x. - (2 ^ 63) \<le> x \<and> x < 2 ^ 63) (cm_t1 c # cm_t0 c)"

lemma cm_from_bytes_iff [codec_simps]: "cm_from_bytes bs = Some c \<longleftrightarrow> cm_wf c \<and> bs = cm_to_bytes c"
proof
  assume "cm_from_bytes bs = Some c"
  then obtain r where "rd_rep N rd_i64 bs = Some (cm_t0 c, put_i64 (cm_t1 c) @ r)" "length bs = COMMITMENT_LEN"
      "- (2 ^ 63) \<le> cm_t1 c \<and> cm_t1 c < 2 ^ 63"
    by (auto simp: cm_from_bytes_def bind_eq_Some_conv i64_codec.dec_iff split: if_splits)
  then show "cm_wf c \<and> bs = cm_to_bytes c"
    by (auto simp: i64_codec.rep_iff cm_wf_def cm_to_bytes_def COMMITMENT_LEN_def)
next
  assume "cm_wf c \<and> bs = cm_to_bytes c"
  moreover from this have "rd_rep N rd_i64 bs = Some (cm_t0 c, put_i64 (cm_t1 c))"
    by (auto simp: i64_codec.rep_iff cm_wf_def cm_to_bytes_def)
  moreover have "rd_i64 (put_i64 (cm_t1 c)) = Some (cm_t1 c, [])"
    using calculation(1) i64_codec.dec_iff [of "put_i64 (cm_t1 c)" "cm_t1 c" "[]"] by (simp add: cm_wf_def)
  ultimately show "cm_from_bytes bs = Some c"
    by (simp add: cm_from_bytes_def cm_to_bytes_def COMMITMENT_LEN_def cm_wf_def)
qed

lemma rand_from_bytes_iff [codec_simps]: "rand_from_bytes bs = Some x \<longleftrightarrow> is_ternary x \<and> bs = rand_to_bytes x"
proof
  assume "rand_from_bytes bs = Some x"
  then obtain r where "rd_rep L rd_i64 bs = Some (x, r)" "length bs = RANDOMNESS_LEN" "is_ternary x"
    by (auto simp: rand_from_bytes_def bind_eq_Some_conv split: if_splits)
  then show "is_ternary x \<and> bs = rand_to_bytes x"
    by (auto simp: i64_codec.rep_iff rand_to_bytes_def RANDOMNESS_LEN_def)
next
  assume x: "is_ternary x \<and> bs = rand_to_bytes x"
  then have "list_all (\<lambda>x. - (2 ^ 63) \<le> x \<and> x < 2 ^ 63) x" by (auto simp: is_ternary_def list_all_iff)
  then have "rd_rep L rd_i64 bs = Some (x, [])" using x by (auto simp: i64_codec.rep_iff rand_to_bytes_def is_ternary_def)
  then show "rand_from_bytes bs = Some x"
    using x by (simp add: rand_from_bytes_def rand_to_bytes_def RANDOMNESS_LEN_def is_ternary_def)
qed

lemma wire_lengths [simp]:
  "cm_wf c \<Longrightarrow> length (cm_to_bytes c) = COMMITMENT_LEN" "is_ternary x \<Longrightarrow> length (rand_to_bytes x) = RANDOMNESS_LEN"
  by (simp_all add: cm_wf_def cm_to_bytes_def COMMITMENT_LEN_def rand_to_bytes_def RANDOMNESS_LEN_def is_ternary_def)

lemma commit_wf: "params_ok p \<Longrightarrow> cm_wf (commit p v r)"
proof -
  have "- (2 ^ 63) \<le> x mod Q \<and> x mod Q < 2 ^ 63" for x
  proof -
    have "0 \<le> x mod Q" "x mod Q < Q" using Q_pos by auto
    moreover have "Q < 2 ^ 63" by (simp add: Q_def)
    ultimately show ?thesis by linarith
  qed
  then show "params_ok p \<Longrightarrow> cm_wf (commit p v r)"
    by (simp add: cm_wf_def commit_def cp_rows_ok list_all_iff)
qed

section \<open>Sampling\<close>

definition digits_ok :: "randomness \<Rightarrow> bool" where
  "digits_ok r \<longleftrightarrow> length r \<le> L \<and> list_all (\<lambda>c. - 1 \<le> c \<and> c \<le> 1) r"

lemma ternary_digit: "- 1 \<le> int (n mod 3) - 1 \<and> int (n mod 3) - 1 \<le> 1"
  using mod_less_divisor [of 3 n] by linarith

lemma sample_block_ok: "digits_ok coeffs \<Longrightarrow> digits_ok (sample_block bs coeffs)"
proof (induction bs coeffs rule: sample_block.induct)
  case (2 b bs coeffs)
  have "digits_ok (coeffs @ [int (unat b mod 3) - 1])" if "length coeffs \<noteq> L"
    using "2.prems" that ternary_digit [of "unat b"] by (simp add: digits_ok_def)
  then show ?case using "2.IH" "2.prems" by simp
qed simp

lemma sample_loop_ternary:
  assumes "sample_loop C seed round coeffs = Some r"
  shows "digits_ok coeffs \<longrightarrow> is_ternary r"
proof (rule sample_loop.raw_induct [OF _ assms])
  fix loop and C :: "('a, 'b, 'c) crypto" and seed round coeffs r
  assume IH: "\<And>C seed round coeffs r. loop C seed round coeffs = Some r \<Longrightarrow> digits_ok coeffs \<longrightarrow> is_ternary r"
    and body: "(if length coeffs < L
        then loop C seed (round + 1) (sample_block (hash_xof C RAND_LABEL (seed @ put_le 8 round) 256) coeffs)
        else Some coeffs) = Some r"
  show "digits_ok coeffs \<longrightarrow> is_ternary r"
  proof
    assume ok: "digits_ok coeffs"
    show "is_ternary r"
    proof (cases "length coeffs < L")
      case True
      then have "loop C seed (round + 1) (sample_block (hash_xof C RAND_LABEL (seed @ put_le 8 round) 256) coeffs) = Some r"
        using body by simp
      from IH [OF this] sample_block_ok [OF ok] show ?thesis by blast
    next
      case False
      then show ?thesis using body ok by (simp add: digits_ok_def is_ternary_def)
    qed
  qed
qed

lemma randomness_from_seed_ternary: "randomness_from_seed C seed = Some r \<Longrightarrow> is_ternary r"
  using sample_loop_ternary [of C seed 0 "[]" r] by (simp add: randomness_from_seed_def digits_ok_def)

text \<open>A block without rejected bytes fills the vector, so the sampler returns.\<close>

lemma sample_block_full:
  "list_all (\<lambda>b. b < 252) bs \<Longrightarrow> length coeffs \<le> L \<Longrightarrow> length (sample_block bs coeffs) = min L (length coeffs + length bs)"
  by (induction bs coeffs rule: sample_block.induct) auto

lemma randomness_returns:
  assumes "length (hash_xof C RAND_LABEL (seed @ put_le 8 (0 :: u64)) 256) = 256"
    and "list_all (\<lambda>b. b < 252) (hash_xof C RAND_LABEL (seed @ put_le 8 (0 :: u64)) 256)"
  obtains r where "randomness_from_seed C seed = Some r" "is_ternary r"
proof -
  let ?b = "sample_block (hash_xof C RAND_LABEL (seed @ put_le 8 (0 :: u64)) 256) []"
  have "length ?b = L" using sample_block_full [OF assms(2), of "[]"] assms(1) by (simp add: L_def)
  then have "sample_loop C seed 1 ?b = Some ?b" by (simp add: sample_loop.simps)
  then have "randomness_from_seed C seed = Some ?b"
    unfolding randomness_from_seed_def by (subst sample_loop.simps) (simp add: L_def)
  then show ?thesis using that randomness_from_seed_ternary by blast
qed

end
