(* ===== verification/Obolos_Tree.thy ===== *)
theory Obolos_Tree
  imports Merkle Primitives_Codec
begin

unbundle bit_operations_syntax

text \<open>
  The note-commitment tree (\<open>fanos-obolos/src/tree.rs\<close>): an append-only list of leaves read as a perfect
  binary tree of depth 32 with canonical empty padding. The level-by-level root is shown equal to the
  root of the padded tree defined by recursion on its depth, authentication paths verify, and a path that
  verifies opens the padded leaf at its index modulo \<open>2\<^sup>32\<close>.
\<close>

section \<open>The tree\<close>

definition TREE_DEPTH :: nat where "TREE_DEPTH = 32"
definition TREE_NODE_LABEL :: string where "TREE_NODE_LABEL = ''FANOS-obolos-v1/tree-node''"
definition EMPTY_LEAF_LABEL :: string where "EMPTY_LEAF_LABEL = ''FANOS-obolos-v1/tree-empty-leaf''"

definition node_hash :: "('e, 'm, 's) crypto \<Rightarrow> byte list \<Rightarrow> byte list \<Rightarrow> byte list" where
  "node_hash C l r = hash_labeled C TREE_NODE_LABEL (l @ r)"

primrec empty_at :: "('e, 'm, 's) crypto \<Rightarrow> nat \<Rightarrow> byte list" where
  "empty_at C 0 = hash_labeled C EMPTY_LEAF_LABEL []"
| "empty_at C (Suc h) = node_hash C (empty_at C h) (empty_at C h)"

definition empty_roots :: "('e, 'm, 's) crypto \<Rightarrow> byte list list" where
  "empty_roots C = map (empty_at C) [0..<TREE_DEPTH + 1]"

record auth_path =
  ap_index :: u64
  ap_siblings :: "byte list list"

fun path_climb :: "('e, 'm, 's) crypto \<Rightarrow> byte list \<Rightarrow> u64 \<Rightarrow> byte list list \<Rightarrow> byte list" where
  "path_climb C cur idx [] = cur"
| "path_climb C cur idx (sib # sibs) =
     path_climb C (if idx AND 1 = 0 then node_hash C cur sib else node_hash C sib cur) (drop_bit 1 idx) sibs"

definition path_verify :: "('e, 'm, 's) crypto \<Rightarrow> auth_path \<Rightarrow> byte list \<Rightarrow> byte list \<Rightarrow> bool" where
  "path_verify C p leaf rt \<longleftrightarrow> path_climb C leaf (ap_index p) (ap_siblings p) = rt"

type_synonym commitment_tree = "byte list list"

definition tree_size :: "commitment_tree \<Rightarrow> u64" where
  "tree_size t = word_of_nat (length t)"

definition tree_is_full :: "commitment_tree \<Rightarrow> bool" where
  "tree_is_full t \<longleftrightarrow> tree_size t \<ge> 2 ^ TREE_DEPTH"

definition tree_append :: "commitment_tree \<Rightarrow> byte list \<Rightarrow> commitment_tree \<times> u64 option" where
  "tree_append t cm = (if tree_is_full t then (t, None) else (t @ [cm], Some (tree_size t)))"

definition put_hashes :: "byte list list \<Rightarrow> byte list" where
  "put_hashes hs = put_u32 (len_u32 (length hs)) @ concat hs"

definition tree_to_bytes :: "commitment_tree \<Rightarrow> byte list" where
  "tree_to_bytes t = put_hashes t"

definition tree_from_bytes :: "byte list \<Rightarrow> commitment_tree option" where
  "tree_from_bytes bs = do {
     (leaves, r) \<leftarrow> rd_bounded_seq 32 (rd_take 32) bs;
     if r \<noteq> [] then None
     else if (word_of_nat (length leaves) :: u64) > 2 ^ TREE_DEPTH then None
     else Some leaves }"

text \<open>One level of the fold: a lone left node is paired with the empty subtree of its height.\<close>

fun pad_level :: "('e, 'm, 's) crypto \<Rightarrow> byte list \<Rightarrow> byte list list \<Rightarrow> byte list list" where
  "pad_level C e [] = []"
| "pad_level C e [x] = [node_hash C x e]"
| "pad_level C e (x # y # xs) = node_hash C x y # pad_level C e xs"

definition tree_root :: "('e, 'm, 's) crypto \<Rightarrow> commitment_tree \<Rightarrow> byte list" where
  "tree_root C t =
     (case foldl (\<lambda>nodes e. pad_level C e nodes) t (take TREE_DEPTH (empty_roots C)) of
        [] \<Rightarrow> last (empty_roots C)
      | x # _ \<Rightarrow> x)"

text \<open>\<open>idx ^ 1\<close>: the index with its lowest bit flipped.\<close>

definition flip_low :: "nat \<Rightarrow> nat" where
  "flip_low i = (if even i then i + 1 else i - 1)"

fun path_loop :: "('e, 'm, 's) crypto \<Rightarrow> byte list list \<Rightarrow> byte list list \<Rightarrow> nat \<Rightarrow> byte list list" where
  "path_loop C [] nodes idx = []"
| "path_loop C (e # es) nodes idx =
     (if flip_low idx < length nodes then nodes ! flip_low idx else e) #
     path_loop C es (pad_level C e nodes) (idx div 2)"

definition tree_path :: "('e, 'm, 's) crypto \<Rightarrow> commitment_tree \<Rightarrow> u64 \<Rightarrow> auth_path option" where
  "tree_path C t index =
     (if index \<ge> tree_size t then None
      else Some \<lparr>ap_index = index, ap_siblings = path_loop C (take TREE_DEPTH (empty_roots C)) t (unat index)\<rparr>)"

section \<open>The padded tree\<close>

text \<open>The root of the perfect tree of depth \<open>d\<close> over the leaves \<open>f 0\<close>, \<open>f 1\<close>, \<dots>, by recursion from the top.\<close>

primrec perfect_root :: "('e, 'm, 's) crypto \<Rightarrow> nat \<Rightarrow> (nat \<Rightarrow> byte list) \<Rightarrow> byte list" where
  "perfect_root C 0 f = f 0"
| "perfect_root C (Suc d) f = node_hash C (perfect_root C d f) (perfect_root C d (\<lambda>i. f (i + 2 ^ d)))"

definition padded :: "('e, 'm, 's) crypto \<Rightarrow> nat \<Rightarrow> byte list list \<Rightarrow> nat \<Rightarrow> byte list" where
  "padded C h nodes i = (if i < length nodes then nodes ! i else empty_at C h)"

text \<open>The same tree read one level up: its leaves are the hashes of neighbouring pairs.\<close>

lemma perfect_root_level:
  "perfect_root C (Suc d) f = perfect_root C d (\<lambda>i. node_hash C (f (2 * i)) (f (2 * i + 1)))"
proof (induction d arbitrary: f)
  case (Suc d)
  have "perfect_root C (Suc (Suc d)) f =
      node_hash C (perfect_root C (Suc d) f) (perfect_root C (Suc d) (\<lambda>i. f (i + 2 ^ Suc d)))"
    by (rule perfect_root.simps(2))
  also have "\<dots> = perfect_root C (Suc d) (\<lambda>i. node_hash C (f (2 * i)) (f (2 * i + 1)))"
    unfolding Suc.IH [of f] Suc.IH [of "\<lambda>i. f (i + 2 ^ Suc d)"] by (simp add: algebra_simps)
  finally show ?case .
qed simp

lemma length_pad_level [simp]: "length (pad_level C e xs) = (length xs + 1) div 2"
  by (induction C e xs rule: pad_level.induct) auto

lemma pad_level_nth:
  "i < length (pad_level C e xs) \<Longrightarrow>
     pad_level C e xs ! i = node_hash C (xs ! (2 * i)) (if 2 * i + 1 < length xs then xs ! (2 * i + 1) else e)"
proof (induction C e xs arbitrary: i rule: pad_level.induct)
  case (3 C e x y xs)
  then show ?case by (cases i) auto
qed auto

lemma padded_pad_level:
  "padded C (Suc h) (pad_level C (empty_at C h) nodes) i = node_hash C (padded C h nodes (2 * i)) (padded C h nodes (2 * i + 1))"
proof (cases "i < length (pad_level C (empty_at C h) nodes)")
  case True
  then have "2 * i < length nodes" by auto
  then show ?thesis using pad_level_nth [OF True] True by (simp add: padded_def)
next
  case False
  then have "\<not> 2 * i < length nodes" "\<not> 2 * i + 1 < length nodes" by auto
  then show ?thesis using False by (simp add: padded_def)
qed

lemma empties_Suc: "map (empty_at C) [h..<h + Suc d] = empty_at C h # map (empty_at C) [Suc h..<Suc h + d]"
  by (simp add: upt_conv_Cons del: upt_Suc)

lemma fold_is_perfect:
  "length nodes \<le> 2 ^ d \<Longrightarrow>
     (case foldl (\<lambda>nodes e. pad_level C e nodes) nodes (map (empty_at C) [h..<h + d]) of
        [] \<Rightarrow> empty_at C (h + d) | x # _ \<Rightarrow> x) = perfect_root C d (padded C h nodes)"
proof (induction d arbitrary: nodes h)
  case 0
  then show ?case by (cases nodes) (auto simp: padded_def)
next
  case (Suc d)
  have le: "length (pad_level C (empty_at C h) nodes) \<le> 2 ^ d" using Suc.prems by simp
  have "perfect_root C (Suc d) (padded C h nodes) = perfect_root C d (padded C (Suc h) (pad_level C (empty_at C h) nodes))"
    unfolding perfect_root_level by (rule arg_cong [where f = "perfect_root C d"]) (simp add: fun_eq_iff padded_pad_level)
  then show ?case using Suc.IH [OF le, of "Suc h"] by (simp only: empties_Suc foldl.simps add_Suc_shift)
qed

lemma take_empties: "take TREE_DEPTH (empty_roots C) = map (empty_at C) [0..<0 + TREE_DEPTH]"
  "last (empty_roots C) = empty_at C (0 + TREE_DEPTH)"
  by (simp_all add: empty_roots_def take_map)

lemma tree_root_perfect: "length t \<le> 2 ^ TREE_DEPTH \<Longrightarrow> tree_root C t = perfect_root C TREE_DEPTH (padded C 0 t)"
  unfolding tree_root_def take_empties by (rule fold_is_perfect)

section \<open>Paths\<close>

lemma low_bit: "(idx AND 1 = 0) = even (unat idx)" "unat (drop_bit (Suc 0) idx) = unat idx div 2" for idx :: u64
proof -
  show "(idx AND 1 = 0) = even (unat idx)"
    using and_mask_dvd_nat [of 1 idx] by simp
  show "unat (drop_bit (Suc 0) idx) = unat idx div 2"
    by (simp add: drop_bit_Suc unat_div)
qed

text \<open>Climbing depends on the lowest bits of the index only.\<close>

fun climb :: "('e, 'm, 's) crypto \<Rightarrow> byte list \<Rightarrow> nat \<Rightarrow> byte list list \<Rightarrow> byte list" where
  "climb C cur idx [] = cur"
| "climb C cur idx (sib # sibs) =
     climb C (if even idx then node_hash C cur sib else node_hash C sib cur) (idx div 2) sibs"

lemma path_climb_nat: "path_climb C cur idx sibs = climb C cur (unat idx) sibs"
  by (induction sibs arbitrary: cur idx) (simp_all add: low_bit)

lemma climb_mod: "climb C cur (i mod 2 ^ length sibs) sibs = climb C cur i sibs"
proof (induction sibs arbitrary: cur i)
  case (Cons s sibs)
  have "even (i mod 2 ^ Suc (length sibs)) = even i" by (simp add: dvd_mod_iff)
  moreover have "i mod 2 ^ Suc (length sibs) div 2 = (i div 2) mod 2 ^ length sibs"
    using mod_mult2_eq [of i 2 "2 ^ length sibs"] by simp
  ultimately show ?case using Cons.IH [of _ "i div 2"] by (simp del: power_Suc)
qed simp

lemma path_verify_mod:
  assumes "length (ap_siblings p) \<le> TREE_DEPTH" "unat (ap_index p) mod 2 ^ 32 = unat i mod 2 ^ 32"
  shows "path_verify C (p\<lparr>ap_index := i\<rparr>) leaf rt = path_verify C p leaf rt"
proof -
  let ?n = "length (ap_siblings p)"
  have d: "(2::nat) ^ ?n dvd 2 ^ 32" using assms(1) by (intro le_imp_power_dvd) (simp add: TREE_DEPTH_def)
  have "unat (ap_index p) mod 2 ^ ?n = unat i mod 2 ^ ?n"
    using assms(2) by (metis mod_mod_cancel [OF d])
  then have "climb C leaf (unat (ap_index p)) (ap_siblings p) = climb C leaf (unat i) (ap_siblings p)"
    by (metis climb_mod)
  then show ?thesis by (simp add: path_verify_def path_climb_nat)
qed

lemma padded_flip:
  "(if flip_low i < length nodes then nodes ! flip_low i else empty_at C h) = padded C h nodes (flip_low i)"
  by (simp add: padded_def)

lemma path_loop_climbs:
  "idx < 2 ^ d \<Longrightarrow>
     length (path_loop C (map (empty_at C) [h..<h + d]) nodes idx) = d \<and>
     climb C (padded C h nodes idx) idx (path_loop C (map (empty_at C) [h..<h + d]) nodes idx) =
       perfect_root C d (padded C h nodes)"
proof (induction d arbitrary: h nodes idx)
  case (Suc d)
  let ?up = "pad_level C (empty_at C h) nodes"
  let ?es = "map (empty_at C) [Suc h..<Suc h + d]"
  have lt: "idx div 2 < 2 ^ d" using Suc.prems by auto
  have step: "(if even idx then node_hash C (padded C h nodes idx) (padded C h nodes (flip_low idx))
      else node_hash C (padded C h nodes (flip_low idx)) (padded C h nodes idx)) = padded C (Suc h) ?up (idx div 2)"
    unfolding padded_pad_level by (auto simp: flip_low_def elim!: evenE oddE)
  have up: "perfect_root C (Suc d) (padded C h nodes) = perfect_root C d (padded C (Suc h) ?up)"
    unfolding perfect_root_level by (rule arg_cong [where f = "perfect_root C d"]) (simp add: fun_eq_iff padded_pad_level)
  have loop: "path_loop C (map (empty_at C) [h..<h + Suc d]) nodes idx =
      padded C h nodes (flip_low idx) # path_loop C ?es ?up (idx div 2)"
    unfolding empties_Suc by (simp only: path_loop.simps padded_flip)
  show ?case
    using Suc.IH [OF lt, of "Suc h" ?up] step by (simp only: loop climb.simps up length_Cons)
qed simp

lemma tree_size_bound: "length t \<le> 2 ^ TREE_DEPTH \<Longrightarrow> unat (tree_size t) = length t"
  by (simp add: tree_size_def TREE_DEPTH_def unat_of_nat take_bit_eq_mod)

lemma tree_path_verifies:
  assumes "length t \<le> 2 ^ TREE_DEPTH" "unat i < length t"
  obtains p where "tree_path C t i = Some p" "ap_index p = i" "length (ap_siblings p) = TREE_DEPTH"
    "path_verify C p (t ! unat i) (tree_root C t)"
proof -
  let ?s = "path_loop C (map (empty_at C) [0..<0 + TREE_DEPTH]) t (unat i)"
  have "unat i < 2 ^ TREE_DEPTH" using assms by simp
  from path_loop_climbs [OF this, of C 0 t]
  have c: "length ?s = TREE_DEPTH" "climb C (padded C 0 t (unat i)) (unat i) ?s = perfect_root C TREE_DEPTH (padded C 0 t)"
    by blast+
  have "\<not> i \<ge> tree_size t" using assms tree_size_bound [OF assms(1)] by (simp add: word_le_nat_alt)
  then have "tree_path C t i = Some \<lparr>ap_index = i, ap_siblings = ?s\<rparr>"
    unfolding tree_path_def take_empties by simp
  moreover have "padded C 0 t (unat i) = t ! unat i" using assms(2) by (simp add: padded_def)
  ultimately show ?thesis
    using that c by (simp add: path_verify_def path_climb_nat tree_root_perfect [OF assms(1)])
qed

section \<open>Binding\<close>

abbreviation tree_input :: "byte list \<Rightarrow> byte list \<Rightarrow> byte list" where
  "tree_input l r \<equiv> labeled_hasher TREE_NODE_LABEL (l @ r)"

text \<open>
  The strings hashed while climbing a path, and those hashed on the way from the leaf at an index to the
  root of the perfect tree.
\<close>

fun path_inputs :: "('e, 'm, 's) crypto \<Rightarrow> byte list \<Rightarrow> nat \<Rightarrow> byte list list \<Rightarrow> byte list set" where
  "path_inputs C cur idx [] = {}"
| "path_inputs C cur idx (sib # sibs) =
     insert (if even idx then tree_input cur sib else tree_input sib cur)
       (path_inputs C (if even idx then node_hash C cur sib else node_hash C sib cur) (idx div 2) sibs)"

primrec branch_inputs :: "('e, 'm, 's) crypto \<Rightarrow> nat \<Rightarrow> (nat \<Rightarrow> byte list) \<Rightarrow> nat \<Rightarrow> byte list set" where
  "branch_inputs C 0 f idx = {}"
| "branch_inputs C (Suc d) f idx =
     (let j = idx div 2 mod 2 ^ d
      in insert (tree_input (f (2 * j)) (f (2 * j + 1)))
           (branch_inputs C d (\<lambda>i. node_hash C (f (2 * i)) (f (2 * i + 1))) (idx div 2)))"

lemma node_hash_inj:
  "node_hash C a b = node_hash C a' b' \<Longrightarrow> length a = length a' \<Longrightarrow> \<not> collides C X \<Longrightarrow>
    tree_input a b \<in> X \<Longrightarrow> tree_input a' b' \<in> X \<Longrightarrow> a = a' \<and> b = b'"
  using hash_labeled_inj [of C TREE_NODE_LABEL "a @ b" "a' @ b'" X] by (simp add: node_hash_def)

lemma length_node_hash [simp]: "hash_width C \<Longrightarrow> length (node_hash C a b) = 32"
  by (simp add: node_hash_def hash_labeled_def hash_width_def)

lemma length_empty_at [simp]: "hash_width C \<Longrightarrow> length (empty_at C h) = 32"
  by (cases h) (simp_all add: hash_labeled_def hash_width_def)

lemma climb_opens:
  assumes "hash_width C" "\<not> collides C X"
  shows "length cur = 32 \<Longrightarrow> (\<And>i. length (f i) = 32) \<Longrightarrow> list_all (\<lambda>s. length s = 32) sibs \<Longrightarrow>
    climb C cur idx sibs = perfect_root C (length sibs) f \<Longrightarrow>
    path_inputs C cur idx sibs \<subseteq> X \<Longrightarrow> branch_inputs C (length sibs) f idx \<subseteq> X \<Longrightarrow> cur = f (idx mod 2 ^ length sibs)"
proof (induction sibs arbitrary: cur idx f)
  case (Cons s sibs)
  let ?f = "\<lambda>i. node_hash C (f (2 * i)) (f (2 * i + 1))"
  let ?cur = "if even idx then node_hash C cur s else node_hash C s cur"
  have "climb C ?cur (idx div 2) sibs = perfect_root C (length sibs) ?f"
    using Cons.prems(4) by (simp only: climb.simps length_Cons perfect_root_level)
  then have up: "?cur = ?f (idx div 2 mod 2 ^ length sibs)"
    by (rule Cons.IH [rotated 3]) (use Cons.prems(3,5,6) assms(1) in \<open>simp_all add: Let_def\<close>)
  have idx: "idx mod 2 ^ length (s # sibs) = 2 * (idx div 2 mod 2 ^ length sibs) + idx mod 2"
    using mod_mult2_eq [of idx 2 "2 ^ length sibs"] by simp
  let ?a = "f (2 * (idx div 2 mod 2 ^ length sibs))" and ?b = "f (2 * (idx div 2 mod 2 ^ length sibs) + 1)"
  have mem: "tree_input ?a ?b \<in> X" using Cons.prems(6) by (simp add: Let_def)
  show ?case
  proof (cases "even idx")
    case True
    then have "cur = ?a" using node_hash_inj [OF _ _ assms(2) _ mem, of cur s] up Cons.prems(1,2,5) by simp
    then show ?thesis unfolding idx using True by simp
  next
    case False
    then have "cur = ?b" using node_hash_inj [OF _ _ assms(2) _ mem, of s cur] up Cons.prems(2,3,5) by simp
    moreover have "idx mod 2 = 1" using False by (simp add: odd_iff_mod_2_eq_one)
    ultimately show ?thesis unfolding idx by simp
  qed
qed simp

text \<open>
  C24. The commitment tree is the padded perfect tree. For at most \<open>2\<^sup>32\<close> leaves, the root folded level by
  level equals the root of the perfect tree of depth 32 whose missing leaves are empty, defined by
  recursion from the top; every appended leaf has a path that verifies against it; and a path of 32
  siblings that verifies opens the padded leaf at its index modulo \<open>2\<^sup>32\<close>, unless two of the 64 strings
  hashed along the path and along the tree's own branch to that leaf collide.
\<close>

theorem tree_is_perfect:
  assumes "length t \<le> 2 ^ TREE_DEPTH" "hash_width C" "list_all (\<lambda>l. length l = 32) t"
  shows "tree_root C t = perfect_root C TREE_DEPTH (padded C 0 t) \<and>
    (\<forall>i. unat i < length t \<longrightarrow> (\<exists>p. tree_path C t i = Some p \<and> path_verify C p (t ! unat i) (tree_root C t))) \<and>
    (\<forall>p leaf. length (ap_siblings p) = TREE_DEPTH \<and> list_all (\<lambda>s. length s = 32) (leaf # ap_siblings p) \<and>
       path_verify C p leaf (tree_root C t) \<longrightarrow>
       collides C (path_inputs C leaf (unat (ap_index p)) (ap_siblings p) \<union>
         branch_inputs C TREE_DEPTH (padded C 0 t) (unat (ap_index p))) \<or>
       leaf = padded C 0 t (unat (ap_index p) mod 2 ^ 32))"
proof (intro conjI allI impI)
  show "tree_root C t = perfect_root C TREE_DEPTH (padded C 0 t)" by (rule tree_root_perfect [OF assms(1)])
next
  fix i :: u64 assume "unat i < length t"
  then show "\<exists>p. tree_path C t i = Some p \<and> path_verify C p (t ! unat i) (tree_root C t)"
    using tree_path_verifies [OF assms(1), of i C] by blast
next
  fix p leaf
  assume a: "length (ap_siblings p) = TREE_DEPTH \<and> list_all (\<lambda>s. length s = 32) (leaf # ap_siblings p) \<and>
    path_verify C p leaf (tree_root C t)"
  have w: "length (padded C 0 t i) = 32" for i
    using assms(2,3) by (auto simp: padded_def list_all_length hash_labeled_def hash_width_def)
  show "collides C (path_inputs C leaf (unat (ap_index p)) (ap_siblings p) \<union>
      branch_inputs C TREE_DEPTH (padded C 0 t) (unat (ap_index p))) \<or> leaf = padded C 0 t (unat (ap_index p) mod 2 ^ 32)"
    (is "collides C ?X \<or> _")
  proof (cases "collides C ?X")
    case False
    have "leaf = padded C 0 t (unat (ap_index p) mod 2 ^ length (ap_siblings p))"
    proof (rule climb_opens [OF assms(2) False])
      show "climb C leaf (unat (ap_index p)) (ap_siblings p) = perfect_root C (length (ap_siblings p)) (padded C 0 t)"
        using a by (simp add: path_verify_def path_climb_nat tree_root_perfect [OF assms(1)])
    qed (use a w in simp_all)
    then show ?thesis using a by (simp add: TREE_DEPTH_def)
  qed simp
qed

lemma toy_hash_width: "hash_width toy_crypto"
  by (auto simp: hash_width_def toy_crypto_def min_def)

theorem tree_is_perfect_witness:
  "\<exists>p. tree_path toy_crypto [replicate 32 1, replicate 32 2] 1 = Some p \<and>
     path_verify toy_crypto p (replicate 32 2) (tree_root toy_crypto [replicate 32 1, replicate 32 2])"
  using conjunct1 [OF conjunct2 [OF tree_is_perfect [of "[replicate 32 1, replicate 32 2]" toy_crypto]]] toy_hash_width
  by (force simp: TREE_DEPTH_def dest!: spec [of _ "1 :: u64"])

section \<open>The snapshot\<close>

lemma concat_hashes: "list_all (\<lambda>h. length h = 32) hs \<Longrightarrow> length (concat hs) = 32 * length hs"
  by (induction hs) auto

lemma rd_hashes_put:
  assumes "list_all (\<lambda>h. length h = 32) hs" "length hs < 2 ^ 32"
  shows "rd_bounded_seq 32 (rd_take 32) (put_hashes hs @ r) = Some (hs, r)"
proof -
  have "rd_rep (length hs) (rd_take 32) (concat hs @ r) = Some (hs, r)"
    using bytes32.rep_iff [of "length hs" "concat hs @ r" hs r] assms(1) by simp
  moreover have "length hs \<le> length (concat hs @ r) div 32" using concat_hashes [OF assms(1)] by simp
  ultimately show ?thesis
    using assms(2) by (simp add: rd_bounded_seq_def put_hashes_def)
qed

lemma tree_from_to:
  assumes "list_all (\<lambda>h. length h = 32) t" "length t < 2 ^ 32"
  shows "tree_from_bytes (tree_to_bytes t) = Some t"
proof -
  have "\<not> (word_of_nat (length t) :: u64) > 2 ^ TREE_DEPTH"
    using assms(2) by (simp add: TREE_DEPTH_def word_less_nat_alt unat_of_nat take_bit_eq_mod)
  then show ?thesis
    using rd_hashes_put [OF assms, of "[]"] by (simp add: tree_from_bytes_def tree_to_bytes_def)
qed

end
