(* ===== verification/Obolos_Tx.thy ===== *)
theory Obolos_Tx
  imports Obolos_Commit Obolos_Tree
begin

text \<open>
  Shielded notes, nullifiers, the shielded transaction, its transparent proof and the transaction builder
  (\<open>fanos-obolos/src/note.rs\<close>, \<open>nullifier.rs\<close>, \<open>tx.rs\<close>, \<open>build.rs\<close>). Key generation from a seed
  reaches third-party code and is the argument \<open>kd\<close> of the builder.
\<close>

section \<open>Notes and nullifiers\<close>

definition NULLIFIER_LABEL :: string where "NULLIFIER_LABEL = ''FANOS-obolos-v1/nullifier''"
definition OWNER_PK_LABEL :: string where "OWNER_PK_LABEL = ''FANOS-obolos-v1/owner-pk''"
definition NOTE_CM_LABEL :: string where "NOTE_CM_LABEL = ''FANOS-obolos-v1/note-commitment''"
definition AUTH_COMMIT_LABEL :: string where "AUTH_COMMIT_LABEL = ''FANOS-obolos-v1/spend-auth-commit''"

type_synonym nullifier = "byte list"

definition nullifier_derive :: "('e, 'm, 's) crypto \<Rightarrow> byte list \<Rightarrow> u64 \<Rightarrow> byte list \<Rightarrow> nullifier" where
  "nullifier_derive C nsk position cm = hash_labeled C NULLIFIER_LABEL (nsk @ put_word 8 position @ cm)"

definition derive_owner_pk :: "('e, 'm, 's) crypto \<Rightarrow> byte list \<Rightarrow> byte list" where
  "derive_owner_pk C nsk = hash_labeled C OWNER_PK_LABEL nsk"

definition spend_auth_commit :: "('e, 'm, 's) crypto \<Rightarrow> ('e, 'm) hybrid_verifier \<Rightarrow> byte list" where
  "spend_auth_commit C ak = hash_labeled C AUTH_COMMIT_LABEL (vk_encode C ak)"

record shielded_note =
  nt_value :: u64
  nt_owner :: "byte list"
  nt_auth :: "byte list"
  nt_value_r :: randomness
  nt_rho :: "byte list"

definition value_commitment :: "commit_params \<Rightarrow> shielded_note \<Rightarrow> commitment" where
  "value_commitment p n = commit p (nt_value n) (nt_value_r n)"

definition note_commitment :: "('e, 'm, 's) crypto \<Rightarrow> commit_params \<Rightarrow> shielded_note \<Rightarrow> byte list" where
  "note_commitment C p n =
     hash_labeled C NOTE_CM_LABEL (cm_to_bytes (value_commitment p n) @ nt_owner n @ nt_auth n @ nt_rho n)"

definition note_nullifier :: "('e, 'm, 's) crypto \<Rightarrow> shielded_note \<Rightarrow> byte list \<Rightarrow> u64 \<Rightarrow> commit_params \<Rightarrow> nullifier" where
  "note_nullifier C n nsk position p = nullifier_derive C nsk position (note_commitment C p n)"

definition is_owned_by :: "('e, 'm, 's) crypto \<Rightarrow> shielded_note \<Rightarrow> byte list \<Rightarrow> bool" where
  "is_owned_by C n nsk \<longleftrightarrow> derive_owner_pk C nsk = nt_owner n"

section \<open>The shielded transaction\<close>

record note_cipher =
  nc_kem_ct :: "byte list"
  nc_aead_ct :: "byte list"

record output_note =
  on_note_commitment :: "byte list"
  on_value_commitment :: commitment
  on_cipher :: "note_cipher option"

record shielded_tx =
  sx_anchor :: "byte list"
  sx_nullifiers :: "nullifier list"
  sx_input_values :: "commitment list"
  sx_outputs :: "output_note list"
  sx_fee :: u64
  sx_public_value :: u64
  sx_public_recipient :: "byte list"
  sx_spend_auths :: "byte list list"

definition SIGHASH_LABEL :: string where "SIGHASH_LABEL = ''FANOS-obolos-v1/tx-sighash''"

definition sighash :: "('e, 'm, 's) crypto \<Rightarrow> shielded_tx \<Rightarrow> byte list" where
  "sighash C tx =
     hash_labeled C SIGHASH_LABEL
       (sx_anchor tx @ concat (sx_nullifiers tx) @ concat (map cm_to_bytes (sx_input_values tx)) @
        concat (map (\<lambda>o'. on_note_commitment o' @ cm_to_bytes (on_value_commitment o')) (sx_outputs tx)) @
        put_word 8 (sx_fee tx) @ put_word 8 (sx_public_value tx) @ sx_public_recipient tx)"

record input_opening =
  io_note :: shielded_note
  io_path :: auth_path
  io_nsk :: "byte list"
  io_ak :: "byte list"
  io_value_r_in :: randomness

record output_opening =
  oo_value :: u64
  oo_value_r :: randomness

record transparent_proof =
  tp_inputs :: "input_opening list"
  tp_outputs :: "output_opening list"

text \<open>The body of the loop over the inputs: the checks of one opening against its public fields.\<close>

definition input_ok ::
    "('e, 'm, 's) crypto \<Rightarrow> commit_params \<Rightarrow> byte list \<Rightarrow> byte list \<Rightarrow>
     input_opening \<Rightarrow> nullifier \<Rightarrow> commitment \<Rightarrow> byte list \<Rightarrow> bool" where
  "input_ok C p anchor sh opn nf input_value spend_auth =
     (let cm = note_commitment C p (io_note opn) in
      if \<not> path_verify C (io_path opn) cm anchor then False
      else if \<not> is_owned_by C (io_note opn) (io_nsk opn) then False
      else if nullifier_derive C (io_nsk opn) (ap_index (io_path opn)) cm \<noteq> nf then False
      else case (vk_decode C (io_ak opn), hsig_from_bytes C spend_auth) of
             (Some ak, Some sig) \<Rightarrow>
               if nt_auth (io_note opn) \<noteq> spend_auth_commit C ak then False
               else if \<not> hybrid_verify C ak sh sig then False
               else if nt_value (io_note opn) \<ge> MAX_VALUE then False
               else commit p (nt_value (io_note opn)) (io_value_r_in opn) = input_value
           | _ \<Rightarrow> False)"

definition output_ok :: "commit_params \<Rightarrow> output_opening \<Rightarrow> output_note \<Rightarrow> bool" where
  "output_ok p opn output =
     (if oo_value opn \<ge> MAX_VALUE then False
      else commit p (oo_value opn) (oo_value_r opn) = on_value_commitment output)"

definition transparent_verify ::
    "('e, 'm, 's) crypto \<Rightarrow> transparent_proof \<Rightarrow> commit_params \<Rightarrow> shielded_tx \<Rightarrow> bool" where
  "transparent_verify C pf p tx =
     (let n_in = length (sx_nullifiers tx) in
      if length (tp_inputs pf) \<noteq> n_in \<or> length (sx_input_values tx) \<noteq> n_in \<or> length (sx_spend_auths tx) \<noteq> n_in then False
      else if length (tp_outputs pf) \<noteq> length (sx_outputs tx) then False
      else if n_in + length (sx_outputs tx) > MAX_NOTES_PER_TX \<or> sx_fee tx \<ge> MAX_VALUE \<or> sx_public_value tx \<ge> MAX_VALUE then False
      else if \<not> list_all (\<lambda>i. is_ternary (io_value_r_in i) \<and> is_ternary (nt_value_r (io_note i))) (tp_inputs pf) \<or>
              \<not> list_all (\<lambda>o'. is_ternary (oo_value_r o')) (tp_outputs pf) then False
      else if \<not> list_all (\<lambda>(((opn, nf), iv), auth). input_ok C p (sx_anchor tx) (sighash C tx) opn nf iv auth)
                 (zip (zip (zip (tp_inputs pf) (sx_nullifiers tx)) (sx_input_values tx)) (sx_spend_auths tx)) then False
      else if \<not> list_all (\<lambda>(opn, output). output_ok p opn output) (zip (tp_outputs pf) (sx_outputs tx)) then False
      else verify_balance p (sx_input_values tx) (map on_value_commitment (sx_outputs tx))
             (saturating_add (sx_fee tx) (sx_public_value tx))
             (rand_sub (sum_randomness (map io_value_r_in (tp_inputs pf))) (sum_randomness (map oo_value_r (tp_outputs pf)))))"

definition balance_residual :: "shielded_tx \<Rightarrow> commitment" where
  "balance_residual tx =
     cm_sub (cm_sub (cm_sum (sx_input_values tx)) (cm_sum (map on_value_commitment (sx_outputs tx)))) (public_value (sx_fee tx))"

section \<open>The builder\<close>

record spend_input =
  si_note :: shielded_note
  si_nsk :: "byte list"
  si_spend_seed :: "byte list"
  si_path :: auth_path

type_synonym ('e, 'm, 's) key_derivation = "byte list \<Rightarrow> 's hybrid_sig_secret \<times> ('e, 'm) hybrid_verifier"

definition build_signed ::
    "('e, 'm, 's) crypto \<Rightarrow> ('e, 'm, 's) key_derivation \<Rightarrow> commit_params \<Rightarrow> byte list \<Rightarrow> spend_input list \<Rightarrow> shielded_note list \<Rightarrow>
     u64 \<Rightarrow> u64 \<Rightarrow> byte list \<Rightarrow> (shielded_tx \<times> transparent_proof) option" where
  "build_signed C kd p anchor inputs outputs fee pv recipient = do {
     input_r \<leftarrow> those (map (\<lambda>(i, inp). randomness_from_seed C (si_nsk inp @ nt_rho (si_note inp) @ put_le 8 (word_of_nat i :: u64)))
                  (zip [0..<length inputs] inputs));
     let tx = \<lparr>sx_anchor = anchor,
               sx_nullifiers = map (\<lambda>i. note_nullifier C (si_note i) (si_nsk i) (ap_index (si_path i)) p) inputs,
               sx_input_values = map (\<lambda>(inp, r). commit p (nt_value (si_note inp)) r) (zip inputs input_r),
               sx_outputs = map (\<lambda>n. \<lparr>on_note_commitment = note_commitment C p n,
                                       on_value_commitment = value_commitment p n, on_cipher = None\<rparr>) outputs,
               sx_fee = fee, sx_public_value = pv, sx_public_recipient = recipient, sx_spend_auths = []\<rparr>;
         sh = sighash C tx;
         tx' = tx\<lparr>sx_spend_auths := map (\<lambda>i. hsig_to_bytes C (hybrid_sign (fst (kd (si_spend_seed i))) sh)) inputs\<rparr>
     in Some (tx', \<lparr>tp_inputs = map (\<lambda>(i, r). \<lparr>io_note = si_note i, io_path = si_path i, io_nsk = si_nsk i,
                                          io_ak = vk_encode C (snd (kd (si_spend_seed i))), io_value_r_in = r\<rparr>)
                                 (zip inputs input_r),
                    tp_outputs = map (\<lambda>n. \<lparr>oo_value = nt_value n, oo_value_r = nt_value_r n\<rparr>) outputs\<rparr>) }"

definition build_transfer where
  "build_transfer C kd p anchor inputs outputs fee = build_signed C kd p anchor inputs outputs fee 0 (replicate 32 0)"

definition build_unshield where
  "build_unshield C kd p anchor inputs outputs pv recipient fee = build_signed C kd p anchor inputs outputs fee pv recipient"

section \<open>Value is conserved\<close>

abbreviation input_openings :: "transparent_proof \<Rightarrow> value_opening list" where
  "input_openings pf \<equiv> map (\<lambda>i. (nt_value (io_note i), io_value_r_in i)) (tp_inputs pf)"

abbreviation output_openings :: "transparent_proof \<Rightarrow> value_opening list" where
  "output_openings pf \<equiv> map (\<lambda>o'. (oo_value o', oo_value_r o')) (tp_outputs pf)"

lemma transparent_verify_iff:
  "transparent_verify C pf p tx \<longleftrightarrow>
     length (tp_inputs pf) = length (sx_nullifiers tx) \<and> length (sx_input_values tx) = length (sx_nullifiers tx) \<and>
     length (sx_spend_auths tx) = length (sx_nullifiers tx) \<and> length (tp_outputs pf) = length (sx_outputs tx) \<and>
     length (sx_nullifiers tx) + length (sx_outputs tx) \<le> MAX_NOTES_PER_TX \<and> sx_fee tx < MAX_VALUE \<and> sx_public_value tx < MAX_VALUE \<and>
     list_all (\<lambda>i. is_ternary (io_value_r_in i) \<and> is_ternary (nt_value_r (io_note i))) (tp_inputs pf) \<and>
     list_all (\<lambda>o'. is_ternary (oo_value_r o')) (tp_outputs pf) \<and>
     (\<forall>i < length (sx_nullifiers tx). input_ok C p (sx_anchor tx) (sighash C tx) (tp_inputs pf ! i) (sx_nullifiers tx ! i)
        (sx_input_values tx ! i) (sx_spend_auths tx ! i)) \<and>
     (\<forall>i < length (sx_outputs tx). output_ok p (tp_outputs pf ! i) (sx_outputs tx ! i)) \<and>
     verify_balance p (sx_input_values tx) (map on_value_commitment (sx_outputs tx)) (saturating_add (sx_fee tx) (sx_public_value tx))
       (rand_sub (sum_randomness (map io_value_r_in (tp_inputs pf))) (sum_randomness (map oo_value_r (tp_outputs pf))))"
  by (auto simp: transparent_verify_def Let_def list_all_length not_le)

lemma input_ok_iff:
  "input_ok C p anchor sh opn nf iv auth \<longleftrightarrow>
     path_verify C (io_path opn) (note_commitment C p (io_note opn)) anchor \<and> is_owned_by C (io_note opn) (io_nsk opn) \<and>
     nf = note_nullifier C (io_note opn) (io_nsk opn) (ap_index (io_path opn)) p \<and>
     (\<exists>ak. vk_decode C (io_ak opn) = Some ak \<and> nt_auth (io_note opn) = spend_auth_commit C ak \<and> sig_bytes_verify C ak sh auth) \<and>
     nt_value (io_note opn) < MAX_VALUE \<and> iv = commit p (nt_value (io_note opn)) (io_value_r_in opn)"
  by (auto simp: input_ok_def Let_def note_nullifier_def sig_bytes_verify_def not_le split: option.splits)

lemma output_ok_iff:
  "output_ok p opn output \<longleftrightarrow> oo_value opn < MAX_VALUE \<and> on_value_commitment output = commit p (oo_value opn) (oo_value_r opn)"
  by (auto simp: output_ok_def)

lemma verified_commitments:
  assumes "transparent_verify C pf p tx"
  shows "sx_input_values tx = map (\<lambda>o'. commit p (fst o') (snd o')) (input_openings pf)"
    and "map on_value_commitment (sx_outputs tx) = map (\<lambda>o'. commit p (fst o') (snd o')) (output_openings pf)"
    and "list_all (\<lambda>o'. fst o' < MAX_VALUE) (input_openings pf @ output_openings pf)"
    and "openings_ok (input_openings pf)" "openings_ok (output_openings pf)"
proof -
  note len = assms [unfolded transparent_verify_iff]
  have i: "sx_input_values tx ! i = commit p (nt_value (io_note (tp_inputs pf ! i))) (io_value_r_in (tp_inputs pf ! i)) \<and>
      nt_value (io_note (tp_inputs pf ! i)) < MAX_VALUE" if "i < length (tp_inputs pf)" for i
    using len that by (simp add: input_ok_iff)
  have o': "on_value_commitment (sx_outputs tx ! i) = commit p (oo_value (tp_outputs pf ! i)) (oo_value_r (tp_outputs pf ! i)) \<and>
      oo_value (tp_outputs pf ! i) < MAX_VALUE" if "i < length (tp_outputs pf)" for i
    using len that output_ok_iff by metis
  show "sx_input_values tx = map (\<lambda>o'. commit p (fst o') (snd o')) (input_openings pf)"
    using len i by (intro nth_equalityI) simp_all
  show "map on_value_commitment (sx_outputs tx) = map (\<lambda>o'. commit p (fst o') (snd o')) (output_openings pf)"
    using len o' by (intro nth_equalityI) simp_all
  show "list_all (\<lambda>o'. fst o' < MAX_VALUE) (input_openings pf @ output_openings pf)"
    using i o' by (simp add: list_all_append) (simp add: list_all_length)
  show "openings_ok (input_openings pf)" "openings_ok (output_openings pf)"
    using len by (auto simp: openings_ok_def is_ternary_def list_all_iff)
qed

lemma uint_leaving: "f < MAX_VALUE \<Longrightarrow> v < MAX_VALUE \<Longrightarrow> uint (saturating_add f v) = uint f + uint v"
proof -
  assume "f < MAX_VALUE" "v < MAX_VALUE"
  then have "uint f + uint v < 2 ^ 52" by (simp add: below_MAX_VALUE)
  then have "int (unat f + unat v) < int (2 ^ 52)" by (simp only: of_nat_add uint_nat of_nat_power of_nat_numeral)
  then have "unat f + unat v < 2 ^ 52" by (simp only: of_nat_less_iff)
  then have "unat (saturating_add f v) = unat f + unat v" by (simp add: unat_saturating_add)
  then show "uint (saturating_add f v) = uint f + uint v" by (simp only: uint_nat of_nat_add)
qed

lemma verified_balance:
  assumes "transparent_verify C pf p tx" "params_ok p"
  shows "sum_values (input_openings pf) = sum_values (output_openings pf) + uint (sx_fee tx) + uint (sx_public_value tx)"
proof -
  note v = verified_commitments [OF assms(1)]
  have lt: "sx_fee tx < MAX_VALUE" "sx_public_value tx < MAX_VALUE"
    and n: "length (input_openings pf) + length (output_openings pf) \<le> MAX_NOTES_PER_TX"
    using assms(1) by (auto simp: transparent_verify_iff)
  let ?c = "uint (sx_fee tx) + uint (sx_public_value tx)"
  have c: "0 \<le> ?c" "?c < 2 * 2 ^ 51" using lt unfolding below_MAX_VALUE by simp_all
  have "verify_balance p (sx_input_values tx) (map on_value_commitment (sx_outputs tx)) (saturating_add (sx_fee tx) (sx_public_value tx))
       (rand_sub (sum_randomness (map io_value_r_in (tp_inputs pf))) (sum_randomness (map oo_value_r (tp_outputs pf))))"
    using assms(1) unfolding transparent_verify_iff by blast
  moreover have "map io_value_r_in (tp_inputs pf) = map snd (input_openings pf)"
    "map oo_value_r (tp_outputs pf) = map snd (output_openings pf)" by simp_all
  ultimately have "(sum_values (input_openings pf) - sum_values (output_openings pf) - uint (saturating_add (sx_fee tx) (sx_public_value tx))) mod Q = 0"
    using verify_balance_iff [OF assms(2) v(4,5)] by (simp only: v(1,2))
  then show ?thesis
    using no_wrap_balance [OF v(3) n c] by (simp add: uint_leaving [OF lt])
qed

lemma amount_unat: "sum_values os = int (\<Sum>o' \<leftarrow> os. unat (fst o'))"
  by (induction os) (simp_all add: sum_values_def)

text \<open>
  C25. The declared amounts balance. When the transparent proof of a shielded transaction verifies, the amounts of the
  spent notes equal, as natural numbers, the amounts the proof opens for the value commitments of the outputs, plus the
  fee plus the public value: the balance is checked modulo \<open>2\<^sup>61 - 1\<close> on commitments, and the range and count bounds
  exclude every wrap. Each spent note is also opened by a path to the anchor, by its owner's nullifier key, and signed for
  by the key it commits to. Nothing ties the note commitment that enters the tree to the value commitment that is opened
  for it, so this is not conservation of the pool (\<open>forged_output_unshields\<close>).
\<close>

theorem verified_tx_conserves_value:
  assumes "transparent_verify C pf p tx" "params_ok p"
  shows "(\<Sum>i \<leftarrow> tp_inputs pf. unat (nt_value (io_note i))) =
      (\<Sum>o' \<leftarrow> tp_outputs pf. unat (oo_value o')) + unat (sx_fee tx) + unat (sx_public_value tx) \<and>
    map on_value_commitment (sx_outputs tx) = map (\<lambda>o'. commit p (oo_value o') (oo_value_r o')) (tp_outputs pf) \<and>
    (\<forall>i < length (tp_inputs pf).
       path_verify C (io_path (tp_inputs pf ! i)) (note_commitment C p (io_note (tp_inputs pf ! i))) (sx_anchor tx) \<and>
       nt_owner (io_note (tp_inputs pf ! i)) = derive_owner_pk C (io_nsk (tp_inputs pf ! i)) \<and>
       (\<exists>ak. nt_auth (io_note (tp_inputs pf ! i)) = spend_auth_commit C ak \<and>
          sig_bytes_verify C ak (sighash C tx) (sx_spend_auths tx ! i)))"
proof (intro conjI)
  show "map on_value_commitment (sx_outputs tx) = map (\<lambda>o'. commit p (oo_value o') (oo_value_r o')) (tp_outputs pf)"
    using assms(1) by (intro nth_equalityI) (auto simp: transparent_verify_iff output_ok_def split: if_splits)
  have "int (\<Sum>i \<leftarrow> tp_inputs pf. unat (nt_value (io_note i))) =
      int ((\<Sum>o' \<leftarrow> tp_outputs pf. unat (oo_value o')) + unat (sx_fee tx) + unat (sx_public_value tx))"
    using verified_balance [OF assms] by (simp only: amount_unat map_map comp_def fst_conv of_nat_add uint_nat)
  then show "(\<Sum>i \<leftarrow> tp_inputs pf. unat (nt_value (io_note i))) =
      (\<Sum>o' \<leftarrow> tp_outputs pf. unat (oo_value o')) + unat (sx_fee tx) + unat (sx_public_value tx)"
    by (simp only: of_nat_eq_iff)
  show "\<forall>i < length (tp_inputs pf).
       path_verify C (io_path (tp_inputs pf ! i)) (note_commitment C p (io_note (tp_inputs pf ! i))) (sx_anchor tx) \<and>
       nt_owner (io_note (tp_inputs pf ! i)) = derive_owner_pk C (io_nsk (tp_inputs pf ! i)) \<and>
       (\<exists>ak. nt_auth (io_note (tp_inputs pf ! i)) = spend_auth_commit C ak \<and>
          sig_bytes_verify C ak (sighash C tx) (sx_spend_auths tx ! i))"
  proof (intro allI impI)
    fix i assume "i < length (tp_inputs pf)"
    then have "input_ok C p (sx_anchor tx) (sighash C tx) (tp_inputs pf ! i) (sx_nullifiers tx ! i) (sx_input_values tx ! i) (sx_spend_auths tx ! i)"
      using assms(1) by (simp add: transparent_verify_iff)
    then show "path_verify C (io_path (tp_inputs pf ! i)) (note_commitment C p (io_note (tp_inputs pf ! i))) (sx_anchor tx) \<and>
       nt_owner (io_note (tp_inputs pf ! i)) = derive_owner_pk C (io_nsk (tp_inputs pf ! i)) \<and>
       (\<exists>ak. nt_auth (io_note (tp_inputs pf ! i)) = spend_auth_commit C ak \<and>
          sig_bytes_verify C ak (sighash C tx) (sx_spend_auths tx ! i))"
      by (auto simp: input_ok_iff is_owned_by_def)
  qed
qed

section \<open>Honest transfers verify\<close>

definition signing_correct :: "('e, 'm, 's) crypto \<Rightarrow> ('e, 'm, 's) key_derivation \<Rightarrow> bool" where
  "signing_correct C kd \<longleftrightarrow>
     (\<forall>seed m. sig_bytes_verify C (snd (kd seed)) m (hsig_to_bytes C (hybrid_sign (fst (kd seed)) m)))"

definition spendable :: "('e, 'm, 's) crypto \<Rightarrow> ('e, 'm, 's) key_derivation \<Rightarrow> commit_params \<Rightarrow> byte list \<Rightarrow> spend_input \<Rightarrow> bool" where
  "spendable C kd p anchor i \<longleftrightarrow>
     path_verify C (si_path i) (note_commitment C p (si_note i)) anchor \<and> is_owned_by C (si_note i) (si_nsk i) \<and>
     nt_auth (si_note i) = spend_auth_commit C (snd (kd (si_spend_seed i))) \<and>
     nt_value (si_note i) < MAX_VALUE \<and> is_ternary (nt_value_r (si_note i))"

definition receivable :: "shielded_note \<Rightarrow> bool" where
  "receivable n \<longleftrightarrow> nt_value n < MAX_VALUE \<and> is_ternary (nt_value_r n)"

lemma those_Some_length: "those xs = Some ys \<Longrightarrow> length ys = length xs \<and> (\<forall>i < length xs. xs ! i = Some (ys ! i))"
proof (induction xs arbitrary: ys)
  case (Cons x xs)
  then obtain y zs where z: "x = Some y" "those xs = Some zs" "ys = y # zs" by (auto split: option.splits)
  from Cons.IH [OF z(2)] z show ?case by (auto simp: nth_Cons split: nat.splits)
qed simp

lemma sighash_auths [simp]: "sighash C (tx\<lparr>sx_spend_auths := a\<rparr>) = sighash C tx"
  by (simp add: sighash_def)

lemma built_fields:
  assumes "build_signed C kd p anchor inputs outputs fee pv rcp = Some (tx, pf)"
  obtains rs where "length rs = length inputs" "list_all is_ternary rs"
    "sx_anchor tx = anchor" "sx_fee tx = fee" "sx_public_value tx = pv" "sx_public_recipient tx = rcp"
    "sx_nullifiers tx = map (\<lambda>i. note_nullifier C (si_note i) (si_nsk i) (ap_index (si_path i)) p) inputs"
    "sx_input_values tx = map (\<lambda>(inp, r). commit p (nt_value (si_note inp)) r) (zip inputs rs)"
    "sx_outputs tx = map (\<lambda>n. \<lparr>on_note_commitment = note_commitment C p n, on_value_commitment = value_commitment p n, on_cipher = None\<rparr>) outputs"
    "sx_spend_auths tx = map (\<lambda>i. hsig_to_bytes C (hybrid_sign (fst (kd (si_spend_seed i))) (sighash C tx))) inputs"
    "tp_inputs pf = map (\<lambda>(i, r). \<lparr>io_note = si_note i, io_path = si_path i, io_nsk = si_nsk i,
       io_ak = vk_encode C (snd (kd (si_spend_seed i))), io_value_r_in = r\<rparr>) (zip inputs rs)"
    "tp_outputs pf = map (\<lambda>n. \<lparr>oo_value = nt_value n, oo_value_r = nt_value_r n\<rparr>) outputs"
proof -
  let ?seeds = "map (\<lambda>(i, inp). randomness_from_seed C (si_nsk inp @ nt_rho (si_note inp) @ put_le 8 (word_of_nat i :: u64)))
    (zip [0..<length inputs] inputs)"
  obtain rs where rs: "those ?seeds = Some rs"
    using assms by (auto simp: build_signed_def bind_eq_Some_conv)
  note len = those_Some_length [OF rs]
  have "is_ternary (rs ! i)" if "i < length rs" for i
    using len that by (auto intro: randomness_from_seed_ternary)
  then have t: "list_all is_ternary rs" by (simp add: list_all_length)
  from assms rs show ?thesis
    by (intro that [of rs]) (use len t in \<open>auto simp: build_signed_def Let_def sighash_def\<close>)
qed

text \<open>
  A transaction verifies whatever note commitments its outputs carry, as long as the value commitments,
  the nullifiers and the signatures are those of the openings.
\<close>

lemma signed_tx_verifies:
  assumes "vk_serialization C" "signing_correct C kd" "params_ok p"
    and "list_all (spendable C kd p (sx_anchor tx)) inputs" "list_all receivable outputs"
    and "length inputs + length outputs \<le> MAX_NOTES_PER_TX" "sx_fee tx < MAX_VALUE" "sx_public_value tx < MAX_VALUE"
    and "(\<Sum>i \<leftarrow> inputs. unat (nt_value (si_note i))) =
      (\<Sum>n \<leftarrow> outputs. unat (nt_value n)) + unat (sx_fee tx) + unat (sx_public_value tx)"
    and rs: "length rs = length inputs" "list_all is_ternary rs"
    and f: "sx_nullifiers tx = map (\<lambda>i. note_nullifier C (si_note i) (si_nsk i) (ap_index (si_path i)) p) inputs"
    "sx_input_values tx = map (\<lambda>(inp, r). commit p (nt_value (si_note inp)) r) (zip inputs rs)"
    "map on_value_commitment (sx_outputs tx) = map (value_commitment p) outputs"
    "sx_spend_auths tx = map (\<lambda>i. hsig_to_bytes C (hybrid_sign (fst (kd (si_spend_seed i))) (sighash C tx))) inputs"
    "tp_inputs pf = map (\<lambda>(i, r). \<lparr>io_note = si_note i, io_path = si_path i, io_nsk = si_nsk i,
       io_ak = vk_encode C (snd (kd (si_spend_seed i))), io_value_r_in = r\<rparr>) (zip inputs rs)"
    "tp_outputs pf = map (\<lambda>n. \<lparr>oo_value = nt_value n, oo_value_r = nt_value_r n\<rparr>) outputs"
  shows "transparent_verify C pf p tx"
proof -
  let ?fee = "sx_fee tx" and ?pv = "sx_public_value tx"
  let ?ins = "map (\<lambda>(i, r). (nt_value (si_note i), r)) (zip inputs rs)" and ?outs = "map (\<lambda>n. (nt_value n, nt_value_r n)) outputs"
  have ok: "openings_ok ?ins" "openings_ok ?outs"
    using rs assms(5) by (auto simp: openings_ok_def list_all_iff is_ternary_def receivable_def dest: set_zip_rightD)
  have lt: "list_all (\<lambda>o'. fst o' < MAX_VALUE) (?ins @ ?outs)"
    using assms(4,5) by (auto simp: list_all_iff spendable_def receivable_def dest: set_zip_leftD)
  have "map fst ?ins = map (\<lambda>i. nt_value (si_note i)) inputs"
    using rs(1) by (induction inputs rs rule: list_induct2') auto
  then have "(\<Sum>o' \<leftarrow> ?ins. unat (fst o')) = (\<Sum>i \<leftarrow> inputs. unat (nt_value (si_note i)))"
    by (metis (no_types, lifting) map_map comp_apply map_eq_conv)
  moreover have "(\<Sum>o' \<leftarrow> ?outs. unat (fst o')) = (\<Sum>n \<leftarrow> outputs. unat (nt_value n))" by (simp add: comp_def)
  ultimately have bal: "sum_values ?ins = sum_values ?outs + (uint ?fee + uint ?pv)"
    using assms(9) by (simp only: amount_unat of_nat_add uint_nat add.assoc)
  have c: "0 \<le> uint ?fee + uint ?pv" "uint ?fee + uint ?pv < 2 * 2 ^ 51" using assms(7,8) unfolding below_MAX_VALUE by simp_all
  have n: "length ?ins + length ?outs \<le> MAX_NOTES_PER_TX" using assms(6) rs(1) by simp
  have "(sum_values ?ins - sum_values ?outs - uint (saturating_add ?fee ?pv)) mod Q = 0"
    using no_wrap_balance [OF lt n c] bal by (simp add: uint_leaving [OF assms(7,8)])
  moreover have "map snd ?ins = map io_value_r_in (tp_inputs pf)" "map snd ?outs = map oo_value_r (tp_outputs pf)"
    "map (\<lambda>o'. commit p (fst o') (snd o')) ?ins = sx_input_values tx"
    "map (\<lambda>o'. commit p (fst o') (snd o')) ?outs = map on_value_commitment (sx_outputs tx)"
    by (auto simp: f value_commitment_def)
  ultimately have vb: "verify_balance p (sx_input_values tx) (map on_value_commitment (sx_outputs tx)) (saturating_add ?fee ?pv)
       (rand_sub (sum_randomness (map io_value_r_in (tp_inputs pf))) (sum_randomness (map oo_value_r (tp_outputs pf))))"
    using verify_balance_iff [OF assms(3) ok, of "saturating_add ?fee ?pv"] by metis
  have inp: "input_ok C p (sx_anchor tx) (sighash C tx) (tp_inputs pf ! i) (sx_nullifiers tx ! i) (sx_input_values tx ! i) (sx_spend_auths tx ! i)"
    if "i < length inputs" for i
    using that rs(1) assms(1,2,4) by (simp add: f input_ok_iff spendable_def list_all_length signing_correct_def)
  have len: "length (sx_outputs tx) = length outputs" using f(3) by (metis length_map)
  have out: "output_ok p (tp_outputs pf ! i) (sx_outputs tx ! i)" if "i < length outputs" for i
  proof -
    have "on_value_commitment (sx_outputs tx ! i) = value_commitment p (outputs ! i)"
      using f(3) that len by (metis nth_map)
    then show ?thesis using that assms(5) by (simp add: f output_ok_iff value_commitment_def list_all_length receivable_def)
  qed
  have tern: "list_all (\<lambda>i. is_ternary (io_value_r_in i) \<and> is_ternary (nt_value_r (io_note i))) (tp_inputs pf)"
    "list_all (\<lambda>o'. is_ternary (oo_value_r o')) (tp_outputs pf)"
    using rs assms(4,5) by (simp_all add: f list_all_length spendable_def receivable_def)
  show ?thesis
    unfolding transparent_verify_iff using rs(1) assms(6-8) inp out vb tern len by (simp add: f)
qed

lemma built_verifies:
  assumes "build_signed C kd p anchor inputs outputs fee pv rcp = Some (tx, pf)"
    and "vk_serialization C" "signing_correct C kd" "params_ok p"
    and "list_all (spendable C kd p anchor) inputs" "list_all receivable outputs"
    and "length inputs + length outputs \<le> MAX_NOTES_PER_TX" "fee < MAX_VALUE" "pv < MAX_VALUE"
    and "(\<Sum>i \<leftarrow> inputs. unat (nt_value (si_note i))) = (\<Sum>n \<leftarrow> outputs. unat (nt_value n)) + unat fee + unat pv"
  shows "transparent_verify C pf p tx"
proof (rule built_fields [OF assms(1)])
  fix rs
  assume rs: "length rs = length inputs" "list_all is_ternary rs"
    and f: "sx_anchor tx = anchor" "sx_fee tx = fee" "sx_public_value tx = pv"
    "sx_nullifiers tx = map (\<lambda>i. note_nullifier C (si_note i) (si_nsk i) (ap_index (si_path i)) p) inputs"
    "sx_input_values tx = map (\<lambda>(inp, r). commit p (nt_value (si_note inp)) r) (zip inputs rs)"
    "sx_outputs tx = map (\<lambda>n. \<lparr>on_note_commitment = note_commitment C p n, on_value_commitment = value_commitment p n, on_cipher = None\<rparr>) outputs"
    "sx_spend_auths tx = map (\<lambda>i. hsig_to_bytes C (hybrid_sign (fst (kd (si_spend_seed i))) (sighash C tx))) inputs"
    "tp_inputs pf = map (\<lambda>(i, r). \<lparr>io_note = si_note i, io_path = si_path i, io_nsk = si_nsk i,
       io_ak = vk_encode C (snd (kd (si_spend_seed i))), io_value_r_in = r\<rparr>) (zip inputs rs)"
    "tp_outputs pf = map (\<lambda>n. \<lparr>oo_value = nt_value n, oo_value_r = nt_value_r n\<rparr>) outputs"
  have vc: "map on_value_commitment (sx_outputs tx) = map (value_commitment p) outputs" by (simp add: f)
  show ?thesis
    by (rule signed_tx_verifies [OF assms(2-4) _ assms(6,7) _ _ _ rs f(4,5) vc f(7-9)])
       (use assms(5,8-10) f(1-3) in simp_all)
qed

section \<open>A concrete instance\<close>

text \<open>
  A concrete instance without collisions: the toy primitives with the identity for the digest, one signing
  key for every seed, and a note of five units at position 0.
\<close>

definition id_crypto :: "(byte, byte, byte list) crypto" where
  "id_crypto = toy_crypto\<lparr>blake3 := (\<lambda>x. x)\<rparr>"

definition toy_kd :: "(byte, byte, byte list) key_derivation" where
  "toy_kd seed = (\<lparr>hs_ed = (\<lambda>m. 7 # replicate 63 0), hs_ml = (\<lambda>m. replicate 3309 0)\<rparr>, toy_key 7)"

definition toy_note :: "u64 \<Rightarrow> shielded_note" where
  "toy_note v = \<lparr>nt_value = v, nt_owner = derive_owner_pk id_crypto [1], nt_auth = spend_auth_commit id_crypto (toy_key 7),
     nt_value_r = zero_randomness, nt_rho = [2]\<rparr>"

abbreviation "toy_params \<equiv> params_standard id_crypto"
lemma id_instance:
  "vk_serialization id_crypto" "signing_correct id_crypto toy_kd" "params_ok toy_params"
  using toy_serialization
  by (auto simp: vk_serialization_def id_crypto_def signing_correct_def toy_kd_def sig_bytes_verify_def hsig_from_bytes_def
      hsig_to_bytes_def hybrid_sign_def hybrid_verify_def toy_crypto_def toy_key_def crypto_lens params_standard_def
      intro: params_from_seed_ok)

lemma toy_builds:
  "\<exists>tx pf. build_signed id_crypto toy_kd p a [i] outs fee pv rcp = Some (tx, pf)"
proof -
  obtain r where "randomness_from_seed id_crypto (si_nsk i @ nt_rho (si_note i) @ put_le 8 (word_of_nat 0 :: u64)) = Some r"
    by (rule randomness_returns [of id_crypto])
       (simp_all add: hash_xof_def id_crypto_def toy_crypto_def list_all_length)
  then show ?thesis by (simp add: build_signed_def Let_def)
qed

theorem verified_tx_conserves_value_witness:
  "\<exists>tx pf. transparent_verify id_crypto pf toy_params tx \<and> sx_fee tx = 2 \<and>
     (\<Sum>i \<leftarrow> tp_inputs pf. unat (nt_value (io_note i))) = (\<Sum>o' \<leftarrow> tp_outputs pf. unat (oo_value o')) + 2 + unat (sx_public_value tx)"
proof -
  let ?t = "[note_commitment id_crypto toy_params (toy_note 5)]"
  obtain pth where pth: "path_verify id_crypto pth (note_commitment id_crypto toy_params (toy_note 5)) (tree_root id_crypto ?t)"
    using tree_path_verifies [of ?t 0 id_crypto] by (auto simp: TREE_DEPTH_def)
  let ?i = "\<lparr>si_note = toy_note 5, si_nsk = [1], si_spend_seed = [], si_path = pth\<rparr>"
  obtain tx pf where b: "build_signed id_crypto toy_kd toy_params (tree_root id_crypto ?t) [?i] [toy_note 3] 2 0 [] = Some (tx, pf)"
    using toy_builds by blast
  have t: "is_ternary zero_randomness" by (simp add: zero_randomness_def is_ternary_def list_all_length)
  have v: "transparent_verify id_crypto pf toy_params tx"
    by (rule built_verifies [OF b id_instance])
       (use pth t in \<open>simp_all add: spendable_def receivable_def toy_note_def is_owned_by_def toy_kd_def MAX_VALUE_def
          MAX_NOTES_PER_TX_def Q_def\<close>)
  moreover have "sx_fee tx = 2" by (rule built_fields [OF b]) simp
  ultimately show ?thesis using verified_tx_conserves_value [OF v id_instance(3)] by force
qed

end
