(* ===== verification/Obolos_Pool.thy ===== *)
theory Obolos_Pool
  imports Obolos_Tx
begin

text \<open>
  The shielded ledger state (\<open>fanos-obolos/src/state.rs\<close>, with the nullifier set of \<open>nullifier.rs\<close>):
  the commitment tree, the spent nullifiers and the rolling window of anchors, issuance, the application
  of a shielded transaction, the state root and the snapshot.
\<close>

section \<open>Nullifier sets\<close>

type_synonym nullifier_set = "(nullifier, unit) btree"

definition NF_SET_ROOT_LABEL :: string where "NF_SET_ROOT_LABEL = ''FANOS-obolos-v1/nf-set-root''"

definition nf_contains :: "nullifier_set \<Rightarrow> nullifier \<Rightarrow> bool" where
  "nf_contains s nf = bt_contains s nf"

definition nf_insert :: "nullifier_set \<Rightarrow> nullifier \<Rightarrow> nullifier_set \<times> bool" where
  "nf_insert s nf = (bt_insert nf () s, \<not> bt_contains s nf)"

fun fresh_loop :: "nullifier_set \<Rightarrow> nullifier_set \<Rightarrow> nullifier list \<Rightarrow> bool" where
  "fresh_loop s within [] = True"
| "fresh_loop s within (nf # nfs) =
     (if bt_contains s nf then False
      else if \<not> snd (nf_insert within nf) then False
      else fresh_loop s (fst (nf_insert within nf)) nfs)"

definition all_fresh :: "nullifier_set \<Rightarrow> nullifier list \<Rightarrow> bool" where
  "all_fresh s nfs = fresh_loop s [] nfs"

definition nf_root :: "('e, 'm, 's) crypto \<Rightarrow> nullifier_set \<Rightarrow> byte list" where
  "nf_root C s = hash_labeled C NF_SET_ROOT_LABEL (concat (map fst s))"

definition nf_to_bytes :: "nullifier_set \<Rightarrow> byte list" where
  "nf_to_bytes s = put_hashes (map fst s)"

definition nf_from_bytes :: "byte list \<Rightarrow> nullifier_set option" where
  "nf_from_bytes bs = do {
     (hs, r) \<leftarrow> rd_bounded_seq 32 (rd_take 32) bs;
     if r \<noteq> [] then None else Some (bt_collect (map (\<lambda>h. (h, ())) hs)) }"

section \<open>The state\<close>

definition STATE_ROOT_LABEL :: string where "STATE_ROOT_LABEL = ''FANOS-obolos-v1/state-root''"
definition ANCHOR_SET_ROOT_LABEL :: string where "ANCHOR_SET_ROOT_LABEL = ''FANOS-obolos-v1/anchor-set-root''"
definition MAX_ANCHORS :: nat where "MAX_ANCHORS = 1024"

datatype apply_error = UnknownAnchor | DoubleSpend | InvalidProof | CapacityExceeded

record shielded_state =
  ss_tree :: commitment_tree
  ss_nullifiers :: nullifier_set
  ss_anchors :: "(byte list, unit) btree"
  ss_anchor_order :: "byte list list"

definition record_anchor :: "shielded_state \<Rightarrow> byte list \<Rightarrow> shielded_state" where
  "record_anchor S rt =
     (if bt_contains (ss_anchors S) rt then S
      else let S = S\<lparr>ss_anchors := bt_insert rt () (ss_anchors S), ss_anchor_order := ss_anchor_order S @ [rt]\<rparr>
           in if length (ss_anchors S) > MAX_ANCHORS
              then case ss_anchor_order S of
                     [] \<Rightarrow> S
                   | oldest # rest \<Rightarrow> S\<lparr>ss_anchors := bt_remove oldest (ss_anchors S), ss_anchor_order := rest\<rparr>
              else S)"

definition pool_new :: "('e, 'm, 's) crypto \<Rightarrow> shielded_state" where
  "pool_new C =
     record_anchor \<lparr>ss_tree = [], ss_nullifiers = [], ss_anchors = [], ss_anchor_order = []\<rparr> (tree_root C [])"

definition pool_anchor :: "('e, 'm, 's) crypto \<Rightarrow> shielded_state \<Rightarrow> byte list" where
  "pool_anchor C S = tree_root C (ss_tree S)"

definition note_count :: "shielded_state \<Rightarrow> u64" where
  "note_count S = tree_size (ss_tree S)"

definition spent_count :: "shielded_state \<Rightarrow> nat" where
  "spent_count S = length (ss_nullifiers S)"

definition is_valid_anchor :: "shielded_state \<Rightarrow> byte list \<Rightarrow> bool" where
  "is_valid_anchor S a = bt_contains (ss_anchors S) a"

definition pool_path :: "('e, 'm, 's) crypto \<Rightarrow> shielded_state \<Rightarrow> u64 \<Rightarrow> auth_path option" where
  "pool_path C S i = tree_path C (ss_tree S) i"

definition anchor_set_root :: "('e, 'm, 's) crypto \<Rightarrow> shielded_state \<Rightarrow> byte list" where
  "anchor_set_root C S = hash_labeled C ANCHOR_SET_ROOT_LABEL (concat (map fst (ss_anchors S)))"

definition pool_root :: "('e, 'm, 's) crypto \<Rightarrow> shielded_state \<Rightarrow> byte list" where
  "pool_root C S =
     hash_labeled C STATE_ROOT_LABEL (tree_root C (ss_tree S) @ nf_root C (ss_nullifiers S) @ anchor_set_root C S)"

definition pool_to_bytes :: "shielded_state \<Rightarrow> byte list" where
  "pool_to_bytes S =
     put_var_bytes (tree_to_bytes (ss_tree S)) @ put_var_bytes (nf_to_bytes (ss_nullifiers S)) @ put_hashes (ss_anchor_order S)"

definition pool_from_bytes :: "byte list \<Rightarrow> shielded_state option" where
  "pool_from_bytes bs = do {
     (tb, r) \<leftarrow> rd_var_bytes bs;
     t \<leftarrow> tree_from_bytes tb;
     (nb, r) \<leftarrow> rd_var_bytes r;
     nfs \<leftarrow> nf_from_bytes nb;
     (order, r) \<leftarrow> rd_bounded_seq 32 (rd_take 32) r;
     if r \<noteq> [] then None
     else if length order > MAX_ANCHORS then None
     else Some \<lparr>ss_tree = t, ss_nullifiers = nfs, ss_anchors = bt_collect (map (\<lambda>a. (a, ())) order), ss_anchor_order = order\<rparr> }"

definition mint :: "('e, 'm, 's) crypto \<Rightarrow> shielded_state \<Rightarrow> byte list \<Rightarrow> shielded_state \<times> u64 option" where
  "mint C S cm =
     (case tree_append (ss_tree S) cm of
        (t, None) \<Rightarrow> (S, None)
      | (t, Some pos) \<Rightarrow> (record_anchor (S\<lparr>ss_tree := t\<rparr>) (tree_root C t), Some pos))"

definition apply_with_verdict_shielded ::
    "('e, 'm, 's) crypto \<Rightarrow> shielded_state \<Rightarrow> shielded_tx \<Rightarrow> bool \<Rightarrow> shielded_state \<times> (apply_error + unit)" where
  "apply_with_verdict_shielded C S tx verdict =
     (if \<not> bt_contains (ss_anchors S) (sx_anchor tx) then (S, Inl UnknownAnchor)
      else if \<not> all_fresh (ss_nullifiers S) (sx_nullifiers tx) then (S, Inl DoubleSpend)
      else if saturating_add (tree_size (ss_tree S)) (word_of_nat (length (sx_outputs tx))) > 2 ^ TREE_DEPTH
      then (S, Inl CapacityExceeded)
      else if \<not> verdict then (S, Inl InvalidProof)
      else let nfs = foldl (\<lambda>s nf. fst (nf_insert s nf)) (ss_nullifiers S) (sx_nullifiers tx);
               t = foldl (\<lambda>t o'. fst (tree_append t (on_note_commitment o'))) (ss_tree S) (sx_outputs tx)
           in (record_anchor (S\<lparr>ss_nullifiers := nfs, ss_tree := t\<rparr>) (tree_root C t), Inr ()))"

definition apply_shielded_tx ::
    "('e, 'm, 's) crypto \<Rightarrow> shielded_state \<Rightarrow> commit_params \<Rightarrow> shielded_tx \<Rightarrow> transparent_proof \<Rightarrow>
     shielded_state \<times> (apply_error + unit)" where
  "apply_shielded_tx C S p tx pf = apply_with_verdict_shielded C S tx (transparent_verify C pf p tx)"

section \<open>The invariant\<close>

definition pool_ok :: "('e, 'm, 's) crypto \<Rightarrow> shielded_state \<Rightarrow> bool" where
  "pool_ok C S \<longleftrightarrow>
     bt_ok (ss_anchors S) \<and> bt_ok (ss_nullifiers S) \<and> bt_keys (ss_anchors S) = set (ss_anchor_order S) \<and>
     distinct (ss_anchor_order S) \<and> length (ss_anchor_order S) \<le> MAX_ANCHORS \<and>
     tree_root C (ss_tree S) \<in> set (ss_anchor_order S) \<and> length (ss_tree S) \<le> 2 ^ TREE_DEPTH"

text \<open>The window before the root of a changed tree is recorded.\<close>

definition window_ok :: "shielded_state \<Rightarrow> bool" where
  "window_ok S \<longleftrightarrow>
     bt_ok (ss_anchors S) \<and> bt_keys (ss_anchors S) = set (ss_anchor_order S) \<and>
     distinct (ss_anchor_order S) \<and> length (ss_anchor_order S) \<le> MAX_ANCHORS"

lemma record_anchor_fields [simp]:
  "ss_tree (record_anchor S rt) = ss_tree S" "ss_nullifiers (record_anchor S rt) = ss_nullifiers S"
  by (simp_all add: record_anchor_def Let_def split: list.split)

lemma record_anchor_order:
  assumes "window_ok S"
  shows "ss_anchor_order (record_anchor S rt) =
      (if rt \<in> set (ss_anchor_order S) then ss_anchor_order S
       else if length (ss_anchor_order S) = MAX_ANCHORS then tl (ss_anchor_order S) @ [rt]
       else ss_anchor_order S @ [rt])"
    and "window_ok (record_anchor S rt)" "rt \<in> set (ss_anchor_order (record_anchor S rt))"
proof -
  have card: "length m = length (ss_anchor_order S) + 1"
    if "bt_ok m" "bt_keys m = insert rt (set (ss_anchor_order S))" "rt \<notin> set (ss_anchor_order S)" for m :: "(byte list, unit) btree"
    using that assms by (simp add: length_bt window_ok_def distinct_card)
  show o: "ss_anchor_order (record_anchor S rt) =
      (if rt \<in> set (ss_anchor_order S) then ss_anchor_order S
       else if length (ss_anchor_order S) = MAX_ANCHORS then tl (ss_anchor_order S) @ [rt]
       else ss_anchor_order S @ [rt])"
    using assms card [of "bt_insert rt () (ss_anchors S)"]
    by (cases "ss_anchor_order S") (auto simp: record_anchor_def window_ok_def Let_def MAX_ANCHORS_def)
  have "ss_anchor_order S \<noteq> []" if "length (ss_anchor_order S) = MAX_ANCHORS" using that by (auto simp: MAX_ANCHORS_def)
  then show "rt \<in> set (ss_anchor_order (record_anchor S rt))" unfolding o by auto
  show "window_ok (record_anchor S rt)"
    using assms card [of "bt_insert rt () (ss_anchors S)"] o
    by (cases "ss_anchor_order S") (auto simp: window_ok_def record_anchor_def Let_def MAX_ANCHORS_def bt_ok_def [of "[(rt, ())]"])
qed

lemma foldl_append_outputs:
  assumes "length t + length os \<le> 2 ^ TREE_DEPTH"
  shows "foldl (\<lambda>t o'. fst (tree_append t (on_note_commitment o'))) t os = t @ map on_note_commitment os"
  using assms
proof (induction os arbitrary: t)
  case (Cons o' os)
  then have "\<not> tree_is_full t"
    using tree_size_bound [of t] by (auto simp: tree_is_full_def TREE_DEPTH_def word_le_nat_alt)
  then show ?case using Cons.IH [of "t @ [on_note_commitment o']"] Cons.prems by (simp add: tree_append_def)
qed simp

lemma keys_insert_all: "bt_keys (foldl (\<lambda>s nf. fst (nf_insert s nf)) s nfs) = bt_keys s \<union> set nfs"
  by (induction nfs arbitrary: s) (auto simp: nf_insert_def)

lemma bt_ok_insert_all: "bt_ok s \<Longrightarrow> bt_ok (foldl (\<lambda>s nf. fst (nf_insert s nf)) s nfs)"
  by (induction nfs arbitrary: s) (auto simp: nf_insert_def)

lemma fresh_loop_iff: "fresh_loop s within nfs \<longleftrightarrow> distinct nfs \<and> set nfs \<inter> (bt_keys s \<union> bt_keys within) = {}"
  by (induction s within nfs rule: fresh_loop.induct) (auto simp: nf_insert_def)

lemma all_fresh_iff: "all_fresh s nfs \<longleftrightarrow> distinct nfs \<and> set nfs \<inter> bt_keys s = {}"
  by (simp add: all_fresh_def fresh_loop_iff)

lemma capacity_iff:
  assumes "length t \<le> 2 ^ TREE_DEPTH" "n < 2 ^ 64"
  shows "saturating_add (tree_size t) (word_of_nat n :: u64) > 2 ^ TREE_DEPTH \<longleftrightarrow> length t + n > 2 ^ TREE_DEPTH"
  using assms tree_size_bound [OF assms(1)]
  by (simp add: word_less_nat_alt unat_saturating_add unat_of_nat take_bit_eq_mod TREE_DEPTH_def)

text \<open>What an accepted transaction does.\<close>

lemma apply_accepted:
  assumes "pool_ok C S" "apply_with_verdict_shielded C S tx v = (S', Inr ())" "length (sx_outputs tx) < 2 ^ 64"
  shows "v" "sx_anchor tx \<in> set (ss_anchor_order S)" "distinct (sx_nullifiers tx)" "set (sx_nullifiers tx) \<inter> bt_keys (ss_nullifiers S) = {}"
    and "bt_keys (ss_nullifiers S') = bt_keys (ss_nullifiers S) \<union> set (sx_nullifiers tx)"
    and "ss_tree S' = ss_tree S @ map on_note_commitment (sx_outputs tx)" "pool_ok C S'"
    and "length (ss_anchor_order S) < MAX_ANCHORS \<Longrightarrow> set (ss_anchor_order S) \<subseteq> set (ss_anchor_order S')"
proof -
  let ?nfs = "foldl (\<lambda>s nf. fst (nf_insert s nf)) (ss_nullifiers S) (sx_nullifiers tx)"
  let ?t = "ss_tree S @ map on_note_commitment (sx_outputs tx)"
  have cap: "length (ss_tree S) + length (sx_outputs tx) \<le> 2 ^ TREE_DEPTH"
    using assms capacity_iff [of "ss_tree S" "length (sx_outputs tx)"]
    by (auto simp: apply_with_verdict_shielded_def pool_ok_def split: if_splits)
  have acc: "v" "bt_contains (ss_anchors S) (sx_anchor tx)" "all_fresh (ss_nullifiers S) (sx_nullifiers tx)"
    "S' = record_anchor (S\<lparr>ss_nullifiers := ?nfs, ss_tree := ?t\<rparr>) (tree_root C ?t)"
    using assms(2) foldl_append_outputs [OF cap]
    by (auto simp: apply_with_verdict_shielded_def Let_def split: if_splits)
  show "v" "sx_anchor tx \<in> set (ss_anchor_order S)" "distinct (sx_nullifiers tx)" "set (sx_nullifiers tx) \<inter> bt_keys (ss_nullifiers S) = {}"
    using acc assms(1) by (auto simp: all_fresh_iff pool_ok_def)
  show "bt_keys (ss_nullifiers S') = bt_keys (ss_nullifiers S) \<union> set (sx_nullifiers tx)" "ss_tree S' = ?t"
    by (simp_all add: acc(4) keys_insert_all)
  have "window_ok (S\<lparr>ss_nullifiers := ?nfs, ss_tree := ?t\<rparr>)" using assms(1) by (simp add: pool_ok_def window_ok_def)
  note ra = record_anchor_order [OF this, of "tree_root C ?t"]
  from ra cap assms(1) show "pool_ok C S'"
    by (simp add: acc(4) pool_ok_def window_ok_def bt_ok_insert_all)
  show "set (ss_anchor_order S) \<subseteq> set (ss_anchor_order S')" if "length (ss_anchor_order S) < MAX_ANCHORS"
    using ra(1) that by (auto simp: acc(4))
qed

lemma apply_accepts:
  assumes "pool_ok C S" "sx_anchor tx \<in> set (ss_anchor_order S)" "distinct (sx_nullifiers tx)"
    "set (sx_nullifiers tx) \<inter> bt_keys (ss_nullifiers S) = {}" "length (ss_tree S) + length (sx_outputs tx) \<le> 2 ^ TREE_DEPTH"
  obtains S' where "apply_with_verdict_shielded C S tx True = (S', Inr ())"
proof -
  have "length (sx_outputs tx) < 2 ^ 64" using assms(5) by (simp add: TREE_DEPTH_def)
  then have "\<not> saturating_add (tree_size (ss_tree S)) (word_of_nat (length (sx_outputs tx)) :: u64) > 2 ^ TREE_DEPTH"
    using capacity_iff [of "ss_tree S" "length (sx_outputs tx)"] assms(1,5) by (simp add: pool_ok_def)
  then show ?thesis
    using that assms by (auto simp: apply_with_verdict_shielded_def Let_def all_fresh_iff pool_ok_def)
qed

lemma apply_rejected: "apply_with_verdict_shielded C S tx v = (S', Inl e) \<Longrightarrow> S' = S"
  by (auto simp: apply_with_verdict_shielded_def Let_def split: if_splits)

lemma mint_effect:
  assumes "pool_ok C S" "mint C S cm = (S', r)"
  shows "pool_ok C S'" "ss_nullifiers S' = ss_nullifiers S"
    "r = (if length (ss_tree S) < 2 ^ TREE_DEPTH then Some (word_of_nat (length (ss_tree S))) else None)"
    "ss_tree S' = (if length (ss_tree S) < 2 ^ TREE_DEPTH then ss_tree S @ [cm] else ss_tree S)"
proof -
  have full: "tree_is_full (ss_tree S) \<longleftrightarrow> \<not> length (ss_tree S) < 2 ^ TREE_DEPTH"
    using assms(1) tree_size_bound [of "ss_tree S"] by (auto simp: tree_is_full_def pool_ok_def TREE_DEPTH_def word_le_nat_alt)
  have "window_ok (S\<lparr>ss_tree := ss_tree S @ [cm]\<rparr>)" using assms(1) by (simp add: pool_ok_def window_ok_def)
  from record_anchor_order [OF this, of "tree_root C (ss_tree S @ [cm])"] assms full
  show "pool_ok C S'" "ss_nullifiers S' = ss_nullifiers S"
    "r = (if length (ss_tree S) < 2 ^ TREE_DEPTH then Some (word_of_nat (length (ss_tree S))) else None)"
    "ss_tree S' = (if length (ss_tree S) < 2 ^ TREE_DEPTH then ss_tree S @ [cm] else ss_tree S)"
    by (auto simp: mint_def tree_append_def tree_size_def pool_ok_def window_ok_def split: if_splits)
qed

lemma pool_ok_new: "pool_ok C (pool_new C)"
proof -
  let ?S = "\<lparr>ss_tree = [], ss_nullifiers = [], ss_anchors = [], ss_anchor_order = []\<rparr> :: shielded_state"
  have "window_ok ?S" by (simp add: window_ok_def bt_ok_def)
  from record_anchor_order [OF this, of "tree_root C []"] show ?thesis
    by (simp add: pool_new_def pool_ok_def window_ok_def bt_ok_def [of "[]"])
qed

section \<open>Every nullifier is spent once\<close>

datatype pool_op = PMint "byte list" | PSpend shielded_tx transparent_proof

text \<open>A run of the pool, with the transactions it accepted in order.\<close>

fun pool_run :: "('e, 'm, 's) crypto \<Rightarrow> commit_params \<Rightarrow> shielded_state \<Rightarrow> pool_op list \<Rightarrow> shielded_state \<times> shielded_tx list" where
  "pool_run C p S [] = (S, [])"
| "pool_run C p S (PMint cm # ops) = pool_run C p (fst (mint C S cm)) ops"
| "pool_run C p S (PSpend tx pf # ops) =
     (case apply_shielded_tx C S p tx pf of
        (S', Inl e) \<Rightarrow> pool_run C p S' ops
      | (S', Inr u) \<Rightarrow> (let (S'', acc) = pool_run C p S' ops in (S'', tx # acc)))"

lemma verified_few_outputs: "transparent_verify C pf p tx \<Longrightarrow> length (sx_outputs tx) < 2 ^ 64"
  by (auto simp: transparent_verify_iff MAX_NOTES_PER_TX_def Q_def)

lemma pool_run_once:
  assumes "pool_ok C S" "pool_run C p S ops = (S', acc)"
  shows "pool_ok C S' \<and> distinct (concat (map sx_nullifiers acc)) \<and>
    set (concat (map sx_nullifiers acc)) \<inter> bt_keys (ss_nullifiers S) = {} \<and>
    bt_keys (ss_nullifiers S') = bt_keys (ss_nullifiers S) \<union> set (concat (map sx_nullifiers acc))"
  using assms
proof (induction C p S ops arbitrary: acc rule: pool_run.induct)
  case (2 C p S cm ops)
  have m: "mint C S cm = (fst (mint C S cm), snd (mint C S cm))" by simp
  show ?case using "2.IH" [of acc] "2.prems" mint_effect(1,2) [OF "2.prems"(1) m] by simp
next
  case (3 C p S tx pf ops)
  obtain S1 r where S1: "apply_shielded_tx C S p tx pf = (S1, r)" by fastforce
  show ?case
  proof (cases r)
    case (Inl e)
    then have "S1 = S" using S1 apply_rejected by (auto simp: apply_shielded_tx_def)
    then show ?thesis using "3.IH"(1) [OF S1 [symmetric] Inl, of acc] "3.prems" S1 Inl by simp
  next
    case (Inr u)
    obtain S2 acc' where r: "pool_run C p S1 ops = (S2, acc')" by fastforce
    have S': "S' = S2" "acc = tx # acc'" using "3.prems"(2) S1 Inr r by simp_all
    have v: "transparent_verify C pf p tx"
      using S1 Inr by (auto simp: apply_shielded_tx_def apply_with_verdict_shielded_def split: if_splits)
    have "apply_with_verdict_shielded C S tx (transparent_verify C pf p tx) = (S1, Inr ())"
      using S1 Inr by (simp add: apply_shielded_tx_def)
    note acc = apply_accepted [OF "3.prems"(1) this verified_few_outputs [OF v]]
    show ?thesis
      using "3.IH"(2) [OF S1 [symmetric] Inr acc(7) r [folded S'(1)]] acc(3-5) by (auto simp: S'(2))
  qed
qed simp

text \<open>
  C26. Nullifiers are spent once. From the empty pool, over any sequence of mints and submitted
  transactions, the nullifiers revealed by all accepted transactions are pairwise distinct and are exactly
  the recorded ones; the anchor window keeps its set and its order in step, never exceeds 1024 roots and
  always holds the current root; and the tree never exceeds its capacity.
\<close>

theorem pool_spends_once:
  "case pool_run C p (pool_new C) ops of (S, acc) \<Rightarrow>
     distinct (concat (map sx_nullifiers acc)) \<and> bt_keys (ss_nullifiers S) = set (concat (map sx_nullifiers acc)) \<and>
     bt_keys (ss_anchors S) = set (ss_anchor_order S) \<and> distinct (ss_anchor_order S) \<and>
     length (ss_anchor_order S) \<le> MAX_ANCHORS \<and> is_valid_anchor S (pool_anchor C S) \<and> length (ss_tree S) \<le> 2 ^ TREE_DEPTH"
proof -
  obtain S acc where r: "pool_run C p (pool_new C) ops = (S, acc)" by fastforce
  have "ss_nullifiers (pool_new C) = []" by (simp add: pool_new_def)
  then show ?thesis
    using pool_run_once [OF pool_ok_new r] by (simp add: r pool_ok_def is_valid_anchor_def pool_anchor_def)
qed

section \<open>Spending one note at two indices\<close>

lemma alias_index:
  fixes i :: u64
  assumes "unat i < 2 ^ 32"
  shows "unat (i + 2 ^ 32) = unat i + 2 ^ 32" "i + 2 ^ 32 \<noteq> i"
proof -
  show "unat (i + 2 ^ 32) = unat i + 2 ^ 32" using assms by (simp add: unat_word_ariths)
  then show "i + 2 ^ 32 \<noteq> i" by auto
qed

lemma path_alias:
  assumes "length t \<le> 2 ^ TREE_DEPTH" "tree_path C t i = Some pth"
  shows "path_verify C (pth\<lparr>ap_index := i + 2 ^ 32\<rparr>) (t ! unat i) (tree_root C t)"
    "path_verify C pth (t ! unat i) (tree_root C t)" "ap_index pth = i" "unat i < length t"
proof -
  show lt: "unat i < length t"
    using assms tree_size_bound [of t] by (auto simp: tree_path_def word_le_nat_alt split: if_splits)
  obtain q where q: "tree_path C t i = Some q" "ap_index q = i" "length (ap_siblings q) = TREE_DEPTH"
    "path_verify C q (t ! unat i) (tree_root C t)"
    using tree_path_verifies [OF assms(1) lt] by blast
  then have eq: "q = pth" using assms(2) by simp
  have small: "unat i < 2 ^ 32" using lt assms(1) by (simp add: TREE_DEPTH_def)
  then show "path_verify C (pth\<lparr>ap_index := i + 2 ^ 32\<rparr>) (t ! unat i) (tree_root C t)"
    using path_verify_mod [of pth "i + 2 ^ 32" C] q alias_index(1) [OF small] by (simp add: eq)
  show "path_verify C pth (t ! unat i) (tree_root C t)" "ap_index pth = i" using q by (simp_all add: eq)
qed

text \<open>Spending the note at position \<open>i\<close> through the authentication path \<open>q\<close>.\<close>

abbreviation spend_at :: "shielded_note \<Rightarrow> byte list \<Rightarrow> byte list \<Rightarrow> auth_path \<Rightarrow> spend_input" where
  "spend_at n nsk seed q \<equiv> \<lparr>si_note = n, si_nsk = nsk, si_spend_seed = seed, si_path = q\<rparr>"

definition owned :: "('e, 'm, 's) crypto \<Rightarrow> ('e, 'm, 's) key_derivation \<Rightarrow> shielded_note \<Rightarrow> byte list \<Rightarrow> byte list \<Rightarrow> bool" where
  "owned C kd n nsk seed \<longleftrightarrow>
     is_owned_by C n nsk \<and> nt_auth n = spend_auth_commit C (snd (kd seed)) \<and> nt_value n < MAX_VALUE \<and> is_ternary (nt_value_r n)"

lemma owned_spendable:
  "owned C kd n nsk seed \<Longrightarrow> path_verify C q (note_commitment C p n) a \<Longrightarrow> spendable C kd p a (spend_at n nsk seed q)"
  by (simp add: owned_def spendable_def)

lemma single_transfer_verifies:
  assumes "build_transfer C kd p a [spend_at n nsk seed q] [out] 0 = Some (tx, pf)"
    and "vk_serialization C" "signing_correct C kd" "params_ok p" "owned C kd n nsk seed" "receivable out" "nt_value out = nt_value n"
    and "path_verify C q (note_commitment C p n) a"
  shows "transparent_verify C pf p tx" "sx_anchor tx = a" "sx_nullifiers tx = [note_nullifier C n nsk (ap_index q) p]"
    "length (sx_outputs tx) = 1"
proof -
  show "transparent_verify C pf p tx"
    using assms owned_spendable [OF assms(5,8)]
    by (intro built_verifies [OF assms(1) [unfolded build_transfer_def]])
       (auto simp: MAX_NOTES_PER_TX_def Q_def MAX_VALUE_def)
  show "sx_anchor tx = a" "sx_nullifiers tx = [note_nullifier C n nsk (ap_index q) p]" "length (sx_outputs tx) = 1"
    by (rule built_fields [OF assms(1) [unfolded build_transfer_def]], simp)+
qed

text \<open>
  C27. One note can be spent twice. The authentication path reads the low 32 bits of its 64-bit index and the
  nullifier hashes all 64, so the note at position \<open>i\<close> also verifies at index \<open>i + 2\<^sup>32\<close>, with another
  nullifier. For an owned note at position \<open>i\<close> of a pool whose window is not full, with room for two
  outputs and neither of its two nullifiers revealed yet, the honest transfer built with its path and the
  one built with the path re-indexed are both accepted, one after the other, unless the hashes of those two
  nullifiers happen to be the same.
\<close>

theorem note_spends_at_two_indices:
  assumes "pool_ok C S" "length (ss_anchor_order S) < MAX_ANCHORS" "length (ss_tree S) + 2 \<le> 2 ^ TREE_DEPTH"
    and "vk_serialization C" "signing_correct C kd" "params_ok p"
    and "pool_path C S i = Some pth" "ss_tree S ! unat i = note_commitment C p n"
    and "owned C kd n nsk seed" "receivable out" "nt_value out = nt_value n"
    and "\<not> nf_contains (ss_nullifiers S) (note_nullifier C n nsk i p)"
    and "\<not> nf_contains (ss_nullifiers S) (note_nullifier C n nsk (i + 2 ^ 32) p)"
    and "build_transfer C kd p (pool_anchor C S) [spend_at n nsk seed pth] [out] 0 = Some (tx1, pf1)"
    and "build_transfer C kd p (pool_anchor C S) [spend_at n nsk seed (pth\<lparr>ap_index := i + 2 ^ 32\<rparr>)] [out] 0 = Some (tx2, pf2)"
  shows "note_nullifier C n nsk i p = note_nullifier C n nsk (i + 2 ^ 32) p \<or>
    (\<exists>S1 S2. apply_shielded_tx C S p tx1 pf1 = (S1, Inr ()) \<and> apply_shielded_tx C S1 p tx2 pf2 = (S2, Inr ()))"
proof (cases "note_nullifier C n nsk i p = note_nullifier C n nsk (i + 2 ^ 32) p")
  case ne: False
  have cap: "length (ss_tree S) \<le> 2 ^ TREE_DEPTH" using assms(1) by (simp add: pool_ok_def)
  note pa = path_alias [OF cap assms(7) [unfolded pool_path_def]]
  note v1 = single_transfer_verifies [OF assms(14,4-6,9-11) pa(2) [unfolded assms(8), folded pool_anchor_def]]
  note v2 = single_transfer_verifies [OF assms(15,4-6,9-11) pa(1) [unfolded assms(8), folded pool_anchor_def]]
  obtain S1 where S1: "apply_with_verdict_shielded C S tx1 True = (S1, Inr ())"
    by (rule apply_accepts [OF assms(1), of tx1])
       (use assms(1,3,12) pa(3) v1 in \<open>auto simp: pool_ok_def pool_anchor_def nf_contains_def\<close>)
  have few: "length (sx_outputs tx1) < 2 ^ 64" using v1(4) by simp
  note a1 = apply_accepted [OF assms(1) S1 few]
  have root: "pool_anchor C S \<in> set (ss_anchor_order S1)" using assms(1,2) a1(8) by (auto simp: pool_ok_def pool_anchor_def)
  obtain S2 where S2: "apply_with_verdict_shielded C S1 tx2 True = (S2, Inr ())"
    by (rule apply_accepts [OF a1(7), of tx2])
       (use root assms(3,13) a1(5,6) ne pa(3) v1 v2 in \<open>auto simp: nf_contains_def\<close>)
  show ?thesis using S1 S2 v1(1) v2(1) by (simp add: apply_shielded_tx_def)
qed simp

abbreviation "toy_pool \<equiv> fst (mint id_crypto (pool_new id_crypto) (note_commitment id_crypto toy_params (toy_note 5)))"

lemma toy_owned: "v < MAX_VALUE \<Longrightarrow> owned id_crypto toy_kd (toy_note v) [1] seed" "v < MAX_VALUE \<Longrightarrow> receivable (toy_note v)"
  by (simp_all add: owned_def receivable_def toy_note_def is_owned_by_def toy_kd_def zero_randomness_def is_ternary_def list_all_length)

lemma toy_pool_facts:
  "pool_ok id_crypto toy_pool" "ss_tree toy_pool = [note_commitment id_crypto toy_params (toy_note 5)]" "ss_nullifiers toy_pool = []"
  "length (ss_anchor_order toy_pool) \<le> 2"
proof -
  have "ss_tree (pool_new id_crypto) = []" "ss_nullifiers (pool_new id_crypto) = []" by (simp_all add: pool_new_def)
  moreover have m: "mint id_crypto (pool_new id_crypto) cm = (fst (mint id_crypto (pool_new id_crypto) cm), snd (mint id_crypto (pool_new id_crypto) cm))"
    for cm by simp
  ultimately show "pool_ok id_crypto toy_pool" "ss_tree toy_pool = [note_commitment id_crypto toy_params (toy_note 5)]" "ss_nullifiers toy_pool = []"
    using mint_effect [OF pool_ok_new m] by simp_all
  have "length (ss_anchor_order (pool_new id_crypto)) \<le> 1"
    using record_anchor_order(1) [of "\<lparr>ss_tree = [], ss_nullifiers = [], ss_anchors = [], ss_anchor_order = []\<rparr>" "tree_root id_crypto []"]
    by (simp add: pool_new_def window_ok_def bt_ok_def MAX_ANCHORS_def)
  then show "length (ss_anchor_order toy_pool) \<le> 2"
    using record_anchor_order(1) [of "pool_new id_crypto\<lparr>ss_tree := ss_tree (pool_new id_crypto) @ [note_commitment id_crypto toy_params (toy_note 5)]\<rparr>"
        "tree_root id_crypto (ss_tree (pool_new id_crypto) @ [note_commitment id_crypto toy_params (toy_note 5)])"] pool_ok_new [of id_crypto]
    by (auto simp: mint_def tree_append_def pool_ok_def window_ok_def split: if_splits)
qed

theorem note_spends_at_two_indices_witness:
  "\<exists>tx1 pf1 tx2 pf2 S1 S2.
     apply_shielded_tx id_crypto toy_pool toy_params tx1 pf1 = (S1, Inr ()) \<and>
     apply_shielded_tx id_crypto S1 toy_params tx2 pf2 = (S2, Inr ())"
proof -
  note t = toy_pool_facts
  have v: "(5 :: u64) < MAX_VALUE" by (simp add: MAX_VALUE_def)
  obtain pth where pth: "pool_path id_crypto toy_pool 0 = Some pth"
    using tree_path_verifies [of "ss_tree toy_pool" 0 id_crypto] by (auto simp: t(2) pool_path_def TREE_DEPTH_def)
  obtain tx1 pf1 where b1: "build_transfer id_crypto toy_kd toy_params (pool_anchor id_crypto toy_pool)
      [spend_at (toy_note 5) [1] [] pth] [toy_note 5] 0 = Some (tx1, pf1)"
    using toy_builds by (fastforce simp: build_transfer_def)
  obtain tx2 pf2 where b2: "build_transfer id_crypto toy_kd toy_params (pool_anchor id_crypto toy_pool)
      [spend_at (toy_note 5) [1] [] (pth\<lparr>ap_index := 0 + 2 ^ 32\<rparr>)] [toy_note 5] 0 = Some (tx2, pf2)"
    using toy_builds by (fastforce simp: build_transfer_def)
  have ne: "note_nullifier id_crypto (toy_note 5) [1] 0 toy_params \<noteq> note_nullifier id_crypto (toy_note 5) [1] (0 + 2 ^ 32) toy_params"
  proof -
    have "put_word 8 (0 :: u64) \<noteq> put_word 8 (2 ^ 32 :: u64)" using u64.enc_inj [of 0 "2 ^ 32"] by auto
    then show ?thesis
      by (auto simp: note_nullifier_def nullifier_derive_def id_crypto_def hash_labeled_def simp del: power_numeral)
  qed
  have "note_nullifier id_crypto (toy_note 5) [1] 0 toy_params = note_nullifier id_crypto (toy_note 5) [1] (0 + 2 ^ 32) toy_params \<or>
    (\<exists>S1 S2. apply_shielded_tx id_crypto toy_pool toy_params tx1 pf1 = (S1, Inr ()) \<and>
      apply_shielded_tx id_crypto S1 toy_params tx2 pf2 = (S2, Inr ()))"
    by (rule note_spends_at_two_indices [OF t(1) _ _ id_instance pth _ toy_owned(1) [OF v] toy_owned(2) [OF v] _ _ _ b1 b2])
       (use t in \<open>simp_all add: MAX_ANCHORS_def TREE_DEPTH_def nf_contains_def\<close>)
  then show ?thesis using ne by blast
qed

section \<open>Outputs whose note is not the value that balances\<close>

text \<open>
  The owner of a spent note replaces the note commitment of the outputs and signs the result: the proof is
  left as it was.
\<close>

definition forge_outputs ::
    "('e, 'm, 's) crypto \<Rightarrow> ('e, 'm, 's) key_derivation \<Rightarrow> shielded_tx \<Rightarrow> byte list \<Rightarrow> byte list \<Rightarrow> shielded_tx" where
  "forge_outputs C kd tx seed cm =
     (let tx = tx\<lparr>sx_outputs := map (\<lambda>o'. o'\<lparr>on_note_commitment := cm\<rparr>) (sx_outputs tx)\<rparr>
      in tx\<lparr>sx_spend_auths := [hsig_to_bytes C (hybrid_sign (fst (kd seed)) (sighash C tx))]\<rparr>)"

lemma forged_verifies:
  assumes "build_transfer C kd p a [spend_at n nsk seed q] [out] 0 = Some (tx, pf)"
    and "vk_serialization C" "signing_correct C kd" "params_ok p" "owned C kd n nsk seed" "receivable out" "nt_value out = nt_value n"
    and "path_verify C q (note_commitment C p n) a"
  shows "transparent_verify C pf p (forge_outputs C kd tx seed cm)" "sx_anchor (forge_outputs C kd tx seed cm) = a"
    "sx_nullifiers (forge_outputs C kd tx seed cm) = [note_nullifier C n nsk (ap_index q) p]"
    "map on_note_commitment (sx_outputs (forge_outputs C kd tx seed cm)) = [cm]"
proof -
  let ?f = "forge_outputs C kd tx seed cm" and ?i = "[spend_at n nsk seed q]"
  obtain rs where rs: "length rs = length ?i" "list_all is_ternary rs"
    and f: "sx_anchor tx = a" "sx_fee tx = 0" "sx_public_value tx = 0" "sx_public_recipient tx = replicate 32 0"
    "sx_nullifiers tx = map (\<lambda>i. note_nullifier C (si_note i) (si_nsk i) (ap_index (si_path i)) p) ?i"
    "sx_input_values tx = map (\<lambda>(inp, r). commit p (nt_value (si_note inp)) r) (zip ?i rs)"
    "sx_outputs tx = map (\<lambda>n. \<lparr>on_note_commitment = note_commitment C p n, on_value_commitment = value_commitment p n, on_cipher = None\<rparr>) [out]"
    "sx_spend_auths tx = map (\<lambda>i. hsig_to_bytes C (hybrid_sign (fst (kd (si_spend_seed i))) (sighash C tx))) ?i"
    "tp_inputs pf = map (\<lambda>(i, r). \<lparr>io_note = si_note i, io_path = si_path i, io_nsk = si_nsk i,
       io_ak = vk_encode C (snd (kd (si_spend_seed i))), io_value_r_in = r\<rparr>) (zip ?i rs)"
    "tp_outputs pf = map (\<lambda>n. \<lparr>oo_value = nt_value n, oo_value_r = nt_value_r n\<rparr>) [out]"
    by (rule built_fields [OF assms(1) [unfolded build_transfer_def]])
  show "sx_anchor ?f = a" "sx_nullifiers ?f = [note_nullifier C n nsk (ap_index q) p]" "map on_note_commitment (sx_outputs ?f) = [cm]"
    by (simp_all add: forge_outputs_def Let_def f)
  show "transparent_verify C pf p ?f"
    using owned_spendable [OF assms(5,8)] assms(6,7)
    by (intro signed_tx_verifies [OF assms(2-4) _ _ _ _ _ _ rs _ _ _ _ f(9,10)])
       (simp_all add: forge_outputs_def Let_def f MAX_NOTES_PER_TX_def Q_def MAX_VALUE_def)
qed

text \<open>
  Value can be created inside the pool. No check ties an output's note commitment to the value
  commitment that balances. The owner of a note of any value can have its transfer accepted with the
  commitment of a second note of its own, of any value below the range bound, as the appended leaf; and
  the unshield of that second note, exiting its full value to any public account, is then accepted.
\<close>

theorem forged_output_unshields:
  assumes "pool_ok C S" "length (ss_tree S) + 1 \<le> 2 ^ TREE_DEPTH"
    and "vk_serialization C" "signing_correct C kd" "params_ok p"
    and "pool_path C S i = Some pth" "ss_tree S ! unat i = note_commitment C p n" "owned C kd n nsk seed"
    and "receivable out" "nt_value out = nt_value n" "\<not> nf_contains (ss_nullifiers S) (note_nullifier C n nsk i p)"
    and "build_transfer C kd p (pool_anchor C S) [spend_at n nsk seed pth] [out] 0 = Some (tx, pf)"
    and "owned C kd big nsk' seed'"
  shows "\<exists>S1. apply_shielded_tx C S p (forge_outputs C kd tx seed (note_commitment C p big)) pf = (S1, Inr ()) \<and>
    (\<forall>pth' rcp tx' pf'. pool_path C S1 (note_count S) = Some pth' \<and>
       \<not> nf_contains (ss_nullifiers S1) (note_nullifier C big nsk' (note_count S) p) \<and>
       build_unshield C kd p (pool_anchor C S1) [spend_at big nsk' seed' pth'] [] (nt_value big) rcp 0 = Some (tx', pf') \<longrightarrow>
       sx_public_value tx' = nt_value big \<and> (\<exists>S2. apply_shielded_tx C S1 p tx' pf' = (S2, Inr ())))"
proof -
  let ?f = "forge_outputs C kd tx seed (note_commitment C p big)"
  have cap: "length (ss_tree S) \<le> 2 ^ TREE_DEPTH" using assms(2) by simp
  note pa = path_alias [OF cap assms(6) [unfolded pool_path_def]]
  note v1 = forged_verifies [OF assms(12,3-5,8-10) pa(2) [unfolded assms(7), folded pool_anchor_def], of "note_commitment C p big"]
  have one: "length (sx_outputs ?f) = 1" using v1(4) by (metis length_map length_Cons list.size(3) One_nat_def)
  obtain S1 where S1: "apply_with_verdict_shielded C S ?f True = (S1, Inr ())"
    by (rule apply_accepts [OF assms(1), of ?f])
       (use assms(1,2,11) pa(3) v1 one in \<open>auto simp: pool_ok_def pool_anchor_def nf_contains_def\<close>)
  have few: "length (sx_outputs ?f) < 2 ^ 64" using one by simp
  note a1 = apply_accepted [OF assms(1) S1 few]
  have t1: "ss_tree S1 = ss_tree S @ [note_commitment C p big]" using a1(6) v1(4) by simp
  have "sx_public_value tx' = nt_value big \<and> (\<exists>S2. apply_shielded_tx C S1 p tx' pf' = (S2, Inr ()))"
    if a: "pool_path C S1 (note_count S) = Some pth'" "\<not> nf_contains (ss_nullifiers S1) (note_nullifier C big nsk' (note_count S) p)"
      and b: "build_unshield C kd p (pool_anchor C S1) [spend_at big nsk' seed' pth'] [] (nt_value big) rcp 0 = Some (tx', pf')"
    for pth' rcp tx' pf'
  proof -
    have cap1: "length (ss_tree S1) \<le> 2 ^ TREE_DEPTH" using assms(2) t1 by simp
    note pb = path_alias [OF cap1 a(1) [unfolded pool_path_def]]
    have "ss_tree S1 ! unat (note_count S) = note_commitment C p big"
      using tree_size_bound [OF cap] by (simp add: note_count_def t1)
    then have sp: "spendable C kd p (pool_anchor C S1) (spend_at big nsk' seed' pth')"
      using owned_spendable [OF assms(13)] pb(2) by (simp add: pool_anchor_def)
    have "nt_value big < MAX_VALUE" using assms(13) by (simp add: owned_def)
    then have v: "transparent_verify C pf' p tx'"
      using sp by (intro built_verifies [OF b [unfolded build_unshield_def] assms(3-5)])
         (simp_all add: MAX_NOTES_PER_TX_def Q_def MAX_VALUE_def)
    have f: "sx_anchor tx' = pool_anchor C S1" "sx_public_value tx' = nt_value big" "sx_outputs tx' = []"
      "sx_nullifiers tx' = [note_nullifier C big nsk' (ap_index pth') p]"
      by (rule built_fields [OF b [unfolded build_unshield_def]], simp)+
    obtain S2 where "apply_with_verdict_shielded C S1 tx' True = (S2, Inr ())"
      by (rule apply_accepts [OF a1(7), of tx'])
         (use a1(7) a(2) pb(3) cap1 f in \<open>auto simp: pool_ok_def pool_anchor_def nf_contains_def\<close>)
    then show ?thesis using v f(2) by (simp add: apply_shielded_tx_def)
  qed
  then show ?thesis using S1 v1(1) by (auto simp: apply_shielded_tx_def)
qed

theorem forged_output_unshields_witness:
  "\<exists>tx pf S1 tx' pf' S2. apply_shielded_tx id_crypto toy_pool toy_params (forge_outputs id_crypto toy_kd tx []
       (note_commitment id_crypto toy_params (toy_note 1000000))) pf = (S1, Inr ()) \<and>
     sx_public_value tx' = 1000000 \<and> apply_shielded_tx id_crypto S1 toy_params tx' pf' = (S2, Inr ())"
proof -
  note t = toy_pool_facts
  let ?big = "toy_note 1000000"
  have v: "(5 :: u64) < MAX_VALUE" "(1000000 :: u64) < MAX_VALUE" by (simp_all add: MAX_VALUE_def)
  obtain pth where pth: "pool_path id_crypto toy_pool 0 = Some pth"
    using tree_path_verifies [of "ss_tree toy_pool" 0 id_crypto] by (auto simp: t(2) pool_path_def TREE_DEPTH_def)
  obtain tx pf where b1: "build_transfer id_crypto toy_kd toy_params (pool_anchor id_crypto toy_pool)
      [spend_at (toy_note 5) [1] [] pth] [toy_note 5] 0 = Some (tx, pf)"
    using toy_builds by (fastforce simp: build_transfer_def)
  let ?f = "forge_outputs id_crypto toy_kd tx [] (note_commitment id_crypto toy_params ?big)"
  have "length (ss_tree toy_pool) + 1 \<le> 2 ^ TREE_DEPTH" "ss_tree toy_pool ! unat (0 :: u64) = note_commitment id_crypto toy_params (toy_note 5)"
    "\<not> nf_contains (ss_nullifiers toy_pool) (note_nullifier id_crypto (toy_note 5) [1] 0 toy_params)"
    by (simp_all add: t(2,3) TREE_DEPTH_def nf_contains_def)
  from forged_output_unshields [OF t(1) this(1) id_instance pth this(2) toy_owned(1) [OF v(1)] toy_owned(2) [OF v(1)] refl this(3) b1
      toy_owned(1) [OF v(2)], of "[]"]
  obtain S1 where S1: "apply_shielded_tx id_crypto toy_pool toy_params ?f pf = (S1, Inr ())"
    and exit: "\<And>pth' rcp tx' pf'. pool_path id_crypto S1 (note_count toy_pool) = Some pth' \<Longrightarrow>
      \<not> nf_contains (ss_nullifiers S1) (note_nullifier id_crypto ?big [1] (note_count toy_pool) toy_params) \<Longrightarrow>
      build_unshield id_crypto toy_kd toy_params (pool_anchor id_crypto S1) [spend_at ?big [1] [] pth'] [] (nt_value ?big) rcp 0 = Some (tx', pf') \<Longrightarrow>
      sx_public_value tx' = nt_value ?big \<and> (\<exists>S2. apply_shielded_tx id_crypto S1 toy_params tx' pf' = (S2, Inr ()))"
    by blast
  have cap: "length (ss_tree toy_pool) \<le> 2 ^ TREE_DEPTH" by (simp add: t(2) TREE_DEPTH_def)
  note pa = path_alias [OF cap pth [unfolded pool_path_def]]
  have opens: "path_verify id_crypto pth (note_commitment id_crypto toy_params (toy_note 5)) (pool_anchor id_crypto toy_pool)"
    using pa(2) by (simp add: pool_anchor_def t(2))
  note v1 = forged_verifies [OF b1 id_instance toy_owned(1) [OF v(1)] toy_owned(2) [OF v(1)] refl opens,
      of "note_commitment id_crypto toy_params ?big"]
  have app: "apply_with_verdict_shielded id_crypto toy_pool ?f True = (S1, Inr ())" using S1 v1(1) by (simp add: apply_shielded_tx_def)
  note a1 = apply_accepted [OF t(1) app verified_few_outputs [OF v1(1)]]
  have t1: "ss_tree S1 = [note_commitment id_crypto toy_params (toy_note 5), note_commitment id_crypto toy_params ?big]"
    using a1(6) v1(4) by (simp add: t(2))
  have c: "note_count toy_pool = 1" by (simp add: note_count_def tree_size_def t(2))
  obtain pth' where p': "pool_path id_crypto S1 (note_count toy_pool) = Some pth'"
    using tree_path_verifies [of "ss_tree S1" 1 id_crypto] by (auto simp: t1 c pool_path_def TREE_DEPTH_def)
  have "bt_keys (ss_nullifiers S1) = {note_nullifier id_crypto (toy_note 5) [1] 0 toy_params}"
    using a1(5) v1(3) pa(3) by (simp add: t(3))
  moreover have "note_nullifier id_crypto ?big [1] 1 toy_params \<noteq> note_nullifier id_crypto (toy_note 5) [1] 0 toy_params"
    by (simp add: note_nullifier_def nullifier_derive_def id_crypto_def hash_labeled_def labeled_hasher_def u64.enc_inj [OF TrueI TrueI])
       (metis append_eq_append_conv length_put_word u64.enc_inj zero_neq_one)
  ultimately have fresh: "\<not> nf_contains (ss_nullifiers S1) (note_nullifier id_crypto ?big [1] (note_count toy_pool) toy_params)"
    by (simp add: nf_contains_def c)
  obtain tx' pf' where b2: "build_unshield id_crypto toy_kd toy_params (pool_anchor id_crypto S1)
      [spend_at ?big [1] [] pth'] [] (nt_value ?big) [] 0 = Some (tx', pf')"
    using toy_builds by (fastforce simp: build_unshield_def)
  have "nt_value ?big = 1000000" by (simp add: toy_note_def)
  with exit [OF p' fresh b2] S1 show ?thesis by metis
qed

section \<open>Snapshots\<close>

lemma unit_pairs [simp]: "map (\<lambda>h. (h, ())) (map fst s) = s" for s :: "('a, unit) btree"
  by (simp add: comp_def) (rule map_idI, simp add: prod_eq_iff)

lemma nf_from_to:
  assumes "bt_ok s" "list_all (\<lambda>h. length h = 32) (map fst s)" "length s < 2 ^ 32"
  shows "nf_from_bytes (nf_to_bytes s) = Some s"
  using rd_hashes_put [OF assms(2), of "[]"] assms(1,3) unit_pairs [of s]
  by (simp add: nf_from_bytes_def nf_to_bytes_def bt_collect_sorted del: unit_pairs)

lemma bt_collect_keys: "bt_keys (bt_collect es) = fst ` set es"
proof -
  have "bt_keys (foldl (\<lambda>m e. bt_insert (fst e) (snd e) m) m es) = bt_keys m \<union> fst ` set es" for m :: "('a::linorder, 'b) btree"
    by (induction es arbitrary: m) (auto simp: image_iff)
  then show ?thesis by (simp add: bt_collect_def)
qed

lemma unit_btree_eqI: "bt_ok s \<Longrightarrow> bt_ok t \<Longrightarrow> bt_keys s = bt_keys t \<Longrightarrow> s = t" for s t :: "('a::linorder, unit) btree"
proof -
  assume "bt_ok s" "bt_ok t" "bt_keys s = bt_keys t"
  then have "map fst s = map fst t" by (metis bt_ok_def list.set_map strict_sorted_equal)
  then show "s = t" by (metis unit_pairs)
qed

text \<open>The sizes a pool can have for its snapshot: 32-byte hashes and frames below \<open>2\<^sup>32\<close> bytes.\<close>

definition pool_wf :: "shielded_state \<Rightarrow> bool" where
  "pool_wf S \<longleftrightarrow>
     list_all (\<lambda>h. length h = 32) (ss_tree S @ map fst (ss_nullifiers S) @ ss_anchor_order S) \<and>
     4 + 32 * length (ss_tree S) < 2 ^ 32 \<and> 4 + 32 * length (ss_nullifiers S) < 2 ^ 32"

lemma length_put_hashes: "list_all (\<lambda>h. length h = 32) hs \<Longrightarrow> length (put_hashes hs) = 4 + 32 * length hs"
  by (simp add: put_hashes_def concat_hashes)

lemma pool_from_to:
  assumes "pool_ok C S" "pool_wf S"
  shows "pool_from_bytes (pool_to_bytes S) = Some S"
proof -
  have w: "list_all (\<lambda>h. length h = 32) (ss_tree S)" "list_all (\<lambda>h. length h = 32) (map fst (ss_nullifiers S))"
    "list_all (\<lambda>h. length h = 32) (ss_anchor_order S)" "length (ss_tree S) < 2 ^ 32" "length (ss_nullifiers S) < 2 ^ 32"
    using assms(2) by (auto simp: pool_wf_def)
  have len: "length (tree_to_bytes (ss_tree S)) < 2 ^ 32" "length (nf_to_bytes (ss_nullifiers S)) < 2 ^ 32"
    using assms(2) w length_put_hashes [of "ss_tree S"] length_put_hashes [of "map fst (ss_nullifiers S)"]
    by (auto simp: tree_to_bytes_def nf_to_bytes_def pool_wf_def)
  have ord: "length (ss_anchor_order S) \<le> MAX_ANCHORS" "length (ss_anchor_order S) < 2 ^ 32"
    using assms(1) by (auto simp: pool_ok_def MAX_ANCHORS_def)
  have anc: "bt_collect (map (\<lambda>a. (a, ())) (ss_anchor_order S)) = ss_anchors S"
    using assms(1) by (intro unit_btree_eqI) (auto simp: bt_ok_collect bt_collect_keys image_image pool_ok_def)
  have nf: "nf_from_bytes (nf_to_bytes (ss_nullifiers S)) = Some (ss_nullifiers S)"
    by (rule nf_from_to) (use assms(1) w in \<open>simp_all add: pool_ok_def\<close>)
  show ?thesis
    using tree_from_to [OF w(1,4)] nf var_bytes.dec_enc [OF len(1)] var_bytes.dec_enc [OF len(2)]
      rd_hashes_put [OF w(3) ord(2), of "[]"] ord(1) anc
    by (simp add: pool_from_bytes_def pool_to_bytes_def)
qed

text \<open>
  The state root does not commit to the order of the anchors. A snapshot of a pool whose window order
  has been permuted restores to a pool with the same state root as the original; and when the window is
  full, minting the same note then evicts another anchor and the two pools accept different spends: any
  permutation that moves the oldest anchor makes the first still accepted after the mint by one pool
  and unknown to the other.
\<close>

theorem anchor_order_uncommitted:
  assumes "pool_ok C S" "pool_wf S" "ss_anchor_order S = a # rest @ [b]" "length (ss_anchor_order S) = MAX_ANCHORS"
    and "length (ss_tree S) < 2 ^ TREE_DEPTH" "tree_root C (ss_tree S @ [cm]) \<notin> set (ss_anchor_order S)"
  shows "\<exists>T. pool_from_bytes (pool_to_bytes (S\<lparr>ss_anchor_order := b # rest @ [a]\<rparr>)) = Some T \<and>
    pool_root C T = pool_root C S \<and>
    \<not> is_valid_anchor (fst (mint C S cm)) a \<and> is_valid_anchor (fst (mint C T cm)) a"
proof -
  let ?T = "S\<lparr>ss_anchor_order := b # rest @ [a]\<rparr>"
  have eq: "set (b # rest @ [a]) = set (ss_anchor_order S)" "distinct (b # rest @ [a])" "length (b # rest @ [a]) = MAX_ANCHORS"
    using assms(1,3,4) by (auto simp: pool_ok_def)
  have ok: "pool_ok C ?T" using assms(1) eq by (simp add: pool_ok_def)
  have wf: "pool_wf ?T" using assms(2) by (auto simp: pool_wf_def assms(3))
  have root: "pool_root C ?T = pool_root C S" by (simp add: pool_root_def anchor_set_root_def)
  have val: "is_valid_anchor (fst (mint C X cm)) a \<longleftrightarrow> a \<in> set (tl (ss_anchor_order X))"
    if X: "pool_ok C X" "ss_tree X = ss_tree S" "length (ss_anchor_order X) = MAX_ANCHORS" "set (ss_anchor_order X) = set (ss_anchor_order S)" for X
  proof -
    let ?X = "X\<lparr>ss_tree := ss_tree S @ [cm]\<rparr>" and ?rt = "tree_root C (ss_tree S @ [cm])"
    have win: "window_ok ?X" using X(1) by (simp add: pool_ok_def window_ok_def)
    have "\<not> tree_is_full (ss_tree S)"
      using assms(5) tree_size_bound [of "ss_tree S"] by (simp add: tree_is_full_def TREE_DEPTH_def word_le_nat_alt)
    then have "fst (mint C X cm) = record_anchor ?X ?rt" using X(2) by (simp add: mint_def tree_append_def)
    moreover have "ss_anchor_order (record_anchor ?X ?rt) = tl (ss_anchor_order X) @ [?rt]"
      using record_anchor_order(1) [OF win, of ?rt] assms(6) X(3,4) by simp
    moreover have "bt_keys (ss_anchors (record_anchor ?X ?rt)) = set (ss_anchor_order (record_anchor ?X ?rt))"
      using record_anchor_order(2) [OF win, of ?rt] by (simp add: window_ok_def)
    moreover have "a \<noteq> ?rt" using assms(3,6) by auto
    ultimately show ?thesis by (simp add: is_valid_anchor_def)
  qed
  have "a \<notin> set (rest @ [b])" using assms(1,3) by (auto simp: pool_ok_def)
  then show ?thesis
    using pool_from_to [OF ok wf] root val [OF assms(1) refl assms(4) refl] val [OF ok] eq by (simp add: assms(3))
qed

text \<open>A full window over the toy hash, whose tree root is its first leaf.\<close>

definition toy_anchors :: "byte list list" where
  "toy_anchors = map (\<lambda>i. be_bytes 32 i) [0..<1024]"

definition full_pool :: shielded_state where
  "full_pool = \<lparr>ss_tree = [], ss_nullifiers = [], ss_anchors = bt_collect (map (\<lambda>a. (a, ())) toy_anchors), ss_anchor_order = toy_anchors\<rparr>"

lemma toy_node_hash: "length l = 32 \<Longrightarrow> node_hash toy_crypto l r = l"
  by (simp add: node_hash_def hash_labeled_def labeled_hasher_def toy_crypto_def TREE_NODE_LABEL_def ascii_def)

lemma toy_perfect_root: "(\<And>i. length (f i) = 32) \<Longrightarrow> perfect_root toy_crypto d f = f 0"
  by (induction d arbitrary: f) (simp_all add: toy_node_hash)

lemma be_bytes_zero: "be_bytes n 0 = replicate n 0"
  by (induction n) (simp_all add: replicate_append_same)

lemma toy_empty_leaf: "hash_labeled toy_crypto EMPTY_LEAF_LABEL [] = be_bytes 32 0"
  by (simp add: be_bytes_zero hash_labeled_def labeled_hasher_def toy_crypto_def EMPTY_LEAF_LABEL_def ascii_def)

lemma toy_tree_root:
  assumes "list_all (\<lambda>l. length l = 32) t" "length t \<le> 2 ^ TREE_DEPTH"
  shows "tree_root toy_crypto t = (case t of [] \<Rightarrow> be_bytes 32 0 | x # _ \<Rightarrow> x)"
proof -
  have "length (padded toy_crypto 0 t i) = 32" for i
    using assms(1) by (simp add: padded_def list_all_length toy_empty_leaf)
  then have "tree_root toy_crypto t = padded toy_crypto 0 t 0"
    by (simp add: tree_root_perfect [OF assms(2)] toy_perfect_root)
  then show ?thesis by (simp add: padded_def toy_empty_leaf split: list.splits)
qed

lemma be_bytes_inj: "i < 256 ^ n \<Longrightarrow> j < 256 ^ n \<Longrightarrow> be_bytes n i = be_bytes n j \<Longrightarrow> i = j"
  by (metis from_be_be_bytes_small)

lemma full_pool_ok: "pool_ok toy_crypto full_pool" "pool_wf full_pool"
proof -
  have "inj_on (be_bytes 32) {0..<1024}"
    by (rule inj_onI, rule be_bytes_inj [of _ 32]) (auto elim: less_trans)
  then have "distinct toy_anchors" by (simp add: toy_anchors_def distinct_map)
  moreover have "tree_root toy_crypto [] \<in> set toy_anchors" by (force simp: toy_tree_root toy_anchors_def)
  ultimately show "pool_ok toy_crypto full_pool"
    by (simp add: full_pool_def pool_ok_def bt_ok_collect bt_collect_keys image_image bt_ok_def [of "[]"])
       (simp add: toy_anchors_def MAX_ANCHORS_def)
  show "pool_wf full_pool" by (simp add: full_pool_def pool_wf_def toy_anchors_def list_all_length)
qed

theorem anchor_order_uncommitted_witness:
  "\<exists>T. pool_root toy_crypto T = pool_root toy_crypto full_pool \<and>
     \<not> is_valid_anchor (fst (mint toy_crypto full_pool (be_bytes 32 2000))) (be_bytes 32 0) \<and>
     is_valid_anchor (fst (mint toy_crypto T (be_bytes 32 2000))) (be_bytes 32 0)"
proof -
  have o: "ss_anchor_order full_pool = be_bytes 32 0 # map (be_bytes 32) [1..<1023] @ [be_bytes 32 1023]"
  proof -
    have "[0..<1024] = 0 # [1..<1023] @ [1023 :: nat]"
      by (subst upt_conv_Cons) (simp_all add: upt_Suc_append [of 1 1023, simplified])
    then show ?thesis by (simp only: full_pool_def shielded_state.simps toy_anchors_def list.map map_append)
  qed
  have new: "tree_root toy_crypto (ss_tree full_pool @ [be_bytes 32 2000]) \<notin> set (ss_anchor_order full_pool)"
  proof
    assume "tree_root toy_crypto (ss_tree full_pool @ [be_bytes 32 2000]) \<in> set (ss_anchor_order full_pool)"
    then obtain i where "i < 1024" "be_bytes 32 2000 = be_bytes 32 i"
      by (auto simp: full_pool_def toy_tree_root TREE_DEPTH_def toy_anchors_def)
    then show False using be_bytes_inj [of 2000 32 i] by simp
  qed
  have "length (ss_anchor_order full_pool) = MAX_ANCHORS" "length (ss_tree full_pool) < 2 ^ TREE_DEPTH"
    by (simp_all add: full_pool_def toy_anchors_def MAX_ANCHORS_def)
  from anchor_order_uncommitted [OF full_pool_ok o this new] show ?thesis by blast
qed

end
