(* ===== verification/Obolos_Wire.thy ===== *)
theory Obolos_Wire
  imports Obolos_Pool
begin

text \<open>
  The wire encoding of shielded transactions, their transparent proofs and the ledger submission that
  carries both (\<open>fanos-obolos/src/codec.rs\<close>, with the cipher frame of \<open>note_cipher.rs\<close>). Every vector has
  a 32-bit count written with a truncating cast.
\<close>

section \<open>Encoders and readers\<close>

definition cast_u32 :: "nat \<Rightarrow> u32" where
  "cast_u32 n = word_of_nat n"

definition put_vec :: "('a \<Rightarrow> byte list) \<Rightarrow> 'a list \<Rightarrow> byte list" where
  "put_vec f xs = put_u32 (cast_u32 (length xs)) @ concat (map f xs)"

definition read_vec :: "'a reader \<Rightarrow> 'a list reader" where
  "read_vec f bs = do { (count, r) \<leftarrow> rd_u32 bs; rd_rep (unat count) f r }"

definition put_framed :: "byte list \<Rightarrow> byte list" where
  "put_framed b = put_u32 (cast_u32 (length b)) @ b"

definition get_commitment :: "commitment reader" where
  "get_commitment bs = do { (b, r) \<leftarrow> rd_take COMMITMENT_LEN bs; c \<leftarrow> cm_from_bytes b; Some (c, r) }"

definition get_randomness :: "randomness reader" where
  "get_randomness bs = do { (b, r) \<leftarrow> rd_take RANDOMNESS_LEN bs; x \<leftarrow> rand_from_bytes b; Some (x, r) }"

definition put_note :: "shielded_note \<Rightarrow> byte list" where
  "put_note n = put_u64 (nt_value n) @ nt_owner n @ nt_auth n @ rand_to_bytes (nt_value_r n) @ nt_rho n"

definition get_note :: "shielded_note reader" where
  "get_note bs = do {
     (v, r) \<leftarrow> rd_u64 bs; (ow, r) \<leftarrow> rd_take 32 r; (au, r) \<leftarrow> rd_take 32 r;
     (x, r) \<leftarrow> get_randomness r; (rho, r) \<leftarrow> rd_take 32 r;
     Some (\<lparr>nt_value = v, nt_owner = ow, nt_auth = au, nt_value_r = x, nt_rho = rho\<rparr>, r) }"

definition put_auth_path :: "auth_path \<Rightarrow> byte list" where
  "put_auth_path p = put_u64 (ap_index p) @ concat (ap_siblings p)"

definition get_auth_path :: "auth_path reader" where
  "get_auth_path bs = do {
     (i, r) \<leftarrow> rd_u64 bs; (sibs, r) \<leftarrow> rd_rep TREE_DEPTH (rd_take 32) r;
     Some (\<lparr>ap_index = i, ap_siblings = sibs\<rparr>, r) }"


definition cipher_to_bytes :: "note_cipher \<Rightarrow> byte list" where
  "cipher_to_bytes c = nc_kem_ct c @ nc_aead_ct c"

definition cipher_from_bytes :: "byte list \<Rightarrow> note_cipher option" where
  "cipher_from_bytes bs = do {
     (k, a) \<leftarrow> rd_take CIPHERTEXT_LEN bs; Some \<lparr>nc_kem_ct = k, nc_aead_ct = a\<rparr> }"

definition put_output :: "output_note \<Rightarrow> byte list" where
  "put_output o' =
     on_note_commitment o' @ cm_to_bytes (on_value_commitment o') @
     (case on_cipher o' of Some c \<Rightarrow> 1 # put_framed (cipher_to_bytes c) | None \<Rightarrow> [0])"

definition get_cipher :: "note_cipher option reader" where
  "get_cipher bs = do {
     (tag, r) \<leftarrow> rd_byte bs;
     if tag = 0 then Some (None, r)
     else if tag = 1 then do { (b, r) \<leftarrow> rd_var_bytes r; c \<leftarrow> cipher_from_bytes b; Some (Some c, r) }
     else None }"

definition get_output :: "output_note reader" where
  "get_output bs = do {
     (nc, r) \<leftarrow> rd_take 32 bs; (vc, r) \<leftarrow> get_commitment r; (ci, r) \<leftarrow> get_cipher r;
     Some (\<lparr>on_note_commitment = nc, on_value_commitment = vc, on_cipher = ci\<rparr>, r) }"

definition stx_to_bytes :: "shielded_tx \<Rightarrow> byte list" where
  "stx_to_bytes tx =
     sx_anchor tx @ put_vec (\<lambda>nf. nf) (sx_nullifiers tx) @ put_vec cm_to_bytes (sx_input_values tx) @
     put_vec put_output (sx_outputs tx) @ put_u64 (sx_fee tx) @ put_u64 (sx_public_value tx) @ sx_public_recipient tx @
     put_vec put_framed (sx_spend_auths tx)"

definition stx_from_bytes :: "byte list \<Rightarrow> shielded_tx option" where
  "stx_from_bytes bs = do {
     (an, r) \<leftarrow> rd_take 32 bs;
     (nfs, r) \<leftarrow> read_vec (rd_take 32) r;
     (ivs, r) \<leftarrow> read_vec get_commitment r;
     (outs, r) \<leftarrow> read_vec get_output r;
     (fee, r) \<leftarrow> rd_u64 r;
     (pv, r) \<leftarrow> rd_u64 r;
     (pr, r) \<leftarrow> rd_take 32 r;
     (auths, r) \<leftarrow> read_vec rd_var_bytes r;
     if r \<noteq> [] then None
     else Some \<lparr>sx_anchor = an, sx_nullifiers = nfs, sx_input_values = ivs, sx_outputs = outs, sx_fee = fee,
                sx_public_value = pv, sx_public_recipient = pr, sx_spend_auths = auths\<rparr> }"

definition put_input_opening :: "input_opening \<Rightarrow> byte list" where
  "put_input_opening i =
     put_note (io_note i) @ put_auth_path (io_path i) @ io_nsk i @ put_framed (io_ak i) @ rand_to_bytes (io_value_r_in i)"

definition get_input_opening :: "input_opening reader" where
  "get_input_opening bs = do {
     (n, r) \<leftarrow> get_note bs; (p, r) \<leftarrow> get_auth_path r; (k, r) \<leftarrow> rd_take 32 r; (ak, r) \<leftarrow> rd_var_bytes r; (x, r) \<leftarrow> get_randomness r;
     Some (\<lparr>io_note = n, io_path = p, io_nsk = k, io_ak = ak, io_value_r_in = x\<rparr>, r) }"

definition put_output_opening :: "output_opening \<Rightarrow> byte list" where
  "put_output_opening o' = put_u64 (oo_value o') @ rand_to_bytes (oo_value_r o')"

definition get_output_opening :: "output_opening reader" where
  "get_output_opening bs = do {
     (v, r) \<leftarrow> rd_u64 bs; (x, r) \<leftarrow> get_randomness r; Some (\<lparr>oo_value = v, oo_value_r = x\<rparr>, r) }"

definition proof_to_bytes :: "transparent_proof \<Rightarrow> byte list" where
  "proof_to_bytes pf = put_vec put_input_opening (tp_inputs pf) @ put_vec put_output_opening (tp_outputs pf)"

definition proof_from_bytes :: "byte list \<Rightarrow> transparent_proof option" where
  "proof_from_bytes bs = do {
     (is, r) \<leftarrow> read_vec get_input_opening bs;
     (os, r) \<leftarrow> read_vec get_output_opening r;
     if r \<noteq> [] then None else Some \<lparr>tp_inputs = is, tp_outputs = os\<rparr> }"

definition encode_submission :: "shielded_tx \<Rightarrow> transparent_proof \<Rightarrow> byte list" where
  "encode_submission tx pf = put_framed (stx_to_bytes tx) @ proof_to_bytes pf"

definition decode_submission :: "byte list \<Rightarrow> (shielded_tx \<times> transparent_proof) option" where
  "decode_submission bs = do {
     (tb, r) \<leftarrow> rd_var_bytes bs;
     tx \<leftarrow> stx_from_bytes tb;
     pf \<leftarrow> proof_from_bytes r;
     Some (tx, pf) }"

section \<open>The laws of the components\<close>

lemma unat_cast_u32 [simp]: "n < 2 ^ 32 \<Longrightarrow> unat (cast_u32 n) = n"
  by (simp add: cast_u32_def unat_of_nat take_bit_eq_mod)

lemma cast_u32_unat [simp]: "cast_u32 (unat w) = w"
  by (simp add: cast_u32_def)

lemma codec_vec:
  assumes "codec enc dec ok"
  shows "codec (put_vec enc) (read_vec dec) (\<lambda>xs. length xs < 2 ^ 32 \<and> list_all ok xs)"
proof (rule codecI)
  fix bs xs r
  show "read_vec dec bs = Some (xs, r) \<longleftrightarrow> (length xs < 2 ^ 32 \<and> list_all ok xs) \<and> bs = put_vec enc xs @ r"
  proof
    assume "read_vec dec bs = Some (xs, r)"
    then obtain n where n: "bs = put_u32 n @ concat (map enc xs) @ r" "length xs = unat n" "list_all ok xs"
      by (auto simp: read_vec_def bind_eq_Some_conv codec_simps codec.rep_iff [OF assms])
    then show "(length xs < 2 ^ 32 \<and> list_all ok xs) \<and> bs = put_vec enc xs @ r"
      using unat_lt [of n] by (simp add: put_vec_def)
  next
    assume a: "(length xs < 2 ^ 32 \<and> list_all ok xs) \<and> bs = put_vec enc xs @ r"
    then have "rd_rep (length xs) dec (concat (map enc xs) @ r) = Some (xs, r)"
      by (simp add: codec.rep_iff [OF assms])
    then show "read_vec dec bs = Some (xs, r)" using a by (simp add: read_vec_def put_vec_def)
  qed
qed

lemma put_framed_var: "length b < 2 ^ 32 \<Longrightarrow> put_framed b = put_var_bytes b"
  by (simp add: put_framed_def put_var_bytes_def cast_u32_def len_u32_def)

interpretation framed: codec put_framed rd_var_bytes "\<lambda>b. length b < 2 ^ 32"
  by (rule codecI) (use put_framed_var in \<open>auto simp: var_bytes.dec_iff\<close>)

interpretation commitment_codec: codec cm_to_bytes get_commitment cm_wf
  by (rule codecI) (auto simp: get_commitment_def bind_eq_Some_conv codec_simps rd_take_iff)

interpretation randomness_codec: codec rand_to_bytes get_randomness is_ternary
  by (rule codecI) (auto simp: get_randomness_def bind_eq_Some_conv codec_simps rd_take_iff)

definition note_wf :: "shielded_note \<Rightarrow> bool" where
  "note_wf n \<longleftrightarrow> length (nt_owner n) = 32 \<and> length (nt_auth n) = 32 \<and> length (nt_rho n) = 32 \<and> is_ternary (nt_value_r n)"

interpretation note_codec: codec put_note get_note note_wf
  by unfold_locales
     (simp add: get_note_def put_note_def note_wf_def randomness_codec.dec_enc,
      auto simp: get_note_def put_note_def note_wf_def bind_eq_Some_conv codec_simps randomness_codec.dec_iff)

definition path_wf :: "auth_path \<Rightarrow> bool" where
  "path_wf p \<longleftrightarrow> length (ap_siblings p) = TREE_DEPTH \<and> list_all (\<lambda>s. length s = 32) (ap_siblings p)"

interpretation path_codec: codec put_auth_path get_auth_path path_wf
proof unfold_locales
  fix p r assume "path_wf p"
  then show "get_auth_path (put_auth_path p @ r) = Some (p, r)"
    using bytes32.rep_iff [of TREE_DEPTH "concat (ap_siblings p) @ r" "ap_siblings p" r]
    by (simp add: get_auth_path_def put_auth_path_def path_wf_def)
qed (auto simp: get_auth_path_def put_auth_path_def path_wf_def bind_eq_Some_conv codec_simps bytes32.rep_iff)

definition cipher_wf :: "note_cipher option \<Rightarrow> bool" where
  "cipher_wf c \<longleftrightarrow> (case c of None \<Rightarrow> True | Some c \<Rightarrow> length (nc_kem_ct c) = CIPHERTEXT_LEN \<and> length (cipher_to_bytes c) < 2 ^ 32)"

lemma cipher_from_bytes_iff:
  "cipher_from_bytes bs = Some c \<longleftrightarrow> length (nc_kem_ct c) = CIPHERTEXT_LEN \<and> bs = cipher_to_bytes c"
  by (auto simp: cipher_from_bytes_def bind_eq_Some_conv rd_take_iff cipher_to_bytes_def)

lemma cipher_from_to [simp]: "length (nc_kem_ct c) = CIPHERTEXT_LEN \<Longrightarrow> cipher_from_bytes (cipher_to_bytes c) = Some c"
  by (simp add: cipher_from_bytes_iff)

interpretation cipher_codec: codec "\<lambda>c. case c of Some c \<Rightarrow> 1 # put_framed (cipher_to_bytes c) | None \<Rightarrow> [0]" get_cipher cipher_wf
proof unfold_locales
  fix c r assume "cipher_wf c"
  then show "get_cipher ((case c of Some c \<Rightarrow> 1 # put_framed (cipher_to_bytes c) | None \<Rightarrow> [0]) @ r) = Some (c, r)"
    by (cases c) (auto simp: get_cipher_def cipher_wf_def framed.dec_enc)
qed (auto simp: get_cipher_def bind_eq_Some_conv codec_simps framed.dec_iff cipher_from_bytes_iff cipher_wf_def split: if_splits)

definition output_wf :: "output_note \<Rightarrow> bool" where
  "output_wf o' \<longleftrightarrow> length (on_note_commitment o') = 32 \<and> cm_wf (on_value_commitment o') \<and> cipher_wf (on_cipher o')"

interpretation output_codec: codec put_output get_output output_wf
  by unfold_locales
     (simp add: get_output_def put_output_def output_wf_def commitment_codec.dec_enc cipher_codec.dec_enc,
      auto simp: get_output_def put_output_def output_wf_def bind_eq_Some_conv codec_simps commitment_codec.dec_iff cipher_codec.dec_iff)

definition input_opening_wf :: "input_opening \<Rightarrow> bool" where
  "input_opening_wf i \<longleftrightarrow>
     note_wf (io_note i) \<and> path_wf (io_path i) \<and> length (io_nsk i) = 32 \<and> length (io_ak i) < 2 ^ 32 \<and> is_ternary (io_value_r_in i)"

interpretation input_opening_codec: codec put_input_opening get_input_opening input_opening_wf
  by unfold_locales
     (simp add: get_input_opening_def put_input_opening_def input_opening_wf_def note_codec.dec_enc path_codec.dec_enc
        framed.dec_enc randomness_codec.dec_enc,
      auto simp: get_input_opening_def put_input_opening_def input_opening_wf_def bind_eq_Some_conv codec_simps note_codec.dec_iff
        path_codec.dec_iff framed.dec_iff randomness_codec.dec_iff)

interpretation output_opening_codec: codec put_output_opening get_output_opening "\<lambda>o'. is_ternary (oo_value_r o')"
  by unfold_locales
     (simp add: get_output_opening_def put_output_opening_def randomness_codec.dec_enc,
      auto simp: get_output_opening_def put_output_opening_def bind_eq_Some_conv codec_simps randomness_codec.dec_iff)

interpretation hashes_vec: codec "put_vec (\<lambda>nf. nf)" "read_vec (rd_take 32)" "\<lambda>xs. length xs < 2 ^ 32 \<and> list_all (\<lambda>b. length b = 32) xs"
  by (rule codec_vec [OF bytes32.codec_axioms])

interpretation commitments_vec: codec "put_vec cm_to_bytes" "read_vec get_commitment" "\<lambda>xs. length xs < 2 ^ 32 \<and> list_all cm_wf xs"
  by (rule codec_vec [OF commitment_codec.codec_axioms])

interpretation outputs_vec: codec "put_vec put_output" "read_vec get_output" "\<lambda>xs. length xs < 2 ^ 32 \<and> list_all output_wf xs"
  by (rule codec_vec [OF output_codec.codec_axioms])

interpretation auths_vec: codec "put_vec put_framed" "read_vec rd_var_bytes" "\<lambda>xs. length xs < 2 ^ 32 \<and> list_all (\<lambda>b. length b < 2 ^ 32) xs"
  by (rule codec_vec [OF framed.codec_axioms])

interpretation inputs_vec: codec "put_vec put_input_opening" "read_vec get_input_opening"
    "\<lambda>xs. length xs < 2 ^ 32 \<and> list_all input_opening_wf xs"
  by (rule codec_vec [OF input_opening_codec.codec_axioms])

interpretation out_openings_vec: codec "put_vec put_output_opening" "read_vec get_output_opening"
    "\<lambda>xs. length xs < 2 ^ 32 \<and> list_all (\<lambda>o'. is_ternary (oo_value_r o')) xs"
  by (rule codec_vec [OF output_opening_codec.codec_axioms])

lemmas vec_iffs = hashes_vec.dec_iff commitments_vec.dec_iff outputs_vec.dec_iff auths_vec.dec_iff inputs_vec.dec_iff out_openings_vec.dec_iff

section \<open>Transactions and submissions\<close>

definition stx_wf :: "shielded_tx \<Rightarrow> bool" where
  "stx_wf tx \<longleftrightarrow>
     length (sx_anchor tx) = 32 \<and> length (sx_public_recipient tx) = 32 \<and>
     length (sx_nullifiers tx) < 2 ^ 32 \<and> list_all (\<lambda>b. length b = 32) (sx_nullifiers tx) \<and>
     length (sx_input_values tx) < 2 ^ 32 \<and> list_all cm_wf (sx_input_values tx) \<and>
     length (sx_outputs tx) < 2 ^ 32 \<and> list_all output_wf (sx_outputs tx) \<and>
     length (sx_spend_auths tx) < 2 ^ 32 \<and> list_all (\<lambda>b. length b < 2 ^ 32) (sx_spend_auths tx)"

definition proof_wf :: "transparent_proof \<Rightarrow> bool" where
  "proof_wf pf \<longleftrightarrow>
     length (tp_inputs pf) < 2 ^ 32 \<and> list_all input_opening_wf (tp_inputs pf) \<and>
     length (tp_outputs pf) < 2 ^ 32 \<and> list_all (\<lambda>o'. is_ternary (oo_value_r o')) (tp_outputs pf)"

lemma stx_from_bytes_iff: "stx_from_bytes bs = Some tx \<longleftrightarrow> stx_wf tx \<and> bs = stx_to_bytes tx"
proof
  assume "stx_from_bytes bs = Some tx"
  then show "stx_wf tx \<and> bs = stx_to_bytes tx"
    by (auto simp: stx_from_bytes_def stx_to_bytes_def stx_wf_def bind_eq_Some_conv codec_simps vec_iffs split: if_splits)
next
  assume a: "stx_wf tx \<and> bs = stx_to_bytes tx"
  have "read_vec rd_var_bytes (put_vec put_framed (sx_spend_auths tx)) = Some (sx_spend_auths tx, [])"
    using a auths_vec.dec_iff [of "put_vec put_framed (sx_spend_auths tx)" "sx_spend_auths tx" "[]"] by (simp add: stx_wf_def)
  then show "stx_from_bytes bs = Some tx"
    using a by (simp add: stx_from_bytes_def stx_to_bytes_def stx_wf_def hashes_vec.dec_enc commitments_vec.dec_enc outputs_vec.dec_enc)
qed

lemma proof_from_bytes_iff: "proof_from_bytes bs = Some pf \<longleftrightarrow> proof_wf pf \<and> bs = proof_to_bytes pf"
proof
  assume "proof_from_bytes bs = Some pf"
  then show "proof_wf pf \<and> bs = proof_to_bytes pf"
    by (auto simp: proof_from_bytes_def proof_to_bytes_def proof_wf_def bind_eq_Some_conv vec_iffs split: if_splits)
next
  assume a: "proof_wf pf \<and> bs = proof_to_bytes pf"
  have "read_vec get_output_opening (put_vec put_output_opening (tp_outputs pf)) = Some (tp_outputs pf, [])"
    using a out_openings_vec.dec_iff [of "put_vec put_output_opening (tp_outputs pf)" "tp_outputs pf" "[]"] by (simp add: proof_wf_def)
  then show "proof_from_bytes bs = Some pf"
    using a by (simp add: proof_from_bytes_def proof_to_bytes_def proof_wf_def inputs_vec.dec_enc)
qed

text \<open>
  Submissions have one encoding. A byte string decodes to a shielded transaction and its proof exactly
  when both are well formed, the transaction's encoding is shorter than \<open>2\<^sup>32\<close> bytes, and the string is
  their encoding: nothing truncated, padded or re-ordered decodes, and decoding inverts encoding.
\<close>

theorem submission_codec_bijective:
  "decode_submission bs = Some (tx, pf) \<longleftrightarrow>
     stx_wf tx \<and> proof_wf pf \<and> length (stx_to_bytes tx) < 2 ^ 32 \<and> bs = encode_submission tx pf"
  by (auto simp: decode_submission_def encode_submission_def bind_eq_Some_conv framed.dec_iff stx_from_bytes_iff proof_from_bytes_iff)

end
