(* ===== verification/Dromos_Hybrid.thy ===== *)
theory Dromos_Hybrid
  imports Dromos_Stake Hermes_Htlc Dromos_Storage Dromos_Names Obolos_Wire
begin

text \<open>
  The hybrid ledger's state and settlement rules (\<open>fanos-dromos/src/hybrid.rs\<close>) and the shield bridge
  (\<open>fanos-dromos/src/bridge.rs\<close>). Every rule that holds value in a keyless sink account (locked swaps,
  storage escrow, bonded stake) is a definition here; the lemmas show that each keeps the sinks backed:
  what the sub-ledgers owe never exceeds what the sinks hold, so every release is funded.
  The source's \<open>debug_assert!\<close>s have no effect in a release build and are not modelled; the lemmas prove
  the moves they assert.
\<close>

section \<open>The shield bridge\<close>

definition POOL_SINK :: account where "POOL_SINK = ascii ''FANOS-obolos-shielded-pool-sink!''"
definition NOTE_OPENING_LEN :: nat where "NOTE_OPENING_LEN = 104 + RANDOMNESS_LEN"

record ('e, 'm) shield_tx =
  sh_payment :: "('e, 'm) signed_transfer"
  sh_note :: shielded_note

definition shield_to_bytes :: "('e, 'm, 's) crypto \<Rightarrow> ('e, 'm) shield_tx \<Rightarrow> byte list" where
  "shield_to_bytes C sx =
     st_to_bytes C (sh_payment sx) @ put_le 8 (nt_value (sh_note sx)) @ nt_owner (sh_note sx) @ nt_auth (sh_note sx) @
     rand_to_bytes (nt_value_r (sh_note sx)) @ nt_rho (sh_note sx)"

definition shield_from_bytes :: "('e, 'm, 's) crypto \<Rightarrow> byte list \<Rightarrow> ('e, 'm) shield_tx option" where
  "shield_from_bytes C bs =
     (if length bs \<noteq> WIRE_LEN + NOTE_OPENING_LEN then None
      else do {
        (pb, r) \<leftarrow> rd_take WIRE_LEN bs;
        p \<leftarrow> st_from_bytes C pb;
        (v, r) \<leftarrow> rd_le 8 r;
        (ow, r) \<leftarrow> rd_take 32 r;
        (au, r) \<leftarrow> rd_take 32 r;
        (xb, rho) \<leftarrow> rd_take RANDOMNESS_LEN r;
        x \<leftarrow> rand_from_bytes xb;
        Some \<lparr>sh_payment = p,
              sh_note = \<lparr>nt_value = v, nt_owner = ow, nt_auth = au, nt_value_r = x, nt_rho = rho\<rparr>\<rparr> })"

section \<open>The state\<close>

record hybrid_ledger =
  hl_waves_last_block :: nat
  hl_parallel_blocks :: u64
  hl_conservation_breaks :: u64
  hl_tokens :: token_ledger
  hl_shielded :: shielded_state
  hl_names :: name_registry
  hl_storage :: storage_market
  hl_htlcs :: htlc_book
  hl_stake :: stake_ledger
  hl_params :: commit_params
  hl_height :: u64
  hl_audit_beacon :: "byte list"

definition hybrid_new :: "('e, 'm, 's) crypto \<Rightarrow> token_ledger \<Rightarrow> hybrid_ledger" where
  "hybrid_new C genesis_tokens =
     \<lparr>hl_waves_last_block = 0, hl_parallel_blocks = 0, hl_conservation_breaks = 0, hl_tokens = genesis_tokens,
      hl_shielded = pool_new C, hl_names = names_new, hl_storage = [], hl_htlcs = [], hl_stake = stake_new,
      hl_params = params_standard C, hl_height = 0, hl_audit_beacon = replicate 32 0\<rparr>"

text \<open>Each invariant as the pair of what the sink holds and what is owed.\<close>

record conservation =
  cv_stake :: "u64 \<times> u64"
  cv_storage :: "u64 \<times> u64"
  cv_htlc :: "u64 \<times> u64"

definition conservation_holds :: "conservation \<Rightarrow> bool" where
  "conservation_holds c \<longleftrightarrow>
     fst (cv_stake c) = snd (cv_stake c) \<and> fst (cv_storage c) = snd (cv_storage c) \<and> fst (cv_htlc c) = snd (cv_htlc c)"

definition conservation_of :: "hybrid_ledger \<Rightarrow> conservation" where
  "conservation_of G =
     (let deals = foldl (\<lambda>acc e. saturating_add acc (refundable (snd e))) 0
            (filter (\<lambda>e. d_state (snd e) = Active) (hl_storage G));
          locked = foldl (\<lambda>acc e. saturating_add acc (ht_amount (h_terms (snd e)))) 0
            (filter (\<lambda>e. h_state (snd e) = Locked) (hl_htlcs G))
      in \<lparr>cv_stake = (balance (hl_tokens G) STAKE_SINK, total_bonded (hl_stake G)),
          cv_storage = (balance (hl_tokens G) STORAGE_ESCROW, deals),
          cv_htlc = (balance (hl_tokens G) HTLC_ESCROW, locked)\<rparr>)"

text \<open>A release from a sink whose \<open>bool\<close> the caller discards.\<close>

definition release_from :: "hybrid_ledger \<Rightarrow> account \<Rightarrow> account \<Rightarrow> u64 \<Rightarrow> hybrid_ledger" where
  "release_from G sink to amount = G\<lparr>hl_tokens := fst (move_system (hl_tokens G) sink to amount)\<rparr>"

section \<open>Atomic swaps\<close>

text \<open>\<open>None\<close> is a premature lock, \<open>Some ok\<close> an applied or refused one.\<close>

definition lock_htlc ::
    "('e, 'm, 's) crypto \<Rightarrow> hybrid_ledger \<Rightarrow> htlc_terms \<Rightarrow> ('e, 'm) signed_transfer \<Rightarrow> hybrid_ledger \<times> bool option" where
  "lock_htlc C G terms payment =
     (let p = st_transfer payment in
      if ht_amount terms = 0 \<or> \<not> st_verify C payment \<or> t_from p \<noteq> ht_sender terms \<or> t_to p \<noteq> HTLC_ESCROW
         \<or> t_amount p \<noteq> ht_amount terms then (G, Some False)
      else let i = htlc_id C terms (t_nonce p) in
        if bt_contains (hl_htlcs G) i then (G, Some False)
        else if is_premature (hl_tokens G) payment then (G, None)
        else case tl_apply C (hl_tokens G) payment of
               (T, Inl _) \<Rightarrow> (G\<lparr>hl_tokens := T\<rparr>, Some False)
             | (T, Inr _) \<Rightarrow>
                 (G\<lparr>hl_tokens := T, hl_htlcs := bt_insert i (htlc_new terms) (hl_htlcs G)\<rparr>, Some True))"

text \<open>A resolved contract is written back and its escrow released.\<close>

definition resolve_htlc :: "hybrid_ledger \<Rightarrow> byte list \<Rightarrow> htlc \<times> resolution option \<Rightarrow> hybrid_ledger \<times> bool" where
  "resolve_htlc G i r =
     (case r of
        (h, None) \<Rightarrow> (G, False)
      | (h, Some p) \<Rightarrow>
          (release_from (G\<lparr>hl_htlcs := bt_insert i h (hl_htlcs G)\<rparr>) HTLC_ESCROW (pay_to p) (pay_amount p), True))"

definition claim_htlc ::
    "('e, 'm, 's) crypto \<Rightarrow> hybrid_ledger \<Rightarrow> byte list \<Rightarrow> byte list \<Rightarrow> hybrid_ledger \<times> bool" where
  "claim_htlc C G i preimage =
     (case bt_get (hl_htlcs G) i of
        None \<Rightarrow> (G, False)
      | Some h \<Rightarrow> resolve_htlc G i (htlc_claim C h preimage (hl_height G)))"

definition refund_htlc :: "hybrid_ledger \<Rightarrow> byte list \<Rightarrow> hybrid_ledger \<times> bool" where
  "refund_htlc G i =
     (case bt_get (hl_htlcs G) i of
        None \<Rightarrow> (G, False)
      | Some h \<Rightarrow> resolve_htlc G i (htlc_refund h (hl_height G)))"

section \<open>The shielded pool\<close>

definition pool_backing :: "hybrid_ledger \<Rightarrow> u64" where
  "pool_backing G = balance (hl_tokens G) POOL_SINK"

definition mint_shielded :: "('e, 'm, 's) crypto \<Rightarrow> hybrid_ledger \<Rightarrow> byte list \<Rightarrow> hybrid_ledger \<times> u64 option" where
  "mint_shielded C G cm = (case mint C (hl_shielded G) cm of (S, pos) \<Rightarrow> (G\<lparr>hl_shielded := S\<rparr>, pos))"

definition shield :: "('e, 'm, 's) crypto \<Rightarrow> hybrid_ledger \<Rightarrow> ('e, 'm) shield_tx \<Rightarrow> hybrid_ledger \<times> bool option" where
  "shield C G sx =
     (let p = st_transfer (sh_payment sx) in
      if t_to p \<noteq> POOL_SINK \<or> t_amount p \<noteq> nt_value (sh_note sx) then (G, Some False)
      else if note_count (hl_shielded G) \<ge> 2 ^ TREE_DEPTH then (G, Some False)
      else if is_premature (hl_tokens G) (sh_payment sx) then (G, None)
      else case tl_apply C (hl_tokens G) (sh_payment sx) of
             (T, Inl _) \<Rightarrow> (G\<lparr>hl_tokens := T\<rparr>, Some False)
           | (T, Inr _) \<Rightarrow>
               (case mint C (hl_shielded G) (note_commitment C (hl_params G) (sh_note sx)) of
                  (S, pos) \<Rightarrow> (G\<lparr>hl_tokens := T, hl_shielded := S\<rparr>, Some (pos \<noteq> None))))"

definition apply_shielded ::
    "('e, 'm, 's) crypto \<Rightarrow> hybrid_ledger \<Rightarrow> shielded_tx \<Rightarrow> bool \<Rightarrow> hybrid_ledger \<times> bool" where
  "apply_shielded C G stx proof_ok =
     (let leaving = saturating_add (sx_public_value stx) (sx_fee stx) in
      if leaving > 0 \<and> pool_backing G < leaving then (G, False)
      else case apply_with_verdict_shielded C (hl_shielded G) stx proof_ok of
             (S, Inl _) \<Rightarrow> (G\<lparr>hl_shielded := S\<rparr>, False)
           | (S, Inr _) \<Rightarrow>
               (let G1 = G\<lparr>hl_shielded := S\<rparr>;
                    G2 = (if sx_public_value stx > 0
                          then release_from G1 POOL_SINK (sx_public_recipient stx) (sx_public_value stx) else G1);
                    G3 = (if sx_fee stx > 0 then release_from G2 POOL_SINK TREASURY (sx_fee stx) else G2)
                in (G3, True)))"

section \<open>Staking\<close>

definition apply_stake :: "('e, 'm, 's) crypto \<Rightarrow> hybrid_ledger \<Rightarrow> ('e, 'm) stake_tx \<Rightarrow> hybrid_ledger \<times> bool" where
  "apply_stake C G tx =
     (let st = stake_transfer tx; p = st_transfer st in
      if t_to p \<noteq> STAKE_SINK then (G, False)
      else case tx of
             Bond _ \<Rightarrow>
               (case tl_apply C (hl_tokens G) st of
                  (T, Inr _) \<Rightarrow> (G\<lparr>hl_tokens := T, hl_stake := increase (hl_stake G) (t_from p) (t_amount p)\<rparr>, True)
                | (T, Inl _) \<Rightarrow> (G\<lparr>hl_tokens := T\<rparr>, False))
           | Unbond _ \<Rightarrow>
               if \<not> st_verify C st \<or> bonded (hl_stake G) (t_from p) < t_amount p then (G, False)
               else case consume_nonce (hl_tokens G) (t_from p) (t_nonce p) of
                      (T, False) \<Rightarrow> (G\<lparr>hl_tokens := T\<rparr>, False)
                    | (T, True) \<Rightarrow>
                        (release_from
                           (G\<lparr>hl_tokens := T, hl_stake := fst (decrease (hl_stake G) (t_from p) (t_amount p))\<rparr>)
                           STAKE_SINK (t_from p) (t_amount p), True))"

definition apply_slash :: "('e, 'm, 's) crypto \<Rightarrow> hybrid_ledger \<Rightarrow> ('e, 'm) slash_tx \<Rightarrow> hybrid_ledger \<times> bool" where
  "apply_slash C G tx =
     (case evidence C tx of
        None \<Rightarrow> (G, False)
      | Some ev \<Rightarrow>
          (let account = account_id C (sl_verifier tx); slot = slot_key C account ev in
           case record_slashed (hl_stake G) slot of
             (S, False) \<Rightarrow> (G\<lparr>hl_stake := S\<rparr>, False)
           | (S, True) \<Rightarrow>
               (let amount = bonded S account in
                if amount > 0
                then (release_from (G\<lparr>hl_stake := fst (decrease S account amount)\<rparr>) STAKE_SINK TREASURY amount, True)
                else (G\<lparr>hl_stake := S\<rparr>, True))))"

section \<open>Storage deals\<close>

definition open_deal ::
    "('e, 'm, 's) crypto \<Rightarrow> hybrid_ledger \<Rightarrow> deal_params \<Rightarrow> ('e, 'm) signed_transfer \<Rightarrow> hybrid_ledger \<times> bool option" where
  "open_deal C G params payment =
     (let p = st_transfer payment in
      if dp_size params = 0 \<or> dp_size params > MAX_DEAL_SIZE \<or> dp_k params = 0 \<or> dp_duration params = 0
         \<or> dp_duration params > MAX_DEAL_DURATION \<or> dp_price params = 0 then (G, Some False)
      else if \<not> st_verify C payment \<or> t_from p \<noteq> dp_consumer params \<or> t_to p \<noteq> STORAGE_ESCROW
         \<or> t_amount p \<noteq> dp_price params then (G, Some False)
      else let i = deal_id C params (t_nonce p) in
        if bt_contains (hl_storage G) i then (G, Some False)
        else case open_at params (hl_height G) of
               None \<Rightarrow> (G, Some False)
             | Some deal \<Rightarrow>
                 if is_premature (hl_tokens G) payment then (G, None)
                 else case tl_apply C (hl_tokens G) payment of
                        (T, Inl _) \<Rightarrow> (G\<lparr>hl_tokens := T\<rparr>, Some False)
                      | (T, Inr _) \<Rightarrow> (G\<lparr>hl_tokens := T, hl_storage := bt_insert i deal (hl_storage G)\<rparr>, Some True))"

text \<open>
  The outer option is what the audit may not return: the challenge's draw loop, or the division of a
  deal with no duration.
\<close>

definition prove_deal ::
    "('e, 'm, 's) crypto \<Rightarrow> hybrid_ledger \<Rightarrow> byte list \<Rightarrow> ('e, 'm) prover_auth \<Rightarrow> byte list \<Rightarrow>
     (hybrid_ledger \<times> bool) option" where
  "prove_deal C G i auth response_bytes =
     (case bt_get (hl_storage G) i of
        None \<Rightarrow> Some (G, False)
      | Some d \<Rightarrow>
          if d_state d \<noteq> Active then Some (G, False)
          else if \<not> pa_verify C auth i response_bytes (dp_provider (d_params d)) then Some (G, False)
          else case decode_response response_bytes of
                 None \<Rightarrow> Some (G, False)
               | Some response \<Rightarrow>
                   (case por_verify C (dp_cid (d_params d)) (hl_audit_beacon G) (unat (dp_k (d_params d)))
                           (leaves_for_size (dp_size (d_params d))) response of
                      None \<Rightarrow> None
                    | Some False \<Rightarrow> Some (G, False)
                    | Some True \<Rightarrow>
                        (case settle_epoch d (hl_height G) True AUDIT_PERIOD of
                           None \<Rightarrow> None
                         | Some (d', None) \<Rightarrow> Some (G, False)
                         | Some (d', Some (SPay provider amount)) \<Rightarrow>
                             Some (release_from (G\<lparr>hl_storage := bt_insert i d' (hl_storage G)\<rparr>)
                                     STORAGE_ESCROW provider amount, True)
                         | Some (d', Some (SMiss _)) \<Rightarrow>
                             Some (G\<lparr>hl_storage := bt_insert i d' (hl_storage G)\<rparr>, True))))"

definition close_deal ::
    "('e, 'm, 's) crypto \<Rightarrow> hybrid_ledger \<Rightarrow> byte list \<Rightarrow> ('e, 'm) signed_transfer \<Rightarrow> hybrid_ledger \<times> bool" where
  "close_deal C G i auth =
     (case bt_get (hl_storage G) i of
        None \<Rightarrow> (G, False)
      | Some d \<Rightarrow>
          (let consumer = dp_consumer (d_params d); p = st_transfer auth in
           if \<not> st_verify C auth \<or> t_from p \<noteq> consumer \<or> t_to p \<noteq> i then (G, False)
           else case deal_close d of
                  (d', refund) \<Rightarrow>
                    (let G1 = G\<lparr>hl_storage := bt_insert i d' (hl_storage G)\<rparr>
                     in if refund > 0 then (release_from G1 STORAGE_ESCROW consumer refund, True) else (G1, True))))"

definition end_deal :: "u64 \<Rightarrow> deal \<Rightarrow> deal \<times> u64 option" where
  "end_deal height d =
     (case terminate_if_abandoned d height AUDIT_PERIOD of
        (d1, Some refund) \<Rightarrow> (d1, Some refund)
      | (d1, None) \<Rightarrow> finalize_if_lapsed d1 height AUDIT_PERIOD)"

definition lapse_refunds :: "u64 \<Rightarrow> storage_market \<Rightarrow> (account \<times> u64) list" where
  "lapse_refunds height M =
     concat (map (\<lambda>e. case end_deal height (snd e) of
                        (d, Some refund) \<Rightarrow> if refund > 0 then [(dp_consumer (d_params d), refund)] else []
                      | (d, None) \<Rightarrow> []) M)"

definition finalize_lapsed_deals :: "hybrid_ledger \<Rightarrow> hybrid_ledger" where
  "finalize_lapsed_deals G =
     (let height = hl_height G;
          ended = map (\<lambda>e. (fst e, fst (end_deal height (snd e)))) (hl_storage G);
          G1 = foldl (\<lambda>G r. release_from G STORAGE_ESCROW (fst r) (snd r)) (G\<lparr>hl_storage := ended\<rparr>)
                 (lapse_refunds height (hl_storage G))
      in G1\<lparr>hl_storage := filter (\<lambda>e. d_state (snd e) = Active) (hl_storage G1)\<rparr>)"

section \<open>Blocks: the clock, the beacon and the reward\<close>

definition begin_block :: "hybrid_ledger \<Rightarrow> u64 \<Rightarrow> hybrid_ledger" where
  "begin_block G height =
     (let G1 = finalize_lapsed_deals (G\<lparr>hl_height := height\<rparr>)
      in G1\<lparr>hl_htlcs := filter (\<lambda>e. h_state (snd e) = Locked) (hl_htlcs G1)\<rparr>)"

definition set_audit_beacon :: "hybrid_ledger \<Rightarrow> byte list \<Rightarrow> hybrid_ledger" where
  "set_audit_beacon G beacon = G\<lparr>hl_audit_beacon := beacon\<rparr>"

definition apply_block_reward ::
    "('e, 'm, 's) crypto \<Rightarrow> hybrid_ledger \<Rightarrow> ('e, 'm) hybrid_verifier list \<Rightarrow> u64 \<Rightarrow> hybrid_ledger" where
  "apply_block_reward C G beneficiaries amount =
     (let count = (if length beneficiaries < 2 ^ 64 then word_of_nat (length beneficiaries) else - 1) in
      if count = 0 \<or> amount = 0 then G
      else let pot = min amount (balance (hl_tokens G) TREASURY); share = pot div count in
        if share = 0 then G
        else foldl (\<lambda>G v. release_from G TREASURY (account_id C v) share) G beneficiaries)"

section \<open>Debts and what backs them\<close>

definition bt_wsum :: "('v \<Rightarrow> nat) \<Rightarrow> ('k, 'v) btree \<Rightarrow> nat" where
  "bt_wsum f m = sum_list (map (\<lambda>e. f (snd e)) m)"

lemma bt_wsum_insert:
  assumes "bt_ok m"
  shows "bt_wsum f (bt_insert k v m) + (case bt_get m k of None \<Rightarrow> 0 | Some w \<Rightarrow> f w) = bt_wsum f m + f v"
  using assms
proof (induction m)
  case (Cons e m)
  then have "bt_get m k = None" if "k \<le> fst e"
    using that by (intro bt_get_None [THEN iffD2]) (auto simp: bt_ok_Cons)
  moreover have "bt_get (e # m) k = (if k = fst e then Some (snd e) else bt_get m k)"
    by (simp add: bt_get_def split: prod.split)
  ultimately show ?case using Cons by (auto simp: bt_wsum_def bt_ok_Cons)
qed (simp add: bt_wsum_def bt_get_def)

lemma bt_wsum_simps [simp]: "bt_wsum f [] = 0"
  by (simp add: bt_wsum_def)

definition htlc_debt :: "htlc \<Rightarrow> nat" where
  "htlc_debt h = (if h_state h = Locked then unat (ht_amount (h_terms h)) else 0)"

definition deal_debt :: "deal \<Rightarrow> nat" where
  "deal_debt d = (if d_state d = Active then unat (refundable d) else 0)"

definition good_deal :: "deal \<Rightarrow> bool" where
  "good_deal d \<longleftrightarrow> deal_ok d \<and> all_passed d"

text \<open>What is owed out of each account: zero everywhere but at the three sinks.\<close>

definition debts :: "hybrid_ledger \<Rightarrow> account \<Rightarrow> nat" where
  "debts G s =
     (if s = HTLC_ESCROW then bt_wsum htlc_debt (hl_htlcs G)
      else if s = STORAGE_ESCROW then bt_wsum deal_debt (hl_storage G)
      else if s = STAKE_SINK then staked (hl_stake G) else 0)"

definition backed :: "(account \<Rightarrow> nat) \<Rightarrow> token_ledger \<Rightarrow> bool" where
  "backed D T \<longleftrightarrow> ledger_ok T \<and> tl_supply T < 2 ^ 64 \<and> (\<forall>s. D s \<le> unat (balance T s))"

definition solvent :: "hybrid_ledger \<Rightarrow> bool" where
  "solvent G \<longleftrightarrow>
     bt_ok (hl_htlcs G) \<and> bt_ok (hl_storage G) \<and> stake_ok (hl_stake G) \<and>
     (\<forall>e \<in> set (hl_storage G). good_deal (snd e)) \<and> backed (debts G) (hl_tokens G)"

text \<open>The sinks are keyless: no verifying key hashes to one of them.\<close>

definition sinks_keyless :: "('e, 'm, 's) crypto \<Rightarrow> bool" where
  "sinks_keyless C \<longleftrightarrow> (\<forall>k. account_id C k \<notin> {HTLC_ESCROW, STORAGE_ESCROW, STAKE_SINK})"

lemma sinks_distinct [simp]:
  "HTLC_ESCROW \<noteq> STORAGE_ESCROW" "STORAGE_ESCROW \<noteq> HTLC_ESCROW" "HTLC_ESCROW \<noteq> STAKE_SINK"
  "STAKE_SINK \<noteq> HTLC_ESCROW" "STORAGE_ESCROW \<noteq> STAKE_SINK" "STAKE_SINK \<noteq> STORAGE_ESCROW"
  "POOL_SINK \<noteq> HTLC_ESCROW" "POOL_SINK \<noteq> STORAGE_ESCROW" "POOL_SINK \<noteq> STAKE_SINK"
  "TREASURY \<noteq> HTLC_ESCROW" "TREASURY \<noteq> STORAGE_ESCROW" "TREASURY \<noteq> STAKE_SINK"
  by (simp_all add: HTLC_ESCROW_def STORAGE_ESCROW_def STAKE_SINK_def POOL_SINK_def TREASURY_def ascii_def of_char_def)

lemma debts_nonsink [simp]: "debts G POOL_SINK = 0" "debts G TREASURY = 0"
  by (simp_all add: debts_def)

lemma debts_key: "sinks_keyless C \<Longrightarrow> debts G (account_id C k) = 0"
  by (simp add: sinks_keyless_def debts_def)

lemma debts_payer: "sinks_keyless C \<Longrightarrow> st_verify C st \<Longrightarrow> debts G (t_from (st_transfer st)) = 0"
  by (metis debts_key st_verify_def)

lemma backed_mono: "backed D T \<Longrightarrow> (\<And>s. D' s \<le> D s) \<Longrightarrow> backed D' T"
  unfolding backed_def using order_trans by blast

lemma backed_pay:
  assumes "backed D T" "settled (apply_with_verdict T st v)" "D (t_from (st_transfer st)) = 0"
  shows "backed (D(t_to (st_transfer st) := D (t_to (st_transfer st)) + unat (t_amount (st_transfer st))))
    (fst (apply_with_verdict T st v))"
proof -
  have T: "ledger_ok T" "tl_supply T < 2 ^ 64" "\<And>s. D s \<le> unat (balance T s)" using assms(1) by (auto simp: backed_def)
  note e = apply_effect [OF T(1,2)]
  have "unat (t_amount (st_transfer st)) \<le> unat (balance T (t_from (st_transfer st)))"
    using assms(2) by (simp add: settled_apply word_le_nat_alt)
  then show ?thesis
    using T e(1) [of st v] e(2) [OF assms(2)] assms(3) by (auto simp: backed_def after_move_def)
qed

lemma backed_refused:
  "backed D T \<Longrightarrow> \<not> settled (apply_with_verdict T st v) \<Longrightarrow> backed D (fst (apply_with_verdict T st v))"
  by (simp add: apply_error_unchanged)

lemma backed_release:
  assumes "backed D T" "unat x \<le> D f"
  shows "backed (D(f := D f - unat x)) (fst (move_system T f t x))" "snd (move_system T f t x)"
proof -
  have T: "ledger_ok T" "tl_supply T < 2 ^ 64" "\<And>s. D s \<le> unat (balance T s)" using assms(1) by (auto simp: backed_def)
  have "x \<le> balance T f" using T(3) [of f] assms(2) by (simp add: word_le_nat_alt)
  note m = move_system_effect [OF T(1,2) this, of t]
  have "(D(f := D f - unat x)) s \<le> unat (balance (fst (move_system T f t x)) s)" for s
    using T(3) [of s] T(3) [of f] m(4) [of s] by (auto simp: after_move_def)
  with m(1-3) T(2) show "backed (D(f := D f - unat x)) (fst (move_system T f t x))" "snd (move_system T f t x)"
    by (simp_all add: backed_def)
qed

lemma backed_move:
  assumes "backed D T" "D f = 0"
  shows "backed D (fst (move_system T f t x))"
proof (cases "x \<le> balance T f")
  case True
  have T: "ledger_ok T" "tl_supply T < 2 ^ 64" "\<And>s. D s \<le> unat (balance T s)" using assms(1) by (auto simp: backed_def)
  note m = move_system_effect [OF T(1,2) True, of t]
  have "D s \<le> unat (balance (fst (move_system T f t x)) s)" for s
    using T(3) [of s] m(4) [of s] assms(2) by (auto simp: after_move_def)
  with m(2,3) T(2) show ?thesis by (simp add: backed_def)
next
  case False
  then show ?thesis using assms(1) by (simp add: move_system_def not_le)
qed

lemma backed_consume_nonce: "backed D T \<Longrightarrow> backed D (fst (consume_nonce T a n))"
  by (simp add: backed_def consume_nonce_def)

section \<open>Every settlement rule keeps the sinks backed\<close>

lemma debts_update [simp]:
  "debts (G\<lparr>hl_tokens := T\<rparr>) = debts G" "debts (G\<lparr>hl_shielded := S\<rparr>) = debts G" "debts (G\<lparr>hl_names := R\<rparr>) = debts G"
  "debts (G\<lparr>hl_height := h\<rparr>) = debts G" "debts (G\<lparr>hl_audit_beacon := b\<rparr>) = debts G"
  "debts (G\<lparr>hl_waves_last_block := w\<rparr>) = debts G" "debts (G\<lparr>hl_parallel_blocks := n\<rparr>) = debts G"
  "debts (G\<lparr>hl_conservation_breaks := n\<rparr>) = debts G"
  by (simp_all add: debts_def fun_eq_iff)

lemma debts_htlcs: "debts (G\<lparr>hl_htlcs := B\<rparr>) = (debts G)(HTLC_ESCROW := bt_wsum htlc_debt B)"
  and debts_storage: "debts (G\<lparr>hl_storage := M\<rparr>) = (debts G)(STORAGE_ESCROW := bt_wsum deal_debt M)"
  and debts_stake: "debts (G\<lparr>hl_stake := K\<rparr>) = (debts G)(STAKE_SINK := staked K)"
  by (simp_all add: debts_def fun_eq_iff)

lemma debts_at:
  "debts G HTLC_ESCROW = bt_wsum htlc_debt (hl_htlcs G)" "debts G STORAGE_ESCROW = bt_wsum deal_debt (hl_storage G)"
  "debts G STAKE_SINK = staked (hl_stake G)"
  by (simp_all add: debts_def)

lemmas solvent_update = solvent_def debts_htlcs debts_storage debts_stake

lemma tl_apply_cases:
  obtains (settled) T where "tl_apply C L0 st = (T, Inr ())" "T = fst (apply_with_verdict L0 st (st_verify C st))"
      "settled (apply_with_verdict L0 st (st_verify C st))" "st_verify C st"
  | (refused) e where "tl_apply C L0 st = (L0, Inl e)"
proof (cases "settled (apply_with_verdict L0 st (st_verify C st))")
  case True
  then show ?thesis using settled [of "fst (tl_apply C L0 st)"]
    by (cases "tl_apply C L0 st") (auto simp: tl_apply_def settled_def apply_with_verdict_def Let_def split: if_splits)
next
  case False
  then have "fst (tl_apply C L0 st) = L0" by (simp add: tl_apply_def apply_error_unchanged)
  moreover obtain e where "snd (tl_apply C L0 st) = Inl e"
    using False by (cases "snd (tl_apply C L0 st)") (auto simp: tl_apply_def settled_def)
  ultimately show ?thesis using refused by (metis prod.collapse)
qed

lemma solvent_lock_htlc:
  assumes "solvent G" "sinks_keyless C"
  shows "solvent (fst (lock_htlc C G terms pay))"
proof (cases rule: tl_apply_cases [of C "hl_tokens G" pay])
  case (settled T)
  let ?p = "st_transfer pay" and ?i = "htlc_id C terms (t_nonce (st_transfer pay))"
  show ?thesis
  proof (cases "t_to ?p = HTLC_ESCROW \<and> t_amount ?p = ht_amount terms \<and> \<not> bt_contains (hl_htlcs G) ?i")
    case True
    have "backed ((debts G)(HTLC_ESCROW := debts G HTLC_ESCROW + unat (ht_amount terms))) T"
      using backed_pay [of "debts G" "hl_tokens G", OF _ settled(3) debts_payer [OF assms(2) settled(4)]] True settled(2) assms(1)
      by (simp add: solvent_def)
    moreover have "bt_get (hl_htlcs G) ?i = None" using True by (simp add: bt_get_None)
    then have "bt_wsum htlc_debt (bt_insert ?i (htlc_new terms) (hl_htlcs G)) = debts G HTLC_ESCROW + unat (ht_amount terms)"
      using bt_wsum_insert [of "hl_htlcs G" htlc_debt ?i "htlc_new terms"] assms(1)
      by (simp add: solvent_def debts_at htlc_new_def htlc_debt_def)
    ultimately show ?thesis
      using assms(1) settled(1) by (simp add: lock_htlc_def Let_def solvent_update)
  next
    case False
    then show ?thesis using assms(1) by (auto simp: lock_htlc_def Let_def)
  qed
next
  case (refused e)
  then show ?thesis using assms(1) by (simp add: lock_htlc_def Let_def)
qed

text \<open>A resolution pays out of what the contract held, and the contract is no longer owed.\<close>

lemma solvent_resolve_htlc:
  assumes "solvent G" "bt_get (hl_htlcs G) i = Some h"
    and "snd r = None \<or> (\<exists>to. snd r = Some (Pay to (ht_amount (h_terms h))) \<and> h_state h = Locked \<and> h_state (fst r) \<noteq> Locked)"
  shows "solvent (fst (resolve_htlc G i r))"
proof (cases "snd r")
  case None
  then show ?thesis using assms(1) by (cases r) (simp add: resolve_htlc_def)
next
  case (Some p)
  then obtain to where p: "p = Pay to (ht_amount (h_terms h))" "h_state h = Locked" "h_state (fst r) \<noteq> Locked"
    using assms(3) by auto
  let ?x = "unat (ht_amount (h_terms h))"
  have sum: "bt_wsum htlc_debt (bt_insert i (fst r) (hl_htlcs G)) + ?x = debts G HTLC_ESCROW"
    using bt_wsum_insert [of "hl_htlcs G" htlc_debt i "fst r"] assms(1,2) p by (simp add: solvent_def htlc_debt_def debts_at)
  have "backed (debts G) (hl_tokens G)" using assms(1) by (simp add: solvent_def)
  moreover have "debts G HTLC_ESCROW - ?x = bt_wsum htlc_debt (bt_insert i (fst r) (hl_htlcs G))" using sum by simp
  ultimately have "backed ((debts G)(HTLC_ESCROW := bt_wsum htlc_debt (bt_insert i (fst r) (hl_htlcs G))))
    (fst (move_system (hl_tokens G) HTLC_ESCROW to (ht_amount (h_terms h))))"
    using backed_release(1) [of "debts G" "hl_tokens G" "ht_amount (h_terms h)" HTLC_ESCROW to] sum by simp
  then show ?thesis
    using assms(1) Some p(1) by (cases r) (simp add: resolve_htlc_def release_from_def solvent_update)
qed

lemma solvent_claim_htlc: "solvent G \<Longrightarrow> solvent (fst (claim_htlc C G i pre))"
  by (cases "bt_get (hl_htlcs G) i") (auto simp: claim_htlc_def htlc_claim_def intro!: solvent_resolve_htlc)

lemma solvent_refund_htlc: "solvent G \<Longrightarrow> solvent (fst (refund_htlc G i))"
  by (cases "bt_get (hl_htlcs G) i") (auto simp: refund_htlc_def htlc_refund_def intro!: solvent_resolve_htlc)

text \<open>A payment whose recipient is owed nothing more.\<close>

lemma solvent_pay:
  assumes "solvent G" "sinks_keyless C"
  shows "solvent (G\<lparr>hl_tokens := fst (tl_apply C (hl_tokens G) st)\<rparr>)"
proof (cases rule: tl_apply_cases [of C "hl_tokens G" st])
  case (settled T)
  have "backed (debts G) T"
    by (rule backed_mono [OF backed_pay [of "debts G" "hl_tokens G", OF _ settled(3) debts_payer [OF assms(2) settled(4)]], folded settled(2)])
       (use assms(1) in \<open>simp_all add: solvent_def\<close>)
  then show ?thesis using assms(1) settled(1) by (simp add: solvent_def)
next
  case (refused e)
  then show ?thesis using assms(1) by simp
qed

lemma solvent_tokens: "solvent G \<Longrightarrow> backed (debts G) T \<Longrightarrow> solvent (G\<lparr>hl_tokens := T\<rparr>)"
  by (simp add: solvent_def)

lemma solvent_release: "solvent G \<Longrightarrow> debts G f = 0 \<Longrightarrow> solvent (release_from G f t x)"
  by (simp add: release_from_def solvent_def backed_move)

lemma solvent_frame [simp]:
  "solvent (G\<lparr>hl_shielded := S\<rparr>) = solvent G" "solvent (G\<lparr>hl_names := R\<rparr>) = solvent G"
  "solvent (G\<lparr>hl_audit_beacon := b\<rparr>) = solvent G" "solvent (G\<lparr>hl_height := h\<rparr>) = solvent G"
  "solvent (G\<lparr>hl_waves_last_block := w\<rparr>) = solvent G" "solvent (G\<lparr>hl_parallel_blocks := n\<rparr>) = solvent G"
  "solvent (G\<lparr>hl_conservation_breaks := n\<rparr>) = solvent G"
  by (simp_all add: solvent_def)

lemma debts_release [simp]: "debts (release_from G f t x) = debts G"
  by (simp add: release_from_def)

lemma solvent_shield:
  assumes "solvent G" "sinks_keyless C"
  shows "solvent (fst (shield C G sx))"
proof (cases rule: tl_apply_cases [of C "hl_tokens G" "sh_payment sx"])
  case (settled T)
  have "solvent (G\<lparr>hl_tokens := T, hl_shielded := S\<rparr>)" for S
    using solvent_frame(1) [where G = "G\<lparr>hl_tokens := T\<rparr>" and S = S] solvent_pay [OF assms, of "sh_payment sx"] settled(1) by simp
  then show ?thesis using assms(1) settled(1) by (auto simp: shield_def Let_def split: prod.split)
qed (use assms(1) in \<open>auto simp: shield_def Let_def\<close>)

lemma solvent_apply_shielded: "solvent G \<Longrightarrow> solvent (fst (apply_shielded C G stx ok))"
  by (auto simp: apply_shielded_def Let_def intro!: solvent_release split: prod.split sum.split)

lemma decrease_staked:
  assumes "stake_ok S" "x \<le> bonded S a"
  shows "staked (fst (decrease S a x)) + unat x = staked S"
proof (cases "x \<noteq> 0 \<or> a \<in> bt_keys (sk_bonded S)")
  case False
  then have "bt_get (sk_bonded S) a = None" by (simp add: bt_get_None)
  with False show ?thesis by (simp add: decrease_def)
qed (use decrease_effect(2) [OF assms] in blast)

lemma solvent_bond:
  assumes "solvent G" "sinks_keyless C"
  shows "solvent (fst (apply_stake C G (Bond st)))"
proof (cases rule: tl_apply_cases [of C "hl_tokens G" st])
  case (settled T)
  show ?thesis
  proof (cases "t_to (st_transfer st) = STAKE_SINK")
    case True
    let ?x = "t_amount (st_transfer st)"
    have b: "backed ((debts G)(STAKE_SINK := debts G STAKE_SINK + unat ?x)) T"
      using backed_pay [of "debts G" "hl_tokens G", OF _ settled(3) debts_payer [OF assms(2) settled(4)]] True settled(2) assms(1)
      by (simp add: solvent_def)
    then have "((debts G)(STAKE_SINK := debts G STAKE_SINK + unat ?x)) STAKE_SINK \<le> unat (balance T STAKE_SINK)"
      unfolding backed_def by blast
    then have "debts G STAKE_SINK + unat ?x \<le> unat (balance T STAKE_SINK)" by simp
    then have "staked (hl_stake G) + unat ?x < 2 ^ 64" using unat_lt [of "balance T STAKE_SINK"] by (simp add: debts_at)
    then have "staked (increase (hl_stake G) (t_from (st_transfer st)) ?x) = debts G STAKE_SINK + unat ?x"
      using increase_effect assms(1) by (simp add: solvent_def debts_at)
    with b show ?thesis
      using assms(1) settled(1) True by (simp add: apply_stake_def Let_def solvent_update)
  qed (use assms(1) in \<open>simp add: apply_stake_def\<close>)
next
  case (refused e)
  then show ?thesis using assms(1) by (simp add: apply_stake_def Let_def)
qed

lemma solvent_stake_release:
  assumes "stake_ok S" "x \<le> bonded S a" "staked S = staked (hl_stake G)" "solvent G"
  shows "solvent (release_from (G\<lparr>hl_stake := fst (decrease S a x)\<rparr>) STAKE_SINK t x)"
proof -
  have s: "staked (fst (decrease S a x)) = debts G STAKE_SINK - unat x" "unat x \<le> debts G STAKE_SINK"
    using decrease_staked [OF assms(1,2)] assms(3) by (simp_all add: debts_at)
  have "backed (debts G) (hl_tokens G)" using assms(4) by (simp add: solvent_def)
  from backed_release(1) [OF this s(2)] show ?thesis
    using assms(1,4) s(1) by (simp add: release_from_def solvent_update)
qed

lemma solvent_unbond:
  assumes "solvent G"
  shows "solvent (fst (apply_stake C G (Unbond st)))"
proof -
  let ?p = "st_transfer st"
  have T: "solvent (G\<lparr>hl_tokens := fst (consume_nonce (hl_tokens G) (t_from ?p) (t_nonce ?p))\<rparr>)"
    using assms by (intro solvent_tokens) (simp_all add: solvent_def backed_consume_nonce)
  have "solvent (release_from (G\<lparr>hl_tokens := fst (consume_nonce (hl_tokens G) (t_from ?p) (t_nonce ?p)),
      hl_stake := fst (decrease (hl_stake G) (t_from ?p) (t_amount ?p))\<rparr>) STAKE_SINK (t_from ?p) (t_amount ?p))"
    if "t_amount ?p \<le> bonded (hl_stake G) (t_from ?p)"
    by (rule solvent_stake_release [OF _ that _ T]) (use assms in \<open>simp_all add: solvent_def\<close>)
  with T assms show ?thesis
    by (auto simp: apply_stake_def Let_def split: prod.split bool.split)
qed

lemma solvent_apply_stake: "solvent G \<Longrightarrow> sinks_keyless C \<Longrightarrow> solvent (fst (apply_stake C G tx))"
  by (cases tx) (simp_all only: solvent_bond solvent_unbond)

lemma solvent_apply_slash:
  assumes "solvent G"
  shows "solvent (fst (apply_slash C G tx))"
proof (cases "evidence C tx")
  case (Some ev)
  let ?a = "account_id C (sl_verifier tx)"
  let ?S = "fst (record_slashed (hl_stake G) (slot_key C ?a ev))"
  have S: "stake_ok ?S" "staked ?S = staked (hl_stake G)" using assms by (simp_all add: solvent_def)
  then have "solvent (G\<lparr>hl_stake := ?S\<rparr>)"
    using assms by (simp add: solvent_update fun_upd_idem debts_at)
  moreover have "solvent (release_from (G\<lparr>hl_stake := fst (decrease ?S ?a (bonded ?S ?a))\<rparr>) STAKE_SINK TREASURY (bonded ?S ?a))"
    by (rule solvent_stake_release [OF S(1) _ S(2) assms]) simp
  ultimately show ?thesis using Some assms
    by (auto simp: apply_slash_def Let_def split: prod.split bool.split)
qed (use assms in \<open>simp add: apply_slash_def\<close>)

section \<open>Storage deals keep the escrow backed\<close>

lemma bt_insert_entries: "e \<in> set (bt_insert k v m) \<Longrightarrow> e = (k, v) \<or> e \<in> set m"
  by (induction m) (auto split: if_splits)

lemma deal_debt_good: "good_deal d \<Longrightarrow> deal_debt d = d_price d - unat (d_released d)"
  by (auto simp: good_deal_def deal_debt_def all_passed_def refundable_def unat_saturating_sub)

lemma good_step:
  assumes "good_deal d" "\<forall>h. a \<noteq> OpSettle h False" "deal_step P d a = Some (d', m)"
  shows "good_deal d'" "deal_debt d' + m = deal_debt d" "d_params d' = d_params d"
proof -
  have d: "deal_ok d" "all_passed d" using assms(1) by (simp_all add: good_deal_def)
  have d': "deal_ok d'" "d_params d' = d_params d" "unat (d_released d') = unat (d_released d) + m"
    using deal_step_accounts [OF d(1), of P a] assms(3) by auto
  show good: "good_deal d'" using d'(1) deal_step_all_passed [OF d assms(3,2)] by (simp add: good_deal_def)
  show "d_params d' = d_params d" by (rule d'(2))
  have "unat (d_released d') \<le> d_price d" using d' by (simp add: deal_ok_def)
  then show "deal_debt d' + m = deal_debt d" using d' by (simp add: deal_debt_good good assms(1))
qed

text \<open>Writing back a deal that has paid out \<open>x\<close>, and releasing \<open>x\<close> from the escrow.\<close>

lemma solvent_deal_release:
  assumes "solvent G" "bt_get (hl_storage G) i = Some d" "good_deal d'" "deal_debt d' + unat x = deal_debt d"
  shows "solvent (release_from (G\<lparr>hl_storage := bt_insert i d' (hl_storage G)\<rparr>) STORAGE_ESCROW t x)"
    "unat x = 0 \<Longrightarrow> solvent (G\<lparr>hl_storage := bt_insert i d' (hl_storage G)\<rparr>)"
proof -
  have "bt_wsum deal_debt (bt_insert i d' (hl_storage G)) + deal_debt d = debts G STORAGE_ESCROW + deal_debt d'"
    using bt_wsum_insert [of "hl_storage G" deal_debt i d'] assms(1,2) by (simp add: solvent_def debts_at)
  then have sum: "bt_wsum deal_debt (bt_insert i d' (hl_storage G)) = debts G STORAGE_ESCROW - unat x" "unat x \<le> debts G STORAGE_ESCROW"
    using assms(4) by linarith+
  have entries: "good_deal (snd e)" if "e \<in> set (bt_insert i d' (hl_storage G))" for e
    using that assms(1,3) by (auto simp: solvent_def dest: bt_insert_entries)
  have "backed (debts G) (hl_tokens G)" using assms(1) by (simp add: solvent_def)
  note b = backed_release(1) [OF this sum(2)] this
  show "solvent (release_from (G\<lparr>hl_storage := bt_insert i d' (hl_storage G)\<rparr>) STORAGE_ESCROW t x)"
    using b(1) [of t] assms(1) sum(1) entries by (auto simp: release_from_def solvent_update)
  show "solvent (G\<lparr>hl_storage := bt_insert i d' (hl_storage G)\<rparr>)" if "unat x = 0"
    using b(2) assms(1) sum(1) entries that by (auto simp: solvent_update)
qed

lemma solvent_open_deal:
  assumes "solvent G" "sinks_keyless C"
  shows "solvent (fst (open_deal C G p pay))"
proof (cases rule: tl_apply_cases [of C "hl_tokens G" pay])
  case (settled T)
  let ?t = "st_transfer pay" and ?i = "deal_id C p (t_nonce (st_transfer pay))"
  show ?thesis
  proof (cases "t_to ?t = STORAGE_ESCROW \<and> t_amount ?t = dp_price p \<and> \<not> bt_contains (hl_storage G) ?i \<and> open_at p (hl_height G) \<noteq> None")
    case True
    then obtain d where d: "open_at p (hl_height G) = Some d" by blast
    then have op: "good_deal d" "deal_debt d = unat (dp_price p)"
      using open_inner_ok [of p "Some (hl_height G)" d]
      by (auto simp: open_at_def good_deal_def all_passed_def deal_debt_def refundable_def unat_saturating_sub)
    have "backed ((debts G)(STORAGE_ESCROW := debts G STORAGE_ESCROW + unat (dp_price p))) T"
      using backed_pay [of "debts G" "hl_tokens G", OF _ settled(3) debts_payer [OF assms(2) settled(4)]] True settled(2) assms(1)
      by (simp add: solvent_def)
    moreover have "bt_get (hl_storage G) ?i = None" using True by (simp add: bt_get_None)
    then have "bt_wsum deal_debt (bt_insert ?i d (hl_storage G)) = debts G STORAGE_ESCROW + unat (dp_price p)"
      using bt_wsum_insert [of "hl_storage G" deal_debt ?i d] assms(1) op(2) by (simp add: solvent_def debts_at)
    moreover have "good_deal (snd e)" if "e \<in> set (bt_insert ?i d (hl_storage G))" for e
      using that assms(1) op(1) by (auto simp: solvent_def dest: bt_insert_entries)
    ultimately show ?thesis
      using assms(1) settled(1) d by (auto simp: open_deal_def Let_def solvent_update)
  next
    case False
    then show ?thesis using assms(1) by (auto simp: open_deal_def Let_def)
  qed
next
  case (refused e)
  then show ?thesis using assms(1) by (auto simp: open_deal_def Let_def split: option.split)
qed

lemma solvent_prove_deal:
  assumes "solvent G" "prove_deal C G i auth resp = Some (G', r)"
  shows "solvent G'"
proof (cases "bt_get (hl_storage G) i")
  case (Some d)
  have good: "good_deal d"
    using assms(1) Some bt_get_Some [of "hl_storage G" i d] by (auto simp: solvent_def)
  have paid: "solvent (release_from (G\<lparr>hl_storage := bt_insert i d' (hl_storage G)\<rparr>) STORAGE_ESCROW t x)"
    if "settle_epoch d (hl_height G) True AUDIT_PERIOD = Some (d', Some (SPay t x))" for d' t x
    using good_step [OF good, of "OpSettle (hl_height G) True" AUDIT_PERIOD d' "unat x"] that
    by (intro solvent_deal_release(1) [OF assms(1) Some]) (simp_all add: settled_amount_def)
  have "settle_epoch d (hl_height G) True AUDIT_PERIOD \<noteq> Some (d', Some (SMiss t))" for d' t
    by (auto simp: settle_epoch_def Let_def split: option.split)
  with paid show ?thesis
    using assms Some
    by (auto simp: prove_deal_def split: option.splits if_splits prod.splits settlement.splits bool.splits)
qed (use assms in \<open>simp add: prove_deal_def\<close>)

lemma solvent_close_deal:
  assumes "solvent G"
  shows "solvent (fst (close_deal C G i auth))"
proof (cases "bt_get (hl_storage G) i")
  case (Some d)
  have good: "good_deal d"
    using assms(1) Some bt_get_Some [of "hl_storage G" i d] by (auto simp: solvent_def)
  note step = good_step [OF good, of OpClose AUDIT_PERIOD "fst (deal_close d)" "unat (snd (deal_close d))"]
  note rel = solvent_deal_release [OF assms Some step(1,2)]
  have "unat (snd (deal_close d)) = 0" if "\<not> 0 < snd (deal_close d)" using that by (simp add: word_gt_0)
  then show ?thesis
    using rel Some assms by (auto simp: close_deal_def Let_def split: prod.split)
qed (use assms in \<open>simp add: close_deal_def\<close>)

lemma end_deal_good:
  assumes "good_deal d"
  shows "good_deal (fst (end_deal h d))" "deal_debt (fst (end_deal h d)) + refund_amount (snd (end_deal h d)) = deal_debt d"
proof -
  note a = good_step [OF assms, of "OpAbandon h" AUDIT_PERIOD "fst (terminate_if_abandoned d h AUDIT_PERIOD)"
      "refund_amount (snd (terminate_if_abandoned d h AUDIT_PERIOD))"]
  have a': "good_deal (fst (terminate_if_abandoned d h AUDIT_PERIOD))"
    "deal_debt (fst (terminate_if_abandoned d h AUDIT_PERIOD)) + refund_amount (snd (terminate_if_abandoned d h AUDIT_PERIOD)) = deal_debt d"
    using a by simp_all
  note l = good_step [OF a'(1), of "OpLapse h" AUDIT_PERIOD "fst (finalize_if_lapsed (fst (terminate_if_abandoned d h AUDIT_PERIOD)) h AUDIT_PERIOD)"
      "refund_amount (snd (finalize_if_lapsed (fst (terminate_if_abandoned d h AUDIT_PERIOD)) h AUDIT_PERIOD))"]
  show "good_deal (fst (end_deal h d))" "deal_debt (fst (end_deal h d)) + refund_amount (snd (end_deal h d)) = deal_debt d"
    using a' l by (cases "terminate_if_abandoned d h AUDIT_PERIOD"; cases "snd (terminate_if_abandoned d h AUDIT_PERIOD)";
        simp add: end_deal_def refund_amount_def)+
qed

lemma lapse_refunds_sum:
  assumes "\<forall>e \<in> set M. good_deal (snd e)"
  shows "bt_wsum deal_debt (map (\<lambda>e. (fst e, fst (end_deal h (snd e)))) M) + (\<Sum>r \<leftarrow> lapse_refunds h M. unat (snd r)) = bt_wsum deal_debt M"
  using assms
proof (induction M)
  case (Cons e M)
  then have "deal_debt (fst (end_deal h (snd e))) + refund_amount (snd (end_deal h (snd e))) = deal_debt (snd e)"
    by (simp add: end_deal_good)
  with Cons show ?case
    by (cases "end_deal h (snd e)"; cases "snd (end_deal h (snd e))")
       (auto simp: lapse_refunds_def bt_wsum_def refund_amount_def word_gt_0)
qed (simp add: lapse_refunds_def bt_wsum_def)

lemma foldl_release:
  assumes "backed D (hl_tokens G)" "(\<Sum>r \<leftarrow> rs. unat (snd r)) \<le> D f"
  shows "\<exists>T. foldl (\<lambda>G r. release_from G f (fst r) (snd r)) G rs = G\<lparr>hl_tokens := T\<rparr> \<and>
    backed (D(f := D f - (\<Sum>r \<leftarrow> rs. unat (snd r)))) T"
  using assms
proof (induction rs arbitrary: G D)
  case Nil
  then show ?case by (intro exI [of _ "hl_tokens G"]) simp
next
  case (Cons r rs)
  have "unat (snd r) \<le> D f" using Cons.prems(2) by simp
  note b = backed_release(1) [OF Cons.prems(1) this, of "fst r"]
  let ?G = "release_from G f (fst r) (snd r)" and ?D = "D(f := D f - unat (snd r))"
  have "(\<Sum>r \<leftarrow> rs. unat (snd r)) \<le> ?D f" using Cons.prems(2) by simp
  moreover have "backed ?D (hl_tokens ?G)" using b by (simp add: release_from_def)
  ultimately obtain T where
    "foldl (\<lambda>G r. release_from G f (fst r) (snd r)) ?G rs = ?G\<lparr>hl_tokens := T\<rparr>"
    "backed (?D(f := ?D f - (\<Sum>r \<leftarrow> rs. unat (snd r)))) T"
    using Cons.IH [of ?D ?G] by blast
  then have "foldl (\<lambda>G r. release_from G f (fst r) (snd r)) G (r # rs) = G\<lparr>hl_tokens := T\<rparr>"
    "backed (D(f := D f - (\<Sum>r \<leftarrow> r # rs. unat (snd r)))) T"
    by (simp_all add: release_from_def)
  then show ?case by blast
qed

lemma bt_wsum_filter: "(\<And>v. \<not> P v \<Longrightarrow> f v = 0) \<Longrightarrow> bt_wsum f (filter (\<lambda>e. P (snd e)) m) = bt_wsum f m"
  by (induction m) (auto simp: bt_wsum_def)

lemma solvent_finalize:
  assumes "solvent G"
  shows "solvent (finalize_lapsed_deals G)"
proof -
  let ?M = "map (\<lambda>e. (fst e, fst (end_deal (hl_height G) (snd e)))) (hl_storage G)"
  let ?rs = "lapse_refunds (hl_height G) (hl_storage G)"
  have good: "\<forall>e \<in> set (hl_storage G). good_deal (snd e)" using assms by (simp add: solvent_def)
  have sum: "bt_wsum deal_debt ?M + (\<Sum>r \<leftarrow> ?rs. unat (snd r)) = debts G STORAGE_ESCROW"
    using lapse_refunds_sum [OF good] by (simp add: debts_at)
  obtain T where T: "foldl (\<lambda>G r. release_from G STORAGE_ESCROW (fst r) (snd r)) (G\<lparr>hl_storage := ?M\<rparr>) ?rs
      = G\<lparr>hl_storage := ?M, hl_tokens := T\<rparr>"
    "backed ((debts G)(STORAGE_ESCROW := debts G STORAGE_ESCROW - (\<Sum>r \<leftarrow> ?rs. unat (snd r)))) T"
    using foldl_release [of "debts G" "G\<lparr>hl_storage := ?M\<rparr>" ?rs STORAGE_ESCROW] assms sum by (auto simp: solvent_def)
  have left: "bt_wsum deal_debt (filter (\<lambda>e. d_state (snd e) = Active) ?M) = debts G STORAGE_ESCROW - (\<Sum>r \<leftarrow> ?rs. unat (snd r))"
    using bt_wsum_filter [of "\<lambda>d. d_state d = Active" deal_debt ?M] sum by (simp add: deal_debt_def)
  have ok: "bt_ok ?M" using assms by (simp add: solvent_def bt_ok_def comp_def)
  have "good_deal (snd e)" if "e \<in> set (filter (\<lambda>e. d_state (snd e) = Active) ?M)" for e
    using that good by (auto simp: end_deal_good)
  then show ?thesis
    using T assms ok left by (auto simp: finalize_lapsed_deals_def Let_def solvent_update bt_ok_filter)
qed

lemma solvent_begin_block:
  assumes "solvent G"
  shows "solvent (begin_block G h)"
proof -
  have "solvent (finalize_lapsed_deals (G\<lparr>hl_height := h\<rparr>))" using assms by (intro solvent_finalize) simp
  moreover have "bt_wsum htlc_debt (filter (\<lambda>e. h_state (snd e) = Locked) B) = bt_wsum htlc_debt B" for B :: htlc_book
    using bt_wsum_filter [of "\<lambda>h. h_state h = Locked" htlc_debt B] by (simp add: htlc_debt_def)
  ultimately show ?thesis
    by (simp add: begin_block_def Let_def solvent_update bt_ok_filter debts_at fun_upd_idem)
qed

lemma solvent_block_reward:
  assumes "solvent G"
  shows "solvent (apply_block_reward C G vs x)"
proof -
  have "solvent (foldl (\<lambda>G v. release_from G TREASURY (account_id C v) sh) G vs)" for sh
    using assms by (induction vs arbitrary: G) (simp_all add: solvent_release)
  then show ?thesis using assms by (simp add: apply_block_reward_def Let_def)
qed

end
