(* ===== verification/Ergon_State.thy ===== *)
theory Ergon_State
  imports Ergon_Exec
begin

text \<open>
  The evaluator over an arbitrary state (\<open>fanos-ergon/src/exec.rs\<close> is generic in \<open>S: State + ?Sized\<close>). An
  implementation of the traits \<open>Reader\<close> and \<open>State\<close> is a record of its two operations; \<open>get\<close> takes
  \<open>&self\<close>, but an implementation may record in a \<open>Cell\<close> that it was asked, so it also returns the state.
  The theory \<open>Ergon_Exec\<close> is the instance at a plain map (\<open>eval_on_store\<close>), where \<open>set\<close> is an update and
  \<open>get\<close> a lookup; a ledger's adapter is neither.

  Expressions read through the same view. What an implementation records about a read is not threaded
  through them: a load that answers \<open>None\<close> ends the term with the fault \<open>Missing\<close>.
\<close>

record 's state_ops =
  st_get :: "'s \<Rightarrow> key \<Rightarrow> val option \<times> 's"
  st_set :: "'s \<Rightarrow> key \<Rightarrow> val \<Rightarrow> 's"

abbreviation peek :: "'s state_ops \<Rightarrow> 's \<Rightarrow> key \<Rightarrow> val option" where
  "peek S s k \<equiv> fst (st_get S s k)"

record 's journal_on =
  jo_inner :: 's
  jo_undo :: "(key \<times> val option) list"

definition jo_new :: "'s \<Rightarrow> 's journal_on" where
  "jo_new s = \<lparr>jo_inner = s, jo_undo = []\<rparr>"

definition jo_get :: "'s state_ops \<Rightarrow> 's journal_on \<Rightarrow> key \<Rightarrow> val option \<times> 's journal_on" where
  "jo_get S j k = (case st_get S (jo_inner j) k of (v, s) \<Rightarrow> (v, j\<lparr>jo_inner := s\<rparr>))"

definition jo_set :: "'s state_ops \<Rightarrow> 's journal_on \<Rightarrow> key \<Rightarrow> val \<Rightarrow> 's journal_on" where
  "jo_set S j k v =
     (let j = (if list_ex (\<lambda>(k', _). k' = k) (jo_undo j) then j
               else case st_get S (jo_inner j) k of
                      (before, s) \<Rightarrow> \<lparr>jo_inner = s, jo_undo = jo_undo j @ [(k, before)]\<rparr>)
      in j\<lparr>jo_inner := st_set S (jo_inner j) k v\<rparr>)"

definition undo_on :: "'s state_ops \<Rightarrow> key \<times> val option \<Rightarrow> 's \<Rightarrow> 's" where
  "undo_on S e s = (case e of (k, before) \<Rightarrow> st_set S s k (case before of Some v \<Rightarrow> v | None \<Rightarrow> VInt 0))"

definition jo_rollback :: "'s state_ops \<Rightarrow> 's journal_on \<Rightarrow> 's journal_on" where
  "jo_rollback S j = \<lparr>jo_inner = fold (undo_on S) (rev (jo_undo j)) (jo_inner j), jo_undo = []\<rparr>"

primrec confined_on ::
    "'s state_ops \<Rightarrow> 'a act \<Rightarrow> footprint \<Rightarrow> 's journal_on \<Rightarrow> key option \<Rightarrow> 'a \<times> 's journal_on \<times> key option" where
  "confined_on S (Ret x) fp j viol = (x, j, viol)"
| "confined_on S (GetK k c) fp j viol =
     (if \<not> binary_search k (reads fp) \<and> \<not> binary_search k (writes fp)
      then confined_on S (c None) fp j (confined_record viol k)
      else confined_on S (c (fst (jo_get S j k))) fp (snd (jo_get S j k)) viol)"
| "confined_on S (SetK k v c) fp j viol =
     (if \<not> binary_search k (writes fp)
      then confined_on S c fp j (confined_record viol k)
      else confined_on S c fp (jo_set S j k v) viol)"

primrec reader_on ::
    "'s state_ops \<Rightarrow> 'a ract \<Rightarrow> key list \<Rightarrow> 's journal_on \<Rightarrow> key option \<Rightarrow> 'a \<times> 's journal_on \<times> key option" where
  "reader_on S (RRet x) rs j viol = (x, j, viol)"
| "reader_on S (RGetK k c) rs j viol =
     (if k \<notin> set rs then reader_on S (c None) rs j (confined_record viol k)
      else reader_on S (c (fst (jo_get S j k))) rs (snd (jo_get S j k)) viol)"

fun pred_on ::
      "'s state_ops \<Rightarrow> 'h host \<Rightarrow> 'h \<Rightarrow> val list \<Rightarrow> predicate \<Rightarrow> 's journal_on \<Rightarrow> receipt \<Rightarrow>
       (fault + bool) \<times> 's journal_on \<times> receipt"
  and pred_and ::
      "'s state_ops \<Rightarrow> 'h host \<Rightarrow> 'h \<Rightarrow> val list \<Rightarrow> predicate list \<Rightarrow> 's journal_on \<Rightarrow> receipt \<Rightarrow>
       (fault + bool) \<times> 's journal_on \<times> receipt"
  and pred_or ::
      "'s state_ops \<Rightarrow> 'h host \<Rightarrow> 'h \<Rightarrow> val list \<Rightarrow> predicate list \<Rightarrow> 's journal_on \<Rightarrow> receipt \<Rightarrow>
       (fault + bool) \<times> 's journal_on \<times> receipt"
where
  "pred_on S H h args (PHost kind rs exprs) j rc =
     (let rc = rc\<lparr>rc_predicates := rc_predicates rc + 1\<rparr>
      in (case eval_args exprs (peek S (jo_inner j)) args of
            Inl f \<Rightarrow> (Inl f, j, rc)
          | Inr evaluated \<Rightarrow>
              (case reader_on S (host_predicate H h kind rs evaluated) rs j None of
                 (verdict, j', Some k) \<Rightarrow> (Inl (OutsideFootprint k), j', rc)
               | (verdict, j', None) \<Rightarrow> (verdict, j', rc))))"
| "pred_on S H h args (PCompare op lhs rhs) j rc =
     (let rc = rc\<lparr>rc_predicates := rc_predicates rc + 1\<rparr>; st = peek S (jo_inner j)
      in (bindR (expr_eval lhs st args) (\<lambda>a. bindR (expr_eval rhs st args) (\<lambda>b. cmp_apply op a b)), j, rc))"
| "pred_on S H h args (PAnd ps) j rc = pred_and S H h args ps j (rc\<lparr>rc_predicates := rc_predicates rc + 1\<rparr>)"
| "pred_on S H h args (POr ps) j rc = pred_or S H h args ps j (rc\<lparr>rc_predicates := rc_predicates rc + 1\<rparr>)"
| "pred_on S H h args (PNot p) j rc =
     (case pred_on S H h args p j (rc\<lparr>rc_predicates := rc_predicates rc + 1\<rparr>) of
        (r, j', rc) \<Rightarrow> (bindR r (\<lambda>b. Inr (\<not> b)), j', rc))"
| "pred_and S H h args [] j rc = (Inr True, j, rc)"
| "pred_and S H h args (p # ps) j rc =
     (case pred_on S H h args p j rc of
        (Inl f, j', rc) \<Rightarrow> (Inl f, j', rc)
      | (Inr b, j', rc) \<Rightarrow> (if \<not> b then (Inr False, j', rc) else pred_and S H h args ps j' rc))"
| "pred_or S H h args [] j rc = (Inr False, j, rc)"
| "pred_or S H h args (p # ps) j rc =
     (case pred_on S H h args p j rc of
        (Inl f, j', rc) \<Rightarrow> (Inl f, j', rc)
      | (Inr b, j', rc) \<Rightarrow> (if b then (Inr True, j', rc) else pred_or S H h args ps j' rc))"

definition effect_on ::
    "'s state_ops \<Rightarrow> 'h host \<Rightarrow> footprint \<Rightarrow> u16 \<Rightarrow> val list \<Rightarrow> 'h \<Rightarrow> 's journal_on \<Rightarrow> (fault + unit) \<times> 'h \<times> 's journal_on" where
  "effect_on S H fp kind vs h j =
     (case confined_on S (host_effect H h kind vs) fp j None of
        ((h', outcome), j', viol) \<Rightarrow>
          (case viol of Some k \<Rightarrow> Inl (OutsideFootprint k) | None \<Rightarrow> outcome, h', j'))"

fun run_on ::
      "'s state_ops \<Rightarrow> 'h host \<Rightarrow> val list \<Rightarrow> ergon_term \<Rightarrow> 'h \<Rightarrow> 's journal_on \<Rightarrow> receipt \<Rightarrow>
       (fault + unit) \<times> 'h \<times> 's journal_on \<times> receipt"
  and run_list_on ::
      "'s state_ops \<Rightarrow> 'h host \<Rightarrow> val list \<Rightarrow> ergon_term list \<Rightarrow> 'h \<Rightarrow> 's journal_on \<Rightarrow> receipt \<Rightarrow>
       (fault + unit) \<times> 'h \<times> 's journal_on \<times> receipt"
  and run_alt_on ::
      "'s state_ops \<Rightarrow> 'h host \<Rightarrow> val list \<Rightarrow> (predicate \<times> ergon_term) list \<Rightarrow> 'h \<Rightarrow> 's journal_on \<Rightarrow> receipt \<Rightarrow>
       (fault + unit) \<times> 'h \<times> 's journal_on \<times> receipt"
where
  "run_on S H args (Do e) h j rc =
     (case eval_args (eff_args e) (peek S (jo_inner j)) args of
        Inl f \<Rightarrow> (Inl f, h, j, rc)
      | Inr evaluated \<Rightarrow>
          (case effect_on S H (effect_footprint e) (eff_kind e) evaluated h j of
             (Inl f, h', j') \<Rightarrow> (Inl f, h', j', rc)
           | (Inr _, h', j') \<Rightarrow> (Inr (), h', j', rc\<lparr>rc_effects := rc_effects rc + 1\<rparr>)))"
| "run_on S H args (Seq ts) h j rc = run_list_on S H args ts h j rc"
| "run_on S H args (Par ts) h j rc = run_list_on S H args ts h j rc"
| "run_on S H args (Gate p t) h j rc =
     (case pred_on S H h args p j rc of
        (Inl f, j', rc) \<Rightarrow> (Inl f, h, j', rc)
      | (Inr b, j', rc) \<Rightarrow> (if b then run_on S H args t h j' rc else (Inr (), h, j', rc)))"
| "run_on S H args (Alt bs) h j rc = run_alt_on S H args bs h j rc"
| "run_on S H args (Prove c) h j rc =
     (case host_verify H h c of
        Inl f \<Rightarrow> (Inl f, h, j, rc)
      | Inr verified \<Rightarrow>
          (if \<not> verified then (Inl (ClaimUnproven (claim_kind c)), h, j, rc)
           else case effect_on S H (claim_footprint c) (claim_kind c) [] h j of
                  (Inl f, h', j') \<Rightarrow> (Inl f, h', j', rc)
                | (Inr _, h', j') \<Rightarrow> (Inr (), h', j', rc\<lparr>rc_claims := rc_claims rc + 1\<rparr>)))"
| "run_list_on S H args [] h j rc = (Inr (), h, j, rc)"
| "run_list_on S H args (t # ts) h j rc =
     (case run_on S H args t h j rc of
        (Inl f, h', j', rc') \<Rightarrow> (Inl f, h', j', rc')
      | (Inr _, h', j', rc') \<Rightarrow> run_list_on S H args ts h' j' rc')"
| "run_alt_on S H args [] h j rc = (Inr (), h, j, rc)"
| "run_alt_on S H args ((p, t) # bs) h j rc =
     (case pred_on S H h args p j rc of
        (Inl f, j', rc) \<Rightarrow> (Inl f, h, j', rc)
      | (Inr b, j', rc) \<Rightarrow>
          (if b then run_on S H args t h j' rc
           else run_alt_on S H args bs h j' (rc\<lparr>rc_declined := rc_declined rc + 1\<rparr>)))"

definition eval_on ::
    "'s state_ops \<Rightarrow> 'h host \<Rightarrow> ergon_term \<Rightarrow> val list \<Rightarrow> 'h \<Rightarrow> 's \<Rightarrow> (fault + receipt) \<times> 'h \<times> 's" where
  "eval_on S H t args h s =
     (case run_on S H args t h (jo_new s) receipt_default of
        (Inr _, h', j, rc) \<Rightarrow> (Inr rc, h', jo_inner j)
      | (Inl f, h', j, rc) \<Rightarrow> (Inl f, h', jo_inner (jo_rollback S j)))"

section \<open>A plain map is the evaluator of \<open>Ergon_Exec\<close>\<close>

definition store_ops :: "store state_ops" where
  "store_ops = \<lparr>st_get = (\<lambda>s k. (s k, s)), st_set = (\<lambda>s k v. s(k \<mapsto> v))\<rparr>"

definition to_jo :: "journal \<Rightarrow> store journal_on" where
  "to_jo j = \<lparr>jo_inner = jinner j, jo_undo = jundo j\<rparr>"

lemma store_ops_simps [simp]: "st_get store_ops s k = (s k, s)" "st_set store_ops s k v = s(k \<mapsto> v)"
  by (simp_all add: store_ops_def)

lemma peek_store [simp]: "peek store_ops s = s"
  by (simp add: fun_eq_iff)

lemma to_jo_simps [simp]:
  "jo_inner (to_jo j) = jinner j" "jo_get store_ops (to_jo j) k = (journal_get j k, to_jo j)"
  "jo_set store_ops (to_jo j) k v = to_jo (journal_set j k v)" "jo_new s = to_jo (journal_new s)"
  "jo_inner (jo_rollback store_ops (to_jo j)) = jinner (journal_rollback j)"
proof -
  have "undo_on store_ops = rollback_entry" by (auto simp: undo_on_def rollback_entry_def fun_eq_iff)
  then show "jo_inner (jo_rollback store_ops (to_jo j)) = jinner (journal_rollback j)"
    by (simp add: to_jo_def jo_rollback_def journal_rollback_def)
qed (auto simp: to_jo_def jo_get_def journal_get_def jo_set_def journal_set_def jo_new_def journal_new_def Let_def)

lemma confined_on_store: "confined_on store_ops a fp (to_jo j) viol = apsnd (apfst to_jo) (run_confined a fp j viol)"
  by (induction a arbitrary: j viol) auto

lemma reader_on_store:
  "reader_on store_ops a rs (to_jo j) viol = (case run_confined_reader a rs (jinner j) viol of (x, v) \<Rightarrow> (x, to_jo j, v))"
  by (induction a arbitrary: viol) (auto simp: journal_get_def split: prod.split)

lemma pred_on_store:
  "pred_on store_ops H h args p (to_jo j) rc = (case eval_predicate H h args (jinner j) p rc of (r, rc') \<Rightarrow> (r, to_jo j, rc'))"
  "pred_and store_ops H h args ps (to_jo j) rc = (case eval_and H h args (jinner j) ps rc of (r, rc') \<Rightarrow> (r, to_jo j, rc'))"
  "pred_or store_ops H h args ps (to_jo j) rc = (case eval_or H h args (jinner j) ps rc of (r, rc') \<Rightarrow> (r, to_jo j, rc'))"
  by (induction H h args "jinner j" p rc and H h args "jinner j" ps rc and H h args "jinner j" ps rc
      rule: eval_predicate_eval_and_eval_or.induct)
     (auto simp: reader_on_store Let_def split: prod.splits sum.splits option.splits)

lemma effect_on_store:
  "effect_on store_ops H fp kind vs h (to_jo j) = apsnd (apsnd to_jo) (confined_effect H fp kind vs h j)"
  by (simp add: effect_on_def confined_effect_def confined_on_store split: prod.split)

lemma run_on_store:
  "run_on store_ops H args t h (to_jo j) rc = apsnd (apsnd (apfst to_jo)) (run H args t h j rc)"
  "run_list_on store_ops H args ts h (to_jo j) rc = apsnd (apsnd (apfst to_jo)) (run_list H args ts h j rc)"
  "run_alt_on store_ops H args bs h (to_jo j) rc = apsnd (apsnd (apfst to_jo)) (run_alt H args bs h j rc)"
  by (induction H args t h j rc and H args ts h j rc and H args bs h j rc rule: run_run_list_run_alt.induct)
     (auto simp: pred_on_store effect_on_store journal_get_def [abs_def] split: prod.splits sum.splits)

text \<open>The generic evaluator at a plain map is the evaluator the properties of \<open>Ergon_Exec\<close> are about.\<close>

lemma eval_on_store: "eval_on store_ops H t args h s = ergon_eval H t args h s"
  by (simp add: eval_on_def ergon_eval_def run_on_store split: prod.split sum.split)

section \<open>What a run preserves\<close>

abbreviation res_on :: "'r \<times> 'h \<times> 'j \<times> 'c \<Rightarrow> 'j" where
  "res_on x \<equiv> fst (snd (snd x))"

lemma reader_on_inv:
  assumes "\<And>j k. P j \<Longrightarrow> P (snd (jo_get S j k))" "P j"
  shows "P (fst (snd (reader_on S a rs j viol)))"
  using assms(2) by (induction a arbitrary: j viol) (auto simp: assms(1))

lemma pred_on_inv:
  assumes "\<And>j k. P j \<Longrightarrow> P (snd (jo_get S j k))"
  shows "P j \<Longrightarrow> P (fst (snd (pred_on S H h args p j rc)))"
    and "P j \<Longrightarrow> P (fst (snd (pred_and S H h args ps j rc)))"
    and "P j \<Longrightarrow> P (fst (snd (pred_or S H h args ps j rc)))"
  using assms
proof (induction S H h args p j rc and S H h args ps j rc and S H h args ps j rc rule: pred_on_pred_and_pred_or.induct)
  case (1 S H h args kind rs exprs j rc)
  then have "P (fst (snd (reader_on S a rs j viol)))" for a :: "(fault + bool) ract" and viol
    using reader_on_inv [of P S j a rs viol] by blast
  then show ?case using 1 by (auto simp: Let_def split: sum.split prod.split option.split) (metis fst_conv snd_conv)+
qed (auto simp: Let_def split: sum.splits prod.splits)

lemma run_on_inv:
  assumes "\<And>j k. P j \<Longrightarrow> P (snd (jo_get S j k))"
    and "\<And>fp kind vs h j. P j \<Longrightarrow> P (snd (snd (effect_on S H fp kind vs h j)))"
  shows "P j \<Longrightarrow> P (res_on (run_on S H args t h j rc))"
    and "P j \<Longrightarrow> P (res_on (run_list_on S H args ts h j rc))"
    and "P j \<Longrightarrow> P (res_on (run_alt_on S H args bs h j rc))"
  using assms
proof (induction S H args t h j rc and S H args ts h j rc and S H args bs h j rc rule: run_on_run_list_on_run_alt_on.induct)
  case (1 S H args e h j rc)
  then have "P (snd (snd (effect_on S H (effect_footprint e) (eff_kind e) vs h j)))" for vs by blast
  then show ?case using 1 by (auto split: sum.split prod.split) (metis snd_conv)+
next
  case (4 S H args p t h j rc)
  obtain r j' rc' where e: "pred_on S H h args p j rc = (r, j', rc')" by (metis prod_cases3)
  have "P j'" using pred_on_inv(1) [of P S j H h args p rc] 4(2,3) e by simp
  with 4(1) 4(3,4) e show ?case by (cases r) auto
next
  case (6 S H args c h j rc)
  then have "P (snd (snd (effect_on S H (claim_footprint c) (claim_kind c) [] h j)))" by blast
  then show ?case using 6(1)
    by (cases "effect_on S H (claim_footprint c) (claim_kind c) [] h j") (auto split: sum.split)
next
  case (8 S H args t ts h j rc)
  then have "P (res_on (run_on S H args t h j rc))" by blast
  with 8(2,4,5) show ?case by (cases "run_on S H args t h j rc"; cases "fst (run_on S H args t h j rc)") auto
next
  case (10 S H args p t bs h j rc)
  obtain r j' rc' where e: "pred_on S H h args p j rc = (r, j', rc')" by (metis prod_cases3)
  have "P j'" using pred_on_inv(1) [of P S j H h args p rc] 10(3,4) e by simp
  with 10(1,2) 10(4,5) e show ?case by (cases r) auto
qed (auto)

text \<open>What every successful effect keeps, a successful run keeps.\<close>

lemma run_on_ok:
  assumes "\<And>j k. P j \<Longrightarrow> P (snd (jo_get S j k))"
    and "\<And>fp kind vs h j. P j \<Longrightarrow> fst (effect_on S H fp kind vs h j) = Inr () \<Longrightarrow> P (snd (snd (effect_on S H fp kind vs h j)))"
  shows "P j \<Longrightarrow> fst (run_on S H args t h j rc) = Inr () \<Longrightarrow> P (res_on (run_on S H args t h j rc))"
    and "P j \<Longrightarrow> fst (run_list_on S H args ts h j rc) = Inr () \<Longrightarrow> P (res_on (run_list_on S H args ts h j rc))"
    and "P j \<Longrightarrow> fst (run_alt_on S H args bs h j rc) = Inr () \<Longrightarrow> P (res_on (run_alt_on S H args bs h j rc))"
  using assms
proof (induction S H args t h j rc and S H args ts h j rc and S H args bs h j rc rule: run_on_run_list_on_run_alt_on.induct)
  case (1 S H args e h j rc)
  show ?case
    using 1(1,2) 1(4) [of j "effect_footprint e" "eff_kind e" _ h] by (auto split: sum.splits prod.splits) (metis fst_conv snd_conv)
next
  case (4 S H args p t h j rc)
  obtain r j' rc' where e: "pred_on S H h args p j rc = (r, j', rc')" by (metis prod_cases3)
  have "P j'" using pred_on_inv(1) [of P S j H h args p rc] 4(2,4) e by simp
  with 4(1) 4(3,4,5) e show ?case by (cases r) (auto split: if_splits)
next
  case (6 S H args c h j rc)
  show ?case
    using 6(1,2) 6(4) [of j "claim_footprint c" "claim_kind c" "[]" h] by (auto split: sum.splits prod.splits if_splits)
next
  case (8 S H args t ts h j rc)
  obtain r h' j' rc' where e: "run_on S H args t h j rc = (r, h', j', rc')" by (metis prod_cases4)
  from 8(4) e have r: "r = Inr ()" by (cases r) auto
  have "P (res_on (run_on S H args t h j rc))"
  proof (rule 8(1))
    show "fst (run_on S H args t h j rc) = Inr ()" unfolding e r by simp
  qed (fact 8(3), (rule 8(5,6); assumption)+)
  then have "P j'" by (simp add: e)
  moreover have "fst (run_list_on S H args ts h' j' rc') = Inr ()" using 8(4) unfolding run_on.simps run_list_on.simps e r by simp
  ultimately have "P (res_on (run_list_on S H args ts h' j' rc'))"
  proof (rule 8(2) [OF e [symmetric] r refl refl])
  qed (rule 8(5,6); assumption)+
  then show ?case unfolding run_list_on.simps e r by simp
next
  case (10 S H args p t bs h j rc)
  obtain r j' rc' where e: "pred_on S H h args p j rc = (r, j', rc')" by (metis prod_cases3)
  have "P j'" using pred_on_inv(1) [of P S j H h args p rc] 10(3,5) e by simp
  with 10(1,2) 10(4,5,6) e show ?case by (cases r) (auto split: if_splits)
qed auto

lemma confined_violation_sticks: "snd (snd (confined_on S a fp j (Some k))) = Some k"
  by (induction a arbitrary: j) (auto simp: confined_record_def split: prod.split)

end
