(* ===== verification/Dromos_Scheduler.thy ===== *)
theory Dromos_Scheduler
  imports Btree Ergon_Exec "HOL-Library.Multiset"
begin

text \<open>
  The deterministic parallel scheduler of DROMOS (\<open>fanos-dromos/src/scheduler.rs\<close>): the ordered access
  lists of a block are partitioned into waves, one pass over two maps from keys to the highest wave
  that has written or read them. The lemmas show that the pass computes the level of each transaction
  in the conflict graph, and that executing the waves, each in any order, is executing the block
  serially, for every step function that keeps to its access list (the locale \<open>access_steps\<close>). The
  ERGON evaluator is such a step function.
\<close>

record access_list =
  al_reads :: "key list"
  al_writes :: "key list"

definition al_new :: "key list \<Rightarrow> key list \<Rightarrow> access_list" where
  "al_new rs ws = \<lparr>al_reads = sort_dedup rs, al_writes = sort_dedup ws\<rparr>"

definition set_intersects :: "key list \<Rightarrow> key list \<Rightarrow> bool" where
  "set_intersects a b =
     (let (small, large) = (if length a \<le> length b then (a, b) else (b, a))
      in list_ex (\<lambda>k. k \<in> set large) small)"

definition conflicts_with :: "access_list \<Rightarrow> access_list \<Rightarrow> bool" where
  "conflicts_with a b =
     (set_intersects (al_writes a) (al_writes b)
      \<or> set_intersects (al_writes a) (al_reads b)
      \<or> set_intersects (al_reads a) (al_writes b))"

text \<open>
  \<open>wave.max(w + 1)\<close> when the map has an entry. A wave number is below the number of transactions
  (\<open>wave_loop_bound\<close>), so the \<open>usize\<close> sums do not overflow and waves are naturals.
\<close>

definition past :: "(key, nat) btree \<Rightarrow> key \<Rightarrow> nat \<Rightarrow> nat" where
  "past m k w = (case bt_get m k of None \<Rightarrow> w | Some x \<Rightarrow> max w (x + 1))"

definition next_wave :: "(key, nat) btree \<Rightarrow> (key, nat) btree \<Rightarrow> access_list \<Rightarrow> nat" where
  "next_wave last_write last_read a =
     (let w = fold (\<lambda>k w. past last_read k (past last_write k w)) (al_writes a) 0
      in fold (past last_write) (al_reads a) w)"

definition note_wave :: "nat \<Rightarrow> key list \<Rightarrow> (key, nat) btree \<Rightarrow> (key, nat) btree" where
  "note_wave w ks m =
     fold (\<lambda>k m. bt_insert k (case bt_get m k of None \<Rightarrow> w | Some e \<Rightarrow> max e w) m) ks m"

primrec wave_loop :: "access_list list \<Rightarrow> (key, nat) btree \<Rightarrow> (key, nat) btree \<Rightarrow> nat list" where
  "wave_loop [] last_write last_read = []"
| "wave_loop (a # as) last_write last_read =
     (let w = next_wave last_write last_read a
      in w # wave_loop as (note_wave w (al_writes a) last_write) (note_wave w (al_reads a) last_read))"

definition wave_of :: "access_list list \<Rightarrow> nat list" where
  "wave_of access = wave_loop access [] []"

definition push_bucket :: "nat \<times> nat \<Rightarrow> nat list list \<Rightarrow> nat list list" where
  "push_bucket iw waves =
     (if snd iw < length waves then waves[snd iw := waves ! snd iw @ [fst iw]] else waves)"

definition schedule_waves :: "access_list list \<Rightarrow> nat list list" where
  "schedule_waves access =
     (let ws = wave_of access;
          wave_count = (if ws = [] then 0 else Max (set ws) + 1)
      in fold push_bucket (enumerate 0 ws) (replicate wave_count []))"

definition schedule_width :: "nat list list \<Rightarrow> nat" where
  "schedule_width waves = (if waves = [] then 0 else Max (length ` set waves))"

section \<open>Conflicts\<close>

lemma set_intersects_iff: "set_intersects a b \<longleftrightarrow> set a \<inter> set b \<noteq> {}"
  by (auto simp: set_intersects_def list_ex_iff)

lemma conflicts_with_iff:
  "conflicts_with a b \<longleftrightarrow>
     set (al_writes a) \<inter> (set (al_writes b) \<union> set (al_reads b)) \<noteq> {} \<or> set (al_reads a) \<inter> set (al_writes b) \<noteq> {}"
  by (auto simp: conflicts_with_def set_intersects_iff)

lemma conflicts_with_sym: "conflicts_with a b \<longleftrightarrow> conflicts_with b a"
  by (auto simp: conflicts_with_iff)

section \<open>The pass computes levels\<close>

text \<open>The wave a map asks of a key: one past its entry.\<close>

definition floor_of :: "(key, nat) btree \<Rightarrow> key \<Rightarrow> nat" where
  "floor_of m k = (case bt_get m k of None \<Rightarrow> 0 | Some w \<Rightarrow> Suc w)"

lemma past_eq: "past m k w = max w (floor_of m k)"
  by (simp add: past_def floor_of_def split: option.splits)

lemma fold_max_le: "fold (\<lambda>k w. max w (f k)) ks w \<le> (x :: nat) \<longleftrightarrow> w \<le> x \<and> (\<forall>k \<in> set ks. f k \<le> x)"
  by (induction ks arbitrary: w) auto

lemma next_wave_le:
  "next_wave lw lr a \<le> x \<longleftrightarrow>
     (\<forall>k \<in> set (al_writes a). floor_of lw k \<le> x \<and> floor_of lr k \<le> x) \<and> (\<forall>k \<in> set (al_reads a). floor_of lw k \<le> x)"
proof -
  have step: "(\<lambda>k w. past lr k (past lw k w)) = (\<lambda>k w. max w (max (floor_of lw k) (floor_of lr k)))"
    and read: "past lw = (\<lambda>k w. max w (floor_of lw k))"
    by (simp_all add: past_eq fun_eq_iff max.assoc)
  show ?thesis unfolding next_wave_def Let_def step unfolding read by (auto simp: fold_max_le)
qed

lemma floor_of_note_wave:
  "floor_of (note_wave w ks m) k = (if k \<in> set ks then max (floor_of m k) (Suc w) else floor_of m k)"
  unfolding note_wave_def
  by (induction ks arbitrary: m) (auto simp: floor_of_def split: option.splits)

text \<open>What the maps hold after the transactions \<open>hist\<close> (each with its wave).\<close>

definition maps_hold :: "(nat \<times> access_list) list \<Rightarrow> (key, nat) btree \<Rightarrow> (key, nat) btree \<Rightarrow> bool" where
  "maps_hold hist lw lr \<longleftrightarrow>
     (\<forall>k x. (floor_of lw k \<le> x \<longleftrightarrow> (\<forall>(w, a) \<in> set hist. k \<in> set (al_writes a) \<longrightarrow> Suc w \<le> x)) \<and>
            (floor_of lr k \<le> x \<longleftrightarrow> (\<forall>(w, a) \<in> set hist. k \<in> set (al_reads a) \<longrightarrow> Suc w \<le> x)))"

lemma maps_hold_start: "maps_hold [] [] []"
  by (simp add: maps_hold_def floor_of_def)

lemma maps_hold_note:
  assumes "maps_hold hist lw lr"
  shows "maps_hold (hist @ [(w, a)]) (note_wave w (al_writes a) lw) (note_wave w (al_reads a) lr)"
  using assms by (auto simp: maps_hold_def floor_of_note_wave)

lemma next_wave_level:
  assumes "maps_hold hist lw lr"
  shows "next_wave lw lr a \<le> x \<longleftrightarrow> (\<forall>(w, b) \<in> set hist. conflicts_with b a \<longrightarrow> Suc w \<le> x)"
  using assms unfolding next_wave_le maps_hold_def conflicts_with_iff by fast

lemma length_wave_loop [simp]: "length (wave_loop as lw lr) = length as"
  by (induction as arbitrary: lw lr) (simp_all add: Let_def)

lemma length_wave_of [simp]: "length (wave_of access) = length access"
  by (simp add: wave_of_def)

lemma wave_loop_level:
  assumes "maps_hold hist lw lr" "j < length as"
  shows "wave_loop as lw lr ! j \<le> x \<longleftrightarrow>
    (\<forall>(w, b) \<in> set (hist @ zip (take j (wave_loop as lw lr)) (take j as)). conflicts_with b (as ! j) \<longrightarrow> Suc w \<le> x)"
  using assms
proof (induction as arbitrary: hist lw lr j)
  case (Cons a as)
  let ?w = "next_wave lw lr a"
  show ?case
  proof (cases j)
    case 0
    then show ?thesis using next_wave_level [OF Cons.prems(1)] by (simp add: Let_def)
  next
    case (Suc i)
    then show ?thesis
      using Cons.IH [OF maps_hold_note [OF Cons.prems(1), of ?w a], of i] Cons.prems(2) by (simp add: Let_def)
  qed
qed simp

lemma wave_of_le:
  assumes "j < length access"
  shows "wave_of access ! j \<le> x \<longleftrightarrow> (\<forall>i < j. conflicts_with (access ! i) (access ! j) \<longrightarrow> wave_of access ! i < x)"
proof -
  have "set (zip (take j (wave_of access)) (take j access)) = (\<lambda>i. (wave_of access ! i, access ! i)) ` {..<j}"
    using assms by (force simp: set_zip image_iff)
  then show ?thesis
    using wave_loop_level [OF maps_hold_start assms, of x] by (auto simp: wave_of_def Suc_le_eq)
qed

lemma wave_of_conflict:
  assumes "i < j" "j < length access" "conflicts_with (access ! i) (access ! j)"
  shows "wave_of access ! i < wave_of access ! j"
  using assms wave_of_le [of j access "wave_of access ! j"] by blast

lemma wave_loop_bound: "j < length access \<Longrightarrow> wave_of access ! j \<le> j"
proof (induction j rule: less_induct)
  case (less j)
  then show ?case using wave_of_le [of j access j] order.strict_trans le_less_trans by blast
qed

section \<open>The buckets\<close>

lemma length_push_bucket [simp]: "length (push_bucket iw ws) = length ws"
  by (simp add: push_bucket_def)

lemma length_fold_push [simp]: "length (fold push_bucket xs ws) = length ws"
  by (induction xs arbitrary: ws) simp_all

lemma fold_push_bucket:
  "w < length waves \<Longrightarrow>
     fold push_bucket xs waves ! w = waves ! w @ map fst (filter (\<lambda>iw. snd iw = w) xs)"
  by (induction xs arbitrary: waves) (auto simp: push_bucket_def nth_list_update)

lemma length_schedule:
  "length (schedule_waves access) = (if access = [] then 0 else Max (set (wave_of access)) + 1)"
  using length_wave_of [of access] by (auto simp: schedule_waves_def Let_def simp del: length_wave_of)

lemma wave_in_schedule: "i < length access \<Longrightarrow> wave_of access ! i < length (schedule_waves access)"
  by (auto simp: length_schedule less_Suc_eq_le)

lemma schedule_nth:
  assumes "w < length (schedule_waves access)"
  shows "schedule_waves access ! w = filter (\<lambda>i. wave_of access ! i = w) [0..<length access]"
proof -
  have "map fst (filter (\<lambda>iw. snd iw = w) (enumerate 0 xs)) = filter (\<lambda>i. xs ! i = w) [0..<length xs]" for xs :: "nat list"
  proof (induction xs rule: rev_induct)
    case (snoc x xs)
    have "filter (\<lambda>i. (xs @ [x]) ! i = w) [0..<length xs] = filter (\<lambda>i. xs ! i = w) [0..<length xs]"
      by (rule filter_cong) (simp_all add: nth_append)
    then show ?case using snoc by (simp add: enumerate_append_eq)
  qed simp
  then show ?thesis using assms length_wave_of [of access]
    by (simp add: schedule_waves_def Let_def fold_push_bucket split: if_splits)
qed

lemma set_schedule:
  "i \<in> set (schedule_waves access ! w) \<longleftrightarrow> i < length access \<and> wave_of access ! i = w"
  if "w < length (schedule_waves access)"
  using that by (auto simp: schedule_nth)

lemma schedule_level:
  assumes "w < length (schedule_waves access)" "i \<in> set (schedule_waves access ! w)"
  shows "i < length access" "wave_of access ! i = w"
  using assms by (simp_all add: set_schedule)

lemma schedule_wave_independent:
  assumes "w < length (schedule_waves access)" "i \<in> set (schedule_waves access ! w)"
    "j \<in> set (schedule_waves access ! w)" "i \<noteq> j"
  shows "\<not> conflicts_with (access ! i) (access ! j)"
  using schedule_level [OF assms(1,2)] schedule_level [OF assms(1,3)] assms(4)
    wave_of_conflict [of i j access] wave_of_conflict [of j i access] conflicts_with_sym
  by (metis less_irrefl nat_neq_iff)

lemma strict_sorted_schedule:
  "w < length (schedule_waves access) \<Longrightarrow> strict_sorted (schedule_waves access ! w)"
  by (simp add: schedule_nth sorted_wrt_filter)

lemma set_concat_schedule: "set (concat (schedule_waves access)) = {..<length access}"
proof (intro set_eqI iffI)
  fix i assume "i \<in> set (concat (schedule_waves access))"
  then obtain w where "w < length (schedule_waves access)" "i \<in> set (schedule_waves access ! w)"
    by (auto simp: in_set_conv_nth [where xs = "schedule_waves access"])
  then show "i \<in> {..<length access}" using schedule_level(1) by simp
next
  fix i assume "i \<in> {..<length access}"
  then have "i \<in> set (schedule_waves access ! (wave_of access ! i))"
    by (simp add: set_schedule wave_in_schedule)
  with \<open>i \<in> {..<length access}\<close> show "i \<in> set (concat (schedule_waves access))"
    using wave_in_schedule nth_mem by fastforce
qed

lemma sorted_wrt_concatI:
  assumes "\<And>w. w < length xss \<Longrightarrow> sorted_wrt R (xss ! w)"
    and "\<And>v w x y. v < w \<Longrightarrow> w < length xss \<Longrightarrow> x \<in> set (xss ! v) \<Longrightarrow> y \<in> set (xss ! w) \<Longrightarrow> R x y"
  shows "sorted_wrt R (concat xss)"
  using assms
proof (induction xss)
  case (Cons xs xss)
  have "sorted_wrt R (concat xss)"
    by (rule Cons.IH) (use Cons.prems(1) [of "Suc _"] Cons.prems(2) [of "Suc _" "Suc _"] in auto)
  moreover have "R x y" if "x \<in> set xs" "y \<in> set (concat xss)" for x y
    using that Cons.prems(2) [of 0 "Suc _" x y] by (fastforce simp: in_set_conv_nth [where xs = xss])
  ultimately show ?case using Cons.prems(1) [of 0] by (simp add: sorted_wrt_append)
qed simp

lemma distinct_conv_sorted_wrt: "distinct xs \<longleftrightarrow> sorted_wrt (\<noteq>) xs"
  by (induction xs) auto

lemma distinct_concat_schedule: "distinct (concat (schedule_waves access))"
  unfolding distinct_conv_sorted_wrt
proof (rule sorted_wrt_concatI)
  show "sorted_wrt (\<noteq>) (schedule_waves access ! w)" if "w < length (schedule_waves access)" for w
    using that by (simp add: schedule_nth flip: distinct_conv_sorted_wrt)
  show "x \<noteq> y" if "v < w" "w < length (schedule_waves access)"
    "x \<in> set (schedule_waves access ! v)" "y \<in> set (schedule_waves access ! w)" for v w x y
    using that by (auto simp: set_schedule)
qed

lemma schedule_mset: "mset (concat (schedule_waves access)) = mset [0..<length access]"
  by (rule set_eq_iff_mset_eq_distinct [THEN iffD1, OF distinct_concat_schedule distinct_upt])
     (simp add: set_concat_schedule atLeast0LessThan del: set_concat)

text \<open>
  C28. The one-pass scheduler computes the levels of the conflict graph: the waves hold every index of
  the block exactly once, ascending within a wave, and the wave of transaction \<open>j\<close> is the least number
  above the wave of every earlier transaction that conflicts with it. In particular two transactions of one
  wave never conflict.
\<close>

theorem schedule_is_level_assignment:
  "mset (concat (schedule_waves access)) = mset [0..<length access] \<and>
   (\<forall>w < length (schedule_waves access). strict_sorted (schedule_waves access ! w) \<and>
      (\<forall>i \<in> set (schedule_waves access ! w). wave_of access ! i = w \<and>
        (\<forall>j \<in> set (schedule_waves access ! w). i \<noteq> j \<longrightarrow> \<not> conflicts_with (access ! i) (access ! j)))) \<and>
   (\<forall>j < length access. \<forall>x. wave_of access ! j \<le> x \<longleftrightarrow>
      (\<forall>i < j. conflicts_with (access ! i) (access ! j) \<longrightarrow> wave_of access ! i < x))"
  using schedule_mset strict_sorted_schedule schedule_level(2) schedule_wave_independent wave_of_le by blast

lemma wave_of_chain_example:
  "wave_of [al_new [] [Key 0 0 [1]], al_new [Key 0 0 [1]] [Key 0 0 [2]], al_new [] [Key 0 0 [3]]] = [0, 1, 0]"
  by (simp add: wave_of_def next_wave_def past_def note_wave_def al_new_def sort_dedup_def Let_def bt_get_def)

theorem schedule_is_level_assignment_witness:
  "schedule_waves [al_new [] [Key 0 0 [1]], al_new [Key 0 0 [1]] [Key 0 0 [2]], al_new [] [Key 0 0 [3]]] = [[0, 2], [1]] \<and>
   \<not> conflicts_with (al_new [] [Key 0 0 [1]]) (al_new [] [Key 0 0 [3]])"
proof -
  let ?a = "[al_new [] [Key 0 0 [1]], al_new [Key 0 0 [1]] [Key 0 0 [2]], al_new [] [Key 0 0 [3]]]"
  have s: "schedule_waves ?a = [[0, 2], [1]]"
    by (simp add: schedule_waves_def wave_of_chain_example push_bucket_def Let_def eval_nat_numeral)
  have "\<not> conflicts_with (?a ! 0) (?a ! 2)"
    using schedule_is_level_assignment [of ?a] unfolding s by force
  then show ?thesis using s by simp
qed

section \<open>Wave execution is serial execution\<close>

text \<open>
  The contract between the scheduler and what it schedules: a step changes only keys its access list
  writes, and what it leaves there depends only on the keys its list reads or writes.
\<close>

abbreviation al_keys :: "access_list \<Rightarrow> key set" where
  "al_keys a \<equiv> set (al_reads a) \<union> set (al_writes a)"

locale access_steps =
  fixes valid :: "'t \<Rightarrow> bool"
    and step :: "'t \<Rightarrow> (key \<Rightarrow> 'v) \<Rightarrow> key \<Rightarrow> 'v"
    and access :: "'t \<Rightarrow> access_list"
  assumes frame: "valid t \<Longrightarrow> k \<notin> set (al_writes (access t)) \<Longrightarrow> step t s k = s k"
    and depends: "valid t \<Longrightarrow> \<forall>k \<in> al_keys (access t). s k = u k \<Longrightarrow>
      k \<in> al_keys (access t) \<Longrightarrow> step t s k = step t u k"
begin

lemma commute:
  assumes "valid t" "valid u" "\<not> conflicts_with (access t) (access u)"
  shows "step t (step u s) = step u (step t s)"
proof
  fix k
  have t: "step t (step u s) k = step t s k" if "k \<in> al_keys (access t)"
    using depends [OF assms(1) _ that, of "step u s" s] frame [OF assms(2)] assms(3)
    by (force simp: conflicts_with_iff)
  have u: "step u (step t s) k = step u s k" if "k \<in> al_keys (access u)"
    using depends [OF assms(2) _ that, of "step t s" s] frame [OF assms(1)] assms(3)
    by (force simp: conflicts_with_iff)
  consider "k \<in> set (al_writes (access t))" | "k \<in> set (al_writes (access u))"
    | "k \<notin> set (al_writes (access t))" "k \<notin> set (al_writes (access u))" by blast
  then show "step t (step u s) k = step u (step t s) k"
  proof cases
    case 1
    with assms(3) have "k \<notin> set (al_writes (access u))" by (auto simp: conflicts_with_iff)
    with 1 t show ?thesis by (simp add: frame [OF assms(2)])
  next
    case 2
    with assms(3) have "k \<notin> set (al_writes (access t))" by (auto simp: conflicts_with_iff)
    with 2 u show ?thesis by (simp add: frame [OF assms(1)])
  qed (simp add: frame assms(1,2))
qed

lemma commute_past:
  assumes "valid t" "\<forall>u \<in> set us. valid u \<and> \<not> conflicts_with (access u) (access t)"
  shows "fold step us (step t s) = step t (fold step us s)"
  using assms(2)
proof (induction us arbitrary: s)
  case (Cons u us)
  then have "step u (step t s) = step t (step u s)" using assms(1) by (simp add: commute)
  with Cons show ?case by simp
qed simp

text \<open>An order in which conflicting transactions keep their block order.\<close>

definition order_ok :: "'t list \<Rightarrow> nat list \<Rightarrow> bool" where
  "order_ok ts p \<longleftrightarrow> sorted_wrt (\<lambda>i j. conflicts_with (access (ts ! i)) (access (ts ! j)) \<longrightarrow> i < j) p"

abbreviation exec :: "'t list \<Rightarrow> nat list \<Rightarrow> (key \<Rightarrow> 'v) \<Rightarrow> key \<Rightarrow> 'v" where
  "exec ts p \<equiv> fold (\<lambda>i. step (ts ! i)) p"

lemma exec_sort:
  assumes "\<forall>t \<in> set ts. valid t" "set p \<subseteq> {..<length ts}" "distinct p" "order_ok ts p"
  shows "exec ts p s = exec ts (sort p) s"
  using assms(2-)
proof (induction "length p" arbitrary: p s)
  case (Suc n)
  then have ne: "p \<noteq> []" by auto
  define m where "m = Min (set p)"
  have m: "m \<in> set p" "\<And>x. x \<in> set p \<Longrightarrow> m \<le> x" using ne by (simp_all add: m_def)
  then obtain us vs where p: "p = us @ m # vs" by (meson split_list)
  with Suc.prems(2) have dist: "m \<notin> set (us @ vs)" "distinct (us @ vs)" by auto
  have free: "\<not> conflicts_with (access (ts ! u)) (access (ts ! m))" if "u \<in> set us" for u
    using Suc.prems(3) that m(2) [of u] by (auto simp: p order_ok_def sorted_wrt_append)
  have vals: "valid (ts ! i)" if "i \<in> set p" for i
    using assms(1) Suc.prems(1) that by auto
  have "fold step (map ((!) ts) us) (step (ts ! m) s) = step (ts ! m) (fold step (map ((!) ts) us) s)"
    by (rule commute_past) (use vals free m(1) p in auto)
  then have "exec ts p s = exec ts (us @ vs) (step (ts ! m) s)"
    by (simp add: p fold_map comp_def)
  also have "\<dots> = exec ts (sort (us @ vs)) (step (ts ! m) s)"
    by (rule Suc.hyps(1)) (use Suc.prems Suc.hyps(2) dist p in \<open>auto simp: order_ok_def sorted_wrt_append\<close>)
  also have "\<dots> = exec ts (m # sort (us @ vs)) s" by simp
  also have "m # sort (us @ vs) = sort p"
    by (rule properties_for_sort [symmetric]) (use m p in auto)
  finally show ?case .
qed simp

lemma wave_order_ok:
  assumes "list_all2 (\<lambda>w p. set p = set w \<and> distinct p) (schedule_waves (map access ts)) ps"
  shows "order_ok ts (concat ps)"
proof -
  let ?a = "map access ts" and ?W = "schedule_waves (map access ts)"
  have len: "length ps = length ?W" using assms by (simp add: list_all2_lengthD)
  have ps: "i < length ts \<and> wave_of ?a ! i = w" if "w < length ps" "i \<in> set (ps ! w)" for w i
    using assms that schedule_level [of w ?a i] by (auto simp: list_all2_conv_all_nth)
  have dp: "distinct (ps ! w)" if "w < length ps" for w
    using assms that by (auto simp: list_all2_conv_all_nth)
  have pair: "i < j" if "conflicts_with (access (ts ! i)) (access (ts ! j))" "i \<noteq> j"
    "i < length ts" "j < length ts" "wave_of ?a ! i \<le> wave_of ?a ! j" for i j
    using that wave_of_conflict [of j i ?a] conflicts_with_sym by (fastforce simp: not_less)
  have inner: "sorted_wrt (\<lambda>i j. conflicts_with (access (ts ! i)) (access (ts ! j)) \<longrightarrow> i < j) (ps ! w)"
    if "w < length ps" for w
    using dp [OF that] ps [OF that] pair
    by (fastforce simp: sorted_wrt_iff_nth_less nth_eq_iff_index_eq)
  show ?thesis
    unfolding order_ok_def
  proof (rule sorted_wrt_concatI)
    show "sorted_wrt (\<lambda>i j. conflicts_with (access (ts ! i)) (access (ts ! j)) \<longrightarrow> i < j) (ps ! w)"
      if "w < length ps" for w using inner [OF that] .
    show "conflicts_with (access (ts ! i)) (access (ts ! j)) \<longrightarrow> i < j"
      if "v < w" "w < length ps" "i \<in> set (ps ! v)" "j \<in> set (ps ! w)" for v w i j
      using ps [of v i] ps [of w j] pair [of i j] that by auto
  qed
qed

theorem waves_are_serial:
  assumes "\<forall>t \<in> set ts. valid t"
    and "list_all2 (\<lambda>w p. mset p = mset w) (schedule_waves (map access ts)) ps"
  shows "fold (\<lambda>i. step (ts ! i)) (concat ps) s = fold step ts s"
proof -
  let ?W = "schedule_waves (map access ts)"
  have perm: "list_all2 (\<lambda>w p. set p = set w \<and> distinct p) ?W ps"
    unfolding list_all2_conv_all_nth
  proof (intro conjI allI impI)
    show "length ?W = length ps" using assms(2) by (rule list_all2_lengthD)
    fix w assume w: "w < length ?W"
    then have e: "mset (ps ! w) = mset (?W ! w)" using assms(2) by (simp add: list_all2_conv_all_nth)
    show "set (ps ! w) = set (?W ! w)" using e by (rule mset_eq_setD)
    show "distinct (ps ! w)" using mset_eq_imp_distinct_iff [OF e] w by (simp add: schedule_nth)
  qed
  have "mset (concat ps) = mset (concat ?W)"
    using assms(2) by (induction rule: list_all2_induct) simp_all
  then have m: "mset (concat ps) = mset [0..<length ts]" using schedule_mset [of "map access ts"] by simp
  then have "set (concat ps) = {..<length ts}" "distinct (concat ps)"
    using mset_eq_setD [OF m] mset_eq_imp_distinct_iff [OF m] by auto
  then have "exec ts (concat ps) s = exec ts (sort (concat ps)) s"
    by (intro exec_sort [OF assms(1)] wave_order_ok [OF perm]) simp_all
  also have "sort (concat ps) = [0..<length ts]"
    by (rule properties_for_sort) (simp_all add: m)
  also have "exec ts [0..<length ts] s = fold step (map ((!) ts) [0..<length ts]) s" by (simp add: fold_map comp_def)
  finally show ?thesis by (simp add: map_nth)
qed

end
section \<open>ERGON terms as scheduled steps\<close>

text \<open>
  What a block of ERGON calls gives the scheduler: the access list of a call is the derived footprint
  of its term. The confinement and dependence of the evaluator are the laws of \<open>access_steps\<close>.
\<close>

type_synonym call = "ergon_term \<times> val list"

definition call_access :: "call \<Rightarrow> access_list" where
  "call_access c = (let f = term_footprint (fst c) in al_new (reads f) (writes f))"

text \<open>A call with the host it runs on: the ledger makes one for every caller and height.\<close>

definition call_step :: "unit host \<times> call \<Rightarrow> store \<Rightarrow> store" where
  "call_step hc s = (case hc of (H, t, args) \<Rightarrow> snd (snd (ergon_eval H t args () s)))"

lemma call_access_sets:
  "set (al_reads (call_access c)) = set (reads (term_footprint (fst c)))"
  "set (al_writes (call_access c)) = set (writes (term_footprint (fst c)))"
  by (simp_all add: call_access_def al_new_def Let_def)

interpretation ergon_calls: access_steps "\<lambda>hc. fps_ok (fst (snd hc))" call_step "\<lambda>hc. call_access (snd hc)"
proof unfold_locales
  show "call_step hc s k = s k" if "fps_ok (fst (snd hc))" "k \<notin> set (al_writes (call_access (snd hc)))" for hc s k
    using eval_frame [OF that(1), where k = k and H = "fst hc" and args = "snd (snd hc)" and s = s] that(2)
    by (cases "ergon_eval (fst hc) (fst (snd hc)) (snd (snd hc)) () s") (simp add: call_access_sets call_step_def case_prod_beta)
  show "call_step hc s k = call_step hc u k"
    if "fps_ok (fst (snd hc))" "\<forall>k \<in> al_keys (call_access (snd hc)). s k = u k" "k \<in> al_keys (call_access (snd hc))" for hc s u k
    using eval_depends [OF that(1), where s = s and u = u and H = "fst hc" and args = "snd (snd hc)"] that(2,3)
    by (cases "ergon_eval (fst hc) (fst (snd hc)) (snd (snd hc)) () s")
       (fastforce simp: call_access_sets call_step_def case_prod_beta fp_keys_def)
qed

text \<open>
  Wave-by-wave execution of ERGON calls on a key-value store is serial execution: when calls, each with a host of its
  own that keeps no state between effects, are executed in the waves the scheduler assigns to their derived footprints, in
  any order inside each wave, the store is the one the serial execution leaves, whatever rules the hosts run and whichever
  calls fault. The nonce and envelope checks the ledger makes around a call are not part of its footprint and are outside
  this theorem.
\<close>

theorem wave_execution_is_serial:
  assumes "\<forall>hc \<in> set cs. fps_ok (fst (snd hc))"
    and "list_all2 (\<lambda>w p. mset p = mset w) (schedule_waves (map (\<lambda>hc. call_access (snd hc)) cs)) ps"
  shows "fold (\<lambda>i. call_step (cs ! i)) (concat ps) s = fold call_step cs s"
  using assms by (rule ergon_calls.waves_are_serial)

definition chain_calls :: "call list" where
  "chain_calls = [(store_slot 1 (Lit (VInt 7)), []), (store_slot 2 (Load (cell_key 1)), []), (store_slot 3 (Lit (VInt 9)), [])]"

lemma chain_calls_schedule: "schedule_waves (map call_access chain_calls) = [[0, 2], [1]]"
proof -
  have "map call_access chain_calls =
    [al_new [] [cell_key 1], al_new [cell_key 1] [cell_key 2], al_new [] [cell_key 3]]"
    by (simp add: chain_calls_def call_access_def store_slot_def effect_with_args_def effect_internal_def
        effect_footprint_def fp_new_def fp_union_def sort_dedup_def expr_reads_def al_new_def Let_def)
  moreover have "wave_of [al_new [] [cell_key 1], al_new [cell_key 1] [cell_key 2], al_new [] [cell_key 3]] = [0, 1, 0]"
    by (simp add: wave_of_def next_wave_def past_def note_wave_def al_new_def sort_dedup_def Let_def bt_get_def)
  ultimately show ?thesis
    by (simp add: schedule_waves_def push_bucket_def Let_def eval_nat_numeral)
qed

theorem wave_execution_is_serial_witness:
  "fold (\<lambda>i. call_step (map (Pair slot_host) chain_calls ! i)) [2, 0, 1] Map.empty =
   fold call_step (map (Pair slot_host) chain_calls) Map.empty"
  using wave_execution_is_serial [of "map (Pair slot_host) chain_calls" "[[2, 0], [1]]" Map.empty]
  by (simp add: comp_def chain_calls_schedule) (simp add: chain_calls_def)

end
