(* ===== verification/Taxis_State.thy ===== *)
theory Taxis_State
  imports Fanos_Crypto
begin

text \<open>
  The interface between consensus and execution (\<open>fanos-taxis/src/state.rs\<close>): the outcome of one
  transaction and the \<open>StateMachine\<close> trait, a record of the operations an application implements. A
  transaction is its payload bytes. The trait's default methods are \<open>sm_default\<close>.
\<close>

datatype exec_outcome = ExApplied | ExRejected | ExDeferred | ExMalformed

record ('e, 'm, 'st) state_machine =
  sm_begin_block :: "u64 \<Rightarrow> 'st \<Rightarrow> 'st"
  sm_set_audit_beacon :: "byte list \<Rightarrow> 'st \<Rightarrow> 'st"
  sm_apply_block_reward :: "('e, 'm) hybrid_verifier list \<Rightarrow> u64 \<Rightarrow> 'st \<Rightarrow> 'st"
  sm_pays_block_reward :: bool
  sm_invariants_broken :: "'st \<Rightarrow> u64"
  sm_apply :: "byte list \<Rightarrow> 'st \<Rightarrow> 'st \<times> exec_outcome"
  sm_apply_block :: "byte list list \<Rightarrow> 'st \<Rightarrow> 'st \<times> exec_outcome list"
  sm_state_root :: "'st \<Rightarrow> byte list"
  sm_snapshot :: "'st \<Rightarrow> byte list"
  sm_restore :: "byte list \<Rightarrow> 'st option"

text \<open>The default \<open>apply_block\<close> applies the transactions one after the other.\<close>

primrec apply_each :: "(byte list \<Rightarrow> 'st \<Rightarrow> 'st \<times> exec_outcome) \<Rightarrow> byte list list \<Rightarrow> 'st \<Rightarrow> 'st \<times> exec_outcome list" where
  "apply_each f [] st = (st, [])"
| "apply_each f (tx # txs) st =
     (case f tx st of (st, out) \<Rightarrow> (case apply_each f txs st of (st, outs) \<Rightarrow> (st, out # outs)))"

definition sm_default ::
    "(byte list \<Rightarrow> 'st \<Rightarrow> 'st \<times> exec_outcome) \<Rightarrow> ('st \<Rightarrow> byte list) \<Rightarrow> ('st \<Rightarrow> byte list) \<Rightarrow> (byte list \<Rightarrow> 'st option) \<Rightarrow>
     ('e, 'm, 'st) state_machine" where
  "sm_default f rt snap rest =
     \<lparr>sm_begin_block = (\<lambda>_ st. st), sm_set_audit_beacon = (\<lambda>_ st. st), sm_apply_block_reward = (\<lambda>_ _ st. st),
      sm_pays_block_reward = False, sm_invariants_broken = (\<lambda>_. 0), sm_apply = f, sm_apply_block = apply_each f,
      sm_state_root = rt, sm_snapshot = snap, sm_restore = rest\<rparr>"

lemma length_apply_each [simp]: "length (snd (apply_each f txs st)) = length txs"
  by (induction txs arbitrary: st) (simp_all add: case_prod_beta)

end
