(* ===== verification/Dromos_Ergon.thy ===== *)
theory Dromos_Ergon
  imports Dromos_Hybrid Ergon_State Ergon_Codec Dromos_Scheduler Taxis_State
begin

text \<open>
  ERGON on the ledger (\<open>fanos-dromos/src/ergon_host.rs\<close>): the keys of the value spaces, the terms a wallet
  builds, the signed envelope, the adapter that shows the hybrid ledger as ERGON state, the host rules
  (transfer and name registration) and the execution of an envelope (\<open>HybridLedger::apply_term\<close>).
\<close>

section \<open>Effects, spaces and keys\<close>

definition TAG_TRANSPARENT :: byte where "TAG_TRANSPARENT = 0x00"
definition TAG_NAME :: byte where "TAG_NAME = 0x02"

definition EFFECT_TRANSFER :: u16 where "EFFECT_TRANSFER = ucast TAG_TRANSPARENT"
definition EFFECT_NAME_REGISTER :: u16 where "EFFECT_NAME_REGISTER = ucast TAG_NAME"
definition PRED_NAME_OWNED :: u16 where "PRED_NAME_OWNED = ucast TAG_NAME"

definition LEDGER_POINT :: u32 where "LEDGER_POINT = 0"
definition SPACE_BALANCE :: u16 where "SPACE_BALANCE = 0"
definition SPACE_SHIELDED :: u16 where "SPACE_SHIELDED = 1"
definition SPACE_NAME :: u16 where "SPACE_NAME = 2"
definition SPACE_STORAGE :: u16 where "SPACE_STORAGE = 3"
definition SPACE_HTLC :: u16 where "SPACE_HTLC = 4"

lemmas spaces = SPACE_BALANCE_def SPACE_SHIELDED_def SPACE_NAME_def SPACE_STORAGE_def SPACE_HTLC_def

definition shielded_key :: "byte list \<Rightarrow> key" where "shielded_key m = key_at LEDGER_POINT SPACE_SHIELDED m"
definition name_key :: "byte list \<Rightarrow> key" where "name_key h = key_at LEDGER_POINT SPACE_NAME h"
definition storage_key :: "byte list \<Rightarrow> key" where "storage_key d = key_at LEDGER_POINT SPACE_STORAGE d"
definition htlc_key :: "byte list \<Rightarrow> key" where "htlc_key i = key_at LEDGER_POINT SPACE_HTLC i"
definition balance_key :: "account \<Rightarrow> key" where "balance_key a = key_at LEDGER_POINT SPACE_BALANCE a"

section \<open>Terms\<close>

definition transfer_term_with :: "account \<Rightarrow> account \<Rightarrow> expr \<Rightarrow> ergon_term" where
  "transfer_term_with f t x =
     Do (effect_with_args (effect_internal EFFECT_TRANSFER (fp_new [] [balance_key f, balance_key t]))
           [Lit (VBytes32 f), Lit (VBytes32 t), x])"

definition transfer_term :: "account \<Rightarrow> account \<Rightarrow> u64 \<Rightarrow> ergon_term" where
  "transfer_term f t x = transfer_term_with f t (Lit (VInt (ucast x)))"

definition payment_term :: "account \<Rightarrow> (account \<times> u64) list \<Rightarrow> ergon_term option" where
  "payment_term f legs =
     (case legs of
        [] \<Rightarrow> None
      | [(t, x)] \<Rightarrow> Some (transfer_term f t x)
      | _ \<Rightarrow> Some (Seq (map (\<lambda>(t, x). transfer_term f t x) legs)))"

definition name_register_term ::
    "('e, 'm, 's) crypto \<Rightarrow> byte list \<Rightarrow> byte list \<Rightarrow> u64 \<Rightarrow> u64 \<Rightarrow> account \<Rightarrow> ergon_term" where
  "name_register_term C nm target duration fee payer =
     Do (effect_with_args
           (effect_internal EFFECT_NAME_REGISTER
              (fp_new [] [balance_key payer, balance_key TREASURY, name_key (name_digest C nm)]))
           [Lit (VBytes nm), Lit (VBytes target), Lit (VInt (ucast duration)), Lit (VInt (ucast fee))])"

section \<open>The signed envelope\<close>

definition TERM_LABEL :: string where "TERM_LABEL = ''FANOS/ergon/term/v1''"

record ('e, 'm) signed_term =
  sg_term :: "byte list"
  sg_nonce :: u64
  sg_caller_key :: "('e, 'm) hybrid_verifier"
  sg_sig :: "byte list"

definition sg_signable :: "u64 \<Rightarrow> byte list \<Rightarrow> byte list" where
  "sg_signable n t = ascii TERM_LABEL @ put_le 8 n @ t"

definition sg_sign ::
    "('e, 'm, 's) crypto \<Rightarrow> byte list \<Rightarrow> u64 \<Rightarrow> 's hybrid_sig_secret \<Rightarrow> ('e, 'm) hybrid_verifier \<Rightarrow> ('e, 'm) signed_term" where
  "sg_sign C t n signer k =
     \<lparr>sg_term = t, sg_nonce = n, sg_caller_key = k, sg_sig = hsig_to_bytes C (hybrid_sign signer (sg_signable n t))\<rparr>"

definition sg_caller :: "('e, 'm, 's) crypto \<Rightarrow> ('e, 'm) signed_term \<Rightarrow> account" where
  "sg_caller C e = account_id C (sg_caller_key e)"

definition sg_verify :: "('e, 'm, 's) crypto \<Rightarrow> ('e, 'm) signed_term \<Rightarrow> bool" where
  "sg_verify C e = sig_bytes_verify C (sg_caller_key e) (sg_signable (sg_nonce e) (sg_term e)) (sg_sig e)"

definition sg_to_bytes :: "('e, 'm, 's) crypto \<Rightarrow> ('e, 'm) signed_term \<Rightarrow> byte list" where
  "sg_to_bytes C e = put_le 8 (sg_nonce e) @ vk_encode C (sg_caller_key e) @ sg_sig e @ sg_term e"

definition sg_from_bytes :: "('e, 'm, 's) crypto \<Rightarrow> byte list \<Rightarrow> ('e, 'm) signed_term option" where
  "sg_from_bytes C bs = do {
     (n, r) \<leftarrow> rd_le 8 bs;
     (kb, r) \<leftarrow> rd_take HYBRID_VK_LEN r;
     k \<leftarrow> vk_decode C kb;
     (sig, t) \<leftarrow> rd_take HYBRID_SIG_LEN r;
     Some \<lparr>sg_term = t, sg_nonce = n, sg_caller_key = k, sg_sig = sig\<rparr> }"

definition sg_checked :: "('e, 'm) signed_term \<Rightarrow> limits \<Rightarrow> ergon_term option" where
  "sg_checked e lim = (case checked_decode (sg_term e) lim of Inl _ \<Rightarrow> None | Inr t \<Rightarrow> Some t)"

section \<open>Name records as values\<close>

definition F_NAME :: u16 where "F_NAME = 3"
definition F_OWNER :: u16 where "F_OWNER = 0"
definition F_TARGET :: u16 where "F_TARGET = 1"
definition F_EXPIRY :: u16 where "F_EXPIRY = 2"

definition name_record_value :: "name_record \<Rightarrow> val" where
  "name_record_value r =
     (case val_record [(F_NAME, VBytes (nr_name r)), (F_OWNER, VBytes32 (nr_owner r)), (F_TARGET, VBytes (nr_target r)),
                       (F_EXPIRY, VInt (ucast (nr_expiry r)))] of
        Some v \<Rightarrow> v | None \<Rightarrow> VInt 0)"

abbreviation ok_of :: "'f + 'a \<Rightarrow> 'a option" where
  "ok_of r \<equiv> (case r of Inl _ \<Rightarrow> None | Inr x \<Rightarrow> Some x)"

definition name_record_from :: "val \<Rightarrow> name_record option" where
  "name_record_from v = do {
     nv \<leftarrow> ok_of (val_field v F_NAME); nm \<leftarrow> ok_of (as_bytes nv);
     ov \<leftarrow> ok_of (val_field v F_OWNER); ow \<leftarrow> ok_of (as_bytes32 ov);
     tv \<leftarrow> ok_of (val_field v F_TARGET); tg \<leftarrow> ok_of (as_bytes tv);
     ev \<leftarrow> ok_of (val_field v F_EXPIRY); ex \<leftarrow> ok_of (as_int ev);
     if ex \<le> 2 ^ 64 - 1
     then Some \<lparr>nr_name = nm, nr_owner = ow, nr_target = tg, nr_expiry = ucast ex\<rparr> else None }"

section \<open>The ledger as ERGON state\<close>

text \<open>\<open>LedgerState\<close>: the ledger and the cell that keeps the first key the adapter could not route.\<close>

record ledger_view =
  lv_ledger :: hybrid_ledger
  lv_unmapped :: "key option"

definition view_new :: "hybrid_ledger \<Rightarrow> ledger_view" where
  "view_new G = \<lparr>lv_ledger = G, lv_unmapped = None\<rparr>"

definition note_unmapped :: "ledger_view \<Rightarrow> key \<Rightarrow> ledger_view" where
  "note_unmapped v k = v\<lparr>lv_unmapped := (case lv_unmapped v of Some k' \<Rightarrow> Some k' | None \<Rightarrow> Some k)\<rparr>"

definition view_get :: "ledger_view \<Rightarrow> key \<Rightarrow> val option \<times> ledger_view" where
  "view_get v k =
     (let G = lv_ledger v in
      if space k = SPACE_BALANCE then (Some (VInt (ucast (balance (hl_tokens G) (slot k)))), v)
      else if space k = SPACE_HTLC
      then (map_option (\<lambda>h. VBytes32 (ht_hashlock (h_terms h))) (bt_get (hl_htlcs G) (slot k)), v)
      else if space k = SPACE_NAME then (map_option name_record_value (record_at (hl_names G) (slot k)), v)
      else (None, note_unmapped v k))"

definition view_set :: "('e, 'm, 's) crypto \<Rightarrow> ledger_view \<Rightarrow> key \<Rightarrow> val \<Rightarrow> ledger_view" where
  "view_set C v k x =
     (let G = lv_ledger v in
      if space k = SPACE_BALANCE then
        (case as_u64 x of
           Inr n \<Rightarrow> v\<lparr>lv_ledger := G\<lparr>hl_tokens := set_balance (hl_tokens G) (slot k) n\<rparr>\<rparr>
         | Inl _ \<Rightarrow> note_unmapped v k)
      else if space k = SPACE_NAME then
        (case name_record_from x of
           Some r \<Rightarrow> (if name_digest C (nr_name r) = slot k
                     then v\<lparr>lv_ledger := G\<lparr>hl_names := name_put C (hl_names G) r\<rparr>\<rparr> else note_unmapped v k)
         | None \<Rightarrow> note_unmapped v k)
      else note_unmapped v k)"

definition ledger_ops :: "('e, 'm, 's) crypto \<Rightarrow> ledger_view state_ops" where
  "ledger_ops C = \<lparr>st_get = view_get, st_set = view_set C\<rparr>"

text \<open>\<open>TokenState\<close>: the balances alone.\<close>

definition token_get :: "token_ledger \<Rightarrow> key \<Rightarrow> val option" where
  "token_get T k = (if space k \<noteq> SPACE_BALANCE then None else Some (VInt (ucast (balance T (slot k)))))"

definition token_set :: "token_ledger \<Rightarrow> key \<Rightarrow> val \<Rightarrow> token_ledger" where
  "token_set T k x =
     (if space k = SPACE_BALANCE then (case as_u64 x of Inr n \<Rightarrow> set_balance T (slot k) n | Inl _ \<Rightarrow> T) else T)"

definition token_ops :: "token_ledger state_ops" where
  "token_ops = \<lparr>st_get = (\<lambda>T k. (token_get T k, T)), st_set = token_set\<rparr>"

section \<open>The host rules\<close>

type_synonym rule = "(unit \<times> (fault + unit)) act"

definition fail_with :: "fault \<Rightarrow> rule" where
  "fail_with f = Ret ((), Inl f)"

text \<open>\<open>state.get(k).ok_or(Rejected)?.as_u64()?\<close>\<close>

definition read_u64 :: "u16 \<Rightarrow> key \<Rightarrow> (u64 \<Rightarrow> rule) \<Rightarrow> rule" where
  "read_u64 kind k c =
     GetK k (\<lambda>v. case v of
                   None \<Rightarrow> fail_with (Rejected kind)
                 | Some x \<Rightarrow> (case as_u64 x of Inl f \<Rightarrow> fail_with f | Inr n \<Rightarrow> c n))"

definition apply_transfer :: "account \<Rightarrow> val list \<Rightarrow> rule" where
  "apply_transfer caller args =
     (case args of
        [f, t, a] \<Rightarrow>
          (case bindR (as_bytes32 f) (\<lambda>f. bindR (as_bytes32 t) (\<lambda>t. bindR (as_u64 a) (\<lambda>a. Inr (f, t, a)))) of
             Inl e \<Rightarrow> fail_with e
           | Inr (from, to, x) \<Rightarrow>
               if from \<noteq> caller then fail_with (Rejected EFFECT_TRANSFER)
               else read_u64 EFFECT_TRANSFER (balance_key from) (\<lambda>from_bal.
                    read_u64 EFFECT_TRANSFER (balance_key to) (\<lambda>to_bal.
                      case checked_sub from_bal x of
                        None \<Rightarrow> fail_with (Rejected EFFECT_TRANSFER)
                      | Some debited \<Rightarrow>
                          (case checked_add to_bal x of
                             None \<Rightarrow> fail_with Overflow
                           | Some credited \<Rightarrow>
                               SetK (balance_key from) (VInt (ucast debited))
                                 (SetK (balance_key to) (VInt (ucast credited)) (Ret ((), Inr ())))))))
      | _ \<Rightarrow> fail_with (Rejected EFFECT_TRANSFER))"

definition apply_name_register :: "('e, 'm, 's) crypto \<Rightarrow> account \<Rightarrow> u64 \<Rightarrow> val list \<Rightarrow> rule" where
  "apply_name_register C caller height args =
     (let kind = EFFECT_NAME_REGISTER in
      case args of
        [nv, tv, dv, fv] \<Rightarrow>
          (case bindR (as_bytes nv) (\<lambda>n. bindR (as_bytes tv) (\<lambda>t. bindR (as_u64 dv) (\<lambda>d. bindR (as_u64 fv) (\<lambda>f. Inr (n, t, d, f))))) of
             Inl e \<Rightarrow> fail_with e
           | Inr (nm, target, duration, fee) \<Rightarrow>
               if \<not> (MIN_NAME_LEN \<le> length nm \<and> length nm \<le> MAX_NAME_LEN) then fail_with (Rejected kind)
               else let k = name_key (name_digest C nm) in
                 GetK k (\<lambda>existing.
                   if (case existing of
                         None \<Rightarrow> False
                       | Some v \<Rightarrow> (case name_record_from v of None \<Rightarrow> False | Some r \<Rightarrow> height \<le> nr_expiry r))
                   then fail_with (Rejected kind)
                   else if fee < price nm duration then fail_with (Rejected kind)
                   else read_u64 kind (balance_key caller) (\<lambda>from_bal.
                        read_u64 kind (balance_key TREASURY) (\<lambda>to_bal.
                          case checked_sub from_bal fee of
                            None \<Rightarrow> fail_with (Rejected kind)
                          | Some debited \<Rightarrow>
                              (case checked_add to_bal fee of
                                 None \<Rightarrow> fail_with Overflow
                               | Some credited \<Rightarrow>
                                   SetK (balance_key caller) (VInt (ucast debited))
                                     (SetK (balance_key TREASURY) (VInt (ucast credited))
                                       (SetK k (name_record_value
                                          \<lparr>nr_name = nm, nr_owner = caller, nr_target = target,
                                           nr_expiry = saturating_add height duration\<rparr>)
                                         (Ret ((), Inr ())))))))))
      | _ \<Rightarrow> fail_with (Rejected kind))"

definition host_rule :: "('e, 'm, 's) crypto \<Rightarrow> account \<Rightarrow> u64 \<Rightarrow> u16 \<Rightarrow> val list \<Rightarrow> rule" where
  "host_rule C caller height kind args =
     (if kind = EFFECT_TRANSFER then apply_transfer caller args
      else if kind = EFFECT_NAME_REGISTER then apply_name_register C caller height args
      else fail_with (Rejected kind))"

definition name_owned :: "u64 \<Rightarrow> u16 \<Rightarrow> key list \<Rightarrow> val list \<Rightarrow> (fault + bool) ract" where
  "name_owned height kind rs args =
     (if kind = PRED_NAME_OWNED then
        (case (rs, args) of
           (k # _, [ov]) \<Rightarrow>
             (case as_bytes32 ov of
                Inl f \<Rightarrow> RRet (Inl f)
              | Inr owner \<Rightarrow>
                  RGetK k (\<lambda>v. RRet (Inr
                    (case Option.bind v name_record_from of
                       None \<Rightarrow> False | Some r \<Rightarrow> height \<le> nr_expiry r \<and> nr_owner r = owner))))
         | _ \<Rightarrow> RRet (Inl (Rejected kind)))
      else RRet (Inl (Rejected kind)))"

text \<open>\<open>LedgerHost\<close> has no state of its own; \<open>verify\<close> is the trait's default.\<close>

definition ledger_host :: "('e, 'm, 's) crypto \<Rightarrow> account \<Rightarrow> u64 \<Rightarrow> unit host" where
  "ledger_host C caller height =
     \<lparr>host_effect = (\<lambda>_. host_rule C caller height),
      host_predicate = (\<lambda>_. name_owned height),
      host_verify = default_verify\<rparr>"

section \<open>Executing an envelope\<close>

definition apply_term ::
    "('e, 'm, 's) crypto \<Rightarrow> hybrid_ledger \<Rightarrow> byte list \<Rightarrow> bool option \<Rightarrow> hybrid_ledger \<times> exec_outcome" where
  "apply_term C G body verdict =
     (case sg_from_bytes C body of
        None \<Rightarrow> (G, ExMalformed)
      | Some e \<Rightarrow>
          if \<not> (case verdict of Some v \<Rightarrow> v | None \<Rightarrow> sg_verify C e) then (G, ExRejected)
          else let caller = sg_caller C e; expected = nonce (hl_tokens G) caller in
            if sg_nonce e > expected then (G, ExDeferred)
            else if sg_nonce e \<noteq> expected then (G, ExRejected)
            else case sg_checked e limits_unbounded of
                   None \<Rightarrow> (G, ExMalformed)
                 | Some t \<Rightarrow>
                     (case eval_on (ledger_ops C) (ledger_host C caller (hl_height G)) t [] () (view_new G) of
                        (r, _, v) \<Rightarrow>
                          if lv_unmapped v \<noteq> None then (lv_ledger v, ExRejected)
                          else case r of
                                 Inr _ \<Rightarrow> ((lv_ledger v)\<lparr>hl_tokens := bump_nonce (hl_tokens (lv_ledger v)) caller\<rparr>, ExApplied)
                               | Inl _ \<Rightarrow> (lv_ledger v, ExRejected)))"

section \<open>The adapter\<close>

lemma key_simps [simp]:
  "space (balance_key a) = SPACE_BALANCE" "slot (balance_key a) = a" "space (name_key d) = SPACE_NAME" "slot (name_key d) = d"
  "balance_key a = balance_key b \<longleftrightarrow> a = b" "name_key d \<noteq> balance_key a" "balance_key a \<noteq> name_key d"
  by (simp_all add: balance_key_def name_key_def key_at_def spaces)

lemma spaces_distinct [simp]:
  "SPACE_NAME \<noteq> SPACE_BALANCE" "SPACE_BALANCE \<noteq> SPACE_NAME" "SPACE_HTLC \<noteq> SPACE_BALANCE" "SPACE_NAME \<noteq> SPACE_HTLC" "SPACE_HTLC \<noteq> SPACE_NAME"
  by (simp_all add: spaces)

lemma as_u64_widened [simp]: "as_u64 (VInt (ucast n)) = Inr n" for n :: u64
proof -
  have "uint (ucast n :: u128) = uint n" by (rule uint_up_ucast) (simp add: is_up)
  then have "(ucast n :: u128) \<le> 2 ^ 64 - 1" using uint_bounded [of n] by (simp add: word_le_def)
  moreover have "ucast (ucast n :: u128) = n" by (rule ucast_down_ucast_id) (simp add: is_down)
  ultimately show ?thesis by simp
qed

lemma balance_set_balance [simp]: "balance (set_balance T a x) b = (if b = a then x else balance T b)"
  "nonce (set_balance T a x) b = nonce T b"
  by (simp_all add: balance_def nonce_def set_balance_def)

lemma view_balance [simp]:
  "view_get v (balance_key a) = (Some (VInt (ucast (balance (hl_tokens (lv_ledger v)) a))), v)"
  "view_set C v (balance_key a) (VInt (ucast n)) =
     v\<lparr>lv_ledger := (lv_ledger v)\<lparr>hl_tokens := set_balance (hl_tokens (lv_ledger v)) a n\<rparr>\<rparr>"
  for n :: u64
  by (simp_all add: view_get_def view_set_def Let_def del: as_u64.simps)

lemma view_get_ledger [simp]: "lv_ledger (snd (view_get v k)) = lv_ledger v"
  by (simp add: view_get_def note_unmapped_def Let_def)

lemma note_unmapped_ledger [simp]: "lv_ledger (note_unmapped v k) = lv_ledger v"
  by (simp add: note_unmapped_def)

lemma ledger_ops_simps [simp]: "st_get (ledger_ops C) = view_get" "st_set (ledger_ops C) = view_set C"
  by (simp_all add: ledger_ops_def)

text \<open>What the adapter never touches, whatever it is asked to write.\<close>

definition same_rest :: "hybrid_ledger \<Rightarrow> hybrid_ledger \<Rightarrow> bool" where
  "same_rest G G' \<longleftrightarrow>
     tl_nonces (hl_tokens G') = tl_nonces (hl_tokens G) \<and> (ledger_ok (hl_tokens G) \<longrightarrow> ledger_ok (hl_tokens G')) \<and>
     hl_shielded G' = hl_shielded G \<and> hl_storage G' = hl_storage G \<and> hl_htlcs G' = hl_htlcs G \<and> hl_stake G' = hl_stake G \<and>
     hl_params G' = hl_params G \<and> hl_height G' = hl_height G \<and> hl_audit_beacon G' = hl_audit_beacon G \<and>
     hl_waves_last_block G' = hl_waves_last_block G \<and> hl_parallel_blocks G' = hl_parallel_blocks G \<and>
     hl_conservation_breaks G' = hl_conservation_breaks G"

lemma same_rest_update:
  "same_rest G G' \<Longrightarrow> same_rest G (G'\<lparr>hl_tokens := set_balance (hl_tokens G') a n\<rparr>)"
  "same_rest G G' \<Longrightarrow> same_rest G (G'\<lparr>hl_names := R\<rparr>)"
  by (auto simp: same_rest_def) (simp_all add: set_balance_def)

lemma view_set_rest: "same_rest G (lv_ledger v) \<Longrightarrow> same_rest G (lv_ledger (view_set C v k x))"
  by (auto simp: view_set_def Let_def same_rest_update split: sum.split option.split)

section \<open>A term never debits anyone but its caller\<close>

text \<open>
  The invariant of the journal over a ledger whose balances were \<open>B\<close>: nobody but the caller has less,
  every changed balance was logged under its key, and the log holds the balances of before.
\<close>

abbreviation jo_bal :: "ledger_view journal_on \<Rightarrow> account \<Rightarrow> u64" where
  "jo_bal j \<equiv> balance (hl_tokens (lv_ledger (jo_inner j)))"

definition log_ok :: "(account \<Rightarrow> u64) \<Rightarrow> ledger_view journal_on \<Rightarrow> bool" where
  "log_ok B j \<longleftrightarrow>
     (\<forall>(k, b) \<in> set (jo_undo j). space k = SPACE_BALANCE \<longrightarrow> k = balance_key (slot k) \<and> b = Some (VInt (ucast (B (slot k))))) \<and>
     (\<forall>a. jo_bal j a \<noteq> B a \<longrightarrow> balance_key a \<in> fst ` set (jo_undo j))"

definition journal_ok :: "hybrid_ledger \<Rightarrow> account \<Rightarrow> ledger_view journal_on \<Rightarrow> bool" where
  "journal_ok G caller j \<longleftrightarrow>
     log_ok (balance (hl_tokens G)) j \<and> (\<forall>a. a \<noteq> caller \<longrightarrow> balance (hl_tokens G) a \<le> jo_bal j a) \<and> same_rest G (lv_ledger (jo_inner j))"

lemma jo_get_ledger: "journal_ok G caller j \<Longrightarrow> journal_ok G caller (snd (jo_get (ledger_ops C) j k))"
  by (simp add: journal_ok_def log_ok_def jo_get_def split: prod.split) (metis snd_conv view_get_ledger)

lemma list_ex_key: "list_ex (\<lambda>(k', _). k' = k) us \<longleftrightarrow> k \<in> fst ` set us"
  by (force simp: list_ex_iff)

lemma jo_set_balance:
  "jo_inner (jo_set (ledger_ops C) j (balance_key a) (VInt (ucast n))) =
     (jo_inner j)\<lparr>lv_ledger := (lv_ledger (jo_inner j))\<lparr>hl_tokens := set_balance (hl_tokens (lv_ledger (jo_inner j))) a n\<rparr>\<rparr>"
  "jo_undo (jo_set (ledger_ops C) j (balance_key a) (VInt (ucast n))) =
     (if balance_key a \<in> fst ` set (jo_undo j) then jo_undo j
      else jo_undo j @ [(balance_key a, Some (VInt (ucast (jo_bal j a))))])"
  for n :: u64
  by (auto simp: jo_set_def Let_def list_ex_key)

lemma journal_ok_set_balance:
  assumes "journal_ok G caller j" "a = caller \<or> balance (hl_tokens G) a \<le> n"
  shows "journal_ok G caller (jo_set (ledger_ops C) j (balance_key a) (VInt (ucast n)))"
proof -
  have "same_rest G (lv_ledger (jo_inner (jo_set (ledger_ops C) j (balance_key a) (VInt (ucast n)))))"
    using assms(1) by (simp add: journal_ok_def jo_set_balance same_rest_update)
  moreover have "log_ok (balance (hl_tokens G)) (jo_set (ledger_ops C) j (balance_key a) (VInt (ucast n)))"
  proof -
    have "jo_bal j a = balance (hl_tokens G) a" if "balance_key a \<notin> fst ` set (jo_undo j)"
      using that assms(1) by (auto simp: journal_ok_def log_ok_def)
    then show ?thesis
      using assms(1) unfolding journal_ok_def log_ok_def jo_set_balance by (auto split: if_splits)
  qed
  ultimately show ?thesis
    using assms unfolding journal_ok_def jo_set_balance by auto
qed

lemma jo_set_name:
  "jo_bal (jo_set (ledger_ops C) j (name_key d) x) = jo_bal j"
  "same_rest G (lv_ledger (jo_inner j)) \<Longrightarrow> same_rest G (lv_ledger (jo_inner (jo_set (ledger_ops C) j (name_key d) x)))"
  "\<exists>b. set (jo_undo (jo_set (ledger_ops C) j (name_key d) x)) \<subseteq> insert (name_key d, b) (set (jo_undo j))"
  "set (jo_undo j) \<subseteq> set (jo_undo (jo_set (ledger_ops C) j (name_key d) x))"
proof -
  have bal: "balance (hl_tokens (lv_ledger (view_set C v (name_key d) x))) = balance (hl_tokens (lv_ledger v))" for v
    by (auto simp: view_set_def Let_def split: option.split)
  obtain w v where get: "view_get (jo_inner j) (name_key d) = (w, v)" "lv_ledger v = lv_ledger (jo_inner j)"
    by (metis prod.collapse view_get_ledger)
  show "jo_bal (jo_set (ledger_ops C) j (name_key d) x) = jo_bal j"
    using get by (simp add: jo_set_def Let_def bal)
  show "same_rest G (lv_ledger (jo_inner (jo_set (ledger_ops C) j (name_key d) x)))" if "same_rest G (lv_ledger (jo_inner j))"
    using get that by (auto simp: jo_set_def Let_def intro!: view_set_rest)
  show "\<exists>b. set (jo_undo (jo_set (ledger_ops C) j (name_key d) x)) \<subseteq> insert (name_key d, b) (set (jo_undo j))"
    using get by (auto simp: jo_set_def Let_def)
  show "set (jo_undo j) \<subseteq> set (jo_undo (jo_set (ledger_ops C) j (name_key d) x))"
    using get by (auto simp: jo_set_def Let_def)
qed

lemma journal_ok_set_name:
  assumes "journal_ok G caller j"
  shows "journal_ok G caller (jo_set (ledger_ops C) j (name_key d) x)"
proof -
  let ?j = "jo_set (ledger_ops C) j (name_key d) x"
  obtain b where b: "set (jo_undo ?j) \<subseteq> insert (name_key d, b) (set (jo_undo j))" using jo_set_name(3) by blast
  have log: "log_ok (balance (hl_tokens G)) j" using assms by (simp add: journal_ok_def)
  have "k = balance_key (slot k) \<and> c = Some (VInt (ucast (balance (hl_tokens G) (slot k))))"
    if "(k, c) \<in> set (jo_undo ?j)" "space k = SPACE_BALANCE" for k c
  proof -
    have "(k, c) \<in> set (jo_undo j)" using that b by auto
    with that(2) log show ?thesis by (auto simp: log_ok_def)
  qed
  moreover have "balance_key a \<in> fst ` set (jo_undo ?j)" if "jo_bal ?j a \<noteq> balance (hl_tokens G) a" for a
    using that log jo_set_name(1) [of C j d x] image_mono [OF jo_set_name(4) [of j C d x], of fst]
    by (auto simp: log_ok_def simp del: image_iff)
  ultimately have "log_ok (balance (hl_tokens G)) ?j" by (auto simp: log_ok_def)
  moreover have "jo_bal ?j = jo_bal j" by (rule jo_set_name(1))
  moreover have "same_rest G (lv_ledger (jo_inner ?j))"
    using assms by (intro jo_set_name(2)) (simp add: journal_ok_def)
  ultimately show ?thesis using assms by (simp add: journal_ok_def)
qed

lemma jo_get_balance [simp]:
  "jo_get (ledger_ops C) j (balance_key a) = (Some (VInt (ucast (jo_bal j a))), j)"
  by (simp add: jo_get_def)

lemma jo_get_name [simp]:
  "jo_get (ledger_ops C) j (name_key d) = (map_option name_record_value (record_at (hl_names (lv_ledger (jo_inner j))) d), j)"
  by (simp add: jo_get_def view_get_def)

lemma confined_read_u64 [simp]:
  "confined_on (ledger_ops C) (read_u64 kind (balance_key a) c) fp j viol =
     (if \<not> binary_search (balance_key a) (reads fp) \<and> \<not> binary_search (balance_key a) (writes fp)
      then (((), Inl (Rejected kind)), j, confined_record viol (balance_key a))
      else confined_on (ledger_ops C) (c (jo_bal j a)) fp j viol)"
  by (simp add: read_u64_def fail_with_def del: as_u64.simps)

lemma confined_fail [simp]: "confined_on S (fail_with f) fp j viol = (((), Inl f), j, viol)"
  by (simp add: fail_with_def)

abbreviation post :: "'a \<times> 'j \<times> 'v \<Rightarrow> 'j" where
  "post r \<equiv> fst (snd r)"

text \<open>The two balance writes of a payment, in whichever of them the footprint admits.\<close>

lemma journal_ok_payment:
  fixes debited credited :: u64
  assumes "journal_ok G caller j" "checked_add (jo_bal j t) x = Some credited"
    and "\<And>j viol. journal_ok G caller j \<Longrightarrow> journal_ok G caller (post (confined_on (ledger_ops C) rest fp j viol))"
  shows "journal_ok G caller (post (confined_on (ledger_ops C)
    (SetK (balance_key caller) (VInt (ucast debited)) (SetK (balance_key t) (VInt (ucast credited)) rest)) fp j viol))"
proof -
  have "jo_bal j t \<le> credited" using assms(2) by (simp add: checked_add_Some word_le_nat_alt)
  then have cr: "t = caller \<or> balance (hl_tokens G) t \<le> credited"
    using assms(1) unfolding journal_ok_def by (meson order_trans)
  have d: "journal_ok G caller (jo_set (ledger_ops C) j (balance_key caller) (VInt (ucast debited)))"
    by (rule journal_ok_set_balance [OF assms(1)]) simp
  show ?thesis
    using journal_ok_set_balance [OF assms(1) cr, of C] journal_ok_set_balance [OF d cr, of C] d assms(1) assms(3) by auto
qed

lemma journal_ok_transfer:
  assumes "journal_ok G caller j"
  shows "journal_ok G caller (post (confined_on (ledger_ops C) (apply_transfer caller args) fp j viol))"
  using assms journal_ok_payment [OF assms, where C = C and fp = fp and rest = "Ret ((), Inr ())" and viol = viol]
  by (auto simp: apply_transfer_def Let_def simp del: confined_on.simps(3) split: list.split sum.split option.split)

lemma journal_ok_name_register:
  assumes "journal_ok G caller j"
  shows "journal_ok G caller (post (confined_on (ledger_ops C) (apply_name_register C caller height args) fp j viol))"
proof -
  have nm: "journal_ok G caller (post (confined_on (ledger_ops C) (SetK (name_key d) x (Ret ((), Inr ()))) fp j viol))"
    if "journal_ok G caller j" for j d x viol
    using that by (simp add: journal_ok_set_name)
  note pay = journal_ok_payment [where C = C and fp = fp and t = TREASURY and G = G and caller = caller, OF assms _ nm]
  show ?thesis
    using assms
    by (auto simp: apply_name_register_def Let_def intro!: pay simp del: confined_on.simps(3) split: list.split sum.split option.split)
qed

lemma journal_ok_rule:
  "journal_ok G caller j \<Longrightarrow>
     journal_ok G caller (snd (snd (effect_on (ledger_ops C) (ledger_host C caller height) fp kind vs h j)))"
  using journal_ok_transfer [of G caller j C vs fp None] journal_ok_name_register [of G caller j C height vs fp None]
  by (auto simp: effect_on_def ledger_host_def host_rule_def split: prod.split)

lemma journal_ok_run:
  assumes "journal_ok G caller j"
  shows "journal_ok G caller (res_on (run_on (ledger_ops C) (ledger_host C caller height) args t h j rc))"
  using jo_get_ledger journal_ok_rule assms by (rule run_on_inv(1))

lemma journal_ok_new: "journal_ok G caller (jo_new (view_new G))"
  by (simp add: journal_ok_def log_ok_def jo_new_def view_new_def same_rest_def)

lemma view_set_other_space: "space k \<noteq> SPACE_BALANCE \<Longrightarrow> hl_tokens (lv_ledger (view_set C v k x)) = hl_tokens (lv_ledger v)"
  by (auto simp: view_set_def Let_def split: option.split)

lemma fold_undo_balance:
  assumes "\<forall>(k, b) \<in> set es. space k = SPACE_BALANCE \<longrightarrow> k = balance_key (slot k) \<and> b = Some (VInt (ucast (B (slot k))))"
  shows "balance (hl_tokens (lv_ledger (fold (undo_on (ledger_ops C)) es v))) a =
    (if balance_key a \<in> fst ` set es then B a else balance (hl_tokens (lv_ledger v)) a)"
  using assms
proof (induction es arbitrary: v)
  case (Cons e es)
  obtain k b where e: "e = (k, b)" by (cases e)
  show ?case
  proof (cases "space k = SPACE_BALANCE")
    case True
    with Cons.prems e obtain c where k: "e = (balance_key c, Some (VInt (ucast (B c))))" by auto
    then have "undo_on (ledger_ops C) e v =
        v\<lparr>lv_ledger := (lv_ledger v)\<lparr>hl_tokens := set_balance (hl_tokens (lv_ledger v)) c (B c)\<rparr>\<rparr>"
      by (simp add: undo_on_def)
    then show ?thesis using Cons k by auto
  next
    case False
    then have "balance_key a \<noteq> k" by auto
    moreover have "hl_tokens (lv_ledger (undo_on (ledger_ops C) e v)) = hl_tokens (lv_ledger v)"
      using False e by (simp add: undo_on_def view_set_other_space)
    ultimately show ?thesis using Cons e by auto
  qed
qed simp

lemma fold_undo_rest: "same_rest G (lv_ledger v) \<Longrightarrow> same_rest G (lv_ledger (fold (undo_on (ledger_ops C)) es v))"
  by (induction es arbitrary: v) (auto simp: undo_on_def view_set_rest split: prod.split)

lemma rollback_ledger:
  assumes "journal_ok G caller j"
  shows "balance (hl_tokens (lv_ledger (jo_inner (jo_rollback (ledger_ops C) j)))) = balance (hl_tokens G)"
    "same_rest G (lv_ledger (jo_inner (jo_rollback (ledger_ops C) j)))"
proof -
  have log: "log_ok (balance (hl_tokens G)) j" using assms by (simp add: journal_ok_def)
  show "balance (hl_tokens (lv_ledger (jo_inner (jo_rollback (ledger_ops C) j)))) = balance (hl_tokens G)"
    using log fold_undo_balance [of "rev (jo_undo j)" "balance (hl_tokens G)" C "jo_inner j"]
    by (auto simp: fun_eq_iff jo_rollback_def log_ok_def)
  show "same_rest G (lv_ledger (jo_inner (jo_rollback (ledger_ops C) j)))"
    using assms by (simp add: jo_rollback_def journal_ok_def fold_undo_rest)
qed

text \<open>Evaluation on the ledger: nobody but the caller loses, and a fault leaves every balance as it was.\<close>

lemma eval_ledger:
  assumes "eval_on (ledger_ops C) (ledger_host C caller height) t args () (view_new G) = (r, u, v)"
  shows "same_rest G (lv_ledger v)" "a \<noteq> caller \<Longrightarrow> balance (hl_tokens G) a \<le> balance (hl_tokens (lv_ledger v)) a"
    "isl r \<Longrightarrow> balance (hl_tokens (lv_ledger v)) = balance (hl_tokens G)"
proof -
  obtain q h j rc where R: "run_on (ledger_ops C) (ledger_host C caller height) args t () (jo_new (view_new G)) receipt_default = (q, h, j, rc)"
    by (metis prod_cases4)
  have j: "journal_ok G caller j"
    using journal_ok_run [OF journal_ok_new, of G caller C height args t "()" receipt_default] R by simp
  note rb = rollback_ledger [OF j, of C]
  show "same_rest G (lv_ledger v)" "a \<noteq> caller \<Longrightarrow> balance (hl_tokens G) a \<le> balance (hl_tokens (lv_ledger v)) a"
    "isl r \<Longrightarrow> balance (hl_tokens (lv_ledger v)) = balance (hl_tokens G)"
    using assms R j rb by (cases q; auto simp: eval_on_def journal_ok_def)+
qed

lemma apply_term_cases:
  obtains (idle) o' where "apply_term C G body verdict = (G, o')" "o' \<noteq> ExApplied"
  | (ran) e t r u v where "sg_from_bytes C body = Some e" "(case verdict of Some v \<Rightarrow> v | None \<Rightarrow> sg_verify C e)"
      "sg_nonce e = nonce (hl_tokens G) (sg_caller C e)" "sg_checked e limits_unbounded = Some t"
      "eval_on (ledger_ops C) (ledger_host C (sg_caller C e) (hl_height G)) t [] () (view_new G) = (r, u, v)"
      "apply_term C G body verdict =
         (if lv_unmapped v \<noteq> None \<or> isl r then (lv_ledger v, ExRejected)
          else ((lv_ledger v)\<lparr>hl_tokens := bump_nonce (hl_tokens (lv_ledger v)) (sg_caller C e)\<rparr>, ExApplied))"
proof (cases "sg_from_bytes C body")
  case None
  then show ?thesis using idle by (simp add: apply_term_def)
next
  case (Some e)
  let ?v = "case verdict of Some v \<Rightarrow> v | None \<Rightarrow> sg_verify C e"
  consider "\<not> ?v" | "sg_nonce e > nonce (hl_tokens G) (sg_caller C e)" "?v"
    | "sg_nonce e \<noteq> nonce (hl_tokens G) (sg_caller C e)" "\<not> sg_nonce e > nonce (hl_tokens G) (sg_caller C e)" "?v"
    | "sg_nonce e = nonce (hl_tokens G) (sg_caller C e)" "sg_checked e limits_unbounded = None" "?v"
    | t where "sg_nonce e = nonce (hl_tokens G) (sg_caller C e)" "sg_checked e limits_unbounded = Some t" "?v"
    by blast
  then show ?thesis
  proof cases
    case 5
    obtain r u v where ev: "eval_on (ledger_ops C) (ledger_host C (sg_caller C e) (hl_height G)) t [] () (view_new G) = (r, u, v)"
      by (metis prod_cases3)
    show ?thesis
      by (rule ran [OF Some 5(3,1,2) ev]) (use Some 5 ev in \<open>auto simp: apply_term_def Let_def split: sum.split\<close>)
  qed (use Some idle in \<open>auto simp: apply_term_def Let_def\<close>)
qed

text \<open>
  C29. A term debits nobody but its caller. Executing any envelope, with any verdict and any outcome, never
  lowers the balance of an account other than the one whose key the envelope carries; it does nothing at
  all unless the verdict is positive, the nonce is the caller's next one and the term is well-typed; and it
  leaves the shielded pool, the deals, the contracts and the stake as they were.
\<close>

theorem term_debits_only_caller:
  assumes "apply_term C G body verdict = (G', out)"
  shows "(G' = G \<or> (\<exists>e t. sg_from_bytes C body = Some e \<and> (case verdict of Some v \<Rightarrow> v | None \<Rightarrow> sg_verify C e) \<and>
      sg_nonce e = nonce (hl_tokens G) (sg_caller C e) \<and> sg_checked e limits_unbounded = Some t \<and>
      (\<forall>a. a \<noteq> sg_caller C e \<longrightarrow> balance (hl_tokens G) a \<le> balance (hl_tokens G') a) \<and>
      (\<forall>a. nonce (hl_tokens G') a = nonce (hl_tokens G) a + (if out = ExApplied \<and> a = sg_caller C e then 1 else 0)))) \<and>
    hl_shielded G' = hl_shielded G \<and> hl_storage G' = hl_storage G \<and> hl_htlcs G' = hl_htlcs G \<and> hl_stake G' = hl_stake G \<and>
    hl_height G' = hl_height G"
proof (cases rule: apply_term_cases [of C G body verdict])
  case (idle o')
  then show ?thesis using assms by simp
next
  case (ran e t r u v)
  note ev = eval_ledger [OF ran(5)]
  have n: "nonce (hl_tokens (lv_ledger v)) a = nonce (hl_tokens G) a" for a
    using ev(1) by (simp add: same_rest_def nonce_def)
  show ?thesis
    using assms ran(1-4,6) ev(1,2) n by (auto simp: same_rest_def split: if_splits)
qed

section \<open>A term never burns\<close>

lemma supply_set_balance:
  "ledger_ok T \<Longrightarrow> tl_supply (set_balance T a x) + unat (balance T a) = tl_supply T + unat x"
  using bt_sum_insert [of "tl_balances T" a x] by (simp add: ledger_ok_def tl_supply_def set_balance_def balance_def)

lemma supply_payment:
  assumes "ledger_ok T" "checked_sub (balance T f) x = Some debited" "checked_add (balance T t) x = Some credited"
  shows "tl_supply (set_balance (set_balance T f debited) t credited) = tl_supply T + (if t = f then unat x else 0)"
proof -
  have n: "unat debited + unat x = unat (balance T f)" "unat credited = unat (balance T t) + unat x"
    using assms(2,3) by (auto simp: checked_sub_def unat_sub word_le_nat_alt checked_add_Some split: if_splits)
  show ?thesis
    using supply_set_balance [OF assms(1), of f debited] supply_set_balance [of "set_balance T f debited" t credited] assms(1) n
    by auto
qed

abbreviation jo_tokens :: "ledger_view journal_on \<Rightarrow> token_ledger" where
  "jo_tokens j \<equiv> hl_tokens (lv_ledger (jo_inner j))"

definition supply_ge :: "nat \<Rightarrow> ledger_view journal_on \<Rightarrow> bool" where
  "supply_ge n j \<longleftrightarrow> ledger_ok (jo_tokens j) \<and> n \<le> tl_supply (jo_tokens j)"

lemma confined_payment_supply:
  assumes "supply_ge n j" "checked_sub (jo_bal j f) x = Some debited" "checked_add (jo_bal j t) x = Some credited"
    and "\<And>j. supply_ge n j \<Longrightarrow> supply_ge n (post (confined_on (ledger_ops C) rest fp j None))"
    and "snd (snd (confined_on (ledger_ops C)
      (SetK (balance_key f) (VInt (ucast debited)) (SetK (balance_key t) (VInt (ucast credited)) rest)) fp j None)) = None"
  shows "supply_ge n (post (confined_on (ledger_ops C)
      (SetK (balance_key f) (VInt (ucast debited)) (SetK (balance_key t) (VInt (ucast credited)) rest)) fp j None))"
proof -
  let ?j = "jo_set (ledger_ops C) (jo_set (ledger_ops C) j (balance_key f) (VInt (ucast debited))) (balance_key t) (VInt (ucast credited))"
  have "binary_search (balance_key f) (writes fp)" "binary_search (balance_key t) (writes fp)"
    using assms(5) by (auto simp: confined_record_def confined_violation_sticks split: if_splits)
  moreover have "jo_tokens ?j = set_balance (set_balance (jo_tokens j) f debited) t credited" by (simp add: jo_set_balance)
  then have "supply_ge n ?j"
    using assms(1) supply_payment [OF _ assms(2,3)] by (simp add: supply_ge_def)
  ultimately show ?thesis using assms(4) by simp
qed

lemma supply_name_write: "supply_ge n j \<Longrightarrow> supply_ge n (post (confined_on (ledger_ops C) (SetK (name_key d) x (Ret ((), Inr ()))) fp j None))"
proof -
  have "jo_tokens (jo_set (ledger_ops C) j (name_key d) x) = jo_tokens j"
    by (auto simp: jo_set_def Let_def view_set_other_space view_get_def)
  then show "supply_ge n j \<Longrightarrow> ?thesis" by (simp add: supply_ge_def)
qed

lemma supply_rule:
  assumes "supply_ge n j" "fst (effect_on (ledger_ops C) (ledger_host C caller height) fp kind vs h j) = Inr ()"
  shows "supply_ge n (snd (snd (effect_on (ledger_ops C) (ledger_host C caller height) fp kind vs h j)))"
proof -
  note done' = confined_payment_supply [where rest = "Ret ((), Inr ())" and C = C and fp = fp, OF assms(1)]
  note reg = confined_payment_supply [where C = C and fp = fp and t = TREASURY, OF assms(1) _ _ supply_name_write]
  have "supply_ge n (post (confined_on (ledger_ops C) (apply_transfer caller vs) fp j None))"
    if "snd (snd (confined_on (ledger_ops C) (apply_transfer caller vs) fp j None)) = None"
    using that assms(1)
    by (auto simp: apply_transfer_def Let_def intro!: done' simp del: confined_on.simps(3)
        split: list.splits sum.splits option.splits if_splits)
  moreover have "supply_ge n (post (confined_on (ledger_ops C) (apply_name_register C caller height vs) fp j None))"
    if "snd (snd (confined_on (ledger_ops C) (apply_name_register C caller height vs) fp j None)) = None"
    using that assms(1)
    by (auto simp: apply_name_register_def Let_def confined_record_def confined_violation_sticks intro!: reg simp del: confined_on.simps(3)
        split: list.splits sum.splits option.splits if_splits)
  ultimately show ?thesis
    using assms
    by (auto simp: effect_on_def ledger_host_def host_rule_def split: prod.splits option.splits if_splits)
qed

lemma supply_cong:
  assumes "ledger_ok T" "ledger_ok T'" "balance T = balance T'"
  shows "tl_supply T = tl_supply T'"
proof -
  have sum: "bt_sum m = (\<Sum>k \<in> bt_keys m. unat (bt_get0 m k))" if "bt_ok m" for m :: "(account, u64) btree"
    using that
  proof (induction m)
    case (Cons e m)
    have "fst e \<notin> bt_keys m" using Cons.prems by (auto simp: bt_ok_Cons)
    moreover have "(\<Sum>k \<in> bt_keys m. unat (bt_get0 (e # m) k)) = (\<Sum>k \<in> bt_keys m. unat (bt_get0 m k))"
    proof (intro sum.cong refl)
      fix k assume "k \<in> bt_keys m"
      then have "k \<noteq> fst e" using \<open>fst e \<notin> bt_keys m\<close> by blast
      then show "unat (bt_get0 (e # m) k) = unat (bt_get0 m k)" by (simp add: bt_get0_Cons)
    qed
    ultimately show ?case using Cons by (simp add: bt_sum_def bt_ok_Cons bt_get0_Cons)
  qed (simp add: bt_sum_def)
  have ext: "(\<Sum>k \<in> bt_keys m. unat (bt_get0 m k)) = (\<Sum>k \<in> bt_keys m \<union> bt_keys m'. unat (bt_get0 m k))"
    for m m' :: "(account, u64) btree"
    by (rule sum.mono_neutral_left) (auto simp: bt_get0_notin)
  have "bt_get0 (tl_balances T) = bt_get0 (tl_balances T')" using assms(3) by (simp add: balance_def fun_eq_iff)
  then show ?thesis
    using sum [of "tl_balances T"] sum [of "tl_balances T'"] ext [of "tl_balances T" "tl_balances T'"]
      ext [of "tl_balances T'" "tl_balances T"] assms(1,2)
    by (simp add: tl_supply_def ledger_ok_def Un_commute)
qed

lemma jo_get_supply: "supply_ge n j \<Longrightarrow> supply_ge n (snd (jo_get (ledger_ops C) j k))"
  by (simp add: supply_ge_def jo_get_def split: prod.split) (metis snd_conv view_get_ledger)

lemma eval_supply:
  assumes "eval_on (ledger_ops C) (ledger_host C caller height) t args () (view_new G) = (r, u, v)" "ledger_ok (hl_tokens G)"
  shows "tl_supply (hl_tokens G) \<le> tl_supply (hl_tokens (lv_ledger v))"
proof (cases r)
  case (Inl f)
  then have "balance (hl_tokens (lv_ledger v)) = balance (hl_tokens G)" using eval_ledger(3) [OF assms(1)] by simp
  moreover have "ledger_ok (hl_tokens (lv_ledger v))" using eval_ledger(1) [OF assms(1)] assms(2) by (simp add: same_rest_def)
  ultimately show ?thesis using supply_cong [of "hl_tokens (lv_ledger v)" "hl_tokens G"] assms(2) by simp
next
  case (Inr c)
  obtain q h j rc where R: "run_on (ledger_ops C) (ledger_host C caller height) args t () (jo_new (view_new G)) receipt_default = (q, h, j, rc)"
    by (metis prod_cases4)
  have "q = Inr ()" using R assms(1) Inr by (cases q) (auto simp: eval_on_def)
  moreover have "supply_ge (tl_supply (hl_tokens G)) (jo_new (view_new G))"
    using assms(2) by (simp add: supply_ge_def jo_new_def view_new_def)
  ultimately have "supply_ge (tl_supply (hl_tokens G)) j"
    using run_on_ok(1) [of "supply_ge (tl_supply (hl_tokens G))", OF jo_get_supply supply_rule, where t = t and args = args] R
    by (metis fst_conv snd_conv)
  then show ?thesis using R assms(1) \<open>q = Inr ()\<close> by (auto simp: eval_on_def supply_ge_def)
qed

lemma apply_term_supply:
  assumes "apply_term C G body verdict = (G', out)" "ledger_ok (hl_tokens G)"
  shows "ledger_ok (hl_tokens G')" "tl_supply (hl_tokens G) \<le> tl_supply (hl_tokens G')"
proof -
  have "ledger_ok (hl_tokens G') \<and> tl_supply (hl_tokens G) \<le> tl_supply (hl_tokens G')"
  proof (cases rule: apply_term_cases [of C G body verdict])
    case (ran e t r u v)
    then show ?thesis
      using eval_supply [OF ran(5) assms(2)] eval_ledger(1) [OF ran(5)] assms by (auto simp: same_rest_def split: if_splits)
  qed (use assms in simp)
  then show "ledger_ok (hl_tokens G')" "tl_supply (hl_tokens G) \<le> tl_supply (hl_tokens G')" by simp_all
qed

section \<open>Envelopes on the wire\<close>

lemma sg_from_to:
  assumes "vk_serialization C" "length (sg_sig e) = HYBRID_SIG_LEN"
  shows "sg_from_bytes C (sg_to_bytes C e) = Some e"
  using assms by (simp add: sg_from_bytes_def sg_to_bytes_def le_dec_enc)

definition envelope ::
    "('e, 'm, 's) crypto \<Rightarrow> hybrid_ledger \<Rightarrow> ('e, 'm) signed_term \<Rightarrow> ergon_term \<Rightarrow> bool" where
  "envelope C G e t \<longleftrightarrow>
     vk_serialization C \<and> length (sg_sig e) = HYBRID_SIG_LEN \<and> sg_verify C e \<and>
     sg_nonce e = nonce (hl_tokens G) (sg_caller C e) \<and> sg_term e = term_encode t"

lemma apply_envelope:
  assumes "envelope C G e t" "encodable t" "well_typed t limits_unbounded = Inr ()"
    and "eval_on (ledger_ops C) (ledger_host C (sg_caller C e) (hl_height G)) t [] () (view_new G) = (r, u, v)"
  shows "apply_term C G (sg_to_bytes C e) None =
    (if lv_unmapped v \<noteq> None \<or> isl r then (lv_ledger v, ExRejected)
     else ((lv_ledger v)\<lparr>hl_tokens := bump_nonce (hl_tokens (lv_ledger v)) (sg_caller C e)\<rparr>, ExApplied))"
proof -
  have "sg_checked e limits_unbounded = Some t"
    using assms(1,3) term_decode_Some [of "term_encode t" t] assms(2)
    by (simp add: sg_checked_def envelope_def checked_decode_def checked_new_def)
  then show ?thesis
    using assms(1,4) by (auto simp: apply_term_def envelope_def sg_from_to Let_def split: sum.split)
qed

section \<open>Transfers as terms\<close>

lemma journal_untouched: "jo_rollback S (jo_new s) = jo_new s"
  by (simp add: jo_rollback_def jo_new_def)

lemma lits_footprint:
  "effect_footprint (effect_with_args (effect_internal k (fp_new [] ws)) (Lit v # map Lit vs)) = fp_new [] ws"
proof -
  have "fold expr_collect_reads (map Lit vs) [] = []" by (induction vs) auto
  then show ?thesis
    by (simp add: effect_footprint_def effect_with_args_def effect_internal_def fp_new_def sort_dedup_id)
qed

lemma eval_transfer:
  "eval_on (ledger_ops C) (ledger_host C f h) (transfer_term f t x) [] () (view_new G) =
     (let bf = balance (hl_tokens G) f; bt = balance (hl_tokens G) t in
      if bf < x then (Inl (Rejected EFFECT_TRANSFER), (), view_new G)
      else if \<not> unat bt + unat x < 2 ^ 64 then (Inl Overflow, (), view_new G)
      else (Inr (receipt_default\<lparr>rc_effects := 1\<rparr>), (),
            view_new (G\<lparr>hl_tokens := set_balance (set_balance (hl_tokens G) f (bf - x)) t (bt + x)\<rparr>)))"
proof -
  let ?e = "effect_with_args (effect_internal EFFECT_TRANSFER (fp_new [] [balance_key f, balance_key t]))
           [Lit (VBytes32 f), Lit (VBytes32 t), Lit (VInt (ucast x))]"
  have fp: "effect_footprint ?e = fp_new [] [balance_key f, balance_key t]"
    using lits_footprint [of EFFECT_TRANSFER "[balance_key f, balance_key t]" "VBytes32 f" "[VBytes32 t, VInt (ucast x)]"] by simp
  have w: "binary_search (balance_key f) (writes (fp_new [] [balance_key f, balance_key t]))"
    "binary_search (balance_key t) (writes (fp_new [] [balance_key f, balance_key t]))"
    by (simp_all add: fp_new_def)
  have k: "eff_kind ?e = EFFECT_TRANSFER" "eff_args ?e = [Lit (VBytes32 f), Lit (VBytes32 t), Lit (VInt (ucast x))]"
    by (simp_all add: effect_with_args_def effect_internal_def)
  have "run_on (ledger_ops C) (ledger_host C f h) [] (transfer_term f t x) () (jo_new (view_new G)) receipt_default =
     (let bf = balance (hl_tokens G) f; bt = balance (hl_tokens G) t in
      if bf < x then (Inl (Rejected EFFECT_TRANSFER), (), jo_new (view_new G), receipt_default)
      else if \<not> unat bt + unat x < 2 ^ 64 then (Inl Overflow, (), jo_new (view_new G), receipt_default)
      else (Inr (), (), jo_set (ledger_ops C) (jo_set (ledger_ops C) (jo_new (view_new G)) (balance_key f) (VInt (ucast (bf - x))))
              (balance_key t) (VInt (ucast (bt + x))), receipt_default\<lparr>rc_effects := 1\<rparr>))"
    using w
    by (simp add: transfer_term_def transfer_term_with_def fp k effect_on_def ledger_host_def host_rule_def apply_transfer_def
        expr_eval_def EXPR_DEPTH_MAX_def checked_sub_def checked_add_def Let_def jo_new_def view_new_def receipt_default_def
        not_le leD del: as_u64.simps)
  then show ?thesis
    by (simp add: eval_on_def Let_def journal_untouched jo_set_balance) (simp add: jo_new_def view_new_def)
qed

lemma length_sort_dedup: "length (sort_dedup ks) \<le> length ks"
  using remdups_adj_length [of "sort ks"] by (simp add: sort_dedup_def)

lemma transfer_admitted:
  assumes "length f = 32" "length t = 32"
  shows "encodable (transfer_term f t x)" "well_typed (transfer_term f t x) limits_unbounded = Inr ()"
proof -
  let ?ks = "[balance_key f, balance_key t]"
  have len: "length (sort_dedup ?ks) \<le> 2" using length_sort_dedup [of ?ks] by simp
  have ks: "keys_wf (sort_dedup ?ks)" "keys_wf []"
    using len assms by (auto simp: keys_wf_def key_ok_def balance_key_def key_at_def list_all_iff SEQ_MAX_def)
  have fp: "effect_footprint (effect_with_args (effect_internal EFFECT_TRANSFER (fp_new [] ?ks))
      [Lit (VBytes32 f), Lit (VBytes32 t), Lit (VInt (ucast x))]) = fp_new [] ?ks"
    using lits_footprint [of EFFECT_TRANSFER ?ks "VBytes32 f" "[VBytes32 t, VInt (ucast x)]"] by simp
  show "encodable (transfer_term f t x)"
    using assms ks
    by (simp add: encodable_def transfer_term_def transfer_term_with_def effect_wf_def effect_with_args_def effect_internal_def
        fp_wf_def fp_new_def exprs_wf_def SEQ_MAX_def D_MAX_def EXPR_DEPTH_MAX_def)
  show "well_typed (transfer_term f t x) limits_unbounded = Inr ()"
    using len fp
    by (simp add: well_typed_def transfer_term_def transfer_term_with_def Let_def D_MAX_def EXPR_DEPTH_MAX_def
        limits_unbounded_def fp_width_def fp_new_def effect_with_args_def effect_internal_def)
qed

lemma apply_transfer_term:
  assumes "envelope C G e (transfer_term (sg_caller C e) t x)" "length (sg_caller C e) = 32" "length t = 32"
  shows "apply_term C G (sg_to_bytes C e) None =
    (let T = hl_tokens G; c = sg_caller C e in
     if balance T c < x \<or> \<not> unat (balance T t) + unat x < 2 ^ 64 then (G, ExRejected)
     else (G\<lparr>hl_tokens := bump_nonce (set_balance (set_balance T c (balance T c - x)) t (balance T t + x)) c\<rparr>, ExApplied))"
proof -
  obtain r v where ev: "eval_on (ledger_ops C) (ledger_host C (sg_caller C e) (hl_height G)) (transfer_term (sg_caller C e) t x)
      [] () (view_new G) = (r, (), v)"
    by (metis prod_cases3 unit.exhaust)
  show ?thesis
    using apply_envelope [OF assms(1) transfer_admitted [OF assms(2,3)] ev] ev [unfolded eval_transfer]
    by (auto simp: Let_def view_new_def split: if_splits)
qed

text \<open>
  C30. The transfer term is the native transfer. For two distinct accounts and a positive amount, a supply
  within 64 bits, and a signed transfer and a signed envelope of the same sender, recipient, amount and
  nonce, executing the ERGON term leaves exactly the token ledger the native rule leaves, succeeds exactly
  when it succeeds, and touches nothing else.
\<close>

theorem term_transfer_is_native:
  assumes "envelope C G e (transfer_term (sg_caller C e) t x)" "length (sg_caller C e) = 32" "length t = 32"
    and "t \<noteq> sg_caller C e" "0 < x" "ledger_ok (hl_tokens G)" "tl_supply (hl_tokens G) < 2 ^ 64"
    and "st_verify C st" "st_transfer st = \<lparr>t_from = sg_caller C e, t_to = t, t_amount = x, t_nonce = sg_nonce e\<rparr>"
  shows "apply_term C G (sg_to_bytes C e) None =
    (case tl_apply C (hl_tokens G) st of
       (T, r) \<Rightarrow> (G\<lparr>hl_tokens := T\<rparr>, case r of Inr _ \<Rightarrow> ExApplied | Inl _ \<Rightarrow> ExRejected))"
proof (cases "balance (hl_tokens G) (sg_caller C e) < x")
  case True
  then show ?thesis
    using assms(8,9) apply_transfer_term [OF assms(1-3)] assms(1)
    by (simp add: tl_apply_def apply_with_verdict_def envelope_def Let_def)
next
  case False
  let ?T = "hl_tokens G" and ?c = "sg_caller C e"
  have "unat (balance ?T ?c) + unat (balance ?T t) \<le> tl_supply ?T"
    using bt_get0_pair_le_sum [of "tl_balances ?T" ?c t] assms(4,6) by (simp add: balance_def tl_supply_def ledger_ok_def)
  moreover have "unat x \<le> unat (balance ?T ?c)" using False by (simp add: not_less word_le_nat_alt)
  ultimately have fits: "unat (balance ?T t) + unat x < 2 ^ 64" using assms(7) by linarith
  have "bt_get (tl_balances ?T) ?c = Some (balance ?T ?c)"
    using False assms(5) by (auto simp: balance_def bt_get0_def split: option.splits)
  then have "credit (debit ?T ?c x) t x = set_balance (set_balance ?T ?c (balance ?T ?c - x)) t (balance ?T t + x)"
    using fits assms(4)
    by (simp add: credit_def debit_def set_balance_def balance_def saturating_add_def checked_add_def)
  then show ?thesis
    using False fits assms(8,9) apply_transfer_term [OF assms(1-3)] assms(1)
    by (simp add: tl_apply_def apply_with_verdict_def envelope_def Let_def)
qed

definition toy_hybrid :: hybrid_ledger where
  "toy_hybrid = hybrid_new toy_crypto toy_ledger"

definition toy_envelope :: "byte \<Rightarrow> u64 \<Rightarrow> ergon_term \<Rightarrow> (byte, byte) signed_term" where
  "toy_envelope i n t = \<lparr>sg_term = term_encode t, sg_nonce = n, sg_caller_key = toy_key i, sg_sig = toy_sig i\<rparr>"

lemma toy_envelope_simps [simp]:
  "sg_caller toy_crypto (toy_envelope i n t) = toy_account i" "length (toy_account i) = 32" "hl_tokens toy_hybrid = toy_ledger"
  "sg_nonce (toy_envelope i n t) = n"
  by (simp_all add: sg_caller_def toy_envelope_def toy_account_def toy_hybrid_def hybrid_new_def)

lemma toy_envelope [simp]: "envelope toy_crypto toy_hybrid (toy_envelope i 0 t) t"
proof -
  have "length (toy_sig i) = HYBRID_SIG_LEN" by (simp add: toy_sig_def crypto_lens)
  then show ?thesis
    by (simp add: envelope_def toy_serialization sg_verify_def) (simp add: toy_envelope_def)
qed

theorem term_transfer_is_native_witness:
  "\<exists>T. apply_term toy_crypto toy_hybrid
      (sg_to_bytes toy_crypto (toy_envelope 1 0 (transfer_term (toy_account 1) (toy_account 2) 30))) None =
      (toy_hybrid\<lparr>hl_tokens := T\<rparr>, ExApplied) \<and> balance T (toy_account 1) = 70 \<and> balance T (toy_account 2) = 30"
proof -
  let ?e = "toy_envelope 1 0 (transfer_term (toy_account 1) (toy_account 2) 30)"
  have "apply_term toy_crypto toy_hybrid (sg_to_bytes toy_crypto ?e) None =
    (case tl_apply toy_crypto (hl_tokens toy_hybrid) (toy_transfer 1 (toy_account 2) 30 0) of
       (T, r) \<Rightarrow> (toy_hybrid\<lparr>hl_tokens := T\<rparr>, case r of Inr _ \<Rightarrow> ExApplied | Inl _ \<Rightarrow> ExRejected))"
    by (rule term_transfer_is_native) (simp_all add: st_verify_def, simp_all add: toy_transfer_def)
  moreover have "balance (credit (debit toy_ledger (toy_account 1) 30) (toy_account 2) 30) (toy_account 1) = 70"
    "balance (credit (debit toy_ledger (toy_account 1) 30) (toy_account 2) 30) (toy_account 2) = 30"
    by (simp_all add: credit_def debit_def balance_def toy_ledger_def tl_new_def saturating_add_def checked_add_def
        bt_get0_def bt_get_def)
  moreover have "tl_apply toy_crypto toy_ledger (toy_transfer 1 (toy_account 2) 30 0) =
    (bump_nonce (credit (debit toy_ledger (toy_account 1) 30) (toy_account 2) 30) (toy_account 1), Inr ())"
    by (simp add: tl_apply_def st_verify_def toy_transfer_def apply_with_verdict_def Let_def)
  ultimately show ?thesis by auto
qed

theorem term_debits_only_caller_witness:
  "\<exists>G'. apply_term toy_crypto toy_hybrid
      (sg_to_bytes toy_crypto (toy_envelope 1 0 (transfer_term (toy_account 1) (toy_account 2) 30))) None = (G', ExApplied) \<and>
     hl_stake G' = hl_stake toy_hybrid"
proof -
  let ?e = "toy_envelope 1 0 (transfer_term (toy_account 1) (toy_account 2) 30)"
  obtain G' where "apply_term toy_crypto toy_hybrid (sg_to_bytes toy_crypto ?e) None = (G', ExApplied)"
    using apply_transfer_term [of toy_crypto toy_hybrid ?e "toy_account 2" 30] by (simp add: Let_def)
  then show ?thesis using term_debits_only_caller by blast
qed

text \<open>
  C31. A transfer term from an account to itself mints. The host reads both balances before it writes
  either, so the credit overwrites the debit: the term succeeds and the account, and with it the total
  supply, grows by the amount sent.
\<close>

theorem self_transfer_mints:
  assumes "envelope C G e (transfer_term (sg_caller C e) (sg_caller C e) x)" "length (sg_caller C e) = 32"
    and "ledger_ok (hl_tokens G)" "x \<le> balance (hl_tokens G) (sg_caller C e)" "tl_supply (hl_tokens G) + unat x < 2 ^ 64"
    and "apply_term C G (sg_to_bytes C e) None = (G', out)"
  shows "out = ExApplied \<and> balance (hl_tokens G') (sg_caller C e) = balance (hl_tokens G) (sg_caller C e) + x \<and>
    tl_supply (hl_tokens G') = tl_supply (hl_tokens G) + unat x"
proof -
  let ?T = "hl_tokens G" and ?c = "sg_caller C e"
  have fits: "unat (balance ?T ?c) + unat x < 2 ^ 64" using balance_le_supply [OF assms(3), of ?c] assms(5) by linarith
  have ok: "bt_ok (tl_balances ?T)" using assms(3) by (simp add: ledger_ok_def)
  let ?m = "bt_insert ?c (balance ?T ?c - x) (tl_balances ?T)"
  have "bt_sum ?m + unat (balance ?T ?c) = tl_supply ?T + unat (balance ?T ?c - x)"
    using bt_sum_insert [OF ok, of ?c "balance ?T ?c - x"] by (simp add: balance_def tl_supply_def)
  moreover have "bt_sum (bt_insert ?c (balance ?T ?c + x) ?m) + unat (balance ?T ?c - x) = bt_sum ?m + unat (balance ?T ?c + x)"
    using bt_sum_insert [of ?m ?c "balance ?T ?c + x"] ok by simp
  moreover have "unat (balance ?T ?c + x) = unat (balance ?T ?c) + unat x" using fits by (simp add: unat_add_lem [THEN iffD1])
  ultimately have "bt_sum (bt_insert ?c (balance ?T ?c + x) ?m) = tl_supply ?T + unat x" by linarith
  then have "tl_supply (set_balance (set_balance ?T ?c (balance ?T ?c - x)) ?c (balance ?T ?c + x)) = tl_supply ?T + unat x"
    by (simp add: set_balance_def tl_supply_def)
  moreover have "\<not> balance ?T ?c < x" using assms(4) by simp
  ultimately show ?thesis
    using assms(6) fits apply_transfer_term [OF assms(1,2,2)] by (auto simp: Let_def)
qed

theorem self_transfer_mints_witness:
  "\<exists>G'. apply_term toy_crypto toy_hybrid
      (sg_to_bytes toy_crypto (toy_envelope 1 0 (transfer_term (toy_account 1) (toy_account 1) 100))) None = (G', ExApplied) \<and>
     tl_supply (hl_tokens toy_hybrid) = 100 \<and> tl_supply (hl_tokens G') = 200"
proof -
  let ?e = "toy_envelope 1 0 (transfer_term (toy_account 1) (toy_account 1) 100)"
  obtain G' out where r: "apply_term toy_crypto toy_hybrid (sg_to_bytes toy_crypto ?e) None = (G', out)" by fastforce
  show ?thesis using self_transfer_mints [of toy_crypto toy_hybrid ?e 100 G' out] r by simp
qed

end
