(* ===== verification/Dromos_Ledger.thy ===== *)
theory Dromos_Ledger
  imports Dromos_Ergon
begin

text \<open>
  The hybrid ledger as a state machine (the second half of \<open>fanos-dromos/src/hybrid.rs\<close>): the dispatch on
  the transaction tag, the batch verification of signatures and proofs, the derivation of access lists,
  the execution of a block in conflict-free waves, the conservation gate, the state root and the snapshot.
  An execution returns an option because a storage audit may not return (\<open>Dromos_Hybrid.prove_deal\<close>).
\<close>

section \<open>Tags and payloads\<close>

definition TAG_SHIELDED :: byte where "TAG_SHIELDED = 0x01"
definition TAG_SHIELD :: byte where "TAG_SHIELD = 0x03"
definition TAG_STORAGE :: byte where "TAG_STORAGE = 0x04"
definition TAG_HTLC :: byte where "TAG_HTLC = 0x05"
definition TAG_STAKE :: byte where "TAG_STAKE = 0x06"
definition TAG_SLASH :: byte where "TAG_SLASH = 0x07"
definition TAG_ERGON :: byte where "TAG_ERGON = 0x08"

lemmas tags = TAG_TRANSPARENT_def TAG_SHIELDED_def TAG_NAME_def TAG_SHIELD_def TAG_STORAGE_def TAG_HTLC_def
  TAG_STAKE_def TAG_SLASH_def TAG_ERGON_def

definition SHIELDED_MARKER :: "byte list" where "SHIELDED_MARKER = ascii ''FANOS-dromos-shielded-pool-mark!''"
definition HYBRID_ROOT_LABEL :: string where "HYBRID_ROOT_LABEL = ''FANOS-dromos-v1/hybrid-root''"

record transaction =
  payload :: "byte list"

definition tagged :: "byte \<Rightarrow> byte list \<Rightarrow> byte list" where
  "tagged tag body = tag # body"

definition transparent_payload :: "('e, 'm, 's) crypto \<Rightarrow> ('e, 'm) signed_transfer \<Rightarrow> byte list" where
  "transparent_payload C t = tagged TAG_TRANSPARENT (st_to_bytes C t)"

definition shielded_payload :: "byte list \<Rightarrow> byte list" where
  "shielded_payload submission = tagged TAG_SHIELDED submission"

definition name_payload :: "('e, 'm, 's) crypto \<Rightarrow> ('e, 'm) name_tx \<Rightarrow> byte list" where
  "name_payload C t = tagged TAG_NAME (name_tx_to_bytes C t)"

definition shield_payload :: "('e, 'm, 's) crypto \<Rightarrow> ('e, 'm) shield_tx \<Rightarrow> byte list" where
  "shield_payload C t = tagged TAG_SHIELD (shield_to_bytes C t)"

definition storage_payload :: "('e, 'm, 's) crypto \<Rightarrow> ('e, 'm) storage_tx \<Rightarrow> byte list" where
  "storage_payload C t = tagged TAG_STORAGE (storage_tx_to_bytes C t)"

definition htlc_payload :: "('e, 'm, 's) crypto \<Rightarrow> ('e, 'm) htlc_tx \<Rightarrow> byte list" where
  "htlc_payload C t = tagged TAG_HTLC (htlc_tx_to_bytes C t)"

definition term_payload :: "('e, 'm, 's) crypto \<Rightarrow> ('e, 'm) signed_term \<Rightarrow> byte list" where
  "term_payload C t = tagged TAG_ERGON (sg_to_bytes C t)"

definition stake_payload :: "('e, 'm, 's) crypto \<Rightarrow> ('e, 'm) stake_tx \<Rightarrow> byte list" where
  "stake_payload C t = tagged TAG_STAKE (stake_tx_to_bytes C t)"

definition slash_payload :: "('e, 'm, 's) crypto \<Rightarrow> ('e, 'm) slash_tx \<Rightarrow> byte list" where
  "slash_payload C t = tagged TAG_SLASH (slash_tx_to_bytes C t)"

section \<open>Dispatch\<close>

definition outcome :: "bool \<Rightarrow> exec_outcome" where
  "outcome ok = (if ok then ExApplied else ExRejected)"

text \<open>\<open>map_or(ExecOutcome::Deferred, outcome)\<close>.\<close>

definition or_deferred :: "bool option \<Rightarrow> exec_outcome" where
  "or_deferred r = (case r of None \<Rightarrow> ExDeferred | Some ok \<Rightarrow> outcome ok)"

definition do_transparent ::
    "('e, 'm, 's) crypto \<Rightarrow> hybrid_ledger \<Rightarrow> byte list \<Rightarrow> bool option \<Rightarrow> hybrid_ledger \<times> exec_outcome" where
  "do_transparent C G body verdict =
     (case st_from_bytes C body of
        None \<Rightarrow> (G, ExMalformed)
      | Some st \<Rightarrow>
          (case apply_with_verdict (hl_tokens G) st (case verdict of Some v \<Rightarrow> v | None \<Rightarrow> st_verify C st) of
             (T, r) \<Rightarrow> (G\<lparr>hl_tokens := T\<rparr>,
                case r of Inr _ \<Rightarrow> ExApplied | Inl NonceAhead \<Rightarrow> ExDeferred | Inl _ \<Rightarrow> ExRejected)))"

definition do_shielded ::
    "('e, 'm, 's) crypto \<Rightarrow> hybrid_ledger \<Rightarrow> byte list \<Rightarrow> bool option \<Rightarrow> hybrid_ledger \<times> exec_outcome" where
  "do_shielded C G body verdict =
     (case decode_submission body of
        None \<Rightarrow> (G, ExMalformed)
      | Some (stx, pf) \<Rightarrow>
          (case apply_shielded C G stx
                  (case verdict of Some v \<Rightarrow> v | None \<Rightarrow> transparent_verify C pf (hl_params G) stx) of
             (G', ok) \<Rightarrow> (G', outcome ok)))"

definition do_name :: "('e, 'm, 's) crypto \<Rightarrow> hybrid_ledger \<Rightarrow> byte list \<Rightarrow> hybrid_ledger \<times> exec_outcome" where
  "do_name C G body =
     (case name_tx_from_bytes C body of
        None \<Rightarrow> (G, ExMalformed)
      | Some tx \<Rightarrow>
          (case name_apply C (hl_names G) tx (hl_tokens G) (hl_height G) of
             (R, T, r) \<Rightarrow> (G\<lparr>hl_names := R, hl_tokens := T\<rparr>,
                case r of Inr _ \<Rightarrow> ExApplied | Inl (PaymentRefused NonceAhead) \<Rightarrow> ExDeferred | Inl _ \<Rightarrow> ExRejected)))"

definition do_shield :: "('e, 'm, 's) crypto \<Rightarrow> hybrid_ledger \<Rightarrow> byte list \<Rightarrow> hybrid_ledger \<times> exec_outcome" where
  "do_shield C G body =
     (case shield_from_bytes C body of
        None \<Rightarrow> (G, ExMalformed)
      | Some sx \<Rightarrow> (case shield C G sx of (G', r) \<Rightarrow> (G', or_deferred r)))"

definition do_storage ::
    "('e, 'm, 's) crypto \<Rightarrow> hybrid_ledger \<Rightarrow> byte list \<Rightarrow> (hybrid_ledger \<times> exec_outcome) option" where
  "do_storage C G body =
     (case storage_tx_from_bytes C body of
        None \<Rightarrow> Some (G, ExMalformed)
      | Some (Open params payment) \<Rightarrow> Some (case open_deal C G params payment of (G', r) \<Rightarrow> (G', or_deferred r))
      | Some (Prove i auth response) \<Rightarrow>
          (if bt_contains (hl_storage G) i
           then map_option (\<lambda>(G', ok). (G', outcome ok)) (prove_deal C G i auth response)
           else Some (G, ExDeferred))
      | Some (Close i auth) \<Rightarrow>
          Some (if bt_contains (hl_storage G) i
                then case close_deal C G i auth of (G', ok) \<Rightarrow> (G', outcome ok)
                else (G, ExDeferred)))"

definition do_htlc :: "('e, 'm, 's) crypto \<Rightarrow> hybrid_ledger \<Rightarrow> byte list \<Rightarrow> hybrid_ledger \<times> exec_outcome" where
  "do_htlc C G body =
     (case htlc_tx_from_bytes C body of
        None \<Rightarrow> (G, ExMalformed)
      | Some (Lock terms payment) \<Rightarrow> (case lock_htlc C G terms payment of (G', r) \<Rightarrow> (G', or_deferred r))
      | Some (Claim i preimage) \<Rightarrow>
          (if book_state (hl_htlcs G) i = None then (G, ExDeferred)
           else case claim_htlc C G i preimage of (G', ok) \<Rightarrow> (G', outcome ok))
      | Some (Refund i) \<Rightarrow>
          (if book_state (hl_htlcs G) i = None then (G, ExDeferred)
           else case refund_htlc G i of (G', ok) \<Rightarrow> (G', outcome ok)))"

definition do_stake :: "('e, 'm, 's) crypto \<Rightarrow> hybrid_ledger \<Rightarrow> byte list \<Rightarrow> hybrid_ledger \<times> exec_outcome" where
  "do_stake C G body =
     (case stake_tx_from_bytes C body of
        None \<Rightarrow> (G, ExMalformed)
      | Some tx \<Rightarrow> (case apply_stake C G tx of (G', ok) \<Rightarrow> (G', outcome ok)))"

definition do_slash :: "('e, 'm, 's) crypto \<Rightarrow> hybrid_ledger \<Rightarrow> byte list \<Rightarrow> hybrid_ledger \<times> exec_outcome" where
  "do_slash C G body =
     (case slash_tx_from_bytes C body of
        None \<Rightarrow> (G, ExMalformed)
      | Some tx \<Rightarrow> (case apply_slash C G tx of (G', ok) \<Rightarrow> (G', outcome ok)))"

definition ledger_apply_with ::
    "('e, 'm, 's) crypto \<Rightarrow> hybrid_ledger \<Rightarrow> transaction \<Rightarrow> bool option \<Rightarrow> (hybrid_ledger \<times> exec_outcome) option" where
  "ledger_apply_with C G tx verdict =
     (case payload tx of
        [] \<Rightarrow> Some (G, ExMalformed)
      | tag # body \<Rightarrow>
          if tag = TAG_TRANSPARENT then Some (do_transparent C G body verdict)
          else if tag = TAG_ERGON then Some (apply_term C G body verdict)
          else if tag = TAG_SHIELDED then Some (do_shielded C G body verdict)
          else if tag = TAG_NAME then Some (do_name C G body)
          else if tag = TAG_SHIELD then Some (do_shield C G body)
          else if tag = TAG_STORAGE then do_storage C G body
          else if tag = TAG_HTLC then Some (do_htlc C G body)
          else if tag = TAG_STAKE then Some (do_stake C G body)
          else if tag = TAG_SLASH then Some (do_slash C G body)
          else Some (G, ExMalformed))"

definition ledger_apply ::
    "('e, 'm, 's) crypto \<Rightarrow> hybrid_ledger \<Rightarrow> transaction \<Rightarrow> (hybrid_ledger \<times> exec_outcome) option" where
  "ledger_apply C G tx = ledger_apply_with C G tx None"

section \<open>Batch verification\<close>

datatype ('e, 'm) stateless_job =
    JobTransparent "('e, 'm) signed_transfer"
  | JobShielded shielded_tx transparent_proof
  | JobTerm "('e, 'm) signed_term"

definition stateless_job :: "('e, 'm, 's) crypto \<Rightarrow> transaction \<Rightarrow> ('e, 'm) stateless_job option" where
  "stateless_job C tx =
     (case payload tx of
        [] \<Rightarrow> None
      | tag # body \<Rightarrow>
          if tag = TAG_TRANSPARENT then map_option JobTransparent (st_from_bytes C body)
          else if tag = TAG_SHIELDED then map_option (\<lambda>(stx, pf). JobShielded stx pf) (decode_submission body)
          else if tag = TAG_ERGON then map_option JobTerm (sg_from_bytes C body)
          else None)"

definition eval_job ::
    "('e, 'm, 's) crypto \<Rightarrow> commit_params \<Rightarrow> nat \<times> ('e, 'm) stateless_job \<Rightarrow> nat \<times> bool" where
  "eval_job C p j =
     (fst j, case snd j of
               JobTransparent st \<Rightarrow> st_verify C st
             | JobShielded stx pf \<Rightarrow> transparent_verify C pf p stx
             | JobTerm env \<Rightarrow> sg_verify C env)"

text \<open>\<open>slice::chunks\<close>.\<close>

function chunks :: "nat \<Rightarrow> 'a list \<Rightarrow> 'a list list" where
  "chunks n xs = (if xs = [] \<or> n = 0 then [] else take n xs # chunks n (drop n xs))"
  by pat_completeness auto
termination by (relation "measure (\<lambda>(n, xs). length xs)") auto

declare chunks.simps [simp del]

text \<open>
  \<open>par_verify\<close> on a machine with the given parallelism. A worker that panics contributes no verdicts:
  \<open>panicked\<close> says which.
\<close>

definition par_verify ::
    "('e, 'm, 's) crypto \<Rightarrow> nat \<Rightarrow> (nat \<Rightarrow> bool) \<Rightarrow> (nat \<times> ('e, 'm) stateless_job) list \<Rightarrow> commit_params \<Rightarrow>
     (nat \<times> bool) list" where
  "par_verify C threads panicked jobs p =
     (if threads \<le> 1 \<or> length jobs \<le> 1 then map (eval_job C p) jobs
      else let chunk = (length jobs + threads - 1) div threads
           in concat (map (\<lambda>(w, c). if panicked w then [] else map (eval_job C p) c) (enumerate 0 (chunks chunk jobs))))"

definition verify_batch ::
    "('e, 'm, 's) crypto \<Rightarrow> nat \<Rightarrow> (nat \<Rightarrow> bool) \<Rightarrow> hybrid_ledger \<Rightarrow> transaction list \<Rightarrow> bool option list" where
  "verify_batch C threads panicked G txs =
     (let jobs = List.map_filter (\<lambda>(i, tx). map_option (Pair i) (stateless_job C tx)) (enumerate 0 txs);
          verdicts = replicate (length txs) None
      in if jobs = [] then verdicts
         else foldl (\<lambda>vs (i, ok). vs[i := Some ok]) verdicts (par_verify C threads panicked jobs (hl_params G)))"

section \<open>Access lists\<close>

definition al_default :: access_list where
  "al_default = al_new [] []"

text \<open>The two parties of a contract or a deal opened earlier in the block, by its id.\<close>

type_synonym parties = "(byte list, account \<times> account) btree"

definition htlc_party :: "hybrid_ledger \<Rightarrow> byte list \<Rightarrow> parties \<Rightarrow> (account \<times> account) option" where
  "htlc_party G i pending =
     (case bt_get (hl_htlcs G) i of
        Some h \<Rightarrow> Some (ht_sender (h_terms h), ht_recipient (h_terms h))
      | None \<Rightarrow> bt_get pending i)"

definition deal_party :: "hybrid_ledger \<Rightarrow> byte list \<Rightarrow> parties \<Rightarrow> (account \<times> account) option" where
  "deal_party G i pending =
     (case bt_get (hl_storage G) i of
        Some d \<Rightarrow> Some (dp_provider (d_params d), dp_consumer (d_params d))
      | None \<Rightarrow> bt_get pending i)"

definition push_party :: "account option \<Rightarrow> key list" where
  "push_party p = (case p of None \<Rightarrow> [] | Some a \<Rightarrow> [balance_key a])"

definition storage_access ::
    "('e, 'm, 's) crypto \<Rightarrow> hybrid_ledger \<Rightarrow> parties \<Rightarrow> ('e, 'm) storage_tx \<Rightarrow> access_list" where
  "storage_access C G pending tx =
     (case tx of
        Open params payment \<Rightarrow>
          al_new [] [balance_key (dp_consumer params), balance_key STORAGE_ESCROW,
                     storage_key (deal_id C params (t_nonce (st_transfer payment)))]
      | Prove i _ _ \<Rightarrow>
          al_new [] ([balance_key STORAGE_ESCROW, storage_key i] @ push_party (map_option fst (deal_party G i pending)))
      | Close i _ \<Rightarrow>
          al_new [] ([balance_key STORAGE_ESCROW, storage_key i] @ push_party (map_option snd (deal_party G i pending))))"

definition htlc_access ::
    "('e, 'm, 's) crypto \<Rightarrow> hybrid_ledger \<Rightarrow> parties \<Rightarrow> ('e, 'm) htlc_tx \<Rightarrow> access_list" where
  "htlc_access C G pending tx =
     (case tx of
        Lock terms payment \<Rightarrow>
          al_new [] [balance_key (ht_sender terms), balance_key HTLC_ESCROW,
                     htlc_key (htlc_id C terms (t_nonce (st_transfer payment)))]
      | Claim i _ \<Rightarrow>
          al_new [] ([balance_key HTLC_ESCROW, htlc_key i] @ push_party (map_option snd (htlc_party G i pending)))
      | Refund i \<Rightarrow>
          al_new [] ([balance_key HTLC_ESCROW, htlc_key i] @ push_party (map_option fst (htlc_party G i pending))))"

definition access_of ::
    "('e, 'm, 's) crypto \<Rightarrow> hybrid_ledger \<Rightarrow> transaction \<Rightarrow> parties \<Rightarrow> parties \<Rightarrow> access_list" where
  "access_of C G tx pending pending_htlc =
     (case payload tx of
        [] \<Rightarrow> al_default
      | tag # body \<Rightarrow>
          if tag = TAG_TRANSPARENT then
            (case st_from_bytes C body of
               None \<Rightarrow> al_default
             | Some st \<Rightarrow> al_new [] [balance_key (t_from (st_transfer st)), balance_key (t_to (st_transfer st))])
          else if tag = TAG_ERGON then
            (case Option.bind (sg_from_bytes C body) (\<lambda>e. sg_checked e limits_unbounded) of
               None \<Rightarrow> al_default
             | Some t \<Rightarrow> al_new (reads (term_footprint t)) (writes (term_footprint t)))
          else if tag = TAG_SHIELDED then
            (case decode_submission body of
               None \<Rightarrow> al_default
             | Some (stx, _) \<Rightarrow>
                 al_new [] ([shielded_key SHIELDED_MARKER, balance_key POOL_SINK] @
                   (if sx_public_value stx > 0 then [balance_key (sx_public_recipient stx)] else []) @
                   (if sx_fee stx > 0 then [balance_key TREASURY] else [])))
          else if tag = TAG_NAME then
            (case name_tx_from_bytes C body of
               None \<Rightarrow> al_default
             | Some nt \<Rightarrow> al_new [] [balance_key (t_from (st_transfer (nx_payment nt))), balance_key TREASURY,
                                    name_key (name_digest C (op_name (nx_op nt)))])
          else if tag = TAG_SHIELD then
            (case shield_from_bytes C body of
               None \<Rightarrow> al_default
             | Some sx \<Rightarrow> al_new [] [balance_key (t_from (st_transfer (sh_payment sx))), balance_key POOL_SINK,
                                    shielded_key SHIELDED_MARKER])
          else if tag = TAG_STORAGE then
            (case storage_tx_from_bytes C body of None \<Rightarrow> al_default | Some tx \<Rightarrow> storage_access C G pending tx)
          else if tag = TAG_HTLC then
            (case htlc_tx_from_bytes C body of None \<Rightarrow> al_default | Some tx \<Rightarrow> htlc_access C G pending_htlc tx)
          else if tag = TAG_STAKE then
            (case stake_tx_from_bytes C body of
               None \<Rightarrow> al_default
             | Some tx \<Rightarrow> al_new [] [balance_key (t_from (st_transfer (stake_transfer tx))), balance_key STAKE_SINK])
          else if tag = TAG_SLASH then
            (case slash_tx_from_bytes C body of
               None \<Rightarrow> al_default
             | Some tx \<Rightarrow> al_new [] [balance_key (account_id C (sl_verifier tx)), balance_key STAKE_SINK, balance_key TREASURY])
          else al_default)"

text \<open>What a transaction opens, noted for those behind it.\<close>

definition note_opened :: "('e, 'm, 's) crypto \<Rightarrow> transaction \<Rightarrow> parties \<times> parties \<Rightarrow> parties \<times> parties" where
  "note_opened C tx p =
     (case payload tx of
        [] \<Rightarrow> p
      | tag # body \<Rightarrow>
          if tag = TAG_STORAGE then
            (case storage_tx_from_bytes C body of
               Some (Open params payment) \<Rightarrow>
                 (bt_insert (deal_id C params (t_nonce (st_transfer payment))) (dp_provider params, dp_consumer params) (fst p), snd p)
             | _ \<Rightarrow> p)
          else if tag = TAG_HTLC then
            (case htlc_tx_from_bytes C body of
               Some (Lock terms payment) \<Rightarrow>
                 (fst p, bt_insert (htlc_id C terms (t_nonce (st_transfer payment))) (ht_sender terms, ht_recipient terms) (snd p))
             | _ \<Rightarrow> p)
          else p)"

primrec access_loop ::
    "('e, 'm, 's) crypto \<Rightarrow> hybrid_ledger \<Rightarrow> transaction list \<Rightarrow> parties \<times> parties \<Rightarrow> access_list list" where
  "access_loop C G [] p = []"
| "access_loop C G (tx # txs) p = access_of C G tx (fst p) (snd p) # access_loop C G txs (note_opened C tx p)"

definition access_lists :: "('e, 'm, 's) crypto \<Rightarrow> hybrid_ledger \<Rightarrow> transaction list \<Rightarrow> access_list list" where
  "access_lists C G txs = access_loop C G txs ([], [])"

section \<open>Blocks\<close>

text \<open>The commit loop over the scheduled indices; both \<open>get\<close>s of the source skip an index out of range.\<close>

primrec commit_loop ::
    "('e, 'm, 's) crypto \<Rightarrow> transaction list \<Rightarrow> bool option list \<Rightarrow> nat list \<Rightarrow> hybrid_ledger \<Rightarrow> exec_outcome list \<Rightarrow>
     (hybrid_ledger \<times> exec_outcome list) option" where
  "commit_loop C txs verdicts [] G outs = Some (G, outs)"
| "commit_loop C txs verdicts (i # is) G outs =
     (if i < length txs \<and> i < length outs
      then (case ledger_apply_with C G (txs ! i) (if i < length verdicts then verdicts ! i else None) of
              None \<Rightarrow> None
            | Some (G', out) \<Rightarrow> commit_loop C txs verdicts is G' (outs[i := out]))
      else commit_loop C txs verdicts is G outs)"

definition execute_block ::
    "('e, 'm, 's) crypto \<Rightarrow> nat \<Rightarrow> (nat \<Rightarrow> bool) \<Rightarrow> hybrid_ledger \<Rightarrow> transaction list \<Rightarrow>
     (hybrid_ledger \<times> exec_outcome list) option" where
  "execute_block C threads panicked G txs =
     (let waves = schedule_waves (access_lists C G txs);
          G1 = G\<lparr>hl_waves_last_block := length waves\<rparr>;
          G2 = (if waves \<noteq> [] then G1\<lparr>hl_parallel_blocks := saturating_add (hl_parallel_blocks G1) 1\<rparr> else G1);
          verdicts = verify_batch C threads panicked G2 txs
      in commit_loop C txs verdicts (concat waves) G2 (replicate (length txs) ExMalformed))"

definition apply_block ::
    "('e, 'm, 's) crypto \<Rightarrow> nat \<Rightarrow> (nat \<Rightarrow> bool) \<Rightarrow> hybrid_ledger \<Rightarrow> transaction list \<Rightarrow>
     (hybrid_ledger \<times> exec_outcome list) option" where
  "apply_block C threads panicked G txs =
     (case execute_block C threads panicked G txs of
        None \<Rightarrow> None
      | Some (G', outs) \<Rightarrow>
          Some (if \<not> conservation_holds (conservation_of G')
                then G'\<lparr>hl_conservation_breaks := saturating_add (hl_conservation_breaks G') 1\<rparr> else G', outs))"

section \<open>Root and snapshot\<close>

definition ledger_state_root :: "('e, 'm, 's) crypto \<Rightarrow> hybrid_ledger \<Rightarrow> byte list" where
  "ledger_state_root C G =
     hash_labeled C HYBRID_ROOT_LABEL
       (tl_state_root C (hl_tokens G) @ pool_root C (hl_shielded G) @ names_state_root C (hl_names G) @
        market_state_root C (hl_storage G) @ book_state_root C (hl_htlcs G) @ stake_state_root C (hl_stake G))"

definition snapshot :: "hybrid_ledger \<Rightarrow> byte list" where
  "snapshot G =
     put_var_bytes (tl_to_bytes (hl_tokens G)) @ put_var_bytes (pool_to_bytes (hl_shielded G)) @
     put_var_bytes (names_to_bytes (hl_names G)) @ put_var_bytes (market_to_bytes (hl_storage G)) @
     put_var_bytes (book_to_bytes (hl_htlcs G)) @ put_var_bytes (stake_to_bytes (hl_stake G)) @
     put_u64 (hl_height G) @ hl_audit_beacon G"

definition restore :: "('e, 'm, 's) crypto \<Rightarrow> byte list \<Rightarrow> hybrid_ledger option" where
  "restore C bs = do {
     (b, r) \<leftarrow> rd_var_bytes bs; tokens \<leftarrow> tl_from_bytes b;
     (b, r) \<leftarrow> rd_var_bytes r; shielded \<leftarrow> pool_from_bytes b;
     (b, r) \<leftarrow> rd_var_bytes r; names \<leftarrow> names_from_bytes C b;
     (b, r) \<leftarrow> rd_var_bytes r; storage \<leftarrow> market_from_bytes b;
     (b, r) \<leftarrow> rd_var_bytes r; htlcs \<leftarrow> book_from_bytes b;
     (b, r) \<leftarrow> rd_var_bytes r; stake \<leftarrow> stake_from_bytes b;
     (height, r) \<leftarrow> rd_u64 r;
     (beacon, r) \<leftarrow> rd_take 32 r;
     if r \<noteq> [] then None
     else Some \<lparr>hl_waves_last_block = 0, hl_parallel_blocks = 0, hl_conservation_breaks = 0, hl_tokens = tokens,
                hl_shielded = shielded, hl_names = names, hl_storage = storage, hl_htlcs = htlcs, hl_stake = stake,
                hl_params = params_standard C, hl_height = height, hl_audit_beacon = beacon\<rparr> }"

section \<open>The batch computes what the commit would\<close>

definition job_verdict :: "('e, 'm, 's) crypto \<Rightarrow> commit_params \<Rightarrow> transaction \<Rightarrow> bool option" where
  "job_verdict C p tx = map_option (\<lambda>j. snd (eval_job C p (0, j))) (stateless_job C tx)"

lemma chunks_members: "c \<in> set (chunks n xs) \<Longrightarrow> set c \<subseteq> set xs"
proof (induction n xs rule: chunks.induct)
  case (1 n xs)
  then show ?case
    using set_take_subset [of n xs] set_drop_subset [of n xs]
    by (subst (asm) (2) chunks.simps) (fastforce split: if_splits)
qed

lemma par_verify_members:
  "(i, ok) \<in> set (par_verify C threads panicked jobs p) \<Longrightarrow> \<exists>j. (i, j) \<in> set jobs \<and> ok = snd (eval_job C p (0, j))"
proof -
  assume "(i, ok) \<in> set (par_verify C threads panicked jobs p)"
  then obtain j where "j \<in> set jobs" "(i, ok) = eval_job C p j"
    using chunks_members
    by (fastforce simp: par_verify_def Let_def in_set_enumerate_eq split: if_splits dest: nth_mem)
  moreover from this have "i = fst j" "ok = snd (eval_job C p (0, snd j))" by (simp_all add: eval_job_def)
  ultimately show ?thesis by (metis prod.collapse)
qed

lemma verify_batch_verdicts:
  assumes "i < length txs"
  shows "length (verify_batch C threads panicked G txs) = length txs"
    "verify_batch C threads panicked G txs ! i \<in> {None, job_verdict C (hl_params G) (txs ! i)}"
proof -
  let ?jobs = "List.map_filter (\<lambda>(i, tx). map_option (Pair i) (stateless_job C tx)) (enumerate 0 txs)"
  have jobs: "i < length txs \<and> stateless_job C (txs ! i) = Some j" if "(i, j) \<in> set ?jobs" for i j
    using that by (auto simp: List.map_filter_def in_set_enumerate_eq split: option.splits)
  have inv: "length (foldl (\<lambda>vs (i, ok). vs[i := Some ok]) vs rs) = length txs \<and>
      foldl (\<lambda>vs (i, ok). vs[i := Some ok]) vs rs ! i \<in> {None, job_verdict C p (txs ! i)}"
    if "length vs = length txs" "vs ! i \<in> {None, job_verdict C p (txs ! i)}"
      "\<forall>(i, ok) \<in> set rs. job_verdict C p (txs ! i) = Some ok" for vs rs p
    using that
  proof (induction rs arbitrary: vs)
    case (Cons r rs)
    obtain a b where r: "r = (a, b)" by (cases r)
    have "vs[a := Some b] ! i \<in> {None, job_verdict C p (txs ! i)}"
      using Cons.prems assms unfolding r by (cases "a = i") auto
    with Cons.IH [of "vs[a := Some b]"] Cons.prems show ?case unfolding r by simp
  qed simp
  have "\<forall>(i, ok) \<in> set (par_verify C threads panicked ?jobs p). job_verdict C p (txs ! i) = Some ok" for p
    using par_verify_members jobs by (fastforce simp: job_verdict_def)
  with inv [of "replicate (length txs) None" "hl_params G"] assms
  show "length (verify_batch C threads panicked G txs) = length txs"
    "verify_batch C threads panicked G txs ! i \<in> {None, job_verdict C (hl_params G) (txs ! i)}"
    by (auto simp: verify_batch_def Let_def)
qed

lemma verdict_inline:
  "v \<in> {None, job_verdict C (hl_params G) tx} \<Longrightarrow> ledger_apply_with C G tx v = ledger_apply C G tx"
  by (auto simp: ledger_apply_def ledger_apply_with_def job_verdict_def stateless_job_def eval_job_def do_transparent_def
      do_shielded_def apply_term_def tags split: list.split option.split)

lemma release_params [simp]: "hl_params (release_from G f t x) = hl_params G"
  by (simp add: release_from_def)

lemma settle_params [simp]:
  "hl_params (fst (lock_htlc C G terms pay)) = hl_params G"
  "hl_params (fst (claim_htlc C G i pre)) = hl_params G"
  "hl_params (fst (refund_htlc G i)) = hl_params G"
  "hl_params (fst (shield C G sx)) = hl_params G"
  "hl_params (fst (apply_shielded C G stx ok)) = hl_params G"
  "hl_params (fst (apply_stake C G stake)) = hl_params G"
  "hl_params (fst (apply_slash C G slash)) = hl_params G"
  "hl_params (fst (open_deal C G p pay)) = hl_params G"
  "hl_params (fst (close_deal C G i auth)) = hl_params G"
  by (auto simp: lock_htlc_def claim_htlc_def refund_htlc_def resolve_htlc_def shield_def apply_shielded_def apply_stake_def
      apply_slash_def open_deal_def close_deal_def Let_def split: option.split prod.split sum.split stake_tx.split bool.split)

lemma prove_params: "prove_deal C G i auth resp = Some (G', ok) \<Longrightarrow> hl_params G' = hl_params G"
  by (auto simp: prove_deal_def split: option.splits if_splits prod.splits settlement.splits bool.splits)

lemma term_params: "apply_term C G body v = (G', out) \<Longrightarrow> hl_params G' = hl_params G"
  by (cases rule: apply_term_cases [of C G body v]) (auto dest: eval_ledger(1) simp: same_rest_def split: if_splits)

lemma pass_state: "(case r of (G', x) \<Rightarrow> (G', f x)) = (H, out) \<longleftrightarrow> H = fst r \<and> out = f (snd r)"
  "(case q of (T, x) \<Rightarrow> (G\<lparr>hl_tokens := T\<rparr>, g x)) = (K, out) \<longleftrightarrow> K = G\<lparr>hl_tokens := fst q\<rparr> \<and> out = g (snd q)"
  by (cases r; auto) (cases q; auto)

text \<open>The one settlement rule a transaction reaches.\<close>

lemma apply_cases:
  assumes "ledger_apply_with C G tx v = Some (G', out)"
  obtains (idle) "G' = G"
  | (transfer) st vd where "G' = G\<lparr>hl_tokens := fst (apply_with_verdict (hl_tokens G) st vd)\<rparr>" "v = None \<Longrightarrow> vd = st_verify C st"
  | (ergon) body where "payload tx = TAG_ERGON # body" "apply_term C G body v = (G', out)"
  | (shielded) stx ok where "G' = fst (apply_shielded C G stx ok)"
  | (name) nt R T r where "name_apply C (hl_names G) nt (hl_tokens G) (hl_height G) = (R, T, r)" "G' = G\<lparr>hl_names := R, hl_tokens := T\<rparr>"
  | (shield) sx where "G' = fst (shield C G sx)"
  | (open_deal) p pay where "G' = fst (open_deal C G p pay)"
  | (prove) i auth resp ok where "prove_deal C G i auth resp = Some (G', ok)"
  | (close) i auth where "G' = fst (close_deal C G i auth)"
  | (lock) terms pay where "G' = fst (lock_htlc C G terms pay)"
  | (claim) i pre where "G' = fst (claim_htlc C G i pre)"
  | (refund) i where "G' = fst (refund_htlc G i)"
  | (stake) st where "G' = fst (apply_stake C G st)"
  | (slash) sl where "G' = fst (apply_slash C G sl)"
proof (cases "payload tx")
  case Nil
  then show ?thesis using assms idle by (simp add: ledger_apply_with_def)
next
  case (Cons tag body)
  consider "tag = TAG_TRANSPARENT" | "tag = TAG_ERGON" | "tag = TAG_SHIELDED" | "tag = TAG_NAME" | "tag = TAG_SHIELD"
    | "tag = TAG_STORAGE" | "tag = TAG_HTLC" | "tag = TAG_STAKE" | "tag = TAG_SLASH"
    | "tag \<notin> {TAG_TRANSPARENT, TAG_ERGON, TAG_SHIELDED, TAG_NAME, TAG_SHIELD, TAG_STORAGE, TAG_HTLC, TAG_STAKE, TAG_SLASH}"
    by blast
  then show ?thesis
  proof cases
    case 1
    then have "do_transparent C G body v = (G', out)" using assms Cons by (simp add: ledger_apply_with_def tags)
    then show ?thesis
    proof (cases "st_from_bytes C body")
      case (Some st)
      show ?thesis
        by (rule transfer [of st "case v of None \<Rightarrow> st_verify C st | Some b \<Rightarrow> b"])
          (use \<open>do_transparent C G body v = (G', out)\<close> Some in \<open>simp_all add: do_transparent_def pass_state\<close>)
    qed (use idle in \<open>simp add: do_transparent_def\<close>)
  next
    case 2
    with assms Cons ergon show ?thesis by (simp add: ledger_apply_with_def tags)
  next
    case 3
    then have "do_shielded C G body v = (G', out)" using assms Cons by (simp add: ledger_apply_with_def tags)
    then show ?thesis
      using idle shielded by (auto simp: do_shielded_def pass_state split: option.splits)
  next
    case 4
    then have "do_name C G body = (G', out)" using assms Cons by (simp add: ledger_apply_with_def tags)
    then show ?thesis
    proof (cases "name_tx_from_bytes C body")
      case (Some nt)
      obtain R T r where na: "name_apply C (hl_names G) nt (hl_tokens G) (hl_height G) = (R, T, r)" by (metis prod_cases3)
      show ?thesis by (rule name [OF na]) (use \<open>do_name C G body = (G', out)\<close> Some na in \<open>simp add: do_name_def\<close>)
    qed (use idle in \<open>simp add: do_name_def\<close>)
  next
    case 5
    then have "do_shield C G body = (G', out)" using assms Cons by (simp add: ledger_apply_with_def tags)
    then show ?thesis
      using idle shield by (auto simp: do_shield_def pass_state split: option.splits)
  next
    case 6
    then have "do_storage C G body = Some (G', out)" using assms Cons by (simp add: ledger_apply_with_def tags)
    then show ?thesis
      using idle open_deal prove close by (auto simp: do_storage_def pass_state split: option.splits storage_tx.splits if_splits)
  next
    case 7
    then have "do_htlc C G body = (G', out)" using assms Cons by (simp add: ledger_apply_with_def tags)
    then show ?thesis
      using idle lock claim refund by (auto simp: do_htlc_def pass_state split: option.splits htlc_tx.splits if_splits)
  next
    case 8
    then have "do_stake C G body = (G', out)" using assms Cons by (simp add: ledger_apply_with_def tags)
    then show ?thesis
      using idle stake by (auto simp: do_stake_def pass_state split: option.splits)
  next
    case 9
    then have "do_slash C G body = (G', out)" using assms Cons by (simp add: ledger_apply_with_def tags)
    then show ?thesis
      using idle slash by (auto simp: do_slash_def pass_state split: option.splits)
  next
    case 10
    with assms Cons idle show ?thesis by (simp add: ledger_apply_with_def)
  qed
qed

lemma apply_params:
  assumes "ledger_apply_with C G tx v = Some (G', out)"
  shows "hl_params G' = hl_params G"
  by (cases rule: apply_cases [OF assms]) (simp_all add: prove_params term_params)

text \<open>The same loop with every check inline, as one transaction after another.\<close>

primrec serial_run ::
    "('e, 'm, 's) crypto \<Rightarrow> transaction list \<Rightarrow> nat list \<Rightarrow> hybrid_ledger \<Rightarrow> exec_outcome list \<Rightarrow>
     (hybrid_ledger \<times> exec_outcome list) option" where
  "serial_run C txs [] G outs = Some (G, outs)"
| "serial_run C txs (i # is) G outs =
     (case ledger_apply C G (txs ! i) of
        None \<Rightarrow> None
      | Some (G', out) \<Rightarrow> serial_run C txs is G' (outs[i := out]))"

lemma commit_loop_serial:
  assumes "set is \<subseteq> {..<length txs}" "length outs = length txs" "length vs = length txs"
    and "\<forall>i < length txs. vs ! i \<in> {None, job_verdict C (hl_params G) (txs ! i)}"
  shows "commit_loop C txs vs is G outs = serial_run C txs is G outs"
  using assms
proof (induction "is" arbitrary: G outs)
  case (Cons i "is")
  then have i: "i < length txs" by simp
  have v: "ledger_apply_with C G (txs ! i) (vs ! i) = ledger_apply C G (txs ! i)"
    using Cons.prems(4) i by (intro verdict_inline) simp
  show ?case
  proof (cases "ledger_apply C G (txs ! i)")
    case (Some r)
    obtain G' out where r: "r = (G', out)" by (cases r)
    have "hl_params G' = hl_params G" using apply_params [of C G "txs ! i" None] Some r by (simp add: ledger_apply_def)
    then show ?thesis using Cons.IH [of "outs[i := out]" G'] Cons.prems i v Some r by simp
  qed (use i v Cons.prems in simp)
qed simp

lemma length_access_lists [simp]: "length (access_lists C G txs) = length txs"
proof -
  have "length (access_loop C G txs p) = length txs" for p by (induction txs arbitrary: p) auto
  then show ?thesis by (simp add: access_lists_def)
qed

definition wave_order :: "('e, 'm, 's) crypto \<Rightarrow> hybrid_ledger \<Rightarrow> transaction list \<Rightarrow> nat list" where
  "wave_order C G txs = concat (schedule_waves (access_lists C G txs))"

text \<open>The two local metrics a block leaves behind.\<close>

definition with_metrics :: "('e, 'm, 's) crypto \<Rightarrow> hybrid_ledger \<Rightarrow> transaction list \<Rightarrow> hybrid_ledger" where
  "with_metrics C G txs =
     G\<lparr>hl_waves_last_block := length (schedule_waves (access_lists C G txs)),
       hl_parallel_blocks := (if schedule_waves (access_lists C G txs) = [] then hl_parallel_blocks G
                              else saturating_add (hl_parallel_blocks G) 1)\<rparr>"

lemma execute_block_serial:
  "execute_block C threads panicked G txs =
     serial_run C txs (wave_order C G txs) (with_metrics C G txs) (replicate (length txs) ExMalformed)"
proof -
  let ?G = "with_metrics C G txs" and ?vs = "verify_batch C threads panicked (with_metrics C G txs) txs"
  have "execute_block C threads panicked G txs =
      commit_loop C txs ?vs (wave_order C G txs) ?G (replicate (length txs) ExMalformed)"
    by (simp add: execute_block_def wave_order_def with_metrics_def Let_def)
  also have "\<dots> = serial_run C txs (wave_order C G txs) ?G (replicate (length txs) ExMalformed)"
  proof (rule commit_loop_serial)
    show "set (wave_order C G txs) \<subseteq> {..<length txs}" by (simp add: wave_order_def set_concat_schedule del: set_concat)
    have "length (foldl (\<lambda>vs (i, ok). vs[i := Some ok]) vs rs) = length vs" for vs :: "bool option list" and rs
      by (induction rs arbitrary: vs) auto
    then show "length ?vs = length txs" by (simp add: verify_batch_def Let_def)
  qed (simp, use verify_batch_verdicts(2) in blast)
  finally show ?thesis .
qed

text \<open>
  C33. A block is one deterministic run. Whatever number of threads verifies the signatures and proofs, however
  the work is cut, and whichever workers panic, executing a block equals applying its transactions one
  at a time with every check inline, in the order of the waves, which holds each transaction exactly once.
\<close>

theorem block_is_deterministic:
  "execute_block C threads panicked G txs =
     serial_run C txs (wave_order C G txs) (with_metrics C G txs) (replicate (length txs) ExMalformed) \<and>
   mset (wave_order C G txs) = mset [0..<length txs]"
  using execute_block_serial schedule_mset [of "access_lists C G txs"] by (simp add: wave_order_def)

section \<open>Solvency\<close>

lemma solvent_term:
  assumes "solvent G" "sinks_keyless C" "apply_term C G body v = (G', out)" "tl_supply (hl_tokens G') < 2 ^ 64"
  shows "solvent G'"
proof (cases rule: apply_term_cases [of C G body v])
  case (ran e t r u w)
  have ok: "ledger_ok (hl_tokens G')"
    using apply_term_supply(1) [OF assms(3)] assms(1) by (simp add: solvent_def backed_def)
  have rest: "hl_storage G' = hl_storage G" "hl_htlcs G' = hl_htlcs G" "hl_stake G' = hl_stake G"
    using eval_ledger(1) [OF ran(5)] assms(3) ran(6) by (auto simp: same_rest_def split: if_splits)
  have "debts G a \<le> unat (balance (hl_tokens G') a)" for a
  proof (cases "a = sg_caller C e")
    case True
    then show ?thesis using debts_key [OF assms(2)] by (simp add: sg_caller_def)
  next
    case False
    have "balance (hl_tokens G') a = balance (hl_tokens (lv_ledger w)) a" using assms(3) ran(6) by (auto split: if_splits)
    then have "unat (balance (hl_tokens G) a) \<le> unat (balance (hl_tokens G') a)"
      using eval_ledger(2) [OF ran(5) False] by (simp add: word_le_nat_alt)
    moreover have "debts G a \<le> unat (balance (hl_tokens G) a)" using assms(1) by (simp add: solvent_def backed_def)
    ultimately show ?thesis by linarith
  qed
  moreover have "debts G' = debts G" using rest by (simp add: debts_def fun_eq_iff)
  ultimately show ?thesis using assms(1,4) ok rest by (simp add: solvent_def backed_def)
qed (use assms in simp)

lemma solvent_name:
  assumes "solvent G" "sinks_keyless C" "name_apply C (hl_names G) tx (hl_tokens G) h = (R, T, r)"
  shows "solvent (G\<lparr>hl_names := R, hl_tokens := T\<rparr>)"
proof -
  have "T = hl_tokens G \<or> T = fst (tl_apply C (hl_tokens G) (nx_payment tx))"
    using assms(3) by (auto simp: name_apply_def Let_def split: if_splits sum.splits prod.splits)
  moreover have "solvent (G\<lparr>hl_names := R, hl_tokens := hl_tokens G\<rparr>)" using assms(1) by simp
  moreover have "solvent ((G\<lparr>hl_names := R\<rparr>)\<lparr>hl_tokens := fst (tl_apply C (hl_tokens (G\<lparr>hl_names := R\<rparr>)) (nx_payment tx))\<rparr>)"
    by (rule solvent_pay) (use assms in simp_all)
  ultimately show ?thesis by auto
qed

lemma solvent_apply:
  assumes "solvent G" "sinks_keyless C" "ledger_apply C G tx = Some (G', out)" "tl_supply (hl_tokens G') < 2 ^ 64"
  shows "solvent G'"
proof -
  have "ledger_apply_with C G tx None = Some (G', out)" using assms(3) by (simp add: ledger_apply_def)
  then show ?thesis
  proof (cases rule: apply_cases)
    case (transfer st vd)
    then show ?thesis using solvent_pay [OF assms(1,2), of st] by (simp add: tl_apply_def)
  next
    case (prove i auth resp ok)
    then show ?thesis using solvent_prove_deal [OF assms(1)] by blast
  next
    case (ergon body)
    then show ?thesis using solvent_term [OF assms(1,2) _ assms(4)] by blast
  next
    case (name nt R T r)
    then show ?thesis using solvent_name [OF assms(1,2)] by blast
  qed (use assms(1,2) in \<open>simp_all add: solvent_lock_htlc solvent_shield solvent_apply_stake solvent_open_deal
      solvent_claim_htlc solvent_refund_htlc solvent_apply_shielded solvent_apply_slash solvent_close_deal\<close>)
qed

text \<open>Outside ERGON every rule moves value and none creates or destroys it.\<close>

definition supply_at :: "nat \<Rightarrow> token_ledger \<Rightarrow> bool" where
  "supply_at n T \<longleftrightarrow> ledger_ok T \<and> tl_supply T = n \<and> n < 2 ^ 64"

lemma supply_at_ops:
  assumes "supply_at n T"
  shows "supply_at n (fst (apply_with_verdict T st v))" "supply_at n (fst (tl_apply C T st))"
    "supply_at n (fst (move_system T f t x))" "supply_at n (fst (consume_nonce T a m))"
proof -
  have T: "ledger_ok T" "tl_supply T < 2 ^ 64" "tl_supply T = n" using assms by (auto simp: supply_at_def)
  have "ledger_ok (fst (apply_with_verdict T st v))" for v
    using T(1) by (simp add: apply_with_verdict_def Let_def)
  then show pay: "supply_at n (fst (apply_with_verdict T st v))" for v
    using apply_effect(1) [OF T(1,2)] T by (simp add: supply_at_def)
  show "supply_at n (fst (tl_apply C T st))" unfolding tl_apply_def by (rule pay)
  show "supply_at n (fst (move_system T f t x))"
    using move_system_effect [OF T(1,2), of x f t] T assms by (cases "x \<le> balance T f") (simp_all add: supply_at_def move_system_def not_le)
  show "supply_at n (fst (consume_nonce T a m))" using T by (simp add: supply_at_def consume_nonce_def)
qed

lemma supply_at_release: "supply_at n (hl_tokens G) \<Longrightarrow> supply_at n (hl_tokens (release_from G f t x))"
  by (simp add: release_from_def supply_at_ops)

lemma supply_at_settle:
  assumes "supply_at n (hl_tokens G)"
  shows "supply_at n (hl_tokens (fst (lock_htlc C G terms pay)))"
    "supply_at n (hl_tokens (fst (claim_htlc C G i pre)))" "supply_at n (hl_tokens (fst (refund_htlc G i)))"
    "supply_at n (hl_tokens (fst (shield C G sx)))" "supply_at n (hl_tokens (fst (apply_shielded C G stx ok)))"
    "supply_at n (hl_tokens (fst (apply_stake C G stake)))" "supply_at n (hl_tokens (fst (apply_slash C G slash)))"
    "supply_at n (hl_tokens (fst (open_deal C G p pay)))" "supply_at n (hl_tokens (fst (close_deal C G i auth)))"
proof -
  have pay: "supply_at n T" if "tl_apply C (hl_tokens G) st = (T, r)" for st T r using supply_at_ops(2) [OF assms, of C st] that by simp
  have non: "supply_at n T" if "consume_nonce (hl_tokens G) a m = (T, r)" for a m T r using supply_at_ops(4) [OF assms, of a m] that by simp
  have rel: "supply_at n (hl_tokens (release_from H f t x))" if "supply_at n (hl_tokens H)" for H f t x
    using that by (rule supply_at_release)
  note ops = Let_def pay non rel assms
  show "supply_at n (hl_tokens (fst (lock_htlc C G terms pay)))"
    by (auto simp: lock_htlc_def ops split: prod.split sum.split)
  show "supply_at n (hl_tokens (fst (claim_htlc C G i pre)))" "supply_at n (hl_tokens (fst (refund_htlc G i)))"
    by (auto simp: claim_htlc_def refund_htlc_def resolve_htlc_def ops split: prod.split option.split)
  show "supply_at n (hl_tokens (fst (shield C G sx)))"
    by (auto simp: shield_def ops split: prod.split sum.split)
  show "supply_at n (hl_tokens (fst (apply_shielded C G stx ok)))"
    by (auto simp: apply_shielded_def ops split: prod.split sum.split)
  show "supply_at n (hl_tokens (fst (apply_stake C G stake)))"
    by (auto simp: apply_stake_def ops split: prod.split sum.split stake_tx.split bool.split)
  show "supply_at n (hl_tokens (fst (apply_slash C G slash)))"
    by (auto simp: apply_slash_def ops split: prod.split option.split bool.split)
  show "supply_at n (hl_tokens (fst (open_deal C G p pay)))"
    by (auto simp: open_deal_def ops split: prod.split sum.split option.split)
  show "supply_at n (hl_tokens (fst (close_deal C G i auth)))"
    by (auto simp: close_deal_def ops split: prod.split option.split)
qed

lemma supply_at_prove:
  assumes "supply_at n (hl_tokens G)" "prove_deal C G i auth resp = Some (G', ok)"
  shows "supply_at n (hl_tokens G')"
  using assms
  by (auto simp: prove_deal_def supply_at_release split: option.splits if_splits prod.splits settlement.splits bool.splits)

definition is_ergon :: "transaction \<Rightarrow> bool" where
  "is_ergon tx \<longleftrightarrow> take 1 (payload tx) = [TAG_ERGON]"

lemma supply_at_apply:
  assumes "supply_at n (hl_tokens G)" "\<not> is_ergon tx" "ledger_apply C G tx = Some (G', out)"
  shows "supply_at n (hl_tokens G')"
proof -
  have "ledger_apply_with C G tx None = Some (G', out)" using assms(3) by (simp add: ledger_apply_def)
  then show ?thesis
  proof (cases rule: apply_cases)
    case (name nt R T r)
    then have "T = hl_tokens G \<or> T = fst (tl_apply C (hl_tokens G) (nx_payment nt))"
      by (auto simp: name_apply_def Let_def split: if_splits sum.splits prod.splits)
    then show ?thesis using name(2) assms(1) supply_at_ops(2) [OF assms(1), of C "nx_payment nt"] by auto
  qed (use assms(1,2) in \<open>auto simp: is_ergon_def supply_at_ops supply_at_settle supply_at_prove\<close>)
qed

text \<open>The ledgers a serial run passes through.\<close>

primrec serial_states :: "('e, 'm, 's) crypto \<Rightarrow> transaction list \<Rightarrow> nat list \<Rightarrow> hybrid_ledger \<Rightarrow> hybrid_ledger list" where
  "serial_states C txs [] G = []"
| "serial_states C txs (i # is) G =
     (case ledger_apply C G (txs ! i) of None \<Rightarrow> [] | Some (G', out) \<Rightarrow> G' # serial_states C txs is G')"

abbreviation block_states :: "('e, 'm, 's) crypto \<Rightarrow> hybrid_ledger \<Rightarrow> transaction list \<Rightarrow> hybrid_ledger list" where
  "block_states C G txs \<equiv> serial_states C txs (wave_order C G txs) (with_metrics C G txs)"

lemma serial_run_solvent:
  assumes "solvent G" "sinks_keyless C" "serial_run C txs is G outs = Some (G', outs')"
    and "\<forall>H \<in> set (serial_states C txs is G). tl_supply (hl_tokens H) < 2 ^ 64"
  shows "solvent G'"
  using assms
proof (induction "is" arbitrary: G outs)
  case (Cons i "is")
  then obtain H out where H: "ledger_apply C G (txs ! i) = Some (H, out)" by (auto split: option.splits)
  with Cons.prems have "solvent H" by (intro solvent_apply [OF Cons.prems(1,2) H]) simp
  with Cons.IH [of H "outs[i := out]"] Cons.prems H show ?case by simp
qed simp

lemma solvent_apply_block:
  assumes "solvent G" "sinks_keyless C" "apply_block C threads panicked G txs = Some (G', outs)"
    and "\<forall>H \<in> set (block_states C G txs). tl_supply (hl_tokens H) < 2 ^ 64"
  shows "solvent G'"
proof -
  obtain H where H: "execute_block C threads panicked G txs = Some (H, outs)"
    and G': "G' = (if \<not> conservation_holds (conservation_of H)
      then H\<lparr>hl_conservation_breaks := saturating_add (hl_conservation_breaks H) 1\<rparr> else H)"
    using assms(3) by (auto simp: apply_block_def split: option.splits prod.splits)
  have "solvent (with_metrics C G txs)" using assms(1) by (simp add: with_metrics_def)
  then have "solvent H" using serial_run_solvent H assms(2,4) unfolding execute_block_serial by blast
  then show ?thesis using G' by simp
qed

text \<open>Without ERGON the bound is no hypothesis.\<close>

lemma serial_states_supply:
  assumes "supply_at n (hl_tokens G)" "set is \<subseteq> {..<length txs}" "list_all (\<lambda>tx. \<not> is_ergon tx) txs"
  shows "\<forall>H \<in> set (serial_states C txs is G). supply_at n (hl_tokens H)"
  using assms
proof (induction "is" arbitrary: G)
  case (Cons i "is")
  show ?case
  proof (cases "ledger_apply C G (txs ! i)")
    case (Some r)
    obtain H out where r: "r = (H, out)" by (cases r)
    have "supply_at n (hl_tokens H)"
    proof (rule supply_at_apply [OF Cons.prems(1)])
      show "\<not> is_ergon (txs ! i)" using Cons.prems(2,3) by (simp add: list_all_length)
      show "ledger_apply C G (txs ! i) = Some (H, out)" using Some r by simp
    qed
    then show ?thesis using Cons.IH [of H] Cons.prems Some r by simp
  qed simp
qed simp

section \<open>The conservation report\<close>

lemma filter_wsum:
  "sum_list (map (\<lambda>e. unat (f (snd e))) (filter (\<lambda>e. P (snd e)) m)) = bt_wsum (\<lambda>v. if P v then unat (f v) else 0) m"
  by (induction m) (auto simp: bt_wsum_def)

lemma foldl_saturating_filter:
  fixes f :: "'v \<Rightarrow> u64"
  assumes "bt_wsum (\<lambda>v. if P v then unat (f v) else 0) m < 2 ^ 64"
  shows "unat (foldl (\<lambda>acc e. saturating_add acc (f (snd e))) 0 (filter (\<lambda>e. P (snd e)) m)) =
    bt_wsum (\<lambda>v. if P v then unat (f v) else 0) m"
proof -
  have "foldl (\<lambda>acc e. saturating_add acc (f (snd e))) 0 (filter (\<lambda>e. P (snd e)) m) =
      foldl (\<lambda>acc e. saturating_add acc (snd e)) 0 (map (\<lambda>e. (fst e, f (snd e))) (filter (\<lambda>e. P (snd e)) m))"
    by (simp add: foldl_map)
  moreover have "bt_sum (map (\<lambda>e. (fst e, f (snd e))) (filter (\<lambda>e. P (snd e)) m)) = bt_wsum (\<lambda>v. if P v then unat (f v) else 0) m"
    by (simp add: bt_sum_def comp_def filter_wsum)
  ultimately show ?thesis using assms by (simp add: unat_foldl_saturating)
qed

lemma conservation_covered:
  assumes "solvent G"
  shows "snd (cv_stake (conservation_of G)) \<le> fst (cv_stake (conservation_of G))"
    "snd (cv_storage (conservation_of G)) \<le> fst (cv_storage (conservation_of G))"
    "snd (cv_htlc (conservation_of G)) \<le> fst (cv_htlc (conservation_of G))"
proof -
  have b: "debts G s \<le> unat (balance (hl_tokens G) s)" for s using assms by (simp add: solvent_def backed_def)
  have lt: "debts G s < 2 ^ 64" for s using b [of s] unat_lt [of "balance (hl_tokens G) s"] by simp
  have st: "unat (total_bonded (hl_stake G)) = debts G STAKE_SINK"
    using total_bonded_exact [of "hl_stake G"] lt [of STAKE_SINK] by (simp add: debts_at)
  show "snd (cv_stake (conservation_of G)) \<le> fst (cv_stake (conservation_of G))"
    using st b [of STAKE_SINK] by (simp add: conservation_of_def Let_def word_le_nat_alt)
  show "snd (cv_storage (conservation_of G)) \<le> fst (cv_storage (conservation_of G))"
    using foldl_saturating_filter [of "\<lambda>d. d_state d = Active" refundable "hl_storage G"] lt [of STORAGE_ESCROW] b [of STORAGE_ESCROW]
    by (simp add: conservation_of_def Let_def word_le_nat_alt debts_at deal_debt_def [abs_def])
  show "snd (cv_htlc (conservation_of G)) \<le> fst (cv_htlc (conservation_of G))"
    using foldl_saturating_filter [of "\<lambda>h. h_state h = Locked" "\<lambda>h. ht_amount (h_terms h)" "hl_htlcs G"] lt [of HTLC_ESCROW] b [of HTLC_ESCROW]
    by (simp add: conservation_of_def Let_def word_le_nat_alt debts_at htlc_debt_def [abs_def])
qed

section \<open>Reachable ledgers\<close>

text \<open>
  What the consensus engine does with the ledger: single transactions, blocks, the clock, the beacon and the
  reward, from a genesis allocation. \<open>ledger_reach C T0 G Hs\<close> also lists the ledgers \<open>Hs\<close> passed through, the
  states inside a block included.
\<close>

inductive ledger_reach :: "('e, 'm, 's) crypto \<Rightarrow> token_ledger \<Rightarrow> hybrid_ledger \<Rightarrow> hybrid_ledger list \<Rightarrow> bool" for C T0 where
  genesis: "ledger_ok T0 \<Longrightarrow> ledger_reach C T0 (hybrid_new C T0) [hybrid_new C T0]"
| single: "ledger_reach C T0 G Hs \<Longrightarrow> ledger_apply C G tx = Some (G', out) \<Longrightarrow> ledger_reach C T0 G' (G' # Hs)"
| block: "ledger_reach C T0 G Hs \<Longrightarrow> apply_block C threads panicked G txs = Some (G', outs) \<Longrightarrow>
    ledger_reach C T0 G' (block_states C G txs @ Hs)"
| clock: "ledger_reach C T0 G Hs \<Longrightarrow> ledger_reach C T0 (begin_block G height) Hs"
| beacon: "ledger_reach C T0 G Hs \<Longrightarrow> ledger_reach C T0 (set_audit_beacon G b) Hs"
| reward: "ledger_reach C T0 G Hs \<Longrightarrow> ledger_reach C T0 (apply_block_reward C G vs amount) Hs"

lemma solvent_genesis: "ledger_ok T0 \<Longrightarrow> tl_supply T0 < 2 ^ 64 \<Longrightarrow> solvent (hybrid_new C T0)"
  by (simp add: solvent_def hybrid_new_def backed_def debts_def bt_ok_def)

text \<open>
  C32. The ledger stays solvent while its supply fits 64 bits. From a genesis allocation, through any transactions, blocks,
  clock ticks, beacons and rewards, as long as the total supply was below \<open>2\<^sup>64\<close> in every ledger passed through (a term can
  raise it, \<open>Dromos_Ergon.self_transfer_mints\<close>, and above that bound credits saturate), what the open swaps, the active
  storage deals and the bonded stake are owed is held by the three keyless sink accounts: in the conservation report, owed
  never exceeds held.
\<close>

theorem ledger_stays_solvent:
  assumes "sinks_keyless C" "ledger_reach C T0 G Hs" "\<forall>H \<in> set Hs. tl_supply (hl_tokens H) < 2 ^ 64"
  shows "solvent G \<and>
    snd (cv_stake (conservation_of G)) \<le> fst (cv_stake (conservation_of G)) \<and>
    snd (cv_storage (conservation_of G)) \<le> fst (cv_storage (conservation_of G)) \<and>
    snd (cv_htlc (conservation_of G)) \<le> fst (cv_htlc (conservation_of G))"
proof -
  have "solvent G"
    using assms(2,3)
  proof induction
    case genesis
    then show ?case by (intro solvent_genesis) (simp_all add: hybrid_new_def)
  next
    case (single G Hs tx G' out)
    then show ?case by (intro solvent_apply [OF _ assms(1) single.hyps(2)]) simp_all
  next
    case (block G Hs threads panicked txs G' outs)
    then show ?case by (intro solvent_apply_block [OF _ assms(1) block.hyps(2)]) simp_all
  qed (simp_all add: solvent_begin_block set_audit_beacon_def solvent_block_reward)
  then show ?thesis using conservation_covered by blast
qed

text \<open>
  C34. A block without ERGON terms conserves value: executed on a solvent ledger, it leaves a solvent ledger
  with exactly the same total supply, and reports one outcome for every transaction.
\<close>

theorem block_conserves_supply:
  assumes "solvent G" "sinks_keyless C" "list_all (\<lambda>tx. \<not> is_ergon tx) txs"
    and "apply_block C threads panicked G txs = Some (G', outs)"
  shows "solvent G' \<and> tl_supply (hl_tokens G') = tl_supply (hl_tokens G) \<and> length outs = length txs"
proof -
  let ?n = "tl_supply (hl_tokens G)"
  have n: "supply_at ?n (hl_tokens (with_metrics C G txs))"
    using assms(1) by (simp add: supply_at_def solvent_def backed_def with_metrics_def)
  have sub: "set (wave_order C G txs) \<subseteq> {..<length txs}" by (simp add: wave_order_def set_concat_schedule del: set_concat)
  note states = serial_states_supply [OF n sub assms(3), where C = C]
  have "solvent G'"
    by (rule solvent_apply_block [OF assms(1,2,4)]) (use states in \<open>auto simp: supply_at_def\<close>)
  moreover have final: "hl_tokens H' = hl_tokens (last (H # serial_states C txs is H)) \<and> length os' = length os"
    if "serial_run C txs is H os = Some (H', os')" for "is" H os H' os'
    using that
  proof (induction "is" arbitrary: H os)
    case (Cons i "is")
    then obtain K out where K: "ledger_apply C H (txs ! i) = Some (K, out)" by (auto split: option.splits)
    with Cons.IH [of K "os[i := out]"] Cons.prems show ?case by simp
  qed simp
  obtain H where H: "serial_run C txs (wave_order C G txs) (with_metrics C G txs) (replicate (length txs) ExMalformed) = Some (H, outs)"
    and G': "hl_tokens G' = hl_tokens H"
    using assms(4) by (auto simp: apply_block_def execute_block_serial split: option.splits)
  have "supply_at ?n (hl_tokens H)"
  proof (cases "block_states C G txs = []")
    case True
    then show ?thesis using final [OF H] n by simp
  next
    case False
    then show ?thesis using final [OF H] bspec [OF states last_in_set [OF False]] by simp
  qed
  ultimately show ?thesis using final [OF H] G' by (simp add: supply_at_def)
qed

section \<open>Donations\<close>

lemma st_from_to:
  assumes "vk_serialization C" "length (t_from (st_transfer st)) = 32" "length (t_to (st_transfer st)) = 32"
    "length (st_sig st) = HYBRID_SIG_LEN"
  shows "st_from_bytes C (st_to_bytes C st) = Some st"
  using assms by (simp add: st_from_bytes_def st_to_bytes_def WIRE_LEN_def Let_def le_dec_enc)

definition transparent_tx :: "('e, 'm, 's) crypto \<Rightarrow> ('e, 'm) signed_transfer \<Rightarrow> transaction" where
  "transparent_tx C st = \<lparr>payload = transparent_payload C st\<rparr>"

definition on_wire :: "('e, 'm, 's) crypto \<Rightarrow> ('e, 'm) signed_transfer \<Rightarrow> bool" where
  "on_wire C st \<longleftrightarrow> vk_serialization C \<and> st_verify C st \<and> length (t_from (st_transfer st)) = 32 \<and> length (t_to (st_transfer st)) = 32"

lemma apply_transparent_tx:
  assumes "on_wire C st"
  shows "ledger_apply C G (transparent_tx C st) =
    Some (case tl_apply C (hl_tokens G) st of
            (T, r) \<Rightarrow> (G\<lparr>hl_tokens := T\<rparr>, case r of Inr _ \<Rightarrow> ExApplied | Inl NonceAhead \<Rightarrow> ExDeferred | Inl _ \<Rightarrow> ExRejected))"
proof -
  have "length (st_sig st) = HYBRID_SIG_LEN"
    using assms by (auto simp: on_wire_def st_verify_def intro: sig_bytes_verify_length split: if_splits)
  then show ?thesis
    using assms st_from_to [of C st]
    by (simp add: on_wire_def ledger_apply_def ledger_apply_with_def transparent_tx_def transparent_payload_def tagged_def
        do_transparent_def tl_apply_def)
qed

text \<open>
  Exact conservation is not an invariant of the transactions: any account breaks it with one plain transfer
  of a positive amount to a sink, which settles, raises what the sink holds and leaves what is owed; the
  conservation gate then counts a break for that block and for every later one until the balance leaves.
\<close>

theorem donation_breaks_conservation:
  assumes "on_wire C st" "t_to (st_transfer st) = STAKE_SINK" "t_from (st_transfer st) \<noteq> STAKE_SINK" "0 < t_amount (st_transfer st)"
    and "t_nonce (st_transfer st) = nonce (hl_tokens G) (t_from (st_transfer st))"
    and "t_amount (st_transfer st) \<le> balance (hl_tokens G) (t_from (st_transfer st))"
    and "ledger_ok (hl_tokens G)" "tl_supply (hl_tokens G) < 2 ^ 64" "conservation_holds (conservation_of G)"
  shows "\<exists>G'. ledger_apply C G (transparent_tx C st) = Some (G', ExApplied) \<and> \<not> conservation_holds (conservation_of G')"
proof -
  let ?T = "hl_tokens G" and ?r = "tl_apply C (hl_tokens G) st"
  have "settled (apply_with_verdict ?T st (st_verify C st))"
    using assms(1,5,6) by (simp add: settled_apply on_wire_def)
  note e = apply_effect(2) [OF assms(7,8) this] and ok = this
  have "unat (balance (fst ?r) STAKE_SINK) = unat (balance ?T STAKE_SINK) + unat (t_amount (st_transfer st))"
    using e [of STAKE_SINK] assms(2,3) by (simp add: tl_apply_def after_move_def)
  moreover have "0 < unat (t_amount (st_transfer st))" using assms(4) by (simp add: word_less_nat_alt)
  ultimately have ne: "balance (fst ?r) STAKE_SINK \<noteq> balance ?T STAKE_SINK" by auto
  have r: "snd ?r = Inr ()" using ok by (simp add: settled_def tl_apply_def)
  have "ledger_apply C G (transparent_tx C st) = Some (G\<lparr>hl_tokens := fst ?r\<rparr>, ExApplied)"
    using apply_transparent_tx [OF assms(1), of G] r by (cases ?r) simp
  moreover have "\<not> conservation_holds (conservation_of (G\<lparr>hl_tokens := fst ?r\<rparr>))"
    using assms(9) ne by (auto simp: conservation_holds_def conservation_of_def Let_def)
  ultimately show ?thesis by blast
qed

section \<open>A concrete ledger\<close>

lemma toy_account_of: "account_id toy_crypto k = toy_account (hv_ed k)"
  by (simp add: account_id_def hash_labeled_def labeled_hasher_def ascii_def ACCOUNT_LABEL_def vk_encode_def
      toy_crypto_def toy_account_def)

lemma toy_account_sink [simp]:
  "toy_account i \<noteq> HTLC_ESCROW" "toy_account i \<noteq> STORAGE_ESCROW" "toy_account i \<noteq> STAKE_SINK"
  "HTLC_ESCROW \<noteq> toy_account i" "STORAGE_ESCROW \<noteq> toy_account i" "STAKE_SINK \<noteq> toy_account i"
proof -
  have "toy_account i ! 1 = 0" by (simp add: toy_account_def)
  moreover have "HTLC_ESCROW ! 1 = 65" "STORAGE_ESCROW ! 1 = 65" "STAKE_SINK ! 1 = 65"
    by (simp_all add: HTLC_ESCROW_def STORAGE_ESCROW_def STAKE_SINK_def ascii_def of_char_def)
  ultimately show "toy_account i \<noteq> HTLC_ESCROW" "toy_account i \<noteq> STORAGE_ESCROW" "toy_account i \<noteq> STAKE_SINK"
    "HTLC_ESCROW \<noteq> toy_account i" "STORAGE_ESCROW \<noteq> toy_account i" "STAKE_SINK \<noteq> toy_account i"
    by auto
qed

lemma toy_sinks_keyless: "sinks_keyless toy_crypto"
  by (simp add: sinks_keyless_def toy_account_of)

definition toy_donation :: "(byte, byte) signed_transfer" where
  "toy_donation = toy_transfer 1 STAKE_SINK 10 0"

lemma toy_donation_wire: "on_wire toy_crypto toy_donation"
  by (simp add: on_wire_def toy_serialization st_verify_def toy_donation_def)
    (simp add: toy_transfer_def toy_account_def STAKE_SINK_def ascii_def)

lemma toy_hybrid_conserved: "conservation_holds (conservation_of toy_hybrid)"
  by (simp add: conservation_holds_def conservation_of_def toy_hybrid_def hybrid_new_def stake_new_def total_bonded_def Let_def
      bt_get_def)

theorem donation_breaks_conservation_witness:
  "\<exists>G'. ledger_apply toy_crypto toy_hybrid (transparent_tx toy_crypto toy_donation) = Some (G', ExApplied) \<and>
     conservation_holds (conservation_of toy_hybrid) \<and> \<not> conservation_holds (conservation_of G')"
  using donation_breaks_conservation [OF toy_donation_wire, of toy_hybrid] toy_hybrid_conserved
  by (simp add: toy_donation_def toy_transfer_def)

theorem ledger_stays_solvent_witness:
  "\<exists>G out. ledger_apply toy_crypto toy_hybrid (transparent_tx toy_crypto toy_donation) = Some (G, out) \<and> solvent G"
proof -
  obtain G out where r: "ledger_apply toy_crypto toy_hybrid (transparent_tx toy_crypto toy_donation) = Some (G, out)"
    using apply_transparent_tx [OF toy_donation_wire, of toy_hybrid] by (metis surj_pair)
  have "supply_at 100 (hl_tokens toy_hybrid)" by (simp add: supply_at_def)
  then have "supply_at 100 (hl_tokens G)"
    by (rule supply_at_apply [OF _ _ r]) (simp add: is_ergon_def transparent_tx_def transparent_payload_def tagged_def tags)
  then have small: "\<forall>H \<in> set [G, toy_hybrid]. tl_supply (hl_tokens H) < 2 ^ 64" by (simp add: supply_at_def)
  have "ledger_reach toy_crypto toy_ledger toy_hybrid [toy_hybrid]"
    unfolding toy_hybrid_def by (rule genesis) simp_all
  from ledger_stays_solvent [OF toy_sinks_keyless single [OF this r] small] r show ?thesis by blast
qed

theorem block_conserves_supply_witness:
  "\<exists>G outs. apply_block toy_crypto 4 (\<lambda>_. False) toy_hybrid [transparent_tx toy_crypto toy_donation] = Some (G, outs) \<and>
     tl_supply (hl_tokens G) = 100 \<and> length outs = 1"
proof -
  let ?txs = "[transparent_tx toy_crypto toy_donation]"
  have "mset (wave_order toy_crypto toy_hybrid ?txs) = mset [0]"
    using schedule_mset [of "access_lists toy_crypto toy_hybrid ?txs"] by (simp add: wave_order_def)
  then have "wave_order toy_crypto toy_hybrid ?txs = [0]" by simp
  then have "execute_block toy_crypto 4 (\<lambda>_. False) toy_hybrid ?txs \<noteq> None"
    using apply_transparent_tx [OF toy_donation_wire] by (auto simp: execute_block_serial split: option.splits prod.splits)
  then obtain G outs where r: "apply_block toy_crypto 4 (\<lambda>_. False) toy_hybrid ?txs = Some (G, outs)"
    by (auto simp: apply_block_def)
  have "solvent toy_hybrid" unfolding toy_hybrid_def by (rule solvent_genesis) simp_all
  moreover have "list_all (\<lambda>tx. \<not> is_ergon tx) ?txs"
    by (simp add: is_ergon_def transparent_tx_def transparent_payload_def tagged_def tags)
  ultimately show ?thesis using block_conserves_supply [OF _ toy_sinks_keyless _ r] r by simp
qed

section \<open>Snapshots\<close>

definition snapshot_wf :: "('e, 'm, 's) crypto \<Rightarrow> hybrid_ledger \<Rightarrow> bool" where
  "snapshot_wf C G \<longleftrightarrow>
     ledger_wf (hl_tokens G) \<and> pool_ok C (hl_shielded G) \<and> pool_wf (hl_shielded G) \<and>
     bt_ok (hl_names G) \<and> list_all (record_wf C) (hl_names G) \<and> length (hl_names G) < 2 ^ 32 \<and>
     bt_ok (hl_storage G) \<and> list_all deal_wf (hl_storage G) \<and> length (hl_storage G) < 2 ^ 32 \<and>
     bt_ok (hl_htlcs G) \<and> list_all contract_wf (hl_htlcs G) \<and> length (hl_htlcs G) < 2 ^ 32 \<and>
     stake_ok (hl_stake G) \<and> list_all (\<lambda>e. length (fst e) = 32) (sk_bonded (hl_stake G)) \<and>
     list_all (\<lambda>e. length (fst e) = 32) (sk_slashed (hl_stake G)) \<and>
     length (sk_bonded (hl_stake G)) < 2 ^ 32 \<and> length (sk_slashed (hl_stake G)) < 2 ^ 32 \<and>
     length (hl_audit_beacon G) = 32 \<and>
     list_all (\<lambda>b. length b < 2 ^ 32) [tl_to_bytes (hl_tokens G), pool_to_bytes (hl_shielded G), names_to_bytes (hl_names G),
       market_to_bytes (hl_storage G), book_to_bytes (hl_htlcs G), stake_to_bytes (hl_stake G)]"

lemma restore_snapshot:
  assumes "snapshot_wf C G"
  shows "restore C (snapshot G) =
    Some (G\<lparr>hl_tokens := Dromos_Token.restored (hl_tokens G), hl_waves_last_block := 0, hl_parallel_blocks := 0, hl_conservation_breaks := 0,
            hl_params := params_standard C\<rparr>)"
proof -
  have parts: "tl_from_bytes (tl_to_bytes (hl_tokens G)) = Some (Dromos_Token.restored (hl_tokens G))"
    "pool_from_bytes (pool_to_bytes (hl_shielded G)) = Some (hl_shielded G)"
    "names_from_bytes C (names_to_bytes (hl_names G)) = Some (hl_names G)"
    "market_from_bytes (market_to_bytes (hl_storage G)) = Some (hl_storage G)"
    "book_from_bytes (book_to_bytes (hl_htlcs G)) = Some (hl_htlcs G)"
    "stake_from_bytes (stake_to_bytes (hl_stake G)) = Some (hl_stake G)"
    using assms
    by (simp_all add: snapshot_wf_def from_bytes_to_bytes pool_from_to [of C] names_snapshot_roundtrip market_snapshot_roundtrip
        book_snapshot_roundtrip stake_snapshot_roundtrip)
  have "rd_take 32 (hl_audit_beacon G) = Some (hl_audit_beacon G, [])"
    using assms by (simp add: snapshot_wf_def rd_take_def)
  then show ?thesis
    using assms parts by (simp add: restore_def snapshot_def snapshot_wf_def var_bytes.dec_enc)
qed

text \<open>
  C35. A snapshot restores the ledger. For a well-formed ledger (32-byte ids, components below \<open>2\<^sup>32\<close> bytes),
  restoring the snapshot succeeds and gives back every balance and nonce, the pool, the names, the deals, the
  contracts, the stake, the height and the beacon. The accounts with neither balance nor nonce are dropped, the
  parameters of the commitments are the standard ones, and the local metrics start again.
\<close>

theorem snapshot_restores_ledger:
  assumes "snapshot_wf C G"
  shows "\<exists>G'. restore C (snapshot G) = Some G' \<and>
    (\<forall>a. balance (hl_tokens G') a = balance (hl_tokens G) a \<and> nonce (hl_tokens G') a = nonce (hl_tokens G) a) \<and>
    hl_shielded G' = hl_shielded G \<and> hl_names G' = hl_names G \<and> hl_storage G' = hl_storage G \<and> hl_htlcs G' = hl_htlcs G \<and>
    hl_stake G' = hl_stake G \<and> hl_height G' = hl_height G \<and> hl_audit_beacon G' = hl_audit_beacon G \<and>
    hl_tokens G' = Dromos_Token.restored (hl_tokens G) \<and> hl_params G' = params_standard C \<and>
    hl_waves_last_block G' = 0 \<and> hl_parallel_blocks G' = 0 \<and> hl_conservation_breaks G' = 0"
  using restore_snapshot [OF assms] restored_values [of "hl_tokens G"] by auto

lemma book_root_states:
  "bt_ok b \<Longrightarrow> bt_get b i = Some h \<Longrightarrow> h_state h' = h_state h \<Longrightarrow> book_root_preimage (bt_insert i h' b) = book_root_preimage b"
proof (induction b)
  case (Cons e b)
  then have "bt_get b i = None" if "i \<le> fst e" using that by (intro bt_get_None [THEN iffD2]) (auto simp: bt_ok_Cons)
  with Cons show ?case by (auto simp: book_root_preimage_def bt_ok_Cons bt_get_def less_imp_le split: if_splits)
qed (simp add: bt_get_def)

text \<open>
  C36. The state root does not bind the terms of a contract. Take any ledger with an open swap, replace the
  terms of that swap (its recipient, its amount, its hashlock, its timeout) by any others, and snapshot the
  result: the forged snapshot is accepted, the ledger restored from it carries the replaced terms, and its
  state root equals that of the ledger restored from the honest snapshot, so no certified root tells them apart.
\<close>

theorem snapshot_terms_forged:
  assumes "snapshot_wf C G" "bt_get (hl_htlcs G) i = Some h"
    and "G' = G\<lparr>hl_htlcs := bt_insert i (h\<lparr>h_terms := forged\<rparr>) (hl_htlcs G)\<rparr>" "snapshot_wf C G'"
  shows "\<exists>H0 H. restore C (snapshot G) = Some H0 \<and> restore C (snapshot G') = Some H \<and>
    bt_get (hl_htlcs H0) i = Some h \<and> bt_get (hl_htlcs H) i = Some (h\<lparr>h_terms := forged\<rparr>) \<and>
    ledger_state_root C H = ledger_state_root C H0"
proof -
  have "book_root_preimage (hl_htlcs G') = book_root_preimage (hl_htlcs G)"
    using assms(1,2,3) book_root_states [of "hl_htlcs G" i h] by (simp add: snapshot_wf_def)
  then show ?thesis
    using restore_snapshot [OF assms(1)] restore_snapshot [OF assms(4)] assms(2,3)
    by (auto simp: ledger_state_root_def book_state_root_def)
qed

lemma tree_root_empty: "tree_root C [] = empty_at C TREE_DEPTH"
proof -
  have "foldl (\<lambda>nodes e. pad_level C e nodes) [] es = []" for es by (induction es) auto
  then show ?thesis by (simp add: tree_root_def empty_roots_def)
qed

lemma length_toy_hash [simp]: "length (hash_labeled toy_crypto l d) = 32"
  by (simp add: hash_labeled_def toy_crypto_def)

lemma toy_pool_wf: "pool_wf (pool_new toy_crypto)" "length (pool_to_bytes (pool_new toy_crypto)) < 2 ^ 32"
proof -
  have "length (empty_at toy_crypto n) = 32" for n by (cases n) (simp_all add: Obolos_Tree.node_hash_def)
  then have "length (tree_root toy_crypto []) = 32" by (simp add: tree_root_empty)
  then show "pool_wf (pool_new toy_crypto)" "length (pool_to_bytes (pool_new toy_crypto)) < 2 ^ 32"
    by (simp_all add: pool_new_def record_anchor_def pool_wf_def pool_to_bytes_def tree_to_bytes_def nf_to_bytes_def put_hashes_def
        put_var_bytes_def MAX_ANCHORS_def Let_def)
qed

definition toy_swap :: "byte \<Rightarrow> hybrid_ledger" where
  "toy_swap j = toy_hybrid\<lparr>hl_htlcs := [(replicate 32 5, htlc_new (toy_terms 1 j 200))]\<rparr>"

lemma toy_swap_wf: "snapshot_wf toy_crypto (toy_swap j)"
proof -
  have "tl_accounts toy_ledger = [toy_account 1]"
    by (simp add: toy_ledger_def tl_accounts_def credit_def tl_new_def sort_dedup_def)
  then have "ledger_wf toy_ledger" "length (tl_to_bytes toy_ledger) < 2 ^ 32"
    by (simp_all add: ledger_wf_def tl_to_bytes_def tl_entries_def put_account_def)
  moreover have "contract_wf (replicate 32 5, htlc_new (toy_terms 1 j 200))"
    by (simp add: contract_wf_def htlc_new_def terms_wf_def toy_terms_def hashlock_def)
  moreover from this have "length (book_to_bytes [(replicate 32 5, htlc_new (toy_terms 1 j 200))]) < 2 ^ 32"
    by (simp add: book_to_bytes_def put_map_def put_contract_def put_var_bytes_def contract_wf_def)
  ultimately show ?thesis
    using pool_ok_new [of toy_crypto] toy_pool_wf
    by (simp add: snapshot_wf_def toy_swap_def)
      (simp add: toy_hybrid_def hybrid_new_def names_new_def names_to_bytes_def market_to_bytes_def put_map_def stake_new_def
        stake_to_bytes_def stake_ok_def bt_ok_def)
qed

theorem snapshot_restores_ledger_witness:
  "\<exists>G. restore toy_crypto (snapshot (toy_swap 2)) = Some G \<and> balance (hl_tokens G) (toy_account 1) = 100 \<and>
     hl_htlcs G = [(replicate 32 5, htlc_new (toy_terms 1 2 200))]"
  using snapshot_restores_ledger [OF toy_swap_wf [of 2]] by (auto simp: toy_swap_def)

theorem snapshot_terms_forged_witness:
  "\<exists>H0 H. restore toy_crypto (snapshot (toy_swap 2)) = Some H0 \<and> restore toy_crypto (snapshot (toy_swap 3)) = Some H \<and>
     bt_get (hl_htlcs H0) (replicate 32 5) = Some (htlc_new (toy_terms 1 2 200)) \<and>
     bt_get (hl_htlcs H) (replicate 32 5) = Some (htlc_new (toy_terms 1 3 200)) \<and>
     ledger_state_root toy_crypto H = ledger_state_root toy_crypto H0"
proof -
  let ?h = "htlc_new (toy_terms 1 2 200)"
  have h: "?h\<lparr>h_terms := toy_terms 1 3 200\<rparr> = htlc_new (toy_terms 1 3 200)" by (simp add: htlc_new_def)
  have "toy_swap 3 = (toy_swap 2)\<lparr>hl_htlcs := bt_insert (replicate 32 5) (?h\<lparr>h_terms := toy_terms 1 3 200\<rparr>) (hl_htlcs (toy_swap 2))\<rparr>"
    by (simp add: toy_swap_def h)
  from snapshot_terms_forged [OF toy_swap_wf [of 2] _ this toy_swap_wf [of 3]] h show ?thesis
    by (simp add: toy_swap_def bt_get_def)
qed

end
