(* ===== verification/Fano_Erasure.thy ===== *)
theory Fano_Erasure
  imports Fanos_Prelude "HOL-Library.Multiset"
begin

unbundle bit_operations_syntax

text \<open>
  The Fano plane of a base cell (\<open>fanos-geometry/src/fano.rs\<close>), the peeling decoder of its lines
  (\<open>fanos-code/src/lrc.rs\<close>), line sampling (\<open>fanos-code/src/da.rs\<close>) and the \<open>[7, 3]\<close> erasure code that
  disperses a block's payload over the seven validators (\<open>fanos-code/src/erasure.rs\<close>). The lemmas follow
  the decoder: a line of a codeword sums to zero, so a peeling step restores the lost byte, so a peel
  restores every byte exactly when the loss pattern peels to nothing.
\<close>

section \<open>The plane and its tables\<close>

definition fano_N :: nat where "fano_N = 7"
definition LINE_SIZE :: nat where "LINE_SIZE = 3"

definition coords_at :: "nat \<Rightarrow> u32 list" where
  "coords_at i =
     (if i < 4 then [1, word_of_nat (i div 2), word_of_nat (i mod 2)]
      else if i < 6 then [0, 1, word_of_nat (i - 4)]
      else [0, 0, 1])"

definition index_of :: "u32 list \<Rightarrow> nat" where
  "index_of c =
     (if c ! 0 = 1 then unat (c ! 1) * 2 + unat (c ! 2)
      else if c ! 0 = 0 \<and> c ! 1 = 1 then 4 + unat (c ! 2)
      else 6)"

definition incident_gf2 :: "u32 list \<Rightarrow> u32 list \<Rightarrow> bool" where
  "incident_gf2 p l \<longleftrightarrow> (((p ! 0 AND l ! 0) XOR (p ! 1 AND l ! 1) XOR (p ! 2 AND l ! 2)) AND 1) = 0"

definition POINT_COORDS :: "u32 list list" where
  "POINT_COORDS = map coords_at [0..<fano_N]"

definition LINE_POINTS :: "nat list list" where
  "LINE_POINTS = map (\<lambda>l. filter (\<lambda>p. incident_gf2 (coords_at p) (coords_at l)) [0..<fano_N]) [0..<fano_N]"

definition INCIDENCE :: "byte list" where
  "INCIDENCE = map (\<lambda>l. fold (\<lambda>p m. if incident_gf2 (coords_at p) (coords_at l) then m OR push_bit p 1 else m)
     [0..<fano_N] 0) [0..<fano_N]"

definition mediator :: "nat \<Rightarrow> nat \<Rightarrow> nat option" where
  "mediator i j =
     (if i \<ge> fano_N \<or> j \<ge> fano_N \<or> i = j then None
      else Some (index_of (map2 (XOR) (coords_at i) (coords_at j))))"

section \<open>Bits of a byte\<close>

definition count_ones :: "byte \<Rightarrow> nat" where
  "count_ones w = length (filter (bit w) [0..<8])"

definition is_power_of_two :: "byte \<Rightarrow> bool" where
  "is_power_of_two w \<longleftrightarrow> count_ones w = 1"

definition trailing_zeros :: "byte \<Rightarrow> nat" where
  "trailing_zeros w = length (takeWhile (\<lambda>i. \<not> bit w i) [0..<8])"

section \<open>Peeling\<close>

text \<open>The body of the \<open>for\<close> loop of \<open>peel_fano\<close>: the lost mask and whether this pass progressed.\<close>

definition peel_line :: "byte \<Rightarrow> byte \<times> bool \<Rightarrow> byte \<times> bool" where
  "peel_line line_mask = (\<lambda>(lost, progressed).
     let lost_on_line = line_mask AND lost
     in if is_power_of_two lost_on_line then (lost AND NOT lost_on_line, True) else (lost, progressed))"

definition peel_pass :: "byte \<Rightarrow> byte \<times> bool" where
  "peel_pass lost = fold peel_line INCIDENCE (lost, False)"

lemma count_ones_card: "count_ones w = card {j. j < 8 \<and> bit w j}"
proof -
  have "count_ones w = card (set (filter (bit w) [0..<8]))"
    unfolding count_ones_def by (rule distinct_card [symmetric]) simp
  also have "set (filter (bit w) [0..<8]) = {j. j < 8 \<and> bit w j}" by auto
  finally show ?thesis .
qed

lemma count_ones_and_not: "is_power_of_two (m AND w) \<Longrightarrow> count_ones (w AND NOT (m AND w)) < count_ones w"
proof -
  assume "is_power_of_two (m AND w)"
  then have "filter (bit (m AND w)) [0..<8] \<noteq> []" by (auto simp: is_power_of_two_def count_ones_def)
  then obtain i where i: "i < 8" "bit (m AND w) i" by (auto simp: filter_empty_conv)
  have "{j. j < 8 \<and> bit (w AND NOT (m AND w)) j} \<subset> {j. j < 8 \<and> bit w j}"
    using i by (auto simp: bit_simps)
  then show ?thesis unfolding count_ones_card by (intro psubset_card_mono) auto
qed

lemma peel_line_count:
  assumes "peel_line m (w, b) = (w', b')"
  shows "count_ones w' \<le> count_ones w \<and> (b' \<longrightarrow> b \<or> count_ones w' < count_ones w)"
  using assms count_ones_and_not [of m w] by (auto simp: peel_line_def Let_def split: if_splits)

lemma fold_peel_count:
  assumes "fold peel_line ms (w, b) = (w', b')"
  shows "count_ones w' \<le> count_ones w \<and> (b' \<longrightarrow> b \<or> count_ones w' < count_ones w)"
  using assms
proof (induction ms arbitrary: w b)
  case (Cons m ms)
  obtain w1 b1 where s: "peel_line m (w, b) = (w1, b1)" by fastforce
  with Cons show ?case using peel_line_count [OF s] by fastforce
qed simp

function peel_loop :: "byte \<Rightarrow> byte" where
  "peel_loop lost = (let (lost', progressed) = peel_pass lost in if progressed then peel_loop lost' else lost')"
  by auto
termination
proof (relation "measure count_ones", goal_cases)
  case (2 lost p lost' progressed)
  then show ?case using fold_peel_count [of INCIDENCE lost False lost' progressed] by (auto simp: peel_pass_def)
qed simp

declare peel_loop.simps [simp del]

definition peel_fano :: "byte \<Rightarrow> byte" where
  "peel_fano lost = peel_loop (lost AND 0x7F)"

definition is_recoverable_fano :: "byte \<Rightarrow> bool" where
  "is_recoverable_fano lost \<longleftrightarrow> peel_fano lost = 0"

definition is_hyperoval_fano :: "byte \<Rightarrow> bool" where
  "is_hyperoval_fano set_mask \<longleftrightarrow>
     (let m = set_mask AND 0x7F
      in count_ones m = 4 \<and> list_all (\<lambda>line_mask. line_mask AND m \<noteq> line_mask) INCIDENCE)"

section \<open>Availability sampling\<close>

definition line_present :: "byte \<Rightarrow> nat \<Rightarrow> bool" where
  "line_present present line \<longleftrightarrow> line < length INCIDENCE \<and> present AND INCIDENCE ! line = INCIDENCE ! line"

definition present_line_count :: "byte \<Rightarrow> nat" where
  "present_line_count present = length (filter (line_present present) [0..<fano_N])"

definition samples_pass :: "byte \<Rightarrow> nat list \<Rightarrow> bool" where
  "samples_pass present sampled = list_all (line_present present) sampled"

definition splitmix64 :: "u64 \<Rightarrow> u64 \<times> u64" where
  "splitmix64 state =
     (let state = state + 0x9E3779B97F4A7C15;
          z = (state XOR drop_bit 30 state) * 0xBF58476D1CE4E5B9;
          z = (z XOR drop_bit 27 z) * 0x94D049BB133111EB
      in (z XOR drop_bit 31 z, state))"

fun sample_lines_loop :: "nat list \<Rightarrow> nat list \<times> u64 \<Rightarrow> nat list \<times> u64" where
  "sample_lines_loop [] st = st"
| "sample_lines_loop (i # is) (lines, state) =
     (let (z, state) = splitmix64 state;
          j = i + unat (z mod word_of_nat (fano_N - i))
      in sample_lines_loop is (lines[i := lines ! j, j := lines ! i], state))"

definition sample_lines :: "u64 \<Rightarrow> nat \<Rightarrow> nat list" where
  "sample_lines seed k = (let k = min k fano_N in take k (fst (sample_lines_loop [0..<k] ([0..<fano_N], seed))))"

section \<open>The erasure code\<close>

definition erasure_K :: nat where "erasure_K = 3"

text \<open>\<open>build_basis_points\<close>: for each unit vector the first point whose coordinates are that vector.\<close>

definition BASIS_POINTS :: "nat list" where
  "BASIS_POINTS = map (\<lambda>r. case filter (\<lambda>p. list_all (\<lambda>i. POINT_COORDS ! p ! i = (if i = r then 1 else 0)) [0..<3]) [0..<fano_N]
                      of [] \<Rightarrow> 0 | p # _ \<Rightarrow> p) [0..<erasure_K]"

definition encode_group :: "byte list \<Rightarrow> byte list" where
  "encode_group data =
     map (\<lambda>coords. fold (\<lambda>(c, d) value. if c \<noteq> 0 then value XOR d else value) (zip coords data) 0) POINT_COORDS"

definition decode_group :: "byte list \<Rightarrow> byte list" where
  "decode_group symbols = map (\<lambda>p. if p < length symbols then symbols ! p else 0) BASIS_POINTS"

definition mask_of :: "'a option list \<Rightarrow> byte" where
  "mask_of symbols = fold (\<lambda>p m. if symbols ! p = None then m OR push_bit p 1 else m) [0..<length symbols] 0"

text \<open>
  \<open>peel_group\<close>: the same peeling over the symbols. The XOR of a line skips the missing point and any symbol
  that is absent.
\<close>

definition line_value :: "byte \<Rightarrow> nat \<Rightarrow> byte option list \<Rightarrow> byte" where
  "line_value line_mask missing symbols =
     fold (\<lambda>p value. if line_mask AND push_bit p 1 \<noteq> 0 \<and> p \<noteq> missing
                      then (case symbols ! p of Some b \<Rightarrow> value XOR b | None \<Rightarrow> value) else value) [0..<fano_N] 0"

definition peel_group_line :: "byte \<Rightarrow> byte option list \<times> byte \<times> bool \<Rightarrow> byte option list \<times> byte \<times> bool" where
  "peel_group_line line_mask = (\<lambda>(symbols, lost, progressed).
     let lost_on_line = line_mask AND lost
     in if is_power_of_two lost_on_line
        then let missing = trailing_zeros lost_on_line
             in (symbols[missing := Some (line_value line_mask missing symbols)], lost AND NOT lost_on_line, True)
        else (symbols, lost, progressed))"

definition peel_group_pass :: "byte option list \<Rightarrow> byte \<Rightarrow> byte option list \<times> byte \<times> bool" where
  "peel_group_pass symbols lost = fold peel_group_line INCIDENCE (symbols, lost, False)"

text \<open>The mask and the progress flag of a pass over the symbols are those of the pass over the mask alone.\<close>

lemma peel_group_line_mask: "snd (peel_group_line m (s, w, b)) = peel_line m (w, b)"
  by (auto simp: peel_group_line_def peel_line_def Let_def)

lemma fold_peel_group_mask: "snd (fold peel_group_line ms (s, w, b)) = fold peel_line ms (w, b)"
proof (induction ms arbitrary: s w b)
  case (Cons m ms)
  obtain s1 w1 b1 where g: "peel_group_line m (s, w, b) = (s1, w1, b1)" by (cases "peel_group_line m (s, w, b)") auto
  have "peel_line m (w, b) = (w1, b1)" using peel_group_line_mask [of m s w b] g by simp
  then show ?case using Cons.IH [of s1 w1 b1] g by simp
qed simp

lemma peel_group_pass_mask: "snd (peel_group_pass s w) = peel_pass w"
  by (simp add: peel_group_pass_def peel_pass_def fold_peel_group_mask)

function peel_group_loop :: "byte option list \<Rightarrow> byte \<Rightarrow> byte option list \<times> byte" where
  "peel_group_loop symbols lost =
     (let (symbols', lost', progressed) = peel_group_pass symbols lost
      in if progressed then peel_group_loop symbols' lost' else (symbols', lost'))"
  by auto
termination
proof (relation "measure (\<lambda>(s, w). count_ones w)", goal_cases)
  case (2 s w p s' q w' b)
  then have "peel_group_pass s w = (s', w', b)" by simp
  then have "peel_pass w = (w', b)" using peel_group_pass_mask [of s w] by simp
  then show ?case using 2 fold_peel_count [of INCIDENCE w False w' b] by (auto simp: peel_pass_def)
qed simp

declare peel_group_loop.simps [simp del]

definition peel_group :: "byte option list \<Rightarrow> byte option list \<times> byte" where
  "peel_group symbols = peel_group_loop symbols (mask_of symbols)"

definition pad :: "byte list \<Rightarrow> byte list" where
  "pad data =
     (let rem = length data mod erasure_K; pad_len = (if rem = 0 then erasure_K else erasure_K - rem)
      in data @ replicate pad_len (word_of_nat pad_len))"

definition unpad :: "byte list \<Rightarrow> byte list option" where
  "unpad data =
     (if data = [] then None
      else let pad_len = unat (last data)
           in if pad_len = 0 \<or> pad_len > erasure_K \<or> pad_len > length data then None
              else let start = length data - pad_len
                   in if list_ex (\<lambda>b. unat b \<noteq> pad_len) (drop start data) then None else Some (take start data))"

text \<open>\<open>as_chunks\<close> of three: the full groups; a remainder is dropped.\<close>

fun as_chunks3 :: "'a list \<Rightarrow> 'a list list" where
  "as_chunks3 (a # b # c # r) = [a, b, c] # as_chunks3 r"
| "as_chunks3 _ = []"

definition erasure_encode :: "byte list \<Rightarrow> byte list list" where
  "erasure_encode data =
     (let coded = map encode_group (as_chunks3 (pad data))
      in map (\<lambda>p. map (\<lambda>c. c ! p) coded) [0..<fano_N])"

definition stripe :: "byte list option list \<Rightarrow> nat \<Rightarrow> byte option list" where
  "stripe shards g =
     map (\<lambda>p. case shards ! p of None \<Rightarrow> None | Some s \<Rightarrow> if g < length s then Some (s ! g) else None) [0..<fano_N]"

definition resolve_symbols :: "byte option list \<Rightarrow> byte list" where
  "resolve_symbols symbols = map (\<lambda>s. case s of Some b \<Rightarrow> b | None \<Rightarrow> 0) symbols"

fun reconstruct_groups :: "byte list option list \<Rightarrow> nat list \<Rightarrow> byte list option" where
  "reconstruct_groups shards [] = Some []"
| "reconstruct_groups shards (g # gs) =
     (let symbols = stripe shards g
      in if \<not> is_recoverable_fano (mask_of symbols) then None
         else let (symbols', remaining) = peel_group symbols
              in if remaining \<noteq> 0 then None
                 else map_option (\<lambda>out. decode_group (resolve_symbols symbols') @ out) (reconstruct_groups shards gs))"

definition erasure_reconstruct :: "byte list option list \<Rightarrow> byte list option" where
  "erasure_reconstruct shards =
     (case List.map_filter (\<lambda>s. s) shards of
        [] \<Rightarrow> None
      | s # _ \<Rightarrow>
          let groups = length s
          in if list_ex (\<lambda>s. length s \<noteq> groups) (List.map_filter (\<lambda>s. s) shards) then None
             else Option.bind (reconstruct_groups shards [0..<groups]) unpad)"


section \<open>Tables\<close>

lemma upt_Suc_rec: "[i..<Suc n] = (if i \<le> n then [i..<n] @ [n] else [])" by simp

lemma upt7: "[0..<7] = [0, 1, 2, 3, 4, 5, 6]" by (simp add: upt_rec)

lemma upt8: "[0..<8] = [0, 1, 2, 3, 4, 5, 6, 7]" by (simp add: upt_rec)

lemma INCIDENCE_eval: "INCIDENCE = [112, 26, 76, 38, 67, 41, 21]"
  by code_simp

lemma POINT_COORDS_eval:
  "POINT_COORDS = [[1, 0, 0], [1, 0, 1], [1, 1, 0], [1, 1, 1], [0, 1, 0], [0, 1, 1], [0, 0, 1]]"
  by code_simp

lemma BASIS_POINTS_eval: "BASIS_POINTS = [0, 4, 6]"
  by code_simp


section \<open>A peeling step restores the code\<close>

definition agrees :: "byte list \<Rightarrow> byte option list \<Rightarrow> byte \<Rightarrow> bool" where
  "agrees code symbols lost \<longleftrightarrow> length symbols = 7 \<and> (\<forall>p < 7. symbols ! p = (if bit lost p then None else Some (code ! p)))"

definition codeword :: "byte list \<Rightarrow> bool" where
  "codeword code \<longleftrightarrow> (\<exists>a b c. code = encode_group [a, b, c])"

lemma encode_group_eval:
  "encode_group [a, b, c] = [a, a XOR c, a XOR b, a XOR b XOR c, b, b XOR c, c]"
  by (simp add: encode_group_def POINT_COORDS_eval ac_simps)

lemma all7: "(\<forall>p < 7. P p) \<longleftrightarrow> P 0 \<and> P 1 \<and> P 2 \<and> P 3 \<and> P 4 \<and> P 5 \<and> P (6 :: nat)"
proof -
  have "(\<forall>p < 7. P p) \<longleftrightarrow> list_all P [0..<7]" by (auto simp: list_all_iff)
  then show ?thesis by (simp only: upt7 list_all_iff list.set ball_simps simp_thms)
qed

lemma xor_cancel: "a XOR (a XOR b) = (b :: byte)"
  by (simp add: xor.assoc [symmetric])

lemmas xor_ac = xor.assoc xor.commute xor.left_commute xor_cancel

lemma agreesD:
  assumes "agrees code symbols lost"
  obtains s0 s1 s2 s3 s4 s5 s6 where "symbols = [s0, s1, s2, s3, s4, s5, s6]"
proof -
  have "length symbols = Suc (Suc (Suc (Suc (Suc (Suc (Suc 0))))))" using assms by (simp add: agrees_def)
  then show thesis by (auto simp: length_Suc_conv intro: that)
qed

lemma bits_of_line:
  "is_power_of_two w \<longleftrightarrow> length (filter (bit w) [0, 1, 2, 3, 4, 5, 6, 7]) = 1"
  "trailing_zeros w = length (takeWhile (\<lambda>i. \<not> bit w i) [0, 1, 2, 3, 4, 5, 6, 7])"
  by (simp_all add: is_power_of_two_def count_ones_def trailing_zeros_def upt8 del: filter.simps takeWhile.simps)

lemma masked_bit: "w AND push_bit p 1 \<noteq> (0 :: byte) \<longleftrightarrow> bit w p"
  using and_exp_eq_0_iff_not_bit [of w p] by (simp add: push_bit_eq_mult)

lemma line_value_eval:
  assumes "agrees code s w"
  shows "line_value m missing s =
    fold (\<lambda>p v. if bit m p \<and> p \<noteq> missing \<and> \<not> bit w p then v XOR code ! p else v) [0, 1, 2, 3, 4, 5, 6] 0"
proof -
  have "line_value m missing s = fold (\<lambda>p v. if bit m p \<and> p \<noteq> missing \<and> \<not> bit w p then v XOR code ! p else v) [0..<7] 0"
    unfolding line_value_def fano_N_def masked_bit
    by (rule fold_cong) (use assms in \<open>auto simp: agrees_def fun_eq_iff\<close>)
  then show ?thesis by (simp only: upt7)
qed

lemma line_step:
  assumes "m \<in> set INCIDENCE" "is_power_of_two (m AND w)" "agrees (encode_group [a, b, c]) s w"
  shows "trailing_zeros (m AND w) < 7 \<and> (\<forall>p < 7. bit (m AND w) p \<longleftrightarrow> p = trailing_zeros (m AND w)) \<and>
    line_value m (trailing_zeros (m AND w)) s = encode_group [a, b, c] ! trailing_zeros (m AND w)"
  using assms(1,2) unfolding line_value_eval [OF assms(3)] bits_of_line INCIDENCE_eval encode_group_eval all7
  by (simp only: list.set insert_iff empty_iff simp_thms, elim disjE)
    (simp_all add: bit_and_iff xor_ac split: if_splits)

lemma peel_group_line_agrees:
  assumes "m \<in> set INCIDENCE" "agrees (encode_group [a, b, c]) s w"
  shows "case peel_group_line m (s, w, g) of (s', w', g') \<Rightarrow> agrees (encode_group [a, b, c]) s' w'"
proof (cases "is_power_of_two (m AND w)")
  case False
  then show ?thesis using assms by (simp add: peel_group_line_def Let_def)
next
  case True
  have step: "trailing_zeros (m AND w) < 7" "\<And>p. p < 7 \<Longrightarrow> bit (m AND w) p \<longleftrightarrow> p = trailing_zeros (m AND w)"
    "line_value m (trailing_zeros (m AND w)) s = encode_group [a, b, c] ! trailing_zeros (m AND w)"
    using line_step [OF assms(1) True assms(2)] by auto
  have "bit (w AND NOT (m AND w)) p \<longleftrightarrow> bit w p \<and> p \<noteq> trailing_zeros (m AND w)" if "p < 7" for p
    using step(2) [OF that] that by (auto simp: bit_simps)
  with assms(2) True step(1,3) show ?thesis
    by (simp add: peel_group_line_def Let_def agrees_def nth_list_update)
qed

lemma fold_peel_group_agrees:
  assumes "set ms \<subseteq> set INCIDENCE" "agrees (encode_group [a, b, c]) s w"
  shows "case fold peel_group_line ms (s, w, g) of (s', w', g') \<Rightarrow> agrees (encode_group [a, b, c]) s' w'"
  using assms
proof (induction ms arbitrary: s w g)
  case (Cons m ms)
  obtain s1 w1 g1 where l: "peel_group_line m (s, w, g) = (s1, w1, g1)" by (cases "peel_group_line m (s, w, g)") auto
  then have "agrees (encode_group [a, b, c]) s1 w1"
    using peel_group_line_agrees [of m a b c s w g] Cons.prems by auto
  then show ?case using Cons.IH [of s1 w1 g1] Cons.prems(1) l by simp
qed simp

lemma peel_group_loop_spec:
  assumes "agrees (encode_group [a, b, c]) s w"
  shows "case peel_group_loop s w of (s', w') \<Rightarrow> w' = peel_loop w \<and> agrees (encode_group [a, b, c]) s' w'"
  using assms
proof (induction s w rule: peel_group_loop.induct)
  case (1 s w)
  obtain s1 w1 g1 where p: "peel_group_pass s w = (s1, w1, g1)" by (cases "peel_group_pass s w") auto
  then have pw: "peel_pass w = (w1, g1)" using peel_group_pass_mask [of s w] by simp
  have ag: "agrees (encode_group [a, b, c]) s1 w1"
    using fold_peel_group_agrees [OF subset_refl "1.prems", of False] p by (simp add: peel_group_pass_def)
  show ?case
  proof (cases g1)
    case True
    then show ?thesis
      using "1.IH" [OF p [symmetric] refl refl True ag] p pw by (simp add: peel_group_loop.simps [of s w] peel_loop.simps [of w])
  next
    case False
    then show ?thesis using p pw ag by (simp add: peel_group_loop.simps [of s w] peel_loop.simps [of w])
  qed
qed

section \<open>The round trip\<close>

lemma bit_low7: "bit (w AND 0x7F :: byte) i \<longleftrightarrow> bit w i \<and> i < 7"
proof -
  have "(0x7F :: byte) = mask 7" by (simp add: mask_eq_exp_minus_1)
  then have "bit (w AND 0x7F) i \<longleftrightarrow> bit w i \<and> bit (mask 7 :: byte) i" by (simp only: bit_and_iff)
  then show ?thesis by (auto simp: bit_mask_iff)
qed

lemma bit_fold_mask:
  "bit (fold (\<lambda>p m. if P p then m OR push_bit p 1 else m) ps (w :: byte)) i \<longleftrightarrow>
     bit w i \<or> (i < 8 \<and> i \<in> set ps \<and> P i)"
proof (induction ps arbitrary: w)
  case (Cons p ps)
  show ?case unfolding fold_Cons comp_apply Cons.IH
    by (auto simp: bit_simps)
qed simp

lemma bit_mask_of: "length s = 7 \<Longrightarrow> bit (mask_of s) i \<longleftrightarrow> i < 7 \<and> s ! i = None"
  by (auto simp: mask_of_def bit_fold_mask)

lemma peel_fano_mask_of: "length s = 7 \<Longrightarrow> peel_fano (mask_of s) = peel_loop (mask_of s)"
proof -
  assume s: "length s = 7"
  then have "mask_of s AND 0x7F = mask_of s" by (auto simp: bit_eq_iff bit_low7 bit_mask_of simp del: bit_and_iff)
  then show ?thesis by (simp add: peel_fano_def)
qed

lemma mask_of_cong: "length s = length t \<Longrightarrow> (\<And>i. i < length s \<Longrightarrow> s ! i = None \<longleftrightarrow> t ! i = None) \<Longrightarrow> mask_of s = mask_of t"
  unfolding mask_of_def by (rule fold_cong) (auto simp: fun_eq_iff)

lemma agrees_all: "agrees code s 0 \<Longrightarrow> length code = 7 \<Longrightarrow> s = map Some code"
  by (auto simp: agrees_def intro: nth_equalityI)

lemma decode_encode_group: "decode_group (encode_group [a, b, c]) = [a, b, c]"
  by (simp add: decode_group_def encode_group_eval BASIS_POINTS_eval)

lemma resolve_symbols_Some [simp]: "resolve_symbols (map Some code) = code"
  by (induction code) (auto simp: resolve_symbols_def)

lemma group_peels:
  assumes "length s = 7" "\<And>p. p < 7 \<Longrightarrow> s ! p \<noteq> None \<Longrightarrow> s ! p = Some (encode_group [a, b, c] ! p)"
    and "is_recoverable_fano (mask_of s)"
  shows "\<exists>s'. peel_group s = (s', 0) \<and> decode_group (resolve_symbols s') = [a, b, c]"
proof -
  have "agrees (encode_group [a, b, c]) s (mask_of s)"
    using assms(1,2) by (auto simp: agrees_def bit_mask_of)
  then have "case peel_group s of (s', w') \<Rightarrow> w' = peel_loop (mask_of s) \<and> agrees (encode_group [a, b, c]) s' w'"
    unfolding peel_group_def by (rule peel_group_loop_spec)
  then obtain s' where "peel_group s = (s', 0)" "agrees (encode_group [a, b, c]) s' 0"
    using assms(3) peel_fano_mask_of [OF assms(1)] by (auto simp: is_recoverable_fano_def split: prod.splits)
  then have "peel_group s = (s', 0)" "s' = map Some (encode_group [a, b, c])"
    using agrees_all [of "encode_group [a, b, c]" s'] by (simp_all add: encode_group_eval)
  then show ?thesis by (simp add: decode_encode_group)
qed

lemma length_as_chunks3: "length xs mod 3 = 0 \<Longrightarrow> concat (as_chunks3 xs) = xs"
  by (induction xs rule: as_chunks3.induct) auto

lemma as_chunks3_triple: "g \<in> set (as_chunks3 xs) \<Longrightarrow> \<exists>a b c. g = [a, b, c]"
  by (induction xs rule: as_chunks3.induct) auto

lemma replicate_23: "replicate 3 x = [x, x, x]" "replicate 2 x = [x, x]"
  by (simp_all add: numeral_eq_Suc)

lemma pad_cases:
  obtains "length data mod 3 = 0" "pad data = data @ [3, 3, 3]"
  | "length data mod 3 = 1" "pad data = data @ [2, 2]"
  | "length data mod 3 = 2" "pad data = data @ [1]"
proof -
  have "length data mod 3 < 3" by simp
  then consider "length data mod 3 = 0" | "length data mod 3 = 1" | "length data mod 3 = 2" by linarith
  then show thesis
  proof cases
    case 1
    then have "pad data = data @ [3, 3, 3]" by (simp add: pad_def erasure_K_def replicate_23)
    with 1 show thesis by (rule that(1))
  next
    case 2
    then have "pad data = data @ [2, 2]" by (simp add: pad_def erasure_K_def replicate_23)
    with 2 show thesis by (rule that(2))
  next
    case 3
    then have "pad data = data @ [1]" by (simp add: pad_def erasure_K_def)
    with 3 show thesis by (rule that(3))
  qed
qed

lemma pad_length: "length (pad data) mod 3 = 0"
proof -
  have m: "n mod 3 = 0 \<Longrightarrow> (n + 3) mod 3 = 0" "n mod 3 = 1 \<Longrightarrow> (n + 2) mod 3 = 0" "n mod 3 = 2 \<Longrightarrow> (n + 1) mod 3 = 0"
    for n :: nat by presburger+
  show ?thesis by (rule pad_cases [of data]) (use m [of "length data"] in simp_all)
qed

lemma pad_nonempty: "pad data \<noteq> []"
  by (rule pad_cases [of data]) simp_all

lemma unpad_pad: "unpad (pad data) = Some data"
  by (rule pad_cases [of data]) (simp_all add: unpad_def Let_def erasure_K_def)


definition drop_shards :: "bool list \<Rightarrow> byte list list \<Rightarrow> byte list option list" where
  "drop_shards lost shards = map2 (\<lambda>l s. if l then None else Some s) lost shards"

lemma nth_erasure_encode:
  "p < 7 \<Longrightarrow> erasure_encode data ! p = map (\<lambda>c. encode_group c ! p) (as_chunks3 (pad data))"
  by (simp add: erasure_encode_def Let_def fano_N_def)

lemma length_erasure_encode [simp]: "length (erasure_encode data) = 7"
  by (simp add: erasure_encode_def Let_def fano_N_def)

lemma nth_drop_shards:
  "length lost = 7 \<Longrightarrow> p < 7 \<Longrightarrow> drop_shards lost (erasure_encode data) ! p =
     (if lost ! p then None else Some (map (\<lambda>c. encode_group c ! p) (as_chunks3 (pad data))))"
  by (simp add: drop_shards_def nth_erasure_encode)

lemma stripe_drop_shards:
  assumes "length lost = 7" "g < length (as_chunks3 (pad data))" "p < 7"
  shows "stripe (drop_shards lost (erasure_encode data)) g ! p =
    (if lost ! p then None else Some (encode_group (as_chunks3 (pad data) ! g) ! p))"
  using assms by (simp add: stripe_def fano_N_def nth_drop_shards)

lemma length_stripe [simp]: "length (stripe shards g) = 7"
  by (simp add: stripe_def fano_N_def)

lemma reconstruct_groups_encode:
  fixes data lost
  defines "sh \<equiv> drop_shards lost (erasure_encode data)" and "cs \<equiv> as_chunks3 (pad data)"
  assumes "length lost = 7" "set gs \<subseteq> {..<length cs}" "gs \<noteq> []"
  shows "reconstruct_groups sh gs =
    (if is_recoverable_fano (mask_of sh) then Some (concat (map (\<lambda>g. cs ! g) gs)) else None)"
  using assms(4,5)
proof (induction gs)
  case (Cons g gs)
  let ?s = "stripe sh g"
  have len: "length sh = 7" using assms(3) by (simp add: sh_def drop_shards_def)
  have g: "g < length cs" using Cons.prems by simp
  have nth: "?s ! p = (if lost ! p then None else Some (encode_group (cs ! g) ! p))" if "p < 7" for p
    using stripe_drop_shards [of lost g data p] assms(3) g that by (simp add: sh_def cs_def)
  have m: "mask_of ?s = mask_of sh"
    using nth len nth_drop_shards [of lost _ data] assms(3) by (intro mask_of_cong) (auto simp: sh_def)
  obtain a b c where abc: "cs ! g = [a, b, c]"
    using as_chunks3_triple [of "cs ! g" "pad data"] g by (auto simp: cs_def)
  show ?case
  proof (cases "is_recoverable_fano (mask_of sh)")
    case True
    have "?s ! p = Some (encode_group [a, b, c] ! p)" if "p < 7" "?s ! p \<noteq> None" for p
      using nth [OF that(1)] that(2) by (simp add: abc split: if_splits)
    then have "\<exists>s'. peel_group ?s = (s', 0) \<and> decode_group (resolve_symbols s') = [a, b, c]"
      by (rule group_peels [OF length_stripe]) (use True m in simp_all)
    then obtain s' where s': "peel_group ?s = (s', 0)" "decode_group (resolve_symbols s') = [a, b, c]" by blast
    show ?thesis
    proof (cases "gs = []")
      case False
      then show ?thesis using Cons True s' m by (simp add: abc)
    qed (use True s' m in \<open>simp add: abc\<close>)
  qed (simp add: m)
qed simp

lemma loses_all_unrecoverable: "\<not> is_recoverable_fano 0x7F"
  by code_simp

lemma reconstruct_encode:
  assumes "length lost = 7"
  shows "erasure_reconstruct (drop_shards lost (erasure_encode data)) =
    (if is_recoverable_fano (mask_of (drop_shards lost (erasure_encode data))) then Some data else None)"
proof -
  let ?sh = "drop_shards lost (erasure_encode data)" and ?cs = "as_chunks3 (pad data)"
  have cs: "?cs \<noteq> []" using length_as_chunks3 [OF pad_length [of data]] pad_nonempty [of data] by auto
  have len: "length ?sh = 7" using assms by (simp add: drop_shards_def)
  have mem: "s \<in> set (List.map_filter (\<lambda>s. s) ?sh) \<Longrightarrow> length s = length ?cs" for s
    using len nth_drop_shards [OF assms, of _ data]
    by (auto simp: List.map_filter_def in_set_conv_nth split: if_splits)
  show ?thesis
  proof (cases "List.map_filter (\<lambda>s. s) ?sh")
    case Nil
    then have "\<forall>s \<in> set ?sh. s = None" by (auto simp: List.map_filter_def filter_empty_conv)
    then have "mask_of ?sh = mask_of (replicate 7 (None :: byte list option))"
      using len by (intro mask_of_cong) (auto simp: all_set_conv_all_nth)
    also have "\<dots> = 0x7F" by code_simp
    finally show ?thesis using Nil loses_all_unrecoverable by (simp add: erasure_reconstruct_def)
  next
    case (Cons s ss)
    have s: "length s = length ?cs" using mem [of s] Cons by simp
    have "\<not> list_ex (\<lambda>t. length t \<noteq> length s) (List.map_filter (\<lambda>s. s) ?sh)"
      using mem s by (auto simp: list_ex_iff)
    then have "erasure_reconstruct ?sh = Option.bind (reconstruct_groups ?sh [0..<length ?cs]) unpad"
      using Cons s by (simp add: erasure_reconstruct_def)
    also have "reconstruct_groups ?sh [0..<length ?cs] =
        (if is_recoverable_fano (mask_of ?sh) then Some (concat (map (\<lambda>g. ?cs ! g) [0..<length ?cs])) else None)"
      using assms cs by (intro reconstruct_groups_encode) auto
    finally show ?thesis by (simp add: map_nth length_as_chunks3 [OF pad_length] unpad_pad)
  qed
qed

section \<open>Which losses are recoverable\<close>

definition covers_complement :: "byte \<Rightarrow> byte \<Rightarrow> bool" where
  "covers_complement w l \<longleftrightarrow> (\<forall>p < 7. bit l p \<or> bit w p)"

lemma fold_peel_stuck:
  assumes "fold peel_line ms (w, False) = (w', False)"
  shows "w' = w \<and> (\<forall>m \<in> set ms. \<not> is_power_of_two (m AND w))"
  using assms
proof (induction ms)
  case (Cons m ms)
  have sticky: "snd (fold peel_line ks (v, True))" for ks v
    by (induction ks arbitrary: v) (auto simp: peel_line_def Let_def)
  show ?case
  proof (cases "is_power_of_two (m AND w)")
    case True
    define v where "v = w AND NOT (m AND w)"
    have "peel_line m (w, False) = (v, True)" using True by (simp add: v_def peel_line_def Let_def)
    then have "fold peel_line ms (v, True) = (w', False)" using Cons.prems by simp
    then show ?thesis using sticky [of ms v] by simp
  next
    case False
    then have "peel_line m (w, False) = (w, False)" by (simp add: peel_line_def Let_def)
    then show ?thesis using Cons False by simp
  qed
qed simp

definition one_of :: "bool \<Rightarrow> bool \<Rightarrow> bool \<Rightarrow> bool" where
  "one_of a b c \<longleftrightarrow> a \<and> \<not> b \<and> \<not> c \<or> \<not> a \<and> b \<and> \<not> c \<or> \<not> a \<and> \<not> b \<and> c"

lemma line_meets:
  "is_power_of_two (112 AND w) \<longleftrightarrow> one_of (bit w 4) (bit w 5) (bit w 6)"
  "is_power_of_two (26 AND w) \<longleftrightarrow> one_of (bit w 1) (bit w 3) (bit w 4)"
  "is_power_of_two (76 AND w) \<longleftrightarrow> one_of (bit w 2) (bit w 3) (bit w 6)"
  "is_power_of_two (38 AND w) \<longleftrightarrow> one_of (bit w 1) (bit w 2) (bit w 5)"
  "is_power_of_two (67 AND w) \<longleftrightarrow> one_of (bit w 0) (bit w 1) (bit w 6)"
  "is_power_of_two (41 AND w) \<longleftrightarrow> one_of (bit w 0) (bit w 3) (bit w 5)"
  "is_power_of_two (21 AND w) \<longleftrightarrow> one_of (bit w 0) (bit w 2) (bit w 4)"
  unfolding bits_of_line one_of_def by (simp_all add: bit_and_iff)

lemma line_covers:
  "covers_complement w 112 \<longleftrightarrow> bit w 0 \<and> bit w 1 \<and> bit w 2 \<and> bit w 3"
  "covers_complement w 26 \<longleftrightarrow> bit w 0 \<and> bit w 2 \<and> bit w 5 \<and> bit w 6"
  "covers_complement w 76 \<longleftrightarrow> bit w 0 \<and> bit w 1 \<and> bit w 4 \<and> bit w 5"
  "covers_complement w 38 \<longleftrightarrow> bit w 0 \<and> bit w 3 \<and> bit w 4 \<and> bit w 6"
  "covers_complement w 67 \<longleftrightarrow> bit w 2 \<and> bit w 3 \<and> bit w 4 \<and> bit w 5"
  "covers_complement w 41 \<longleftrightarrow> bit w 1 \<and> bit w 2 \<and> bit w 4 \<and> bit w 6"
  "covers_complement w 21 \<longleftrightarrow> bit w 1 \<and> bit w 3 \<and> bit w 5 \<and> bit w 6"
  unfolding covers_complement_def all7 by simp_all

lemma stuck_covers:
  assumes "\<forall>m \<in> set INCIDENCE. \<not> is_power_of_two (m AND w)" "\<not> (\<forall>p < 7. \<not> bit w p)"
  shows "\<exists>l \<in> set INCIDENCE. covers_complement w l"
  using assms unfolding INCIDENCE_eval all7
  by (cases "bit w 0"; cases "bit w 1"; cases "bit w 2"; cases "bit w 3") (auto simp: line_meets line_covers one_of_def)

lemma cover_blocks_lines:
  assumes "l \<in> set INCIDENCE" "k \<in> set INCIDENCE" "covers_complement w l" "l \<noteq> k"
  shows "\<not> is_power_of_two (k AND w)"
  using assms unfolding INCIDENCE_eval by (auto simp: line_meets line_covers one_of_def)

lemma covers_kept:
  assumes "l \<in> set INCIDENCE" "covers_complement w l" "k \<in> set INCIDENCE"
  shows "covers_complement (fst (peel_line k (w, b))) l"
  using assms cover_blocks_lines [OF assms(1,3,2)]
  by (cases "l = k") (auto simp: peel_line_def Let_def covers_complement_def bit_simps)

lemma fold_covers_kept:
  assumes "l \<in> set INCIDENCE" "covers_complement w l" "set ks \<subseteq> set INCIDENCE"
  shows "covers_complement (fst (fold peel_line ks (w, b))) l"
  using assms(2,3)
proof (induction ks arbitrary: w b)
  case (Cons k ks)
  then show ?case using covers_kept [OF assms(1), of w k b] by (cases "peel_line k (w, b)") auto
qed simp

lemma peel_loop_covers: "l \<in> set INCIDENCE \<Longrightarrow> covers_complement w l \<Longrightarrow> covers_complement (peel_loop w) l"
proof (induction w rule: peel_loop.induct)
  case (1 w)
  obtain v g where p: "peel_pass w = (v, g)" by fastforce
  then have "covers_complement v l"
    using fold_covers_kept [OF "1.prems" subset_refl, of False] by (simp add: peel_pass_def)
  then show ?case using "1.IH" [OF p [symmetric] refl] "1.prems"(1) p by (cases g) (simp_all add: peel_loop.simps [of w])
qed

lemma peel_loop_stuck: "\<forall>m \<in> set INCIDENCE. \<not> is_power_of_two (m AND peel_loop w)"
proof (induction w rule: peel_loop.induct)
  case (1 w)
  obtain v g where p: "peel_pass w = (v, g)" by fastforce
  show ?case
  proof (cases g)
    case True
    then show ?thesis using "1.IH" [OF p [symmetric] refl] p by (simp add: peel_loop.simps [of w])
  next
    case False
    then show ?thesis using fold_peel_stuck [of INCIDENCE w v] p by (simp add: peel_loop.simps [of w] peel_pass_def)
  qed
qed

lemma fold_peel_sub: "bit (fst (fold peel_line ks (w, b))) p \<Longrightarrow> bit w p"
proof (induction ks arbitrary: w b)
  case (Cons k ks)
  obtain v g where s: "peel_line k (w, b) = (v, g)" by fastforce
  with Cons have "bit v p" by simp
  then show ?case using s by (auto simp: peel_line_def Let_def bit_simps split: if_splits)
qed simp

lemma peel_loop_sub: "bit (peel_loop w) p \<Longrightarrow> bit w p"
proof (induction w rule: peel_loop.induct)
  case (1 w)
  obtain v g where p: "peel_pass w = (v, g)" by fastforce
  have "bit v p" using 1 p by (cases g) (auto simp: peel_loop.simps [of w])
  then show ?case using fold_peel_sub [of INCIDENCE w False p] p by (simp add: peel_pass_def)
qed

lemma recoverable_iff: "is_recoverable_fano lost \<longleftrightarrow> \<not> (\<exists>l \<in> set INCIDENCE. covers_complement lost l)"
proof -
  let ?w = "lost AND 0x7F"
  have cover: "covers_complement ?w l \<longleftrightarrow> covers_complement lost l" for l
    by (auto simp: covers_complement_def bit_low7 simp del: bit_and_iff)
  have "peel_loop ?w \<noteq> 0" if l: "l \<in> set INCIDENCE" "covers_complement ?w l" for l
    using peel_loop_covers [OF l] l(1) by (auto simp: INCIDENCE_eval line_covers)
  moreover have "\<exists>l \<in> set INCIDENCE. covers_complement ?w l" if "peel_loop ?w \<noteq> 0"
  proof -
    have "bit (peel_loop ?w) p \<Longrightarrow> p < 7" for p
      using peel_loop_sub [of ?w p] by (simp only: bit_low7)
    then have "\<not> (\<forall>p < 7. \<not> bit (peel_loop ?w) p)" using that by (auto simp: bit_eq_iff)
    then obtain l where "l \<in> set INCIDENCE" "covers_complement (peel_loop ?w) l"
      using stuck_covers [OF peel_loop_stuck] by blast
    then show ?thesis using peel_loop_sub [of ?w] by (auto simp: covers_complement_def)
  qed
  ultimately show ?thesis using cover by (auto simp: is_recoverable_fano_def peel_fano_def)
qed

lemma complement_count: "l \<in> set INCIDENCE \<Longrightarrow> covers_complement w l \<Longrightarrow> 4 \<le> count_ones (w AND 0x7F)"
  unfolding count_ones_def upt8 by (auto simp: INCIDENCE_eval line_covers bit_and_iff)

lemma bit_loss_mask:
  "length lost = 7 \<Longrightarrow> bit (mask_of (drop_shards lost (erasure_encode data))) p \<longleftrightarrow> p < 7 \<and> lost ! p"
  by (auto simp: bit_mask_of drop_shards_def split: if_splits)

lemma line_complement_lost:
  assumes "length lost = 7"
  shows "(\<exists>l \<in> set INCIDENCE. covers_complement (mask_of (drop_shards lost (erasure_encode data))) l) \<longleftrightarrow>
    (\<exists>l < 7. \<forall>p < 7. p \<in> set (LINE_POINTS ! l) \<or> lost ! p)"
proof -
  have nth: "bit (INCIDENCE ! l) p \<longleftrightarrow> p \<in> set (LINE_POINTS ! l)" if "l < 7" "p < 7" for l p
    using that by (simp add: INCIDENCE_def LINE_POINTS_def fano_N_def bit_fold_mask)
  have "(\<exists>l \<in> set INCIDENCE. covers_complement w l) \<longleftrightarrow> (\<exists>l < 7. covers_complement w (INCIDENCE ! l))" for w
    by (auto simp: in_set_conv_nth INCIDENCE_def fano_N_def)
  moreover have "covers_complement (mask_of (drop_shards lost (erasure_encode data))) (INCIDENCE ! l) \<longleftrightarrow>
      (\<forall>p < 7. p \<in> set (LINE_POINTS ! l) \<or> lost ! p)" if "l < 7" for l
    using nth [OF that] by (auto simp: covers_complement_def bit_loss_mask [OF assms])
  ultimately show ?thesis by auto
qed

lemma loss_count:
  assumes "length lost = 7"
  shows "count_ones (mask_of (drop_shards lost (erasure_encode data)) AND 0x7F) = length (filter id lost)"
proof -
  have "count_ones (mask_of (drop_shards lost (erasure_encode data)) AND 0x7F) = card {p. p < 7 \<and> lost ! p}"
    unfolding count_ones_card bit_low7 bit_loss_mask [OF assms] by (rule arg_cong [where f = card]) auto
  then show ?thesis using assms by (simp add: length_filter_conv_card)
qed

text \<open>
  C37. Availability of a dispersed block. Encode any payload into seven shards and lose any set of them:
  \<open>reconstruct\<close> fails exactly when the lost shards cover the complement of a line of the plane, and
  returns exactly the payload otherwise, in particular whenever at most three of the seven are lost. It
  never returns anything else.
\<close>

theorem erasure_roundtrip:
  assumes "length lost = 7"
  shows "erasure_reconstruct (drop_shards lost (erasure_encode data)) =
      (if \<exists>l < 7. \<forall>p < 7. p \<in> set (LINE_POINTS ! l) \<or> lost ! p then None else Some data) \<and>
    (length (filter id lost) \<le> 3 \<longrightarrow> erasure_reconstruct (drop_shards lost (erasure_encode data)) = Some data)"
proof -
  let ?m = "mask_of (drop_shards lost (erasure_encode data))"
  have "is_recoverable_fano ?m" if "length (filter id lost) \<le> 3"
    using that complement_count [of _ ?m] loss_count [OF assms, of data] by (force simp: recoverable_iff)
  then show ?thesis
    using reconstruct_encode [OF assms, of data] recoverable_iff [of ?m] line_complement_lost [OF assms, of data] by auto
qed

theorem erasure_roundtrip_witness:
  "erasure_reconstruct (drop_shards [True, False, True, False, True, False, False] (erasure_encode [1, 2, 3, 4])) = Some [1, 2, 3, 4] \<and>
   erasure_reconstruct (drop_shards [True, True, True, True, False, False, False] (erasure_encode [1, 2, 3, 4])) = None"
proof -
  have "LINE_POINTS ! 0 = [4, 5, 6]" by code_simp
  then have "\<exists>l < 7. \<forall>p < 7. p \<in> set (LINE_POINTS ! l) \<or> [True, True, True, True, False, False, False] ! p"
    by (intro exI [of _ 0]) (simp add: all7)
  then have "erasure_reconstruct (drop_shards [True, True, True, True, False, False, False] (erasure_encode [1, 2, 3, 4])) = None"
    using erasure_roundtrip [of "[True, True, True, True, False, False, False]" "[1, 2, 3, 4]"] by simp
  moreover have "erasure_reconstruct (drop_shards [True, False, True, False, True, False, False] (erasure_encode [1, 2, 3, 4])) = Some [1, 2, 3, 4]"
    by (rule erasure_roundtrip [THEN conjunct2, rule_format]) simp_all
  ultimately show ?thesis by simp
qed

section \<open>Sampling\<close>

lemma swap_mset:
  assumes "i < length xs" "j < length xs"
  shows "mset (xs[i := xs ! j, j := xs ! i]) = mset xs"
  using mset_swap [OF assms(2,1)] by simp

lemma sample_lines_loop_perm:
  assumes "set is \<subseteq> {..<7}" "length xs = 7"
  shows "mset (fst (sample_lines_loop is (xs, st))) = mset xs"
  using assms
proof (induction "is" arbitrary: xs st)
  case (Cons i "is")
  obtain z st' where z: "splitmix64 st = (z, st')" by fastforce
  let ?d = "word_of_nat (fano_N - i) :: u64"
  have i: "i < 7" using Cons.prems by simp
  have d: "unat ?d = 7 - i" by (simp add: fano_N_def unat_of_nat take_bit_nat_eq_self_iff)
  then have "?d \<noteq> 0" using i by (metis unat_0 zero_less_diff less_not_refl)
  then have "unat (z mod ?d) < 7 - i" using i d by (simp add: unat_mod_distrib)
  then have "i + unat (z mod ?d) < length xs" "i < length xs" using i Cons.prems(2) by simp_all
  then have "mset (xs[i := xs ! (i + unat (z mod ?d)), (i + unat (z mod ?d)) := xs ! i]) = mset xs"
    by (intro swap_mset)
  then show ?case using Cons z by (simp add: Let_def)
qed simp

theorem sample_lines_distinct:
  "length (sample_lines seed k) = min k 7 \<and> distinct (sample_lines seed k) \<and> set (sample_lines seed k) \<subseteq> {..<7}"
proof -
  let ?r = "fst (sample_lines_loop [0..<min k fano_N] ([0..<fano_N], seed))"
  have "mset ?r = mset [0..<7]" by (rule trans [OF sample_lines_loop_perm]) (auto simp: fano_N_def)
  then have "length ?r = 7" "distinct ?r" "set ?r = {..<7}"
    by (metis size_mset length_upt diff_zero) (metis \<open>mset ?r = mset [0..<7]\<close> mset_eq_imp_distinct_iff distinct_upt,
      metis \<open>mset ?r = mset [0..<7]\<close> mset_eq_setD set_upt atLeast_upt)
  then show ?thesis by (auto simp: sample_lines_def Let_def fano_N_def dest: in_set_takeD)
qed

lemma line_subset:
  assumes "l \<in> set INCIDENCE" "k \<in> set INCIDENCE" "\<forall>p < 7. bit l p \<longrightarrow> bit k p"
  shows "l = k"
proof -
  have tab: "list_all (\<lambda>l. list_all (\<lambda>k. list_all (\<lambda>p. bit l p \<longrightarrow> bit k p) [0, 1, 2, 3, 4, 5, 6] \<longrightarrow> l = k) INCIDENCE) INCIDENCE"
    by code_simp
  then have "list_all (\<lambda>p. bit l p \<longrightarrow> bit k p) [0, 1, 2, 3, 4, 5, 6] \<longrightarrow> l = k"
    using assms(1,2) unfolding list_all_iff [of _ INCIDENCE] by blast
  then show ?thesis using assms(3) by (simp add: all7)
qed

lemma present_lines_unique:
  assumes "\<not> is_recoverable_fano (NOT present)" "line_present present i" "line_present present j"
  shows "i = j"
proof -
  obtain k where k: "k \<in> set INCIDENCE" "covers_complement (NOT present) k"
    using assms(1) by (auto simp: recoverable_iff)
  have eq: "INCIDENCE ! i = k" if "line_present present i" for i
  proof (rule line_subset [OF _ k(1)])
    have "bit (INCIDENCE ! i) p \<Longrightarrow> bit present p" for p
      using that by (metis bit_and_iff line_present_def)
    then show "\<forall>p < 7. bit (INCIDENCE ! i) p \<longrightarrow> bit k p"
      using k(2) by (auto simp: covers_complement_def bit_not_iff)
    show "INCIDENCE ! i \<in> set INCIDENCE" using that by (simp add: line_present_def)
  qed
  have "distinct INCIDENCE" by (simp add: INCIDENCE_eval)
  then show ?thesis using eq [OF assms(2)] eq [OF assms(3)] assms(2,3)
    by (metis line_present_def nth_eq_iff_index_eq)
qed

text \<open>
  Sampling is sound: of a value that cannot be reconstructed at most one of the seven lines is present in
  full, so a check of two distinct lines never passes.
\<close>

theorem unavailable_fails_two_samples:
  assumes "\<not> is_recoverable_fano (NOT present)" "distinct sampled" "2 \<le> length sampled"
  shows "\<not> samples_pass present sampled"
proof
  assume pass: "samples_pass present sampled"
  obtain i j r where s: "sampled = i # j # r" using assms(3) by (cases sampled rule: remdups_adj.cases) auto
  then have "i = j" using present_lines_unique [OF assms(1)] pass by (simp add: samples_pass_def)
  then show False using assms(2) s by simp
qed

end
