(* ===== verification/Field_Gf2m.thy ===== *)
theory Field_Gf2m
  imports Fanos_Prelude
begin

unbundle bit_operations_syntax

text \<open>
  The binary fields \<open>GF(2\<^sup>m)\<close> of \<open>fanos-field\<close> (\<open>src/gf2m.rs\<close>, \<open>src/lib.rs\<close>): the branchless carry-less
  multiplication on 32-bit words, exponentiation by squaring and the Fermat inverse. Multiplication is
  shown to be the sum of the shifts of one operand over the bits of the other; linearity in both operands
  reduces every ring law to the powers of \<open>x\<close>. At \<open>m = 8\<close> the element \<open>x\<close> has order 255, so every nonzero
  byte is a power of it and \<open>inv\<close> inverts: bytes form a field, which is the type \<open>f256\<close>.
\<close>

section \<open>The operations\<close>

definition irreducible :: "nat \<Rightarrow> u32" where
  "irreducible m =
     (if m = 1 then 0b11 else if m = 2 then 0b111 else if m = 3 then 0b1011 else if m = 4 then 0b10011
      else if m = 5 then 0b100101 else if m = 6 then 0b1000011 else if m = 7 then 0b10000011
      else if m = 8 then 0x11D else if m = 9 then 0x211 else if m = 10 then 0x409 else if m = 11 then 0x805
      else if m = 12 then 0x1053 else if m = 13 then 0x201B else if m = 14 then 0x4443
      else if m = 15 then 0x8003 else if m = 16 then 0x1100B else 0)"

definition gf_MASK :: "nat \<Rightarrow> u32" where
  "gf_MASK m = (if m \<ge> 32 then - 1 else push_bit m 1 - 1)"

text \<open>One iteration of the loop of \<open>clmul\<close>, on \<open>(a, b, acc)\<close>.\<close>

definition clmul_step :: "nat \<Rightarrow> u32 \<times> u32 \<times> u32 \<Rightarrow> u32 \<times> u32 \<times> u32" where
  "clmul_step m = (\<lambda>(a, b, acc).
     let add_mask = 0 - (b AND 1);
         acc = acc XOR (a AND add_mask);
         b = drop_bit 1 b;
         reduce_mask = 0 - (drop_bit (m - 1) a AND 1);
         a = (push_bit 1 a XOR (irreducible m AND reduce_mask)) AND gf_MASK m
     in (a, b, acc))"

definition clmul :: "nat \<Rightarrow> u32 \<Rightarrow> u32 \<Rightarrow> u32" where
  "clmul m a b =
     (case (clmul_step m ^^ m) (a AND gf_MASK m, b AND gf_MASK m, 0) of (_, _, acc) \<Rightarrow> acc AND gf_MASK m)"

definition gf_add :: "nat \<Rightarrow> u32 \<Rightarrow> u32 \<Rightarrow> u32" where
  "gf_add m a b = (a XOR b) AND gf_MASK m"

definition gf_neg :: "nat \<Rightarrow> u32 \<Rightarrow> u32" where
  "gf_neg m a = a AND gf_MASK m"

definition gf_reduce :: "nat \<Rightarrow> u64 \<Rightarrow> u32" where
  "gf_reduce m x = ucast x AND gf_MASK m"

text \<open>\<open>Field::pow\<close>: the loop over the exponent, on the running square and the accumulator.\<close>

function gf_pow_loop :: "nat \<Rightarrow> u32 \<Rightarrow> u64 \<Rightarrow> u32 \<Rightarrow> u32" where
  "gf_pow_loop m b e acc =
     (if e = 0 then acc
      else gf_pow_loop m (clmul m b b) (drop_bit 1 e) (if e AND 1 = 1 then clmul m acc b else acc))"
  by auto
termination
  by (relation "measure (\<lambda>(m, b, e, acc). unat e)") (auto simp: drop_bit_eq_div unat_div unat_gt_0)

declare gf_pow_loop.simps [simp del]

definition gf_pow :: "nat \<Rightarrow> u32 \<Rightarrow> u64 \<Rightarrow> u32" where
  "gf_pow m base e = gf_pow_loop m base e 1"

definition gf_inv :: "nat \<Rightarrow> u32 \<Rightarrow> u32" where
  "gf_inv m a = gf_pow m a (2 ^ m - 2)"

definition gf_div :: "nat \<Rightarrow> u32 \<Rightarrow> u32 \<Rightarrow> u32" where
  "gf_div m a b = clmul m a (gf_inv m b)"

section \<open>Multiplication as a sum of shifts\<close>

definition xtime :: "nat \<Rightarrow> u32 \<Rightarrow> u32" where
  "xtime m a = take_bit m (push_bit 1 a XOR (if bit a (m - 1) then irreducible m else 0))"

primrec shift_sum :: "nat \<Rightarrow> nat \<Rightarrow> u32 \<Rightarrow> u32 \<Rightarrow> u32" where
  "shift_sum m 0 a b = 0"
| "shift_sum m (Suc n) a b = shift_sum m n a b XOR (if bit b n then (xtime m ^^ n) a else 0)"

lemma gf_MASK_mask: "m \<le> 16 \<Longrightarrow> gf_MASK m = mask m"
  by (simp add: gf_MASK_def mask_eq_exp_minus_1 push_bit_eq_mult)

lemma and_MASK [simp]: "m \<le> 16 \<Longrightarrow> a AND gf_MASK m = take_bit m a"
  by (simp add: gf_MASK_mask take_bit_eq_mask)

lemma and_neg_bit: "a AND (0 - (drop_bit n b AND 1)) = (if bit b n then a else 0)" for a b :: u32
proof -
  have "drop_bit n b AND 1 = (if bit b n then 1 else 0)"
    by (simp add: and_one_eq bit_iff_odd_drop_bit odd_iff_mod_2_eq_one)
  then show ?thesis by auto
qed

lemma clmul_step_eval:
  assumes "m \<le> 16"
  shows "clmul_step m (a, b, acc) = (xtime m a, drop_bit 1 b, acc XOR (if bit b 0 then a else 0))"
proof -
  have "b AND 1 = drop_bit 0 b AND 1" by simp
  then have "a AND (0 - (b AND 1)) = (if bit b 0 then a else 0)" by (simp only: and_neg_bit)
  then show ?thesis
    unfolding clmul_step_def Let_def xtime_def prod.case and_MASK [OF assms] and_neg_bit by simp
qed

lemma clmul_steps:
  "m \<le> 16 \<Longrightarrow> (clmul_step m ^^ n) (a, b, 0) = ((xtime m ^^ n) a, drop_bit n b, shift_sum m n a b)"
  by (induction n) (simp_all add: clmul_step_eval bit_drop_bit_eq)

lemma clmul_shift_sum:
  "m \<le> 16 \<Longrightarrow> clmul m a b = take_bit m (shift_sum m m (take_bit m a) (take_bit m b))"
  by (simp add: clmul_def clmul_steps)


section \<open>Ring laws\<close>

abbreviation in_field :: "nat \<Rightarrow> u32 \<Rightarrow> bool" where
  "in_field m a \<equiv> take_bit m a = a"

text \<open>The supported degrees are those \<open>clmul\<close> asserts at compile time.\<close>

abbreviation degree_ok :: "nat \<Rightarrow> bool" where
  "degree_ok m \<equiv> 1 \<le> m \<and> m \<le> 16"

lemma xtime_in_field [simp]: "take_bit m (xtime m a) = xtime m a"
  by (simp add: xtime_def)

lemma xtime_pow_in_field: "in_field m a \<Longrightarrow> in_field m ((xtime m ^^ n) a)"
  by (cases n) simp_all

lemma xtime_0 [simp]: "xtime m 0 = 0"
  by (simp add: xtime_def)

lemma xtime_xor: "xtime m (a XOR b) = xtime m a XOR xtime m b"
  by (auto simp: xtime_def push_bit_xor take_bit_xor bit_xor_iff xor.assoc xor.commute xor.left_commute)

lemma xtime_pow_xor: "(xtime m ^^ n) (a XOR b) = (xtime m ^^ n) a XOR (xtime m ^^ n) b"
  by (induction n) (simp_all add: xtime_xor)

lemma xtime_pow_0 [simp]: "(xtime m ^^ n) 0 = 0"
  by (induction n) simp_all

lemma shift_sum_in_field: "in_field m a \<Longrightarrow> in_field m (shift_sum m n a b)"
  by (induction n) (simp_all add: take_bit_xor xtime_pow_in_field)

lemma shift_sum_xor_left: "shift_sum m n (a XOR a') b = shift_sum m n a b XOR shift_sum m n a' b"
  by (induction n) (auto simp: xtime_pow_xor xor.assoc xor.commute xor.left_commute)

lemma xor_self_left: "a XOR (a XOR b) = b" for a b :: u32
  by (simp add: xor.assoc [symmetric])

lemma shift_sum_xor_right: "shift_sum m n a (b XOR b') = shift_sum m n a b XOR shift_sum m n a b'"
  by (induction n) (auto simp: bit_xor_iff xor.assoc xor.commute xor.left_commute xor_self_left)

lemma shift_sum_0 [simp]: "shift_sum m n 0 b = 0" "shift_sum m n a 0 = 0"
  by (induction n) simp_all

lemma xtime_shift_sum: "xtime m (shift_sum m n a b) = shift_sum m n (xtime m a) b"
  by (induction n) (simp_all add: xtime_xor funpow_swap1)

lemma xtime_pow_shift_sum: "(xtime m ^^ k) (shift_sum m n a b) = shift_sum m n ((xtime m ^^ k) a) b"
  by (induction k) (simp_all add: xtime_shift_sum)

lemma shift_sum_exp:
  assumes "k < n" "n \<le> 16"
  shows "shift_sum m n a (2 ^ k) = (xtime m ^^ k) a"
proof -
  have bit: "bit (2 ^ k :: u32) j \<longleftrightarrow> j = k" for j using assms by (auto simp: bit_exp_iff)
  have "shift_sum m j a (2 ^ k) = (if k < j then (xtime m ^^ k) a else 0)" for j
    by (induction j) (auto simp: bit)
  then show ?thesis using assms by simp
qed

text \<open>Two additive maps that agree on the powers of two below \<open>2\<^sup>m\<close> agree on the field.\<close>

lemma additive_ext:
  fixes f g :: "u32 \<Rightarrow> u32"
  assumes "\<And>a b. f (a XOR b) = f a XOR f b" "\<And>a b. g (a XOR b) = g a XOR g b"
    and "\<And>k. k < m \<Longrightarrow> f (2 ^ k) = g (2 ^ k)" "in_field m b"
  shows "f b = g b"
proof -
  have z: "f 0 = 0" "g 0 = 0" using assms(1) [of 0 0] assms(2) [of 0 0] by simp_all
  have "n \<le> m \<Longrightarrow> f (take_bit n b) = g (take_bit n b)" for n
  proof (induction n)
    case (Suc n)
    have "take_bit (Suc n) b = take_bit n b XOR (if bit b n then 2 ^ n else 0)"
      by (rule bit_eqI) (auto simp: bit_simps less_Suc_eq)
    then show ?case using Suc assms(3) [of n] by (simp add: assms(1,2) z)
  qed (simp add: z)
  then show ?thesis using assms(4) by (metis order_refl)
qed

lemma xtime_exp:
  assumes "k + 1 < m" "m \<le> 16"
  shows "xtime m (2 ^ k) = 2 ^ (k + 1)"
proof -
  have "\<not> bit (2 ^ k :: u32) (m - 1)" using assms by (auto simp: bit_exp_iff)
  moreover have "push_bit 1 (2 ^ k) = (2 :: u32) ^ (k + 1)" by (simp add: push_bit_eq_mult)
  moreover have "take_bit m ((2 :: u32) ^ (k + 1)) = 2 ^ (k + 1)" by (rule bit_eqI) (use assms in \<open>auto simp: bit_take_bit_iff bit_exp_iff simp del: power_Suc\<close>)
  ultimately show ?thesis by (simp only: xtime_def if_False xor.right_neutral)
qed

lemma xtime_pow_one: "k < m \<Longrightarrow> m \<le> 16 \<Longrightarrow> (xtime m ^^ k) 1 = 2 ^ k"
proof (induction k)
  case (Suc k)
  then show ?case using xtime_exp [of k m] by simp
qed simp

lemma shift_sum_one_left: "degree_ok m \<Longrightarrow> in_field m b \<Longrightarrow> shift_sum m m 1 b = b"
  by (rule additive_ext [where m = m and f = "shift_sum m m 1" and g = "\<lambda>b. b"])
    (simp_all add: shift_sum_xor_right shift_sum_exp xtime_pow_one)

lemma top_shift:
  assumes "degree_ok m" "in_field m a"
  shows "shift_sum m m a (xtime m (2 ^ (m - 1))) = (xtime m ^^ m) a"
proof (rule additive_ext [where m = m and f = "\<lambda>a. shift_sum m m a (xtime m (2 ^ (m - 1)))" and g = "xtime m ^^ m"])
  fix i assume i: "i < m"
  have top: "xtime m (2 ^ (m - 1)) = (xtime m ^^ m) 1"
    using xtime_pow_one [of "m - 1" m] assms(1) by (cases m) simp_all
  have "shift_sum m m (2 ^ i) (xtime m (2 ^ (m - 1))) = shift_sum m m ((xtime m ^^ i) 1) (xtime m (2 ^ (m - 1)))"
    using i assms(1) by (simp add: xtime_pow_one)
  also have "\<dots> = (xtime m ^^ i) (xtime m (2 ^ (m - 1)))"
    using assms(1) by (simp add: xtime_pow_shift_sum [symmetric] shift_sum_one_left)
  also have "\<dots> = (xtime m ^^ m) ((xtime m ^^ i) 1)"
    unfolding top by (metis add.commute comp_apply funpow_add)
  finally show "shift_sum m m (2 ^ i) (xtime m (2 ^ (m - 1))) = (xtime m ^^ m) (2 ^ i)"
    using i assms(1) by (simp add: xtime_pow_one)
qed (use assms in \<open>simp_all add: shift_sum_xor_left xtime_pow_xor\<close>)

lemma shift_sum_xtime_right:
  assumes "degree_ok m" "in_field m a" "in_field m b"
  shows "shift_sum m m a (xtime m b) = xtime m (shift_sum m m a b)"
proof (rule additive_ext [where m = m and f = "\<lambda>b. shift_sum m m a (xtime m b)" and g = "\<lambda>b. xtime m (shift_sum m m a b)", OF _ _ _ assms(3)])
  fix k assume k: "k < m"
  show "shift_sum m m a (xtime m (2 ^ k)) = xtime m (shift_sum m m a (2 ^ k))"
  proof (cases "k + 1 < m")
    case True
    then show ?thesis using assms(1) shift_sum_exp [of "k + 1" m m a] shift_sum_exp [of k m m a] by (simp add: xtime_exp)
  next
    case False
    then have "m = Suc k" using k by simp
    then show ?thesis using top_shift [OF assms(1,2)] shift_sum_exp [of k m m a] assms(1) by simp
  qed
qed (simp_all add: shift_sum_xor_right xtime_xor)

lemma shift_sum_xtime_pow_right:
  assumes "degree_ok m" "in_field m a" "in_field m b"
  shows "shift_sum m m a ((xtime m ^^ k) b) = (xtime m ^^ k) (shift_sum m m a b)"
proof (induction k)
  case (Suc k)
  then show ?case using shift_sum_xtime_right [OF assms(1,2) xtime_pow_in_field [OF assms(3)], of k] by simp
qed simp

lemma shift_sum_comm:
  assumes "degree_ok m" "in_field m a" "in_field m b"
  shows "shift_sum m m a b = shift_sum m m b a"
proof (rule additive_ext [where m = m and f = "\<lambda>a. shift_sum m m a b" and g = "shift_sum m m b", OF _ _ _ assms(2)])
  fix i assume i: "i < m"
  have "shift_sum m m (2 ^ i) b = (xtime m ^^ i) (shift_sum m m 1 b)"
    using i assms(1) by (simp add: xtime_pow_shift_sum xtime_pow_one)
  then show "shift_sum m m (2 ^ i) b = shift_sum m m b (2 ^ i)"
    using i assms(1) by (simp add: shift_sum_exp shift_sum_one_left assms(3))
qed (simp_all add: shift_sum_xor_left shift_sum_xor_right)

lemma shift_sum_assoc:
  assumes "degree_ok m" "in_field m a" "in_field m b" "in_field m c"
  shows "shift_sum m m (shift_sum m m a b) c = shift_sum m m a (shift_sum m m b c)"
proof (rule additive_ext [where m = m and f = "\<lambda>c. shift_sum m m (shift_sum m m a b) c" and
      g = "\<lambda>c. shift_sum m m a (shift_sum m m b c)", OF _ _ _ assms(4)])
  fix k assume "k < m"
  then show "shift_sum m m (shift_sum m m a b) (2 ^ k) = shift_sum m m a (shift_sum m m b (2 ^ k))"
    using assms by (simp add: shift_sum_exp shift_sum_xtime_pow_right)
qed (simp_all add: shift_sum_xor_right)

lemma one_in_field: "degree_ok m \<Longrightarrow> in_field m 1"
  by simp

text \<open>
  Every supported degree is a commutative ring: on reduced operands \<open>mul\<close> is commutative, associative,
  distributes over \<open>add\<close> and has unit 1, and the operations stay reduced.
\<close>

lemma clmul_in_field: "degree_ok m \<Longrightarrow> in_field m (clmul m a b)"
  by (simp add: clmul_shift_sum)

lemma clmul_field: "degree_ok m \<Longrightarrow> in_field m a \<Longrightarrow> in_field m b \<Longrightarrow> clmul m a b = shift_sum m m a b"
  by (simp add: clmul_shift_sum shift_sum_in_field)

lemma gf2m_ring:
  assumes "degree_ok m" "in_field m a" "in_field m b" "in_field m c"
  shows "clmul m a b = clmul m b a \<and> clmul m (clmul m a b) c = clmul m a (clmul m b c) \<and>
    clmul m a (gf_add m b c) = gf_add m (clmul m a b) (clmul m a c) \<and> clmul m 1 a = a \<and>
    in_field m (clmul m a b) \<and> in_field m (gf_add m a b)"
proof -
  have "shift_sum m m a b = shift_sum m m b a" "shift_sum m m (shift_sum m m a b) c = shift_sum m m a (shift_sum m m b c)"
    by (rule shift_sum_comm [OF assms(1-3)], rule shift_sum_assoc [OF assms])
  then show ?thesis
    using assms by (simp add: clmul_field shift_sum_in_field shift_sum_one_left gf_add_def take_bit_xor shift_sum_xor_right)
qed

section \<open>The field of bytes\<close>

text \<open>\<open>F256\<close> through its \<open>u8\<close> view, as \<open>fanos-primitives/src/shamir.rs\<close> uses it.\<close>

definition f256_mul :: "byte \<Rightarrow> byte \<Rightarrow> byte" where
  "f256_mul a b = ucast (clmul 8 (ucast a) (ucast b))"

definition f256_add :: "byte \<Rightarrow> byte \<Rightarrow> byte" where
  "f256_add a b = ucast (gf_add 8 (ucast a) (ucast b))"

definition f256_inv :: "byte \<Rightarrow> byte" where
  "f256_inv a = ucast (gf_inv 8 (ucast a))"

lemma ucast_in_field: "in_field 8 (ucast (a :: byte))"
  by (rule bit_eqI) (auto simp: bit_simps dest: bit_imp_le_length)

lemma ucast_byte_inverse: "in_field 8 w \<Longrightarrow> ucast (ucast w :: byte) = w" for w :: u32
proof (rule bit_eqI)
  fix n assume w: "in_field 8 w"
  then have "bit w n \<Longrightarrow> n < 8" by (metis bit_take_bit_iff)
  then show "bit (ucast (ucast w :: byte) :: u32) n \<longleftrightarrow> bit w n" by (auto simp: bit_simps dest: bit_imp_le_length)
qed

lemma byte_ucast_inverse [simp]: "ucast (ucast a :: u32) = (a :: byte)"
  by (rule bit_eqI) (auto simp: bit_simps)

lemma f256_add_xor: "f256_add a b = a XOR b"
  by (rule bit_eqI) (auto simp: f256_add_def gf_add_def bit_simps)

lemma f256_mul_ucast: "ucast (f256_mul a b) = clmul 8 (ucast a) (ucast b)"
  by (simp add: f256_mul_def ucast_byte_inverse clmul_in_field)

lemma f256_eqI: "(ucast a :: u32) = ucast b \<Longrightarrow> a = (b :: byte)"
  by (metis byte_ucast_inverse)

lemma f256_laws:
  "f256_mul a b = f256_mul b a" "f256_mul (f256_mul a b) c = f256_mul a (f256_mul b c)"
  "f256_mul a (b XOR c) = f256_mul a b XOR f256_mul a c" "f256_mul 1 a = a"
proof -
  note r = gf2m_ring [of 8 "ucast a" "ucast b" "ucast c", OF _ ucast_in_field ucast_in_field ucast_in_field]
  show "f256_mul a b = f256_mul b a" by (rule f256_eqI) (use r in \<open>simp add: f256_mul_ucast\<close>)
  show "f256_mul (f256_mul a b) c = f256_mul a (f256_mul b c)"
    by (rule f256_eqI) (use r [THEN conjunct2, THEN conjunct1] in \<open>simp add: f256_mul_ucast\<close>)
  have x: "ucast (b XOR c) = gf_add 8 (ucast b) (ucast c)" for b c :: byte
    by (rule bit_eqI) (auto simp: gf_add_def bit_simps dest: bit_imp_le_length)
  show "f256_mul a (b XOR c) = f256_mul a b XOR f256_mul a c"
    by (rule f256_eqI) (use r in \<open>simp add: x f256_mul_ucast\<close>)
  have "(ucast (1 :: byte) :: u32) = 1" by simp
  then show "f256_mul 1 a = a" by (intro f256_eqI) (use r in \<open>simp add: f256_mul_ucast\<close>)
qed

typedef f256 = "UNIV :: byte set"
  morphisms byte_of F256 ..

setup_lifting type_definition_f256

instantiation f256 :: comm_ring_1
begin

lift_definition zero_f256 :: f256 is 0 .
lift_definition one_f256 :: f256 is 1 .
lift_definition plus_f256 :: "f256 \<Rightarrow> f256 \<Rightarrow> f256" is f256_add .
lift_definition minus_f256 :: "f256 \<Rightarrow> f256 \<Rightarrow> f256" is f256_add .
lift_definition uminus_f256 :: "f256 \<Rightarrow> f256" is "\<lambda>a. a" .
lift_definition times_f256 :: "f256 \<Rightarrow> f256 \<Rightarrow> f256" is f256_mul .

instance
  by standard (transfer; simp add: f256_add_xor f256_laws xor.assoc xor.commute xor.left_commute;
    metis f256_laws xor.commute xor.assoc xor_self_eq)+

end

section \<open>Powers and inverses\<close>

lemma byte_of_times: "byte_of (a * b) = f256_mul (byte_of a) (byte_of b)"
  by transfer simp

lemma gf_pow_loop_power:
  "gf_pow_loop 8 (ucast (byte_of b)) e (ucast (byte_of acc)) = ucast (byte_of (acc * b ^ unat e))"
proof (induction "unat e" arbitrary: e b acc rule: less_induct)
  case less
  show ?case
  proof (cases "e = 0")
    case False
    let ?e = "drop_bit 1 e"
    have half: "unat ?e = unat e div 2" by (simp add: drop_bit_eq_div unat_div)
    have lt: "unat ?e < unat e" using False half by (simp add: unat_gt_0)
    have sq: "clmul 8 (ucast (byte_of b)) (ucast (byte_of b)) = ucast (byte_of (b * b))"
      and ml: "clmul 8 (ucast (byte_of acc)) (ucast (byte_of b)) = ucast (byte_of (acc * b))"
      by (simp_all add: byte_of_times f256_mul_ucast)
    have odd: "e AND 1 = 1 \<longleftrightarrow> odd (unat e)"
    proof -
      have "even (unat e) \<longleftrightarrow> even e" by transfer (simp add: even_nat_iff even_take_bit_eq)
      then show ?thesis by (simp add: and_one_eq odd_iff_mod_2_eq_one)
    qed
    have "gf_pow_loop 8 (ucast (byte_of b)) e (ucast (byte_of acc)) =
        gf_pow_loop 8 (ucast (byte_of (b * b))) ?e (ucast (byte_of (if odd (unat e) then acc * b else acc)))"
      using False by (subst gf_pow_loop.simps) (simp add: sq ml odd)
    also have "\<dots> = ucast (byte_of ((if odd (unat e) then acc * b else acc) * (b * b) ^ unat ?e))"
      by (rule less.hyps [OF lt])
    also have "(if odd (unat e) then acc * b else acc) * (b * b) ^ unat ?e = acc * b ^ unat e"
    proof -
      define n where "n = unat e div 2"
      have "(b * b) ^ n = b ^ (2 * n)" by (simp add: power_mult power2_eq_square)
      moreover have "unat e = (if odd (unat e) then Suc (2 * n) else 2 * n)" by (simp add: n_def)
      then have "b ^ unat e = b ^ (if odd (unat e) then Suc (2 * n) else 2 * n)" by (rule arg_cong)
      ultimately show ?thesis unfolding half n_def [symmetric] by (cases "odd (unat e)") (simp_all only: if_True if_False power_Suc ac_simps not_True_eq_False not_False_eq_True)
    qed
    finally show ?thesis .
  qed (simp add: gf_pow_loop.simps)
qed

lemma byte_of_one: "byte_of 1 = 1" and byte_of_zero: "byte_of 0 = 0"
  by (transfer; simp)+

lemma gf_pow_power: "gf_pow 8 (ucast (byte_of b)) e = ucast (byte_of (b ^ unat e))"
  using gf_pow_loop_power [of b e 1] by (simp add: gf_pow_def byte_of_one)

lemma byte_of_power: "byte_of (b ^ unat e) = ucast (gf_pow 8 (ucast (byte_of b)) e)"
  by (simp add: gf_pow_power)

definition gen :: f256 where "gen = F256 2"

lemma byte_of_gen: "byte_of gen = 2"
  by (simp add: gen_def F256_inverse)

lemma F256_times: "F256 a * F256 b = F256 (f256_mul a b)"
  by (metis byte_of_times byte_of_inverse F256_inverse UNIV_I)

lemma gen_powers: "gen ^ 255 = 1" "gen ^ 85 \<noteq> 1" "gen ^ 51 \<noteq> 1" "gen ^ 15 \<noteq> 1"
proof -
  have m: "f256_mul 2 2 = 4" "f256_mul 2 4 = 8" "f256_mul 2 8 = 16" "f256_mul 2 16 = 32" "f256_mul 32 32 = 116" "f256_mul 116 32 = 38"
    "f256_mul 38 4 = 152" "f256_mul 152 152 = 78" "f256_mul 78 152 = 10" "f256_mul 10 78 = 214"
    "f256_mul 10 10 = 68" "f256_mul 68 68 = 221" "f256_mul 221 10 = 1"
    by code_simp+
  have g5: "gen ^ 5 = F256 32" by (simp add: gen_def eval_nat_numeral F256_times m)
  have "gen ^ 15 = gen ^ 5 * gen ^ 5 * gen ^ 5" by (simp flip: power_add)
  then have g15: "gen ^ 15 = F256 38" by (simp add: g5 F256_times m)
  have "gen ^ 17 = gen ^ 15 * gen ^ 2" by (simp flip: power_add)
  moreover have "gen ^ 2 = F256 4" by (simp add: power2_eq_square gen_def F256_times m)
  ultimately have g17: "gen ^ 17 = F256 152" by (simp add: g15 F256_times m)
  have "gen ^ 51 = gen ^ 17 * gen ^ 17 * gen ^ 17" "gen ^ 85 = gen ^ 51 * (gen ^ 17 * gen ^ 17)"
    by (simp_all flip: power_add)
  then have g51: "gen ^ 51 = F256 10" and g85: "gen ^ 85 = F256 214" by (simp_all add: g17 F256_times m)
  have "gen ^ 255 = gen ^ 51 * gen ^ 51 * (gen ^ 51 * gen ^ 51) * gen ^ 51" by (simp flip: power_add)
  then have "gen ^ 255 = F256 1" by (simp add: g51 F256_times m)
  then show "gen ^ 255 = 1" "gen ^ 85 \<noteq> 1" "gen ^ 51 \<noteq> 1" "gen ^ 15 \<noteq> 1"
    by (simp_all add: one_f256_def g85 g51 g15 F256_inject)
qed

lemma gen_power_eq_1: "gen ^ d = 1 \<Longrightarrow> 255 dvd d"
proof -
  assume d: "gen ^ d = 1"
  let ?e = "gcd d 255"
  have mod: "gen ^ n = gen ^ (n mod 255)" for n
  proof -
    have "gen ^ n = gen ^ (255 * (n div 255) + n mod 255)" by simp
    then show ?thesis by (metis power_add power_mult gen_powers(1) power_one mult_1)
  qed
  have "gen ^ ?e = 1"
  proof (cases "d = 0")
    case True
    then show ?thesis by (simp add: gen_powers)
  next
    case False
    obtain x y where xy: "d * x = 255 * y + ?e" using bezout_nat [OF False, of 255] by blast
    have "gen ^ (d * x) = gen ^ (255 * y) * gen ^ ?e" unfolding xy by (rule power_add)
    then show ?thesis using d by (simp add: power_mult gen_powers(1))
  qed
  moreover have "?e \<in> {1, 3, 5, 15, 17, 51, 85, 255}"
  proof -
    have "?e dvd 255" by simp
    moreover have "list_all (\<lambda>k. k dvd 255 \<longrightarrow> k \<in> {1, 3, 5, 15, 17, 51, 85, 255}) [0..<256]" by code_simp
    moreover have "?e \<le> 255" by (rule dvd_imp_le) simp_all
    then have "?e \<in> set [0..<256]" unfolding set_upt atLeastLessThan_iff by linarith
    ultimately show ?thesis unfolding list_all_iff by blast
  qed
  moreover have "gen ^ (?e * j) = 1" if "gen ^ ?e = 1" for j using that by (simp add: power_mult)
  then have "?e * j \<notin> {85, 51, 15}" if "gen ^ ?e = 1" for j using that gen_powers by (metis empty_iff insert_iff)
  ultimately have no: "?e * 85 \<notin> {85}" "?e * 5 \<notin> {15}" "?e * 3 \<notin> {15, 51}" "?e * 1 \<notin> {15, 51, 85}"
    and mem: "?e \<in> {1, 3, 5, 15, 17, 51, 85, 255}" by blast+
  have "?e = 255" using mem no by auto
  then show ?thesis by (metis gcd_dvd1)
qed

lemma gen_cancel: "gen ^ i = gen ^ j \<Longrightarrow> i \<le> j \<Longrightarrow> gen ^ (j - i) = 1"
proof -
  assume eq: "gen ^ i = gen ^ j" and le: "i \<le> j"
  have "gen ^ i * gen ^ (254 * i) = gen ^ (255 * i)" by (simp add: power_add [symmetric])
  then have inv: "gen ^ i * gen ^ (254 * i) = 1" by (simp add: power_mult gen_powers(1))
  have "gen ^ (j - i) = gen ^ (j - i) * (gen ^ i * gen ^ (254 * i))" by (simp add: inv)
  also have "\<dots> = gen ^ j * gen ^ (254 * i)" using le by (simp add: mult.assoc [symmetric] power_add [symmetric] add.commute)
  also have "\<dots> = 1" using inv by (simp add: eq)
  finally show ?thesis .
qed

lemma UNIV_f256: "card (UNIV :: f256 set) = 256"
proof -
  have "card (UNIV :: f256 set) = card (UNIV :: byte set)"
    by (rule type_definition.card [OF type_definition_f256, symmetric] | rule type_definition.card [OF type_definition_f256])
  then show ?thesis by (simp add: card_word)
qed

lemma nonzero_is_power: "x \<noteq> 0 \<Longrightarrow> \<exists>k. x = gen ^ k" for x :: f256
proof -
  assume x: "x \<noteq> 0"
  have inj: "inj_on (\<lambda>k. gen ^ k) {..<255}"
  proof (rule linorder_inj_onI')
    fix i j :: nat assume "i \<in> {..<255}" "j \<in> {..<255}" "i < j"
    then show "gen ^ i \<noteq> gen ^ j"
      using gen_cancel [of i j] gen_power_eq_1 [of "j - i"] dvd_imp_le [of 255 "j - i"] by auto
  qed
  have nz: "gen ^ k \<noteq> 0" for k
  proof
    assume "gen ^ k = 0"
    then have "gen ^ (255 * k) = 0" by (cases "k = 0") (simp_all add: power_mult mult.commute [of 255] zero_power)
    then show False by (simp add: power_mult gen_powers(1))
  qed
  have fin: "finite (UNIV :: f256 set)" using UNIV_f256 by (simp add: card_ge_0_finite)
  have "(\<lambda>k. gen ^ k) ` {..<255} = UNIV - {0 :: f256}"
    by (rule card_subset_eq) (use fin nz card_image [OF inj] UNIV_f256 in \<open>auto simp: card_Diff_singleton\<close>)
  then show ?thesis using x by blast
qed

lemma fermat: "x \<noteq> 0 \<Longrightarrow> x ^ 254 * x = 1" for x :: f256
proof -
  assume "x \<noteq> 0"
  then obtain k where "x = gen ^ k" using nonzero_is_power by blast
  then have "x ^ 255 = 1" by (metis gen_powers(1) mult.commute power_mult power_one)
  moreover have "x ^ 255 = x ^ 254 * x" by (simp flip: power_Suc2)
  ultimately show ?thesis by simp
qed

lemma f256_inv_power: "F256 (f256_inv (byte_of x)) = x ^ 254"
proof -
  have "gf_inv 8 (ucast (byte_of x)) = ucast (byte_of (x ^ unat (254 :: u64)))"
    unfolding gf_inv_def by (simp add: gf_pow_power [of x 254, simplified])
  then show ?thesis by (simp add: f256_inv_def byte_of_inverse)
qed

instantiation f256 :: field
begin

lift_definition inverse_f256 :: "f256 \<Rightarrow> f256" is f256_inv .
definition divide_f256 :: "f256 \<Rightarrow> f256 \<Rightarrow> f256" where "divide_f256 a b = a * inverse b"

instance
proof (standard, goal_cases)
  case (1 a)
  then show ?case using fermat [of a] f256_inv_power [of a] by (simp add: inverse_f256_def)
next
  case (2 a b)
  then show ?case by (rule divide_f256_def)
next
  case 3
  then show ?case using f256_inv_power [of 0] by (simp add: inverse_f256_def)
qed

end

end
