(* ===== verification/Shamir.thy ===== *)
theory Shamir
  imports Field_Gf2m
begin

text \<open>
  Shamir secret sharing over the field of bytes (\<open>fanos-primitives/src/shamir.rs\<close>): \<open>split\<close> evaluates one
  polynomial per byte of the secret, \<open>reconstruct\<close> interpolates at zero. The theory of polynomials it needs
  is developed on Horner evaluation: synthetic division, the root bound, and Lagrange interpolation. From
  them: any threshold of shares gives back the secret, and fewer give nothing at all.
\<close>

section \<open>The operations\<close>

record share =
  sh_x :: byte
  sh_y :: "byte list"

datatype shamir_error = BadThreshold | BadShareCount | InsufficientRandomness | BadShares

text \<open>The Horner loop of \<open>split\<close> for byte \<open>i\<close> of a secret of \<open>n\<close> bytes, over the coefficient indices left.\<close>

fun split_horner :: "byte list \<Rightarrow> nat \<Rightarrow> nat \<Rightarrow> byte \<Rightarrow> nat list \<Rightarrow> byte \<Rightarrow> shamir_error + byte" where
  "split_horner randomness n i x [] acc = Inr acc"
| "split_horner randomness n i x (c # cs) acc =
     (if c * n + i < length randomness
      then split_horner randomness n i x cs (f256_add (f256_mul acc x) (randomness ! (c * n + i)))
      else Inl InsufficientRandomness)"

fun mapR :: "('a \<Rightarrow> 'e + 'b) \<Rightarrow> 'a list \<Rightarrow> 'e + 'b list" where
  "mapR f [] = Inr []"
| "mapR f (x # xs) = bindR (f x) (\<lambda>y. bindR (mapR f xs) (\<lambda>ys. Inr (y # ys)))"

definition split_share :: "byte list \<Rightarrow> nat \<Rightarrow> byte list \<Rightarrow> byte \<Rightarrow> shamir_error + share" where
  "split_share secret degree randomness x =
     bindR (mapR (\<lambda>i. bindR (split_horner randomness (length secret) i x [0..<degree] 0)
                        (\<lambda>acc. Inr (f256_add (f256_mul acc x) (secret ! i)))) [0..<length secret])
       (\<lambda>y. Inr \<lparr>sh_x = x, sh_y = y\<rparr>)"

definition shamir_split :: "byte list \<Rightarrow> byte \<Rightarrow> byte \<Rightarrow> byte list \<Rightarrow> shamir_error + share list" where
  "shamir_split secret threshold shares randomness =
     (if threshold = 0 \<or> threshold > shares then Inl BadThreshold
      else if shares = 0 then Inl BadShareCount
      else let degree = unat (threshold - 1)
           in if length randomness < degree * length secret then Inl InsufficientRandomness
              else mapR (split_share secret degree randomness) (map word_of_nat [1..<unat shares + 1]))"

text \<open>The Lagrange basis at zero, as the two running products of \<open>reconstruct\<close>.\<close>

definition lagrange_coeff :: "byte list \<Rightarrow> nat \<Rightarrow> byte" where
  "lagrange_coeff xs j =
     (let (num, den) = fold (\<lambda>m (num, den). if m = j then (num, den)
                               else (f256_mul num (xs ! m), f256_mul den (f256_add (xs ! m) (xs ! j))))
                         [0..<length xs] (1, 1)
      in f256_mul num (f256_inv den))"

fun has_duplicate :: "byte list \<Rightarrow> bool" where
  "has_duplicate [] = False"
| "has_duplicate (x # xs) = (x \<in> set xs \<or> has_duplicate xs)"

text \<open>The accumulation \<open>*out = add(*out, mul(coeff, y))\<close> over one share.\<close>

definition add_scaled :: "byte \<Rightarrow> byte list \<Rightarrow> byte list \<Rightarrow> byte list" where
  "add_scaled coeff y out = map2 (\<lambda>o' yi. f256_add o' (f256_mul coeff yi)) out y"

definition shamir_reconstruct :: "share list \<Rightarrow> shamir_error + byte list" where
  "shamir_reconstruct shares =
     (case shares of
        [] \<Rightarrow> Inl BadShares
      | first # _ \<Rightarrow>
          let len = length (sh_y first)
          in if list_ex (\<lambda>s. length (sh_y s) \<noteq> len \<or> sh_x s = 0) shares then Inl BadShares
             else if has_duplicate (map sh_x shares) then Inl BadShares
             else Inr (fold (\<lambda>j. add_scaled (lagrange_coeff (map sh_x shares) j) (sh_y (shares ! j)))
                         [0..<length shares] (replicate len 0)))"

definition combine_contributions :: "byte \<Rightarrow> share list \<Rightarrow> byte list \<Rightarrow> shamir_error + share" where
  "combine_contributions new_x contributions old_xs =
     (if new_x = 0 \<or> contributions = [] \<or> length contributions \<noteq> length old_xs then Inl BadShares
      else let len = length (sh_y (hd contributions))
           in if list_ex (\<lambda>c. length (sh_y c) \<noteq> len) contributions \<or> 0 \<in> set old_xs then Inl BadShares
              else if has_duplicate old_xs then Inl BadShares
              else Inr \<lparr>sh_x = new_x,
                        sh_y = fold (\<lambda>k. add_scaled (lagrange_coeff old_xs k) (sh_y (contributions ! k)))
                                 [0..<length contributions] (replicate len 0)\<rparr>)"

section \<open>Polynomials by Horner evaluation\<close>

lemma f256_minus: "a - b = b - a" "- a = a" for a b :: f256
  by (transfer; simp add: f256_add_xor xor.commute)+

definition hval :: "f256 list \<Rightarrow> f256 \<Rightarrow> f256" where
  "hval cs x = foldl (\<lambda>acc c. acc * x + c) 0 cs"

lemma hval_Nil [simp]: "hval [] x = 0"
  by (simp add: hval_def)

lemma hval_snoc [simp]: "hval (cs @ [c]) x = hval cs x * x + c"
  by (simp add: hval_def)

lemma hval_zeros: "hval (replicate n 0) x = 0"
proof (induction n)
  case (Suc n)
  have "replicate (Suc n) (0 :: f256) = replicate n 0 @ [0]" by (simp add: replicate_append_same)
  then show ?case using Suc by (simp only: hval_snoc) simp
qed simp

lemma hval_add: "length cs = length ds \<Longrightarrow> hval (map2 (+) cs ds) x = hval cs x + hval ds x"
proof (induction cs arbitrary: ds rule: rev_induct)
  case (snoc c cs)
  then obtain ds' d where "ds = ds' @ [d]" by (cases ds rule: rev_cases) auto
  with snoc show ?case by (simp add: algebra_simps)
qed simp

lemma hval_scale: "hval (map ((*) k) cs) x = k * hval cs x"
  by (induction cs rule: rev_induct) (simp_all add: algebra_simps)

lemma hval_Cons0: "hval (0 # cs) x = hval cs x"
  by (simp add: hval_def)

text \<open>The functions a polynomial with \<open>n\<close> coefficients computes.\<close>

definition polys :: "nat \<Rightarrow> (f256 \<Rightarrow> f256) set" where
  "polys n = {f. \<exists>cs. length cs = n \<and> (\<forall>x. f x = hval cs x)}"

lemma polysI: "length cs = n \<Longrightarrow> (\<And>x. f x = hval cs x) \<Longrightarrow> f \<in> polys n"
  by (auto simp: polys_def)

lemma polys_add: "f \<in> polys n \<Longrightarrow> g \<in> polys n \<Longrightarrow> (\<lambda>x. f x + g x) \<in> polys n"
  by (auto simp: polys_def) (metis (no_types) hval_add length_map length_zip min.idem)

lemma polys_scale: "f \<in> polys n \<Longrightarrow> (\<lambda>x. k * f x) \<in> polys n"
  by (auto simp: polys_def) (metis hval_scale length_map)

lemma polys_zero: "(\<lambda>x. 0) \<in> polys n"
  by (rule polysI [of "replicate n 0"]) (simp_all add: hval_zeros)

lemma polys_one: "(\<lambda>x. 1) \<in> polys (Suc 0)"
  by (rule polysI [of "[1]"]) (simp_all add: hval_def)

lemma polys_linear:
  assumes "f \<in> polys n"
  shows "(\<lambda>x. f x * (x - a)) \<in> polys (Suc n)"
proof -
  obtain cs where cs: "length cs = n" "\<And>x. f x = hval cs x" using assms by (auto simp: polys_def)
  have "(\<lambda>x. hval (cs @ [0]) x + (- a) * hval (0 # cs) x) \<in> polys (Suc n)"
    using cs(1) by (intro polys_add polys_scale; intro polysI [OF _ refl]) simp_all
  then show ?thesis by (simp add: hval_Cons0 cs(2) algebra_simps)
qed

lemma polys_sum: "(\<And>j. j \<in> A \<Longrightarrow> f j \<in> polys n) \<Longrightarrow> (\<lambda>x. \<Sum>j \<in> A. f j x) \<in> polys n"
  by (induction A rule: infinite_finite_induct) (auto simp: polys_zero intro: polys_add)

lemma polys_prod: "finite A \<Longrightarrow> (\<lambda>x. \<Prod>a \<in> A. x - a) \<in> polys (Suc (card A))"
proof (induction A rule: finite_induct)
  case (insert a A)
  then show ?case using polys_linear [of "\<lambda>x. \<Prod>a \<in> A. x - a" "Suc (card A)" a] by (simp add: mult.commute)
qed (simp add: polys_one)

lemma horner_step: "(u * (x - a) + v) * x + c = (u * x + v) * (x - a) + (v * a + c)" for u v x a c :: "'a::comm_ring"
  by (simp add: algebra_simps)

lemma synthetic_division:
  "\<exists>qs. length qs = length cs - 1 \<and> (\<forall>x. hval cs x = hval qs x * (x - a) + hval cs a) \<and>
     (set qs \<subseteq> {0} \<and> hval cs a = 0 \<longrightarrow> set cs \<subseteq> {0})"
proof (induction cs rule: rev_induct)
  case (snoc c cs)
  show ?case
  proof (cases "cs = []")
    case False
    obtain qs where q: "length qs = length cs - 1" "\<And>x. hval cs x = hval qs x * (x - a) + hval cs a"
      "set qs \<subseteq> {0} \<Longrightarrow> hval cs a = 0 \<Longrightarrow> set cs \<subseteq> {0}" using snoc by blast
    show ?thesis
    proof (intro exI [of _ "qs @ [hval cs a]"] conjI allI impI)
      show "hval (cs @ [c]) x = hval (qs @ [hval cs a]) x * (x - a) + hval (cs @ [c]) a" for x
        unfolding hval_snoc q(2) [of x] by (rule horner_step)
      show "set (cs @ [c]) \<subseteq> {0}" if "set (qs @ [hval cs a]) \<subseteq> {0} \<and> hval (cs @ [c]) a = 0"
        using that q(3) by auto
    qed (use q(1) False in simp)
  qed (simp add: hval_def)
qed simp

lemma too_many_roots:
  assumes "finite A" "length cs \<le> card A" "\<And>a. a \<in> A \<Longrightarrow> hval cs a = 0"
  shows "set cs \<subseteq> {0}"
  using assms
proof (induction "length cs" arbitrary: cs A)
  case (Suc n)
  then obtain a where a: "a \<in> A" by fastforce
  obtain qs where q: "length qs = length cs - 1" "\<And>x. hval cs x = hval qs x * (x - a) + hval cs a"
    "set qs \<subseteq> {0} \<Longrightarrow> hval cs a = 0 \<Longrightarrow> set cs \<subseteq> {0}" using synthetic_division [of cs a] by blast
  have "hval qs b = 0" if "b \<in> A - {a}" for b
    using q(2) [of b] Suc.prems(3) [of b] Suc.prems(3) [OF a] that by simp
  then have "set qs \<subseteq> {0}"
    using Suc a q(1) by (intro Suc.hyps(1) [of qs "A - {a}"]) auto
  then show ?case using q(3) Suc.prems(3) [OF a] by blast
qed simp

lemma hval_all_zero: "set cs \<subseteq> {0} \<Longrightarrow> hval cs x = 0"
  by (induction cs rule: rev_induct) auto

lemma poly_eq_on:
  assumes "f \<in> polys n" "g \<in> polys n" "finite A" "n \<le> card A" "\<And>a. a \<in> A \<Longrightarrow> f a = g a"
  shows "f x = g x"
proof -
  have "(\<lambda>x. f x + (- 1) * g x) \<in> polys n" by (intro polys_add polys_scale assms)
  then obtain cs where cs: "length cs = n" "\<And>x. f x - g x = hval cs x" by (auto simp: polys_def)
  have "hval cs a = 0" if "a \<in> A" for a using cs(2) [of a] assms(5) [OF that] by simp
  then have "set cs \<subseteq> {0}" using too_many_roots [OF assms(3), of cs] cs(1) assms(4) by blast
  then show ?thesis using cs(2) [of x] hval_all_zero by simp
qed

lemma polys_mono:
  assumes "f \<in> polys n" "n \<le> m"
  shows "f \<in> polys m"
proof -
  obtain cs where cs: "length cs = n" "\<And>x. f x = hval cs x" using assms(1) by (auto simp: polys_def)
  have "hval (replicate k 0 @ cs) x = hval cs x" for k x by (induction k) (simp_all add: hval_Cons0)
  then show ?thesis using cs assms(2) by (intro polysI [of "replicate (m - n) 0 @ cs"]) simp_all
qed

text \<open>Lagrange interpolation at zero, over the points themselves.\<close>

lemma interpolation_at_zero:
  assumes "finite A" "f \<in> polys n" "n \<le> card A"
  shows "(\<Sum>a \<in> A. (\<Prod>b \<in> A - {a}. b) * inverse (\<Prod>b \<in> A - {a}. b - a) * f a) = f 0"
proof -
  define basis where "basis a x = (\<Prod>b \<in> A - {a}. x - b) * inverse (\<Prod>b \<in> A - {a}. a - b)" for a x
  have basis: "(\<lambda>x. f a * basis a x) \<in> polys (card A)" if "a \<in> A" for a
  proof -
    have "(\<lambda>x. \<Prod>b \<in> A - {a}. x - b) \<in> polys (card A)"
      using polys_prod [of "A - {a}"] card_Suc_Diff1 [OF assms(1) that] assms(1) by simp
    then have "(\<lambda>x. (f a * inverse (\<Prod>b \<in> A - {a}. a - b)) * (\<Prod>b \<in> A - {a}. x - b)) \<in> polys (card A)"
      by (rule polys_scale)
    then show ?thesis by (simp only: basis_def mult.assoc mult.commute mult.left_commute)
  qed
  have "basis a c = (if c = a then 1 else 0)" if "a \<in> A" "c \<in> A" for a c
  proof (cases "c = a")
    case True
    have "(\<Prod>b \<in> A - {a}. a - b) \<noteq> 0" using assms(1) by simp
    then show ?thesis by (simp add: True basis_def)
  next
    case False
    then have "(\<Prod>b \<in> A - {a}. c - b) = 0" using assms(1) that by (intro prod_zero) auto
    then show ?thesis by (simp add: False basis_def)
  qed
  then have "(\<Sum>a \<in> A. f a * basis a c) = (\<Sum>a \<in> A. if c = a then f a else 0)" if "c \<in> A" for c
    using that by (intro sum.cong) auto
  then have "(\<Sum>a \<in> A. f a * basis a c) = f c" if "c \<in> A" for c using that assms(1) by simp
  then have "(\<Sum>a \<in> A. f a * basis a 0) = f 0"
    by (intro poly_eq_on [of "\<lambda>x. \<Sum>a \<in> A. f a * basis a x" "card A" f A 0])
      (use assms basis in \<open>auto intro: polys_sum polys_mono\<close>)
  moreover have "basis a 0 = (\<Prod>b \<in> A - {a}. b) * inverse (\<Prod>b \<in> A - {a}. b - a)" for a
    by (simp add: basis_def f256_minus)
  ultimately show ?thesis by (simp add: ac_simps)
qed

section \<open>What the code computes\<close>

lemma F256_ops [simp]:
  "F256 (f256_add a b) = F256 a + F256 b" "F256 (f256_mul a b) = F256 a * F256 b"
  "F256 (f256_inv a) = inverse (F256 a)" "F256 0 = 0" "F256 1 = 1"
  by (simp_all add: plus_f256.abs_eq times_f256.abs_eq inverse_f256.abs_eq zero_f256.abs_eq one_f256.abs_eq)

lemma F256_eq_iff [simp]: "F256 a = F256 b \<longleftrightarrow> a = b"
  by (simp add: F256_inject)

definition coeffs :: "byte list \<Rightarrow> nat \<Rightarrow> nat \<Rightarrow> nat \<Rightarrow> f256 list" where
  "coeffs rnd n degree i = map (\<lambda>c. F256 (rnd ! (c * n + i))) [0..<degree]"

lemma split_horner_eval:
  assumes "\<forall>c \<in> set cs. c * n + i < length rnd"
  shows "split_horner rnd n i x cs acc =
    Inr (byte_of (foldl (\<lambda>a c. a * F256 x + F256 (rnd ! (c * n + i))) (F256 acc) cs))"
  using assms
proof (induction cs arbitrary: acc)
  case Nil
  then show ?case by (simp add: F256_inverse)
qed simp

lemma split_byte:
  assumes "i < n" "degree * n \<le> length rnd"
  shows "split_horner rnd n i x [0..<degree] 0 = Inr (byte_of (hval (coeffs rnd n degree i) (F256 x)))"
proof -
  have "c * n + i < length rnd" if "c < degree" for c
  proof -
    have "c * n + i < Suc c * n" using assms(1) by simp
    also have "\<dots> \<le> degree * n" using that by (intro mult_le_mono1) simp
    finally show ?thesis using assms(2) by simp
  qed
  then show ?thesis by (subst split_horner_eval) (auto simp: hval_def coeffs_def foldl_map)
qed

lemma mapR_Inr: "(\<And>x. x \<in> set xs \<Longrightarrow> f x = Inr (g x)) \<Longrightarrow> mapR f xs = Inr (map g xs)"
  by (induction xs) auto

definition share_at :: "byte list \<Rightarrow> nat \<Rightarrow> byte list \<Rightarrow> byte \<Rightarrow> share" where
  "share_at secret degree rnd x = \<lparr>sh_x = x,
     sh_y = map (\<lambda>i. byte_of (hval (coeffs rnd (length secret) degree i @ [F256 (secret ! i)]) (F256 x))) [0..<length secret]\<rparr>"

lemma split_share_eval:
  assumes "degree * length secret \<le> length rnd"
  shows "split_share secret degree rnd x = Inr (share_at secret degree rnd x)"
proof -
  have "mapR (\<lambda>i. bindR (split_horner rnd (length secret) i x [0..<degree] 0)
      (\<lambda>acc. Inr (f256_add (f256_mul acc x) (secret ! i)))) [0..<length secret] = Inr (sh_y (share_at secret degree rnd x))"
    unfolding share_at_def share.simps
  proof (rule mapR_Inr)
    fix i assume "i \<in> set [0..<length secret]"
    then have "split_horner rnd (length secret) i x [0..<degree] 0 = Inr (byte_of (hval (coeffs rnd (length secret) degree i) (F256 x)))"
      using assms by (intro split_byte) auto
    moreover have "f256_add (f256_mul (byte_of v) x) s = byte_of (v * F256 x + F256 s)" for v s
      by (metis F256_ops(1,2) F256_inverse UNIV_I byte_of_inverse)
    ultimately show "bindR (split_horner rnd (length secret) i x [0..<degree] 0) (\<lambda>acc. Inr (f256_add (f256_mul acc x) (secret ! i))) =
        Inr (byte_of (hval (coeffs rnd (length secret) degree i @ [F256 (secret ! i)]) (F256 x)))" by simp
  qed
  then show ?thesis by (simp add: split_share_def share_at_def)
qed

lemma shamir_split_Inr:
  "shamir_split secret t n rnd = Inr shs \<longleftrightarrow>
     t \<noteq> 0 \<and> t \<le> n \<and> unat (t - 1) * length secret \<le> length rnd \<and>
     shs = map (\<lambda>x. share_at secret (unat (t - 1)) rnd (word_of_nat x)) [1..<unat n + 1]"
proof -
  have "mapR (split_share secret (unat (t - 1)) rnd) (map word_of_nat [1..<unat n + 1]) =
      Inr (map (\<lambda>x. share_at secret (unat (t - 1)) rnd (word_of_nat x)) [1..<unat n + 1])"
    if "unat (t - 1) * length secret \<le> length rnd"
    using mapR_Inr [of "map word_of_nat [1..<unat n + 1]" "split_share secret (unat (t - 1)) rnd"
        "share_at secret (unat (t - 1)) rnd"] split_share_eval [OF that] by (simp add: comp_def)
  then show ?thesis by (auto simp: shamir_split_def Let_def not_less)
qed

section \<open>Reconstruction\<close>

lemma has_duplicate_iff [simp]: "has_duplicate xs \<longleftrightarrow> \<not> distinct xs"
  by (induction xs) auto

lemma lagrange_fold:
  assumes "fold (\<lambda>m (num, den). if m = j then (num, den)
        else (f256_mul num (xs ! m), f256_mul den (f256_add (xs ! m) (xs ! j)))) ms (n0, d0) = (num, den)"
    and "distinct ms"
  shows "F256 num = F256 n0 * (\<Prod>m \<in> set ms - {j}. F256 (xs ! m)) \<and>
    F256 den = F256 d0 * (\<Prod>m \<in> set ms - {j}. F256 (xs ! m) - F256 (xs ! j))"
  using assms
proof (induction ms arbitrary: n0 d0)
  case (Cons m ms)
  have minus: "a + b = a - b" for a b :: f256 using f256_minus(2) [of b] by (simp add: diff_conv_add_uminus del: add_uminus_conv_diff)
  show ?case
  proof (cases "m = j")
    case True
    then have "set (m # ms) - {j} = set ms - {j}" by auto
    then show ?thesis using Cons True by simp
  next
    case False
    then have "set (m # ms) - {j} = insert m (set ms - {j})" "m \<notin> set ms - {j}" using Cons.prems(2) by auto
    then show ?thesis using Cons.IH [of "f256_mul n0 (xs ! m)" "f256_mul d0 (f256_add (xs ! m) (xs ! j))"] Cons.prems False
      by (simp add: mult.assoc minus)
  qed
qed simp

lemma image_nth: "(\<lambda>m. f (xs ! m)) ` {0..<length xs} = f ` set xs"
  using nth_image [of "length xs" xs] by (metis image_image order_refl take_all_iff)

lemma image_nth_remove:
  assumes "distinct (map f xs)" "j < length xs"
  shows "(\<lambda>m. f (xs ! m)) ` ({0..<length xs} - {j}) = f ` set xs - {f (xs ! j)}"
proof -
  have "inj_on (\<lambda>m. f (xs ! m)) {0..<length xs}"
    using assms(1) by (intro inj_onI) (metis atLeastLessThan_iff length_map nth_eq_iff_index_eq nth_map)
  then have "(\<lambda>m. f (xs ! m)) ` ({0..<length xs} - {j}) = (\<lambda>m. f (xs ! m)) ` {0..<length xs} - (\<lambda>m. f (xs ! m)) ` {j}"
    by (rule inj_on_image_set_diff) (use assms(2) in auto)
  then show ?thesis by (simp add: image_nth)
qed

lemma lagrange_coeff_eval:
  assumes "distinct xs" "j < length xs"
  defines "A \<equiv> F256 ` set xs" and "a \<equiv> F256 (xs ! j)"
  shows "F256 (lagrange_coeff xs j) = (\<Prod>b \<in> A - {a}. b) * inverse (\<Prod>b \<in> A - {a}. b - a)"
proof -
  obtain num den where f: "fold (\<lambda>m (num, den). if m = j then (num, den)
        else (f256_mul num (xs ! m), f256_mul den (f256_add (xs ! m) (xs ! j)))) [0..<length xs] (1, 1) = (num, den)"
    by fastforce
  have inj: "inj_on (\<lambda>m. F256 (xs ! m)) ({0..<length xs} - {j})"
    using assms(1) by (auto simp: inj_on_def nth_eq_iff_index_eq)
  have img: "(\<lambda>m. F256 (xs ! m)) ` ({0..<length xs} - {j}) = A - {a}"
    using image_nth_remove [of F256 xs j] assms(1,2) by (simp add: A_def a_def distinct_map inj_on_def)
  have "F256 num = (\<Prod>b \<in> A - {a}. b)" "F256 den = (\<Prod>b \<in> A - {a}. b - a)"
    using lagrange_fold [OF f] unfolding img [symmetric] prod.reindex [OF inj] by (simp_all add: comp_def a_def)
  then show ?thesis by (simp add: lagrange_coeff_def f)
qed

lemma fold_add_scaled:
  assumes "i < n" "length out = n" "\<forall>j \<in> set js. length (y j) = n"
  shows "length (fold (\<lambda>j. add_scaled (c j) (y j)) js out) = n \<and>
    F256 (fold (\<lambda>j. add_scaled (c j) (y j)) js out ! i) = F256 (out ! i) + (\<Sum>j \<leftarrow> js. F256 (c j) * F256 (y j ! i))"
  using assms(2,3)
proof (induction js arbitrary: out)
  case (Cons j js)
  have "length (add_scaled (c j) (y j) out) = n" "add_scaled (c j) (y j) out ! i = f256_add (out ! i) (f256_mul (c j) (y j ! i))"
    using Cons.prems assms(1) by (simp_all add: add_scaled_def)
  then show ?case using Cons.IH [of "add_scaled (c j) (y j) out"] Cons.prems by (simp add: add.assoc)
qed simp

lemma length_fold_add_scaled:
  assumes "length out = n" "\<forall>j \<in> set js. length (y j) = n"
  shows "length (fold (\<lambda>j. add_scaled (c j) (y j)) js out) = n"
  using assms by (induction js arbitrary: out) (auto simp: add_scaled_def)

lemma reconstruct_interpolates:
  assumes "shs \<noteq> []" "distinct (map sh_x shs)" "0 \<notin> sh_x ` set shs" "\<forall>s \<in> set shs. length (sh_y s) = len"
    and "\<And>i. i < len \<Longrightarrow> f i \<in> polys n" "n \<le> length shs"
    and "\<And>i s. i < len \<Longrightarrow> s \<in> set shs \<Longrightarrow> F256 (sh_y s ! i) = f i (F256 (sh_x s))"
  shows "shamir_reconstruct shs = Inr (map (\<lambda>i. byte_of (f i 0)) [0..<len])"
proof -
  let ?xs = "map sh_x shs" and ?A = "F256 ` sh_x ` set shs"
  let ?out = "fold (\<lambda>j. add_scaled (lagrange_coeff ?xs j) (sh_y (shs ! j))) [0..<length shs] (replicate len 0)"
  have r: "shamir_reconstruct shs = Inr ?out"
    using assms(1-4) by (cases shs) (auto simp: shamir_reconstruct_def Let_def list_ex_iff)
  have ls: "\<forall>j \<in> set [0..<length shs]. length (sh_y (shs ! j)) = len" using assms(4) by simp
  have inj: "inj_on (\<lambda>j. F256 (sh_x (shs ! j))) {0..<length shs}"
    using assms(2) by (auto simp: inj_on_def distinct_map) (metis (no_types, lifting) assms(2) length_map nth_eq_iff_index_eq nth_map)
  have img: "(\<lambda>j. F256 (sh_x (shs ! j))) ` {0..<length shs} = ?A"
    using image_nth [of "\<lambda>s. F256 (sh_x s)" shs] by (simp add: image_image)
  have card: "card ?A = length shs" using card_image [OF inj] by (simp add: img)
  have nth: "F256 (?out ! i) = f i 0" if i: "i < len" for i
  proof -
    let ?g = "\<lambda>a. (\<Prod>b \<in> ?A - {a}. b) * inverse (\<Prod>b \<in> ?A - {a}. b - a) * f i a"
    have "F256 (?out ! i) = (\<Sum>j \<leftarrow> [0..<length shs]. F256 (lagrange_coeff ?xs j) * F256 (sh_y (shs ! j) ! i))"
      using fold_add_scaled [OF i _ ls, of "replicate len 0"] i by simp
    also have "\<dots> = (\<Sum>j \<leftarrow> [0..<length shs]. ?g (F256 (sh_x (shs ! j))))"
      by (rule arg_cong [where f = sum_list], rule map_cong [OF refl])
        (use assms(2,7) i lagrange_coeff_eval [OF assms(2)] in \<open>auto simp: image_image\<close>)
    also have "\<dots> = (\<Sum>j = 0..<length shs. ?g (F256 (sh_x (shs ! j))))"
      by (simp add: interv_sum_list_conv_sum_set_nat)
    also have "\<dots> = (\<Sum>a \<in> ?A. ?g a)" by (simp add: img [symmetric] sum.reindex [OF inj])
    also have "\<dots> = f i 0" by (rule interpolation_at_zero [OF _ assms(5) [OF i]]) (use card assms(6) in auto)
    finally show ?thesis .
  qed
  have "length ?out = len" using length_fold_add_scaled [OF _ ls] by simp
  moreover have "?out ! i = byte_of (f i 0)" if "i < len" for i
    by (simp only: nth [OF that, symmetric] F256_inverse UNIV_I)
  ultimately have "?out = map (\<lambda>i. byte_of (f i 0)) [0..<len]" by (intro nth_equalityI) simp_all
  then show ?thesis using r by simp
qed

lemma share_at_simps [simp]:
  "sh_x (share_at secret d rnd x) = x" "length (sh_y (share_at secret d rnd x)) = length secret"
  "i < length secret \<Longrightarrow> F256 (sh_y (share_at secret d rnd x) ! i) =
     hval (coeffs rnd (length secret) d i @ [F256 (secret ! i)]) (F256 x)"
  by (simp_all add: share_at_def byte_of_inverse)

lemma word_of_nat_inj: "a < 256 \<Longrightarrow> b < 256 \<Longrightarrow> (word_of_nat a :: byte) = word_of_nat b \<longleftrightarrow> a = b"
  by (metis unat_word_of_nat_byte mod_less)

lemma split_points:
  assumes "shamir_split secret t n rnd = Inr shs" "distinct is" "set is \<subseteq> {..<length shs}"
  shows "length shs = unat n" "Suc (unat (t - 1)) = unat t"
    and "i \<in> set is \<Longrightarrow> shs ! i = share_at secret (unat (t - 1)) rnd (word_of_nat (Suc i))"
    and "distinct (map (\<lambda>i. word_of_nat (Suc i) :: byte) is)" "0 \<notin> set (map (\<lambda>i. word_of_nat (Suc i) :: byte) is)"
proof -
  have t: "t \<noteq> 0" and shs: "shs = map (\<lambda>x. share_at secret (unat (t - 1)) rnd (word_of_nat x)) [1..<unat n + 1]"
    using assms(1) by (simp_all add: shamir_split_Inr)
  show "Suc (unat (t - 1)) = unat t" using t by (simp add: unat_sub word_le_nat_alt unat_gt_0 Suc_le_eq)
  have n: "unat n < 256" using unat_lt [of n] by simp
  show len: "length shs = unat n" by (simp add: shs del: upt_Suc)
  show "i \<in> set is \<Longrightarrow> shs ! i = share_at secret (unat (t - 1)) rnd (word_of_nat (Suc i))"
    using assms(3) unfolding len by (subst shs, subst nth_map_upt) auto
  have small: "i \<in> set is \<Longrightarrow> Suc i < 256" for i using assms(3) n by (auto simp: len)
  show "distinct (map (\<lambda>i. word_of_nat (Suc i) :: byte) is)"
    unfolding distinct_map
  proof (intro conjI inj_onI assms(2))
    fix x y assume "x \<in> set is" "y \<in> set is" "(word_of_nat (Suc x) :: byte) = word_of_nat (Suc y)"
    then show "x = y" using word_of_nat_inj [OF small small, of x y] by blast
  qed
  have "word_of_nat (Suc i) \<noteq> (0 :: byte)" if "i \<in> set is" for i
    using word_of_nat_inj [OF small [OF that], of 0] by simp
  then show "0 \<notin> set (map (\<lambda>i. word_of_nat (Suc i) :: byte) is)" by force
qed

lemma reconstruct_split:
  assumes "shamir_split secret t n rnd = Inr shs" "distinct is" "set is \<subseteq> {..<length shs}" "unat t \<le> length is"
  shows "shamir_reconstruct (map (\<lambda>i. shs ! i) is) = Inr secret"
proof -
  let ?d = "unat (t - 1)" and ?s = "map (\<lambda>i. shs ! i) is"
  note pts = split_points [OF assms(1-3)]
  have xs: "map sh_x ?s = map (\<lambda>i. word_of_nat (Suc i)) is" using pts(3) by simp
  have "shamir_reconstruct ?s = Inr (map (\<lambda>i. byte_of (hval (coeffs rnd (length secret) ?d i @ [F256 (secret ! i)]) 0)) [0..<length secret])"
  proof (rule reconstruct_interpolates [where n = "unat t"])
    show "?s \<noteq> []" using assms(4) pts(2) by auto
    show "distinct (map sh_x ?s)" unfolding xs by (rule pts(4))
    show "0 \<notin> sh_x ` set ?s" using pts(5) unfolding xs [symmetric] by (simp add: image_image)
    show "\<forall>s \<in> set ?s. length (sh_y s) = length secret" using pts(3) by auto
    show "unat t \<le> length ?s" using assms(4) by simp
    show "hval (coeffs rnd (length secret) ?d i @ [F256 (secret ! i)]) \<in> polys (unat t)" for i
      by (rule polysI [OF _ refl]) (simp add: coeffs_def pts(2))
    show "F256 (sh_y s ! i) = hval (coeffs rnd (length secret) ?d i @ [F256 (secret ! i)]) (F256 (sh_x s))"
      if "i < length secret" "s \<in> set ?s" for i s using that pts(3) by auto
  qed
  then show ?thesis by (simp add: F256_inverse map_nth)
qed

text \<open>
  C38. Correctness of secret sharing. However the secret was split, any list of distinct shares of it, at
  least as many as the threshold and in any order, reconstructs exactly the secret.
\<close>

theorem shamir_recovers:
  assumes "shamir_split secret t n rnd = Inr shs" "distinct is" "set is \<subseteq> {..<length shs}" "unat t \<le> length is"
  shows "shamir_reconstruct (map (\<lambda>i. shs ! i) is) = Inr secret"
  by (rule reconstruct_split [OF assms])

theorem shamir_recovers_witness:
  "\<exists>shs. shamir_split [7, 42] 2 3 [9, 200] = Inr shs \<and> shamir_reconstruct (map (\<lambda>i. shs ! i) [2, 0]) = Inr [7, 42]"
proof -
  define shs where "shs = map (\<lambda>x. share_at [7, 42] 1 [9, 200] (word_of_nat x)) [1..<unat (3 :: byte) + 1]"
  have split: "shamir_split [7, 42] 2 3 [9, 200] = Inr shs" by (simp add: shamir_split_Inr shs_def del: upt_Suc)
  have "length shs = 3" by (simp add: shs_def)
  then show ?thesis using split shamir_recovers [OF split, of "[2, 0]"] by auto
qed

section \<open>Secrecy\<close>

lemma interpolant_unique:
  assumes "distinct xs" "0 \<notin> set xs" "length xs = d" "length ys = d"
  shows "\<exists>!cs. length cs = d \<and> map (\<lambda>x. hval (cs @ [s]) x) xs = ys"
proof -
  let ?L = "{cs :: f256 list. length cs = d}" and ?v = "\<lambda>cs. map (\<lambda>x. hval (cs @ [s]) x) xs"
  have fin: "finite ?L" using finite_lists_length_eq [of "UNIV :: f256 set" d] UNIV_f256 by (simp add: card_ge_0_finite)
  have inj: "inj_on ?v ?L"
  proof (rule inj_onI)
    fix cs ds assume l: "cs \<in> ?L" "ds \<in> ?L" and eq: "?v cs = ?v ds"
    let ?df = "map2 (+) cs ds"
    have "hval ?df x = 0" if x: "x \<in> set xs" for x
    proof -
      have "hval cs x * x + s = hval ds x * x + s" using eq x by (simp add: map_eq_conv)
      then have "hval cs x = hval ds x" using x assms(2) by auto
      moreover have "a + a = 0" for a :: f256 using f256_minus(2) [of a] by (metis add.right_inverse)
      ultimately show ?thesis using l by (simp add: hval_add)
    qed
    then have z: "set ?df \<subseteq> {0}"
      by (intro too_many_roots [of "set xs"]) (use l assms(1,3) in \<open>auto simp: distinct_card\<close>)
    show "cs = ds"
    proof (rule nth_equalityI)
      fix i assume i: "i < length cs"
      then have "cs ! i + ds ! i = 0" using z l nth_mem [of i ?df] by auto
      then show "cs ! i = ds ! i" using f256_minus(2) [of "ds ! i"] by (simp add: add_eq_0_iff2)
    qed (use l in simp)
  qed
  have "?v ` ?L \<subseteq> ?L" using assms(3) by auto
  then have "?v ` ?L = ?L" using endo_inj_surj [OF fin _ inj] by simp
  then have "ys \<in> ?v ` ?L" using assms(4) by simp
  then show ?thesis
  proof (intro ex_ex1I)
    show "\<exists>cs. length cs = d \<and> ?v cs = ys" if "ys \<in> ?v ` ?L" using that by blast
    show "cs = ds" if "length cs = d \<and> ?v cs = ys" "length ds = d \<and> ?v ds = ys" for cs ds
      by (rule inj_onD [OF inj]) (use that in simp_all)
  qed
qed

text \<open>The sharing randomness as a matrix: coefficient \<open>c\<close> of byte \<open>p\<close> is at \<open>c * n + p\<close>.\<close>

lemma rnd_of_coeffs:
  assumes "\<And>p. p < n \<Longrightarrow> length (C p) = d"
  shows "\<exists>rnd. length rnd = d * n \<and> (\<forall>p < n. coeffs rnd n d p = C p)"
proof -
  define rnd where "rnd = map (\<lambda>k. byte_of (C (k mod n) ! (k div n))) [0..<d * n]"
  have "coeffs rnd n d p = C p" if p: "p < n" for p
  proof (rule nth_equalityI)
    fix c assume "c < length (coeffs rnd n d p)"
    then have c: "c < d" by (simp add: coeffs_def)
    have "c * n + p < Suc c * n" using p by simp
    also have "\<dots> \<le> d * n" using c by (intro mult_le_mono1) simp
    finally have lt: "c * n + p < d * n" .
    show "coeffs rnd n d p ! c = C p ! c"
      using c lt p by (simp add: coeffs_def rnd_def byte_of_inverse)
  qed (simp add: coeffs_def assms [OF p])
  then show ?thesis by (intro exI [of _ rnd]) (simp add: rnd_def)
qed

lemma coeffs_determine:
  assumes "length rnd = d * n" "length rnd' = d * n" "\<And>p. p < n \<Longrightarrow> coeffs rnd n d p = coeffs rnd' n d p"
  shows "rnd = rnd'"
proof (rule nth_equalityI)
  fix k assume "k < length rnd"
  then have k: "k < d * n" using assms(1) by simp
  then have n: "0 < n" by (cases n) auto
  have "k div n < d" using k by (simp add: less_mult_imp_div_less)
  moreover have "k = (k div n) * n + k mod n" by simp
  ultimately have "F256 (rnd ! k) = coeffs rnd n d (k mod n) ! (k div n)" "F256 (rnd' ! k) = coeffs rnd' n d (k mod n) ! (k div n)"
    by (simp_all add: coeffs_def)
  then have "F256 (rnd ! k) = F256 (rnd' ! k)" using assms(3) [of "k mod n"] n by simp
  then show "rnd ! k = rnd' ! k" by simp
qed (simp add: assms)

lemma share_at_eq_iff:
  assumes "length secret' = length secret"
  shows "share_at secret' d rnd' x = share_at secret d rnd x \<longleftrightarrow>
    (\<forall>p < length secret. hval (coeffs rnd' (length secret) d p @ [F256 (secret' ! p)]) (F256 x) =
       hval (coeffs rnd (length secret) d p @ [F256 (secret ! p)]) (F256 x))"
  by (auto simp: share_at_def assms byte_of_inject)

text \<open>
  C39. Perfect secrecy below the threshold. Fix the shares of any \<open>t - 1\<close> distinct holders and any other
  secret of the same length: exactly one choice of the sharing randomness makes \<open>split\<close> give those holders
  the same shares for the other secret. So when the randomness is uniform, what they hold together has the
  same distribution whatever the secret is.
\<close>

theorem shamir_hides:
  assumes "shamir_split secret t n rnd = Inr shs" "length rnd = unat (t - 1) * length secret"
    and "distinct is" "set is \<subseteq> {..<length shs}" "length is = unat (t - 1)" "length secret' = length secret"
  shows "\<exists>!rnd'. length rnd' = length rnd \<and>
    (\<exists>shs'. shamir_split secret' t n rnd' = Inr shs' \<and> (\<forall>i \<in> set is. shs' ! i = shs ! i))"
proof -
  let ?d = "unat (t - 1)" and ?n = "length secret"
  let ?xs = "map (\<lambda>i. F256 (word_of_nat (Suc i))) is"
  note pts = split_points [OF assms(1,3,4)]
  have dist: "distinct ?xs" "0 \<notin> set ?xs"
    using pts(4,5) by (auto simp: distinct_map inj_on_def simp flip: F256_ops(4))
  define good where "good cs p \<longleftrightarrow> length cs = ?d \<and>
    map (\<lambda>x. hval (cs @ [F256 (secret' ! p)]) x) ?xs = map (\<lambda>x. hval (coeffs rnd ?n ?d p @ [F256 (secret ! p)]) x) ?xs" for cs p
  have ex1: "\<exists>!cs. good cs p" for p
    unfolding good_def by (rule interpolant_unique [OF dist]) (simp_all add: assms(5))
  have same: "(\<exists>shs'. shamir_split secret' t n rnd' = Inr shs' \<and> (\<forall>i \<in> set is. shs' ! i = shs ! i)) \<longleftrightarrow>
      (\<forall>p < ?n. good (coeffs rnd' ?n ?d p) p)" if l: "length rnd' = length rnd" for rnd'
  proof -
    obtain shs' where s': "shamir_split secret' t n rnd' = Inr shs'"
      using assms(1,2,6) l by (simp add: shamir_split_Inr)
    have len: "length shs' = length shs" using assms(1) s' by (auto simp: shamir_split_Inr)
    have "shs' ! i = shs ! i \<longleftrightarrow> (\<forall>p < ?n. hval (coeffs rnd' ?n ?d p @ [F256 (secret' ! p)]) (F256 (word_of_nat (Suc i))) =
       hval (coeffs rnd ?n ?d p @ [F256 (secret ! p)]) (F256 (word_of_nat (Suc i))))" if "i \<in> set is" for i
      using split_points(3) [OF s' assms(3), of i] pts(3) [OF that] assms(4) that len
      by (simp add: share_at_eq_iff [OF assms(6)])
    then have "(\<forall>i \<in> set is. shs' ! i = shs ! i) \<longleftrightarrow> (\<forall>p < ?n. good (coeffs rnd' ?n ?d p) p)"
      by (auto simp: good_def coeffs_def)
    then show ?thesis using s' by auto
  qed
  define C where "C p = (THE cs. good cs p)" for p
  have C: "good (C p) p" for p unfolding C_def by (rule theI' [OF ex1])
  obtain rnd' where r: "length rnd' = ?d * ?n" "\<And>p. p < ?n \<Longrightarrow> coeffs rnd' ?n ?d p = C p"
    using rnd_of_coeffs [of ?n C ?d] C by (auto simp: good_def)
  show ?thesis
  proof (rule ex1I [of _ rnd'])
    show "length rnd' = length rnd \<and> (\<exists>shs'. shamir_split secret' t n rnd' = Inr shs' \<and> (\<forall>i \<in> set is. shs' ! i = shs ! i))"
      using same [of rnd'] r C assms(2) by simp
    fix q assume q: "length q = length rnd \<and> (\<exists>shs'. shamir_split secret' t n q = Inr shs' \<and> (\<forall>i \<in> set is. shs' ! i = shs ! i))"
    then have "good (coeffs q ?n ?d p) p" if "p < ?n" for p using same [of q] that by simp
    then have "coeffs q ?n ?d p = coeffs rnd' ?n ?d p" if "p < ?n" for p using ex1 [of p] C [of p] r(2) [OF that] that by metis
    then show "q = rnd'" using coeffs_determine [of q ?d ?n rnd'] q r(1) assms(2) by simp
  qed
qed

theorem shamir_hides_witness:
  "\<exists>shs. shamir_split [7, 42] 2 3 [9, 200] = Inr shs \<and>
    (\<exists>!rnd'. length rnd' = length [9 :: byte, 200] \<and>
       (\<exists>shs'. shamir_split [1, 2] 2 3 rnd' = Inr shs' \<and> (\<forall>i \<in> set [2]. shs' ! i = shs ! i)))"
proof -
  define shs where "shs = map (\<lambda>x. share_at [7, 42] 1 [9, 200] (word_of_nat x)) [1..<unat (3 :: byte) + 1]"
  have split: "shamir_split [7, 42] 2 3 [9, 200] = Inr shs" by (simp add: shamir_split_Inr shs_def del: upt_Suc)
  have "length shs = 3" by (simp add: shs_def)
  then have "\<exists>!rnd'. length rnd' = length [9 :: byte, 200] \<and>
      (\<exists>shs'. shamir_split [1, 2] 2 3 rnd' = Inr shs' \<and> (\<forall>i \<in> set [2]. shs' ! i = shs ! i))"
    by (intro shamir_hides [OF split]) simp_all
  with split show ?thesis by blast
qed

end
