(* ===== verification/Threshold_Seal.thy ===== *)
theory Threshold_Seal
  imports Shamir Fanos_Crypto
begin

text \<open>
  Threshold sealing (\<open>fanos-threshold/src/lib.rs\<close>): a payload sealed under a key whose Shamir shares are
  sealed, one per member, to the members' KEM keys. The KEM of \<open>fanos-pqcrypto\<close> rests on third-party
  primitives, and so does the AEAD: both are the parameter record \<open>sealing\<close>, with the documented behaviour
  of each (a sealed text opens to itself, a decapsulation recovers the encapsulated session) as the named
  hypotheses \<open>sealing_ok\<close> and \<open>kem_pair\<close>. The main theorem is the end-to-end guarantee: any threshold of
  members, each opening only its own slot, recovers the payload.
\<close>

section \<open>Parameters\<close>

text \<open>
  \<open>'p\<close> and \<open>'k\<close> are the KEM public and secret keys, \<open>'c\<close> the KEM ciphertexts. Encapsulation draws from
  \<open>SeedRng::from_seed\<close>, so it is a function of the key and the seed bytes.
\<close>

record ('p, 'k, 'c) sealing =
  kem_encap :: "'p \<Rightarrow> byte list \<Rightarrow> ('c \<times> byte list) option"
  kem_decap :: "'k \<Rightarrow> 'c \<Rightarrow> byte list option"
  ct_encode :: "'c \<Rightarrow> byte list"
  ct_decode :: "byte list \<Rightarrow> 'c option"
  chacha_seal :: "byte list \<Rightarrow> byte list \<Rightarrow> byte list \<Rightarrow> byte list option"
  chacha_open :: "byte list \<Rightarrow> byte list \<Rightarrow> byte list \<Rightarrow> byte list option"

definition sealing_ok :: "('p, 'k, 'c) sealing \<Rightarrow> bool" where
  "sealing_ok S \<longleftrightarrow>
     (\<forall>k n pt ct. chacha_seal S k n pt = Some ct \<longrightarrow> chacha_open S k n ct = Some pt) \<and>
     (\<forall>c. length (ct_encode S c) = CIPHERTEXT_LEN \<and> ct_decode S (ct_encode S c) = Some c)"

definition kem_pair :: "('p, 'k, 'c) sealing \<Rightarrow> 'p \<Rightarrow> 'k \<Rightarrow> bool" where
  "kem_pair S p k \<longleftrightarrow> (\<forall>seed c s. kem_encap S p seed = Some (c, s) \<longrightarrow> kem_decap S k c = Some s)"

section \<open>The operations\<close>

definition NONCE_LEN :: nat where "NONCE_LEN = 12"
definition TAG_LEN :: nat where "TAG_LEN = 16"
definition SHARE_LEN :: nat where "SHARE_LEN = 1 + 32"
definition SEALED_SHARE_LEN :: nat where "SEALED_SHARE_LEN = CIPHERTEXT_LEN + SHARE_LEN + TAG_LEN"
definition ONION_CMD_LEN :: nat where "ONION_CMD_LEN = 1 + 32 + 32"
definition ONION_TARGET_DEPTH :: nat where "ONION_TARGET_DEPTH = 3"
definition ONION_PAYLOAD_TARGET :: nat where "ONION_PAYLOAD_TARGET = 9662"

datatype threshold_error = Malformed | Aead | Sharing | Kem | TooLong | NonContributory | HolonomyFail

definition onion_slot_len :: "nat \<Rightarrow> nat" where
  "onion_slot_len line_size = NONCE_LEN + 2 + 4 + ONION_CMD_LEN + TAG_LEN + line_size * SEALED_SHARE_LEN"

definition onion_len :: "nat \<Rightarrow> nat" where
  "onion_len line_size =
     (let slot = onion_slot_len line_size
      in ONION_TARGET_DEPTH * slot + (if ONION_PAYLOAD_TARGET > slot then ONION_PAYLOAD_TARGET else slot))"

definition pad_onion :: "('e, 'm, 's) crypto \<Rightarrow> byte list \<Rightarrow> nat \<Rightarrow> threshold_error + byte list" where
  "pad_onion C onion line_size =
     (let bucket = onion_len line_size
      in if length onion > bucket then Inl TooLong
         else Inr (onion @ hash_xof C ''FANOS-v1/threshold-onion-pad'' onion (bucket - length onion)))"

record threshold_sealed =
  ts_nonce :: "byte list"
  ts_ciphertext :: "byte list"
  ts_sealed_shares :: "byte list list"

definition share_key :: "('e, 'm, 's) crypto \<Rightarrow> byte list \<Rightarrow> byte list" where
  "share_key C session = hash_labeled C ''FANOS-v1/aphantos-threshold-share'' session"

definition aead_seal :: "('p, 'k, 'c) sealing \<Rightarrow> byte list \<Rightarrow> byte list \<Rightarrow> byte list \<Rightarrow> threshold_error + byte list" where
  "aead_seal S k n pt = (case chacha_seal S k n pt of None \<Rightarrow> Inl Aead | Some ct \<Rightarrow> Inr ct)"

definition aead_open :: "('p, 'k, 'c) sealing \<Rightarrow> byte list \<Rightarrow> byte list \<Rightarrow> byte list \<Rightarrow> threshold_error + byte list" where
  "aead_open S k n ct = (case chacha_open S k n ct of None \<Rightarrow> Inl Aead | Some pt \<Rightarrow> Inr pt)"

definition share_to_bytes :: "share \<Rightarrow> byte list option" where
  "share_to_bytes s = (if length (sh_y s) \<noteq> 32 then None else Some (sh_x s # sh_y s))"

definition share_from_bytes :: "byte list \<Rightarrow> share option" where
  "share_from_bytes bs =
     (case bs of
        [] \<Rightarrow> None
      | x # _ \<Rightarrow> if length bs < SHARE_LEN then None else Some \<lparr>sh_x = x, sh_y = take (SHARE_LEN - 1) (drop 1 bs)\<rparr>)"

definition member_count :: "threshold_sealed \<Rightarrow> nat" where
  "member_count ts = length (ts_sealed_shares ts)"

text \<open>One iteration of the loop of \<open>seal\<close>: the slot of member \<open>i\<close>.\<close>

definition seal_slot ::
    "('e, 'm, 's) crypto \<Rightarrow> ('p, 'k, 'c) sealing \<Rightarrow> byte list \<Rightarrow> byte list \<Rightarrow> nat \<times> 'p \<times> share \<Rightarrow> threshold_error + byte list" where
  "seal_slot C S nonce kem_seed = (\<lambda>(i, public, share).
     case share_to_bytes share of
       None \<Rightarrow> Inl Sharing
     | Some share_bytes \<Rightarrow>
         let hop_seed = kem_seed @ put_word 4 (word_of_nat i :: u32)
         in case kem_encap S public hop_seed of
              None \<Rightarrow> Inl NonContributory
            | Some (kem_ct, session) \<Rightarrow>
                bindR (aead_seal S (share_key C session) nonce share_bytes) (\<lambda>sealed. Inr (ct_encode S kem_ct @ sealed)))"

definition threshold_seal ::
    "('e, 'm, 's) crypto \<Rightarrow> ('p, 'k, 'c) sealing \<Rightarrow> byte list \<Rightarrow> byte list \<Rightarrow> byte list \<Rightarrow> byte \<Rightarrow> 'p list \<Rightarrow> byte list \<Rightarrow> byte list \<Rightarrow>
     threshold_error + threshold_sealed" where
  "threshold_seal C S routing_cmd key nonce threshold member_keys key_randomness kem_seed =
     (if length member_keys > 255 then Inl Sharing
      else bindR (aead_seal S key nonce routing_cmd) (\<lambda>ciphertext.
        case shamir_split key threshold (word_of_nat (length member_keys)) key_randomness of
          Inl _ \<Rightarrow> Inl Sharing
        | Inr shares \<Rightarrow>
            bindR (mapR (seal_slot C S nonce kem_seed) (zip [0..<length (zip member_keys shares)] (zip member_keys shares)))
              (\<lambda>sealed_shares. Inr \<lparr>ts_nonce = nonce, ts_ciphertext = ciphertext, ts_sealed_shares = sealed_shares\<rparr>)))"

definition member_share ::
    "('e, 'm, 's) crypto \<Rightarrow> ('p, 'k, 'c) sealing \<Rightarrow> threshold_sealed \<Rightarrow> nat \<Rightarrow> 'k \<Rightarrow> share option" where
  "member_share C S ts i member_secret =
     (if i \<ge> length (ts_sealed_shares ts) then None
      else let slot = ts_sealed_shares ts ! i
           in if length slot < CIPHERTEXT_LEN then None
              else do {
                kem_ct \<leftarrow> ct_decode S (take CIPHERTEXT_LEN slot);
                session \<leftarrow> kem_decap S member_secret kem_ct;
                share_bytes \<leftarrow> chacha_open S (share_key C session) (ts_nonce ts) (drop CIPHERTEXT_LEN slot);
                share_from_bytes share_bytes })"

definition threshold_open :: "('p, 'k, 'c) sealing \<Rightarrow> threshold_sealed \<Rightarrow> share list \<Rightarrow> threshold_error + byte list" where
  "threshold_open S ts shares =
     (case shamir_reconstruct shares of
        Inl _ \<Rightarrow> Inl Sharing
      | Inr key \<Rightarrow> if length key \<noteq> 32 then Inl Malformed else aead_open S key (ts_nonce ts) (ts_ciphertext ts))"

definition ts_to_bytes :: "threshold_sealed \<Rightarrow> byte list" where
  "ts_to_bytes ts =
     ts_nonce ts @ put_word 2 (word_of_nat (length (ts_sealed_shares ts)) :: u16) @
     put_word 4 (word_of_nat (length (ts_ciphertext ts)) :: u32) @ ts_ciphertext ts @ concat (ts_sealed_shares ts)"

definition ts_from_bytes :: "byte list \<Rightarrow> threshold_sealed option" where
  "ts_from_bytes bs = do {
     (nonce, r) \<leftarrow> rd_take NONCE_LEN bs;
     (members, r) \<leftarrow> (rd_word 2 :: u16 reader) r;
     (ct_len, r) \<leftarrow> (rd_word 4 :: u32 reader) r;
     (ciphertext, r) \<leftarrow> rd_take (unat ct_len) r;
     (slots, r) \<leftarrow> rd_rep (unat members) (rd_take SEALED_SHARE_LEN) r;
     Some \<lparr>ts_nonce = nonce, ts_ciphertext = ciphertext, ts_sealed_shares = slots\<rparr> }"

section \<open>A member opens its own slot\<close>

lemma share_from_to: "share_to_bytes s = Some bs \<Longrightarrow> share_from_bytes bs = Some s"
  by (auto simp: share_to_bytes_def share_from_bytes_def SHARE_LEN_def split: if_splits)

lemma seal_slot_opens:
  assumes "sealing_ok S" "kem_pair S p k" "seal_slot C S nonce seed (i, p, s) = Inr slot"
  shows "CIPHERTEXT_LEN \<le> length slot \<and>
    do { c \<leftarrow> ct_decode S (take CIPHERTEXT_LEN slot); session \<leftarrow> kem_decap S k c;
         bs \<leftarrow> chacha_open S (share_key C session) nonce (drop CIPHERTEXT_LEN slot); share_from_bytes bs } = Some s"
proof -
  obtain bs where bs: "share_to_bytes s = Some bs"
    using assms(3) by (auto simp: seal_slot_def split: option.splits)
  obtain c session where e: "kem_encap S p (seed @ put_word 4 (word_of_nat i :: u32)) = Some (c, session)"
    using assms(3) bs by (auto simp: seal_slot_def Let_def split: option.splits)
  obtain ct where ct: "chacha_seal S (share_key C session) nonce bs = Some ct" "slot = ct_encode S c @ ct"
    using assms(3) bs e by (auto simp: seal_slot_def Let_def aead_seal_def split: option.splits)
  have "kem_decap S k c = Some session" using assms(2) e by (auto simp: kem_pair_def)
  moreover have "chacha_open S (share_key C session) nonce ct = Some bs" "length (ct_encode S c) = CIPHERTEXT_LEN"
    "ct_decode S (ct_encode S c) = Some c"
    using assms(1) ct(1) by (auto simp: sealing_ok_def)
  ultimately show ?thesis using share_from_to [OF bs] by (simp add: ct(2))
qed

lemma mapR_nth: "mapR f xs = Inr ys \<Longrightarrow> length ys = length xs \<and> (\<forall>i < length xs. f (xs ! i) = Inr (ys ! i))"
proof (induction xs arbitrary: ys)
  case (Cons x xs)
  then obtain z zs where "f x = Inr z" "mapR f xs = Inr zs" "ys = z # zs" by auto
  then show ?case using Cons.IH [of zs] by (auto simp: nth_Cons split: nat.splits)
qed simp

lemma threshold_seal_Inr:
  assumes "threshold_seal C S cmd key nonce t pks rnd seed = Inr ts"
  shows "length pks \<le> 255 \<and> chacha_seal S key nonce cmd = Some (ts_ciphertext ts) \<and> ts_nonce ts = nonce \<and>
    (\<exists>shs. shamir_split key t (word_of_nat (length pks)) rnd = Inr shs \<and> length shs = length pks \<and>
      length (ts_sealed_shares ts) = length pks \<and>
      (\<forall>i < length pks. seal_slot C S nonce seed (i, pks ! i, shs ! i) = Inr (ts_sealed_shares ts ! i)))"
proof -
  have n: "length pks \<le> 255" using assms by (simp add: threshold_seal_def split: if_splits)
  then obtain ct where ct: "chacha_seal S key nonce cmd = Some ct"
    using assms by (auto simp: threshold_seal_def aead_seal_def split: option.splits)
  obtain shs where shs: "shamir_split key t (word_of_nat (length pks)) rnd = Inr shs"
    using assms n ct by (auto simp: threshold_seal_def aead_seal_def split: sum.splits)
  have len: "length shs = length pks"
    using split_points(1) [OF shs, of "[]"] n by (simp add: unat_of_nat take_bit_nat_eq_self_iff)
  let ?z = "zip [0..<length (zip pks shs)] (zip pks shs)"
  obtain slots where sl: "mapR (seal_slot C S nonce seed) ?z = Inr slots"
      "ts = \<lparr>ts_nonce = nonce, ts_ciphertext = ct, ts_sealed_shares = slots\<rparr>"
    using assms n ct shs by (auto simp: threshold_seal_def aead_seal_def)
  have "seal_slot C S nonce seed (i, pks ! i, shs ! i) = Inr (slots ! i)" if "i < length pks" for i
    using mapR_nth [OF sl(1)] len that by simp
  then show ?thesis using n ct shs sl len mapR_nth [OF sl(1)] by auto
qed

lemma member_share_seal:
  assumes "sealing_ok S" "threshold_seal C S cmd key nonce t pks rnd seed = Inr ts"
    and "shamir_split key t (word_of_nat (length pks)) rnd = Inr shs" "i < length pks" "kem_pair S (pks ! i) k"
  shows "member_share C S ts i k = Some (shs ! i)"
proof -
  have slot: "seal_slot C S nonce seed (i, pks ! i, shs ! i) = Inr (ts_sealed_shares ts ! i)"
    and "length (ts_sealed_shares ts) = length pks" "ts_nonce ts = nonce"
    using threshold_seal_Inr [OF assms(2)] assms(3,4) by auto
  then show ?thesis
    using seal_slot_opens [OF assms(1,5) slot] assms(4) by (simp add: member_share_def Let_def not_less)
qed

text \<open>
  C40. Threshold sealing end to end. Seal a payload to the KEM keys of up to 255 members. Then any distinct
  members, at least as many as the threshold, each decapsulating only its own slot with its own secret,
  obtain shares that open the seal to exactly the payload.
\<close>

theorem threshold_seal_opens:
  assumes "sealing_ok S" "length key = 32" "threshold_seal C S cmd key nonce t pks rnd seed = Inr ts"
    and "\<forall>i < length pks. kem_pair S (pks ! i) (sks ! i)"
    and "distinct is" "set is \<subseteq> {..<length pks}" "unat t \<le> length is"
  shows "\<exists>shares. map (\<lambda>i. member_share C S ts i (sks ! i)) is = map Some shares \<and> threshold_open S ts shares = Inr cmd"
proof -
  note ts = threshold_seal_Inr [OF assms(3)]
  obtain shs where shs: "shamir_split key t (word_of_nat (length pks)) rnd = Inr shs" "length shs = length pks"
    using ts by blast
  have "map (\<lambda>i. member_share C S ts i (sks ! i)) is = map Some (map (\<lambda>i. shs ! i) is)"
    using assms(4,6) member_share_seal [OF assms(1,3) shs(1)] by auto
  moreover have "shamir_reconstruct (map (\<lambda>i. shs ! i) is) = Inr key"
    by (rule reconstruct_split [OF shs(1) assms(5)]) (use assms(6,7) shs(2) in simp_all)
  moreover have "chacha_open S key nonce (ts_ciphertext ts) = Some cmd" using assms(1) ts by (auto simp: sealing_ok_def)
  ultimately show ?thesis
    using ts assms(2) by (intro exI [of _ "map (\<lambda>i. shs ! i) is"]) (simp add: threshold_open_def aead_open_def)
qed

text \<open>A concrete instance: an identity AEAD and a KEM with one ciphertext.\<close>

definition toy_sealing :: "(unit, unit, unit) sealing" where
  "toy_sealing = \<lparr>kem_encap = (\<lambda>p seed. Some ((), [])), kem_decap = (\<lambda>k c. Some []),
     ct_encode = (\<lambda>c. replicate CIPHERTEXT_LEN 0), ct_decode = (\<lambda>bs. Some ()),
     chacha_seal = (\<lambda>k n pt. Some pt), chacha_open = (\<lambda>k n ct. Some ct)\<rparr>"

lemma toy_sealing_ok: "sealing_ok toy_sealing" "kem_pair toy_sealing p k"
  by (simp_all add: sealing_ok_def kem_pair_def toy_sealing_def)

lemma toy_seals:
  assumes "length key = 32" "t \<noteq> 0" "unat t \<le> length pks" "length pks \<le> 255" "unat (t - 1) * 32 \<le> length rnd"
  shows "\<exists>ts. threshold_seal C toy_sealing cmd key nonce t pks rnd seed = Inr ts"
proof -
  have n: "unat (word_of_nat (length pks) :: byte) = length pks"
    using assms(4) by (simp add: unat_of_nat take_bit_nat_eq_self_iff)
  define shs where "shs = map (\<lambda>x. share_at key (unat (t - 1)) rnd (word_of_nat x)) [1..<unat (word_of_nat (length pks) :: byte) + 1]"
  have split: "shamir_split key t (word_of_nat (length pks)) rnd = Inr shs"
    unfolding shamir_split_Inr shs_def using assms n by (simp add: word_le_nat_alt del: upt_Suc)
  have slot: "seal_slot C toy_sealing nonce seed (i, p, s) = Inr (replicate CIPHERTEXT_LEN 0 @ (sh_x s # sh_y s))"
    if "s \<in> set shs" for i p s
    using that assms(1) by (auto simp: shs_def seal_slot_def share_to_bytes_def toy_sealing_def aead_seal_def)
  have "mapR (seal_slot C toy_sealing nonce seed) (zip ns (zip pks shs)) =
      Inr (map (\<lambda>(i, p, s). replicate CIPHERTEXT_LEN 0 @ (sh_x s # sh_y s)) (zip ns (zip pks shs)))" for ns
    by (rule mapR_Inr) (use slot in \<open>auto dest!: set_zip_rightD\<close>)
  then show ?thesis using assms(4) split by (simp add: threshold_seal_def aead_seal_def toy_sealing_def not_less)
qed

theorem threshold_seal_opens_witness:
  "\<exists>ts shares. threshold_seal toy_crypto toy_sealing [5, 6] (replicate 32 9) (replicate 12 0) 2 [(), (), ()] (replicate 32 4) [] = Inr ts \<and>
     map (\<lambda>i. member_share toy_crypto toy_sealing ts i ([(), (), ()] ! i)) [2, 0] = map Some shares \<and>
     threshold_open toy_sealing ts shares = Inr [5, 6]"
proof -
  obtain ts where ts: "threshold_seal toy_crypto toy_sealing [5, 6] (replicate 32 9) (replicate 12 0) 2 [(), (), ()] (replicate 32 4) [] = Inr ts"
    using toy_seals [of "replicate 32 9" 2 "[(), (), ()]" "replicate 32 4" toy_crypto "[5, 6]" "replicate 12 0" "[]"] by auto
  have "\<exists>shares. map (\<lambda>i. member_share toy_crypto toy_sealing ts i ([(), (), ()] ! i)) [2, 0] = map Some shares \<and>
      threshold_open toy_sealing ts shares = Inr [5, 6]"
    by (rule threshold_seal_opens [OF toy_sealing_ok(1) _ ts]) (auto simp: toy_sealing_ok(2))
  with ts show ?thesis by blast
qed

section \<open>The wire form delimits itself\<close>

definition ts_wf :: "threshold_sealed \<Rightarrow> bool" where
  "ts_wf ts \<longleftrightarrow> length (ts_nonce ts) = NONCE_LEN \<and> length (ts_sealed_shares ts) < 2 ^ 16 \<and>
     length (ts_ciphertext ts) < 2 ^ 32 \<and> (\<forall>slot \<in> set (ts_sealed_shares ts). length slot = SEALED_SHARE_LEN)"

lemma rd_rep_take: "(\<forall>x \<in> set xs. length x = n) \<Longrightarrow> rd_rep (length xs) (rd_take n) (concat xs @ r) = Some (xs, r)"
  by (induction xs) auto

lemma ts_from_to_bytes: "ts_wf ts \<Longrightarrow> ts_from_bytes (ts_to_bytes ts @ filler) = Some ts"
proof -
  assume wf: "ts_wf ts"
  have "unat (word_of_nat (length (ts_sealed_shares ts)) :: u16) = length (ts_sealed_shares ts)"
    "unat (word_of_nat (length (ts_ciphertext ts)) :: u32) = length (ts_ciphertext ts)"
    using wf by (simp_all add: ts_wf_def unat_of_nat take_bit_nat_eq_self_iff)
  then show ?thesis
    using wf rd_rep_take [of "ts_sealed_shares ts" SEALED_SHARE_LEN filler]
    by (simp add: ts_from_bytes_def ts_to_bytes_def ts_wf_def word_dec_enc)
qed

text \<open>
  Every padded onion has the length of its plane's bucket, whatever it carries, and parses back to what was
  padded: the filler changes nothing.
\<close>

theorem padded_onion_parses:
  assumes "ts_wf ts" "pad_onion C (ts_to_bytes ts) line_size = Inr bs" "\<forall>d n. length (blake3_xof C d n) = n"
  shows "length bs = onion_len line_size \<and> ts_from_bytes bs = Some ts"
  using assms ts_from_to_bytes [OF assms(1)]
  by (auto simp: pad_onion_def Let_def hash_xof_def not_less split: if_splits)

end
