(* ===== verification/Wire_Varint.thy ===== *)
theory Wire_Varint
  imports Fanos_Prelude
begin

unbundle bit_operations_syntax

text \<open>
  The variable-length integers of the wire formats (\<open>fanos-wire/src/varint.rs\<close>) and the encodings of
  \<open>fanos-wire/src/wire.rs\<close> that the block formats use: byte arrays, integers and sequences. The two top bits
  of the first byte give the length; the decoder refuses every encoding but the shortest, so the format is an
  interpretation of \<open>codec\<close>. A sequence of values of a codec is again one.
\<close>

section \<open>Varints\<close>

definition varint_MAX :: nat where "varint_MAX = 2 ^ 62 - 1"

definition encoded_len :: "nat \<Rightarrow> nat" where
  "encoded_len v = (if v < 2 ^ 6 then 1 else if v < 2 ^ 14 then 2 else if v < 2 ^ 30 then 4 else 8)"

text \<open>\<open>encode\<close>, which panics above \<open>MAX\<close>: its callers encode lengths of sequences in memory.\<close>

definition varint_encode :: "nat \<Rightarrow> byte list" where
  "varint_encode v =
     (let len = encoded_len v;
          tag = (if len = 1 then 0 else if len = 2 then 1 else if len = 4 then 2 else 3 :: byte);
          out = be_bytes len v
      in out[0 := hd out OR push_bit 6 tag])"

definition varint_decode :: "nat reader" where
  "varint_decode buf =
     (case buf of
        [] \<Rightarrow> None
      | first # rest \<Rightarrow>
          let len = 2 ^ unat (drop_bit 6 first)
          in if length buf < len then None
             else let v = foldl (\<lambda>v b. v * 256 + unat b) (unat (first AND 0x3F)) (take (len - 1) rest)
                  in if encoded_len v \<noteq> len then None else Some (v, drop len buf))"

section \<open>Sequences\<close>

definition vec_encode :: "('a \<Rightarrow> byte list) \<Rightarrow> 'a list \<Rightarrow> byte list" where
  "vec_encode enc xs = varint_encode (length xs) @ concat (map enc xs)"

definition vec_decode :: "'a reader \<Rightarrow> 'a list reader" where
  "vec_decode dec bs = do { (n, r) \<leftarrow> varint_decode bs; rd_rep n dec r }"

section \<open>The codecs\<close>

lemma from_be_Cons: "from_be (b # bs) = unat b * 256 ^ length bs + from_be bs"
proof (induction bs rule: rev_induct)
  case (snoc c bs)
  have "from_be ((b # bs) @ [c]) = from_be (b # bs) * 256 + unat c" by (rule from_be_snoc)
  then show ?case using snoc by (simp add: algebra_simps)
qed (simp add: from_be_def)

lemma foldl_from_be: "foldl (\<lambda>v b. v * 256 + unat b) (unat f) bs = from_be (f # bs)"
  by (simp add: from_be_def)

lemma byte_split:
  fixes h t f :: byte
  shows "unat h < 64 \<Longrightarrow> unat t < 4 \<Longrightarrow> drop_bit 6 (h OR push_bit 6 t) = t \<and> (h OR push_bit 6 t) AND 0x3F = h"
    and "(f AND 0x3F) OR push_bit 6 (drop_bit 6 f) = f" "unat (f AND 0x3F) < 64" "unat (drop_bit 6 f) < 4"
proof -
  have mask: "(0x3F :: byte) = mask 6" by (simp add: mask_eq_exp_minus_1)
  have and63: "x AND 0x3F = take_bit 6 x" for x :: byte unfolding mask by (simp add: take_bit_eq_mask)
  show "(f AND 0x3F) OR push_bit 6 (drop_bit 6 f) = f"
    unfolding and63
  proof (rule bit_eqI)
    fix n
    show "bit (take_bit 6 f OR push_bit 6 (drop_bit 6 f)) n = bit f n" if "possible_bit TYPE(byte) n"
      using that by (cases "n < 6") (auto simp: bit_simps)
  qed
  show "unat (f AND 0x3F) < 64"
    unfolding and63 using take_bit_nat_less_exp [of 6 "unat f"] by (simp add: unsigned_take_bit_eq)
  show "unat (drop_bit 6 f) < 4"
    using unat_byte_lt [of f] by (simp add: drop_bit_eq_div unat_div)
  assume h: "unat h < 64" and t: "unat t < 4"
  have h': "take_bit 6 h = h" using h by (simp add: unsigned_take_bit_eq word_unat_eq_iff take_bit_nat_eq_self)
  have t': "take_bit 2 t = t" using t by (simp add: unsigned_take_bit_eq word_unat_eq_iff take_bit_nat_eq_self)
  have hb: "bit h n \<Longrightarrow> n < 6" for n using h' by (metis bit_take_bit_iff)
  have tb: "bit t n \<Longrightarrow> n < 2" for n using t' by (metis bit_take_bit_iff)
  have "drop_bit 6 (h OR push_bit 6 t) = t"
    by (rule bit_eqI) (use hb tb in \<open>force simp: bit_simps\<close>)
  moreover have "(h OR push_bit 6 t) AND 0x3F = h"
    unfolding and63 by (rule bit_eqI) (use hb in \<open>force simp: bit_simps\<close>)
  ultimately show "drop_bit 6 (h OR push_bit 6 t) = t \<and> (h OR push_bit 6 t) AND 0x3F = h" by simp
qed

text \<open>The tag a length class carries, and the values of the class.\<close>

definition varint_tag :: "nat \<Rightarrow> byte" where
  "varint_tag len = (if len = 1 then 0 else if len = 2 then 1 else if len = 4 then 2 else 3)"

lemma len_class:
  assumes "v \<le> varint_MAX"
  shows "0 < encoded_len v" "v < 64 * 256 ^ (encoded_len v - 1)" "2 ^ unat (varint_tag (encoded_len v)) = encoded_len v"
    "unat (varint_tag (encoded_len v)) < 4"
  using assms by (auto simp: encoded_len_def varint_MAX_def varint_tag_def)

lemma varint_encode_eval:
  assumes "v \<le> varint_MAX"
  obtains h t where "varint_encode v = (h OR push_bit 6 (varint_tag (encoded_len v))) # t"
    "unat h < 64" "length t = encoded_len v - 1" "from_be (h # t) = v"
proof -
  let ?L = "encoded_len v"
  note c = len_class [OF assms]
  obtain h t where ht: "be_bytes ?L v = h # t" "length t = ?L - 1"
    using c(1) length_be_bytes [of ?L v] by (cases "be_bytes ?L v") auto
  have "v < 256 ^ ?L"
    using c(1,2) by (cases ?L) (auto intro: order.strict_trans2)
  then have v: "from_be (h # t) = v" using from_be_be_bytes_small [of v ?L] ht(1) by simp
  have "unat h < 64"
  proof (rule ccontr)
    assume "\<not> unat h < 64"
    then have "64 * 256 ^ (?L - 1) \<le> unat h * 256 ^ (?L - 1)" by (intro mult_le_mono1) simp
    moreover have "unat h * 256 ^ (?L - 1) \<le> v" using from_be_Cons [of h t] v ht(2) by simp
    ultimately show False using c(2) by linarith
  qed
  then show thesis using that [of h t] ht v by (simp add: varint_encode_def Let_def varint_tag_def)
qed

interpretation varint: codec varint_encode varint_decode "\<lambda>v. v \<le> varint_MAX"
proof (rule codecI, rule iffI)
  fix bs v r assume "varint_decode bs = Some (v, r)"
  then obtain f rest where bs: "bs = f # rest" and len: "2 ^ unat (drop_bit 6 f) \<le> length bs"
    and v: "v = from_be ((f AND 0x3F) # take (2 ^ unat (drop_bit 6 f) - 1) rest)"
    and el: "encoded_len v = 2 ^ unat (drop_bit 6 f)" and r: "r = drop (2 ^ unat (drop_bit 6 f)) bs"
    by (auto simp: varint_decode_def Let_def foldl_from_be split: list.splits if_splits)
  let ?L = "2 ^ unat (drop_bit 6 f) :: nat" and ?t = "take (2 ^ unat (drop_bit 6 f) - 1) rest"
  have L: "?L \<in> {1, 2, 4, 8}"
  proof -
    have "unat (drop_bit 6 f) \<in> {0, 1, 2, 3}" using byte_split(4) [of f] by auto
    then show ?thesis by auto
  qed
  have lt: "length ?t = ?L - 1" using len bs by simp
  have "from_be ?t < 256 ^ (?L - 1)" using from_be_lt [of ?t] lt by simp
  moreover have "unat (f AND 0x3F) * 256 ^ (?L - 1) \<le> 63 * 256 ^ (?L - 1)"
    using byte_split(3) [of f] by (intro mult_le_mono1) simp
  moreover have "v = unat (f AND 0x3F) * 256 ^ (?L - 1) + from_be ?t" using v lt by (simp add: from_be_Cons)
  ultimately have "v < 64 * 256 ^ (?L - 1)" by linarith
  then have max: "v \<le> varint_MAX" using L by (auto simp: varint_MAX_def)
  have tag: "varint_tag ?L = drop_bit 6 f"
  proof -
    have "unat (varint_tag ?L) = unat (drop_bit 6 f)"
    proof -
      have "unat (drop_bit 6 f) \<in> {0, 1, 2, 3}" using byte_split(4) [of f] by auto
      then show ?thesis by (auto simp: varint_tag_def)
    qed
    then show ?thesis by (rule word_unat_eq_iff [THEN iffD2])
  qed
  have "be_bytes ?L v = (f AND 0x3F) # ?t"
    using be_bytes_from_be [of "(f AND 0x3F) # ?t" ?L] lt v L by auto
  then have "varint_encode v = f # ?t"
    using el tag byte_split(2) [of f] by (simp add: varint_encode_def Let_def varint_tag_def)
  moreover have "bs = f # ?t @ r" using r bs L by auto
  ultimately show "v \<le> varint_MAX \<and> bs = varint_encode v @ r" using max by simp
next
  fix bs v r assume "v \<le> varint_MAX \<and> bs = varint_encode v @ r"
  then have v: "v \<le> varint_MAX" and bs: "bs = varint_encode v @ r" by auto
  obtain h t where ht: "varint_encode v = (h OR push_bit 6 (varint_tag (encoded_len v))) # t"
    "unat h < 64" "length t = encoded_len v - 1" "from_be (h # t) = v" by (rule varint_encode_eval [OF v])
  note c = len_class [OF v]
  have "drop_bit 6 (h OR push_bit 6 (varint_tag (encoded_len v))) = varint_tag (encoded_len v)"
    "(h OR push_bit 6 (varint_tag (encoded_len v))) AND 0x3F = h"
    using byte_split(1) [OF ht(2) c(4)] by auto
  then show "varint_decode bs = Some (v, r)"
    using ht c by (cases "encoded_len v") (simp_all add: bs varint_decode_def Let_def foldl_from_be)
qed

lemma codec_varint_vec:
  assumes "codec enc dec ok"
  shows "codec (vec_encode enc) (vec_decode dec) (\<lambda>xs. list_all ok xs \<and> length xs \<le> varint_MAX)"
proof (rule codecI)
  fix bs xs r
  show "vec_decode dec bs = Some (xs, r) \<longleftrightarrow> (list_all ok xs \<and> length xs \<le> varint_MAX) \<and> bs = vec_encode enc xs @ r"
    by (auto simp: vec_decode_def vec_encode_def bind_eq_Some_conv varint.dec_iff codec.rep_iff [OF assms])
qed

lemma u8_vec: "vec_encode (\<lambda>b. [b]) bs = varint_encode (length bs) @ bs"
  by (simp add: vec_encode_def concat_map_singleton)

end
