(* ===== verification/Pq_Vrf.thy ===== *)
theory Pq_Vrf
  imports Merkle
begin

text \<open>
  The hash-based verifiable random function of \<open>fanos-vrf/src/pqvrf.rs\<close>: a key is the root of a complete
  binary tree over \<open>2\<^sup>h\<close> leaves derived from a seed, the output at an index is its leaf, the proof its
  path. The leader lottery of TAXIS ranks proposers by tickets drawn from these outputs. Every output proves
  against its root, and two outputs that verify at one index of one root exhibit a hash collision.
\<close>

definition VRF_LEAF_LABEL :: string where "VRF_LEAF_LABEL = ''FANOS-v1/pqvrf-leaf''"
definition VRF_NODE_LABEL :: string where "VRF_NODE_LABEL = ''FANOS-v1/pqvrf-node''"
definition BEACON_LABEL :: string where "BEACON_LABEL = ''FANOS-v1/pqvrf-beacon''"
definition MAX_HEIGHT :: u32 where "MAX_HEIGHT = 24"

definition hash_leaf :: "('e, 'm, 's) crypto \<Rightarrow> byte list \<Rightarrow> u64 \<Rightarrow> byte list" where
  "hash_leaf C seed index = hash_labeled C VRF_LEAF_LABEL (seed @ put_word 8 index)"

definition hash_node :: "('e, 'm, 's) crypto \<Rightarrow> byte list \<Rightarrow> byte list \<Rightarrow> byte list" where
  "hash_node C l r = hash_labeled C VRF_NODE_LABEL (l @ r)"

section \<open>Proofs on the wire\<close>

fun as_chunks32 :: "byte list \<Rightarrow> byte list list" where
  "as_chunks32 bs = (if length bs < 32 then [] else take 32 bs # as_chunks32 (drop 32 bs))"

declare as_chunks32.simps [simp del]

definition vrf_proof_to_bytes :: "byte list list \<Rightarrow> byte list" where
  "vrf_proof_to_bytes siblings = concat siblings"

definition vrf_proof_from_bytes :: "byte list \<Rightarrow> u32 \<Rightarrow> byte list list option" where
  "vrf_proof_from_bytes bs height = (if length bs \<noteq> unat height * 32 then None else Some (as_chunks32 bs))"

section \<open>Keys\<close>

record merkle_vrf_secret =
  vs_height :: u32
  vs_levels :: "byte list list list"

text \<open>The inner loop of \<open>generate\<close>: one level pairs the nodes of the one below.\<close>

fun pair_level :: "('e, 'm, 's) crypto \<Rightarrow> byte list list \<Rightarrow> byte list list" where
  "pair_level C (x # y # xs) = hash_node C x y # pair_level C xs"
| "pair_level C xs = []"

primrec tree_levels :: "('e, 'm, 's) crypto \<Rightarrow> nat \<Rightarrow> byte list list \<Rightarrow> byte list list list" where
  "tree_levels C 0 cur = [cur]"
| "tree_levels C (Suc h) cur = cur # tree_levels C h (pair_level C cur)"

definition vrf_generate :: "('e, 'm, 's) crypto \<Rightarrow> byte list \<Rightarrow> u32 \<Rightarrow> merkle_vrf_secret option" where
  "vrf_generate C seed height =
     (if height > MAX_HEIGHT then None
      else Some \<lparr>vs_height = height,
        vs_levels = tree_levels C (unat height) (map (\<lambda>i. hash_leaf C seed (word_of_nat i)) [0..<2 ^ unat height])\<rparr>)"

definition vrf_root :: "merkle_vrf_secret \<Rightarrow> byte list" where
  "vrf_root s = (case vs_levels s of [] \<Rightarrow> replicate 32 0
     | _ \<Rightarrow> (case last (vs_levels s) of [] \<Rightarrow> replicate 32 0 | r # _ \<Rightarrow> r))"

text \<open>\<open>1u64 << height\<close>, whose shift amount a release build takes modulo 64.\<close>

definition vrf_domain :: "u32 \<Rightarrow> nat" where
  "vrf_domain height = 2 ^ (unat height mod 64)"

text \<open>The loop of \<open>prove\<close> over the levels left: the sibling at each.\<close>

primrec prove_loop :: "byte list list list \<Rightarrow> nat \<Rightarrow> nat \<Rightarrow> byte list list option" where
  "prove_loop levels 0 idx = Some []"
| "prove_loop levels (Suc n) idx =
     (case levels of
        [] \<Rightarrow> None
      | layer # levels' \<Rightarrow>
          let sib = (if even idx then idx + 1 else idx - 1)
          in if sib \<ge> length layer then None
             else map_option ((#) (layer ! sib)) (prove_loop levels' n (idx div 2)))"

definition vrf_prove :: "merkle_vrf_secret \<Rightarrow> u64 \<Rightarrow> (byte list \<times> byte list list) option" where
  "vrf_prove s index =
     (if unat index \<ge> vrf_domain (vs_height s) then None
      else case vs_levels s of
             [] \<Rightarrow> None
           | leaves # _ \<Rightarrow>
               if unat index \<ge> length leaves then None
               else map_option (Pair (leaves ! unat index)) (prove_loop (vs_levels s) (unat (vs_height s)) (unat index)))"

section \<open>Verification\<close>

fun vrf_climb :: "('e, 'm, 's) crypto \<Rightarrow> byte list \<Rightarrow> nat \<Rightarrow> byte list list \<Rightarrow> byte list" where
  "vrf_climb C acc idx [] = acc"
| "vrf_climb C acc idx (sib # sibs) =
     vrf_climb C (if even idx then hash_node C acc sib else hash_node C sib acc) (idx div 2) sibs"

definition vrf_verify :: "('e, 'm, 's) crypto \<Rightarrow> byte list \<Rightarrow> u32 \<Rightarrow> u64 \<Rightarrow> byte list \<Rightarrow> byte list list \<Rightarrow> bool" where
  "vrf_verify C root height index output siblings =
     (if length siblings \<noteq> unat height \<or> unat index \<ge> vrf_domain height then False
      else vrf_climb C output (unat index) siblings = root)"

section \<open>The beacon of a set of shares\<close>

record beacon_share =
  bs_root :: "byte list"
  bs_output :: "byte list"
  bs_proof :: "byte list list"

definition beacon_share_verify :: "('e, 'm, 's) crypto \<Rightarrow> beacon_share \<Rightarrow> u64 \<Rightarrow> u32 \<Rightarrow> bool" where
  "beacon_share_verify C s epoch height = vrf_verify C (bs_root s) height epoch (bs_output s) (bs_proof s)"

definition vrf_beacon_seed :: "('e, 'm, 's) crypto \<Rightarrow> u64 \<Rightarrow> u32 \<Rightarrow> beacon_share list \<Rightarrow> byte list option" where
  "vrf_beacon_seed C epoch height shares =
     (if shares = [] \<or> \<not> list_all (\<lambda>s. beacon_share_verify C s epoch height) shares then None
      else Some (hash_labeled C BEACON_LABEL (put_word 8 epoch @ concat (sort (map (\<lambda>s. bs_root s @ bs_output s) shares)))))"

section \<open>Every output proves\<close>

lemma length_pair_level [simp]: "length (pair_level C xs) = length xs div 2"
  by (induction C xs rule: pair_level.induct) auto

lemma pair_level_nth: "i < length xs div 2 \<Longrightarrow> pair_level C xs ! i = hash_node C (xs ! (2 * i)) (xs ! (2 * i + 1))"
proof (induction C xs arbitrary: i rule: pair_level.induct)
  case (1 C x y xs)
  then show ?case by (cases i) auto
qed auto

lemma tree_levels_prove:
  assumes "length cur = 2 ^ h" "i < 2 ^ h"
  shows "\<exists>sibs. prove_loop (tree_levels C h cur) h i = Some sibs \<and> length sibs = h \<and>
    last (tree_levels C h cur) = [vrf_climb C (cur ! i) i sibs]"
  using assms
proof (induction h arbitrary: cur i)
  case 0
  then show ?case by (cases cur) auto
next
  case (Suc h)
  let ?next = "pair_level C cur" and ?sib = "if even i then i + 1 else i - 1"
  have half: "i div 2 < 2 ^ h" "length ?next = 2 ^ h" using Suc.prems by auto
  obtain sibs where sibs: "prove_loop (tree_levels C h ?next) h (i div 2) = Some sibs" "length sibs = h"
    "last (tree_levels C h ?next) = [vrf_climb C (?next ! (i div 2)) (i div 2) sibs]"
    using Suc.IH [OF half(2,1)] by blast
  have range: "?sib < length cur" using Suc.prems by (auto elim!: evenE oddE)
  have node: "?next ! (i div 2) = (if even i then hash_node C (cur ! i) (cur ! ?sib) else hash_node C (cur ! ?sib) (cur ! i))"
    using pair_level_nth [of "i div 2" cur C] half by (auto elim!: evenE oddE)
  have "tree_levels C h ?next \<noteq> []" by (cases h) auto
  then show ?case using sibs range node Suc.prems(1) by (auto simp: Let_def)
qed

text \<open>
  Completeness of the VRF: for every seed and every height up to the maximum, each index of the domain
  has an output and a proof, the output is the leaf of the seed, and the proof verifies against the root.
\<close>

theorem vrf_complete:
  assumes "vrf_generate C seed height = Some s" "unat index < 2 ^ unat height"
  shows "\<exists>sibs. vrf_prove s index = Some (hash_leaf C seed index, sibs) \<and>
    vrf_verify C (vrf_root s) height index (hash_leaf C seed index) sibs"
proof -
  let ?leaves = "map (\<lambda>i. hash_leaf C seed (word_of_nat i)) [0..<2 ^ unat height]"
  have s: "s = \<lparr>vs_height = height, vs_levels = tree_levels C (unat height) ?leaves\<rparr>" and h: "height \<le> 24"
    using assms(1) by (auto simp: vrf_generate_def MAX_HEIGHT_def split: if_splits)
  have dom: "vrf_domain height = 2 ^ unat height" using h by (simp add: vrf_domain_def word_le_nat_alt)
  obtain sibs where p: "prove_loop (vs_levels s) (unat height) (unat index) = Some sibs" "length sibs = unat height"
    "last (vs_levels s) = [vrf_climb C (?leaves ! unat index) (unat index) sibs]"
    using tree_levels_prove [of ?leaves "unat height" "unat index" C] assms(2) s by auto
  have lf: "?leaves ! unat index = hash_leaf C seed index" using assms(2) by simp
  obtain rest where lv: "vs_levels s = ?leaves # rest" unfolding s by (cases "unat height") auto
  have "vrf_prove s index = Some (hash_leaf C seed index, sibs)"
    using p(1) lf assms(2) dom by (simp add: vrf_prove_def s lv [unfolded s, simplified] not_le)
  moreover have "vrf_root s = vrf_climb C (hash_leaf C seed index) (unat index) sibs"
    using p(3) lf by (simp add: vrf_root_def lv split: list.splits)
  ultimately show ?thesis using p(2) assms(2) dom by (simp add: vrf_verify_def)
qed

section \<open>One output per index\<close>

lemma length_hash_node [simp]: "hash_width C \<Longrightarrow> length (hash_node C x y) = 32"
  by (simp add: hash_width_def hash_node_def hash_labeled_def)

text \<open>The strings hashed while verifying.\<close>

fun vrf_inputs :: "('e, 'm, 's) crypto \<Rightarrow> byte list \<Rightarrow> nat \<Rightarrow> byte list list \<Rightarrow> byte list set" where
  "vrf_inputs C acc idx [] = {}"
| "vrf_inputs C acc idx (sib # sibs) =
     insert (labeled_hasher VRF_NODE_LABEL (if even idx then acc @ sib else sib @ acc))
       (vrf_inputs C (if even idx then hash_node C acc sib else hash_node C sib acc) (idx div 2) sibs)"

lemma hash_node_inj:
  assumes "hash_node C a b = hash_node C a' b'" "length a = length a'" "\<not> collides C X"
    and "labeled_hasher VRF_NODE_LABEL (a @ b) \<in> X" "labeled_hasher VRF_NODE_LABEL (a' @ b') \<in> X"
  shows "a = a' \<and> b = b'"
  using hash_labeled_inj [OF assms(1) [unfolded hash_node_def] assms(3-5)] assms(2) by simp

lemma vrf_climb_inj:
  assumes "hash_width C" "length p = length q" "length a = 32" "length b = 32"
    and "list_all (\<lambda>s. length s = 32) p" "list_all (\<lambda>s. length s = 32) q"
    and "vrf_climb C a i p = vrf_climb C b i q"
    and "\<not> collides C X" "vrf_inputs C a i p \<subseteq> X" "vrf_inputs C b i q \<subseteq> X"
  shows "a = b"
  using assms(2-7,9,10)
proof (induction p q arbitrary: a b i rule: list_induct2)
  case (Cons x p y q)
  let ?a = "if even i then hash_node C a x else hash_node C x a"
  let ?b = "if even i then hash_node C b y else hash_node C y b"
  have "?a = ?b" using Cons assms(1) by (intro Cons.IH [of ?a ?b "i div 2"]) auto
  then show ?case
    using hash_node_inj [OF _ _ assms(8), of a x b y] hash_node_inj [OF _ _ assms(8), of x a y b] Cons.prems
    by (auto split: if_splits)
qed simp

text \<open>
  Uniqueness of the VRF: two outputs that verify at one index of one root are equal, or two of the strings
  hashed by the two verifications collide. A registered validator therefore has one ticket per height,
  whatever it sends.
\<close>

theorem vrf_unique:
  assumes "hash_width C" "vrf_verify C root height index a p" "vrf_verify C root height index b q"
    and "length a = 32" "length b = 32" "list_all (\<lambda>s. length s = 32) (p @ q)"
  shows "collides C (vrf_inputs C a (unat index) p \<union> vrf_inputs C b (unat index) q) \<or> a = b"
    (is "collides C ?X \<or> _")
  using vrf_climb_inj [OF assms(1), of p q a b "unat index" ?X] assms(2-)
  by (auto simp: vrf_verify_def split: if_splits)

lemma as_chunks32_concat: "list_all (\<lambda>s. length s = 32) ss \<Longrightarrow> as_chunks32 (concat ss) = ss"
  by (induction ss) (auto simp: as_chunks32.simps [of "[]"] as_chunks32.simps [of "_ @ _"])

lemma concat_as_chunks32:
  "length bs = n * 32 \<Longrightarrow> concat (as_chunks32 bs) = bs \<and> length (as_chunks32 bs) = n \<and> list_all (\<lambda>s. length s = 32) (as_chunks32 bs)"
  by (induction n arbitrary: bs) (simp_all add: as_chunks32.simps [where bs = "bs :: byte list" for bs])

end
