(* ===== verification/Taxis_Committee.thy ===== *)
theory Taxis_Committee
  imports Pq_Vrf Fano_Erasure
begin

text \<open>
  Leader election (\<open>fanos-taxis/src/committee.rs\<close>): a beacon seed draws a Fano line for each height and
  round and one of its members as the public leader; in round 0 every member of the line proposes and the
  lowest verified sortition ticket wins. A beacon seed is its 32 bytes.
\<close>

definition LEADER_LINE_LABEL :: string where "LEADER_LINE_LABEL = ''FANOS-v1/taxis-leader-line''"
definition LEADER_MEMBER_LABEL :: string where "LEADER_MEMBER_LABEL = ''FANOS-v1/taxis-leader-member''"
definition SEAL_LINE_LABEL :: string where "SEAL_LINE_LABEL = ''FANOS-v1/taxis-seal-line''"
definition LEADER_TICKET_LABEL :: string where "LEADER_TICKET_LABEL = ''FANOS-v1/taxis-leader-ticket''"

text \<open>\<open>Iterator::min_by_key\<close> returns the first minimum, \<open>max_by_key\<close> the last maximum.\<close>

primrec min_by_key :: "('a \<Rightarrow> 'k::linorder) \<Rightarrow> 'a list \<Rightarrow> 'a option" where
  "min_by_key f [] = None"
| "min_by_key f (x # xs) = (case min_by_key f xs of None \<Rightarrow> Some x | Some y \<Rightarrow> Some (if f x \<le> f y then x else y))"

primrec max_by_key :: "('a \<Rightarrow> 'k::linorder) \<Rightarrow> 'a list \<Rightarrow> 'a option" where
  "max_by_key f [] = None"
| "max_by_key f (x # xs) = (case max_by_key f xs of None \<Rightarrow> Some x | Some y \<Rightarrow> Some (if f x \<le> f y then y else x))"

section \<open>The elected line and its leader\<close>

definition election_preimage :: "byte list \<Rightarrow> u64 \<Rightarrow> u32 \<Rightarrow> byte list" where
  "election_preimage seed height round = seed @ put_word 8 height @ put_word 4 round"

definition election_draw :: "byte list \<Rightarrow> nat" where
  "election_draw digest = from_be (take 8 digest)"

definition leader_line :: "('e, 'm, 's) crypto \<Rightarrow> byte list \<Rightarrow> u64 \<Rightarrow> u32 \<Rightarrow> nat" where
  "leader_line C seed height round =
     election_draw (hash_labeled C LEADER_LINE_LABEL (election_preimage seed height round)) mod fano_N"

definition line_members :: "nat \<Rightarrow> nat list option" where
  "line_members line = (if line < length LINE_POINTS then Some (LINE_POINTS ! line) else None)"

definition leader :: "('e, 'm, 's) crypto \<Rightarrow> byte list \<Rightarrow> u64 \<Rightarrow> u32 \<Rightarrow> nat" where
  "leader C seed height round =
     (let preimage = election_preimage seed height round;
          member_key = (\<lambda>m :: nat. hash_labeled C LEADER_MEMBER_LABEL (preimage @ [word_of_nat m]))
      in case line_members (leader_line C seed height round) of
           None \<Rightarrow> 0
         | Some ms \<Rightarrow> (case min_by_key member_key ms of None \<Rightarrow> 0 | Some m \<Rightarrow> m))"

definition epoch_seal_line :: "('e, 'm, 's) crypto \<Rightarrow> byte list \<Rightarrow> u64 \<Rightarrow> nat" where
  "epoch_seal_line C seed epoch = election_draw (hash_labeled C SEAL_LINE_LABEL (seed @ put_word 8 epoch)) mod fano_N"

definition cross_shard_bridge :: "nat \<Rightarrow> nat \<Rightarrow> nat option" where
  "cross_shard_bridge line_a line_b =
     (if line_a = line_b \<or> line_a \<ge> fano_N \<or> line_b \<ge> fano_N then None
      else do { a \<leftarrow> line_members line_a; b \<leftarrow> line_members line_b; List.find (\<lambda>p. p \<in> set b) a })"

definition is_line_member :: "('e, 'm, 's) crypto \<Rightarrow> byte list \<Rightarrow> u64 \<Rightarrow> u32 \<Rightarrow> nat \<Rightarrow> bool" where
  "is_line_member C seed height round member =
     (case line_members (leader_line C seed height round) of None \<Rightarrow> False | Some m \<Rightarrow> member \<in> set m)"

section \<open>Sortition tickets\<close>

definition leader_ticket :: "('e, 'm, 's) crypto \<Rightarrow> byte list \<Rightarrow> byte list \<Rightarrow> u64 \<Rightarrow> u32 \<Rightarrow> byte list" where
  "leader_ticket C vrf_output seed height round =
     hash_labeled C LEADER_TICKET_LABEL (vrf_output @ seed @ put_word 8 height @ put_word 4 round)"

definition verify_leader_ticket ::
    "('e, 'm, 's) crypto \<Rightarrow> byte list \<Rightarrow> u32 \<Rightarrow> u64 \<Rightarrow> byte list \<Rightarrow> u64 \<Rightarrow> u32 \<Rightarrow> byte list \<Rightarrow> byte list list \<Rightarrow> byte list option" where
  "verify_leader_ticket C root vrf_height vrf_index seed height round vrf_output siblings =
     (if \<not> vrf_verify C root vrf_height vrf_index vrf_output siblings then None
      else Some (leader_ticket C vrf_output seed height round))"

section \<open>The election is well defined\<close>

lemma min_by_key_None [simp]: "min_by_key f xs = None \<longleftrightarrow> xs = []"
  by (cases xs) (auto split: option.splits)

lemma min_by_key_Some: "min_by_key f xs = Some x \<Longrightarrow> x \<in> set xs \<and> (\<forall>y \<in> set xs. f x \<le> f y)"
  by (induction xs arbitrary: x) (auto split: option.splits if_splits)

lemma max_by_key_None [simp]: "max_by_key f xs = None \<longleftrightarrow> xs = []"
  by (cases xs) (auto split: option.splits)

lemma max_by_key_Some: "max_by_key f xs = Some x \<Longrightarrow> x \<in> set xs \<and> (\<forall>y \<in> set xs. f y \<le> f x)"
  by (induction xs arbitrary: x) (auto split: option.splits if_splits)

lemma length_LINE_POINTS [simp]: "length LINE_POINTS = 7"
  by (simp add: LINE_POINTS_def fano_N_def)

lemma LINE_POINTS_eval:
  "LINE_POINTS = [[4, 5, 6], [1, 3, 4], [2, 3, 6], [1, 2, 5], [0, 1, 6], [0, 3, 5], [0, 2, 4]]" (is "_ = ?v")
proof -
  have "LINE_POINTS = map (\<lambda>l. filter (\<lambda>p. incident_gf2 (coords_at p) (coords_at l)) [0, 1, 2, 3, 4, 5, 6]) [0, 1, 2, 3, 4, 5, 6]"
    by (simp add: LINE_POINTS_def fano_N_def upt7)
  also have "\<dots> = ?v" by (simp add: incident_gf2_def coords_at_def)
  finally show ?thesis .
qed

lemma leader_line_lt [simp]: "leader_line C seed height round < 7"
  by (simp add: leader_line_def fano_N_def)

text \<open>
  The election always returns a validator of the cell: the drawn line exists, its public leader lies on it,
  and the leader is entitled to propose.
\<close>

theorem leader_on_line:
  "leader C seed height round < 7 \<and> is_line_member C seed height round (leader C seed height round)"
proof -
  let ?ms = "LINE_POINTS ! leader_line C seed height round"
  have ms: "?ms \<in> set LINE_POINTS" by (simp add: nth_mem)
  then have ne: "?ms \<noteq> []" and lt: "\<forall>m \<in> set ?ms. m < 7" by (auto simp: LINE_POINTS_eval)
  obtain m where m: "min_by_key (\<lambda>m. hash_labeled C LEADER_MEMBER_LABEL (election_preimage seed height round @ [word_of_nat m])) ?ms = Some m"
    using ne by fastforce
  then have "leader C seed height round = m" by (simp add: leader_def line_members_def Let_def)
  then show ?thesis using min_by_key_Some [OF m] lt by (simp add: is_line_member_def line_members_def)
qed

text \<open>
  Two lines of a cell meet in exactly one validator, and \<open>cross_shard_bridge\<close> names it: every pair of
  distinct line committees has one common member to carry messages between them.
\<close>

theorem bridge_is_the_common_member:
  assumes "a < 7" "b < 7" "a \<noteq> b"
  shows "\<exists>p. cross_shard_bridge a b = Some p \<and> set (LINE_POINTS ! a) \<inter> set (LINE_POINTS ! b) = {p}"
proof -
  have "\<forall>a < 7. \<forall>b < 7. a \<noteq> b \<longrightarrow>
      (\<exists>p. List.find (\<lambda>p. p \<in> set (LINE_POINTS ! b)) (LINE_POINTS ! a) = Some p \<and> set (LINE_POINTS ! a) \<inter> set (LINE_POINTS ! b) = {p})"
    unfolding all7 LINE_POINTS_eval by simp
  then show ?thesis using assms by (simp add: cross_shard_bridge_def line_members_def fano_N_def)
qed

end
