(* ===== verification/Taxis_Block.thy ===== *)
theory Taxis_Block
  imports Wire_Varint Taxis_Quorum Threshold_Seal Taxis_Committee Primitives_Codec
begin

text \<open>
  Sealed transactions (\<open>fanos-taxis/src/tx.rs\<close>), blocks (\<open>block.rs\<close>) and the shard messages and frames whose
  overhead bounds a block's size (\<open>wire.rs\<close>, \<open>fanos-wire/src/frame.rs\<close>). A header commits to the ordered
  transactions, to the erasure-coded payload, to the certificate of the parent and to the openings the block
  carries; \<open>verify_structure\<close> recomputes all four.
\<close>

section \<open>Sealed transactions\<close>

definition KEY_LABEL :: string where "KEY_LABEL = ''FANOS-v1/taxis-tx-key''"
definition NONCE_LABEL :: string where "NONCE_LABEL = ''FANOS-v1/taxis-tx-nonce''"
definition RND_LABEL :: string where "RND_LABEL = ''FANOS-v1/taxis-tx-sharing''"
definition KEM_LABEL :: string where "KEM_LABEL = ''FANOS-v1/taxis-tx-kem''"
definition COMMIT_LABEL :: string where "COMMIT_LABEL = ''FANOS-v1/taxis-tx-commit''"

record sealed_tx =
  st_epoch :: u64
  st_sealed :: threshold_sealed

definition stx_seal ::
    "('e, 'm, 's) crypto \<Rightarrow> ('p, 'k, 'c) sealing \<Rightarrow> byte list \<Rightarrow> u64 \<Rightarrow> 'p list \<Rightarrow> byte \<Rightarrow> byte list \<Rightarrow> threshold_error + sealed_tx" where
  "stx_seal C S payload epoch member_keys threshold seed =
     (let key = hash_labeled C KEY_LABEL seed;
          nonce_full = hash_labeled C NONCE_LABEL seed
      in if length nonce_full < 12 then Inl Malformed
         else let nonce = take 12 nonce_full;
                  key_rnd = hash_xof C RND_LABEL seed (unat (saturating_sub threshold 1) * 32);
                  kem_seed = hash_labeled C KEM_LABEL seed
              in bindR (threshold_seal C S payload key nonce threshold member_keys key_rnd kem_seed)
                   (\<lambda>sealed. Inr \<lparr>st_epoch = epoch, st_sealed = sealed\<rparr>))"

definition stx_commit :: "('e, 'm, 's) crypto \<Rightarrow> sealed_tx \<Rightarrow> byte list" where
  "stx_commit C tx = hash_labeled C COMMIT_LABEL (ts_to_bytes (st_sealed tx) @ put_word 8 (st_epoch tx))"

definition stx_member_share :: "('e, 'm, 's) crypto \<Rightarrow> ('p, 'k, 'c) sealing \<Rightarrow> sealed_tx \<Rightarrow> nat \<Rightarrow> 'k \<Rightarrow> share option" where
  "stx_member_share C S tx i member_secret = member_share C S (st_sealed tx) i member_secret"

definition stx_open :: "('p, 'k, 'c) sealing \<Rightarrow> sealed_tx \<Rightarrow> share list \<Rightarrow> threshold_error + byte list" where
  "stx_open S tx shares = threshold_open S (st_sealed tx) shares"

definition stx_member_count :: "sealed_tx \<Rightarrow> nat" where
  "stx_member_count tx = member_count (st_sealed tx)"

definition sealed_tx_to_bytes :: "sealed_tx \<Rightarrow> byte list" where
  "sealed_tx_to_bytes tx = put_word 8 (st_epoch tx) @ ts_to_bytes (st_sealed tx)"

definition sealed_tx_from_bytes :: "byte list \<Rightarrow> sealed_tx option" where
  "sealed_tx_from_bytes bs = do {
     (epoch, r) \<leftarrow> rd_word 8 bs;
     sealed \<leftarrow> ts_from_bytes r;
     Some \<lparr>st_epoch = epoch, st_sealed = sealed\<rparr> }"

section \<open>Shard messages and frames\<close>

datatype shard_msg =
    Deliver "byte list" byte "byte list"
  | Request "byte list" byte
  | NeedSkeleton "byte list"

primrec shard_block :: "shard_msg \<Rightarrow> byte list" where
  "shard_block (Deliver block index data) = block"
| "shard_block (Request block index) = block"
| "shard_block (NeedSkeleton block) = block"

primrec shard_to_bytes :: "shard_msg \<Rightarrow> byte list" where
  "shard_to_bytes (Deliver block index data) = [0] @ block @ [index] @ put_word 4 (len_u32 (length data)) @ data"
| "shard_to_bytes (Request block index) = [1] @ block @ [index]"
| "shard_to_bytes (NeedSkeleton block) = [2] @ block"

definition shard_from_bytes :: "byte list \<Rightarrow> shard_msg option" where
  "shard_from_bytes bs = do {
     (tag, rest) \<leftarrow> rd_byte bs;
     (block, r) \<leftarrow> rd_take 32 rest;
     if tag = 0 then do {
       (index, r) \<leftarrow> rd_byte r;
       (len, r) \<leftarrow> (rd_word 4 :: u32 reader) r;
       if length rest \<noteq> 37 + unat len then None else Some (Deliver block index r) }
     else if tag = 1 then do {
       (index, r) \<leftarrow> rd_byte r;
       if length rest \<noteq> 33 then None else Some (Request block index) }
     else if tag = 2 then if length rest \<noteq> 32 then None else Some (NeedSkeleton block)
     else None }"

definition MAX_FRAME :: nat where "MAX_FRAME = 2 ^ 20"
definition FrameType_App :: nat where "FrameType_App = 0x70"
definition KIND_CONSENSUS :: byte where "KIND_CONSENSUS = 0"
definition KIND_TX :: byte where "KIND_TX = 1"
definition KIND_SHARD :: byte where "KIND_SHARD = 2"

definition encode_frame :: "nat \<Rightarrow> byte list \<Rightarrow> byte list" where
  "encode_frame type_code body = varint_encode type_code @ varint_encode (length body) @ body"

definition decode_frame :: "byte list \<Rightarrow> ((nat \<times> byte list) \<times> byte list) option" where
  "decode_frame buf = do {
     (type_code, rest) \<leftarrow> varint_decode buf;
     (len, rest) \<leftarrow> varint_decode rest;
     (body, rest) \<leftarrow> rd_take len rest;
     Some ((type_code, body), rest) }"

definition app_frame :: "byte \<Rightarrow> byte list \<Rightarrow> byte list" where
  "app_frame kind payload = encode_frame FrameType_App (kind # payload)"

definition shard_to_frame :: "shard_msg \<Rightarrow> byte list" where
  "shard_to_frame msg = app_frame KIND_SHARD (shard_to_bytes msg)"

definition tx_to_frame :: "sealed_tx \<Rightarrow> byte list" where
  "tx_to_frame tx = app_frame KIND_TX (sealed_tx_to_bytes tx)"

definition app_envelope :: nat where
  "app_envelope =
     (let probe = NeedSkeleton (replicate 32 0);
          framed = length (shard_to_frame probe);
          body = length (shard_to_bytes probe) + 1;
          type_varint = framed - body - encoded_len body
      in type_varint + encoded_len MAX_FRAME + 1)"

definition shard_frame_overhead :: nat where
  "shard_frame_overhead = length (shard_to_bytes (Deliver (replicate 32 0) 0 [])) + app_envelope"

definition CONSENSUS_VARIANT_TAG :: nat where "CONSENSUS_VARIANT_TAG = 1"

definition consensus_msg_overhead :: nat where
  "consensus_msg_overhead = CONSENSUS_VARIANT_TAG + app_envelope"

section \<open>Blocks\<close>

definition HEADER_LABEL :: string where "HEADER_LABEL = ''FANOS-v1/taxis-block-header''"
definition TX_ROOT_LABEL :: string where "TX_ROOT_LABEL = ''FANOS-v1/taxis-tx-root''"
definition DA_COMMIT_LABEL :: string where "DA_COMMIT_LABEL = ''FANOS-v1/taxis-da-commit''"
definition LAST_COMMIT_LABEL :: string where "LAST_COMMIT_LABEL = ''FANOS-v1/taxis-last-commit''"
definition REVEAL_ROOT_LABEL :: string where "REVEAL_ROOT_LABEL = ''FANOS-v1/taxis-reveal-root''"
definition GENESIS_PARENT :: "byte list" where "GENESIS_PARENT = replicate 32 0"

record leader_witness =
  lw_output :: "byte list"
  lw_proof :: "byte list list"

definition witness_to_bytes :: "leader_witness \<Rightarrow> byte list" where
  "witness_to_bytes w = lw_output w @ vrf_proof_to_bytes (lw_proof w)"

definition witness_from_bytes :: "byte list \<Rightarrow> leader_witness option" where
  "witness_from_bytes bs =
     (if length bs < 32 \<or> (length bs - 32) mod 32 \<noteq> 0 then None
      else let proof_bytes = drop 32 bs; height = (word_of_nat (length proof_bytes div 32) :: u32)
           in do { siblings \<leftarrow> vrf_proof_from_bytes proof_bytes height;
                   Some \<lparr>lw_output = take 32 bs, lw_proof = siblings\<rparr> })"

record block_header =
  hd_parent :: "byte list"
  hd_height :: u64
  hd_epoch :: u64
  hd_proposer :: byte
  hd_tx_root :: "byte list"
  hd_da_commit :: "byte list"
  hd_last_commit_root :: "byte list"
  hd_reveal_root :: "byte list"

text \<open>The derived \<open>Wire\<close> codec: the fields in order.\<close>

definition header_to_wire :: "block_header \<Rightarrow> byte list" where
  "header_to_wire h = hd_parent h @ put_word 8 (hd_height h) @ put_word 8 (hd_epoch h) @ [hd_proposer h] @
     hd_tx_root h @ hd_da_commit h @ hd_last_commit_root h @ hd_reveal_root h"

definition rd_header :: "block_header reader" where
  "rd_header bs = do {
     (parent, r) \<leftarrow> rd_take 32 bs;
     (height, r) \<leftarrow> rd_word 8 r;
     (epoch, r) \<leftarrow> rd_word 8 r;
     (proposer, r) \<leftarrow> rd_byte r;
     (tx_root, r) \<leftarrow> rd_take 32 r;
     (da_commit, r) \<leftarrow> rd_take 32 r;
     (last_commit_root, r) \<leftarrow> rd_take 32 r;
     (reveal_root, r) \<leftarrow> rd_take 32 r;
     Some (\<lparr>hd_parent = parent, hd_height = height, hd_epoch = epoch, hd_proposer = proposer, hd_tx_root = tx_root,
            hd_da_commit = da_commit, hd_last_commit_root = last_commit_root, hd_reveal_root = reveal_root\<rparr>, r) }"

definition header_hash :: "('e, 'm, 's) crypto \<Rightarrow> block_header \<Rightarrow> byte list" where
  "header_hash C h = hash_labeled C HEADER_LABEL (header_to_wire h)"

record committed_reveal =
  cr_commit :: "byte list"
  cr_member :: byte
  cr_share :: "byte list"

definition cr_to_bytes :: "committed_reveal \<Rightarrow> byte list" where
  "cr_to_bytes c = cr_commit c @ [cr_member c] @ put_var_bytes (cr_share c)"

definition CR_MIN_WIRE :: nat where "CR_MIN_WIRE = 32 + 1 + 4"

definition rd_committed_reveal :: "committed_reveal reader" where
  "rd_committed_reveal bs = do {
     (commit, r) \<leftarrow> rd_take 32 bs;
     (member, r) \<leftarrow> rd_byte r;
     (share, r) \<leftarrow> rd_var_bytes r;
     Some (\<lparr>cr_commit = commit, cr_member = member, cr_share = share\<rparr>, r) }"

record block =
  b_header :: block_header
  b_sealed_txs :: "sealed_tx list"
  b_reveals :: "committed_reveal list"
  b_witness :: "leader_witness option"
  b_last_commit :: "certificate option"
  b_pol :: "certificate option"

section \<open>Commitments\<close>

definition commits_of :: "('e, 'm, 's) crypto \<Rightarrow> sealed_tx list \<Rightarrow> byte list list" where
  "commits_of C sealed = map (stx_commit C) sealed"

definition tx_root :: "('e, 'm, 's) crypto \<Rightarrow> byte list list \<Rightarrow> byte list" where
  "tx_root C commits = hash_labeled C TX_ROOT_LABEL (concat commits)"

definition commit_last :: "('e, 'm, 's) crypto \<Rightarrow> certificate option \<Rightarrow> byte list" where
  "commit_last C last_commit =
     (case last_commit of Some cert \<Rightarrow> hash_labeled C LAST_COMMIT_LABEL (cert_to_bytes cert) | None \<Rightarrow> replicate 32 0)"

definition commit_reveals :: "('e, 'm, 's) crypto \<Rightarrow> committed_reveal list \<Rightarrow> byte list" where
  "commit_reveals C reveals =
     (if reveals = [] then replicate 32 0 else hash_labeled C REVEAL_ROOT_LABEL (concat (map cr_to_bytes reveals)))"

definition commit_shards :: "('e, 'm, 's) crypto \<Rightarrow> byte list list \<Rightarrow> byte list" where
  "commit_shards C shards =
     hash_labeled C DA_COMMIT_LABEL (concat (map (\<lambda>shard. put_word 4 (word_of_nat (length shard) :: u32) @ shard) shards))"

definition encode_payload :: "sealed_tx list \<Rightarrow> byte list" where
  "encode_payload sealed = vec_encode (vec_encode (\<lambda>b. [b])) (map sealed_tx_to_bytes sealed)"

definition decode_payload :: "byte list \<Rightarrow> sealed_tx list option" where
  "decode_payload payload = do {
     framed \<leftarrow> rd_whole (vec_decode (vec_decode rd_byte)) payload;
     those (map sealed_tx_from_bytes framed) }"

section \<open>Operations of a block\<close>

definition assemble :: "('e, 'm, 's) crypto \<Rightarrow> byte list \<Rightarrow> u64 \<Rightarrow> u64 \<Rightarrow> byte \<Rightarrow> sealed_tx list \<Rightarrow> block" where
  "assemble C parent height epoch proposer sealed_txs =
     \<lparr>b_header = \<lparr>hd_parent = parent, hd_height = height, hd_epoch = epoch, hd_proposer = proposer,
        hd_tx_root = tx_root C (commits_of C sealed_txs),
        hd_da_commit = commit_shards C (erasure_encode (encode_payload sealed_txs)),
        hd_last_commit_root = commit_last C None, hd_reveal_root = commit_reveals C []\<rparr>,
      b_sealed_txs = sealed_txs, b_reveals = [], b_witness = None, b_last_commit = None, b_pol = None\<rparr>"

definition with_last_commit :: "('e, 'm, 's) crypto \<Rightarrow> block \<Rightarrow> certificate \<Rightarrow> block" where
  "with_last_commit C b cert =
     b\<lparr>b_header := (b_header b)\<lparr>hd_last_commit_root := commit_last C (Some cert)\<rparr>, b_last_commit := Some cert\<rparr>"

definition with_pol :: "block \<Rightarrow> certificate \<Rightarrow> block" where
  "with_pol b pol = b\<lparr>b_pol := Some pol\<rparr>"

definition with_witness :: "block \<Rightarrow> leader_witness \<Rightarrow> block" where
  "with_witness b w = b\<lparr>b_witness := Some w\<rparr>"

definition with_reveals :: "('e, 'm, 's) crypto \<Rightarrow> block \<Rightarrow> committed_reveal list \<Rightarrow> block" where
  "with_reveals C b reveals = b\<lparr>b_header := (b_header b)\<lparr>hd_reveal_root := commit_reveals C reveals\<rparr>, b_reveals := reveals\<rparr>"

definition with_sealed_txs :: "block \<Rightarrow> sealed_tx list \<Rightarrow> block" where
  "with_sealed_txs b sealed_txs = b\<lparr>b_sealed_txs := sealed_txs\<rparr>"

definition block_hash :: "('e, 'm, 's) crypto \<Rightarrow> block \<Rightarrow> byte list" where
  "block_hash C b = header_hash C (b_header b)"

definition skeleton :: "block \<Rightarrow> block" where
  "skeleton b = \<lparr>b_header = b_header b, b_sealed_txs = [], b_reveals = b_reveals b, b_witness = b_witness b,
     b_last_commit = b_last_commit b, b_pol = b_pol b\<rparr>"

text \<open>\<open>map(to_bytes).unwrap_or_default()\<close>: an absent part is the empty byte string.\<close>

definition opt_bytes :: "('a \<Rightarrow> byte list) \<Rightarrow> 'a option \<Rightarrow> byte list" where
  "opt_bytes enc v = (case v of None \<Rightarrow> [] | Some x \<Rightarrow> enc x)"

definition opt_from_bytes :: "(byte list \<Rightarrow> 'a option) \<Rightarrow> byte list \<Rightarrow> 'a option option" where
  "opt_from_bytes dec bs = (if bs = [] then Some None else map_option Some (dec bs))"

definition block_to_bytes :: "block \<Rightarrow> byte list" where
  "block_to_bytes b =
     header_to_wire (b_header b) @ encode_payload (b_sealed_txs b) @
     put_var_bytes (opt_bytes cert_to_bytes (b_last_commit b)) @
     put_var_bytes (opt_bytes witness_to_bytes (b_witness b)) @
     put_var_bytes (opt_bytes cert_to_bytes (b_pol b)) @
     put_u32 (word_of_nat (length (b_reveals b))) @ concat (map cr_to_bytes (b_reveals b))"

definition block_from_bytes :: "byte list \<Rightarrow> block option" where
  "block_from_bytes bs = do {
     (header, r) \<leftarrow> rd_header bs;
     (framed, r) \<leftarrow> vec_decode (vec_decode rd_byte) r;
     sealed_txs \<leftarrow> those (map sealed_tx_from_bytes framed);
     (last_commit_bytes, r) \<leftarrow> rd_var_bytes r;
     last_commit \<leftarrow> opt_from_bytes cert_from_bytes last_commit_bytes;
     (witness_bytes, r) \<leftarrow> rd_var_bytes r;
     witness \<leftarrow> opt_from_bytes witness_from_bytes witness_bytes;
     (pol_bytes, r) \<leftarrow> rd_var_bytes r;
     pol \<leftarrow> opt_from_bytes cert_from_bytes pol_bytes;
     (reveals, r) \<leftarrow> rd_bounded_seq CR_MIN_WIRE rd_committed_reveal r;
     if r \<noteq> [] then None
     else Some \<lparr>b_header = header, b_sealed_txs = sealed_txs, b_reveals = reveals, b_witness = witness,
                b_last_commit = last_commit, b_pol = pol\<rparr> }"

definition tx_commits :: "('e, 'm, 's) crypto \<Rightarrow> block \<Rightarrow> byte list list" where
  "tx_commits C b = commits_of C (b_sealed_txs b)"

definition payload_bytes :: "block \<Rightarrow> byte list" where
  "payload_bytes b = encode_payload (b_sealed_txs b)"

definition payload_budget :: "block \<Rightarrow> nat" where
  "payload_budget b =
     (let overhead = length (block_to_bytes b) - length (payload_bytes b);
          whole_block = MAX_FRAME - (overhead + consensus_msg_overhead);
          via_shards = (MAX_FRAME - shard_frame_overhead) * erasure_K
      in min whole_block via_shards)"

definition fits_frame :: "block \<Rightarrow> bool" where
  "fits_frame b \<longleftrightarrow> length (payload_bytes b) \<le> payload_budget b"

definition da_shards :: "block \<Rightarrow> byte list list" where
  "da_shards b = erasure_encode (payload_bytes b)"

definition last_commit_matches :: "('e, 'm, 's) crypto \<Rightarrow> block \<Rightarrow> bool" where
  "last_commit_matches C b \<longleftrightarrow> hd_last_commit_root (b_header b) = commit_last C (b_last_commit b)"

definition reveals_match :: "('e, 'm, 's) crypto \<Rightarrow> block \<Rightarrow> bool" where
  "reveals_match C b \<longleftrightarrow> hd_reveal_root (b_header b) = commit_reveals C (b_reveals b)"

definition verify_structure :: "('e, 'm, 's) crypto \<Rightarrow> block \<Rightarrow> bool" where
  "verify_structure C b \<longleftrightarrow>
     hd_tx_root (b_header b) = tx_root C (tx_commits C b) \<and>
     hd_da_commit (b_header b) = commit_shards C (da_shards b) \<and>
     fits_frame b \<and> last_commit_matches C b \<and> reveals_match C b"

definition reconstruct_payload :: "('e, 'm, 's) crypto \<Rightarrow> block \<Rightarrow> byte list option list \<Rightarrow> sealed_tx list option" where
  "reconstruct_payload C b shards = do {
     payload \<leftarrow> erasure_reconstruct shards;
     if commit_shards C (erasure_encode payload) \<noteq> hd_da_commit (b_header b) then None
     else decode_payload payload }"

section \<open>Packing a block\<close>

definition PREFIX_MAX :: nat where "PREFIX_MAX = 8"

primrec pack_loop :: "nat \<Rightarrow> sealed_tx list \<Rightarrow> nat \<Rightarrow> sealed_tx list" where
  "pack_loop budget [] used = []"
| "pack_loop budget (tx # txs) used =
     (let cost = length (sealed_tx_to_bytes tx) + PREFIX_MAX
      in if used + cost > budget then [] else tx # pack_loop budget txs (used + cost))"

definition pack_to_budget :: "sealed_tx list \<Rightarrow> nat \<Rightarrow> sealed_tx list" where
  "pack_to_budget sealed budget = pack_loop budget sealed PREFIX_MAX"

definition WITNESS_ALLOWANCE :: nat where "WITNESS_ALLOWANCE = 32 + 32 * unat MAX_HEIGHT"

definition budget_for ::
    "('e, 'm, 's) crypto \<Rightarrow> byte list \<Rightarrow> u64 \<Rightarrow> u64 \<Rightarrow> byte \<Rightarrow> certificate option \<Rightarrow> committed_reveal list \<Rightarrow> nat" where
  "budget_for C parent height epoch proposer last_commit reveals =
     (let sk = with_reveals C (assemble C parent height epoch proposer []) reveals;
          sk = (case last_commit of Some cert \<Rightarrow> with_pol (with_last_commit C sk cert) cert | None \<Rightarrow> sk)
      in payload_budget sk - WITNESS_ALLOWANCE)"

definition seal_bytes_per_tx :: "cell_params \<Rightarrow> nat" where
  "seal_bytes_per_tx p = min (seal_committee_size p * SEALED_SHARE_LEN) (2 ^ 64 - 1)"

definition seal_fits_a_block :: "('e, 'm, 's) crypto \<Rightarrow> cell_params \<Rightarrow> bool" where
  "seal_fits_a_block C cell \<longleftrightarrow> seal_bytes_per_tx cell \<le> payload_budget (assemble C GENESIS_PARENT 0 0 0 [])"

section \<open>The codecs\<close>

definition header_wf :: "block_header \<Rightarrow> bool" where
  "header_wf h \<longleftrightarrow> length (hd_parent h) = 32 \<and> length (hd_tx_root h) = 32 \<and> length (hd_da_commit h) = 32 \<and>
     length (hd_last_commit_root h) = 32 \<and> length (hd_reveal_root h) = 32"

interpretation header_codec: codec header_to_wire rd_header header_wf
proof (rule codecI)
  fix bs x r
  show "rd_header bs = Some (x, r) \<longleftrightarrow> header_wf x \<and> bs = header_to_wire x @ r"
  proof
    assume "rd_header bs = Some (x, r)"
    then show "header_wf x \<and> bs = header_to_wire x @ r"
      by (auto simp: rd_header_def bind_eq_Some_conv codec_simps rd_take_iff header_wf_def header_to_wire_def)
  next
    assume "header_wf x \<and> bs = header_to_wire x @ r"
    then show "rd_header bs = Some (x, r)"
      by (simp add: rd_header_def header_to_wire_def header_wf_def word_dec_enc)
  qed
qed

definition cr_wf :: "committed_reveal \<Rightarrow> bool" where
  "cr_wf c \<longleftrightarrow> length (cr_commit c) = 32 \<and> length (cr_share c) < 2 ^ 32"

interpretation cr_codec: codec cr_to_bytes rd_committed_reveal cr_wf
proof (rule codecI)
  fix bs x r
  show "rd_committed_reveal bs = Some (x, r) \<longleftrightarrow> cr_wf x \<and> bs = cr_to_bytes x @ r"
  proof
    assume "rd_committed_reveal bs = Some (x, r)"
    then show "cr_wf x \<and> bs = cr_to_bytes x @ r"
      by (auto simp: rd_committed_reveal_def bind_eq_Some_conv codec_simps rd_take_iff var_bytes.dec_iff cr_wf_def cr_to_bytes_def)
  next
    assume "cr_wf x \<and> bs = cr_to_bytes x @ r"
    then show "rd_committed_reveal bs = Some (x, r)"
      by (simp add: rd_committed_reveal_def cr_to_bytes_def cr_wf_def var_bytes.dec_enc)
  qed
qed

interpretation byte_codec: codec "\<lambda>b. [b]" rd_byte "\<lambda>_. True"
  by (rule codecI) (simp add: codec_simps)

lemmas codec_bytes = codec_varint_vec [OF byte_codec.codec_axioms]
lemmas codec_framed = codec_varint_vec [OF codec_bytes]

definition sealed_tx_wf :: "sealed_tx \<Rightarrow> bool" where
  "sealed_tx_wf tx \<longleftrightarrow> ts_wf (st_sealed tx)"

text \<open>The sealed part delimits itself, so bytes after it are ignored.\<close>

lemma stx_from_to_bytes: "sealed_tx_wf tx \<Longrightarrow> sealed_tx_from_bytes (sealed_tx_to_bytes tx @ filler) = Some tx"
  by (simp add: sealed_tx_from_bytes_def sealed_tx_to_bytes_def sealed_tx_wf_def word_dec_enc ts_from_to_bytes)

lemma those_stx: "list_all sealed_tx_wf txs \<Longrightarrow> those (map sealed_tx_from_bytes (map sealed_tx_to_bytes txs)) = Some txs"
  using stx_from_to_bytes [where filler = "[]"] by (induction txs) auto

definition payload_wf :: "sealed_tx list \<Rightarrow> bool" where
  "payload_wf txs \<longleftrightarrow> list_all (\<lambda>tx. sealed_tx_wf tx \<and> length (sealed_tx_to_bytes tx) \<le> varint_MAX) txs \<and> length txs \<le> varint_MAX"

lemma vec_decode_payload:
  assumes "payload_wf txs"
  shows "vec_decode (vec_decode rd_byte) (encode_payload txs @ r) = Some (map sealed_tx_to_bytes txs, r)"
  unfolding encode_payload_def
  by (rule codec.dec_enc [OF codec_framed]) (use assms in \<open>auto simp: payload_wf_def list_all_iff\<close>)

lemma decode_encode_payload: "payload_wf txs \<Longrightarrow> decode_payload (encode_payload txs) = Some txs"
  using vec_decode_payload [of txs "[]"] those_stx [of txs]
  by (simp add: decode_payload_def rd_whole_def payload_wf_def list_all_iff)

definition witness_wf :: "leader_witness \<Rightarrow> bool" where
  "witness_wf w \<longleftrightarrow> length (lw_output w) = 32 \<and> list_all (\<lambda>s. length s = 32) (lw_proof w) \<and> length (lw_proof w) < 2 ^ 27 - 1"

lemma length_concat_32: "list_all (\<lambda>s. length s = 32) ss \<Longrightarrow> length (concat ss) = length ss * 32"
  by (induction ss) auto

lemma witness_from_to_bytes: "witness_wf w \<Longrightarrow> witness_from_bytes (witness_to_bytes w) = Some w"
proof -
  assume wf: "witness_wf w"
  then have len: "length (concat (lw_proof w)) = length (lw_proof w) * 32" by (simp add: witness_wf_def length_concat_32)
  have "unat (word_of_nat (length (lw_proof w)) :: u32) = length (lw_proof w)"
    using wf by (simp add: witness_wf_def unat_of_nat take_bit_nat_eq_self)
  then show ?thesis
    using wf len by (simp add: witness_from_bytes_def witness_to_bytes_def vrf_proof_to_bytes_def vrf_proof_from_bytes_def
        witness_wf_def as_chunks32_concat)
qed

lemma opt_from_to_bytes:
  assumes "\<And>x. v = Some x \<Longrightarrow> dec (enc x) = Some x \<and> enc x \<noteq> []"
  shows "opt_from_bytes dec (opt_bytes enc v) = Some v"
  using assms by (cases v) (auto simp: opt_from_bytes_def opt_bytes_def)

definition block_wf :: "block \<Rightarrow> bool" where
  "block_wf b \<longleftrightarrow> header_wf (b_header b) \<and> payload_wf (b_sealed_txs b) \<and> list_all cr_wf (b_reveals b) \<and>
     length (b_reveals b) < 2 ^ 32 \<and> pred_option witness_wf (b_witness b) \<and>
     pred_option cert_wf (b_last_commit b) \<and> pred_option cert_wf (b_pol b) \<and>
     length (opt_bytes cert_to_bytes (b_last_commit b)) < 2 ^ 32 \<and> length (opt_bytes cert_to_bytes (b_pol b)) < 2 ^ 32"

lemma witness_short: "pred_option witness_wf w \<Longrightarrow> length (opt_bytes witness_to_bytes w) < 2 ^ 32"
  by (cases w) (auto simp: opt_bytes_def witness_wf_def witness_to_bytes_def vrf_proof_to_bytes_def length_concat_32)

lemma rd_reveals:
  assumes "list_all cr_wf rs" "length rs < 2 ^ 32"
  shows "rd_bounded_seq CR_MIN_WIRE rd_committed_reveal (put_u32 (word_of_nat (length rs)) @ concat (map cr_to_bytes rs)) = Some (rs, [])"
proof -
  have n: "unat (word_of_nat (length rs) :: u32) = length rs" using assms(2) by (simp add: unat_of_nat take_bit_nat_eq_self)
  have "37 * length rs \<le> length (concat (map cr_to_bytes rs))"
    using assms(1) by (intro concat_map_length_ge) (auto simp: list_all_iff cr_wf_def cr_to_bytes_def put_var_bytes_def)
  then have "\<not> length rs > length (concat (map cr_to_bytes rs)) div 37"
    by (simp add: not_less less_eq_div_iff_mult_less_eq mult.commute)
  moreover have "rd_rep (length rs) rd_committed_reveal (concat (map cr_to_bytes rs)) = Some (rs, [])"
    using cr_codec.rep_iff [of "length rs" "concat (map cr_to_bytes rs)" rs "[]"] assms(1) by simp
  ultimately show ?thesis using n by (simp add: rd_bounded_seq_def CR_MIN_WIRE_def)
qed

text \<open>
  Blocks survive the wire: a well-formed block with its sealed transactions, openings, lottery witness, parent
  certificate and proof of lock is read back from its bytes unchanged.
\<close>

theorem block_roundtrip:
  assumes "block_wf b"
  shows "block_from_bytes (block_to_bytes b) = Some b"
proof -
  have wf: "header_wf (b_header b)" "payload_wf (b_sealed_txs b)" "list_all cr_wf (b_reveals b)" "length (b_reveals b) < 2 ^ 32"
    "length (opt_bytes cert_to_bytes (b_last_commit b)) < 2 ^ 32" "length (opt_bytes cert_to_bytes (b_pol b)) < 2 ^ 32"
    "length (opt_bytes witness_to_bytes (b_witness b)) < 2 ^ 32"
    using assms witness_short by (auto simp: block_wf_def)
  have cert: "opt_from_bytes cert_from_bytes (opt_bytes cert_to_bytes v) = Some v" if "pred_option cert_wf v" for v
    using that by (intro opt_from_to_bytes) (auto simp: cert_codec_bijective cert_to_bytes_def)
  have w: "opt_from_bytes witness_from_bytes (opt_bytes witness_to_bytes (b_witness b)) = Some (b_witness b)"
    using assms by (intro opt_from_to_bytes) (auto simp: block_wf_def witness_from_to_bytes, auto simp: witness_wf_def witness_to_bytes_def)
  have t: "those (map sealed_tx_from_bytes (map sealed_tx_to_bytes (b_sealed_txs b))) = Some (b_sealed_txs b)"
    using wf(2) by (intro those_stx) (auto simp: payload_wf_def list_all_iff)
  show ?thesis
    unfolding block_from_bytes_def block_to_bytes_def
    using cert [of "b_last_commit b"] cert [of "b_pol b"] w t assms wf
    by (simp add: header_codec.dec_enc vec_decode_payload var_bytes.dec_enc rd_reveals block_wf_def)
qed

section \<open>A packed proposal passes its own checks\<close>

lemma envelope_eval: "app_envelope = 7" "shard_frame_overhead = 45" "consensus_msg_overhead = 8"
proof -
  have "length (varint_encode v) = encoded_len v" for v by (simp add: varint_encode_def Let_def)
  then show "app_envelope = 7" "shard_frame_overhead = 45" "consensus_msg_overhead = 8"
    by (simp_all add: app_envelope_def shard_frame_overhead_def consensus_msg_overhead_def CONSENSUS_VARIANT_TAG_def
        shard_to_frame_def app_frame_def encode_frame_def FrameType_App_def MAX_FRAME_def encoded_len_def varint_MAX_def Let_def)
qed

lemma length_varint_le: "length (varint_encode v) \<le> 8"
  by (simp add: varint_encode_def encoded_len_def Let_def)

lemma pack_loop_prefix: "prefix (pack_loop budget txs used) txs"
  by (induction txs arbitrary: used) (auto simp: Let_def)

lemma pack_loop_cost:
  "used \<le> budget \<Longrightarrow>
    used + length (concat (map (\<lambda>tx. vec_encode (\<lambda>b. [b]) (sealed_tx_to_bytes tx)) (pack_loop budget txs used))) \<le> budget"
proof (induction txs arbitrary: used)
  case (Cons tx txs)
  let ?c = "length (sealed_tx_to_bytes tx) + PREFIX_MAX"
  have "length (vec_encode (\<lambda>b. [b]) (sealed_tx_to_bytes tx)) \<le> ?c"
    using length_varint_le by (simp add: u8_vec PREFIX_MAX_def add.commute)
  then show ?case using Cons.IH [of "used + ?c"] Cons.prems by (auto simp: Let_def)
qed simp

lemma pack_fits: "8 \<le> budget \<Longrightarrow> length (encode_payload (pack_to_budget txs budget)) \<le> budget"
  using pack_loop_cost [of PREFIX_MAX budget txs] length_varint_le [of "length (pack_to_budget txs budget)"]
  by (simp add: encode_payload_def vec_encode_def [of "vec_encode _"] pack_to_budget_def PREFIX_MAX_def comp_def)

definition block_overhead :: "block \<Rightarrow> nat" where
  "block_overhead b = length (header_to_wire (b_header b)) +
     length (put_var_bytes (opt_bytes cert_to_bytes (b_last_commit b))) +
     length (put_var_bytes (opt_bytes witness_to_bytes (b_witness b))) +
     length (put_var_bytes (opt_bytes cert_to_bytes (b_pol b))) + 4 + length (concat (map cr_to_bytes (b_reveals b)))"

lemma payload_budget_overhead:
  "payload_budget b = min (MAX_FRAME - (block_overhead b + 8)) ((MAX_FRAME - 45) * 3)"
  by (simp add: payload_budget_def block_overhead_def block_to_bytes_def payload_bytes_def envelope_eval erasure_K_def Let_def)

lemma length_hash_labeled: "hash_width C \<Longrightarrow> length (hash_labeled C l x) = 32"
  by (simp add: hash_labeled_def hash_width_def)

lemmas commitment_lengths = length_hash_labeled commit_last_def commit_reveals_def commit_shards_def tx_root_def

lemma header_length: "header_wf h \<Longrightarrow> length (header_to_wire h) = 177"
  by (simp add: header_wf_def header_to_wire_def)

definition fresh_block ::
    "('e, 'm, 's) crypto \<Rightarrow> byte list \<Rightarrow> u64 \<Rightarrow> u64 \<Rightarrow> byte \<Rightarrow> certificate option \<Rightarrow> committed_reveal list \<Rightarrow> sealed_tx list \<Rightarrow> block" where
  "fresh_block C parent height epoch proposer last_commit reveals pool =
     (let b = with_reveals C (assemble C parent height epoch proposer
                (pack_to_budget pool (budget_for C parent height epoch proposer last_commit reveals))) reveals
      in case last_commit of None \<Rightarrow> b | Some cert \<Rightarrow> with_last_commit C b cert)"

text \<open>
  An honest proposal passes every structural check of its receivers. The block a validator assembles from
  any mempool, packed to the budget of its skeleton and carrying its openings, the parent certificate and
  (in the lottery round) a witness of a registered key, recomputes to its four commitments and fits the
  transport, whenever the openings and the certificate alone leave room for the empty payload.
\<close>

theorem fresh_block_verifies:
  assumes "hash_width C" "length parent = 32" "8 \<le> budget_for C parent height epoch proposer last_commit reveals"
    and "pred_option (\<lambda>w. length (witness_to_bytes w) \<le> WITNESS_ALLOWANCE) w"
  shows "verify_structure C ((fresh_block C parent height epoch proposer last_commit reveals pool)\<lparr>b_witness := w\<rparr>)"
    (is "verify_structure C ?b")
proof -
  let ?bud = "budget_for C parent height epoch proposer last_commit reveals"
  define sk where "sk = (case last_commit of Some cert \<Rightarrow> with_pol (with_last_commit C (with_reveals C (assemble C parent height epoch proposer []) reveals) cert) cert
      | None \<Rightarrow> with_reveals C (assemble C parent height epoch proposer []) reveals)"
  note defs = fresh_block_def assemble_def with_reveals_def with_last_commit_def with_pol_def
  have bud: "?bud = payload_budget sk - WITNESS_ALLOWANCE" by (simp add: budget_for_def sk_def Let_def)
  have wf: "header_wf (b_header ?b)" "header_wf (b_header sk)"
    using assms(1,2) by (cases last_commit; simp add: sk_def defs header_wf_def commitment_lengths Let_def)+
  have "length (opt_bytes witness_to_bytes w) \<le> WITNESS_ALLOWANCE" using assms(4) by (cases w) (auto simp: opt_bytes_def)
  then have "block_overhead ?b \<le> block_overhead sk + WITNESS_ALLOWANCE"
    unfolding block_overhead_def header_length [OF wf(1)] header_length [OF wf(2)]
    by (cases last_commit) (simp_all add: sk_def defs opt_bytes_def put_var_bytes_def Let_def)
  then have "?bud \<le> payload_budget ?b" unfolding bud payload_budget_overhead by linarith
  moreover have "payload_bytes ?b = encode_payload (pack_to_budget pool ?bud)"
    by (cases last_commit) (simp_all add: payload_bytes_def defs Let_def)
  ultimately have "fits_frame ?b" using pack_fits [OF assms(3), of pool] by (simp add: fits_frame_def)
  then show ?thesis
    by (cases last_commit) (simp_all add: verify_structure_def last_commit_matches_def reveals_match_def tx_commits_def
        da_shards_def payload_bytes_def defs Let_def)
qed

section \<open>A block hash identifies the block\<close>

definition header_input :: "block \<Rightarrow> byte list" where
  "header_input b = labeled_hasher HEADER_LABEL (header_to_wire (b_header b))"

definition shards_input :: "block \<Rightarrow> byte list" where
  "shards_input b = labeled_hasher DA_COMMIT_LABEL
     (concat (map (\<lambda>shard. put_word 4 (word_of_nat (length shard) :: u32) @ shard) (da_shards b)))"

definition optional_inputs :: "block \<Rightarrow> byte list set" where
  "optional_inputs b =
     (case b_last_commit b of None \<Rightarrow> {} | Some c \<Rightarrow> {labeled_hasher LAST_COMMIT_LABEL (cert_to_bytes c)}) \<union>
     (if b_reveals b = [] then {} else {labeled_hasher REVEAL_ROOT_LABEL (concat (map cr_to_bytes (b_reveals b)))})"

text \<open>The strings hashed to identify a block and to check its commitments (the transaction root apart).\<close>

definition block_inputs :: "block \<Rightarrow> byte list set" where
  "block_inputs b = {header_input b, shards_input b} \<union> optional_inputs b"

definition hits_zero :: "('e, 'm, 's) crypto \<Rightarrow> byte list set \<Rightarrow> bool" where
  "hits_zero C X \<longleftrightarrow> (\<exists>x \<in> X. blake3 C x = replicate 32 0)"

lemma shards_bytes_inj:
  assumes "length xs = length ys" "\<forall>x \<in> set (xs @ ys). length x < 2 ^ 32"
    and "concat (map (\<lambda>s. put_word 4 (word_of_nat (length s) :: u32) @ s) xs) = concat (map (\<lambda>s. put_word 4 (word_of_nat (length s) :: u32) @ s) ys)"
  shows "xs = ys"
  using assms
proof (induction xs ys rule: list_induct2)
  case (Cons x xs y ys)
  have "(word_of_nat (length x) :: u32) = word_of_nat (length y)" using Cons.prems(2) u32.enc_inj by simp
  then have "unat (word_of_nat (length x) :: u32) = unat (word_of_nat (length y) :: u32)" by simp
  then have "length x = length y" using Cons.prems(1) by (simp add: unat_of_nat take_bit_nat_eq_self)
  then show ?case using Cons by simp
qed simp

lemma length_as_chunks3_le: "length (as_chunks3 xs) \<le> length xs"
  by (induction xs rule: as_chunks3.induct) auto

lemma shard_length:
  assumes "s \<in> set (erasure_encode d)"
  shows "length s \<le> length d + 3"
proof -
  have "length (pad d) \<le> length d + 3" by (simp add: pad_def erasure_K_def Let_def)
  moreover have "length s = length (as_chunks3 (pad d))" using assms by (auto simp: erasure_encode_def Let_def)
  ultimately show ?thesis using length_as_chunks3_le [of "pad d"] by linarith
qed

lemma erasure_encode_inj:
  assumes "erasure_encode a = erasure_encode b"
  shows "a = b"
proof -
  define l where "l = replicate 7 False"
  have l: "length l = 7" "\<And>p. p < 7 \<Longrightarrow> \<not> l ! p" by (simp_all add: l_def)
  have "erasure_reconstruct (drop_shards l (erasure_encode d)) = Some d" for d
  proof -
    have "mask_of (drop_shards l (erasure_encode d)) = mask_of (replicate 7 (Some ([] :: byte list)))"
      by (rule mask_of_cong) (simp_all add: drop_shards_def l)
    moreover have "is_recoverable_fano (mask_of (replicate 7 (Some ([] :: byte list))))" by code_simp
    ultimately show ?thesis by (simp only: reconstruct_encode [OF l(1)] if_True)
  qed
  then show ?thesis using assms by (metis option.inject)
qed

lemma concat_cr_inj:
  assumes "list_all cr_wf xs" "list_all cr_wf ys" "concat (map cr_to_bytes xs) = concat (map cr_to_bytes ys)"
  shows "xs = ys"
  using assms
proof (induction xs arbitrary: ys)
  case Nil
  then show ?case by (cases ys) (auto simp: cr_to_bytes_def)
next
  case (Cons x xs)
  have "concat (map cr_to_bytes (x # xs)) \<noteq> []" by (simp add: cr_to_bytes_def)
  then obtain y ys' where ys: "ys = y # ys'" using Cons.prems(3) by (cases ys) auto
  have "x = y \<and> concat (map cr_to_bytes xs) = concat (map cr_to_bytes ys')"
    by (rule cr_codec.prefix_free) (use Cons.prems ys in simp_all)
  then show ?case using Cons ys by simp
qed

lemma commit_shards_bind:
  assumes "commit_shards C (da_shards a) = commit_shards C (da_shards b)" "fits_frame a" "fits_frame b"
    and "\<not> collides C X" "shards_input a \<in> X" "shards_input b \<in> X" "payload_wf (b_sealed_txs a)" "payload_wf (b_sealed_txs b)"
  shows "b_sealed_txs a = b_sealed_txs b"
proof -
  have sh: "concat (map (\<lambda>s. put_word 4 (word_of_nat (length s) :: u32) @ s) (da_shards a)) =
      concat (map (\<lambda>s. put_word 4 (word_of_nat (length s) :: u32) @ s) (da_shards b))"
    by (rule hash_labeled_inj [OF assms(1) [unfolded commit_shards_def] assms(4)]) (use assms(5,6) in \<open>simp_all add: shards_input_def\<close>)
  have small: "length s < 2 ^ 32" if "s \<in> set (da_shards x)" "fits_frame x" for s x
    using shard_length [of s "payload_bytes x"] that by (auto simp: da_shards_def fits_frame_def payload_budget_overhead MAX_FRAME_def)
  have "da_shards a = da_shards b"
    by (rule shards_bytes_inj [OF _ _ sh]) (use small assms(2,3) in \<open>auto simp: da_shards_def\<close>)
  then have "encode_payload (b_sealed_txs a) = encode_payload (b_sealed_txs b)"
    by (simp add: da_shards_def payload_bytes_def erasure_encode_inj)
  then show ?thesis using assms(7,8) by (metis decode_encode_payload option.inject)
qed

text \<open>The two optional commitments: the all-zero digest stands for an absent part.\<close>

lemma commit_reveals_bind:
  assumes "commit_reveals C xs = commit_reveals C ys" "\<not> collides C X" "list_all cr_wf xs" "list_all cr_wf ys"
    and "\<And>zs. zs = xs \<or> zs = ys \<Longrightarrow> zs \<noteq> [] \<Longrightarrow> labeled_hasher REVEAL_ROOT_LABEL (concat (map cr_to_bytes zs)) \<in> X \<and>
      hash_labeled C REVEAL_ROOT_LABEL (concat (map cr_to_bytes zs)) \<noteq> replicate 32 0"
  shows "xs = ys"
proof (cases "xs = [] \<or> ys = []")
  case True
  then show ?thesis using assms(1) assms(5) [of xs] assms(5) [of ys] by (cases "xs = []"; cases "ys = []") (simp_all add: commit_reveals_def)
next
  case False
  then have "concat (map cr_to_bytes xs) = concat (map cr_to_bytes ys)"
    using assms(1) assms(5) [of xs] assms(5) [of ys] by (auto simp: commit_reveals_def intro: hash_labeled_inj [OF _ assms(2)])
  then show ?thesis using concat_cr_inj assms(3,4) by simp
qed

lemma commit_last_bind:
  assumes "commit_last C x = commit_last C y" "\<not> collides C X" "pred_option cert_wf x" "pred_option cert_wf y"
    and "\<And>c. x = Some c \<or> y = Some c \<Longrightarrow> labeled_hasher LAST_COMMIT_LABEL (cert_to_bytes c) \<in> X \<and>
      hash_labeled C LAST_COMMIT_LABEL (cert_to_bytes c) \<noteq> replicate 32 0"
  shows "x = y"
proof (cases "x = None \<or> y = None")
  case True
  then show ?thesis using assms(1) assms(5) [of "the x"] assms(5) [of "the y"] by (cases x; cases y) (simp_all add: commit_last_def)
next
  case False
  then obtain c d where cd: "x = Some c" "y = Some d" by auto
  then have "cert_to_bytes c = cert_to_bytes d"
    using assms(1) assms(5) [of c] assms(5) [of d] by (auto simp: commit_last_def intro: hash_labeled_inj [OF _ assms(2)])
  then show ?thesis using assms(3,4) cd by (simp, metis cert_codec_bijective option.inject)
qed

text \<open>
  C15. A block hash identifies the block. Two well-formed blocks that pass \<open>verify_structure\<close> and have one hash
  have the same header, the same sealed transactions, the same openings and the same parent certificate, or
  two of the at most eight strings hashed for them collide, or one of those strings hashes to the all-zero
  digest that stands for an absent part. The witness and the proof of lock are outside the hash.
\<close>

theorem block_hash_binds:
  assumes "verify_structure C a" "verify_structure C b" "block_wf a" "block_wf b" "block_hash C a = block_hash C b"
  shows "collides C (block_inputs a \<union> block_inputs b) \<or> hits_zero C (optional_inputs a \<union> optional_inputs b) \<or>
    b_header a = b_header b \<and> b_sealed_txs a = b_sealed_txs b \<and> b_reveals a = b_reveals b \<and> b_last_commit a = b_last_commit b"
proof (cases "collides C (block_inputs a \<union> block_inputs b) \<or> hits_zero C (optional_inputs a \<union> optional_inputs b)")
  case False
  let ?X = "block_inputs a \<union> block_inputs b"
  from False have no: "\<not> collides C ?X" and nz: "\<And>x. x \<in> optional_inputs a \<union> optional_inputs b \<Longrightarrow> blake3 C x \<noteq> replicate 32 0"
    by (auto simp: hits_zero_def)
  have "header_to_wire (b_header a) = header_to_wire (b_header b)"
    by (rule hash_labeled_inj [OF assms(5) [unfolded block_hash_def header_hash_def] no]) (simp_all add: block_inputs_def header_input_def)
  then have h: "b_header a = b_header b" using header_codec.enc_inj assms(3,4) by (auto simp: block_wf_def)
  note va = assms(1) [unfolded verify_structure_def] and vb = assms(2) [unfolded verify_structure_def]
  note wf = assms(3,4) [unfolded block_wf_def]
  have reveals: "commit_reveals C (b_reveals a) = commit_reveals C (b_reveals b)"
    and last: "commit_last C (b_last_commit a) = commit_last C (b_last_commit b)"
    using va vb h by (simp_all add: reveals_match_def last_commit_matches_def)
  have part: "hash_labeled C l x \<noteq> replicate 32 0" "labeled_hasher l x \<in> ?X"
    if "labeled_hasher l x \<in> optional_inputs a \<union> optional_inputs b" for l x
    using that nz by (auto simp: block_inputs_def hash_labeled_def)
  have "b_sealed_txs a = b_sealed_txs b"
    by (rule commit_shards_bind [OF _ _ _ no]) (use va vb wf h in \<open>simp_all add: block_inputs_def\<close>)
  moreover have "b_reveals a = b_reveals b"
    by (rule commit_reveals_bind [OF reveals no]) (use wf in simp, use wf in simp, intro conjI part, auto simp: optional_inputs_def)
  moreover have "b_last_commit a = b_last_commit b"
    by (rule commit_last_bind [OF last no]) (use wf in simp, use wf in simp, intro conjI part, auto simp: optional_inputs_def)
  ultimately show ?thesis using h by simp
qed blast

text \<open>
  Data availability is exact. From any shards of a block whose loss pattern peels, \<open>reconstruct_payload\<close>
  returns the block's transactions; and from any shards at all, whoever sent them, what it returns is the
  block's transactions or two of the hashed shard sequences collide.
\<close>

definition payload_input :: "byte list \<Rightarrow> byte list" where
  "payload_input payload = labeled_hasher DA_COMMIT_LABEL
     (concat (map (\<lambda>shard. put_word 4 (word_of_nat (length shard) :: u32) @ shard) (erasure_encode payload)))"

theorem reconstruct_payload_exact:
  assumes "verify_structure C b" "block_wf b"
  shows "(length lost = 7 \<and> is_recoverable_fano (mask_of (drop_shards lost (da_shards b))) \<longrightarrow>
      reconstruct_payload C b (drop_shards lost (da_shards b)) = Some (b_sealed_txs b)) \<and>
    (reconstruct_payload C b shards = Some txs \<longrightarrow>
      (\<exists>payload. erasure_reconstruct shards = Some payload \<and>
        (length payload < 2 ^ 32 - 3 \<longrightarrow> collides C {payload_input payload, payload_input (payload_bytes b)} \<or> txs = b_sealed_txs b)))"
proof (intro conjI impI)
  assume "length lost = 7 \<and> is_recoverable_fano (mask_of (drop_shards lost (da_shards b)))"
  then show "reconstruct_payload C b (drop_shards lost (da_shards b)) = Some (b_sealed_txs b)"
    using assms reconstruct_encode [of lost "payload_bytes b"] decode_encode_payload [of "b_sealed_txs b"]
    by (simp add: reconstruct_payload_def da_shards_def verify_structure_def payload_bytes_def block_wf_def)
next
  assume "reconstruct_payload C b shards = Some txs"
  then obtain payload where p: "erasure_reconstruct shards = Some payload" "decode_payload payload = Some txs"
    "commit_shards C (erasure_encode payload) = commit_shards C (erasure_encode (payload_bytes b))"
    using assms(1) by (auto simp: reconstruct_payload_def bind_eq_Some_conv verify_structure_def da_shards_def split: if_splits)
  have "txs = b_sealed_txs b"
    if len: "length payload < 2 ^ 32 - 3" and no: "\<not> collides C {payload_input payload, payload_input (payload_bytes b)}"
  proof -
    have eq: "concat (map (\<lambda>s. put_word 4 (word_of_nat (length s) :: u32) @ s) (erasure_encode payload)) =
        concat (map (\<lambda>s. put_word 4 (word_of_nat (length s) :: u32) @ s) (erasure_encode (payload_bytes b)))"
      by (rule hash_labeled_inj [OF p(3) [unfolded commit_shards_def] no]) (simp_all add: payload_input_def)
    have "length (payload_bytes b) \<le> 2 ^ 22" using assms(1)
      by (auto simp: verify_structure_def fits_frame_def payload_budget_overhead MAX_FRAME_def)
    then have "erasure_encode payload = erasure_encode (payload_bytes b)"
      using len by (intro shards_bytes_inj [OF _ _ eq]) (auto dest!: shard_length)
    then have "payload = payload_bytes b" by (rule erasure_encode_inj)
    then show ?thesis using p(2) decode_encode_payload [of "b_sealed_txs b"] assms(2) by (simp add: payload_bytes_def block_wf_def)
  qed
  then show "\<exists>payload. erasure_reconstruct shards = Some payload \<and>
      (length payload < 2 ^ 32 - 3 \<longrightarrow> collides C {payload_input payload, payload_input (payload_bytes b)} \<or> txs = b_sealed_txs b)"
    using p(1) by blast
qed

section \<open>A block and its witness\<close>

text \<open>A hash that reads the first letter of the label's last part, and a block with a parent certificate but no transactions.\<close>

definition label_crypto :: "(byte, byte, byte list) crypto" where
  "label_crypto = toy_crypto\<lparr>blake3 := (\<lambda>x. replicate 32 (x ! 15))\<rparr>"

definition empty_block :: block where
  "empty_block = fresh_block label_crypto (replicate 32 7) 10 0 3 (Some (toy_cert 7 [0])) [] []"

definition toy_ticket :: leader_witness where
  "toy_ticket = \<lparr>lw_output = replicate 32 1, lw_proof = []\<rparr>"

lemma label_width: "hash_width label_crypto"
  by (simp add: hash_width_def label_crypto_def)

lemma toy_cert_wire: "cert_wf (toy_cert 7 [0])" "length (cert_to_bytes (toy_cert 7 [0])) < 4000"
  by (simp_all add: cert_wf_def sv_wf_def vote_wf_def toy_cert_def toy_vote_def toy_sig_def cert_to_bytes_def sv_to_bytes_def
      vote_to_bytes_def HYBRID_SIG_LEN_def crypto_lens)

lemma empty_block_structure: "verify_structure label_crypto (empty_block\<lparr>b_witness := w\<rparr>)" if "w = None \<or> w = Some toy_ticket"
proof -
  note toy_cert_wire(2)
  then have bud: "8 \<le> budget_for label_crypto (replicate 32 7) 10 0 3 (Some (toy_cert 7 [0])) []"
    by (simp add: budget_for_def payload_budget_overhead block_overhead_def MAX_FRAME_def WITNESS_ALLOWANCE_def with_reveals_def
       assemble_def MAX_HEIGHT_def header_to_wire_def commitment_lengths label_width Let_def put_var_bytes_def opt_bytes_def
       with_pol_def with_last_commit_def)
  show ?thesis unfolding empty_block_def
    by (rule fresh_block_verifies [OF label_width _ bud])
       (use that in \<open>auto simp: toy_ticket_def witness_to_bytes_def vrf_proof_to_bytes_def WITNESS_ALLOWANCE_def\<close>)
qed

lemma empty_block_wf: "block_wf (empty_block\<lparr>b_witness := w\<rparr>)" if "w = None \<or> w = Some toy_ticket"
  using that toy_cert_wire
  by (auto simp: block_wf_def empty_block_def fresh_block_def assemble_def with_reveals_def with_last_commit_def header_wf_def
      commitment_lengths label_width payload_wf_def pack_to_budget_def witness_wf_def toy_ticket_def opt_bytes_def Let_def)

lemma empty_block_inputs:
  "block_inputs (empty_block\<lparr>b_witness := w\<rparr>) = block_inputs empty_block" "optional_inputs (empty_block\<lparr>b_witness := w\<rparr>) = optional_inputs empty_block"
  "block_hash label_crypto (empty_block\<lparr>b_witness := w\<rparr>) = block_hash label_crypto empty_block"
  by (simp_all add: block_inputs_def optional_inputs_def header_input_def shards_input_def da_shards_def payload_bytes_def block_hash_def)

lemma empty_block_apart: "\<not> collides label_crypto (block_inputs empty_block)" "\<not> hits_zero label_crypto (optional_inputs empty_block)"
  by (auto simp: collides_def hits_zero_def block_inputs_def optional_inputs_def header_input_def shards_input_def label_crypto_def
      labeled_hasher_def ascii_def HEADER_LABEL_def DA_COMMIT_LABEL_def LAST_COMMIT_LABEL_def nth_append empty_block_def fresh_block_def
      with_last_commit_def with_reveals_def assemble_def Let_def replicate_eq_replicate)

theorem block_hash_binds_witness:
  "block_hash label_crypto (empty_block\<lparr>b_witness := Some toy_ticket\<rparr>) = block_hash label_crypto empty_block \<and>
   b_last_commit (empty_block\<lparr>b_witness := Some toy_ticket\<rparr>) = b_last_commit empty_block \<and> empty_block\<lparr>b_witness := Some toy_ticket\<rparr> \<noteq> empty_block"
proof -
  have "empty_block = empty_block\<lparr>b_witness := None\<rparr>"
    by (simp add: empty_block_def fresh_block_def with_last_commit_def with_reveals_def assemble_def Let_def)
  then show ?thesis
    using block_hash_binds [OF empty_block_structure empty_block_structure empty_block_wf empty_block_wf, of "Some toy_ticket" None]
      empty_block_inputs [of None] empty_block_inputs [of "Some toy_ticket"] empty_block_apart
    by (metis Un_absorb block.select_convs(4) block.surjective block.update_convs(4) option.distinct(1))
qed

end
