(* ===== verification/Taxis_Checkpoint.thy ===== *)
theory Taxis_Checkpoint
  imports Taxis_Quorum
begin

text \<open>
  Execution attestations (\<open>fanos-taxis/src/checkpoint.rs\<close>): a validator signs the state root and the head it
  reached by executing a height; a quorum of such votes is the certificate from which a lagging validator
  restores. Two certificates of one height that disagree convict more validators than the fault budget.
\<close>

record exec_vote =
  xv_height :: u64
  xv_state_root :: "byte list"
  xv_head :: "byte list"
  xv_voter :: byte
  xv_sig :: "byte list"

definition exec_signable :: "u64 \<Rightarrow> byte list \<Rightarrow> byte list \<Rightarrow> byte \<Rightarrow> byte list" where
  "exec_signable height state_root head voter = put_word 8 height @ state_root @ head @ [voter]"

definition xv_sign :: "('e, 'm, 's) crypto \<Rightarrow> u64 \<Rightarrow> byte list \<Rightarrow> byte list \<Rightarrow> byte \<Rightarrow> 's hybrid_sig_secret \<Rightarrow> exec_vote" where
  "xv_sign C height state_root head voter signer =
     \<lparr>xv_height = height, xv_state_root = state_root, xv_head = head, xv_voter = voter,
      xv_sig = hsig_to_bytes C (hybrid_sign signer (exec_signable height state_root head voter))\<rparr>"

definition xv_verify :: "('e, 'm, 's) crypto \<Rightarrow> exec_vote \<Rightarrow> ('e, 'm) hybrid_verifier \<Rightarrow> bool" where
  "xv_verify C v k = sig_bytes_verify C k (exec_signable (xv_height v) (xv_state_root v) (xv_head v) (xv_voter v)) (xv_sig v)"

definition XV_LEN :: nat where "XV_LEN = 8 + 32 + 32 + 1 + HYBRID_SIG_LEN"

definition xv_to_bytes :: "exec_vote \<Rightarrow> byte list" where
  "xv_to_bytes v = put_word 8 (xv_height v) @ xv_state_root v @ xv_head v @ [xv_voter v] @ xv_sig v"

definition xv_from_bytes :: "byte list \<Rightarrow> exec_vote option" where
  "xv_from_bytes bs =
     (if length bs \<noteq> XV_LEN then None
      else do {
        (height, r) \<leftarrow> rd_word 8 bs;
        (root, r) \<leftarrow> rd_take 32 r;
        (head, r) \<leftarrow> rd_take 32 r;
        (voter, sig) \<leftarrow> rd_u8 r;
        Some \<lparr>xv_height = height, xv_state_root = root, xv_head = head, xv_voter = voter, xv_sig = sig\<rparr> })"

record exec_certificate =
  xc_height :: u64
  xc_state_root :: "byte list"
  xc_head :: "byte list"
  xc_votes :: "exec_vote list"

text \<open>
  The loop of \<open>verify_by\<close>: the seats taken so far and the count. A vote of a seat whose key the reader does
  not hold takes the seat and does not count.
\<close>

fun exec_loop ::
    "('e, 'm, 's) crypto \<Rightarrow> exec_certificate \<Rightarrow> (nat \<Rightarrow> ('e, 'm) hybrid_verifier option) \<Rightarrow> exec_vote list \<Rightarrow> bool list \<Rightarrow> nat \<Rightarrow> nat option" where
  "exec_loop C c key [] seen count = Some count"
| "exec_loop C c key (v # vs) seen count =
     (let i = unat (xv_voter v)
      in if xv_height v \<noteq> xc_height c \<or> xv_state_root v \<noteq> xc_state_root c \<or> xv_head v \<noteq> xc_head c then None
         else if length seen \<le> i then None
         else if seen ! i then None
         else case key i of
                None \<Rightarrow> exec_loop C c key vs (seen[i := True]) count
              | Some vk \<Rightarrow> if \<not> xv_verify C v vk then None else exec_loop C c key vs (seen[i := True]) (count + 1))"

definition xc_verify_by ::
    "('e, 'm, 's) crypto \<Rightarrow> exec_certificate \<Rightarrow> nat \<Rightarrow> nat \<Rightarrow> (nat \<Rightarrow> ('e, 'm) hybrid_verifier option) \<Rightarrow> bool" where
  "xc_verify_by C c quorum seats key =
     (case exec_loop C c key (xc_votes c) (replicate seats False) 0 of None \<Rightarrow> False | Some n \<Rightarrow> n \<ge> quorum)"

definition xc_verify :: "('e, 'm, 's) crypto \<Rightarrow> exec_certificate \<Rightarrow> nat \<Rightarrow> ('e, 'm) hybrid_verifier list \<Rightarrow> bool" where
  "xc_verify C c quorum vks = xc_verify_by C c quorum (length vks) (\<lambda>i. if i < length vks then Some (vks ! i) else None)"

definition xc_conflicting :: "('e, 'm, 's) crypto \<Rightarrow> exec_certificate \<Rightarrow> exec_vote \<Rightarrow> ('e, 'm) hybrid_verifier list \<Rightarrow> byte option" where
  "xc_conflicting C c vote vks =
     (if xv_height vote \<noteq> xc_height c \<or> xv_state_root vote = xc_state_root c then None
      else if unat (xv_voter vote) \<ge> length vks then None
      else if xv_verify C vote (vks ! unat (xv_voter vote)) then Some (xv_voter vote) else None)"

definition xc_to_bytes :: "exec_certificate \<Rightarrow> byte list" where
  "xc_to_bytes c = put_word 8 (xc_height c) @ xc_state_root c @ xc_head c @
     put_word 2 (word_of_nat (length (xc_votes c)) :: u16) @ concat (map xv_to_bytes (xc_votes c))"

definition rd_exec_vote :: "exec_vote reader" where
  "rd_exec_vote bs = do { (b, r) \<leftarrow> rd_take XV_LEN bs; v \<leftarrow> xv_from_bytes b; Some (v, r) }"

definition xc_from_bytes :: "byte list \<Rightarrow> exec_certificate option" where
  "xc_from_bytes bs = do {
     (height, r) \<leftarrow> rd_word 8 bs;
     (root, r) \<leftarrow> rd_take 32 r;
     (head, r) \<leftarrow> rd_take 32 r;
     (count, body) \<leftarrow> (rd_word 2 :: u16 reader) r;
     if length body \<noteq> unat count * XV_LEN then None
     else do {
       (votes, r) \<leftarrow> rd_rep (unat count) rd_exec_vote body;
       Some \<lparr>xc_height = height, xc_state_root = root, xc_head = head, xc_votes = votes\<rparr> } }"

section \<open>What a verified certificate is\<close>

abbreviation exec_index :: "exec_vote \<Rightarrow> nat" where
  "exec_index v \<equiv> unat (xv_voter v)"

definition exec_counts :: "('e, 'm, 's) crypto \<Rightarrow> exec_certificate \<Rightarrow> ('e, 'm) hybrid_verifier list \<Rightarrow> exec_vote \<Rightarrow> bool" where
  "exec_counts C c vks v \<longleftrightarrow> xv_height v = xc_height c \<and> xv_state_root v = xc_state_root c \<and> xv_head v = xc_head c \<and>
     exec_index v < length vks \<and> xv_verify C v (vks ! exec_index v)"

lemma exec_loop_Some:
  assumes "length seen = length vks"
  shows "exec_loop C c (\<lambda>i. if i < length vks then Some (vks ! i) else None) vs seen n = Some m \<longleftrightarrow>
    list_all (exec_counts C c vks) vs \<and> distinct (map exec_index vs) \<and> (\<forall>v \<in> set vs. \<not> seen ! exec_index v) \<and> m = n + length vs"
  using assms
proof (induction vs arbitrary: seen n)
  case (Cons v vs)
  let ?i = "exec_index v" and ?key = "\<lambda>i. if i < length vks then Some (vks ! i) else None"
  show ?case
  proof (cases "exec_counts C c vks v \<and> \<not> seen ! ?i")
    case True
    have "exec_loop C c ?key (v # vs) seen n = exec_loop C c ?key vs (seen[?i := True]) (n + 1)"
      using True Cons.prems by (simp add: exec_counts_def Let_def)
    also have "\<dots> = Some m \<longleftrightarrow> list_all (exec_counts C c vks) vs \<and> distinct (map exec_index vs) \<and>
        (\<forall>w \<in> set vs. \<not> seen[?i := True] ! exec_index w) \<and> m = n + 1 + length vs"
      by (rule Cons.IH) (simp add: Cons.prems)
    also have "(\<forall>w \<in> set vs. \<not> seen[?i := True] ! exec_index w) \<longleftrightarrow>
        (\<forall>w \<in> set vs. \<not> seen ! exec_index w) \<and> ?i \<notin> exec_index ` set vs"
      using True Cons.prems by (auto simp: nth_list_update exec_counts_def)
    finally show ?thesis using True by auto
  next
    case False
    then have "exec_loop C c ?key (v # vs) seen n = None" using Cons.prems by (auto simp: exec_counts_def Let_def)
    with False show ?thesis by auto
  qed
qed auto

lemma xc_verify_iff:
  "xc_verify C c quorum vks \<longleftrightarrow>
     list_all (exec_counts C c vks) (xc_votes c) \<and> distinct (map exec_index (xc_votes c)) \<and> quorum \<le> length (xc_votes c)"
proof -
  let ?l = "exec_loop C c (\<lambda>i. if i < length vks then Some (vks ! i) else None) (xc_votes c) (replicate (length vks) False) 0"
  have loop: "?l = Some m \<longleftrightarrow> list_all (exec_counts C c vks) (xc_votes c) \<and> distinct (map exec_index (xc_votes c)) \<and>
      m = length (xc_votes c)" for m
    by (auto simp: exec_loop_Some list_all_iff exec_counts_def)
  show ?thesis
  proof (cases ?l)
    case None
    then show ?thesis using loop [of "length (xc_votes c)"] by (auto simp: xc_verify_def xc_verify_by_def)
  next
    case (Some m)
    then show ?thesis using loop [of m] by (simp add: xc_verify_def xc_verify_by_def)
  qed
qed

lemma exec_voters:
  assumes "xc_verify C c quorum vks"
  shows "exec_index ` set (xc_votes c) \<subseteq> {..<length vks}" "quorum \<le> card (exec_index ` set (xc_votes c))"
proof -
  from assms have v: "list_all (exec_counts C c vks) (xc_votes c)" "distinct (map exec_index (xc_votes c))"
    "quorum \<le> length (xc_votes c)" by (simp_all add: xc_verify_iff)
  show "exec_index ` set (xc_votes c) \<subseteq> {..<length vks}" using v(1) by (auto simp: list_all_iff exec_counts_def)
  show "quorum \<le> card (exec_index ` set (xc_votes c))"
    using v(2,3) distinct_card [of "map exec_index (xc_votes c)"] by simp
qed

text \<open>
  C14. Accountable execution: if two certificates of one height verify in a cell derived from its plane order (below \<open>2 ^ 31\<close>) and
  attest different state roots, at least \<open>f + 1\<close> validators are convicted by \<open>conflicting\<close>, each by its own
  vote in the second certificate against the first, while its vote also counts in the first.
\<close>

theorem exec_accountable:
  assumes "for_order q = Some p" "q < 2 ^ 31" "length vks = cp_n p"
    and "xc_verify C c1 (cp_quorum p) vks" "xc_verify C c2 (cp_quorum p) vks"
    and "xc_height c1 = xc_height c2" "xc_state_root c1 \<noteq> xc_state_root c2"
  shows "cp_f p + 1 \<le> card {i. i < cp_n p \<and> (\<exists>a \<in> set (xc_votes c1). exec_index a = i) \<and>
    (\<exists>b \<in> set (xc_votes c2). map_option unat (xc_conflicting C c1 b vks) = Some i)}" (is "_ \<le> card ?E")
proof -
  let ?A = "exec_index ` set (xc_votes c1)" and ?B = "exec_index ` set (xc_votes c2)"
  have "2 * cp_quorum p \<le> cp_n p + card (?A \<inter> ?B)"
    using quorum_overlap [OF exec_voters(1) [OF assms(4)] exec_voters(1) [OF assms(5)]
        exec_voters(2) [OF assms(4)] exec_voters(2) [OF assms(5)]] assms(3) by simp
  then have overlap: "cp_f p + 1 \<le> card (?A \<inter> ?B)" using for_order_Some(4) [OF assms(1,2)] by linarith
  have "?A \<inter> ?B \<subseteq> ?E"
  proof
    fix i assume "i \<in> ?A \<inter> ?B"
    then obtain a b where ab: "a \<in> set (xc_votes c1)" "b \<in> set (xc_votes c2)" "exec_index a = i" "exec_index b = i" by auto
    have "exec_counts C c2 vks b" using assms(5) ab(2) by (auto simp: xc_verify_iff list_all_iff)
    with ab assms(3,6,7) show "i \<in> ?E" by (force simp: exec_counts_def xc_conflicting_def)
  qed
  then have "card (?A \<inter> ?B) \<le> card ?E" by (intro card_mono) auto
  with overlap show ?thesis by linarith
qed

definition toy_exec_vote :: "byte \<Rightarrow> byte \<Rightarrow> exec_vote" where
  "toy_exec_vote r i = \<lparr>xv_height = 9, xv_state_root = replicate 32 r, xv_head = replicate 32 1, xv_voter = i, xv_sig = toy_sig i\<rparr>"

definition toy_exec_cert :: "byte \<Rightarrow> byte list \<Rightarrow> exec_certificate" where
  "toy_exec_cert r is = \<lparr>xc_height = 9, xc_state_root = replicate 32 r, xc_head = replicate 32 1, xc_votes = map (toy_exec_vote r) is\<rparr>"

lemma toy_exec_cert_verify:
  "xc_verify toy_crypto (toy_exec_cert 7 [0, 1, 2, 3, 4]) 5 toy_cell" "xc_verify toy_crypto (toy_exec_cert 8 [2, 3, 4, 5, 6]) 5 toy_cell"
  by (simp_all add: xc_verify_iff toy_exec_cert_def toy_cell_def toy_exec_vote_def exec_counts_def xv_verify_def)

theorem exec_accountable_witness:
  "3 \<le> card {i. i < 7 \<and> (\<exists>a \<in> set (xc_votes (toy_exec_cert 7 [0, 1, 2, 3, 4])). exec_index a = i) \<and>
    (\<exists>b \<in> set (xc_votes (toy_exec_cert 8 [2, 3, 4, 5, 6])).
       map_option unat (xc_conflicting toy_crypto (toy_exec_cert 7 [0, 1, 2, 3, 4]) b toy_cell) = Some i)}"
proof -
  have fano: "for_order 2 = Some FANO" by (simp add: for_order_def FANO_def fault_budget_def)
  show ?thesis
    using toy_exec_cert_verify
      exec_accountable [OF fano, of toy_cell toy_crypto "toy_exec_cert 7 [0, 1, 2, 3, 4]" "toy_exec_cert 8 [2, 3, 4, 5, 6]"]
    by (simp add: FANO_def toy_cell_def toy_exec_cert_def)
qed

section \<open>The wire form\<close>

definition xv_wf :: "exec_vote \<Rightarrow> bool" where
  "xv_wf v \<longleftrightarrow> length (xv_state_root v) = 32 \<and> length (xv_head v) = 32 \<and> length (xv_sig v) = HYBRID_SIG_LEN"

lemma length_xv_to_bytes [simp]: "xv_wf v \<Longrightarrow> length (xv_to_bytes v) = XV_LEN"
  by (simp add: xv_wf_def xv_to_bytes_def XV_LEN_def)

lemma xv_from_bytes_iff: "xv_from_bytes bs = Some v \<longleftrightarrow> xv_wf v \<and> bs = xv_to_bytes v"
proof
  assume "xv_from_bytes bs = Some v"
  then show "xv_wf v \<and> bs = xv_to_bytes v"
    by (auto simp: xv_from_bytes_def bind_eq_Some_conv codec_simps rd_take_iff xv_to_bytes_def xv_wf_def XV_LEN_def split: if_splits)
next
  assume "xv_wf v \<and> bs = xv_to_bytes v"
  then show "xv_from_bytes bs = Some v"
    by (auto simp: xv_from_bytes_def) (auto simp: xv_to_bytes_def xv_wf_def word_dec_enc)
qed

interpretation xv_codec: codec xv_to_bytes rd_exec_vote xv_wf
  by (rule codecI) (auto simp: rd_exec_vote_def bind_eq_Some_conv rd_take_iff xv_from_bytes_iff)

definition xc_wf :: "exec_certificate \<Rightarrow> bool" where
  "xc_wf c \<longleftrightarrow> length (xc_state_root c) = 32 \<and> length (xc_head c) = 32 \<and> list_all xv_wf (xc_votes c) \<and> length (xc_votes c) < 2 ^ 16"

lemma length_concat_xv: "list_all xv_wf vs \<Longrightarrow> length (concat (map xv_to_bytes vs)) = length vs * XV_LEN"
  by (induction vs) auto

text \<open>
  The wire form of execution certificates is canonical: \<open>from_bytes\<close> accepts exactly the encodings of
  well-formed certificates and returns the certificate encoded.
\<close>

theorem exec_cert_codec_bijective: "xc_from_bytes bs = Some c \<longleftrightarrow> xc_wf c \<and> bs = xc_to_bytes c"
proof
  assume "xc_from_bytes bs = Some c"
  then obtain h root head n votes r where
    bs: "bs = put_word 8 h @ root @ head @ put_word 2 n @ concat (map xv_to_bytes votes) @ r"
    and l: "length root = 32" "length head = 32" "list_all xv_wf votes" "length votes = unat (n :: u16)"
    "length (concat (map xv_to_bytes votes) @ r) = unat n * XV_LEN"
    and c: "c = \<lparr>xc_height = h, xc_state_root = root, xc_head = head, xc_votes = votes\<rparr>"
    by (auto simp: xc_from_bytes_def bind_eq_Some_conv codec_simps rd_take_iff xv_codec.rep_iff split: if_splits)
  have "r = []" using l(3,4,5) length_concat_xv [of votes] by simp
  moreover have "length votes < 2 ^ 16" using l(4) unat_lt [of n] by simp
  ultimately show "xc_wf c \<and> bs = xc_to_bytes c" using bs l c by (simp add: xc_wf_def xc_to_bytes_def)
next
  assume wf: "xc_wf c \<and> bs = xc_to_bytes c"
  then have "unat (word_of_nat (length (xc_votes c)) :: u16) = length (xc_votes c)"
    by (simp add: xc_wf_def unat_of_nat take_bit_eq_mod)
  moreover have "rd_rep (length (xc_votes c)) rd_exec_vote (concat (map xv_to_bytes (xc_votes c))) = Some (xc_votes c, [])"
    using wf by (simp add: xv_codec.rep_iff xc_wf_def)
  ultimately show "xc_from_bytes bs = Some c"
    using wf length_concat_xv [of "xc_votes c"] by (simp add: xc_from_bytes_def word_dec_enc xc_wf_def xc_to_bytes_def)
qed

end
