(* ===== verification/Taxis_Msg.thy ===== *)
theory Taxis_Msg
  imports Taxis_Block Taxis_Checkpoint
begin

text \<open>
  The messages of consensus (\<open>fanos-taxis/src/consensus.rs\<close>, \<open>RevealMsg\<close> and \<open>ConsensusMsg\<close>) and the
  application frames that carry them (\<open>wire.rs\<close>). Every message is read back from its bytes, so a vote or a
  certificate means the same to its sender and to its receiver.
\<close>

section \<open>Reveals\<close>

record reveal_msg =
  rv_commit :: "byte list"
  rv_member :: byte
  rv_share :: "byte list"
  rv_sig :: "byte list"

definition reveal_signable :: "byte list \<Rightarrow> byte \<Rightarrow> byte list \<Rightarrow> byte list" where
  "reveal_signable commit member share = commit @ [member] @ share"

definition reveal_signed :: "('e, 'm, 's) crypto \<Rightarrow> byte list \<Rightarrow> byte \<Rightarrow> byte list \<Rightarrow> 's hybrid_sig_secret \<Rightarrow> reveal_msg" where
  "reveal_signed C commit member share signer =
     \<lparr>rv_commit = commit, rv_member = member, rv_share = share,
      rv_sig = hsig_to_bytes C (hybrid_sign signer (reveal_signable commit member share))\<rparr>"

definition reveal_verify :: "('e, 'm, 's) crypto \<Rightarrow> reveal_msg \<Rightarrow> ('e, 'm) hybrid_verifier \<Rightarrow> bool" where
  "reveal_verify C r k = sig_bytes_verify C k (reveal_signable (rv_commit r) (rv_member r) (rv_share r)) (rv_sig r)"

definition reveal_to_bytes :: "reveal_msg \<Rightarrow> byte list" where
  "reveal_to_bytes r = rv_commit r @ [rv_member r] @ rv_sig r @ rv_share r"

definition reveal_from_bytes :: "byte list \<Rightarrow> reveal_msg option" where
  "reveal_from_bytes bs = do {
     (commit, r) \<leftarrow> rd_take 32 bs;
     (member, r) \<leftarrow> rd_byte r;
     (sig, share) \<leftarrow> rd_take HYBRID_SIG_LEN r;
     Some \<lparr>rv_commit = commit, rv_member = member, rv_share = share, rv_sig = sig\<rparr> }"

section \<open>Consensus messages\<close>

datatype consensus_msg =
    Propose block
  | Vote signed_vote
  | Reveal reveal_msg
  | ExecVote exec_vote
  | SyncReq u64 "byte list"
  | SyncResp exec_certificate "certificate list" "byte list"
  | CommitCert certificate
  | NeedBody "byte list"
  | Body block

primrec msg_to_bytes :: "consensus_msg \<Rightarrow> byte list" where
  "msg_to_bytes (Propose b) = 0 # block_to_bytes b"
| "msg_to_bytes (Vote sv) = 1 # sv_to_bytes sv"
| "msg_to_bytes (Reveal r) = 2 # reveal_to_bytes r"
| "msg_to_bytes (ExecVote v) = 3 # xv_to_bytes v"
| "msg_to_bytes (SyncReq have_height have_root) = 4 # put_u64 have_height @ have_root"
| "msg_to_bytes (SyncResp cert over snapshot) =
     5 # put_var_bytes (xc_to_bytes cert) @ put_u32 (word_of_nat (length over)) @
       concat (map (\<lambda>c. put_var_bytes (cert_to_bytes c)) over) @ snapshot"
| "msg_to_bytes (CommitCert cert) = 6 # cert_to_bytes cert"
| "msg_to_bytes (NeedBody block) = 7 # block"
| "msg_to_bytes (Body b) = 8 # block_to_bytes b"

definition rd_var_cert :: "certificate reader" where
  "rd_var_cert bs = do { (b, r) \<leftarrow> rd_var_bytes bs; c \<leftarrow> cert_from_bytes b; Some (c, r) }"

definition msg_from_bytes :: "byte list \<Rightarrow> consensus_msg option" where
  "msg_from_bytes bs = do {
     (tag, body) \<leftarrow> rd_byte bs;
     if tag = 0 then map_option Propose (block_from_bytes body)
     else if tag = 1 then map_option Vote (sv_from_bytes body)
     else if tag = 2 then map_option Reveal (reveal_from_bytes body)
     else if tag = 3 then map_option ExecVote (xv_from_bytes body)
     else if tag = 4 then do {
       (have_height, r) \<leftarrow> rd_u64 body;
       (have_root, r) \<leftarrow> rd_take 32 r;
       if r \<noteq> [] then None else Some (SyncReq have_height have_root) }
     else if tag = 5 then do {
       (cert_bytes, r) \<leftarrow> rd_var_bytes body;
       cert \<leftarrow> xc_from_bytes cert_bytes;
       (over, snapshot) \<leftarrow> rd_bounded_seq 4 rd_var_cert r;
       Some (SyncResp cert over snapshot) }
     else if tag = 6 then map_option CommitCert (cert_from_bytes body)
     else if tag = 7 then do {
       (block, r) \<leftarrow> rd_take 32 body;
       if r \<noteq> [] then None else Some (NeedBody block) }
     else if tag = 8 then map_option Body (block_from_bytes body)
     else None }"

section \<open>Application frames\<close>

datatype taxis_app =
    AppConsensus consensus_msg
  | AppTx sealed_tx
  | AppShard shard_msg

definition to_frame :: "consensus_msg \<Rightarrow> byte list" where
  "to_frame msg = app_frame KIND_CONSENSUS (msg_to_bytes msg)"

definition parse_app_body :: "byte list \<Rightarrow> taxis_app option" where
  "parse_app_body body = do {
     (kind, payload) \<leftarrow> rd_byte body;
     if kind = KIND_CONSENSUS then map_option AppConsensus (msg_from_bytes payload)
     else if kind = KIND_TX then map_option AppTx (sealed_tx_from_bytes payload)
     else if kind = KIND_SHARD then map_option AppShard (shard_from_bytes payload)
     else None }"

definition from_frame :: "byte list \<Rightarrow> taxis_app option" where
  "from_frame bs = do {
     ((type_code, body), rest) \<leftarrow> decode_frame bs;
     if type_code \<noteq> FrameType_App then None else parse_app_body body }"

section \<open>Round trips\<close>

definition reveal_wf :: "reveal_msg \<Rightarrow> bool" where
  "reveal_wf r \<longleftrightarrow> length (rv_commit r) = 32 \<and> length (rv_sig r) = HYBRID_SIG_LEN"

lemma reveal_from_to_bytes: "reveal_wf r \<Longrightarrow> reveal_from_bytes (reveal_to_bytes r) = Some r"
  by (simp add: reveal_from_bytes_def reveal_to_bytes_def reveal_wf_def)

definition var_cert_wf :: "certificate \<Rightarrow> bool" where
  "var_cert_wf c \<longleftrightarrow> cert_wf c \<and> length (cert_to_bytes c) < 2 ^ 32"

interpretation var_cert_codec: codec "\<lambda>c. put_var_bytes (cert_to_bytes c)" rd_var_cert var_cert_wf
  by (rule codecI) (auto simp: rd_var_cert_def bind_eq_Some_conv var_bytes.dec_iff cert_codec_bijective var_cert_wf_def)

primrec msg_wf :: "consensus_msg \<Rightarrow> bool" where
  "msg_wf (Propose b) = block_wf b"
| "msg_wf (Vote sv) = sv_wf sv"
| "msg_wf (Reveal r) = reveal_wf r"
| "msg_wf (ExecVote v) = xv_wf v"
| "msg_wf (SyncReq have_height have_root) = (length have_root = 32)"
| "msg_wf (SyncResp cert over snapshot) =
     (xc_wf cert \<and> length (xc_to_bytes cert) < 2 ^ 32 \<and> list_all var_cert_wf over \<and> length over < 2 ^ 32)"
| "msg_wf (CommitCert cert) = cert_wf cert"
| "msg_wf (NeedBody block) = (length block = 32)"
| "msg_wf (Body b) = block_wf b"

lemma rd_above:
  assumes "list_all var_cert_wf cs" "length cs < 2 ^ 32"
  shows "rd_bounded_seq 4 rd_var_cert (put_u32 (word_of_nat (length cs)) @ concat (map (\<lambda>c. put_var_bytes (cert_to_bytes c)) cs) @ r) = Some (cs, r)"
proof -
  let ?body = "concat (map (\<lambda>c. put_var_bytes (cert_to_bytes c)) cs)"
  have n: "unat (word_of_nat (length cs) :: u32) = length cs" using assms(2) by (simp add: unat_of_nat take_bit_nat_eq_self)
  have "4 * length cs \<le> length ?body" by (intro concat_map_length_ge) (simp add: put_var_bytes_def)
  then have "\<not> length cs > (length ?body + length r) div 4" by simp
  moreover have "rd_rep (length cs) rd_var_cert (?body @ r) = Some (cs, r)"
    using var_cert_codec.rep_iff [of "length cs" "?body @ r" cs r] assms(1) by simp
  ultimately show ?thesis using n by (simp add: rd_bounded_seq_def)
qed

lemma rd_take_all [simp]: "length x = n \<Longrightarrow> rd_take n x = Some (x, [])"
  using rd_take_append [of x n "[]"] by simp

lemma exec_cert_from_to [simp]: "xc_wf c \<Longrightarrow> xc_from_bytes (xc_to_bytes c) = Some c"
  by (simp add: exec_cert_codec_bijective)

lemma shard_from_to_bytes:
  assumes "length (shard_block m) = 32" "\<And>b i d. m = Deliver b i d \<Longrightarrow> length d < 2 ^ 32"
  shows "shard_from_bytes (shard_to_bytes m) = Some m"
  using assms by (cases m) (simp_all add: shard_from_bytes_def word_dec_enc)

lemma decode_encode_frame:
  "type_code \<le> varint_MAX \<Longrightarrow> length body \<le> varint_MAX \<Longrightarrow> decode_frame (encode_frame type_code body @ r) = Some ((type_code, body), r)"
  by (simp add: decode_frame_def encode_frame_def varint.dec_enc)

text \<open>
  What a validator sends is what its peer reads: every well-formed consensus message survives its encoding
  and, when it fits the frame length, the application frame that carries it.
\<close>

theorem msg_roundtrip:
  assumes "msg_wf m"
  shows "msg_from_bytes (msg_to_bytes m) = Some m \<and>
    (length (msg_to_bytes m) < varint_MAX \<longrightarrow> from_frame (to_frame m) = Some (AppConsensus m))"
proof -
  have m: "msg_from_bytes (msg_to_bytes m) = Some m"
    using assms
    by (cases m) (simp_all add: msg_from_bytes_def block_roundtrip sv_from_bytes_iff reveal_from_to_bytes xv_from_bytes_iff
        var_bytes.dec_enc rd_above cert_codec_bijective)
  moreover have "from_frame (to_frame m) = Some (AppConsensus m)" if "length (msg_to_bytes m) < varint_MAX"
    using that m decode_encode_frame [of FrameType_App "KIND_CONSENSUS # msg_to_bytes m" "[]"]
    by (simp add: from_frame_def to_frame_def app_frame_def parse_app_body_def FrameType_App_def varint_MAX_def)
  ultimately show ?thesis by blast
qed

end
