(* ===== verification/Taxis_Keyper.thy ===== *)
theory Taxis_Keyper
  imports Taxis_Block
begin

text \<open>
  The registry of the sealing keys (\<open>fanos-taxis/src/keyper.rs\<close>): each validator certifies a KEM public key
  under its signature, with a generation; a registry descends from the founding one when every seat either
  keeps its certificate or moves to a later generation. The KEM public key of \<open>fanos-pqcrypto/src/kem.rs\<close>
  wraps keys of third-party libraries: its encoding and decoding are the parameter record \<open>kem_keys\<close>.
\<close>

record 'p kem_keys =
  pk_encode :: "'p \<Rightarrow> byte list"
  pk_decode :: "byte list \<Rightarrow> 'p option"

definition PUBLIC_LEN :: nat where "PUBLIC_LEN = 32 + 1184"
definition KEY_CERT_LABEL :: string where "KEY_CERT_LABEL = ''FANOS-v1/taxis-keyper-key''"
definition KEYPER_COMMIT_LABEL :: string where "KEYPER_COMMIT_LABEL = ''FANOS-v1/taxis-keyper-commit''"

text \<open>The documented serialization of the key type: a fixed width, read back unchanged.\<close>

definition kem_keys_ok :: "'p kem_keys \<Rightarrow> bool" where
  "kem_keys_ok K \<longleftrightarrow> (\<forall>k. length (pk_encode K k) = PUBLIC_LEN \<and> pk_decode K (pk_encode K k) = Some k)"

record 'p keyper_cert =
  kc_generation :: u64
  kc_kem_public :: 'p
  kc_sig :: "byte list"

definition CERT_LEN :: nat where "CERT_LEN = 8 + PUBLIC_LEN + HYBRID_SIG_LEN"

definition kc_signable :: "'p kem_keys \<Rightarrow> u64 \<Rightarrow> byte \<Rightarrow> 'p \<Rightarrow> byte list" where
  "kc_signable K generation idx kem_public = ascii KEY_CERT_LABEL @ put_word 8 generation @ [idx] @ pk_encode K kem_public"

definition kc_register :: "('e, 'm, 's) crypto \<Rightarrow> 'p kem_keys \<Rightarrow> u64 \<Rightarrow> byte \<Rightarrow> 'p \<Rightarrow> 's hybrid_sig_secret \<Rightarrow> 'p keyper_cert" where
  "kc_register C K generation idx kem_public signer =
     \<lparr>kc_generation = generation, kc_kem_public = kem_public,
      kc_sig = hsig_to_bytes C (hybrid_sign signer (kc_signable K generation idx kem_public))\<rparr>"

definition kc_verify :: "('e, 'm, 's) crypto \<Rightarrow> 'p kem_keys \<Rightarrow> 'p keyper_cert \<Rightarrow> byte \<Rightarrow> ('e, 'm) hybrid_verifier \<Rightarrow> bool" where
  "kc_verify C K c idx k = sig_bytes_verify C k (kc_signable K (kc_generation c) idx (kc_kem_public c)) (kc_sig c)"

definition kc_to_bytes :: "'p kem_keys \<Rightarrow> 'p keyper_cert \<Rightarrow> byte list" where
  "kc_to_bytes K c = put_word 8 (kc_generation c) @ pk_encode K (kc_kem_public c) @ kc_sig c"

definition kc_from_bytes :: "'p kem_keys \<Rightarrow> byte list \<Rightarrow> 'p keyper_cert option" where
  "kc_from_bytes K bs =
     (if length bs \<noteq> CERT_LEN then None
      else do {
        (generation, r) \<leftarrow> rd_word 8 bs;
        (pk, sig) \<leftarrow> rd_take PUBLIC_LEN r;
        kem_public \<leftarrow> pk_decode K pk;
        Some \<lparr>kc_generation = generation, kc_kem_public = kem_public, kc_sig = sig\<rparr> })"

section \<open>The registry\<close>

type_synonym 'p keyper_registry = "'p keyper_cert list"

definition kr_to_bytes :: "'p kem_keys \<Rightarrow> 'p keyper_registry \<Rightarrow> byte list" where
  "kr_to_bytes K certs = put_word 4 (len_u32 (length certs)) @ concat (map (kc_to_bytes K) certs)"

definition rd_keyper_cert :: "'p kem_keys \<Rightarrow> 'p keyper_cert reader" where
  "rd_keyper_cert K bs = do { (b, r) \<leftarrow> rd_take CERT_LEN bs; c \<leftarrow> kc_from_bytes K b; Some (c, r) }"

definition kr_from_bytes :: "'p kem_keys \<Rightarrow> byte list \<Rightarrow> 'p keyper_registry option" where
  "kr_from_bytes K bs = do {
     (n, r) \<leftarrow> (rd_word 4 :: u32 reader) bs;
     (certs, r) \<leftarrow> rd_rep (unat n) (rd_keyper_cert K) r;
     if r \<noteq> [] then None else Some certs }"

definition kr_key :: "'p keyper_registry \<Rightarrow> nat \<Rightarrow> 'p option" where
  "kr_key certs i = (if i < length certs then Some (kc_kem_public (certs ! i)) else None)"

text \<open>The seat of a certificate is its position, saturated to a byte.\<close>

definition seat_byte :: "nat \<Rightarrow> byte" where
  "seat_byte i = (if i < 256 then word_of_nat i else 255)"

definition kr_verify :: "('e, 'm, 's) crypto \<Rightarrow> 'p kem_keys \<Rightarrow> 'p keyper_registry \<Rightarrow> ('e, 'm) hybrid_verifier list \<Rightarrow> bool" where
  "kr_verify C K certs vks \<longleftrightarrow> length certs = length vks \<and>
     list_all (\<lambda>(i, c, v). kc_verify C K c (seat_byte i) v) (enumerate 0 (zip certs vks))"

definition kr_descends_from ::
    "('e, 'm, 's) crypto \<Rightarrow> 'p kem_keys \<Rightarrow> 'p keyper_registry \<Rightarrow> 'p keyper_registry \<Rightarrow> ('e, 'm) hybrid_verifier list \<Rightarrow> bool" where
  "kr_descends_from C K certs founding vks \<longleftrightarrow> length certs = length founding \<and> kr_verify C K certs vks \<and>
     list_all (\<lambda>(now, was). kc_generation now > kc_generation was \<or> kc_to_bytes K now = kc_to_bytes K was) (zip certs founding)"

definition kr_commit :: "('e, 'm, 's) crypto \<Rightarrow> 'p kem_keys \<Rightarrow> 'p keyper_registry \<Rightarrow> byte list" where
  "kr_commit C K certs = hash_labeled C KEYPER_COMMIT_LABEL
     (put_word 4 (len_u32 (length certs)) @ concat (map (\<lambda>c. pk_encode K (kc_kem_public c)) certs))"

definition committee_keys :: "'p keyper_registry \<Rightarrow> cell_params \<Rightarrow> 'p list option" where
  "committee_keys certs p =
     (if length certs \<ge> seal_committee_size p then those (map (kr_key certs) [0..<seal_committee_size p]) else None)"

definition seal_to_keyper_committee ::
    "('e, 'm, 's) crypto \<Rightarrow> ('p, 'k, 'c) sealing \<Rightarrow> 'p keyper_registry \<Rightarrow> byte list \<Rightarrow> u64 \<Rightarrow> cell_params \<Rightarrow> byte list \<Rightarrow>
     threshold_error + sealed_tx" where
  "seal_to_keyper_committee C S registry tx epoch p rng_seed =
     (if \<not> seal_is_sound p \<or> \<not> seal_fits_a_block C p then Inl Malformed
      else case committee_keys registry p of
             None \<Rightarrow> Inl Malformed
           | Some keys \<Rightarrow> stx_seal C S tx epoch keys (word_of_nat (seal_threshold p)) rng_seed)"

section \<open>Descent\<close>

lemma kc_to_bytes_inj:
  assumes "kem_keys_ok K" "kc_to_bytes K a = kc_to_bytes K b"
  shows "a = b"
proof -
  have "kc_generation a = kc_generation b \<and> pk_encode K (kc_kem_public a) @ kc_sig a = pk_encode K (kc_kem_public b) @ kc_sig b"
    by (rule u64.prefix_free) (use assms(2) in \<open>simp_all add: kc_to_bytes_def\<close>)
  moreover from this have "pk_encode K (kc_kem_public a) = pk_encode K (kc_kem_public b) \<and> kc_sig a = kc_sig b"
    using assms(1) by (simp add: kem_keys_ok_def)
  moreover from this have "kc_kem_public a = kc_kem_public b" using assms(1) by (metis kem_keys_ok_def option.inject)
  ultimately show ?thesis by simp
qed

text \<open>
  A registry accepted as descending from an accepted one descends from the founding one: acceptance is
  transitive, generations never go back, and a seat that kept its generation kept its certificate.
\<close>

theorem descent_is_monotone:
  assumes "kem_keys_ok K" "kr_descends_from C K b a vks" "kr_descends_from C K c b vks"
  shows "kr_descends_from C K c a vks \<and>
    (\<forall>i < length a. kc_generation (a ! i) \<le> kc_generation (c ! i) \<and> (kc_generation (c ! i) = kc_generation (a ! i) \<longrightarrow> c ! i = a ! i))"
proof -
  have len: "length b = length a" "length c = length a" using assms(2,3) by (auto simp: kr_descends_from_def)
  have step: "kc_generation (a ! i) < kc_generation (b ! i) \<or> b ! i = a ! i"
    "kc_generation (b ! i) < kc_generation (c ! i) \<or> c ! i = b ! i" if "i < length a" for i
    using assms that len kc_to_bytes_inj [OF assms(1)] by (auto simp: kr_descends_from_def list_all_length)
  have both: "kc_generation (a ! i) < kc_generation (c ! i) \<or> c ! i = a ! i" if "i < length a" for i
    using step [OF that] by (auto dest: less_trans)
  then have "list_all (\<lambda>(now, was). kc_generation now > kc_generation was \<or> kc_to_bytes K now = kc_to_bytes K was) (zip c a)"
    using len by (fastforce simp: list_all_length)
  then have "kr_descends_from C K c a vks" using assms(3) len by (simp add: kr_descends_from_def)
  then show ?thesis using both by fastforce
qed

text \<open>
  Sealing to the registry's committee reaches every seat in order: the keys used are the certified keys of
  seats \<open>0, \<dots>, n - 1\<close>.
\<close>

lemma committee_keys_eval:
  "committee_keys certs p = (if length certs \<ge> cp_n p then Some (map kc_kem_public (take (cp_n p) certs)) else None)"
proof -
  have t: "those (map Some xs) = Some xs" for xs :: "'a list" by (induction xs) auto
  have m: "map (kr_key certs) [0..<n] = map Some (map kc_kem_public (take n certs))" if "n \<le> length certs" for n
    using that by (intro nth_equalityI) (auto simp: kr_key_def)
  show ?thesis
    by (cases "cp_n p \<le> length certs") (simp_all only: committee_keys_def seal_committee_size_def m t if_True if_False)
qed

end
