(* ===== verification/Bounded_Map.thy ===== *)
theory Bounded_Map
  imports Btree
begin

text \<open>
  The capped map of \<open>fanos-primitives/src/collections.rs\<close>: an ordered map, the insertion order of its keys
  and a capacity; a new key over the capacity evicts the oldest. The invariant keeps the two views of the
  keys equal and the size within the capacity.
\<close>

record ('k, 'v) bounded_map =
  bm_map :: "('k, 'v) btree"
  bm_order :: "'k list"
  bm_capacity :: nat

definition bm_new :: "nat \<Rightarrow> ('k, 'v) bounded_map" where
  "bm_new capacity = \<lparr>bm_map = [], bm_order = [], bm_capacity = max capacity 1\<rparr>"

definition bm_insert :: "'k::linorder \<Rightarrow> 'v \<Rightarrow> ('k, 'v) bounded_map \<Rightarrow> ('k, 'v) bounded_map \<times> ('k \<times> 'v) option" where
  "bm_insert k v m =
     (let known = bt_contains (bm_map m) k;
          m1 = m\<lparr>bm_map := bt_insert k v (bm_map m)\<rparr>
      in if known then (m1, None)
         else let m2 = m1\<lparr>bm_order := bm_order m1 @ [k]\<rparr>
              in if length (bm_map m2) > bm_capacity m2
                 then case bm_order m2 of
                        [] \<Rightarrow> (m2, None)
                      | oldest # rest \<Rightarrow>
                          (m2\<lparr>bm_map := bt_remove oldest (bm_map m2), bm_order := rest\<rparr>,
                           map_option (Pair oldest) (bt_get (bm_map m2) oldest))
                 else (m2, None))"

definition bm_get :: "('k, 'v) bounded_map \<Rightarrow> 'k \<Rightarrow> 'v option" where
  "bm_get m k = bt_get (bm_map m) k"

definition bm_contains :: "('k, 'v) bounded_map \<Rightarrow> 'k \<Rightarrow> bool" where
  "bm_contains m k = bt_contains (bm_map m) k"

definition bm_iter :: "('k, 'v) bounded_map \<Rightarrow> ('k \<times> 'v) list" where
  "bm_iter m = bm_map m"

definition bm_len :: "('k, 'v) bounded_map \<Rightarrow> nat" where
  "bm_len m = length (bm_map m)"

definition bm_is_empty :: "('k, 'v) bounded_map \<Rightarrow> bool" where
  "bm_is_empty m \<longleftrightarrow> bm_map m = []"

text \<open>\<open>VecDeque::remove\<close> at the first position of a key.\<close>

definition bm_remove :: "'k::linorder \<Rightarrow> ('k, 'v) bounded_map \<Rightarrow> ('k, 'v) bounded_map \<times> 'v option" where
  "bm_remove k m =
     (case bt_get (bm_map m) k of
        None \<Rightarrow> (m, None)
      | Some v \<Rightarrow> (m\<lparr>bm_map := bt_remove k (bm_map m), bm_order := remove1 k (bm_order m)\<rparr>, Some v))"

definition bm_remove_oldest_where :: "('k::linorder \<Rightarrow> bool) \<Rightarrow> ('k, 'v) bounded_map \<Rightarrow> ('k, 'v) bounded_map \<times> ('k \<times> 'v) option" where
  "bm_remove_oldest_where disposable m =
     (case List.find disposable (bm_order m) of
        None \<Rightarrow> (m, None)
      | Some key \<Rightarrow> (m\<lparr>bm_map := bt_remove key (bm_map m), bm_order := remove1 key (bm_order m)\<rparr>,
                      map_option (Pair key) (bt_get (bm_map m) key)))"

primrec retain_loop :: "('k::linorder \<Rightarrow> 'v \<Rightarrow> bool) \<Rightarrow> 'k list \<Rightarrow> ('k, 'v) btree \<Rightarrow> 'k list \<times> ('k, 'v) btree" where
  "retain_loop keep [] m = ([], m)"
| "retain_loop keep (k # ks) m =
     (case bt_get m k of
        None \<Rightarrow> retain_loop keep ks m
      | Some v \<Rightarrow> (if keep k v then (case retain_loop keep ks m of (ks', m') \<Rightarrow> (k # ks', m'))
                  else retain_loop keep ks (bt_remove k m)))"

definition bm_retain :: "('k::linorder \<Rightarrow> 'v \<Rightarrow> bool) \<Rightarrow> ('k, 'v) bounded_map \<Rightarrow> ('k, 'v) bounded_map" where
  "bm_retain keep m = (case retain_loop keep (bm_order m) (bm_map m) of (ks, es) \<Rightarrow> m\<lparr>bm_map := es, bm_order := ks\<rparr>)"

section \<open>The invariant\<close>

definition bm_ok :: "('k::linorder, 'v) bounded_map \<Rightarrow> bool" where
  "bm_ok m \<longleftrightarrow> bt_ok (bm_map m) \<and> distinct (bm_order m) \<and> set (bm_order m) = bt_keys (bm_map m) \<and>
     1 \<le> bm_capacity m \<and> length (bm_map m) \<le> bm_capacity m"

lemma bm_ok_length: "bm_ok m \<Longrightarrow> length (bm_order m) = length (bm_map m)"
  using distinct_card [of "bm_order m"] by (simp add: bm_ok_def length_bt)

lemma length_bt_insert_new: "k \<notin> bt_keys m \<Longrightarrow> length (bt_insert k v m) = Suc (length m)"
  by (induction m) auto

lemma length_bt_insert_known: "bt_ok m \<Longrightarrow> k \<in> bt_keys m \<Longrightarrow> length (bt_insert k v m) = length m"
  using length_bt [of "bt_insert k v m"] length_bt [of m] bt_ok_insert [of m k v] by (simp add: insert_absorb)

lemma bt_keys_remove [simp]: "bt_keys (bt_remove k m) = bt_keys m - {k}"
  by (auto simp: bt_remove_def)

lemma bt_ok_remove: "bt_ok m \<Longrightarrow> bt_ok (bt_remove k m)"
  by (simp add: bt_remove_def bt_ok_filter)

lemma bm_ok_new: "bm_ok (bm_new n)"
  by (simp add: bm_ok_def bm_new_def bt_ok_def)

text \<open>
  A capped map stays capped: inserting keeps the invariant, the new key is present with its value, and at
  most one other key is lost, the oldest, and only when the map was full.
\<close>

theorem bm_insert_capped:
  assumes "bm_ok m" "bm_insert k v m = (m', evicted)"
  shows "bm_ok m' \<and> bm_get m' k = Some v \<and> bm_capacity m' = bm_capacity m \<and>
    (case evicted of
       None \<Rightarrow> (\<forall>j. j \<noteq> k \<longrightarrow> bm_get m' j = bm_get m j)
     | Some (old, w) \<Rightarrow> bm_len m = bm_capacity m \<and> k \<notin> bt_keys (bm_map m) \<and> bm_get m old = Some w \<and>
         old = hd (bm_order m) \<and> bm_get m' old = None \<and> (\<forall>j. j \<noteq> k \<longrightarrow> j \<noteq> old \<longrightarrow> bm_get m' j = bm_get m j))"
proof (cases "k \<in> bt_keys (bm_map m)")
  case True
  have ok: "bt_ok (bm_map m)" using assms(1) by (simp add: bm_ok_def)
  have "m' = m\<lparr>bm_map := bt_insert k v (bm_map m)\<rparr>" "evicted = None" using assms(2) True by (simp_all add: bm_insert_def Let_def)
  then show ?thesis
    using assms(1) length_bt_insert_known [OF ok True, of v] True
    by (simp add: bm_ok_def bm_get_def bt_ok_insert insert_absorb)
next
  case new: False
  show ?thesis
  proof (cases "length (bm_map m) < bm_capacity m")
    case True
    have "m' = m\<lparr>bm_map := bt_insert k v (bm_map m), bm_order := bm_order m @ [k]\<rparr>" "evicted = None"
      using assms(2) new True by (simp_all add: bm_insert_def Let_def length_bt_insert_new)
    then show ?thesis using assms(1) new True by (simp add: bm_ok_def bm_get_def bt_ok_insert length_bt_insert_new)
  next
    case False
    then have full: "length (bm_map m) = bm_capacity m" using assms(1) by (simp add: bm_ok_def)
    then obtain old rest where order: "bm_order m = old # rest"
      using bm_ok_length [OF assms(1)] assms(1) by (cases "bm_order m") (auto simp: bm_ok_def)
    then have old: "old \<in> bt_keys (bm_map m)" "old \<noteq> k" using assms(1) new by (auto simp: bm_ok_def)
    then obtain w where w: "bt_get (bm_map m) old = Some w" by (metis bt_get_None not_None_eq)
    have m': "m' = m\<lparr>bm_map := bt_remove old (bt_insert k v (bm_map m)), bm_order := rest @ [k]\<rparr>" "evicted = Some (old, w)"
      using assms(2) new full order w old(2) by (auto simp: bm_insert_def Let_def length_bt_insert_new)
    have ok: "bt_ok (bt_remove old (bt_insert k v (bm_map m)))" using assms(1) by (simp add: bm_ok_def bt_ok_insert bt_ok_remove)
    have "length (bt_remove old (bt_insert k v (bm_map m))) < length (bt_insert k v (bm_map m))"
      using old(1) by (intro length_bt_remove) simp
    then have "length (bt_remove old (bt_insert k v (bm_map m))) \<le> bm_capacity m"
      using full new by (simp add: length_bt_insert_new)
    then show ?thesis
      using assms(1) ok order old w full new by (auto simp: m' bm_ok_def bm_get_def bm_len_def)
  qed
qed

lemma bm_remove_ok: "bm_ok m \<Longrightarrow> bm_ok (fst (bm_remove k m))"
  by (auto simp: bm_remove_def bm_ok_def bt_remove_def bt_ok_filter set_remove1_eq split: option.splits
      intro: order.trans [OF length_filter_le])

end
