(* ===== verification/Taxis_Chain.thy ===== *)
theory Taxis_Chain
  imports Taxis_State Taxis_Msg Taxis_Keyper Bounded_Map
begin

text \<open>
  The finalized chain of one validator (\<open>fanos-taxis/src/chain.rs\<close>): the headers finalized since the last
  restore, their head, the application state and the height they start at.
\<close>

record 'st chain =
  ch_headers :: "block_header list"
  ch_head :: "byte list"
  ch_state :: 'st
  ch_base_height :: u64

definition chain_new :: "'st \<Rightarrow> 'st chain" where
  "chain_new genesis_state = \<lparr>ch_headers = [], ch_head = GENESIS_PARENT, ch_state = genesis_state, ch_base_height = 0\<rparr>"

definition chain_restore :: "u64 \<Rightarrow> byte list \<Rightarrow> 'st \<Rightarrow> 'st chain \<Rightarrow> 'st chain" where
  "chain_restore height head state c =
     c\<lparr>ch_headers := [], ch_head := head, ch_state := state, ch_base_height := saturating_add height 1\<rparr>"

definition chain_next_height :: "'st chain \<Rightarrow> u64" where
  "chain_next_height c = ch_base_height c + word_of_nat (length (ch_headers c))"

definition chain_state_root :: "('e, 'm, 'st) state_machine \<Rightarrow> 'st chain \<Rightarrow> byte list" where
  "chain_state_root M c = sm_state_root M (ch_state c)"

definition chain_links :: "'st chain \<Rightarrow> block_header \<Rightarrow> bool" where
  "chain_links c h \<longleftrightarrow> hd_parent h = ch_head c \<and> hd_height h = chain_next_height c"

definition chain_finalize :: "('e, 'm, 's) crypto \<Rightarrow> block_header \<Rightarrow> 'st chain \<Rightarrow> 'st chain" where
  "chain_finalize C h c = c\<lparr>ch_head := header_hash C h, ch_headers := ch_headers c @ [h]\<rparr>"

definition chain_begin_block :: "('e, 'm, 'st) state_machine \<Rightarrow> u64 \<Rightarrow> 'st chain \<Rightarrow> 'st chain" where
  "chain_begin_block M height c = c\<lparr>ch_state := sm_begin_block M height (ch_state c)\<rparr>"

definition chain_set_audit_beacon :: "('e, 'm, 'st) state_machine \<Rightarrow> byte list \<Rightarrow> 'st chain \<Rightarrow> 'st chain" where
  "chain_set_audit_beacon M beacon c = c\<lparr>ch_state := sm_set_audit_beacon M beacon (ch_state c)\<rparr>"

definition chain_apply_block_reward ::
    "('e, 'm, 'st) state_machine \<Rightarrow> ('e, 'm) hybrid_verifier list \<Rightarrow> u64 \<Rightarrow> 'st chain \<Rightarrow> 'st chain" where
  "chain_apply_block_reward M beneficiaries amount c = c\<lparr>ch_state := sm_apply_block_reward M beneficiaries amount (ch_state c)\<rparr>"

definition chain_execute_block :: "('e, 'm, 'st) state_machine \<Rightarrow> byte list list \<Rightarrow> 'st chain \<Rightarrow> 'st chain \<times> exec_outcome list" where
  "chain_execute_block M txs c = (case sm_apply_block M txs (ch_state c) of (st, outs) \<Rightarrow> (c\<lparr>ch_state := st\<rparr>, outs))"

lemma next_height_finalize [simp]: "chain_next_height (chain_finalize C h c) = chain_next_height c + 1"
  by (simp add: chain_next_height_def chain_finalize_def)

lemma next_height_restore [simp]: "chain_next_height (chain_restore height head st c) = saturating_add height 1"
  by (simp add: chain_next_height_def chain_restore_def)

lemma next_height_state [simp]:
  "chain_next_height (chain_begin_block M h c) = chain_next_height c"
  "chain_next_height (chain_set_audit_beacon M b c) = chain_next_height c"
  "chain_next_height (chain_apply_block_reward M bs a c) = chain_next_height c"
  "chain_next_height (fst (chain_execute_block M txs c)) = chain_next_height c"
  by (simp_all add: chain_next_height_def chain_begin_block_def chain_set_audit_beacon_def chain_apply_block_reward_def
      chain_execute_block_def split: prod.splits)

text \<open>A header that links extends the chain: the next header must name this one as its parent.\<close>

lemma finalize_links: "chain_links (chain_finalize C h c) h' \<longleftrightarrow> hd_parent h' = header_hash C h \<and> hd_height h' = chain_next_height c + 1"
  by (simp add: chain_links_def) (simp add: chain_finalize_def)

end
