(* ===== verification/Taxis_Engine.thy ===== *)
theory Taxis_Engine
  imports Taxis_Chain Taxis_Committee
begin

text \<open>
  The consensus engine of one validator (\<open>fanos-taxis/src/consensus.rs\<close>), the whole of \<open>ConsensusEngine\<close>: its
  state, one function per method, and \<open>step\<close>, which maps an input to the next state and the outputs. The
  fields that no method assigns (the cell parameters, the keys, the beacon seed and epoch), together with the
  code the engine is compiled against (the cryptography, the sealing primitives, the state machine), are the
  record \<open>config\<close>; every other field is in \<open>engine\<close>. The tallies that only diagnostics read are one field, a
  function from their names. \<open>accept_vote\<close> is recursive through the handlers a vote can trigger: they take
  the function to call for the validator's own votes as an argument, and the recursion is unfolded with a
  fuel that the theory \<open>Taxis_Fuel\<close> shows to be always enough.
\<close>

section \<open>Constants\<close>

definition MAX_REVEAL_SUBSETS :: nat where "MAX_REVEAL_SUBSETS = 4096"
definition MAX_PENDING_REVEAL_COMMITS :: nat where "MAX_PENDING_REVEAL_COMMITS = 4096"
definition REVEAL_WINDOW :: u64 where "REVEAL_WINDOW = 4"
definition COLLECT_WINDOW_TICKS :: u32 where "COLLECT_WINDOW_TICKS = 1"
definition RECENT_BODY_CAP :: nat where "RECENT_BODY_CAP = 64"
definition MEMPOOL_CAP :: nat where "MEMPOOL_CAP = 4096"
definition EXEC_VOTE_HEIGHTS :: nat where "EXEC_VOTE_HEIGHTS = 1024"
definition DEFERRAL_CAP :: nat where "DEFERRAL_CAP = 64"
definition NIL :: "byte list" where "NIL = replicate 32 0"

section \<open>Shares\<close>

definition reveal_share_to_bytes :: "share \<Rightarrow> byte list" where
  "reveal_share_to_bytes s = sh_x s # sh_y s"

definition reveal_share_from_bytes :: "byte list \<Rightarrow> share option" where
  "reveal_share_from_bytes bs = (case bs of [] \<Rightarrow> None | x # y \<Rightarrow> Some \<lparr>sh_x = x, sh_y = y\<rparr>)"

text \<open>
  The loop of \<open>next_combination\<close>, from the last index down: the first one that can still move is advanced and
  the ones after it follow consecutively.
\<close>

primrec combination_loop :: "nat list \<Rightarrow> nat \<Rightarrow> nat \<Rightarrow> nat list option" where
  "combination_loop idx n 0 = None"
| "combination_loop idx n (Suc i) =
     (if idx ! i \<noteq> i + n - length idx then Some (take i idx @ map (\<lambda>j. idx ! i + 1 + j) [0..<length idx - i])
      else combination_loop idx n i)"

definition next_combination :: "nat list \<Rightarrow> nat \<Rightarrow> nat list option" where
  "next_combination idx n = (if idx = [] \<or> length idx > n then None else combination_loop idx n (length idx))"

primrec subset_loop :: "('p, 'k, 'c) sealing \<Rightarrow> sealed_tx \<Rightarrow> share list \<Rightarrow> nat list \<Rightarrow> nat \<Rightarrow> byte list option" where
  "subset_loop S tx shares idx 0 = None"
| "subset_loop S tx shares idx (Suc n) =
     (case stx_open S tx (map (\<lambda>i. shares ! i) idx) of
        Inr txn \<Rightarrow> Some txn
      | Inl _ \<Rightarrow> (case next_combination idx (length shares) of None \<Rightarrow> None | Some idx' \<Rightarrow> subset_loop S tx shares idx' n))"

definition open_from_subset :: "('p, 'k, 'c) sealing \<Rightarrow> sealed_tx \<Rightarrow> share list \<Rightarrow> nat \<Rightarrow> byte list option" where
  "open_from_subset S tx shares t =
     (if length shares < t then None
      else case stx_open S tx shares of
             Inr txn \<Rightarrow> Some txn
           | Inl _ \<Rightarrow> subset_loop S tx shares [0..<t] MAX_REVEAL_SUBSETS)"

section \<open>Inputs and outputs\<close>

datatype engine_input =
    Tick
  | InPropose block "byte list option list"
  | InSkeleton block
  | InVote signed_vote
  | InReveal reveal_msg
  | InExecVote exec_vote
  | Timeout
  | InSyncReq byte u64 "byte list"
  | InCommitCert certificate
  | InNeedBody byte "byte list"
  | InBody block
  | InSyncResp exec_certificate "certificate list" "byte list"

datatype engine_output =
    Send consensus_msg
  | Committed u64 "byte list"
  | Slash slash_evidence
  | SendTo byte consensus_msg

section \<open>The state\<close>

record sortition =
  so_secret :: merkle_vrf_secret
  so_roots :: "byte list list"
  so_height :: u32
  so_base :: u64

definition index_for :: "sortition \<Rightarrow> u64 \<Rightarrow> u64 option" where
  "index_for s height =
     (case checked_sub height (so_base s) of
        None \<Rightarrow> None
      | Some idx \<Rightarrow> if unat idx < vrf_domain (so_height s) then Some idx else None)"

record ('e, 'm, 's, 'p, 'k, 'c, 'st) config =
  g_crypto :: "('e, 'm, 's) crypto"
  g_sealing :: "('p, 'k, 'c) sealing"
  g_machine :: "('e, 'm, 'st) state_machine"
  g_kem_keys :: "'p kem_keys"
  g_params :: cell_params
  g_me :: byte
  g_signer :: "'s hybrid_sig_secret"
  g_kem_secret :: 'k
  g_verifiers :: "('e, 'm) hybrid_verifier list"
  g_keyper_founding :: "'p keyper_registry"
  g_seed :: "byte list"
  g_epoch :: u64

text \<open>The diagnostic tallies: \<open>ProposalRejects\<close>, \<open>VoteRejects\<close> and the counters of \<open>ConsensusProbe\<close>.\<close>

datatype tally =
    RejProposer | RejLink | RejStructure | RejLastCommit | RejSeal | RejMempoolFull | RejUnavailable | RejWitness | RejLocked
  | Forged | StaleHeight | FutureHeight | SyncUncertified | SyncHeadDisagreement
  | VotesBelow | VotesAt | VotesAbove | VotesOffHeight
  | SkeletonAsked | SkeletonServed | ShardAsked | ShardServed | ShardsTaken | ShardsSent
  | SyncAsks | SyncSnapshots | SyncCerts | SyncNothing | SyncTaken | CertTaken | SyncedCerts
  | RevealsGossiped | RevealsCommitted | CcHeight | CcVerify | CcParked | RoundJumps | RoundsSkipped
  | BodyAsks | BodyServed | BodyMissing | BodyRefused | BodyTaken

record 'st engine =
  e_round :: u32
  e_chain :: "'st chain"
  e_mempool :: "(byte list, sealed_tx) btree"
  e_proposals :: "(byte list, block) btree"
  e_proposed_round :: "u32 option"
  e_prepares :: "signed_vote list"
  e_commits :: "signed_vote list"
  e_sent_prepare :: "u32 set"
  e_sent_commit :: "u32 set"
  e_locked_block :: "byte list option"
  e_sortition :: "sortition option"
  e_round0_tickets :: "(byte, byte list \<times> byte list) btree"
  e_tallies :: "tally \<Rightarrow> u64"
  e_certified :: "(u64, certificate) btree"
  e_recent_bodies :: "(byte list, block) bounded_map"
  e_locked_cert :: "certificate option"
  e_valid_value :: "(byte list \<times> certificate) option"
  e_deferred_since :: "(byte list, u64) bounded_map"
  e_round0_window :: "u32 option"
  e_reveals :: "(byte list, (byte, share) btree) btree"
  e_pending_reveals :: "(byte, (byte list, reveal_msg) bounded_map) btree"
  e_committed_reveals :: "(u64, committed_reveal list) btree"
  e_exec_queue :: "block list"
  e_pending_finalize :: "(u64, byte list) btree"
  e_exec_votes :: "(u64, (byte, exec_vote) btree) btree"
  e_checkpoint :: "exec_certificate option"
  e_diverged :: "u64 option"
  e_max_seen_height :: u64
  e_sync_states :: "(byte list, byte list) btree"
  e_sync_heads :: "(u64, byte list \<times> byte list) btree"
  e_reward_per_block :: u64
  e_last_finalized_cert :: "certificate option"

definition engine_new :: "'st \<Rightarrow> 'st engine" where
  "engine_new genesis_state = \<lparr>
     e_round = 0, e_chain = chain_new genesis_state, e_mempool = [], e_proposals = [], e_proposed_round = None,
     e_prepares = [], e_commits = [], e_sent_prepare = {}, e_sent_commit = {}, e_locked_block = None,
     e_sortition = None, e_round0_tickets = [], e_tallies = (\<lambda>_. 0), e_certified = [],
     e_recent_bodies = bm_new RECENT_BODY_CAP, e_locked_cert = None, e_valid_value = None,
     e_deferred_since = bm_new DEFERRAL_CAP, e_round0_window = None, e_reveals = [], e_pending_reveals = [],
     e_committed_reveals = [], e_exec_queue = [], e_pending_finalize = [], e_exec_votes = [], e_checkpoint = None,
     e_diverged = None, e_max_seen_height = 0, e_sync_states = [], e_sync_heads = [], e_reward_per_block = 0,
     e_last_finalized_cert = None\<rparr>"

section \<open>Plumbing\<close>

text \<open>
  \<open>saturating_add(1)\<close> on a tally, and a plain \<open>+= n\<close>, which wraps in a release build.
\<close>

definition bump :: "tally \<Rightarrow> 'st engine \<Rightarrow> 'st engine" where
  "bump t s = s\<lparr>e_tallies := (e_tallies s)(t := saturating_add (e_tallies s t) 1)\<rparr>"

definition bump_by :: "tally \<Rightarrow> u64 \<Rightarrow> 'st engine \<Rightarrow> 'st engine" where
  "bump_by t n s = s\<lparr>e_tallies := (e_tallies s)(t := saturating_add (e_tallies s t) n)\<rparr>"

definition tally_add :: "tally \<Rightarrow> u64 \<Rightarrow> 'st engine \<Rightarrow> 'st engine" where
  "tally_add t n s = s\<lparr>e_tallies := (e_tallies s)(t := e_tallies s t + n)\<rparr>"

text \<open>\<open>out.extend(g())\<close> after \<open>out = f()\<close>: run one after the other and concatenate the outputs.\<close>

definition then_out :: "('s \<Rightarrow> 's \<times> 'o list) \<Rightarrow> ('s \<Rightarrow> 's \<times> 'o list) \<Rightarrow> 's \<Rightarrow> 's \<times> 'o list" where
  "then_out f g s = (case f s of (s1, o1) \<Rightarrow> (case g s1 of (s2, o2) \<Rightarrow> (s2, o1 @ o2)))"

text \<open>A loop that runs a step for each element and concatenates the outputs.\<close>

primrec for_out :: "('a \<Rightarrow> 's \<Rightarrow> 's \<times> 'o list) \<Rightarrow> 'a list \<Rightarrow> 's \<Rightarrow> 's \<times> 'o list" where
  "for_out f [] s = (s, [])"
| "for_out f (x # xs) s = then_out (f x) (for_out f xs) s"

definition vget :: "'a list \<Rightarrow> byte \<Rightarrow> 'a option" where
  "vget xs i = (if unat i < length xs then Some (xs ! unat i) else None)"

abbreviation cert_ok :: "('e, 'm, 's, 'p, 'k, 'c, 'st) config \<Rightarrow> certificate \<Rightarrow> bool" where
  "cert_ok G c \<equiv> cert_verify (g_crypto G) c (cp_quorum (g_params G)) (g_verifiers G)"

abbreviation hash_of :: "('e, 'm, 's, 'p, 'k, 'c, 'st) config \<Rightarrow> block \<Rightarrow> byte list" where
  "hash_of G b \<equiv> block_hash (g_crypto G) b"

abbreviation commit_of :: "('e, 'm, 's, 'p, 'k, 'c, 'st) config \<Rightarrow> sealed_tx \<Rightarrow> byte list" where
  "commit_of G tx \<equiv> stx_commit (g_crypto G) tx"

section \<open>Configuration and accessors\<close>

definition height :: "'st engine \<Rightarrow> u64" where
  "height s = chain_next_height (e_chain s)"

definition enable_sortition :: "merkle_vrf_secret \<Rightarrow> byte list list \<Rightarrow> u64 \<Rightarrow> 'st engine \<Rightarrow> 'st engine" where
  "enable_sortition secret roots base s =
     s\<lparr>e_sortition := Some \<lparr>so_secret = secret, so_roots = roots, so_height = vs_height secret, so_base = base\<rparr>\<rparr>"

definition sortition_enabled :: "'st engine \<Rightarrow> bool" where
  "sortition_enabled s \<longleftrightarrow> e_sortition s \<noteq> None"

definition set_reward_per_block :: "('e, 'm, 's, 'p, 'k, 'c, 'st) config \<Rightarrow> u64 \<Rightarrow> 'st engine \<Rightarrow> 'st engine \<times> bool" where
  "set_reward_per_block G reward s =
     (if reward > 0 \<and> \<not> sm_pays_block_reward (g_machine G) then (s, False) else (s\<lparr>e_reward_per_block := reward\<rparr>, True))"

definition keyper_commit :: "('e, 'm, 's, 'p, 'k, 'c, 'st) config \<Rightarrow> byte list" where
  "keyper_commit G = kr_commit (g_crypto G) (g_kem_keys G) (g_keyper_founding G)"

definition accepts_keyper_registry :: "('e, 'm, 's, 'p, 'k, 'c, 'st) config \<Rightarrow> 'p keyper_registry \<Rightarrow> bool" where
  "accepts_keyper_registry G registry =
     kr_descends_from (g_crypto G) (g_kem_keys G) registry (g_keyper_founding G) (g_verifiers G)"

definition valid_seal :: "('e, 'm, 's, 'p, 'k, 'c, 'st) config \<Rightarrow> sealed_tx \<Rightarrow> bool" where
  "valid_seal G tx \<longleftrightarrow> st_epoch tx = g_epoch G \<and> stx_member_count tx = seal_committee_size (g_params G)"

definition submit :: "('e, 'm, 's, 'p, 'k, 'c, 'st) config \<Rightarrow> sealed_tx \<Rightarrow> 'st engine \<Rightarrow> 'st engine \<times> bool" where
  "submit G tx s =
     (if \<not> valid_seal G tx then (s, False)
      else let commit = commit_of G tx
           in if bt_contains (e_mempool s) commit then (s, False)
              else if length (e_mempool s) \<ge> MEMPOOL_CAP then (bump RejMempoolFull s, False)
              else (s\<lparr>e_mempool := bt_insert commit tx (e_mempool s)\<rparr>, True))"

definition readmit :: "('e, 'm, 's, 'p, 'k, 'c, 'st) config \<Rightarrow> sealed_tx \<Rightarrow> 'st engine \<Rightarrow> 'st engine" where
  "readmit G tx s =
     (if bt_contains (e_mempool s) (commit_of G tx) then s
      else s\<lparr>e_mempool := bt_insert (commit_of G tx) tx (e_mempool s)\<rparr>)"

text \<open>The tally of \<open>awaited_body\<close>: votes per block this validator does not hold.\<close>

definition tally_votes :: "'st engine \<Rightarrow> (byte list, nat) btree" where
  "tally_votes s = fold (\<lambda>sv m.
     let hash = v_block (sv_vote sv)
     in if hash \<noteq> NIL \<and> v_height (sv_vote sv) = height s \<and> \<not> bt_contains (e_proposals s) hash \<and> bm_get (e_recent_bodies s) hash = None
        then bt_insert hash (case bt_get m hash of None \<Rightarrow> 1 | Some n \<Rightarrow> n + 1) m else m) (e_prepares s @ e_commits s) []"

definition awaited_body :: "'st engine \<Rightarrow> byte list option" where
  "awaited_body s =
     (let want = (case bt_get (e_pending_finalize s) (height s) of Some h \<Rightarrow> Some h | None \<Rightarrow> e_locked_block s);
          by_votes = map_option fst (max_by_key (\<lambda>(hash, n). (n, hash)) (tally_votes s))
      in case want of
           Some h \<Rightarrow> if \<not> bt_contains (e_proposals s) h then Some h else by_votes
         | None \<Rightarrow> by_votes)"

definition held_body :: "'st engine \<Rightarrow> byte list \<Rightarrow> block option" where
  "held_body s hash = (case bt_get (e_proposals s) hash of Some b \<Rightarrow> Some b | None \<Rightarrow> bm_get (e_recent_bodies s) hash)"

definition skeleton_of :: "'st engine \<Rightarrow> byte list \<Rightarrow> block option" where
  "skeleton_of s hash = map_option skeleton (held_body s hash)"

definition note_skeleton_ask :: "bool \<Rightarrow> 'st engine \<Rightarrow> 'st engine" where
  "note_skeleton_ask served s = (let s = bump SkeletonAsked s in if served then bump SkeletonServed s else s)"

definition note_shard_ask :: "bool \<Rightarrow> 'st engine \<Rightarrow> 'st engine" where
  "note_shard_ask served s = (let s = bump ShardAsked s in if served then bump ShardServed s else s)"

definition note_shard_taken :: "'st engine \<Rightarrow> 'st engine" where
  "note_shard_taken s = bump ShardsTaken s"

definition note_shard_sent :: "'st engine \<Rightarrow> 'st engine" where
  "note_shard_sent s = bump ShardsSent s"

definition shard_of :: "'st engine \<Rightarrow> byte list \<Rightarrow> byte \<Rightarrow> byte list option" where
  "shard_of s hash index = Option.bind (held_body s hash) (\<lambda>b. vget (da_shards b) index)"

definition note_height :: "u64 \<Rightarrow> 'st engine \<Rightarrow> 'st engine" where
  "note_height h s = s\<lparr>e_max_seen_height := max (e_max_seen_height s) h\<rparr>"

definition note_certified_height :: "('e, 'm, 's, 'p, 'k, 'c, 'st) config \<Rightarrow> block \<Rightarrow> 'st engine \<Rightarrow> 'st engine" where
  "note_certified_height G b s =
     (let claimed = hd_height (b_header b)
      in if claimed \<le> height s \<or> claimed \<le> e_max_seen_height s then s
         else case b_last_commit b of
                None \<Rightarrow> s
              | Some cert \<Rightarrow>
                  if c_phase cert = Commit \<and> c_height cert = saturating_sub claimed 1 \<and> cert_ok G cert
                  then note_height (saturating_add (c_height cert) 1) s else s)"

definition relevant_bodies :: "'st engine \<Rightarrow> byte list list" where
  "relevant_bodies s =
     fold (\<lambda>h out. if h \<in> set out then out else out @ [h])
       (List.map_filter (\<lambda>x. x) [awaited_body s, e_locked_block s, map_option fst (e_valid_value s)]) []"

section \<open>Committed openings\<close>

definition openings_in :: "'st engine \<Rightarrow> u64 \<Rightarrow> u64 \<Rightarrow> (byte list, (byte, share) btree) btree" where
  "openings_in s after through =
     (if after \<ge> through then []
      else fold (\<lambda>reveal out.
             case reveal_share_from_bytes (cr_share reveal) of
               None \<Rightarrow> out
             | Some share \<Rightarrow>
                 let m = (case bt_get out (cr_commit reveal) of None \<Rightarrow> [] | Some m \<Rightarrow> m)
                 in bt_insert (cr_commit reveal) (if bt_contains m (cr_member reveal) then m else bt_insert (cr_member reveal) share m) out)
           (concat (map snd (filter (\<lambda>e. after + 1 \<le> fst e \<and> fst e \<le> through) (e_committed_reveals s)))) [])"

definition shares_for :: "('e, 'm, 's, 'p, 'k, 'c, 'st) config \<Rightarrow> (byte list, (byte, share) btree) btree \<Rightarrow> sealed_tx \<Rightarrow> share list" where
  "shares_for G committed tx = (case bt_get committed (commit_of G tx) of None \<Rightarrow> [] | Some m \<Rightarrow> map snd m)"

text \<open>
  The loop of \<open>execution_height\<close> over the heights of the window, as naturals: at the last representable
  height the source's counter overflows instead.
\<close>

primrec window_loop :: "(u64 \<Rightarrow> bool) \<Rightarrow> u64 \<Rightarrow> u64 \<Rightarrow> nat list \<Rightarrow> u64 option" where
  "window_loop all_open finalized until [] = Some until"
| "window_loop all_open finalized until (n # ns) =
     (let h = word_of_nat n
      in if h > finalized then None else if all_open h then Some h else window_loop all_open finalized until ns)"

definition execution_height :: "('e, 'm, 's, 'p, 'k, 'c, 'st) config \<Rightarrow> 'st engine \<Rightarrow> block \<Rightarrow> u64 option" where
  "execution_height G s b =
     (let t = seal_threshold (g_params G);
          h0 = hd_height (b_header b);
          last = saturating_add h0 REVEAL_WINDOW;
          finalized = saturating_sub (chain_next_height (e_chain s)) 1;
          all_open = (\<lambda>h. list_all (\<lambda>tx. let shares = shares_for G (openings_in s h0 h) tx
             in length shares \<ge> t \<and> open_from_subset (g_sealing G) tx shares t \<noteq> None) (b_sealed_txs b))
      in window_loop all_open finalized last [unat h0 + 1..<unat last + 1])"

definition reveals_to_commit :: "('e, 'm, 's, 'p, 'k, 'c, 'st) config \<Rightarrow> 'st engine \<Rightarrow> u64 \<Rightarrow> committed_reveal list" where
  "reveals_to_commit G s h =
     (let floor = saturating_sub h REVEAL_WINDOW;
          already = openings_in s (saturating_sub floor 1) (saturating_sub h 1)
      in concat (map (\<lambda>b.
           if hd_height (b_header b) < floor then []
           else concat (map (\<lambda>tx.
             let commit = commit_of G tx
             in case bt_get (e_reveals s) commit of
                  None \<Rightarrow> []
                | Some mine \<Rightarrow>
                    map (\<lambda>(member, share). \<lparr>cr_commit = commit, cr_member = member, cr_share = reveal_share_to_bytes share\<rparr>)
                      (filter (\<lambda>(member, share). \<not> (case bt_get already commit of None \<Rightarrow> False | Some m \<Rightarrow> bt_contains m member)) mine))
             (b_sealed_txs b))) (e_exec_queue s)))"

definition absorb_committed_reveals :: "block \<Rightarrow> 'st engine \<Rightarrow> 'st engine" where
  "absorb_committed_reveals b s =
     (if b_reveals b \<noteq> []
      then (tally_add RevealsCommitted (word_of_nat (length (b_reveals b))) s)
             \<lparr>e_committed_reveals := bt_insert (hd_height (b_header b)) (b_reveals b) (e_committed_reveals s)\<rparr>
      else s)"

section \<open>Reveals\<close>

definition emit_reveals :: "('e, 'm, 's, 'p, 'k, 'c, 'st) config \<Rightarrow> block \<Rightarrow> 'st engine \<Rightarrow> 'st engine \<times> engine_output list" where
  "emit_reveals G b = for_out (\<lambda>tx s.
     let pos = unat (g_me G)
     in if pos \<ge> seal_committee_size (g_params G) then (s, [])
        else case stx_member_share (g_crypto G) (g_sealing G) tx pos (g_kem_secret G) of
               None \<Rightarrow> (s, [])
             | Some share \<Rightarrow>
                 let commit = commit_of G tx;
                     m = (case bt_get (e_reveals s) commit of None \<Rightarrow> [] | Some m \<Rightarrow> m);
                     m = (if bt_contains m (g_me G) then m else bt_insert (g_me G) share m)
                 in (s\<lparr>e_reveals := bt_insert commit m (e_reveals s)\<rparr>,
                     [Send (Reveal (reveal_signed (g_crypto G) commit (g_me G) (reveal_share_to_bytes share) (g_signer G)))])) (b_sealed_txs b)"

definition sealed_tx_for :: "('e, 'm, 's, 'p, 'k, 'c, 'st) config \<Rightarrow> 'st engine \<Rightarrow> byte list \<Rightarrow> sealed_tx option" where
  "sealed_tx_for G s commit = List.find (\<lambda>tx. commit_of G tx = commit) (concat (map b_sealed_txs (e_exec_queue s)))"

definition validate_and_record :: "('e, 'm, 's, 'p, 'k, 'c, 'st) config \<Rightarrow> reveal_msg \<Rightarrow> 'st engine \<Rightarrow> 'st engine \<times> bool" where
  "validate_and_record G r s =
     (let known = (case bt_get (e_reveals s) (rv_commit r) of None \<Rightarrow> [] | Some m \<Rightarrow> m); pos = unat (rv_member r)
      in if bt_contains known (rv_member r) then (s, False)
         else if sealed_tx_for G s (rv_commit r) = None then (s, False)
         else if pos \<ge> seal_committee_size (g_params G) then (s, False)
         else case vget (g_verifiers G) (rv_member r) of
                None \<Rightarrow> (s, False)
              | Some verifier \<Rightarrow>
                  if \<not> reveal_verify (g_crypto G) r verifier then (s, False)
                  else case reveal_share_from_bytes (rv_share r) of
                         None \<Rightarrow> (s, False)
                       | Some share \<Rightarrow>
                           if unat (sh_x share) \<noteq> pos + 1 then (s, False)
                           else (tally_add RevealsGossiped 1
                                   (s\<lparr>e_reveals := bt_insert (rv_commit r) (bt_insert (rv_member r) share known) (e_reveals s)\<rparr>), True))"

definition regossip :: "reveal_msg \<Rightarrow> engine_output" where
  "regossip r = Send (Reveal r)"

definition record_or_skip :: "('e, 'm, 's, 'p, 'k, 'c, 'st) config \<Rightarrow> reveal_msg \<Rightarrow> 'st engine \<Rightarrow> 'st engine \<times> engine_output list" where
  "record_or_skip G r s = (case validate_and_record G r s of (s, ok) \<Rightarrow> (s, if ok then [regossip r] else []))"

definition drain_pending_reveals :: "('e, 'm, 's, 'p, 'k, 'c, 'st) config \<Rightarrow> block \<Rightarrow> 'st engine \<Rightarrow> 'st engine \<times> engine_output list" where
  "drain_pending_reveals G b = for_out (\<lambda>tx s.
     let commit = commit_of G tx;
         taken = map (\<lambda>(member, m). (member, bm_remove commit m)) (e_pending_reveals s);
         early = List.map_filter (\<lambda>(member, m, r). r) taken
     in for_out (record_or_skip G) early (s\<lparr>e_pending_reveals := map (\<lambda>(member, m, r). (member, m)) taken\<rparr>)) (b_sealed_txs b)"

definition pending_reveal_count :: "'st engine \<Rightarrow> nat" where
  "pending_reveal_count s = sum_list (map (\<lambda>(member, m). bm_len m) (e_pending_reveals s))"

definition buffers_reveal_for :: "'st engine \<Rightarrow> byte list \<Rightarrow> bool" where
  "buffers_reveal_for s commit \<longleftrightarrow> list_ex (\<lambda>(member, m). bm_get m commit \<noteq> None) (e_pending_reveals s)"

section \<open>Checkpoints\<close>

definition prune_recovery_retention :: "'st engine \<Rightarrow> 'st engine" where
  "prune_recovery_retention s =
     (case e_checkpoint s of
        None \<Rightarrow> s
      | Some c \<Rightarrow>
          let floor = xc_height c;
              heads = filter (\<lambda>e. fst e \<ge> floor) (e_sync_heads s);
              live = map (\<lambda>(h, root, head). root) heads;
              stale = map fst (filter (\<lambda>(h, b). hd_height (b_header b) < floor) (bm_iter (e_recent_bodies s)))
          in s\<lparr>e_sync_heads := heads,
               e_certified := filter (\<lambda>e. fst e \<ge> floor) (e_certified s),
               e_exec_votes := filter (\<lambda>e. fst e > floor) (e_exec_votes s),
               e_sync_states := filter (\<lambda>e. fst e \<in> set live) (e_sync_states s),
               e_recent_bodies := fold (\<lambda>h m. fst (bm_remove h m)) stale (e_recent_bodies s)\<rparr>)"

text \<open>\<open>by_state\<close>: the votes of one height grouped by what they attest, in key order.\<close>

definition group_by_state :: "(byte, exec_vote) btree \<Rightarrow> (byte list \<times> byte list, exec_vote list) btree" where
  "group_by_state by_voter = fold (\<lambda>(voter, v) m.
     let key = (xv_state_root v, xv_head v) in bt_insert key ((case bt_get m key of None \<Rightarrow> [] | Some vs \<Rightarrow> vs) @ [v]) m) by_voter []"

definition try_form_checkpoint :: "('e, 'm, 's, 'p, 'k, 'c, 'st) config \<Rightarrow> u64 \<Rightarrow> 'st engine \<Rightarrow> 'st engine" where
  "try_form_checkpoint G h s =
     (if (case e_checkpoint s of None \<Rightarrow> False | Some c \<Rightarrow> xc_height c \<ge> h) then s
      else case bt_get (e_exec_votes s) h of
             None \<Rightarrow> s
           | Some by_voter \<Rightarrow>
               let mine = map_option xv_state_root (bt_get by_voter (g_me G))
               in case List.find (\<lambda>(k, votes). length votes \<ge> cp_quorum (g_params G)) (group_by_state by_voter) of
                    None \<Rightarrow> s
                  | Some ((root, head), votes) \<Rightarrow>
                      let s = (if (case mine of None \<Rightarrow> False | Some ours \<Rightarrow> ours \<noteq> root) then s\<lparr>e_diverged := Some h\<rparr> else s);
                          s = s\<lparr>e_checkpoint := Some \<lparr>xc_height = h, xc_state_root = root, xc_head = head, xc_votes = votes\<rparr>\<rparr>
                      in prune_recovery_retention s)"

definition record_exec_vote :: "('e, 'm, 's, 'p, 'k, 'c, 'st) config \<Rightarrow> exec_vote \<Rightarrow> 'st engine \<Rightarrow> 'st engine" where
  "record_exec_vote G vote s =
     (let h = xv_height vote;
          m = (case bt_get (e_exec_votes s) h of None \<Rightarrow> [] | Some m \<Rightarrow> m);
          m = (if bt_contains m (xv_voter vote) then m else bt_insert (xv_voter vote) vote m);
          votes = bt_insert h m (e_exec_votes s);
          kept = drop (length votes - EXEC_VOTE_HEIGHTS) votes
      in try_form_checkpoint G h (s\<lparr>e_exec_votes := kept\<rparr>))"

definition emit_exec_vote :: "('e, 'm, 's, 'p, 'k, 'c, 'st) config \<Rightarrow> u64 \<Rightarrow> byte list \<Rightarrow> 'st engine \<Rightarrow> 'st engine \<times> engine_output list" where
  "emit_exec_vote G h head s =
     (let vote = xv_sign (g_crypto G) h (chain_state_root (g_machine G) (e_chain s)) head (g_me G) (g_signer G)
      in (record_exec_vote G vote s, [Send (ExecVote vote)]))"

definition on_exec_vote :: "('e, 'm, 's, 'p, 'k, 'c, 'st) config \<Rightarrow> exec_vote \<Rightarrow> 'st engine \<Rightarrow> 'st engine \<times> engine_output list" where
  "on_exec_vote G vote s =
     (case vget (g_verifiers G) (xv_voter vote) of
        None \<Rightarrow> (s, [])
      | Some verifier \<Rightarrow>
          if \<not> xv_verify (g_crypto G) vote verifier then (s, [])
          else let s = (if xv_height vote \<ge> height s then note_height (xv_height vote) s else s)
               in (record_exec_vote G vote s, []))"

section \<open>Execution\<close>

definition note_deferrals :: "('e, 'm, 's, 'p, 'k, 'c, 'st) config \<Rightarrow> sealed_tx list \<Rightarrow> exec_outcome list \<Rightarrow> 'st engine \<Rightarrow> 'st engine" where
  "note_deferrals G opened_from outcomes = fold (\<lambda>(sealed, out) s.
     let commit = commit_of G sealed
     in if out \<noteq> ExDeferred then s\<lparr>e_deferred_since := fst (bm_remove commit (e_deferred_since s))\<rparr>
        else case bm_get (e_deferred_since s) commit of
               None \<Rightarrow>
                 (if bm_len (e_deferred_since s) < DEFERRAL_CAP
                  then readmit G sealed (s\<lparr>e_deferred_since := fst (bm_insert commit 1 (e_deferred_since s))\<rparr>)
                  else s)
             | Some tries \<Rightarrow>
                 (if tries \<ge> REVEAL_WINDOW then s\<lparr>e_deferred_since := fst (bm_remove commit (e_deferred_since s))\<rparr>
                  else readmit G sealed (s\<lparr>e_deferred_since := fst (bm_insert commit (tries + 1) (e_deferred_since s))\<rparr>)))
     (zip opened_from outcomes)"

definition capture_sync_snapshot :: "('e, 'm, 's, 'p, 'k, 'c, 'st) config \<Rightarrow> block \<Rightarrow> 'st engine \<Rightarrow> 'st engine" where
  "capture_sync_snapshot G b s =
     (let root = chain_state_root (g_machine G) (e_chain s);
          s = (if bt_contains (e_sync_states s) root then s
               else s\<lparr>e_sync_states := bt_insert root (sm_snapshot (g_machine G) (ch_state (e_chain s))) (e_sync_states s)\<rparr>)
      in s\<lparr>e_sync_heads := bt_insert (hd_height (b_header b)) (root, hash_of G b) (e_sync_heads s)\<rparr>)"

definition reveal_gated_beneficiaries :: "byte list \<Rightarrow> byte set \<Rightarrow> bool \<Rightarrow> byte list" where
  "reveal_gated_beneficiaries voters revealers block_has_txs = filter (\<lambda>v. \<not> block_has_txs \<or> v \<in> revealers) voters"

definition pay_block_reward ::
    "('e, 'm, 's, 'p, 'k, 'c, 'st) config \<Rightarrow> block \<Rightarrow> (byte list, (byte, share) btree) btree \<Rightarrow> 'st engine \<Rightarrow> 'st engine" where
  "pay_block_reward G b committed s =
     (if e_reward_per_block s > 0
      then case b_last_commit b of
             None \<Rightarrow> s
           | Some cert \<Rightarrow>
               let revealers = set (concat (map (\<lambda>(commit, m). map fst m) committed));
                   voters = map (\<lambda>sv. v_voter (sv_vote sv)) (c_votes cert);
                   paid = reveal_gated_beneficiaries voters revealers (b_sealed_txs b \<noteq> []);
                   beneficiaries = List.map_filter (vget (g_verifiers G)) paid
               in s\<lparr>e_chain := chain_apply_block_reward (g_machine G) beneficiaries (e_reward_per_block s) (e_chain s)\<rparr>
      else s)"

text \<open>One iteration of \<open>try_execute\<close>: the first queued block is executed with the openings committed for it.\<close>

definition execute_first ::
    "('e, 'm, 's, 'p, 'k, 'c, 'st) config \<Rightarrow> block \<Rightarrow> u64 \<Rightarrow> 'st engine \<Rightarrow> 'st engine \<times> engine_output list" where
  "execute_first G b at s =
     (let t = seal_threshold (g_params G);
          committed = openings_in s (hd_height (b_header b)) at;
          opened = List.map_filter (\<lambda>tx.
            let shares = shares_for G committed tx
            in if length shares \<ge> t then map_option (\<lambda>txn. (txn, tx)) (open_from_subset (g_sealing G) tx shares t) else None)
            (b_sealed_txs b);
          s = s\<lparr>e_exec_queue := tl (e_exec_queue s)\<rparr>;
          s = s\<lparr>e_chain := chain_begin_block (g_machine G) (hd_height (b_header b)) (e_chain s)\<rparr>;
          s = s\<lparr>e_chain := chain_set_audit_beacon (g_machine G) (hd_parent (b_header b)) (e_chain s)\<rparr>;
          s = pay_block_reward G b committed s
      in case chain_execute_block (g_machine G) (map fst opened) (e_chain s) of
           (c, outcomes) \<Rightarrow>
             let s = note_deferrals G (map snd opened) outcomes (s\<lparr>e_chain := c\<rparr>)
             in (case emit_exec_vote G (hd_height (b_header b)) (hash_of G b) s of
                   (s, out) \<Rightarrow> (capture_sync_snapshot G b s, out)))"

text \<open>The \<open>while\<close> loop takes a block off the queue in every iteration: as many as are queued suffice.\<close>

primrec execute_loop :: "('e, 'm, 's, 'p, 'k, 'c, 'st) config \<Rightarrow> nat \<Rightarrow> 'st engine \<Rightarrow> 'st engine \<times> engine_output list" where
  "execute_loop G 0 s = (s, [])"
| "execute_loop G (Suc n) s =
     (case e_exec_queue s of
        [] \<Rightarrow> (s, [])
      | b # _ \<Rightarrow>
          (case execution_height G s b of
             None \<Rightarrow> (s, [])
           | Some at \<Rightarrow> then_out (execute_first G b at) (execute_loop G n) s))"

definition try_execute :: "('e, 'm, 's, 'p, 'k, 'c, 'st) config \<Rightarrow> 'st engine \<Rightarrow> 'st engine \<times> engine_output list" where
  "try_execute G s = execute_loop G (length (e_exec_queue s)) s"

definition on_reveal :: "('e, 'm, 's, 'p, 'k, 'c, 'st) config \<Rightarrow> reveal_msg \<Rightarrow> 'st engine \<Rightarrow> 'st engine \<times> engine_output list" where
  "on_reveal G r = then_out (\<lambda>s.
     if sealed_tx_for G s (rv_commit r) \<noteq> None then record_or_skip G r s
     else if (case bt_get (e_pending_reveals s) (rv_member r) of None \<Rightarrow> True | Some m \<Rightarrow> bm_get m (rv_commit r) = None) \<and>
             (case vget (g_verifiers G) (rv_member r) of None \<Rightarrow> False | Some vk \<Rightarrow> reveal_verify (g_crypto G) r vk)
     then let share = MAX_PENDING_REVEAL_COMMITS div max (line_size (g_params G)) 1;
              mine = (case bt_get (e_pending_reveals s) (rv_member r) of None \<Rightarrow> bm_new share | Some m \<Rightarrow> m);
              mine = (if bm_get mine (rv_commit r) = None then fst (bm_insert (rv_commit r) r mine) else mine)
          in (s\<lparr>e_pending_reveals := bt_insert (rv_member r) mine (e_pending_reveals s)\<rparr>, [])
     else (s, [])) (try_execute G)"

end
