(* ===== verification/Taxis_Step.thy ===== *)
theory Taxis_Step
  imports Taxis_Engine
begin

text \<open>
  The handlers of \<open>ConsensusEngine\<close> that propose, vote, lock, finalize and synchronize, and \<open>step\<close>
  (\<open>fanos-taxis/src/consensus.rs\<close>). A validator prepares at most one value per round and refuses one other
  than its lock, unless a newer prepare quorum is shown; it commits and locks what a quorum prepared in its
  round; it finalizes what a quorum committed, once it holds the body.
\<close>

section \<open>Certificates of the stored votes\<close>

text \<open>The loop of \<open>collect_cert\<close>: one vote per seat, in the order stored.\<close>

primrec collect_votes :: "phase \<Rightarrow> u64 \<Rightarrow> u32 \<Rightarrow> byte list \<Rightarrow> signed_vote list \<Rightarrow> bool list \<Rightarrow> signed_vote list" where
  "collect_votes ph h r bh [] seen = []"
| "collect_votes ph h r bh (sv # svs) seen =
     (let v = sv_vote sv; i = unat (v_voter v)
      in if v_phase v = ph \<and> v_height v = h \<and> v_round v = r \<and> v_block v = bh \<and> i < length seen \<and> \<not> seen ! i
         then sv # collect_votes ph h r bh svs (seen[i := True])
         else collect_votes ph h r bh svs seen)"

definition collect_cert :: "('e, 'm, 's, 'p, 'k, 'c, 'st) config \<Rightarrow> phase \<Rightarrow> byte list \<Rightarrow> 'st engine \<Rightarrow> certificate" where
  "collect_cert G ph bh s =
     \<lparr>c_phase = ph, c_height = height s, c_round = e_round s, c_block = bh,
      c_votes = collect_votes ph (height s) (e_round s) bh (case ph of Prepare \<Rightarrow> e_prepares s | Commit \<Rightarrow> e_commits s)
        (replicate (length (g_verifiers G)) False)\<rparr>"

definition valid_last_commit :: "('e, 'm, 's, 'p, 'k, 'c, 'st) config \<Rightarrow> block \<Rightarrow> bool" where
  "valid_last_commit G b =
     (case b_last_commit b of
        None \<Rightarrow> hd_height (b_header b) = 0
      | Some cert \<Rightarrow> c_phase cert = Commit \<and> c_block cert = hd_parent (b_header b) \<and>
          c_height cert = saturating_sub (hd_height (b_header b)) 1 \<and> cert_ok G cert)"

section \<open>Finalizing\<close>

definition reset_round_state :: "'st engine \<Rightarrow> 'st engine" where
  "reset_round_state s = s\<lparr>e_round := 0, e_proposals := [], e_proposed_round := None, e_prepares := [], e_commits := [],
     e_sent_prepare := {}, e_sent_commit := {}, e_locked_block := None, e_locked_cert := None, e_valid_value := None,
     e_round0_tickets := [], e_round0_window := None\<rparr>"

text \<open>The block is recorded: the certificate kept, the header appended, before anything is executed.\<close>

definition record_finalized :: "('e, 'm, 's, 'p, 'k, 'c, 'st) config \<Rightarrow> byte list \<Rightarrow> block \<Rightarrow> 'st engine \<Rightarrow> 'st engine" where
  "record_finalized G bh b s =
     (let h = height s;
          s = s\<lparr>e_pending_finalize := bt_remove h (e_pending_finalize s)\<rparr>;
          s = s\<lparr>e_recent_bodies := fst (bm_insert bh b (e_recent_bodies s))\<rparr>;
          finalizer = (case bt_get (e_certified s) h of Some c \<Rightarrow> c | None \<Rightarrow> collect_cert G Commit bh s);
          s = s\<lparr>e_certified := bt_insert h finalizer (e_certified s)\<rparr>;
          s = prune_recovery_retention s;
          s = s\<lparr>e_last_finalized_cert := Some finalizer\<rparr>
      in s\<lparr>e_chain := chain_finalize (g_crypto G) (b_header b) (e_chain s)\<rparr>)"

definition finalize :: "('e, 'm, 's, 'p, 'k, 'c, 'st) config \<Rightarrow> byte list \<Rightarrow> 'st engine \<Rightarrow> 'st engine \<times> engine_output list" where
  "finalize G bh s =
     (let h = height s
      in case bt_get (e_proposals s) bh of
           None \<Rightarrow>
             let s = (if bt_contains (e_certified s) h then s
                      else s\<lparr>e_certified := bt_insert h (collect_cert G Commit bh s) (e_certified s)\<rparr>)
             in (s\<lparr>e_pending_finalize := bt_insert h bh (e_pending_finalize s)\<rparr>, [])
         | Some b \<Rightarrow>
             let included = set (map (commit_of G) (b_sealed_txs b));
                 s = record_finalized G bh b s;
                 awaiting = e_exec_queue s
             in (case then_out (emit_reveals G b)
                   (then_out (for_out (emit_reveals G) awaiting)
                   (then_out (\<lambda>s. let s = absorb_committed_reveals b s
                                  in drain_pending_reveals G b (s\<lparr>e_exec_queue := e_exec_queue s @ [b]\<rparr>))
                             (\<lambda>s. try_execute G (s\<lparr>e_mempool := filter (\<lambda>e. fst e \<notin> included) (e_mempool s)\<rparr>)))) s of
                   (s, out) \<Rightarrow> (reset_round_state s, Committed h bh # out)))"

definition check_committed :: "('e, 'm, 's, 'p, 'k, 'c, 'st) config \<Rightarrow> byte list \<Rightarrow> 'st engine \<Rightarrow> 'st engine \<times> engine_output list" where
  "check_committed G bh s = (if \<not> cert_ok G (collect_cert G Commit bh s) then (s, []) else finalize G bh s)"

section \<open>Votes\<close>

definition find_equivocation :: "('e, 'm, 's, 'p, 'k, 'c, 'st) config \<Rightarrow> signed_vote \<Rightarrow> 'st engine \<Rightarrow> slash_evidence option" where
  "find_equivocation G sv s =
     (let v = sv_vote sv; bucket = (case v_phase v of Prepare \<Rightarrow> e_prepares s | Commit \<Rightarrow> e_commits s)
      in case vget (g_verifiers G) (v_voter v) of
           None \<Rightarrow> None
         | Some verifier \<Rightarrow>
             (case List.map_filter (\<lambda>e.
                let ev = sv_vote e
                in if v_voter ev = v_voter v \<and> v_height ev = v_height v \<and> v_round ev = v_round v \<and> v_phase ev = v_phase v \<and>
                      v_block ev \<noteq> v_block v
                   then detect_equivocation (g_crypto G) e sv verifier else None) bucket of
                [] \<Rightarrow> None
              | ev # _ \<Rightarrow> Some ev))"

definition store_vote :: "signed_vote \<Rightarrow> 'st engine \<Rightarrow> 'st engine" where
  "store_vote sv s =
     (let v = sv_vote sv;
          fresh = list_all (\<lambda>e. \<not> (v_voter (sv_vote e) = v_voter v \<and> v_round (sv_vote e) = v_round v \<and> v_block (sv_vote e) = v_block v))
      in case v_phase v of
           Prepare \<Rightarrow> if fresh (e_prepares s) then s\<lparr>e_prepares := e_prepares s @ [sv]\<rparr> else s
         | Commit \<Rightarrow> if fresh (e_commits s) then s\<lparr>e_commits := e_commits s @ [sv]\<rparr> else s)"

definition own_vote :: "('e, 'm, 's, 'p, 'k, 'c, 'st) config \<Rightarrow> phase \<Rightarrow> u64 \<Rightarrow> u32 \<Rightarrow> byte list \<Rightarrow> signed_vote" where
  "own_vote G ph h r bh = sv_sign (g_crypto G) \<lparr>v_height = h, v_round = r, v_block = bh, v_phase = ph, v_voter = g_me G\<rparr> (g_signer G)"

text \<open>\<open>accept_vote(sv.clone())\<close> and then \<open>out.push(Send(Vote(sv)))\<close>.\<close>

definition cast_vote ::
    "(signed_vote \<Rightarrow> 'st engine \<Rightarrow> 'st engine \<times> engine_output list) \<Rightarrow> signed_vote \<Rightarrow> 'st engine \<Rightarrow> 'st engine \<times> engine_output list" where
  "cast_vote acc sv s = (case acc sv s of (s, out) \<Rightarrow> (s, out @ [Send (Vote sv)]))"

definition check_prepared ::
    "(signed_vote \<Rightarrow> 'st engine \<Rightarrow> 'st engine \<times> engine_output list) \<Rightarrow> ('e, 'm, 's, 'p, 'k, 'c, 'st) config \<Rightarrow>
     byte list \<Rightarrow> u32 \<Rightarrow> 'st engine \<Rightarrow> 'st engine \<times> engine_output list" where
  "check_prepared acc G bh r s =
     (if bh = NIL \<or> r \<noteq> e_round s \<or> e_round s \<in> e_sent_commit s then (s, [])
      else let cert = collect_cert G Prepare bh s
           in if \<not> cert_ok G cert then (s, [])
              else cast_vote acc (own_vote G Commit (height s) (e_round s) bh)
                     (s\<lparr>e_locked_block := Some bh, e_locked_cert := Some cert, e_sent_commit := insert (e_round s) (e_sent_commit s)\<rparr>))"

definition reprepare_lock ::
    "(signed_vote \<Rightarrow> 'st engine \<Rightarrow> 'st engine \<times> engine_output list) \<Rightarrow> ('e, 'm, 's, 'p, 'k, 'c, 'st) config \<Rightarrow>
     'st engine \<Rightarrow> 'st engine \<times> engine_output list" where
  "reprepare_lock acc G s =
     (case e_locked_block s of
        None \<Rightarrow> (s, [])
      | Some bh \<Rightarrow>
          if e_round s \<in> e_sent_prepare s \<or> \<not> bt_contains (e_proposals s) bh then (s, [])
          else cast_vote acc (own_vote G Prepare (height s) (e_round s) bh) (s\<lparr>e_sent_prepare := insert (e_round s) (e_sent_prepare s)\<rparr>))"

section \<open>Proposing\<close>

definition own_leader_witness :: "'st engine \<Rightarrow> u64 \<Rightarrow> leader_witness option" where
  "own_leader_witness s h = do {
     so \<leftarrow> e_sortition s;
     index \<leftarrow> index_for so h;
     (out, path) \<leftarrow> vrf_prove (so_secret so) index;
     Some \<lparr>lw_output = out, lw_proof = path\<rparr> }"

definition verify_witness :: "('e, 'm, 's, 'p, 'k, 'c, 'st) config \<Rightarrow> block \<Rightarrow> 'st engine \<Rightarrow> byte list option" where
  "verify_witness G b s = do {
     so \<leftarrow> e_sortition s;
     w \<leftarrow> b_witness b;
     let h = hd_height (b_header b);
     index \<leftarrow> index_for so h;
     root \<leftarrow> vget (so_roots so) (hd_proposer (b_header b));
     verify_leader_ticket (g_crypto G) root (so_height so) index (g_seed G) h (e_round s) (lw_output w) (lw_proof w) }"

text \<open>\<open>leader(\<dots>) as u8\<close>.\<close>

definition leader_byte :: "('e, 'm, 's, 'p, 'k, 'c, 'st) config \<Rightarrow> u64 \<Rightarrow> u32 \<Rightarrow> byte" where
  "leader_byte G h r = word_of_nat (leader (g_crypto G) (g_seed G) h r)"

definition on_line :: "('e, 'm, 's, 'p, 'k, 'c, 'st) config \<Rightarrow> u64 \<Rightarrow> byte \<Rightarrow> bool" where
  "on_line G h v = is_line_member (g_crypto G) (g_seed G) h 0 (unat v)"

definition sortition_round0 :: "'st engine \<Rightarrow> bool" where
  "sortition_round0 s \<longleftrightarrow> e_sortition s \<noteq> None \<and> e_round s = 0"

text \<open>The value to re-offer: the locked block with the certificate that locked it, else a value known prepared.\<close>

definition reoffer :: "'st engine \<Rightarrow> (block \<times> certificate) option" where
  "reoffer s =
     (case Option.bind (e_locked_block s) (\<lambda>h. Option.bind (bt_get (e_proposals s) h) (\<lambda>b. map_option (Pair b) (e_locked_cert s))) of
        Some r \<Rightarrow> Some r
      | None \<Rightarrow> Option.bind (e_valid_value s) (\<lambda>(hash, cert). map_option (\<lambda>b. (b, cert)) (bt_get (e_proposals s) hash)))"

definition proposal_block :: "('e, 'm, 's, 'p, 'k, 'c, 'st) config \<Rightarrow> 'st engine \<Rightarrow> block" where
  "proposal_block G s =
     (let h = height s;
          b = (case reoffer s of
                 Some (locked, cert) \<Rightarrow> locked\<lparr>b_pol := Some cert, b_witness := None\<rparr>
               | None \<Rightarrow>
                   let reveals = reveals_to_commit G s h;
                       budget = budget_for (g_crypto G) (ch_head (e_chain s)) h (g_epoch G) (g_me G) (e_last_finalized_cert s) reveals;
                       sealed = pack_to_budget (map snd (e_mempool s)) budget
                   in with_reveals (g_crypto G) (assemble (g_crypto G) (ch_head (e_chain s)) h (g_epoch G) (g_me G) sealed) reveals)
      in case e_last_finalized_cert s of None \<Rightarrow> b | Some cert \<Rightarrow> with_last_commit (g_crypto G) b cert)"

definition may_propose :: "('e, 'm, 's, 'p, 'k, 'c, 'st) config \<Rightarrow> 'st engine \<Rightarrow> bool" where
  "may_propose G s =
     (let h = height s;
          entitled = (if sortition_round0 s then on_line G h (g_me G) else leader_byte G h (e_round s) = g_me G);
          can_reoffer = (e_max_seen_height s \<le> h \<and>
            (case e_locked_block s of None \<Rightarrow> False | Some b \<Rightarrow> bt_contains (e_proposals s) b \<and> e_locked_cert s \<noteq> None))
      in (entitled \<or> can_reoffer) \<and> e_proposed_round s \<noteq> Some (e_round s) \<and> \<not> (h > 0 \<and> e_last_finalized_cert s = None))"

definition maybe_propose :: "('e, 'm, 's, 'p, 'k, 'c, 'st) config \<Rightarrow> 'st engine \<Rightarrow> 'st engine \<times> engine_output list" where
  "maybe_propose G s =
     (if \<not> may_propose G s then (s, [])
      else let b = proposal_block G s;
               signed = (if sortition_round0 s then map_option (with_witness b) (own_leader_witness s (height s)) else Some b)
           in case signed of
                None \<Rightarrow> (s, [])
              | Some b \<Rightarrow> (s\<lparr>e_proposed_round := Some (e_round s)\<rparr>, [Send (Propose b)]))"

section \<open>Rounds\<close>

definition advance_round ::
    "(signed_vote \<Rightarrow> 'st engine \<Rightarrow> 'st engine \<times> engine_output list) \<Rightarrow> ('e, 'm, 's, 'p, 'k, 'c, 'st) config \<Rightarrow>
     'st engine \<Rightarrow> 'st engine \<times> engine_output list" where
  "advance_round acc G s = then_out (reprepare_lock acc G) (maybe_propose G) (s\<lparr>e_round := saturating_add (e_round s) 1\<rparr>)"

definition round_failed_by_votes ::
    "(signed_vote \<Rightarrow> 'st engine \<Rightarrow> 'st engine \<times> engine_output list) \<Rightarrow> ('e, 'm, 's, 'p, 'k, 'c, 'st) config \<Rightarrow>
     'st engine \<Rightarrow> 'st engine \<times> engine_output list" where
  "round_failed_by_votes acc G s =
     (let here = map sv_vote (filter (\<lambda>sv. v_height (sv_vote sv) = height s \<and> v_round (sv_vote sv) = e_round s) (e_prepares s));
          voters = length (remdups (map v_voter here));
          quorum = cp_quorum (g_params G)
      in if voters < quorum then (s, [])
         else let undecided = cp_n (g_params G) - voters;
                  alive = list_ex (\<lambda>hash. hash \<noteq> NIL \<and>
                    length (remdups (map v_voter (filter (\<lambda>v. v_block v = hash) here))) + undecided \<ge> quorum) (map v_block here)
              in if alive then (s, []) else advance_round acc G s)"

text \<open>The highest round each other validator was heard in above this one, in voter order.\<close>

definition highest_rounds :: "('e, 'm, 's, 'p, 'k, 'c, 'st) config \<Rightarrow> 'st engine \<Rightarrow> (byte, u32) btree" where
  "highest_rounds G s = fold (\<lambda>sv m.
     let v = sv_vote sv
     in if v_height v = height s \<and> v_round v > e_round s \<and> v_voter v \<noteq> g_me G
        then bt_insert (v_voter v) (max (case bt_get m (v_voter v) of None \<Rightarrow> 0 | Some r \<Rightarrow> r) (v_round v)) m else m)
     (e_prepares s @ e_commits s) []"

definition maybe_advance_round ::
    "(signed_vote \<Rightarrow> 'st engine \<Rightarrow> 'st engine \<times> engine_output list) \<Rightarrow> ('e, 'm, 's, 'p, 'k, 'c, 'st) config \<Rightarrow>
     'st engine \<Rightarrow> 'st engine \<times> engine_output list" where
  "maybe_advance_round acc G s =
     (let highest = highest_rounds G s; threshold = cp_f (g_params G) + 1
      in if length highest < threshold then (s, [])
         else let target = rev (sort (map snd highest)) ! (threshold - 1)
              in if target \<le> e_round s then (s, [])
                 else let s = bump_by RoundsSkipped (ucast (target - e_round s)) (bump RoundJumps s)
                      in then_out (reprepare_lock acc G) (maybe_propose G) (s\<lparr>e_round := target\<rparr>))"

section \<open>Accepting a vote\<close>

definition accept_vote_body ::
    "(signed_vote \<Rightarrow> 'st engine \<Rightarrow> 'st engine \<times> engine_output list) \<Rightarrow> ('e, 'm, 's, 'p, 'k, 'c, 'st) config \<Rightarrow>
     signed_vote \<Rightarrow> 'st engine \<Rightarrow> 'st engine \<times> engine_output list" where
  "accept_vote_body acc G sv s =
     (let v = sv_vote sv; other = (v_voter v \<noteq> g_me G)
      in case vget (g_verifiers G) (v_voter v) of
           None \<Rightarrow> (s, [])
         | Some verifier \<Rightarrow>
             if \<not> sv_verify (g_crypto G) sv verifier then (bump Forged s, [])
             else if v_height v \<noteq> height s
             then let s = (if v_height v > height s then bump FutureHeight (note_height (v_height v) s) else bump StaleHeight s)
                  in (if other then bump VotesOffHeight s else s, [])
             else let s = (if other then bump (if v_round v < e_round s then VotesBelow else if v_round v = e_round s then VotesAt else VotesAbove) s else s);
                      slash = (case find_equivocation G sv s of None \<Rightarrow> [] | Some ev \<Rightarrow> [Slash ev]);
                      transitions = (case v_phase v of Prepare \<Rightarrow> check_prepared acc G (v_block v) (v_round v) | Commit \<Rightarrow> check_committed G (v_block v))
                  in (case then_out transitions (then_out (round_failed_by_votes acc G) (maybe_advance_round acc G)) (store_vote sv s) of
                        (s, out) \<Rightarrow> (s, slash @ out)))"

primrec accept_vote_fuel ::
    "nat \<Rightarrow> ('e, 'm, 's, 'p, 'k, 'c, 'st) config \<Rightarrow> signed_vote \<Rightarrow> 'st engine \<Rightarrow> 'st engine \<times> engine_output list" where
  "accept_vote_fuel 0 G sv s = (s, [])"
| "accept_vote_fuel (Suc n) G sv s = accept_vote_body (accept_vote_fuel n G) G sv s"

text \<open>
  Every nested call follows a vote of the validator's own for a round and phase it had not voted in: there
  are \<open>2 \<cdot> 2\<^sup>32\<close> of those.
\<close>

definition ACCEPT_FUEL :: nat where "ACCEPT_FUEL = 2 * 2 ^ 32 + 1"

definition accept_vote ::
    "('e, 'm, 's, 'p, 'k, 'c, 'st) config \<Rightarrow> signed_vote \<Rightarrow> 'st engine \<Rightarrow> 'st engine \<times> engine_output list" where
  "accept_vote G = accept_vote_fuel ACCEPT_FUEL G"

definition prepare_nil :: "('e, 'm, 's, 'p, 'k, 'c, 'st) config \<Rightarrow> 'st engine \<Rightarrow> 'st engine \<times> engine_output list" where
  "prepare_nil G s =
     (if e_round s \<in> e_sent_prepare s then (s, [])
      else cast_vote (accept_vote G) (own_vote G Prepare (height s) (e_round s) NIL) (s\<lparr>e_sent_prepare := insert (e_round s) (e_sent_prepare s)\<rparr>))"

definition on_timeout :: "('e, 'm, 's, 'p, 'k, 'c, 'st) config \<Rightarrow> 'st engine \<Rightarrow> 'st engine \<times> engine_output list" where
  "on_timeout G s = (if e_round s \<notin> e_sent_prepare s then prepare_nil G s else advance_round (accept_vote G) G s)"

section \<open>The lottery round\<close>

definition prepare_round0_min :: "('e, 'm, 's, 'p, 'k, 'c, 'st) config \<Rightarrow> 'st engine \<Rightarrow> 'st engine \<times> engine_output list" where
  "prepare_round0_min G s =
     (if e_round s \<noteq> 0 \<or> 0 \<in> e_sent_prepare s then (s, [])
      else case min_by_key fst (map snd (e_round0_tickets s)) of
             None \<Rightarrow> (s, [])
           | Some (ticket, bh) \<Rightarrow>
               if \<not> bt_contains (e_proposals s) bh then (s, [])
               else if (case e_locked_block s of None \<Rightarrow> False | Some locked \<Rightarrow> locked \<noteq> bh) then (s, [])
               else cast_vote (accept_vote G) (own_vote G Prepare (height s) 0 bh) (s\<lparr>e_sent_prepare := insert 0 (e_sent_prepare s)\<rparr>))"

definition tick_round0_window :: "('e, 'm, 's, 'p, 'k, 'c, 'st) config \<Rightarrow> 'st engine \<Rightarrow> 'st engine \<times> engine_output list" where
  "tick_round0_window G s =
     (if e_round s \<noteq> 0 \<or> 0 \<in> e_sent_prepare s then (s, [])
      else case e_round0_window s of
             None \<Rightarrow> (s, [])
           | Some w \<Rightarrow>
               let s = s\<lparr>e_round0_window := Some (w + 1)\<rparr>
               in if w + 1 < COLLECT_WINDOW_TICKS \<or> e_round0_tickets s = [] then (s, []) else prepare_round0_min G s)"

definition rank_round0 ::
    "('e, 'm, 's, 'p, 'k, 'c, 'st) config \<Rightarrow> byte \<Rightarrow> byte list \<Rightarrow> byte list \<Rightarrow> u64 \<Rightarrow> 'st engine \<Rightarrow> 'st engine \<times> engine_output list" where
  "rank_round0 G proposer ticket bh h s =
     (let s = (if bt_contains (e_round0_tickets s) proposer then s else s\<lparr>e_round0_tickets := bt_insert proposer (ticket, bh) (e_round0_tickets s)\<rparr>);
          s = (if e_round0_window s = None then s\<lparr>e_round0_window := Some 0\<rparr> else s);
          line = (case line_members (leader_line (g_crypto G) (g_seed G) h 0) of None \<Rightarrow> 0 | Some m \<Rightarrow> length m)
      in if length (e_round0_tickets s) \<ge> line then prepare_round0_min G s
         else if (case e_round0_window s of None \<Rightarrow> False | Some w \<Rightarrow> w \<ge> COLLECT_WINDOW_TICKS) then prepare_round0_min G s
         else (s, []))"

section \<open>Certificates that arrive\<close>

definition adopt_commit_cert :: "('e, 'm, 's, 'p, 'k, 'c, 'st) config \<Rightarrow> certificate \<Rightarrow> 'st engine \<Rightarrow> 'st engine \<times> engine_output list" where
  "adopt_commit_cert G cert s =
     (let h = height s
      in if c_height cert \<noteq> h \<or> c_phase cert \<noteq> Commit then (bump CcHeight s, [])
         else if \<not> cert_ok G cert then (bump CcVerify s, [])
         else case finalize G (c_block cert) (s\<lparr>e_certified := bt_insert h cert (e_certified s)\<rparr>) of
                (s, out) \<Rightarrow> (if height s \<le> h then bump CcParked s else s, out))"

definition on_commit_cert :: "('e, 'm, 's, 'p, 'k, 'c, 'st) config \<Rightarrow> certificate \<Rightarrow> 'st engine \<Rightarrow> 'st engine \<times> engine_output list" where
  "on_commit_cert G cert s =
     (case adopt_commit_cert G cert s of (s', out) \<Rightarrow> (if height s' > height s then bump CertTaken s' else s', out))"

definition adopt_certified_parent :: "('e, 'm, 's, 'p, 'k, 'c, 'st) config \<Rightarrow> block \<Rightarrow> 'st engine \<Rightarrow> 'st engine \<times> engine_output list" where
  "adopt_certified_parent G b s =
     (if hd_height (b_header b) \<le> height s then (s, [])
      else case b_last_commit b of None \<Rightarrow> (s, []) | Some cert \<Rightarrow> adopt_commit_cert G cert s)"

section \<open>Proposals that arrive\<close>

definition on_skeleton :: "('e, 'm, 's, 'p, 'k, 'c, 'st) config \<Rightarrow> block \<Rightarrow> 'st engine \<Rightarrow> 'st engine \<times> engine_output list" where
  "on_skeleton G b s =
     (case adopt_certified_parent G b s of
        (s, adopted) \<Rightarrow>
          if adopted \<noteq> [] then (s, adopted)
          else let s = note_certified_height G b s; h = height s
               in if e_sortition s = None \<or> e_round s \<noteq> 0 \<or> 0 \<in> e_sent_prepare s then (s, [])
                  else if \<not> on_line G h (hd_proposer (b_header b)) \<or> hd_height (b_header b) \<noteq> h \<or>
                          hd_parent (b_header b) \<noteq> ch_head (e_chain s) \<or> hd_epoch (b_header b) \<noteq> g_epoch G \<or>
                          \<not> last_commit_matches (g_crypto G) b \<or> \<not> valid_last_commit G b
                  then (s, [])
                  else case verify_witness G b s of
                         None \<Rightarrow> (s, [])
                       | Some ticket \<Rightarrow> rank_round0 G (hd_proposer (b_header b)) ticket (hash_of G b) h s)"

text \<open>A proof of lock releases this validator's own lock when its round is later and not in the future.\<close>

definition pol_shape_releases :: "certificate \<Rightarrow> byte list \<Rightarrow> u64 \<Rightarrow> u32 \<Rightarrow> u32 \<Rightarrow> bool" where
  "pol_shape_releases pol bh h locked_round now \<longleftrightarrow>
     c_phase pol = Prepare \<and> c_height pol = h \<and> c_block pol = bh \<and> c_round pol > locked_round \<and> c_round pol \<le> now"

definition unlocks_us :: "('e, 'm, 's, 'p, 'k, 'c, 'st) config \<Rightarrow> block \<Rightarrow> 'st engine \<Rightarrow> bool" where
  "unlocks_us G b s =
     (case e_locked_cert s of
        None \<Rightarrow> False
      | Some held \<Rightarrow>
          (case b_pol b of
             None \<Rightarrow> False
           | Some pol \<Rightarrow> pol_shape_releases pol (hash_of G b) (height s) (c_round held) (e_round s) \<and> cert_ok G pol))"

definition pol_ok :: "('e, 'm, 's, 'p, 'k, 'c, 'st) config \<Rightarrow> block \<Rightarrow> 'st engine \<Rightarrow> bool" where
  "pol_ok G b s =
     (case b_pol b of
        None \<Rightarrow> False
      | Some c \<Rightarrow> c_phase c = Prepare \<and> c_height c = height s \<and> c_block c = hash_of G b \<and> cert_ok G c)"

definition note_valid_value :: "('e, 'm, 's, 'p, 'k, 'c, 'st) config \<Rightarrow> block \<Rightarrow> 'st engine \<Rightarrow> 'st engine" where
  "note_valid_value G b s =
     (case b_pol b of
        None \<Rightarrow> s
      | Some cert \<Rightarrow>
          if pol_ok G b s \<and> (case e_valid_value s of None \<Rightarrow> True | Some (h, held) \<Rightarrow> c_round cert \<ge> c_round held)
          then s\<lparr>e_valid_value := Some (hash_of G b, cert)\<rparr> else s)"

text \<open>The branch of \<open>on_propose\<close> for a block that does not extend this chain or does not check.\<close>

definition refuse_proposal :: "('e, 'm, 's, 'p, 'k, 'c, 'st) config \<Rightarrow> block \<Rightarrow> bool \<Rightarrow> 'st engine \<Rightarrow> 'st engine \<times> engine_output list" where
  "refuse_proposal G b links s =
     (let h = height s;
          s = tally_add (if \<not> links then RejLink else if \<not> verify_structure (g_crypto G) b then RejStructure else RejLastCommit) 1 s
      in if hd_height (b_header b) > h then adopt_certified_parent G b (note_certified_height G b s) else (s, []))"

text \<open>The end of \<open>on_propose\<close>, for a block that checks: hold it, finish a parked finalization, rank or prepare it.\<close>

definition vote_on_proposal ::
    "('e, 'm, 's, 'p, 'k, 'c, 'st) config \<Rightarrow> block \<Rightarrow> bool \<Rightarrow> byte list option \<Rightarrow> 'st engine \<Rightarrow> 'st engine \<times> engine_output list" where
  "vote_on_proposal G b proposer_ok ticket s =
     (let h = height s; bh = hash_of G b; proposer = hd_proposer (b_header b);
          releases_our_lock = unlocks_us G b s
      in if \<not> proposer_ok \<and> list_ex (\<lambda>(k, held). hd_proposer (b_header held) = proposer) (e_proposals s) then (tally_add RejProposer 1 s, [])
         else let s = (if bt_contains (e_proposals s) bh then s else s\<lparr>e_proposals := bt_insert bh b (e_proposals s)\<rparr>)
              in if bt_get (e_pending_finalize s) h = Some bh then finalize G bh s
                 else if \<not> proposer_ok then (tally_add RejProposer 1 s, [])
                 else case ticket of
                        Some t \<Rightarrow> rank_round0 G proposer t bh h s
                      | None \<Rightarrow>
                          if (case e_locked_block s of None \<Rightarrow> False | Some locked \<Rightarrow> locked \<noteq> bh) \<and> \<not> releases_our_lock
                          then (tally_add RejLocked 1 s, [])
                          else if e_round s \<in> e_sent_prepare s then (s, [])
                          else cast_vote (accept_vote G) (own_vote G Prepare h (e_round s) bh)
                                 (s\<lparr>e_sent_prepare := insert (e_round s) (e_sent_prepare s)\<rparr>))"

definition on_propose ::
    "('e, 'm, 's, 'p, 'k, 'c, 'st) config \<Rightarrow> block \<Rightarrow> byte list option list \<Rightarrow> 'st engine \<Rightarrow> 'st engine \<times> engine_output list" where
  "on_propose G b shards s =
     (let h = height s;
          proposer_ok = (pol_ok G b s \<or>
            (if sortition_round0 s then on_line G h (hd_proposer (b_header b)) else leader_byte G h (e_round s) = hd_proposer (b_header b)));
          links = (hd_height (b_header b) = h \<and> hd_parent (b_header b) = ch_head (e_chain s) \<and> hd_epoch (b_header b) = g_epoch G);
          s = note_valid_value G b s
      in if \<not> links \<or> \<not> verify_structure (g_crypto G) b \<or> \<not> valid_last_commit G b then refuse_proposal G b links s
         else if \<not> list_all (valid_seal G) (b_sealed_txs b) then (tally_add RejSeal 1 s, [])
         else if reconstruct_payload (g_crypto G) b shards = None then (tally_add RejUnavailable 1 s, [])
         else if sortition_round0 s
         then (case verify_witness G b s of
                 None \<Rightarrow> (tally_add RejWitness 1 s, [])
               | Some t \<Rightarrow> vote_on_proposal G b proposer_ok (Some t) s)
         else vote_on_proposal G b proposer_ok None s)"

section \<open>Bodies and synchronization\<close>

definition maybe_request_sync :: "('e, 'm, 's, 'p, 'k, 'c, 'st) config \<Rightarrow> 'st engine \<Rightarrow> 'st engine \<times> engine_output list" where
  "maybe_request_sync G s =
     (if e_max_seen_height s \<le> height s \<and> e_diverged s = None then (s, [])
      else (bump SyncAsks s, [Send (SyncReq (height s) (chain_state_root (g_machine G) (e_chain s)))]))"

definition maybe_request_body :: "('e, 'm, 's, 'p, 'k, 'c, 'st) config \<Rightarrow> 'st engine \<Rightarrow> 'st engine \<times> engine_output list" where
  "maybe_request_body G s =
     (case bt_get (e_pending_finalize s) (height s) of
        None \<Rightarrow> (s, [])
      | Some block \<Rightarrow>
          (case bt_get (e_certified s) (height s) of
             None \<Rightarrow> (s, [])
           | Some cert \<Rightarrow>
               let voters = filter (\<lambda>v. v \<noteq> g_me G) (map (\<lambda>sv. v_voter (sv_vote sv)) (c_votes cert))
               in if voters = [] then (s, [])
                  else (bump BodyAsks s, [SendTo (voters ! (unat (e_tallies s BodyAsks) mod length voters)) (NeedBody block)])))"

definition on_need_body :: "byte \<Rightarrow> byte list \<Rightarrow> 'st engine \<Rightarrow> 'st engine \<times> engine_output list" where
  "on_need_body from block s =
     (case held_body s block of
        None \<Rightarrow> (bump BodyMissing s, [])
      | Some full \<Rightarrow> (bump BodyServed s, [SendTo from (Body full)]))"

definition on_body :: "('e, 'm, 's, 'p, 'k, 'c, 'st) config \<Rightarrow> block \<Rightarrow> 'st engine \<Rightarrow> 'st engine \<times> engine_output list" where
  "on_body G b s =
     (let bh = hash_of G b; h = height s;
          wanted = (bt_get (e_pending_finalize s) h = Some bh \<or> e_locked_block s = Some bh)
      in if \<not> wanted \<or> hd_height (b_header b) \<noteq> h \<or> \<not> verify_structure (g_crypto G) b then (bump BodyRefused s, [])
         else let s = bump BodyTaken s; s = s\<lparr>e_proposals := bt_insert bh b (e_proposals s)\<rparr>
              in if bt_get (e_pending_finalize s) h = Some bh then finalize G bh s else (s, []))"

definition servable_sync :: "'st engine \<Rightarrow> (exec_certificate \<times> byte list) option" where
  "servable_sync s = do {
     cert \<leftarrow> e_checkpoint s;
     (root, head) \<leftarrow> bt_get (e_sync_heads s) (xc_height cert);
     snapshot \<leftarrow> bt_get (e_sync_states s) root;
     Some (cert, snapshot) }"

definition offer_commit_cert :: "byte \<Rightarrow> u64 \<Rightarrow> 'st engine \<Rightarrow> engine_output list" where
  "offer_commit_cert to have_height s =
     (case bt_get (e_certified s) have_height of
        None \<Rightarrow> []
      | Some cert \<Rightarrow> if c_phase cert = Commit then [SendTo to (CommitCert cert)] else [])"

definition answer_with_cert :: "byte \<Rightarrow> u64 \<Rightarrow> 'st engine \<Rightarrow> 'st engine \<times> engine_output list" where
  "answer_with_cert from have_height s =
     (let out = offer_commit_cert from have_height s in (bump (if out = [] then SyncNothing else SyncCerts) s, out))"

definition on_sync_req :: "byte \<Rightarrow> u64 \<Rightarrow> byte list \<Rightarrow> 'st engine \<Rightarrow> 'st engine \<times> engine_output list" where
  "on_sync_req from have_height have_root s =
     (case e_checkpoint s of
        None \<Rightarrow> answer_with_cert from have_height s
      | Some cert \<Rightarrow>
          let behind = (xc_height cert > have_height);
              diverged = (case bt_get (e_sync_heads s) (saturating_sub have_height 1) of None \<Rightarrow> False | Some (root, _) \<Rightarrow> root \<noteq> have_root)
          in if \<not> behind \<and> \<not> diverged then answer_with_cert from have_height s
             else case bt_get (e_sync_heads s) (xc_height cert) of
                    None \<Rightarrow> answer_with_cert from have_height s
                  | Some (root, head) \<Rightarrow>
                      (case bt_get (e_sync_states s) root of
                         None \<Rightarrow> answer_with_cert from have_height s
                       | Some snapshot \<Rightarrow>
                           let over = filter (\<lambda>c. c_phase c = Commit) (map snd (bt_split_off (xc_height cert + 1) (e_certified s)))
                           in (bump SyncSnapshots s, [SendTo from (SyncResp cert over snapshot)])))"

text \<open>The restored state is installed and every piece of per-height working state dropped.\<close>

definition install_snapshot :: "exec_certificate \<Rightarrow> byte list \<Rightarrow> 'st \<Rightarrow> 'st engine \<Rightarrow> 'st engine" where
  "install_snapshot cert snapshot state s =
     (let s = bump SyncTaken s;
          s = s\<lparr>e_chain := chain_restore (xc_height cert) (xc_head cert) state (e_chain s)\<rparr>;
          s = reset_round_state s
      in s\<lparr>e_pending_finalize := [], e_exec_votes := [], e_exec_queue := [], e_reveals := [], e_pending_reveals := [],
           e_committed_reveals := [], e_mempool := [],
           e_sync_states := [(xc_state_root cert, snapshot)],
           e_sync_heads := [(xc_height cert, (xc_state_root cert, xc_head cert))],
           e_checkpoint := Some cert, e_diverged := None\<rparr>)"

definition park_certificate :: "('e, 'm, 's, 'p, 'k, 'c, 'st) config \<Rightarrow> certificate \<Rightarrow> 'st engine \<times> u64 \<Rightarrow> 'st engine \<times> u64" where
  "park_certificate G c = (\<lambda>(s, parked).
     if c_phase c \<noteq> Commit \<or> c_height c < height s then (s, parked)
     else if \<not> cert_ok G c then (bump CcVerify s, parked)
     else (s\<lparr>e_pending_finalize := bt_insert (c_height c) (c_block c) (e_pending_finalize s),
             e_certified := bt_insert (c_height c) c (e_certified s)\<rparr>, parked + 1))"

definition on_sync_resp ::
    "('e, 'm, 's, 'p, 'k, 'c, 'st) config \<Rightarrow> exec_certificate \<Rightarrow> certificate list \<Rightarrow> byte list \<Rightarrow> 'st engine \<Rightarrow> 'st engine \<times> engine_output list" where
  "on_sync_resp G cert over snapshot s =
     (if xc_height cert < height s \<and> e_diverged s = None then (s, [])
      else if \<not> xc_verify (g_crypto G) cert (cp_quorum (g_params G)) (g_verifiers G) then (bump SyncHeadDisagreement s, [])
      else case sm_restore (g_machine G) snapshot of
             None \<Rightarrow> (bump SyncUncertified s, [])
           | Some state \<Rightarrow>
               if sm_state_root (g_machine G) state \<noteq> xc_state_root cert then (bump SyncUncertified s, [])
               else (case fold (park_certificate G) over (install_snapshot cert snapshot state s, 0) of
                       (s, parked) \<Rightarrow>
                         let s = bump_by SyncedCerts parked s;
                             s = s\<lparr>e_max_seen_height := max (e_max_seen_height s) (height s)\<rparr>
                         in (case maybe_request_body G s of (s, out) \<Rightarrow> (s, Committed (xc_height cert) (xc_head cert) # out))))"

section \<open>One step\<close>

primrec step :: "('e, 'm, 's, 'p, 'k, 'c, 'st) config \<Rightarrow> engine_input \<Rightarrow> 'st engine \<Rightarrow> 'st engine \<times> engine_output list" where
  "step G Tick = then_out (maybe_propose G) (then_out (tick_round0_window G) (then_out (maybe_request_sync G) (maybe_request_body G)))"
| "step G (InPropose b shards) = on_propose G b shards"
| "step G (InSkeleton b) = on_skeleton G b"
| "step G (InVote sv) = accept_vote G sv"
| "step G (InReveal r) = on_reveal G r"
| "step G (InExecVote v) = on_exec_vote G v"
| "step G Timeout = on_timeout G"
| "step G (InSyncReq from have_height have_root) = on_sync_req from have_height have_root"
| "step G (InCommitCert cert) = on_commit_cert G cert"
| "step G (InNeedBody from block) = on_need_body from block"
| "step G (InBody b) = on_body G b"
| "step G (InSyncResp cert over snapshot) = on_sync_resp G cert over snapshot"

end
