(* ===== verification/Taxis_Frame.thy ===== *)
theory Taxis_Frame
  imports Taxis_Step
begin

text \<open>
  What each method leaves alone. The fields that decide votes, locks and finalization are projected to the
  record \<open>core\<close>; the execution, reveal, checkpoint and diagnostic parts of the engine change none of them,
  and a finalization either parks the block or ends in the initial round state of the next height.
\<close>

record core =
  k_height :: u64
  k_round :: u32
  k_prepares :: "signed_vote list"
  k_commits :: "signed_vote list"
  k_sentp :: "u32 set"
  k_sentc :: "u32 set"
  k_lock :: "byte list option"
  k_lcert :: "certificate option"
  k_props :: "(byte list, block) btree"
  k_pending :: "(u64, byte list) btree"

definition core :: "'st engine \<Rightarrow> core" where
  "core s = \<lparr>k_height = height s, k_round = e_round s, k_prepares = e_prepares s, k_commits = e_commits s,
     k_sentp = e_sent_prepare s, k_sentc = e_sent_commit s, k_lock = e_locked_block s, k_lcert = e_locked_cert s,
     k_props = e_proposals s, k_pending = e_pending_finalize s\<rparr>"

lemma core_sel [simp]:
  "k_height (core s) = height s" "k_round (core s) = e_round s" "k_prepares (core s) = e_prepares s"
  "k_commits (core s) = e_commits s" "k_sentp (core s) = e_sent_prepare s" "k_sentc (core s) = e_sent_commit s"
  "k_lock (core s) = e_locked_block s" "k_lcert (core s) = e_locked_cert s" "k_props (core s) = e_proposals s"
  "k_pending (core s) = e_pending_finalize s"
  by (simp_all add: core_def)

lemma coreD:
  assumes "core s' = core s"
  shows "height s' = height s" "e_round s' = e_round s" "e_prepares s' = e_prepares s" "e_commits s' = e_commits s"
    "e_sent_prepare s' = e_sent_prepare s" "e_sent_commit s' = e_sent_commit s" "e_locked_block s' = e_locked_block s"
    "e_locked_cert s' = e_locked_cert s" "e_proposals s' = e_proposals s" "e_pending_finalize s' = e_pending_finalize s"
  using assms by (simp_all add: core_def)

lemma core_other [simp]:
  "core (s\<lparr>e_mempool := a\<rparr>) = core s" "core (s\<lparr>e_proposed_round := b\<rparr>) = core s" "core (s\<lparr>e_sortition := c\<rparr>) = core s"
  "core (s\<lparr>e_round0_tickets := d\<rparr>) = core s" "core (s\<lparr>e_tallies := e\<rparr>) = core s" "core (s\<lparr>e_certified := f\<rparr>) = core s"
  "core (s\<lparr>e_recent_bodies := g\<rparr>) = core s" "core (s\<lparr>e_valid_value := h\<rparr>) = core s" "core (s\<lparr>e_deferred_since := i\<rparr>) = core s"
  "core (s\<lparr>e_round0_window := j\<rparr>) = core s" "core (s\<lparr>e_reveals := k\<rparr>) = core s" "core (s\<lparr>e_pending_reveals := l\<rparr>) = core s"
  "core (s\<lparr>e_committed_reveals := m\<rparr>) = core s" "core (s\<lparr>e_exec_queue := n\<rparr>) = core s" "core (s\<lparr>e_exec_votes := p\<rparr>) = core s"
  "core (s\<lparr>e_checkpoint := q\<rparr>) = core s" "core (s\<lparr>e_diverged := r\<rparr>) = core s" "core (s\<lparr>e_max_seen_height := t\<rparr>) = core s"
  "core (s\<lparr>e_sync_states := u\<rparr>) = core s" "core (s\<lparr>e_sync_heads := v\<rparr>) = core s" "core (s\<lparr>e_reward_per_block := w\<rparr>) = core s"
  "core (s\<lparr>e_last_finalized_cert := x\<rparr>) = core s"
  by (simp_all add: core_def height_def)

lemma core_own [simp]:
  "core (s\<lparr>e_round := a\<rparr>) = (core s)\<lparr>k_round := a\<rparr>" "core (s\<lparr>e_prepares := b\<rparr>) = (core s)\<lparr>k_prepares := b\<rparr>"
  "core (s\<lparr>e_commits := c\<rparr>) = (core s)\<lparr>k_commits := c\<rparr>" "core (s\<lparr>e_sent_prepare := d\<rparr>) = (core s)\<lparr>k_sentp := d\<rparr>"
  "core (s\<lparr>e_sent_commit := e\<rparr>) = (core s)\<lparr>k_sentc := e\<rparr>" "core (s\<lparr>e_locked_block := f\<rparr>) = (core s)\<lparr>k_lock := f\<rparr>"
  "core (s\<lparr>e_locked_cert := g\<rparr>) = (core s)\<lparr>k_lcert := g\<rparr>" "core (s\<lparr>e_proposals := h\<rparr>) = (core s)\<lparr>k_props := h\<rparr>"
  "core (s\<lparr>e_pending_finalize := i\<rparr>) = (core s)\<lparr>k_pending := i\<rparr>"
  "core (s\<lparr>e_chain := j\<rparr>) = (core s)\<lparr>k_height := chain_next_height j\<rparr>"
  by (simp_all add: core_def height_def)

lemma core_height_same: "chain_next_height c = height s \<Longrightarrow> core (s\<lparr>e_chain := c\<rparr>) = core s"
  by (simp add: core_def height_def)

section \<open>Execution\<close>

text \<open>
  The execution side changes neither the core nor, except for taking blocks off its front, the queue, and it
  emits only reveals and execution votes for queued blocks.
\<close>

definition votes_out :: "engine_output list \<Rightarrow> signed_vote list" where
  "votes_out out = List.map_filter (\<lambda>x. case x of Send (Vote sv) \<Rightarrow> Some sv | SendTo _ (Vote sv) \<Rightarrow> Some sv | _ \<Rightarrow> None) out"

definition execs_out :: "engine_output list \<Rightarrow> exec_vote list" where
  "execs_out out = List.map_filter (\<lambda>x. case x of Send (ExecVote v) \<Rightarrow> Some v | SendTo _ (ExecVote v) \<Rightarrow> Some v | _ \<Rightarrow> None) out"

definition commits_out :: "engine_output list \<Rightarrow> (u64 \<times> byte list) list" where
  "commits_out out = List.map_filter (\<lambda>x. case x of Committed h b \<Rightarrow> Some (h, b) | _ \<Rightarrow> None) out"

lemma outs_append [simp]:
  "votes_out (a @ b) = votes_out a @ votes_out b" "execs_out (a @ b) = execs_out a @ execs_out b"
  "commits_out (a @ b) = commits_out a @ commits_out b"
  by (simp_all add: votes_out_def execs_out_def commits_out_def map_filter_def)

lemma outs_simps [simp]:
  "votes_out [] = []" "execs_out [] = []" "commits_out [] = []"
  "votes_out (x # xs) = (case x of Send (Vote sv) \<Rightarrow> [sv] | SendTo _ (Vote sv) \<Rightarrow> [sv] | _ \<Rightarrow> []) @ votes_out xs"
  "execs_out (x # xs) = (case x of Send (ExecVote v) \<Rightarrow> [v] | SendTo _ (ExecVote v) \<Rightarrow> [v] | _ \<Rightarrow> []) @ execs_out xs"
  "commits_out (x # xs) = (case x of Committed h b \<Rightarrow> [(h, b)] | _ \<Rightarrow> []) @ commits_out xs"
  by (simp_all add: votes_out_def execs_out_def commits_out_def map_filter_def split: engine_output.splits consensus_msg.splits)

text \<open>A step that leaves the core and the queue and emits neither votes nor execution votes nor commits.\<close>

definition silent :: "('st engine \<Rightarrow> 'st engine \<times> engine_output list) \<Rightarrow> bool" where
  "silent f \<longleftrightarrow> (\<forall>s. core (fst (f s)) = core s \<and> e_exec_queue (fst (f s)) = e_exec_queue s \<and>
     votes_out (snd (f s)) = [] \<and> execs_out (snd (f s)) = [] \<and> commits_out (snd (f s)) = [])"

lemma silentD:
  assumes "silent f"
  shows "core (fst (f s)) = core s" "e_exec_queue (fst (f s)) = e_exec_queue s"
    "votes_out (snd (f s)) = []" "execs_out (snd (f s)) = []" "commits_out (snd (f s)) = []"
  using assms by (auto simp: silent_def)

lemma silent_then [intro]: "silent f \<Longrightarrow> silent g \<Longrightarrow> silent (then_out f g)"
  by (simp add: silent_def then_out_def split: prod.splits) (metis fst_conv snd_conv append_Nil)

lemma silent_for [intro]: "(\<And>x. silent (f x)) \<Longrightarrow> silent (for_out f xs)"
proof (induction xs)
  case Nil
  then show ?case by (simp add: silent_def)
next
  case (Cons x xs)
  then have "silent (then_out (f x) (for_out f xs))" by auto
  then show ?case by (simp add: silent_def)
qed

lemma bump_frame [simp]:
  "core (bump t s) = core s" "core (bump_by t n s) = core s" "core (tally_add t n s) = core s"
  "e_exec_queue (bump t s) = e_exec_queue s" "e_exec_queue (bump_by t n s) = e_exec_queue s" "e_exec_queue (tally_add t n s) = e_exec_queue s"
  by (simp_all add: bump_def bump_by_def tally_add_def)

lemma note_height_frame [simp]: "core (note_height h s) = core s" "e_exec_queue (note_height h s) = e_exec_queue s"
  by (simp_all add: note_height_def)

lemma note_certified_frame [simp]:
  "core (note_certified_height G b s) = core s" "e_exec_queue (note_certified_height G b s) = e_exec_queue s"
  by (simp_all add: note_certified_height_def Let_def split: option.splits)

lemma readmit_frame [simp]: "core (readmit G tx s) = core s" "e_exec_queue (readmit G tx s) = e_exec_queue s"
  by (simp_all add: readmit_def)

lemma silent_emit_reveals: "silent (emit_reveals G b)"
  unfolding emit_reveals_def by (rule silent_for) (simp add: silent_def Let_def split: option.splits)

lemma silent_record_or_skip: "silent (record_or_skip G r)"
  by (simp add: silent_def record_or_skip_def validate_and_record_def Let_def regossip_def split: option.splits prod.splits)

lemma silent_drain: "silent (drain_pending_reveals G b)"
  unfolding drain_pending_reveals_def
proof (rule silent_for)
  fix tx
  have r: "silent (for_out (record_or_skip G) rs)" for rs by (rule silent_for) (rule silent_record_or_skip)
  show "silent (\<lambda>s. let commit = commit_of G tx;
         taken = map (\<lambda>(member, m). (member, bm_remove commit m)) (e_pending_reveals s);
         early = List.map_filter (\<lambda>(member, m, r). r) taken
     in for_out (record_or_skip G) early (s\<lparr>e_pending_reveals := map (\<lambda>(member, m, r). (member, m)) taken\<rparr>))"
    using silentD [OF r] by (simp add: silent_def Let_def)
qed

lemma prune_frame [simp]: "core (prune_recovery_retention s) = core s" "e_exec_queue (prune_recovery_retention s) = e_exec_queue s"
  by (simp_all add: prune_recovery_retention_def Let_def split: option.splits)

lemma try_form_frame [simp]: "core (try_form_checkpoint G h s) = core s" "e_exec_queue (try_form_checkpoint G h s) = e_exec_queue s"
  by (simp_all add: try_form_checkpoint_def Let_def split: option.splits prod.splits)

lemma record_exec_frame [simp]: "core (record_exec_vote G v s) = core s" "e_exec_queue (record_exec_vote G v s) = e_exec_queue s"
  by (simp_all add: record_exec_vote_def Let_def)

lemma fold_frame:
  assumes "\<And>x s. core (f x s) = core s" "\<And>x s. e_exec_queue (f x s) = e_exec_queue s"
  shows "core (fold f xs s) = core s" "e_exec_queue (fold f xs s) = e_exec_queue s"
  by (induction xs arbitrary: s) (simp_all add: assms)

lemma note_deferrals_frame [simp]:
  "core (note_deferrals G txs outs s) = core s" "e_exec_queue (note_deferrals G txs outs s) = e_exec_queue s"
  unfolding note_deferrals_def by (rule fold_frame; simp add: Let_def split: option.splits prod.splits)+

lemma capture_frame [simp]: "core (capture_sync_snapshot G b s) = core s" "e_exec_queue (capture_sync_snapshot G b s) = e_exec_queue s"
  by (simp_all add: capture_sync_snapshot_def Let_def)

lemma pay_frame [simp]: "core (pay_block_reward G b c s) = core s" "e_exec_queue (pay_block_reward G b c s) = e_exec_queue s"
  by (simp_all add: pay_block_reward_def Let_def core_height_same height_def split: option.splits)

lemma pay_height [simp]: "chain_next_height (e_chain (pay_block_reward G b c s)) = chain_next_height (e_chain s)"
  by (simp add: pay_block_reward_def Let_def split: option.splits)

lemma absorb_frame [simp]: "core (absorb_committed_reveals b s) = core s" "e_exec_queue (absorb_committed_reveals b s) = e_exec_queue s"
  by (simp_all add: absorb_committed_reveals_def)

text \<open>
  Executing finalized blocks: the core stays, blocks leave the front of the queue, and what is attested are
  blocks that were queued.
\<close>

definition attests :: "('e, 'm, 's, 'p, 'k, 'c, 'st) config \<Rightarrow> block set \<Rightarrow> exec_vote list \<Rightarrow> bool" where
  "attests G Q vs \<longleftrightarrow> (\<forall>v \<in> set vs. \<exists>b \<in> Q. xv_height v = hd_height (b_header b) \<and> xv_head v = hash_of G b \<and> xv_voter v = g_me G)"

definition executes :: "('e, 'm, 's, 'p, 'k, 'c, 'st) config \<Rightarrow> ('st engine \<Rightarrow> 'st engine \<times> engine_output list) \<Rightarrow> bool" where
  "executes G f \<longleftrightarrow> (\<forall>s. core (fst (f s)) = core s \<and> set (e_exec_queue (fst (f s))) \<subseteq> set (e_exec_queue s) \<and>
     votes_out (snd (f s)) = [] \<and> attests G (set (e_exec_queue s)) (execs_out (snd (f s))) \<and> commits_out (snd (f s)) = [])"

lemma executesD:
  assumes "executes G f"
  shows "core (fst (f s)) = core s" "set (e_exec_queue (fst (f s))) \<subseteq> set (e_exec_queue s)"
    "votes_out (snd (f s)) = []" "attests G (set (e_exec_queue s)) (execs_out (snd (f s)))" "commits_out (snd (f s)) = []"
  using assms by (auto simp: executes_def)

lemma attests_mono: "attests G Q vs \<Longrightarrow> Q \<subseteq> R \<Longrightarrow> attests G R vs"
  by (auto simp: attests_def)

lemma attests_append [simp]: "attests G Q (a @ b) \<longleftrightarrow> attests G Q a \<and> attests G Q b"
  by (auto simp: attests_def)

lemma attests_Nil [simp]: "attests G Q []"
  by (simp add: attests_def)

lemma silent_executes: "silent f \<Longrightarrow> executes G f"
  by (simp add: silent_def executes_def)

lemma executes_then: "executes G f \<Longrightarrow> executes G g \<Longrightarrow> executes G (then_out f g)"
  unfolding executes_def then_out_def
  by (auto split: prod.splits) (metis attests_mono fst_conv snd_conv subset_iff)+

lemma core_height_id [simp]: "(core s)\<lparr>k_height := chain_next_height (e_chain s)\<rparr> = core s"
  by (simp add: core_def height_def)

lemma execute_first_frame:
  assumes "e_exec_queue s = b # bs"
  shows "core (fst (execute_first G b at s)) = core s" "e_exec_queue (fst (execute_first G b at s)) = bs"
    "votes_out (snd (execute_first G b at s)) = []" "attests G {b} (execs_out (snd (execute_first G b at s)))"
    "commits_out (snd (execute_first G b at s)) = []"
  using assms
  by (simp_all add: execute_first_def Let_def emit_exec_vote_def attests_def xv_sign_def case_prod_beta)

lemma execute_loop_executes: "executes G (execute_loop G n)"
proof (induction n)
  case (Suc n)
  show ?case
    unfolding executes_def
  proof
    fix s
    show "core (fst (execute_loop G (Suc n) s)) = core s \<and>
      set (e_exec_queue (fst (execute_loop G (Suc n) s))) \<subseteq> set (e_exec_queue s) \<and>
      votes_out (snd (execute_loop G (Suc n) s)) = [] \<and>
      attests G (set (e_exec_queue s)) (execs_out (snd (execute_loop G (Suc n) s))) \<and> commits_out (snd (execute_loop G (Suc n) s)) = []"
    proof (cases "\<exists>b bs at. e_exec_queue s = b # bs \<and> execution_height G s b = Some at")
      case True
      then obtain b bs at where q: "e_exec_queue s = b # bs" "execution_height G s b = Some at" by auto
      let ?s = "fst (execute_first G b at s)"
      show ?thesis
        using execute_first_frame [OF q(1), of G at] executesD [OF Suc.IH, of ?s] q
        by (auto simp: then_out_def case_prod_beta intro: attests_mono)
    qed (auto split: list.splits option.splits)
  qed
qed (simp add: executes_def)

lemma try_execute_executes: "executes G (try_execute G)"
  using execute_loop_executes [of G] by (simp add: executes_def try_execute_def)

lemma on_reveal_executes: "executes G (on_reveal G r)"
  unfolding on_reveal_def
proof (rule executes_then [OF silent_executes try_execute_executes])
  show "silent (\<lambda>s. if sealed_tx_for G s (rv_commit r) \<noteq> None then record_or_skip G r s
     else if (case bt_get (e_pending_reveals s) (rv_member r) of None \<Rightarrow> True | Some m \<Rightarrow> bm_get m (rv_commit r) = None) \<and>
             (case vget (g_verifiers G) (rv_member r) of None \<Rightarrow> False | Some vk \<Rightarrow> reveal_verify (g_crypto G) r vk)
     then let share = MAX_PENDING_REVEAL_COMMITS div max (line_size (g_params G)) 1;
              mine = (case bt_get (e_pending_reveals s) (rv_member r) of None \<Rightarrow> bm_new share | Some m \<Rightarrow> m);
              mine = (if bm_get mine (rv_commit r) = None then fst (bm_insert (rv_commit r) r mine) else mine)
          in (s\<lparr>e_pending_reveals := bt_insert (rv_member r) mine (e_pending_reveals s)\<rparr>, [])
     else (s, []))"
    using silent_record_or_skip [of G r] unfolding silent_def by (simp add: Let_def)
qed

lemma on_exec_vote_executes: "executes G (on_exec_vote G v)"
  by (simp add: executes_def on_exec_vote_def Let_def split: option.splits)

section \<open>Requests and proposals\<close>

lemma silent_maybe_propose: "silent (maybe_propose G)"
  by (simp add: silent_def maybe_propose_def Let_def split: option.splits)

lemma silent_requests:
  "silent (maybe_request_sync G)" "silent (maybe_request_body G)" "silent (on_need_body peer hash)"
  by (simp_all add: silent_def maybe_request_sync_def maybe_request_body_def on_need_body_def Let_def split: option.splits)

lemma silent_answer: "silent (answer_with_cert peer h)"
  by (simp add: silent_def answer_with_cert_def offer_commit_cert_def Let_def split: option.splits)

lemma silent_sync_req: "silent (on_sync_req peer h root)"
  unfolding silent_def on_sync_req_def
  by (simp add: Let_def silentD [OF silent_answer] split: option.splits prod.splits)

lemma note_valid_frame [simp]: "core (note_valid_value G b s) = core s" "e_exec_queue (note_valid_value G b s) = e_exec_queue s"
  by (simp_all add: note_valid_value_def split: option.splits)

section \<open>Finalization\<close>

lemma record_finalized_frame:
  "core (record_finalized G bh b s) = (core s)\<lparr>k_height := height s + 1, k_pending := bt_remove (height s) (e_pending_finalize s)\<rparr>"
  "e_exec_queue (record_finalized G bh b s) = e_exec_queue s"
proof -
  have ch: "e_chain (prune_recovery_retention t) = e_chain t" for t :: "'a engine"
    by (simp add: prune_recovery_retention_def Let_def split: option.splits)
  show "core (record_finalized G bh b s) = (core s)\<lparr>k_height := height s + 1, k_pending := bt_remove (height s) (e_pending_finalize s)\<rparr>"
    by (simp add: record_finalized_def Let_def ch height_def)
  show "e_exec_queue (record_finalized G bh b s) = e_exec_queue s"
    by (simp add: record_finalized_def Let_def)
qed

lemma record_finalized_sel [simp]:
  "height (record_finalized G bh b s) = height s + 1"
  "e_pending_finalize (record_finalized G bh b s) = bt_remove (height s) (e_pending_finalize s)"
  by (subst core_sel(1) [symmetric], simp add: record_finalized_frame)
     (subst core_sel(10) [symmetric], simp add: record_finalized_frame)

text \<open>The round state every height starts with.\<close>

definition fresh_core :: "u64 \<Rightarrow> (u64, byte list) btree \<Rightarrow> core" where
  "fresh_core h pending = \<lparr>k_height = h, k_round = 0, k_prepares = [], k_commits = [], k_sentp = {}, k_sentc = {},
     k_lock = None, k_lcert = None, k_props = [], k_pending = pending\<rparr>"

lemma core_reset [simp]: "core (reset_round_state s) = fresh_core (height s) (e_pending_finalize s)"
  by (simp add: reset_round_state_def core_def fresh_core_def height_def)

lemma queue_reset [simp]: "e_exec_queue (reset_round_state s) = e_exec_queue s"
  by (simp add: reset_round_state_def)

lemma finalize_parks:
  assumes "bt_get (e_proposals s) bh = None"
  shows "core (fst (finalize G bh s)) = (core s)\<lparr>k_pending := bt_insert (height s) bh (e_pending_finalize s)\<rparr>"
    "e_exec_queue (fst (finalize G bh s)) = e_exec_queue s" "snd (finalize G bh s) = []"
  using assms by (simp_all add: finalize_def Let_def)

lemma finalize_commits:
  assumes "bt_get (e_proposals s) bh = Some b"
  shows "core (fst (finalize G bh s)) = fresh_core (height s + 1) (bt_remove (height s) (e_pending_finalize s))"
    "set (e_exec_queue (fst (finalize G bh s))) \<subseteq> insert b (set (e_exec_queue s))"
    "votes_out (snd (finalize G bh s)) = []" "commits_out (snd (finalize G bh s)) = [(height s, bh)]"
    "attests G (insert b (set (e_exec_queue s))) (execs_out (snd (finalize G bh s)))"
proof -
  define included where "included = set (map (commit_of G) (b_sealed_txs b))"
  define s1 where "s1 = record_finalized G bh b s"
  define f where "f = then_out (emit_reveals G b) (for_out (emit_reveals G) (e_exec_queue s1))"
  define s2 where "s2 = fst (f s1)"
  define s3 where "s3 = (absorb_committed_reveals b s2)\<lparr>e_exec_queue := e_exec_queue (absorb_committed_reveals b s2) @ [b]\<rparr>"
  define s4 where "s4 = fst (drain_pending_reveals G b s3)"
  define s5 where "s5 = s4\<lparr>e_mempool := filter (\<lambda>e. fst e \<notin> included) (e_mempool s4)\<rparr>"
  have eq: "finalize G bh s = (reset_round_state (fst (try_execute G s5)),
      Committed (height s) bh # snd (f s1) @ snd (drain_pending_reveals G b s3) @ snd (try_execute G s5))"
    using assms
    by (simp add: finalize_def Let_def included_def s1_def f_def s2_def s3_def s4_def s5_def then_out_def case_prod_beta)
  have f: "silent f" unfolding f_def by (intro silent_then silent_for silent_emit_reveals)
  note frames = silentD [OF f, of s1] silentD [OF silent_drain, of G b s3] executesD [OF try_execute_executes, of G s5]
    record_finalized_frame [of G bh b s]
  have c: "core s5 = core s1" "set (e_exec_queue s5) = insert b (set (e_exec_queue s))"
    using frames by (auto simp: s1_def s2_def s3_def s4_def s5_def)
  then have "core (fst (try_execute G s5)) = core s1" using frames by simp
  from coreD(1,10) [OF this] have h: "height (fst (try_execute G s5)) = height s + 1"
    "e_pending_finalize (fst (try_execute G s5)) = bt_remove (height s) (e_pending_finalize s)" by (simp_all add: s1_def)
  show "core (fst (finalize G bh s)) = fresh_core (height s + 1) (bt_remove (height s) (e_pending_finalize s))"
    by (simp add: eq h)
  show "set (e_exec_queue (fst (finalize G bh s))) \<subseteq> insert b (set (e_exec_queue s))"
    using frames c(2) by (auto simp: eq)
  show "votes_out (snd (finalize G bh s)) = []" "commits_out (snd (finalize G bh s)) = [(height s, bh)]"
    using frames by (simp_all add: eq)
  show "attests G (insert b (set (e_exec_queue s))) (execs_out (snd (finalize G bh s)))"
    using frames c(2) by (simp add: eq)
qed

section \<open>Accepting a vote\<close>

text \<open>What a valid vote at the current height sets off, once it is stored.\<close>

definition vote_transitions ::
    "(signed_vote \<Rightarrow> 'st engine \<Rightarrow> 'st engine \<times> engine_output list) \<Rightarrow> ('e, 'm, 's, 'p, 'k, 'c, 'st) config \<Rightarrow>
     vote \<Rightarrow> 'st engine \<Rightarrow> 'st engine \<times> engine_output list" where
  "vote_transitions acc G v = then_out
     (case v_phase v of Prepare \<Rightarrow> check_prepared acc G (v_block v) (v_round v) | Commit \<Rightarrow> check_committed G (v_block v))
     (then_out (round_failed_by_votes acc G) (maybe_advance_round acc G))"

lemma accept_body_cases:
  obtains (ignored) t where "core t = core s" "e_exec_queue t = e_exec_queue s" "\<And>acc. accept_vote_body acc G sv s = (t, [])"
  | (taken) t slash where "core t = core s" "e_exec_queue t = e_exec_queue s" "v_height (sv_vote sv) = height s"
      "votes_out slash = []" "execs_out slash = []" "commits_out slash = []"
      "\<And>acc. accept_vote_body acc G sv s =
         (fst (vote_transitions acc G (sv_vote sv) (store_vote sv t)), slash @ snd (vote_transitions acc G (sv_vote sv) (store_vote sv t)))"
proof (cases "\<exists>verifier. vget (g_verifiers G) (v_voter (sv_vote sv)) = Some verifier \<and> sv_verify (g_crypto G) sv verifier \<and>
    v_height (sv_vote sv) = height s")
  case True
  define t where "t = (if v_voter (sv_vote sv) \<noteq> g_me G
      then bump (if v_round (sv_vote sv) < e_round s then VotesBelow else if v_round (sv_vote sv) = e_round s then VotesAt else VotesAbove) s else s)"
  define slash where "slash = (case find_equivocation G sv t of None \<Rightarrow> [] | Some ev \<Rightarrow> [Slash ev])"
  have t: "core t = core s" "e_exec_queue t = e_exec_queue s" by (simp_all add: t_def)
  show ?thesis
  proof (rule taken [OF t])
    show "v_height (sv_vote sv) = height s" using True by auto
    show "votes_out slash = []" "execs_out slash = []" "commits_out slash = []" by (simp_all add: slash_def split: option.splits)
    fix acc
    obtain verifier where "vget (g_verifiers G) (v_voter (sv_vote sv)) = Some verifier" "sv_verify (g_crypto G) sv verifier"
      "v_height (sv_vote sv) = height s" using True by auto
    then show "accept_vote_body acc G sv s =
         (fst (vote_transitions acc G (sv_vote sv) (store_vote sv t)), slash @ snd (vote_transitions acc G (sv_vote sv) (store_vote sv t)))"
      unfolding accept_vote_body_def Let_def vote_transitions_def slash_def t_def by (simp add: case_prod_beta)
  qed
next
  case False
  define t where "t = (case vget (g_verifiers G) (v_voter (sv_vote sv)) of None \<Rightarrow> s | Some verifier \<Rightarrow>
     if \<not> sv_verify (g_crypto G) sv verifier then bump Forged s
     else let s' = (if v_height (sv_vote sv) > height s then bump FutureHeight (note_height (v_height (sv_vote sv)) s) else bump StaleHeight s)
          in if v_voter (sv_vote sv) \<noteq> g_me G then bump VotesOffHeight s' else s')"
  show ?thesis
  proof (rule ignored)
    show "core t = core s" "e_exec_queue t = e_exec_queue s" by (simp_all add: t_def Let_def split: option.splits)
    show "accept_vote_body acc G sv s = (t, [])" for acc
      using False by (auto simp: accept_vote_body_def Let_def t_def split: option.splits)
  qed
qed

end
