(* ===== verification/Taxis_Fuel.thy ===== *)
theory Taxis_Fuel
  imports Taxis_Frame
begin

text \<open>
  The recursion of \<open>accept_vote\<close> ends. A validator that accepts its own vote may cast another one, but only for
  a round and phase it has not voted in; a finalization clears those sets, and leaves a state from which no
  further vote is cast. So the fuel of the model is never used up, and \<open>accept_vote\<close> satisfies the recursive
  equation of the source.
\<close>

definition votes_left :: "'st engine \<Rightarrow> nat" where
  "votes_left s = card (- e_sent_prepare s) + card (- e_sent_commit s)"

definition quiet :: "'st engine \<Rightarrow> bool" where
  "quiet s \<longleftrightarrow> e_prepares s = [] \<and> e_commits s = [] \<and> e_locked_block s = None"

lemma quiet_core: "core s' = core s \<Longrightarrow> quiet s' = quiet s"
  by (auto simp: quiet_def dest: coreD)

lemma votes_left_core: "core s' = core s \<Longrightarrow> votes_left s' = votes_left s"
  by (simp add: votes_left_def coreD(5,6) [of s' s])

lemma quiet_fresh: "core s = fresh_core h p \<Longrightarrow> quiet s"
  using core_sel(3,4,7) [of s] by (simp add: fresh_core_def quiet_def)

lemma votes_left_le: "votes_left s \<le> 2 * 2 ^ 32"
proof -
  have "card S \<le> 2 ^ 32" for S :: "u32 set"
    using card_mono [of UNIV S] by (simp add: card_word)
  then show ?thesis unfolding votes_left_def by (metis add_mono mult_2)
qed

lemma votes_left_insert:
  "e_round s \<notin> e_sent_prepare s \<Longrightarrow> votes_left (s\<lparr>e_sent_prepare := insert (e_round s) (e_sent_prepare s)\<rparr>) < votes_left s"
  "e_round s \<notin> e_sent_commit s \<Longrightarrow>
     votes_left (s\<lparr>e_locked_block := b, e_locked_cert := c, e_sent_commit := insert (e_round s) (e_sent_commit s)\<rparr>) < votes_left s"
proof -
  have less: "card (- insert x S) < card (- S)" if "x \<notin> S" for x :: u32 and S
    by (rule psubset_card_mono) (use that in auto)
  show "e_round s \<notin> e_sent_prepare s \<Longrightarrow> votes_left (s\<lparr>e_sent_prepare := insert (e_round s) (e_sent_prepare s)\<rparr>) < votes_left s"
    "e_round s \<notin> e_sent_commit s \<Longrightarrow>
     votes_left (s\<lparr>e_locked_block := b, e_locked_cert := c, e_sent_commit := insert (e_round s) (e_sent_commit s)\<rparr>) < votes_left s"
    using less by (simp_all add: votes_left_def)
qed

text \<open>
  \<open>bounded k s\<close>: no further vote is cast from \<open>s\<close>, or at most \<open>k\<close> are left. Two continuations that agree below
  \<open>k\<close> cannot be told apart by the handlers.
\<close>

definition bounded_by :: "nat \<Rightarrow> 'st engine \<Rightarrow> bool" where
  "bounded_by k s \<longleftrightarrow> quiet s \<or> votes_left s \<le> k"

definition agree_below ::
    "nat \<Rightarrow> (signed_vote \<Rightarrow> 'st engine \<Rightarrow> 'st engine \<times> 'o list) \<Rightarrow> (signed_vote \<Rightarrow> 'st engine \<Rightarrow> 'st engine \<times> 'o list) \<Rightarrow> bool" where
  "agree_below k a b \<longleftrightarrow> (\<forall>sv s. votes_left s < k \<longrightarrow> a sv s = b sv s \<and> bounded_by k (fst (b sv s)))"

definition same_upto :: "nat \<Rightarrow> ('st engine \<Rightarrow> 'st engine \<times> 'o list) \<Rightarrow> ('st engine \<Rightarrow> 'st engine \<times> 'o list) \<Rightarrow> bool" where
  "same_upto k f g \<longleftrightarrow> (\<forall>s. bounded_by k s \<longrightarrow> f s = g s \<and> bounded_by k (fst (g s)))"

lemma bounded_core: "core s' = core s \<Longrightarrow> bounded_by k s' = bounded_by k s"
  unfolding bounded_by_def by (metis quiet_core votes_left_core)

lemma same_then: "same_upto k f f' \<Longrightarrow> same_upto k g g' \<Longrightarrow> same_upto k (then_out f g) (then_out f' g')"
  by (auto simp: same_upto_def then_out_def case_prod_beta)

lemma same_silent: "silent f \<Longrightarrow> same_upto k f f"
  by (simp add: same_upto_def bounded_core [OF silentD(1)])

lemma cast_agree:
  assumes "agree_below k a b" "votes_left s < k"
  shows "cast_vote a sv s = cast_vote b sv s" "bounded_by k (fst (cast_vote b sv s))"
  using assms by (auto simp: agree_below_def cast_vote_def case_prod_beta)

lemma check_prepared_agree:
  assumes "agree_below k a b" "votes_left s \<le> k"
  shows "check_prepared a G bh r s = check_prepared b G bh r s" "bounded_by k (fst (check_prepared b G bh r s))"
proof -
  let ?s = "s\<lparr>e_locked_block := Some bh, e_locked_cert := Some (collect_cert G Prepare bh s), e_sent_commit := insert (e_round s) (e_sent_commit s)\<rparr>"
  have "e_round s \<notin> e_sent_commit s \<Longrightarrow> votes_left ?s < k"
    using votes_left_insert(2) [of s "Some (collect_cert G Prepare bh s)" "Some bh"] assms(2) by simp
  with assms(2) show "check_prepared a G bh r s = check_prepared b G bh r s" "bounded_by k (fst (check_prepared b G bh r s))"
    using cast_agree [OF assms(1), of ?s]
    by (auto simp: check_prepared_def Let_def bounded_by_def)
qed

lemma reprepare_agree:
  assumes "agree_below k a b"
  shows "same_upto k (reprepare_lock a G) (reprepare_lock b G)"
  unfolding same_upto_def
proof (intro allI impI)
  fix s :: "'a engine"
  assume ok: "bounded_by k s"
  let ?s = "s\<lparr>e_sent_prepare := insert (e_round s) (e_sent_prepare s)\<rparr>"
  have "votes_left ?s < k" if "e_round s \<notin> e_sent_prepare s" "e_locked_block s \<noteq> None"
    using votes_left_insert(1) [OF that(1)] that(2) ok by (auto simp: bounded_by_def quiet_def)
  then show "reprepare_lock a G s = reprepare_lock b G s \<and> bounded_by k (fst (reprepare_lock b G s))"
    using ok cast_agree [OF assms, of ?s] by (auto simp: reprepare_lock_def split: option.splits)
qed

lemma bounded_round: "bounded_by k (s\<lparr>e_round := r\<rparr>) = bounded_by k s"
  by (simp add: bounded_by_def quiet_def votes_left_def)

lemma next_round_agree:
  assumes "agree_below k a b"
  shows "same_upto k (then_out (reprepare_lock a G) (maybe_propose G)) (then_out (reprepare_lock b G) (maybe_propose G))"
  by (rule same_then [OF reprepare_agree [OF assms] same_silent [OF silent_maybe_propose]])

lemma advance_agree:
  assumes "agree_below k a b"
  shows "same_upto k (advance_round a G) (advance_round b G)"
  using next_round_agree [OF assms, of G] by (simp add: same_upto_def advance_round_def bounded_round)

lemma round_failed_agree:
  assumes "agree_below k a b"
  shows "same_upto k (round_failed_by_votes a G) (round_failed_by_votes b G)"
  using advance_agree [OF assms, of G] by (simp add: same_upto_def round_failed_by_votes_def Let_def)

lemma maybe_advance_agree:
  assumes "agree_below k a b"
  shows "same_upto k (maybe_advance_round a G) (maybe_advance_round b G)"
proof -
  have tallies: "bounded_by k (bump_by t n (bump u s)) = bounded_by k s" for t n u and s :: "'a engine"
    by (rule bounded_core) simp
  show ?thesis
    using next_round_agree [OF assms, of G]
    by (simp add: same_upto_def maybe_advance_round_def Let_def bounded_round tallies)
qed

lemma check_committed_bounded: "votes_left s \<le> k \<Longrightarrow> bounded_by k (fst (check_committed G bh s))"
proof (cases "bt_get (e_proposals s) bh")
  case None
  assume le: "votes_left s \<le> k"
  have "votes_left (fst (finalize G bh s)) = votes_left s"
    using arg_cong [OF finalize_parks(1) [OF None, of G], of k_sentp] arg_cong [OF finalize_parks(1) [OF None, of G], of k_sentc]
    by (simp add: votes_left_def)
  with le show ?thesis by (simp add: check_committed_def bounded_by_def)
next
  case (Some b)
  assume le: "votes_left s \<le> k"
  then show ?thesis
    using quiet_fresh [OF finalize_commits(1) [OF Some, of G]] by (simp add: check_committed_def bounded_by_def)
qed

lemma accept_body_agree:
  assumes "agree_below (votes_left s) a b"
  shows "accept_vote_body a G sv s = accept_vote_body b G sv s \<and> bounded_by (votes_left s) (fst (accept_vote_body b G sv s))"
proof -
  let ?k = "votes_left s"
  have store: "votes_left (store_vote sv t) = votes_left t" for t :: "'a engine"
    by (simp add: store_vote_def votes_left_def Let_def split: phase.splits)
  have off: "bounded_by ?k t" if "core t = core s" for t
    using bounded_core [OF that, of ?k] by (simp add: bounded_by_def)
  show ?thesis
  proof (cases rule: accept_body_cases [of s G sv])
    case (ignored t)
    then show ?thesis using off by simp
  next
    case (taken t slash)
    have t: "votes_left (store_vote sv t) \<le> ?k" by (simp add: store votes_left_core [OF taken(1)])
    define f where "f acc = (case v_phase (sv_vote sv) of Prepare \<Rightarrow> check_prepared acc G (v_block (sv_vote sv)) (v_round (sv_vote sv))
       | Commit \<Rightarrow> check_committed G (v_block (sv_vote sv)))" for acc
    define continue where "continue acc = then_out (round_failed_by_votes acc G) (maybe_advance_round acc G)" for acc
    have first: "f a (store_vote sv t) = f b (store_vote sv t)" "bounded_by ?k (fst (f b (store_vote sv t)))"
      by (simp_all add: f_def check_prepared_agree [OF assms t] check_committed_bounded [OF t] split: phase.splits)
    have "same_upto ?k (continue a) (continue b)"
      unfolding continue_def by (intro same_then round_failed_agree maybe_advance_agree assms)
    then have "then_out (f a) (continue a) (store_vote sv t) = then_out (f b) (continue b) (store_vote sv t)"
      "bounded_by ?k (fst (then_out (f b) (continue b) (store_vote sv t)))"
      using first by (auto simp: then_out_def same_upto_def case_prod_beta)
    then show ?thesis by (simp add: taken(7) vote_transitions_def f_def [symmetric] continue_def [symmetric])
  qed
qed

lemma accept_fuel_enough:
  assumes "votes_left s \<le> k" "k \<le> n"
  shows "accept_vote_fuel (Suc n) G sv s = accept_vote_fuel (Suc k) G sv s \<and> bounded_by (votes_left s) (fst (accept_vote_fuel (Suc k) G sv s))"
  using assms
proof (induction k arbitrary: n s sv)
  case 0
  then have "agree_below (votes_left s) (accept_vote_fuel n G) (accept_vote_fuel 0 G)" by (simp add: agree_below_def)
  then show ?case using accept_body_agree [of s _ _ G sv] by simp
next
  case (Suc k)
  have "agree_below (votes_left s) (accept_vote_fuel n G) (accept_vote_fuel (Suc k) G)"
    unfolding agree_below_def
  proof (intro allI impI)
    fix sv' and t :: "'a engine"
    assume t: "votes_left t < votes_left s"
    then obtain n' where n: "n = Suc n'" "k \<le> n'" using Suc.prems by (cases n) auto
    from t Suc.prems Suc.IH [OF _ n(2), of t sv']
    show "accept_vote_fuel n G sv' t = accept_vote_fuel (Suc k) G sv' t \<and> bounded_by (votes_left s) (fst (accept_vote_fuel (Suc k) G sv' t))"
      by (auto simp: n(1) bounded_by_def simp del: accept_vote_fuel.simps)
  qed
  then show ?case using accept_body_agree [of s "accept_vote_fuel n G" "accept_vote_fuel (Suc k) G" G sv]
    by (metis accept_vote_fuel.simps(2))
qed

lemma accept_vote_fuel_more: "accept_vote_fuel (ACCEPT_FUEL + k) G sv s = accept_vote G sv s"
  using accept_fuel_enough [OF votes_left_le, of "2 * 2 ^ 32 + k" G sv s] by (simp add: accept_vote_def ACCEPT_FUEL_def)

lemma accept_vote_rec: "accept_vote G sv s = accept_vote_body (accept_vote G) G sv s"
  using accept_vote_fuel_more [of 1 G sv s] by (simp add: accept_vote_def)

text \<open>
  C3. The recursion of \<open>accept_vote\<close> through a validator's own votes ends for every state and vote: the fuel of the model is
  never used up, more fuel changes nothing, and \<open>accept_vote\<close> satisfies the recursive equation of the source.
\<close>

theorem accept_vote_unfolds:
  "accept_vote G sv s = accept_vote_body (accept_vote G) G sv s \<and> accept_vote_fuel (ACCEPT_FUEL + k) G sv s = accept_vote G sv s"
  using accept_vote_rec accept_vote_fuel_more by blast

end
