(* ===== verification/Taxis_Protocol.thy ===== *)
theory Taxis_Protocol
  imports Taxis_Quorum
begin

text \<open>
  The voting rules of TAXIS as an abstract protocol. A seat holds its height, round, the rounds it has voted
  in and its lock; the votes of the honest seats stand in one log in the order they were signed. A seat
  prepares one value per round, against its lock only if a later prepare quorum for the value exists, and
  commits and locks only what a quorum prepared in its round. Two commit quorums of one height name the
  same block, in whatever order the seats act and whatever the others do. The engine of \<open>consensus.rs\<close> is
  shown to follow these rules in \<open>Taxis_Agreement\<close>.
\<close>

record seat =
  a_height :: u64
  a_round :: u32
  a_sentp :: "u32 set"
  a_sentc :: "u32 set"
  a_lock :: "(byte list \<times> u32) option"

record assembly =
  y_n :: nat
  y_quorum :: nat
  y_honest :: "byte set"
  y_nil :: "byte list"

abbreviation seats :: "assembly \<Rightarrow> byte set" where
  "seats A \<equiv> {i. unat i < y_n A}"

abbreviation ballot :: "phase \<Rightarrow> u64 \<Rightarrow> u32 \<Rightarrow> byte list \<Rightarrow> byte \<Rightarrow> vote" where
  "ballot ph h r b i \<equiv> \<lparr>v_height = h, v_round = r, v_block = b, v_phase = ph, v_voter = i\<rparr>"

text \<open>Any two quorums share an honest seat.\<close>

definition quorums_meet :: "assembly \<Rightarrow> bool" where
  "quorums_meet A \<longleftrightarrow> y_n A + card (seats A - y_honest A) < 2 * y_quorum A"

text \<open>A quorum of seats whose honest members voted so; the others may have signed anything.\<close>

definition quorum_backed :: "assembly \<Rightarrow> vote list \<Rightarrow> phase \<Rightarrow> u64 \<Rightarrow> u32 \<Rightarrow> byte list \<Rightarrow> bool" where
  "quorum_backed A K ph h r b \<longleftrightarrow>
     (\<exists>Q \<subseteq> seats A. y_quorum A \<le> card Q \<and> (\<forall>i \<in> Q \<inter> y_honest A. ballot ph h r b i \<in> set K))"

definition lock_allows :: "assembly \<Rightarrow> vote list \<Rightarrow> seat \<Rightarrow> byte list \<Rightarrow> bool" where
  "lock_allows A K a b \<longleftrightarrow> b = y_nil A \<or>
     (case a_lock a of
        None \<Rightarrow> True
      | Some (u, l) \<Rightarrow> u = b \<or> (\<exists>p. l < p \<and> p \<le> a_round a \<and> quorum_backed A K Prepare (a_height a) p b))"

inductive seat_step :: "assembly \<Rightarrow> byte \<Rightarrow> seat \<times> vote list \<Rightarrow> seat \<times> vote list \<Rightarrow> bool" for A i where
  new_round: "a_round a \<le> r \<Longrightarrow> seat_step A i (a, K) (a\<lparr>a_round := r\<rparr>, K)"
| prepares: "a_round a \<notin> a_sentp a \<Longrightarrow> lock_allows A K a b \<Longrightarrow>
    seat_step A i (a, K) (a\<lparr>a_sentp := insert (a_round a) (a_sentp a)\<rparr>, K @ [ballot Prepare (a_height a) (a_round a) b i])"
| commits: "a_round a \<notin> a_sentc a \<Longrightarrow> b \<noteq> y_nil A \<Longrightarrow> quorum_backed A K Prepare (a_height a) (a_round a) b \<Longrightarrow>
    seat_step A i (a, K) (a\<lparr>a_sentc := insert (a_round a) (a_sentc a), a_lock := Some (b, a_round a)\<rparr>,
      K @ [ballot Commit (a_height a) (a_round a) b i])"
| new_height: "a_height a < h \<Longrightarrow>
    seat_step A i (a, K) (\<lparr>a_height = h, a_round = 0, a_sentp = {}, a_sentc = {}, a_lock = None\<rparr>, K)"

section \<open>Invariants\<close>

text \<open>What the log of a disciplined assembly satisfies.\<close>

definition votes_once :: "vote list \<Rightarrow> bool" where
  "votes_once K \<longleftrightarrow> (\<forall>v \<in> set K. \<forall>w \<in> set K. v_voter v = v_voter w \<and> v_height v = v_height w \<and>
     v_round v = v_round w \<and> v_phase v = v_phase w \<longrightarrow> v_block v = v_block w)"

definition commits_backed :: "assembly \<Rightarrow> vote list \<Rightarrow> bool" where
  "commits_backed A K \<longleftrightarrow> (\<forall>v \<in> set K. v_phase v = Commit \<longrightarrow>
     v_block v \<noteq> y_nil A \<and> quorum_backed A K Prepare (v_height v) (v_round v) (v_block v))"

text \<open>A prepare against an earlier commit of the same seat follows a prepare quorum of a later round.\<close>

definition locks_kept :: "assembly \<Rightarrow> vote list \<Rightarrow> bool" where
  "locks_kept A K \<longleftrightarrow> (\<forall>k < length K. \<forall>c \<in> set K.
     v_phase (K ! k) = Prepare \<and> v_phase c = Commit \<and> v_voter c = v_voter (K ! k) \<and> v_height c = v_height (K ! k) \<and>
     v_round c < v_round (K ! k) \<and> v_block c \<noteq> v_block (K ! k) \<and> v_block (K ! k) \<noteq> y_nil A \<longrightarrow>
     (\<exists>p > v_round c. quorum_backed A (take k K) Prepare (v_height c) p (v_block (K ! k))))"

definition disciplined :: "assembly \<Rightarrow> vote list \<Rightarrow> bool" where
  "disciplined A K \<longleftrightarrow> votes_once K \<and> commits_backed A K \<and> locks_kept A K"

text \<open>How a seat's state relates to its votes in the log.\<close>

definition seat_votes :: "byte \<Rightarrow> seat \<Rightarrow> vote list \<Rightarrow> bool" where
  "seat_votes i a K \<longleftrightarrow> (\<forall>v \<in> set K. v_voter v = i \<longrightarrow> v_height v \<le> a_height a \<and>
     (v_height v = a_height a \<longrightarrow> v_round v \<le> a_round a \<and>
        (case v_phase v of
           Prepare \<Rightarrow> v_round v \<in> a_sentp a
         | Commit \<Rightarrow> v_round v \<in> a_sentc a \<and>
             (\<exists>u l. a_lock a = Some (u, l) \<and> v_round v \<le> l \<and> (v_round v = l \<longrightarrow> v_block v = u)))))"

definition seat_lock :: "assembly \<Rightarrow> seat \<Rightarrow> vote list \<Rightarrow> bool" where
  "seat_lock A a K \<longleftrightarrow> (\<forall>u l. a_lock a = Some (u, l) \<longrightarrow>
     l \<le> a_round a \<and> l \<in> a_sentc a \<and> quorum_backed A K Prepare (a_height a) l u)"

definition seat_inv :: "assembly \<Rightarrow> byte \<Rightarrow> seat \<Rightarrow> vote list \<Rightarrow> bool" where
  "seat_inv A i a K \<longleftrightarrow> seat_votes i a K \<and> seat_lock A a K"

lemma quorum_backed_mono: "quorum_backed A K ph h r b \<Longrightarrow> set K \<subseteq> set K' \<Longrightarrow> quorum_backed A K' ph h r b"
  unfolding quorum_backed_def by blast

lemma seat_inv_other:
  assumes "seat_inv A j a K" "\<forall>v \<in> set L. v_voter v \<noteq> j"
  shows "seat_inv A j a (K @ L)"
  using assms quorum_backed_mono [of A K _ _ _ _ "K @ L"] by (auto simp: seat_inv_def seat_votes_def seat_lock_def)

lemma quorum_backed_grows: "quorum_backed A K ph h r b \<Longrightarrow> quorum_backed A (K @ L) ph h r b"
  by (rule quorum_backed_mono) auto

lemma commits_backed_snoc:
  assumes "commits_backed A K" "v_phase v = Commit \<Longrightarrow> v_block v \<noteq> y_nil A \<and> quorum_backed A K Prepare (v_height v) (v_round v) (v_block v)"
  shows "commits_backed A (K @ [v])"
  using assms quorum_backed_grows [of A K _ _ _ _ "[v]"] by (auto simp: commits_backed_def)

lemma votes_once_snoc:
  assumes "votes_once K" "\<And>w. w \<in> set K \<Longrightarrow> v_voter w = v_voter v \<Longrightarrow> v_height w = v_height v \<Longrightarrow>
     v_round w = v_round v \<Longrightarrow> v_phase w = v_phase v \<Longrightarrow> v_block w = v_block v"
  shows "votes_once (K @ [v])"
  unfolding votes_once_def
proof (intro ballI impI)
  fix x y
  assume xy: "x \<in> set (K @ [v])" "y \<in> set (K @ [v])"
    "v_voter x = v_voter y \<and> v_height x = v_height y \<and> v_round x = v_round y \<and> v_phase x = v_phase y"
  then consider "x \<in> set K" "y \<in> set K" | "x \<in> set K" "y = v" | "x = v" "y \<in> set K" | "x = v" "y = v" by auto
  then show "v_block x = v_block y"
  proof cases
    case 1
    then show ?thesis using assms(1) xy(3) unfolding votes_once_def by blast
  qed (use assms(2) [of x] assms(2) [of y] xy(3) in simp_all)
qed

lemma locks_kept_snoc:
  assumes "locks_kept A K"
    and "\<And>c. v_phase v = Prepare \<Longrightarrow> c \<in> set K \<Longrightarrow> v_phase c = Commit \<Longrightarrow> v_voter c = v_voter v \<Longrightarrow> v_height c = v_height v \<Longrightarrow>
       v_round c < v_round v \<Longrightarrow> v_block c \<noteq> v_block v \<Longrightarrow> v_block v \<noteq> y_nil A \<Longrightarrow>
       \<exists>p > v_round c. quorum_backed A K Prepare (v_height c) p (v_block v)"
    and "\<And>w. v_phase v = Commit \<Longrightarrow> w \<in> set K \<Longrightarrow> v_voter w = v_voter v \<Longrightarrow> v_height w = v_height v \<Longrightarrow> v_round w \<le> v_round v"
  shows "locks_kept A (K @ [v])"
  unfolding locks_kept_def
proof (intro allI impI ballI, elim conjE)
  fix k c
  let ?w = "(K @ [v]) ! k"
  assume k: "k < length (K @ [v])" and c: "c \<in> set (K @ [v])"
    and w: "v_phase ?w = Prepare" "v_phase c = Commit" "v_voter c = v_voter ?w" "v_height c = v_height ?w"
      "v_round c < v_round ?w" "v_block c \<noteq> v_block ?w" "v_block ?w \<noteq> y_nil A"
  show "\<exists>p > v_round c. quorum_backed A (take k (K @ [v])) Prepare (v_height c) p (v_block ?w)"
  proof (cases "k < length K")
    case True
    have "c \<noteq> v" using assms(3) [of "K ! k"] True w by (auto simp: nth_append)
    then have "c \<in> set K" using c by auto
    then show ?thesis using assms(1) True w by (simp add: locks_kept_def nth_append)
  next
    case False
    then have "?w = v" "take k (K @ [v]) = K" "k = length K" using k by (auto simp: nth_append not_less less_Suc_eq)
    moreover have "c \<in> set K" using c w calculation by auto
    ultimately show ?thesis using assms(2) [of c] w by simp
  qed
qed

lemma seat_votesD:
  assumes "seat_votes i a K" "v \<in> set K" "v_voter v = i"
  shows "v_height v \<le> a_height a" "v_height v = a_height a \<Longrightarrow> v_round v \<le> a_round a"
    "v_height v = a_height a \<Longrightarrow> v_phase v = Prepare \<Longrightarrow> v_round v \<in> a_sentp a"
    "v_height v = a_height a \<Longrightarrow> v_phase v = Commit \<Longrightarrow> v_round v \<in> a_sentc a \<and>
       (\<exists>u l. a_lock a = Some (u, l) \<and> v_round v \<le> l \<and> (v_round v = l \<longrightarrow> v_block v = u))"
  using assms by (auto simp: seat_votes_def)

lemma prepare_disciplined:
  assumes "disciplined A K" "seat_inv A i a K" "a_round a \<notin> a_sentp a" "lock_allows A K a b"
  shows "disciplined A (K @ [ballot Prepare (a_height a) (a_round a) b i])"
proof -
  have sv: "seat_votes i a K" and sl: "seat_lock A a K" using assms(2) by (simp_all add: seat_inv_def)
  have "locks_kept A (K @ [ballot Prepare (a_height a) (a_round a) b i])"
  proof (rule locks_kept_snoc)
    show "locks_kept A K" using assms(1) by (simp add: disciplined_def)
    fix c
    assume "c \<in> set K" "v_phase c = Commit" "v_voter c = v_voter (ballot Prepare (a_height a) (a_round a) b i)"
      "v_height c = v_height (ballot Prepare (a_height a) (a_round a) b i)"
      "v_round c < v_round (ballot Prepare (a_height a) (a_round a) b i)"
      "v_block c \<noteq> v_block (ballot Prepare (a_height a) (a_round a) b i)"
      "v_block (ballot Prepare (a_height a) (a_round a) b i) \<noteq> y_nil A"
    then have c: "c \<in> set K" "v_phase c = Commit" "v_voter c = i" "v_height c = a_height a" "v_round c < a_round a" "v_block c \<noteq> b" "b \<noteq> y_nil A"
      by simp_all
    then obtain u l where l: "a_lock a = Some (u, l)" "v_round c \<le> l" "v_round c = l \<longrightarrow> v_block c = u"
      using seat_votesD(4) [OF sv c(1,3,4,2)] by auto
    have "u = b \<or> (\<exists>p. l < p \<and> quorum_backed A K Prepare (a_height a) p b)"
      using assms(4) c(7) l(1) by (auto simp: lock_allows_def)
    then have "\<exists>p > v_round c. quorum_backed A K Prepare (a_height a) p b"
    proof
      assume "u = b"
      then have "v_round c < l" using l c(6) by (auto simp: order_le_less)
      then show ?thesis using sl l(1) \<open>u = b\<close> by (auto simp: seat_lock_def)
    qed (use l(2) in \<open>auto intro: order_le_less_trans\<close>)
    then show "\<exists>p > v_round c. quorum_backed A K Prepare (v_height c) p (v_block (ballot Prepare (a_height a) (a_round a) b i))"
      by (simp add: c(4))
  qed simp
  moreover have "votes_once (K @ [ballot Prepare (a_height a) (a_round a) b i])"
    by (rule votes_once_snoc) (use assms(1,3) seat_votesD(3) [OF sv] in \<open>force simp: disciplined_def\<close>)+
  moreover have "commits_backed A (K @ [ballot Prepare (a_height a) (a_round a) b i])"
    by (rule commits_backed_snoc) (use assms(1) in \<open>auto simp: disciplined_def\<close>)
  ultimately show ?thesis by (simp add: disciplined_def)
qed

lemma commit_disciplined:
  assumes "disciplined A K" "seat_inv A i a K" "a_round a \<notin> a_sentc a" "b \<noteq> y_nil A" "quorum_backed A K Prepare (a_height a) (a_round a) b"
  shows "disciplined A (K @ [ballot Commit (a_height a) (a_round a) b i])"
proof -
  have sv: "seat_votes i a K" using assms(2) by (simp add: seat_inv_def)
  have "locks_kept A (K @ [ballot Commit (a_height a) (a_round a) b i])"
    by (rule locks_kept_snoc) (use assms(1) seat_votesD(2) [OF sv] in \<open>auto simp: disciplined_def\<close>)
  moreover have "votes_once (K @ [ballot Commit (a_height a) (a_round a) b i])"
    by (rule votes_once_snoc) (use assms(1,3) seat_votesD(4) [OF sv] in \<open>force simp: disciplined_def\<close>)+
  moreover have "commits_backed A (K @ [ballot Commit (a_height a) (a_round a) b i])"
    by (rule commits_backed_snoc) (use assms(1,4,5) in \<open>auto simp: disciplined_def\<close>)
  ultimately show ?thesis by (simp add: disciplined_def)
qed

text \<open>Every step of a seat keeps both invariants.\<close>

lemma seat_step_inv:
  assumes "seat_step A i (a, K) (a', K')" "disciplined A K" "seat_inv A i a K"
  shows "disciplined A K' \<and> seat_inv A i a' K'"
  using assms(1)
proof (cases rule: seat_step.cases)
  case (new_round r)
  then show ?thesis using assms(2,3) by (auto simp: seat_inv_def seat_votes_def seat_lock_def split: phase.splits dest: order_trans)
next
  case (prepares b)
  have "seat_inv A i a' K'"
    using assms(3) prepares quorum_backed_grows [of A K _ _ _ _ "[ballot Prepare (a_height a) (a_round a) b i]"]
    by (auto simp: seat_inv_def seat_votes_def seat_lock_def split: phase.splits)
  then show ?thesis using prepare_disciplined [OF assms(2,3)] prepares by simp
next
  case (commits b)
  have sv: "seat_votes i a K" using assms(3) by (simp add: seat_inv_def)
  have "seat_votes i a' K'"
    unfolding seat_votes_def
  proof (intro ballI impI)
    fix v assume v: "v \<in> set K'" "v_voter v = i"
    show "v_height v \<le> a_height a' \<and> (v_height v = a_height a' \<longrightarrow> v_round v \<le> a_round a' \<and>
        (case v_phase v of Prepare \<Rightarrow> v_round v \<in> a_sentp a'
         | Commit \<Rightarrow> v_round v \<in> a_sentc a' \<and> (\<exists>u l. a_lock a' = Some (u, l) \<and> v_round v \<le> l \<and> (v_round v = l \<longrightarrow> v_block v = u))))"
    proof (cases "v \<in> set K")
      case True
      then show ?thesis
        using seat_votesD [OF sv True v(2)] commits(1,3) by (auto split: phase.splits)
    qed (use v commits in auto)
  qed
  moreover have "seat_lock A a' K'"
    using commits quorum_backed_grows [OF commits(5), of "[ballot Commit (a_height a) (a_round a) b i]"] by (auto simp: seat_lock_def)
  ultimately show ?thesis using commit_disciplined [OF assms(2,3)] commits by (simp add: seat_inv_def)
next
  case (new_height h)
  then show ?thesis using assms(2,3) by (fastforce simp: seat_inv_def seat_votes_def seat_lock_def)
qed

section \<open>Agreement\<close>

lemma quorums_share_honest:
  assumes "quorums_meet A" "Q \<subseteq> seats A" "R \<subseteq> seats A" "y_quorum A \<le> card Q" "y_quorum A \<le> card R"
  obtains i where "i \<in> Q" "i \<in> R" "i \<in> y_honest A"
proof -
  have fin: "finite (seats A)" by simp
  have n: "card (seats A) \<le> y_n A"
  proof -
    have "unat ` seats A \<subseteq> {..<y_n A}" by auto
    then have "card (unat ` seats A) \<le> y_n A" using card_mono [of "{..<y_n A}"] by fastforce
    then show ?thesis by (simp add: card_image inj_on_def word_unat_eq_iff)
  qed
  have "card Q + card R = card (Q \<union> R) + card (Q \<inter> R)"
    by (rule card_Un_Int) (use assms(2,3) fin finite_subset in auto)
  moreover have "card (Q \<union> R) \<le> card (seats A)" by (rule card_mono) (use assms(2,3) in auto)
  ultimately have "card (seats A - y_honest A) < card (Q \<inter> R)" using assms(1,4,5) n by (simp add: quorums_meet_def)
  then have "\<not> Q \<inter> R \<subseteq> seats A - y_honest A" using card_mono [of "seats A - y_honest A" "Q \<inter> R"] by auto
  then show ?thesis using that assms(2) by auto
qed

lemma quorum_backed_meet:
  assumes "quorums_meet A" "quorum_backed A K ph h r b" "quorum_backed A K' ph' h' r' b'"
  obtains i where "i \<in> y_honest A" "ballot ph h r b i \<in> set K" "ballot ph' h' r' b' i \<in> set K'"
proof -
  obtain Q where Q: "Q \<subseteq> seats A" "y_quorum A \<le> card Q" "\<forall>i \<in> Q \<inter> y_honest A. ballot ph h r b i \<in> set K"
    using assms(2) by (auto simp: quorum_backed_def)
  obtain R where R: "R \<subseteq> seats A" "y_quorum A \<le> card R" "\<forall>i \<in> R \<inter> y_honest A. ballot ph' h' r' b' i \<in> set K'"
    using assms(3) by (auto simp: quorum_backed_def)
  show ?thesis by (rule quorums_share_honest [OF assms(1) Q(1) R(1) Q(2) R(2)]) (use Q R that in blast)
qed

text \<open>Once a quorum has committed \<open>b\<close> in round \<open>r\<close>, no prefix of the log prepares another block in a later round.\<close>

lemma no_later_polka:
  assumes "quorums_meet A" "disciplined A K" "quorum_backed A K Commit h r b" "r < p" "b' \<noteq> b" "b' \<noteq> y_nil A"
  shows "\<not> quorum_backed A (take n K) Prepare h p b'"
  using assms(4)
proof (induction n arbitrary: p rule: less_induct)
  case (less n)
  show ?case
  proof
    assume "quorum_backed A (take n K) Prepare h p b'"
    with assms(1,3) obtain i where i: "ballot Commit h r b i \<in> set K" "ballot Prepare h p b' i \<in> set (take n K)"
      by (rule quorum_backed_meet)
    then obtain k where k: "k < n" "k < length K" "K ! k = ballot Prepare h p b' i"
      by (auto simp: in_set_conv_nth)
    obtain p' where "r < p'" "quorum_backed A (take k K) Prepare h p' b'"
      using assms(2,5,6) less.prems i(1) k unfolding disciplined_def locks_kept_def by fastforce
    then show False using less.IH [OF k(1)] by blast
  qed
qed

lemma commit_has_polka:
  assumes "quorums_meet A" "disciplined A K" "quorum_backed A K Commit h r b"
  shows "quorum_backed A K Prepare h r b" "b \<noteq> y_nil A"
proof -
  obtain i where "ballot Commit h r b i \<in> set K" using quorum_backed_meet [OF assms(1,3,3)] by blast
  then show "quorum_backed A K Prepare h r b" "b \<noteq> y_nil A" using assms(2) by (auto simp: disciplined_def commits_backed_def)
qed

lemma commits_agree_below:
  assumes "quorums_meet A" "disciplined A K" "quorum_backed A K Commit h r b" "quorum_backed A K Commit h r' b'" "r \<le> r'"
  shows "b = b'"
proof (cases "r = r'")
  case True
  obtain i where "ballot Commit h r b i \<in> set K" "ballot Commit h r' b' i \<in> set K"
    using quorum_backed_meet [OF assms(1,3,4)] by blast
  then show ?thesis using assms(2) True unfolding disciplined_def votes_once_def by fastforce
next
  case False
  then have "r < r'" using assms(5) by simp
  then show ?thesis
    using no_later_polka [OF assms(1-3), of r' b' "length K"] commit_has_polka [OF assms(1,2,4)] by auto
qed

lemma commits_agree:
  assumes "quorums_meet A" "disciplined A K" "quorum_backed A K Commit h r b" "quorum_backed A K Commit h r' b'"
  shows "b = b'"
  using commits_agree_below [OF assms(1,2)] assms(3,4) by (metis linear)

end
