(* ===== verification/Taxis_Refinement.thy ===== *)
theory Taxis_Refinement
  imports Taxis_Fuel Taxis_Protocol
begin

text \<open>
  The consensus engine follows the abstract protocol. Each call of \<open>step\<close> is a sequence of steps of the
  validator's seat that signs exactly the votes the call sends, keeps what the stored votes, locks, held
  blocks, parked decisions and queued blocks are known to be backed by, and reports as committed only blocks
  that a quorum committed.
\<close>

section \<open>Soundness of a validator's state\<close>

definition cell_of :: "('e, 'm, 's, 'p, 'k, 'c, 'st) config \<Rightarrow> byte set \<Rightarrow> assembly" where
  "cell_of G H = \<lparr>y_n = length (g_verifiers G), y_quorum = cp_quorum (g_params G), y_honest = H, y_nil = NIL\<rparr>"

lemma cell_of_sel [simp]:
  "y_n (cell_of G H) = length (g_verifiers G)" "y_quorum (cell_of G H) = cp_quorum (g_params G)"
  "y_honest (cell_of G H) = H" "y_nil (cell_of G H) = NIL"
  by (simp_all add: cell_of_def)

text \<open>A valid signature of an honest seat is on a vote in the log.\<close>

definition authentic :: "('e, 'm, 's, 'p, 'k, 'c, 'st) config \<Rightarrow> byte set \<Rightarrow> vote set \<Rightarrow> signed_vote \<Rightarrow> bool" where
  "authentic G H K sv \<longleftrightarrow> (v_voter (sv_vote sv) \<in> H \<and>
     (\<exists>vk. vget (g_verifiers G) (v_voter (sv_vote sv)) = Some vk \<and> sv_verify (g_crypto G) sv vk) \<longrightarrow> sv_vote sv \<in> K)"

definition decided :: "assembly \<Rightarrow> vote list \<Rightarrow> u64 \<Rightarrow> byte list \<Rightarrow> bool" where
  "decided A K h b \<longleftrightarrow> (\<exists>r. quorum_backed A K Commit h r b)"

definition seat_of :: "'st engine \<Rightarrow> seat" where
  "seat_of s = \<lparr>a_height = height s, a_round = e_round s, a_sentp = e_sent_prepare s, a_sentc = e_sent_commit s,
     a_lock = (case (e_locked_block s, e_locked_cert s) of (Some b, Some c) \<Rightarrow> Some (b, c_round c) | _ \<Rightarrow> None)\<rparr>"

definition votes_authentic :: "('e, 'm, 's, 'p, 'k, 'c, 'st) config \<Rightarrow> byte set \<Rightarrow> vote list \<Rightarrow> core \<Rightarrow> bool" where
  "votes_authentic G H K k \<longleftrightarrow> (\<forall>sv \<in> set (k_prepares k) \<union> set (k_commits k). authentic G H (set K) sv)"

definition proposals_keyed :: "('e, 'm, 's, 'p, 'k, 'c, 'st) config \<Rightarrow> core \<Rightarrow> bool" where
  "proposals_keyed G k \<longleftrightarrow> (\<forall>(bh, b) \<in> set (k_props k). bh = hash_of G b \<and> hd_height (b_header b) = k_height k)"

definition core_sound :: "('e, 'm, 's, 'p, 'k, 'c, 'st) config \<Rightarrow> byte set \<Rightarrow> vote list \<Rightarrow> core \<Rightarrow> bool" where
  "core_sound G H K k \<longleftrightarrow> votes_authentic G H K k \<and> (k_lock k = None \<longleftrightarrow> k_lcert k = None) \<and> proposals_keyed G k \<and>
     (\<forall>(h, b) \<in> set (k_pending k). decided (cell_of G H) K h b)"

definition queue_sound :: "('e, 'm, 's, 'p, 'k, 'c, 'st) config \<Rightarrow> byte set \<Rightarrow> vote list \<Rightarrow> block set \<Rightarrow> bool" where
  "queue_sound G H K Q \<longleftrightarrow> (\<forall>b \<in> Q. decided (cell_of G H) K (hd_height (b_header b)) (hash_of G b))"

definition sound :: "('e, 'm, 's, 'p, 'k, 'c, 'st) config \<Rightarrow> byte set \<Rightarrow> vote list \<Rightarrow> 'st engine \<Rightarrow> bool" where
  "sound G H K s \<longleftrightarrow> core_sound G H K (core s) \<and> queue_sound G H K (set (e_exec_queue s))"

text \<open>Below the last representable height, or with nothing to vote on there.\<close>

definition low :: "'st engine \<Rightarrow> bool" where
  "low s \<longleftrightarrow> height s \<noteq> - 1"

definition steady :: "'st engine \<Rightarrow> bool" where
  "steady s \<longleftrightarrow> low s \<or> quiet s"

lemma authentic_mono: "authentic G H K sv \<Longrightarrow> K \<subseteq> K' \<Longrightarrow> authentic G H K' sv"
  by (auto simp: authentic_def)

lemma decided_grows: "decided A K h b \<Longrightarrow> set K \<subseteq> set K' \<Longrightarrow> decided A K' h b"
  unfolding decided_def by (blast intro: quorum_backed_mono)

lemma queue_grows: "queue_sound G H K Q \<Longrightarrow> set K \<subseteq> set K' \<Longrightarrow> R \<subseteq> Q \<Longrightarrow> queue_sound G H K' R"
  by (auto simp: queue_sound_def intro: decided_grows)

lemma core_sound_grows: "core_sound G H K k \<Longrightarrow> set K \<subseteq> set K' \<Longrightarrow> core_sound G H K' k"
  unfolding core_sound_def votes_authentic_def using authentic_mono decided_grows by (metis (no_types, lifting) case_prodD case_prodI2)

lemma sound_grows: "sound G H K s \<Longrightarrow> set K \<subseteq> set K' \<Longrightarrow> sound G H K' s"
  unfolding sound_def using core_sound_grows queue_grows by blast

lemma sound_frame: "sound G H K s \<Longrightarrow> core t = core s \<Longrightarrow> set (e_exec_queue t) \<subseteq> set (e_exec_queue s) \<Longrightarrow> sound G H K t"
  unfolding sound_def using queue_grows by fastforce

lemma seat_frame: "core t = core s \<Longrightarrow> seat_of t = seat_of s"
  by (simp add: seat_of_def coreD [of t s])

lemma steady_frame: "core t = core s \<Longrightarrow> steady t = steady s"
  unfolding steady_def low_def by (simp add: coreD(1) [of t s] quiet_core [of t s])

text \<open>A certificate of authentic votes shows a quorum in the log.\<close>

lemma cert_is_backed:
  assumes "cert_ok G c" "\<forall>sv \<in> set (c_votes c). authentic G H (set K) sv"
  shows "quorum_backed (cell_of G H) K (c_phase c) (c_height c) (c_round c) (c_block c)"
proof -
  let ?Q = "(\<lambda>sv. v_voter (sv_vote sv)) ` set (c_votes c)"
  have v: "list_all (vote_counts (g_crypto G) c (g_verifiers G)) (c_votes c)" "distinct (map voter_index (c_votes c))"
    "cp_quorum (g_params G) \<le> length (c_votes c)"
    using assms(1) by (simp_all add: cert_verify_iff)
  have "card ?Q = length (c_votes c)"
  proof -
    have "distinct (map unat (map (\<lambda>sv. v_voter (sv_vote sv)) (c_votes c)))" using v(2) by (simp add: comp_def)
    then have "distinct (map (\<lambda>sv. v_voter (sv_vote sv)) (c_votes c))" by (metis distinct_map)
    then show ?thesis using distinct_card by fastforce
  qed
  moreover have "ballot (c_phase c) (c_height c) (c_round c) (c_block c) i \<in> set K" if i: "i \<in> ?Q" "i \<in> H" for i
  proof -
    obtain sv where sv: "sv \<in> set (c_votes c)" "v_voter (sv_vote sv) = i" using i by auto
    then have c: "vote_counts (g_crypto G) c (g_verifiers G) sv" using v(1) by (auto simp: list_all_iff)
    then have "sv_vote sv \<in> set K"
      using assms(2) sv i(2) by (auto simp: authentic_def vote_counts_def vget_def)
    moreover have "sv_vote sv = ballot (c_phase c) (c_height c) (c_round c) (c_block c) i"
      using c sv(2) by (auto simp: vote_counts_def intro!: vote.equality)
    ultimately show ?thesis by simp
  qed
  moreover have "?Q \<subseteq> seats (cell_of G H)" using v(1) by (auto simp: list_all_iff vote_counts_def)
  ultimately show ?thesis using v(3) unfolding quorum_backed_def by (intro exI [of _ ?Q]) auto
qed

lemma collect_votes_subset: "set (collect_votes ph h r bh svs seen) \<subseteq> set svs"
  by (induction svs arbitrary: seen) (auto simp: Let_def)

lemma collected_backed:
  assumes "sound G H K s" "cert_ok G (collect_cert G ph bh s)"
  shows "quorum_backed (cell_of G H) K ph (height s) (e_round s) bh"
proof -
  let ?c = "collect_cert G ph bh s"
  have "set (c_votes ?c) \<subseteq> set (e_prepares s) \<union> set (e_commits s)"
    using collect_votes_subset [of ph "height s" "e_round s" bh] by (fastforce simp: collect_cert_def split: phase.splits)
  then have "\<forall>sv \<in> set (c_votes ?c). authentic G H (set K) sv"
    using assms(1) by (auto simp: sound_def core_sound_def votes_authentic_def)
  from cert_is_backed [OF assms(2) this] show ?thesis by (simp add: collect_cert_def)
qed

section \<open>Simulation\<close>

abbreviation seat_steps :: "('e, 'm, 's, 'p, 'k, 'c, 'st) config \<Rightarrow> byte set \<Rightarrow> seat \<times> vote list \<Rightarrow> seat \<times> vote list \<Rightarrow> bool" where
  "seat_steps G H \<equiv> (seat_step (cell_of G H) (g_me G))\<^sup>*\<^sup>*"

definition outputs_decided :: "('e, 'm, 's, 'p, 'k, 'c, 'st) config \<Rightarrow> byte set \<Rightarrow> vote list \<Rightarrow> engine_output list \<Rightarrow> bool" where
  "outputs_decided G H K out \<longleftrightarrow>
     (\<forall>v \<in> set (execs_out out). xv_voter v = g_me G \<and> decided (cell_of G H) K (xv_height v) (xv_head v)) \<and>
     (\<forall>(h, b) \<in> set (commits_out out). decided (cell_of G H) K h b)"

text \<open>From the sound state \<open>s\<close> with log \<open>K\<close>, the result of a call is one that the seat could have reached.\<close>

definition follows :: "('e, 'm, 's, 'p, 'k, 'c, 'st) config \<Rightarrow> byte set \<Rightarrow> vote list \<Rightarrow> 'st engine \<Rightarrow> 'st engine \<times> engine_output list \<Rightarrow> bool" where
  "follows G H K s r \<longleftrightarrow> (\<exists>L. seat_steps G H (seat_of s, K) (seat_of (fst r), K @ L) \<and> sound G H (K @ L) (fst r) \<and> steady (fst r) \<and>
     sv_vote ` set (votes_out (snd r)) = set L \<and> outputs_decided G H (K @ L) (snd r))"

lemma outputs_decided_grows: "outputs_decided G H K out \<Longrightarrow> set K \<subseteq> set K' \<Longrightarrow> outputs_decided G H K' out"
  unfolding outputs_decided_def using decided_grows by fastforce

lemma outputs_decided_append [simp]: "outputs_decided G H K (a @ b) \<longleftrightarrow> outputs_decided G H K a \<and> outputs_decided G H K b"
  by (auto simp: outputs_decided_def)

lemma outputs_decided_Nil [simp]: "outputs_decided G H K []"
  by (simp add: outputs_decided_def)

definition refines :: "('e, 'm, 's, 'p, 'k, 'c, 'st) config \<Rightarrow> byte set \<Rightarrow> ('st engine \<Rightarrow> 'st engine \<times> engine_output list) \<Rightarrow> bool" where
  "refines G H f \<longleftrightarrow> (\<forall>K s. sound G H K s \<longrightarrow> steady s \<longrightarrow> follows G H K s (f s))"

lemma follows_then:
  assumes "follows G H K s (f s)" "refines G H g"
  shows "follows G H K s (then_out f g s)"
proof -
  let ?s = "fst (f s)"
  obtain L where L: "seat_steps G H (seat_of s, K) (seat_of ?s, K @ L)" "sound G H (K @ L) ?s" "steady ?s"
    "sv_vote ` set (votes_out (snd (f s))) = set L" "outputs_decided G H (K @ L) (snd (f s))"
    using assms(1) by (auto simp: follows_def)
  obtain M where M: "seat_steps G H (seat_of ?s, K @ L) (seat_of (fst (g ?s)), K @ L @ M)" "sound G H (K @ L @ M) (fst (g ?s))"
    "steady (fst (g ?s))" "sv_vote ` set (votes_out (snd (g ?s))) = set M" "outputs_decided G H (K @ L @ M) (snd (g ?s))"
    using assms(2) L(2,3) unfolding refines_def follows_def by (metis append.assoc)
  have "outputs_decided G H (K @ L @ M) (snd (f s))" by (rule outputs_decided_grows [OF L(5)]) auto
  with L M show ?thesis
    unfolding follows_def by (intro exI [of _ "L @ M"]) (auto simp: then_out_def case_prod_beta image_Un)
qed

lemma refines_then: "refines G H f \<Longrightarrow> refines G H g \<Longrightarrow> refines G H (then_out f g)"
  by (simp add: refines_def follows_then refines_def)

lemma follows_frame:
  assumes "sound G H K s" "steady s" "core (fst r) = core s" "set (e_exec_queue (fst r)) \<subseteq> set (e_exec_queue s)"
    "votes_out (snd r) = []" "outputs_decided G H K (snd r)"
  shows "follows G H K s r"
  using assms(5,6) seat_frame [OF assms(3)] sound_frame [OF assms(1,3,4)] steady_frame [OF assms(3)] assms(2)
  unfolding follows_def by (intro exI [of _ "[]"]) simp

lemma attests_decided:
  assumes "attests G Q vs" "queue_sound G H K Q"
  shows "\<forall>v \<in> set vs. xv_voter v = g_me G \<and> decided (cell_of G H) K (xv_height v) (xv_head v)"
  using assms by (fastforce simp: attests_def queue_sound_def)

lemma refines_executes: "executes G f \<Longrightarrow> refines G H f"
  unfolding refines_def
proof (intro allI impI)
  fix K s
  assume f: "executes G f" and s: "sound G H K s" "steady s"
  show "follows G H K s (f s)"
    by (rule follows_frame [OF s])
       (use executesD [OF f, of s] attests_decided [OF executesD(4) [OF f, of s]] s(1) in \<open>auto simp: outputs_decided_def sound_def\<close>)
qed

lemma refines_silent: "silent f \<Longrightarrow> refines G H f"
  by (rule refines_executes) (rule silent_executes)

section \<open>Deciding\<close>

lemma bt_get_mem: "bt_get m k = Some v \<Longrightarrow> (k, v) \<in> set m"
  by (simp add: bt_get_def map_of_SomeD)

lemma set_bt_insert_subset: "set (bt_insert k v m) \<subseteq> insert (k, v) (set m)"
  by (induction m) auto

lemma word_less_plus_1: "a \<noteq> - 1 \<Longrightarrow> a < a + 1" for a :: "'w::len word"
proof -
  assume "a \<noteq> - 1"
  then have nz: "a + 1 \<noteq> 0" using max_word_wrap by blast
  then have "unat (a + 1) = unat a + 1" using unat_minus_one [OF nz] unat_eq_0 [of "a + 1"] by simp
  then show ?thesis by (simp add: word_less_nat_alt)
qed

lemma finalize_follows:
  assumes "sound G H K s" "low s" "decided (cell_of G H) K (height s) bh"
  shows "follows G H K s (finalize G bh s)"
proof (cases "bt_get (e_proposals s) bh")
  case None
  note parks = finalize_parks [OF None, of G]
  let ?t = "fst (finalize G bh s)"
  have seat: "seat_of ?t = seat_of s"
    using parks(1) core_sel [of ?t] by (simp add: seat_of_def)
  have "low ?t" using seat assms(2) by (simp add: seat_of_def low_def)
  moreover have "sound G H K ?t"
    using assms(1,3) set_bt_insert_subset [of "height s" bh "e_pending_finalize s"] parks
    by (auto simp: sound_def core_sound_def votes_authentic_def proposals_keyed_def)
  ultimately show ?thesis using parks(3) seat unfolding follows_def by (intro exI [of _ "[]"]) (simp add: steady_def)
next
  case (Some b)
  note commits = finalize_commits [OF Some, of G]
  let ?t = "fst (finalize G bh s)"
  have b: "bh = hash_of G b" "hd_height (b_header b) = height s"
    using bt_get_mem [OF Some] assms(1) by (auto simp: sound_def core_sound_def proposals_keyed_def)
  have q: "queue_sound G H K (insert b (set (e_exec_queue s)))"
    using assms(1,3) b by (simp add: sound_def queue_sound_def)
  have seat: "seat_of ?t = \<lparr>a_height = height s + 1, a_round = 0, a_sentp = {}, a_sentc = {}, a_lock = None\<rparr>"
    using commits(1) core_sel [of ?t] by (simp add: seat_of_def fresh_core_def)
  have "height s < height s + 1" using assms(2) by (simp add: low_def word_less_plus_1)
  then have "seat_step (cell_of G H) (g_me G) (seat_of s, K) (seat_of ?t, K)"
    unfolding seat by (intro seat_step.new_height) (simp add: seat_of_def)
  moreover have "sound G H K ?t"
    using assms(1) queue_grows [OF q order_refl commits(2)] commits(1)
    by (auto simp: sound_def core_sound_def votes_authentic_def proposals_keyed_def fresh_core_def bt_remove_def)
  moreover have "outputs_decided G H K (snd (finalize G bh s))"
    using attests_decided [OF commits(5) q] commits(4) assms(3) by (simp add: outputs_decided_def)
  ultimately show ?thesis
    using commits(3) quiet_fresh [OF commits(1)] unfolding follows_def by (intro exI [of _ "[]"]) (simp add: steady_def)
qed

lemma check_committed_follows:
  assumes "sound G H K s" "low s"
  shows "follows G H K s (check_committed G bh s)"
proof (cases "cert_ok G (collect_cert G Commit bh s)")
  case True
  then show ?thesis
    using finalize_follows [OF assms] collected_backed [OF assms(1) True] by (auto simp: check_committed_def decided_def)
qed (simp add: check_committed_def follows_frame assms steady_def)

section \<open>Voting\<close>

text \<open>A step of the seat that signs \<open>v\<close>, and what follows it.\<close>

lemma follows_vote:
  assumes "seat_step (cell_of G H) (g_me G) (seat_of s, K) (seat_of t, K @ [sv_vote sv])"
    and "follows G H (K @ [sv_vote sv]) t r"
  shows "follows G H K s (fst r, snd r @ [Send (Vote sv)])"
proof -
  obtain L where L: "seat_steps G H (seat_of t, K @ [sv_vote sv]) (seat_of (fst r), K @ sv_vote sv # L)"
    "sound G H (K @ sv_vote sv # L) (fst r)" "steady (fst r)"
    "sv_vote ` set (votes_out (snd r)) = set L" "outputs_decided G H (K @ sv_vote sv # L) (snd r)"
    using assms(2) by (auto simp: follows_def)
  have "seat_steps G H (seat_of s, K) (seat_of (fst r), K @ sv_vote sv # L)"
    using assms(1) L(1) by (rule converse_rtranclp_into_rtranclp)
  then show ?thesis
    using L(2-5) unfolding follows_def by (intro exI [of _ "sv_vote sv # L"]) (simp add: outputs_decided_def)
qed

lemma follows_round:
  assumes "e_round s \<le> r" "follows G H K (s\<lparr>e_round := r\<rparr>) res"
  shows "follows G H K s res"
proof -
  have "seat_of (s\<lparr>e_round := r\<rparr>) = (seat_of s)\<lparr>a_round := r\<rparr>" by (simp add: seat_of_def height_def)
  then have "seat_step (cell_of G H) (g_me G) (seat_of s, K) (seat_of (s\<lparr>e_round := r\<rparr>), K)"
    using assms(1) seat_step.new_round [of "seat_of s" r] by (simp add: seat_of_def)
  with assms(2) show ?thesis unfolding follows_def by (blast intro: converse_rtranclp_into_rtranclp)
qed

lemma follows_from_frame: "core t = core s \<Longrightarrow> follows G H K t res \<Longrightarrow> follows G H K s res"
  unfolding follows_def by (metis seat_frame)

lemma sound_round: "sound G H K (s\<lparr>e_round := r\<rparr>) = sound G H K s"
  by (simp add: sound_def core_sound_def votes_authentic_def proposals_keyed_def)

lemma steady_round: "steady (s\<lparr>e_round := r\<rparr>) = steady s"
  by (simp add: steady_def low_def quiet_def height_def)

text \<open>What the recursive calls must satisfy.\<close>

definition accepts :: "('e, 'm, 's, 'p, 'k, 'c, 'st) config \<Rightarrow> byte set \<Rightarrow> (signed_vote \<Rightarrow> 'st engine \<Rightarrow> 'st engine \<times> engine_output list) \<Rightarrow> bool" where
  "accepts G H acc \<longleftrightarrow> (\<forall>K s sv. sound G H K s \<longrightarrow> low s \<longrightarrow> authentic G H (set K) sv \<longrightarrow> follows G H K s (acc sv s))"

lemma cast_follows:
  assumes "accepts G H acc" "seat_step (cell_of G H) (g_me G) (seat_of s, K) (seat_of t, K @ [sv_vote sv])"
    and "sound G H K t" "low t"
  shows "follows G H K s (cast_vote acc sv t)"
proof -
  have "follows G H (K @ [sv_vote sv]) t (acc sv t)"
    using assms(1,4) sound_grows [OF assms(3)] by (simp add: accepts_def authentic_def subset_insertI)
  from follows_vote [OF assms(2) this] show ?thesis by (simp add: cast_vote_def case_prod_beta)
qed

lemma own_vote_sel [simp]: "sv_vote (own_vote G ph h r b) = ballot ph h r b (g_me G)"
  by (simp add: own_vote_def sv_sign_def)

lemma cast_prepare_follows:
  assumes "accepts G H acc" "sound G H K s" "low s" "e_round s \<notin> e_sent_prepare s" "lock_allows (cell_of G H) K (seat_of s) b"
  shows "follows G H K s (cast_vote acc (own_vote G Prepare (height s) (e_round s) b)
    (s\<lparr>e_sent_prepare := insert (e_round s) (e_sent_prepare s)\<rparr>))"
proof (rule cast_follows [OF assms(1)])
  let ?t = "s\<lparr>e_sent_prepare := insert (e_round s) (e_sent_prepare s)\<rparr>"
  have h: "height ?t = height s" by (simp add: height_def)
  show "low ?t" using assms(3) by (simp add: low_def h)
  show "sound G H K ?t"
    using assms(2) by (simp add: sound_def core_sound_def votes_authentic_def proposals_keyed_def)
  show "seat_step (cell_of G H) (g_me G) (seat_of s, K) (seat_of ?t, K @ [sv_vote (own_vote G Prepare (height s) (e_round s) b)])"
    using seat_step.prepares [of "seat_of s" "cell_of G H" K b "g_me G"] assms(4,5) by (simp add: seat_of_def h)
qed

lemma check_prepared_follows:
  assumes "accepts G H acc" "sound G H K s" "low s"
  shows "follows G H K s (check_prepared acc G bh r s)"
proof (cases "bh = NIL \<or> r \<noteq> e_round s \<or> e_round s \<in> e_sent_commit s \<or> \<not> cert_ok G (collect_cert G Prepare bh s)")
  case False
  let ?c = "collect_cert G Prepare bh s"
  let ?t = "s\<lparr>e_locked_block := Some bh, e_locked_cert := Some ?c, e_sent_commit := insert (e_round s) (e_sent_commit s)\<rparr>"
  have h: "height ?t = height s" by (simp add: height_def)
  have "follows G H K s (cast_vote acc (own_vote G Commit (height s) (e_round s) bh) ?t)"
  proof (rule cast_follows [OF assms(1)])
    show "low ?t" using assms(3) by (simp add: low_def h)
    show "sound G H K ?t"
      using assms(2) by (simp add: sound_def core_sound_def votes_authentic_def proposals_keyed_def)
    have "quorum_backed (cell_of G H) K Prepare (height s) (e_round s) bh" using collected_backed [OF assms(2)] False by simp
    then show "seat_step (cell_of G H) (g_me G) (seat_of s, K) (seat_of ?t, K @ [sv_vote (own_vote G Commit (height s) (e_round s) bh)])"
      using seat_step.commits [of "seat_of s" bh "cell_of G H" K "g_me G"] False
      by (simp add: seat_of_def h) (simp add: collect_cert_def)
  qed
  with False show ?thesis by (simp add: check_prepared_def Let_def)
qed (auto simp: check_prepared_def Let_def steady_def intro!: follows_frame assms)

lemma reprepare_refines:
  assumes "accepts G H acc"
  shows "refines G H (reprepare_lock acc G)"
  unfolding refines_def
proof (intro allI impI)
  fix K s
  assume s: "sound G H K s" "steady s"
  show "follows G H K s (reprepare_lock acc G s)"
  proof (cases "\<exists>b. e_locked_block s = Some b \<and> e_round s \<notin> e_sent_prepare s \<and> bt_contains (e_proposals s) b")
    case True
    then obtain b where b: "e_locked_block s = Some b" "e_round s \<notin> e_sent_prepare s" "bt_contains (e_proposals s) b" by auto
    have "low s" using s(2) b(1) by (simp add: steady_def quiet_def)
    moreover have "lock_allows (cell_of G H) K (seat_of s) b" using b(1) by (auto simp: lock_allows_def seat_of_def split: option.splits)
    ultimately show ?thesis using cast_prepare_follows [OF assms s(1) _ b(2)] b by (simp add: reprepare_lock_def)
  next
    case False
    then have "reprepare_lock acc G s = (s, [])" by (auto simp: reprepare_lock_def split: option.splits)
    then show ?thesis using s by (simp add: follows_frame)
  qed
qed

lemma next_round_refines: "accepts G H acc \<Longrightarrow> refines G H (then_out (reprepare_lock acc G) (maybe_propose G))"
  by (intro refines_then reprepare_refines refines_silent silent_maybe_propose)

lemma next_round_follows:
  assumes "accepts G H acc" "sound G H K s" "steady s" "e_round s \<le> r"
  shows "follows G H K s (then_out (reprepare_lock acc G) (maybe_propose G) (s\<lparr>e_round := r\<rparr>))"
  by (rule follows_round [OF assms(4)])
     (use next_round_refines [OF assms(1)] assms(2,3) in \<open>simp add: refines_def sound_round steady_round\<close>)

lemma saturating_add_ge: "a \<le> saturating_add a (b :: 'a :: len word)"
  using unat_lt [of a] by (simp add: word_le_nat_alt unat_saturating_add del: unsigned_less)

lemma advance_refines: "accepts G H acc \<Longrightarrow> refines G H (advance_round acc G)"
  by (simp add: refines_def advance_round_def next_round_follows saturating_add_ge)

lemma round_failed_refines: "accepts G H acc \<Longrightarrow> refines G H (round_failed_by_votes acc G)"
  using advance_refines [of G H acc] by (simp add: refines_def round_failed_by_votes_def Let_def follows_frame)

lemma maybe_advance_refines:
  assumes "accepts G H acc"
  shows "refines G H (maybe_advance_round acc G)"
  unfolding refines_def
proof (intro allI impI)
  fix K s
  assume s: "sound G H K s" "steady s"
  let ?target = "rev (sort (map snd (highest_rounds G s))) ! (cp_f (g_params G) + 1 - 1)"
  let ?t = "bump_by RoundsSkipped (ucast (?target - e_round s)) (bump RoundJumps s)"
  show "follows G H K s (maybe_advance_round acc G s)"
  proof (cases "length (highest_rounds G s) < cp_f (g_params G) + 1 \<or> ?target \<le> e_round s")
    case False
    have t: "core ?t = core s" by simp
    have "follows G H K ?t (then_out (reprepare_lock acc G) (maybe_propose G) (?t\<lparr>e_round := ?target\<rparr>))"
    proof (rule next_round_follows [OF assms])
      show "sound G H K ?t" by (rule sound_frame [OF s(1) t]) simp
      show "steady ?t" using s(2) steady_frame [OF t] by simp
      show "e_round ?t \<le> ?target" using False coreD(2) [OF t] by (simp add: not_le less_imp_le)
    qed
    from follows_from_frame [OF t this] show ?thesis using False by (simp add: maybe_advance_round_def Let_def)
  next
    case True
    then have "maybe_advance_round acc G s = (s, [])" by (auto simp: maybe_advance_round_def Let_def)
    then show ?thesis using s by (simp add: follows_frame)
  qed
qed

lemma height_frame [simp]:
  "height (s\<lparr>e_prepares := a\<rparr>) = height s" "height (s\<lparr>e_commits := b\<rparr>) = height s" "height (s\<lparr>e_proposals := c\<rparr>) = height s"
  "height (bump t s) = height s" "height (tally_add t n s) = height s" "height (bump_by t n s) = height s"
  "height (s\<lparr>e_certified := d\<rparr>) = height s"
  by (simp_all add: height_def bump_def tally_add_def bump_by_def)

lemma store_sound:
  assumes "sound G H K s" "authentic G H (set K) sv"
  shows "sound G H K (store_vote sv s)"
  using assms by (auto simp: store_vote_def Let_def sound_def core_sound_def votes_authentic_def proposals_keyed_def split: phase.splits)

lemma store_seat: "seat_of (store_vote sv s) = seat_of s"
  by (simp add: store_vote_def Let_def seat_of_def height_def split: phase.splits option.splits)

lemma accept_body_accepts:
  assumes "accepts G H acc"
  shows "accepts G H (accept_vote_body acc G)"
  unfolding accepts_def
proof (intro allI impI)
  fix K s sv
  assume s: "sound G H K s" "low s" "authentic G H (set K) sv"
  show "follows G H K s (accept_vote_body acc G sv s)"
  proof (cases rule: accept_body_cases [of s G sv])
    case (ignored t)
    then show ?thesis using s(1,2) by (simp add: follows_frame steady_def)
  next
    case (taken t slash)
    let ?s = "store_vote sv t"
    have t: "sound G H K ?s" "low ?s"
      using store_sound [OF sound_frame [OF s(1) taken(1)] s(3)] taken(2) s(2) store_seat [of sv t] coreD(1) [OF taken(1)]
      by (auto simp: low_def seat_of_def)
    have "follows G H K ?s (vote_transitions acc G (sv_vote sv) ?s)"
      unfolding vote_transitions_def
      by (rule follows_then)
         (auto intro: check_prepared_follows check_committed_follows refines_then round_failed_refines maybe_advance_refines assms t
            split: phase.splits)
    then have "follows G H K s (vote_transitions acc G (sv_vote sv) ?s)"
      using store_seat [of sv t] seat_frame [OF taken(1)] by (simp add: follows_def)
    then show ?thesis
      using taken(4-6) by (auto simp: taken(7) follows_def outputs_decided_def)
  qed
qed

lemma accept_fuel_accepts: "accepts G H (accept_vote_fuel n G)"
proof (induction n)
  case 0
  show ?case by (simp add: accepts_def follows_frame steady_def)
next
  case (Suc n)
  from accept_body_accepts [OF Suc] show ?case by (simp add: accepts_def)
qed

lemma accept_vote_accepts: "accepts G H (accept_vote G)"
  unfolding accept_vote_def by (rule accept_fuel_accepts)

section \<open>The handlers\<close>

lemma follows_refl: "sound G H K s \<Longrightarrow> steady s \<Longrightarrow> follows G H K s (s, [])"
  by (simp add: follows_frame)

text \<open>A call made after an update that leaves the core and the queue.\<close>

lemma follows_after:
  assumes "core t = core s" "e_exec_queue t = e_exec_queue s" "sound G H K s" "low s"
    and "\<And>t. core t = core s \<Longrightarrow> sound G H K t \<Longrightarrow> low t \<Longrightarrow> follows G H K t (f t)"
  shows "follows G H K s (f t)"
proof (rule follows_from_frame [OF assms(1)])
  show "follows G H K t (f t)"
    by (rule assms(5) [OF assms(1)])
       (use assms(3,4) sound_frame [OF assms(3,1)] assms(2) coreD(1) [OF assms(1)] in \<open>auto simp: low_def\<close>)
qed

lemma follows_tally:
  assumes "sound G H K s" "low s"
  shows "follows G H K s (bump t s, [])" "follows G H K s (tally_add t n s, [])"
  using assms by (simp_all add: follows_frame steady_def)

lemma prepare_nil_follows:
  assumes "sound G H K s" "low s"
  shows "follows G H K s (prepare_nil G s)"
  using assms cast_prepare_follows [OF accept_vote_accepts assms, of NIL]
  by (auto simp: prepare_nil_def lock_allows_def steady_def intro: follows_refl)

lemma on_timeout_follows:
  assumes "sound G H K s" "low s"
  shows "follows G H K s (on_timeout G s)"
  using prepare_nil_follows [OF assms] advance_refines [OF accept_vote_accepts, of G H] assms
  by (simp add: on_timeout_def refines_def steady_def)

lemma lock_free: "e_locked_block s = None \<or> e_locked_block s = Some b \<Longrightarrow> lock_allows A K (seat_of s) b"
  by (auto simp: lock_allows_def seat_of_def split: option.splits)

lemma prepare_min_follows:
  assumes "sound G H K s" "low s"
  shows "follows G H K s (prepare_round0_min G s)"
proof (cases "e_round s \<noteq> 0 \<or> 0 \<in> e_sent_prepare s")
  case True
  then show ?thesis using assms by (auto simp: prepare_round0_min_def steady_def intro: follows_refl)
next
  case False
  have "follows G H K s (cast_vote (accept_vote G) (own_vote G Prepare (height s) 0 bh) (s\<lparr>e_sent_prepare := insert 0 (e_sent_prepare s)\<rparr>))"
    if "e_locked_block s = None \<or> e_locked_block s = Some bh" for bh
    using cast_prepare_follows [OF accept_vote_accepts assms _ lock_free [OF that]] False by simp
  then show ?thesis
    using False assms by (auto simp: prepare_round0_min_def steady_def intro: follows_refl split: option.splits)
qed

lemma tick_window_follows:
  assumes "sound G H K s" "low s"
  shows "follows G H K s (tick_round0_window G s)"
proof (cases "e_round s \<noteq> 0 \<or> 0 \<in> e_sent_prepare s \<or> e_round0_window s = None")
  case True
  then show ?thesis using follows_refl [OF assms(1)] assms(2) by (auto simp: tick_round0_window_def steady_def)
next
  case False
  then obtain w where w: "e_round0_window s = Some w" by auto
  let ?t = "s\<lparr>e_round0_window := Some (w + 1)\<rparr>"
  have "follows G H K s (prepare_round0_min G ?t)"
    by (rule follows_after [OF _ _ assms]) (simp_all add: prepare_min_follows)
  then show ?thesis
    using False w assms by (auto simp: tick_round0_window_def Let_def steady_def intro!: follows_frame)
qed

lemma rank_follows:
  assumes "sound G H K s" "low s"
  shows "follows G H K s (rank_round0 G proposer ticket bh h s)"
proof -
  define t where "t = (let t = (if bt_contains (e_round0_tickets s) proposer then s else s\<lparr>e_round0_tickets := bt_insert proposer (ticket, bh) (e_round0_tickets s)\<rparr>)
    in if e_round0_window t = None then t\<lparr>e_round0_window := Some 0\<rparr> else t)"
  have t: "core t = core s" "e_exec_queue t = e_exec_queue s" by (simp_all add: t_def Let_def)
  have "follows G H K s (prepare_round0_min G t)" by (rule follows_after [OF t assms]) (rule prepare_min_follows)
  moreover have "follows G H K s (t, [])" using assms t by (simp add: follows_frame steady_def)
  ultimately show ?thesis unfolding rank_round0_def Let_def t_def by simp
qed

text \<open>Certificates that arrive carry authentic votes.\<close>

definition cert_authentic :: "('e, 'm, 's, 'p, 'k, 'c, 'st) config \<Rightarrow> byte set \<Rightarrow> vote set \<Rightarrow> certificate \<Rightarrow> bool" where
  "cert_authentic G H K c \<longleftrightarrow> (\<forall>sv \<in> set (c_votes c). authentic G H K sv)"

lemma follows_more:
  assumes "follows G H K s r" "core t = core (fst r)" "e_exec_queue t = e_exec_queue (fst r)"
  shows "follows G H K s (t, snd r)"
  using assms(1) unfolding follows_def fst_conv snd_conv
  by (metis assms(2,3) order_refl seat_frame sound_frame steady_frame)

lemma adopt_follows:
  assumes "sound G H K s" "low s" "cert_authentic G H (set K) c"
  shows "follows G H K s (adopt_commit_cert G c s)"
proof (cases "c_height c = height s \<and> c_phase c = Commit \<and> cert_ok G c")
  case True
  let ?t = "s\<lparr>e_certified := bt_insert (height s) c (e_certified s)\<rparr>"
  have "decided (cell_of G H) K (height s) (c_block c)"
    using cert_is_backed [of G c H K] True assms(3) by (auto simp: decided_def cert_authentic_def)
  then have fin: "follows G H K t (finalize G (c_block c) t)" if "core t = core s" "sound G H K t" "low t" for t
    using finalize_follows [OF that(2,3)] coreD(1) [OF that(1)] by simp
  have "follows G H K s (finalize G (c_block c) ?t)"
    by (rule follows_after [OF _ _ assms(1,2) fin]) simp_all
  then have "follows G H K s (bump CcParked (fst (finalize G (c_block c) ?t)), snd (finalize G (c_block c) ?t))"
    by (rule follows_more) simp_all
  with \<open>follows G H K s (finalize G (c_block c) ?t)\<close> True show ?thesis
    by (auto simp: adopt_commit_cert_def Let_def case_prod_beta)
next
  case False
  then show ?thesis using assms by (auto simp: adopt_commit_cert_def Let_def intro: follows_tally)
qed

lemma on_commit_cert_follows:
  assumes "sound G H K s" "low s" "cert_authentic G H (set K) c"
  shows "follows G H K s (on_commit_cert G c s)"
  using adopt_follows [OF assms] follows_more [OF adopt_follows [OF assms], of "bump CertTaken (fst (adopt_commit_cert G c s))"]
  by (auto simp: on_commit_cert_def case_prod_beta)

definition block_authentic :: "('e, 'm, 's, 'p, 'k, 'c, 'st) config \<Rightarrow> byte set \<Rightarrow> vote set \<Rightarrow> block \<Rightarrow> bool" where
  "block_authentic G H K b \<longleftrightarrow> pred_option (cert_authentic G H K) (b_last_commit b) \<and> pred_option (cert_authentic G H K) (b_pol b)"

lemma adopt_parent_follows:
  assumes "sound G H K s" "low s" "block_authentic G H (set K) b"
  shows "follows G H K s (adopt_certified_parent G b s)"
  using assms adopt_follows [OF assms(1,2)]
  by (auto simp: adopt_certified_parent_def block_authentic_def steady_def intro: follows_refl split: option.splits)

lemma finalize_out: "snd (finalize G bh s) = [] \<Longrightarrow> height (fst (finalize G bh s)) = height s"
proof (cases "bt_get (e_proposals s) bh")
  case None
  then show ?thesis using finalize_parks(1) [OF None, of G] core_sel(1) [of "fst (finalize G bh s)"] by simp
next
  case (Some b)
  assume "snd (finalize G bh s) = []"
  then show ?thesis using finalize_commits(4) [OF Some, of G] by simp
qed

lemma adopt_parent_out:
  assumes "snd (adopt_certified_parent G b s) = []"
  shows "height (fst (adopt_certified_parent G b s)) = height s"
proof -
  have "snd (adopt_commit_cert G c s) = [] \<Longrightarrow> height (fst (adopt_commit_cert G c s)) = height s" for c
    using finalize_out [of G "c_block c" "s\<lparr>e_certified := bt_insert (height s) c (e_certified s)\<rparr>"]
    by (auto simp: adopt_commit_cert_def Let_def case_prod_beta split: if_splits)
  with assms show ?thesis by (auto simp: adopt_certified_parent_def split: option.splits if_splits)
qed

lemma follows_seat: "seat_of t = seat_of s \<Longrightarrow> follows G H K t res \<Longrightarrow> follows G H K s res"
  unfolding follows_def by metis

text \<open>One call after another that produced no output.\<close>

lemma follows_next:
  assumes "follows G H K s r" "snd r = []" "\<And>K'. set K \<subseteq> set K' \<Longrightarrow> sound G H K' (fst r) \<Longrightarrow> steady (fst r) \<Longrightarrow> follows G H K' (fst r) q"
  shows "follows G H K s q"
proof -
  obtain L where L: "seat_steps G H (seat_of s, K) (seat_of (fst r), K @ L)" "sound G H (K @ L) (fst r)" "steady (fst r)" "set L = {}"
    using assms(1,2) by (auto simp: follows_def)
  then have "follows G H K (fst r) q" using assms(3) [of K] by simp
  then obtain M where "seat_steps G H (seat_of (fst r), K) (seat_of (fst q), K @ M)" "sound G H (K @ M) (fst q)" "steady (fst q)"
    "sv_vote ` set (votes_out (snd q)) = set M" "outputs_decided G H (K @ M) (snd q)" by (auto simp: follows_def)
  moreover have "seat_steps G H (seat_of s, K) (seat_of (fst r), K)" using L(1,4) by simp
  ultimately show ?thesis unfolding follows_def by (intro exI [of _ M]) auto
qed

lemma on_skeleton_follows:
  assumes "sound G H K s" "low s" "block_authentic G H (set K) b"
  shows "follows G H K s (on_skeleton G b s)"
proof (cases "snd (adopt_certified_parent G b s) = []")
  case False
  then show ?thesis using adopt_parent_follows [OF assms] by (simp add: on_skeleton_def case_prod_beta)
next
  case True
  note adopt = adopt_parent_follows [OF assms]
  let ?s = "fst (adopt_certified_parent G b s)"
  let ?t = "note_certified_height G b ?s"
  have low: "low ?s" using adopt_parent_out [OF True] assms(2) by (simp add: low_def)
  have eq: "on_skeleton G b s = (let t = ?t; h = height t
     in if e_sortition t = None \<or> e_round t \<noteq> 0 \<or> 0 \<in> e_sent_prepare t then (t, [])
        else if \<not> on_line G h (hd_proposer (b_header b)) \<or> hd_height (b_header b) \<noteq> h \<or>
                hd_parent (b_header b) \<noteq> ch_head (e_chain t) \<or> hd_epoch (b_header b) \<noteq> g_epoch G \<or>
                \<not> last_commit_matches (g_crypto G) b \<or> \<not> valid_last_commit G b
        then (t, [])
        else case verify_witness G b t of None \<Rightarrow> (t, []) | Some ticket \<Rightarrow> rank_round0 G (hd_proposer (b_header b)) ticket (hash_of G b) h t)"
    using True by (simp add: on_skeleton_def case_prod_beta)
  show ?thesis
  proof (rule follows_next [OF adopt True])
    fix K' assume s: "sound G H K' ?s" "steady ?s"
    have "follows G H K' ?s (rank_round0 G p t h n ?t)" for p t h n
      by (rule follows_after [OF _ _ s(1) low]) (simp_all add: rank_follows)
    moreover have "follows G H K' ?s (?t, [])" using s by (simp add: follows_frame)
    ultimately show "follows G H K' ?s (on_skeleton G b s)" unfolding eq Let_def by (simp split: option.splits)
  qed
qed

lemma unlock_allows:
  assumes "unlocks_us G b s" "block_authentic G H (set K) b"
  shows "lock_allows (cell_of G H) K (seat_of s) (hash_of G b)"
proof -
  obtain held pol where c: "e_locked_cert s = Some held" "b_pol b = Some pol"
    "pol_shape_releases pol (hash_of G b) (height s) (c_round held) (e_round s)" "cert_ok G pol"
    using assms(1) by (auto simp: unlocks_us_def split: option.splits)
  have "quorum_backed (cell_of G H) K Prepare (height s) (c_round pol) (hash_of G b)"
    using cert_is_backed [OF c(4), of H K] assms(2) c(2,3) by (simp add: block_authentic_def cert_authentic_def pol_shape_releases_def)
  then show ?thesis using c(1,3) by (auto simp: lock_allows_def seat_of_def pol_shape_releases_def split: option.splits)
qed

lemma hold_sound:
  assumes "sound G H K s" "hd_height (b_header b) = height s"
  shows "sound G H K (s\<lparr>e_proposals := bt_insert (hash_of G b) b (e_proposals s)\<rparr>)"
  using assms set_bt_insert_subset [of "hash_of G b" b "e_proposals s"]
  by (auto simp: sound_def core_sound_def votes_authentic_def proposals_keyed_def)

lemma hold_seat: "seat_of (s\<lparr>e_proposals := p\<rparr>) = seat_of s"
  by (simp add: seat_of_def split: option.splits)

lemma pending_decided:
  assumes "sound G H K s" "bt_get (e_pending_finalize s) h = Some bh"
  shows "decided (cell_of G H) K h bh"
  using bt_get_mem [OF assms(2)] assms(1) by (auto simp: sound_def core_sound_def)

lemma vote_on_proposal_follows:
  assumes "sound G H K s" "low s" "block_authentic G H (set K) b" "hd_height (b_header b) = height s"
  shows "follows G H K s (vote_on_proposal G b proposer_ok ticket s)"
proof -
  let ?bh = "hash_of G b"
  define t where "t = (if bt_contains (e_proposals s) ?bh then s else s\<lparr>e_proposals := bt_insert ?bh b (e_proposals s)\<rparr>)"
  have t: "sound G H K t" "seat_of t = seat_of s" "low t" "e_locked_block t = e_locked_block s" "height t = height s"
    "e_round t = e_round s" "e_sent_prepare t = e_sent_prepare s"
    using assms(1,2,4) hold_sound [of G H K s b] by (simp_all add: t_def hold_seat low_def)
  have fin: "follows G H K s (finalize G ?bh t)" if "bt_get (e_pending_finalize t) (height s) = Some ?bh"
    by (rule follows_seat [OF t(2) finalize_follows [OF t(1,3)]]) (use pending_decided [OF t(1) that] t(5) in simp)
  have rank: "follows G H K s (rank_round0 G p k ?bh h t)" for p k h
    by (rule follows_seat [OF t(2) rank_follows [OF t(1,3)]])
  have tally: "follows G H K s (tally_add k 1 t, [])" "follows G H K s (t, [])" "follows G H K s (tally_add k 1 s, [])" for k
    using follows_seat [OF t(2) follows_tally(2) [OF t(1,3)]] follows_seat [OF t(2) follows_refl [OF t(1)]] t(3)
      follows_tally(2) [OF assms(1,2)] by (auto simp: steady_def)
  have cast: "follows G H K s (cast_vote (accept_vote G) (own_vote G Prepare (height s) (e_round t) ?bh)
      (t\<lparr>e_sent_prepare := insert (e_round t) (e_sent_prepare t)\<rparr>))"
    if "e_round t \<notin> e_sent_prepare t" "e_locked_block s = None \<or> e_locked_block s = Some ?bh \<or> unlocks_us G b s"
  proof (rule follows_seat [OF t(2)])
    have "lock_allows (cell_of G H) K (seat_of t) ?bh"
      unfolding t(2) using that(2) lock_free unlock_allows [OF _ assms(3)] by blast
    from cast_prepare_follows [OF accept_vote_accepts t(1,3) that(1) this]
    show "follows G H K t (cast_vote (accept_vote G) (own_vote G Prepare (height s) (e_round t) ?bh)
      (t\<lparr>e_sent_prepare := insert (e_round t) (e_sent_prepare t)\<rparr>))" by (simp add: t(5))
  qed
  show ?thesis
    unfolding vote_on_proposal_def Let_def t_def [symmetric]
    using fin rank tally cast t(4) by (auto split: option.splits)
qed

lemma refuse_follows:
  assumes "sound G H K s" "low s" "block_authentic G H (set K) b"
  shows "follows G H K s (refuse_proposal G b links s)"
proof -
  have "follows G H K s (adopt_certified_parent G b (note_certified_height G b (tally_add k 1 s)))" for k
    by (rule follows_after [OF _ _ assms(1,2)]) (simp_all add: adopt_parent_follows assms(3))
  then show ?thesis using follows_tally(2) [OF assms(1,2)] by (simp add: refuse_proposal_def Let_def)
qed

lemma on_propose_follows:
  assumes "sound G H K s" "low s" "block_authentic G H (set K) b"
  shows "follows G H K s (on_propose G b shards s)"
proof -
  let ?t = "note_valid_value G b s"
  note after = follows_after [of ?t s, OF _ _ assms(1,2)]
  have refuse: "follows G H K s (refuse_proposal G b links ?t)" for links
    by (rule after) (simp_all add: refuse_follows assms(3))
  have tally: "follows G H K s (tally_add k 1 ?t, [])" for k
    by (rule after) (simp_all add: follows_tally)
  have vote: "follows G H K s (vote_on_proposal G b ok ticket ?t)" if "hd_height (b_header b) = height s" for ok ticket
  proof (rule after)
    fix t assume t: "core t = core s" "sound G H K t" "low t"
    show "follows G H K t (vote_on_proposal G b ok ticket t)"
      by (rule vote_on_proposal_follows [OF t(2,3) assms(3)]) (simp add: that coreD(1) [OF t(1)])
  qed simp_all
  show ?thesis
    unfolding on_propose_def Let_def using refuse tally vote by (auto split: option.splits)
qed

lemma on_body_follows:
  assumes "sound G H K s" "low s"
  shows "follows G H K s (on_body G b s)"
proof (cases "(bt_get (e_pending_finalize s) (height s) \<noteq> Some (hash_of G b) \<and> e_locked_block s \<noteq> Some (hash_of G b)) \<or>
    hd_height (b_header b) \<noteq> height s \<or> \<not> verify_structure (g_crypto G) b")
  case True
  then show ?thesis using follows_tally(1) [OF assms] by (auto simp: on_body_def Let_def)
next
  case False
  let ?b = "bump BodyTaken s"
  let ?t = "?b\<lparr>e_proposals := bt_insert (hash_of G b) b (e_proposals ?b)\<rparr>"
  have "sound G H K ?b" by (rule sound_frame [OF assms(1)]) simp_all
  then have t: "sound G H K ?t" using False hold_sound [of G H K ?b b] by simp
  have seat: "seat_of ?t = seat_of s" by (simp add: hold_seat seat_frame [of ?b s])
  have "low ?t" using assms(2) by (simp add: low_def)
  have "follows G H K s (finalize G (hash_of G b) ?t)" if "bt_get (e_pending_finalize ?t) (height s) = Some (hash_of G b)"
    by (rule follows_seat [OF seat finalize_follows [OF t \<open>low ?t\<close>]]) (use pending_decided [OF t that] in simp)
  moreover have "follows G H K s (?t, [])" by (rule follows_seat [OF seat follows_refl [OF t]]) (use \<open>low ?t\<close> in \<open>simp add: steady_def\<close>)
  ultimately show ?thesis using False by (auto simp: on_body_def Let_def)
qed

section \<open>State synchronization\<close>

text \<open>A valid execution vote of an honest seat attests a decided block.\<close>

definition exec_authentic :: "('e, 'm, 's, 'p, 'k, 'c, 'st) config \<Rightarrow> byte set \<Rightarrow> vote list \<Rightarrow> exec_vote \<Rightarrow> bool" where
  "exec_authentic G H K v \<longleftrightarrow> (xv_voter v \<in> H \<and> (\<exists>vk. vget (g_verifiers G) (xv_voter v) = Some vk \<and> xv_verify (g_crypto G) v vk) \<longrightarrow>
     decided (cell_of G H) K (xv_height v) (xv_head v))"

lemma exec_cert_decided:
  assumes "quorums_meet (cell_of G H)" "xc_verify (g_crypto G) c (cp_quorum (g_params G)) (g_verifiers G)"
    and "\<forall>v \<in> set (xc_votes c). exec_authentic G H K v"
  shows "decided (cell_of G H) K (xc_height c) (xc_head c)"
proof -
  let ?Q = "xv_voter ` set (xc_votes c)"
  have v: "list_all (exec_counts (g_crypto G) c (g_verifiers G)) (xc_votes c)" using assms(2) by (simp add: xc_verify_iff)
  have "inj_on unat ?Q" by (simp add: inj_on_def word_unat_eq_iff)
  then have "card ?Q = card (exec_index ` set (xc_votes c))"
    using card_image [of unat ?Q] by (simp add: image_image)
  then have q: "?Q \<subseteq> seats (cell_of G H)" "y_quorum (cell_of G H) \<le> card ?Q"
    using exec_voters [OF assms(2)] by auto
  obtain i where "i \<in> ?Q" "i \<in> H" using quorums_share_honest [OF assms(1) q(1) q(1) q(2) q(2)] by auto
  then obtain x where x: "x \<in> set (xc_votes c)" "xv_voter x \<in> H" by auto
  then show ?thesis
    using assms(3) v by (fastforce simp: exec_authentic_def exec_counts_def list_all_iff vget_def)
qed

lemma park_follows:
  assumes "sound G H K (fst q)" "\<forall>c \<in> set cs. cert_authentic G H (set K) c"
  shows "sound G H K (fst (fold (park_certificate G) cs q)) \<and> seat_of (fst (fold (park_certificate G) cs q)) = seat_of (fst q) \<and>
    quiet (fst (fold (park_certificate G) cs q)) = quiet (fst q)"
  using assms
proof (induction cs arbitrary: q)
  case (Cons c cs)
  obtain s n where q: "q = (s, n)" by fastforce
  let ?s = "fst (park_certificate G c q)"
  have "decided (cell_of G H) K (c_height c) (c_block c)" if "c_phase c = Commit" "cert_ok G c"
    using cert_is_backed [OF that(2), of H K] Cons.prems(2) that(1) by (auto simp: decided_def cert_authentic_def)
  moreover have "sound G H K (bump CcVerify s)" by (rule sound_frame [of G H K s]) (use Cons.prems(1) q in simp_all)
  moreover have "sound G H K (s\<lparr>e_pending_finalize := bt_insert (c_height c) (c_block c) (e_pending_finalize s),
      e_certified := bt_insert (c_height c) c (e_certified s)\<rparr>)" if "decided (cell_of G H) K (c_height c) (c_block c)"
    using Cons.prems(1) q that set_bt_insert_subset [of "c_height c" "c_block c" "e_pending_finalize s"]
    by (auto simp: sound_def core_sound_def votes_authentic_def proposals_keyed_def)
  ultimately have "sound G H K ?s" using Cons.prems(1) by (simp add: park_certificate_def q)
  moreover have "seat_of ?s = seat_of s \<and> quiet ?s = quiet s"
    using seat_frame [of "bump CcVerify s" s] quiet_core [of "bump CcVerify s" s]
    by (auto simp: park_certificate_def q) (simp_all add: seat_of_def height_def quiet_def split: option.splits)
  ultimately show ?case using Cons.IH [of "park_certificate G c q"] Cons.prems(2) by (simp add: q)
qed simp

definition no_rollback :: "exec_certificate \<Rightarrow> 'st engine \<Rightarrow> bool" where
  "no_rollback c s \<longleftrightarrow> e_diverged s = None \<or> height s \<le> xc_height c"

lemma saturating_above: "h \<le> a \<Longrightarrow> h \<noteq> - 1 \<Longrightarrow> h < saturating_add a 1" for a :: "'w::len word"
  using word_less_plus_1 [of h] unat_lt [of "h + 1"] unat_lt [of a]
  by (simp add: word_less_nat_alt word_le_nat_alt unat_saturating_add del: unsigned_less)

lemma on_sync_resp_follows:
  assumes "sound G H K s" "low s" "quorums_meet (cell_of G H)" "\<forall>v \<in> set (xc_votes c). exec_authentic G H K v"
    and "\<forall>c \<in> set over. cert_authentic G H (set K) c" "no_rollback c s"
  shows "follows G H K s (on_sync_resp G c over snapshot s)"
proof (cases "(xc_height c < height s \<and> e_diverged s = None) \<or> \<not> xc_verify (g_crypto G) c (cp_quorum (g_params G)) (g_verifiers G) \<or>
    sm_restore (g_machine G) snapshot = None \<or> sm_state_root (g_machine G) (the (sm_restore (g_machine G) snapshot)) \<noteq> xc_state_root c")
  case True
  then show ?thesis
    using follows_tally(1) [OF assms(1,2)] follows_refl [OF assms(1)] assms(2)
    by (auto simp: on_sync_resp_def steady_def split: option.splits)
next
  case False
  then obtain st where st: "sm_restore (g_machine G) snapshot = Some st" "sm_state_root (g_machine G) st = xc_state_root c" by auto
  define s1 where "s1 = install_snapshot c snapshot st s"
  define q where "q = fold (park_certificate G) over (s1, 0)"
  define s2 where "s2 = (bump_by SyncedCerts (snd q) (fst q))
    \<lparr>e_max_seen_height := max (e_max_seen_height (bump_by SyncedCerts (snd q) (fst q))) (height (bump_by SyncedCerts (snd q) (fst q)))\<rparr>"
  have eq: "on_sync_resp G c over snapshot s = (fst (maybe_request_body G s2), Committed (xc_height c) (xc_head c) # snd (maybe_request_body G s2))"
    using False st by (auto simp: on_sync_resp_def s1_def q_def s2_def case_prod_beta Let_def)
  have c1: "core s1 = fresh_core (saturating_add (xc_height c) 1) []" "e_exec_queue s1 = []"
    by (simp_all add: s1_def install_snapshot_def Let_def) (simp_all add: core_def fresh_core_def reset_round_state_def height_def)
  have up: "height s < saturating_add (xc_height c) 1"
    by (rule saturating_above) (use assms(2,6) False in \<open>auto simp: no_rollback_def low_def\<close>)
  have s1: "sound G H K s1" using c1 by (simp add: sound_def core_sound_def votes_authentic_def proposals_keyed_def queue_sound_def fresh_core_def)
  have seat1: "seat_of s1 = \<lparr>a_height = saturating_add (xc_height c) 1, a_round = 0, a_sentp = {}, a_sentc = {}, a_lock = None\<rparr>"
    using c1(1) core_sel [of s1] by (simp add: seat_of_def fresh_core_def)
  have step: "seat_step (cell_of G H) (g_me G) (seat_of s, K) (seat_of s1, K)"
    unfolding seat1 using up by (intro seat_step.new_height) (simp add: seat_of_def)
  have q: "sound G H K (fst q)" "seat_of (fst q) = seat_of s1" "quiet (fst q)"
    using park_follows [of G H K "(s1, 0)" over] s1 assms(5) quiet_fresh [OF c1(1)] by (simp_all add: q_def)
  have c2: "core s2 = core (fst q)" "e_exec_queue s2 = e_exec_queue (fst q)" by (simp_all add: s2_def)
  note req = silentD [OF silent_requests(2), of G s2]
  let ?t = "fst (maybe_request_body G s2)"
  have t: "core ?t = core (fst q)" "e_exec_queue ?t = e_exec_queue (fst q)" using req c2 by simp_all
  have "seat_of ?t = seat_of s1" using seat_frame [OF t(1)] q(2) by simp
  moreover have "sound G H K ?t" by (rule sound_frame [OF q(1) t(1)]) (simp add: t(2))
  moreover have "steady ?t" using q(3) quiet_core [OF t(1)] by (simp add: steady_def)
  moreover have "decided (cell_of G H) K (xc_height c) (xc_head c)" using exec_cert_decided [OF assms(3) _ assms(4)] False by simp
  ultimately show ?thesis
    using step req unfolding eq follows_def by (intro exI [of _ "[]"]) (simp add: outputs_decided_def)
qed

section \<open>Every input\<close>

text \<open>The signatures an input carries.\<close>

definition opt_votes :: "certificate option \<Rightarrow> signed_vote set" where
  "opt_votes c = (case c of None \<Rightarrow> {} | Some c \<Rightarrow> set (c_votes c))"

primrec input_votes :: "engine_input \<Rightarrow> signed_vote set" where
  "input_votes Tick = {}"
| "input_votes (InPropose b shards) = opt_votes (b_last_commit b) \<union> opt_votes (b_pol b)"
| "input_votes (InSkeleton b) = opt_votes (b_last_commit b) \<union> opt_votes (b_pol b)"
| "input_votes (InVote sv) = {sv}"
| "input_votes (InReveal r) = {}"
| "input_votes (InExecVote v) = {}"
| "input_votes Timeout = {}"
| "input_votes (InSyncReq peer h root) = {}"
| "input_votes (InCommitCert c) = set (c_votes c)"
| "input_votes (InNeedBody peer b) = {}"
| "input_votes (InBody b) = {}"
| "input_votes (InSyncResp c over snapshot) = (\<Union>c \<in> set over. set (c_votes c))"

definition input_execs :: "engine_input \<Rightarrow> exec_vote set" where
  "input_execs inp = (case inp of InSyncResp c over snapshot \<Rightarrow> set (xc_votes c) | _ \<Rightarrow> {})"

definition keeps_height :: "engine_input \<Rightarrow> 'st engine \<Rightarrow> bool" where
  "keeps_height inp s = (case inp of InSyncResp c over snapshot \<Rightarrow> no_rollback c s | _ \<Rightarrow> True)"

lemma block_authenticI: "\<forall>sv \<in> opt_votes (b_last_commit b) \<union> opt_votes (b_pol b). authentic G H K sv \<Longrightarrow> block_authentic G H K b"
  by (auto simp: block_authentic_def cert_authentic_def opt_votes_def split: option.splits)

lemma refinesD: "refines G H f \<Longrightarrow> sound G H K s \<Longrightarrow> low s \<Longrightarrow> follows G H K s (f s)"
  by (simp add: refines_def steady_def)

lemma silent_then_follows:
  assumes "silent f" "sound G H K s" "low s" "\<And>t. sound G H K t \<Longrightarrow> low t \<Longrightarrow> follows G H K t (g t)"
  shows "follows G H K s (then_out f g s)"
proof -
  let ?t = "fst (f s)"
  have t: "core ?t = core s" "e_exec_queue ?t = e_exec_queue s" using silentD [OF assms(1), of s] by simp_all
  have "follows G H K s (g ?t)" by (rule follows_after [OF t assms(2,3)]) (rule assms(4))
  then show ?thesis
    using silentD(3-5) [OF assms(1), of s] by (simp add: follows_def then_out_def case_prod_beta outputs_decided_def)
qed

lemma step_follows:
  assumes "sound G H K s" "low s" "quorums_meet (cell_of G H)" "keeps_height inp s"
    and "\<forall>sv \<in> input_votes inp. authentic G H (set K) sv" "\<forall>v \<in> input_execs inp. exec_authentic G H K v"
  shows "follows G H K s (step G inp s)"
proof (cases inp)
  case Tick
  have rest: "refines G H (then_out (maybe_request_sync G) (maybe_request_body G))"
    by (intro refines_then refines_silent silent_requests)
  have "follows G H K s (then_out (maybe_propose G) (then_out (tick_round0_window G) (then_out (maybe_request_sync G) (maybe_request_body G))) s)"
    by (rule silent_then_follows [OF silent_maybe_propose assms(1,2)]) (intro follows_then tick_window_follows rest)
  then show ?thesis by (simp add: Tick)
next
  case (InPropose b shards)
  then show ?thesis using on_propose_follows [OF assms(1,2) block_authenticI] assms(5) by simp
next
  case (InSkeleton b)
  then show ?thesis using on_skeleton_follows [OF assms(1,2) block_authenticI] assms(5) by simp
next
  case (InVote sv)
  then show ?thesis using accept_vote_accepts [of G H] assms(1,2,5) by (simp add: accepts_def)
next
  case (InReveal r)
  then show ?thesis using refinesD [OF refines_executes [OF on_reveal_executes] assms(1,2)] by simp
next
  case (InExecVote v)
  then show ?thesis using refinesD [OF refines_executes [OF on_exec_vote_executes] assms(1,2)] by simp
next
  case Timeout
  then show ?thesis using on_timeout_follows [OF assms(1,2)] by simp
next
  case (InSyncReq peer h root)
  then show ?thesis using refinesD [OF refines_silent [OF silent_sync_req] assms(1,2)] by simp
next
  case (InCommitCert c)
  then show ?thesis using on_commit_cert_follows [OF assms(1,2)] assms(5) by (simp add: cert_authentic_def)
next
  case (InNeedBody peer b)
  then show ?thesis using refinesD [OF refines_silent [OF silent_requests(3)] assms(1,2)] by simp
next
  case (InBody b)
  then show ?thesis using on_body_follows [OF assms(1,2)] by simp
next
  case (InSyncResp c over snapshot)
  then show ?thesis
    using on_sync_resp_follows [OF assms(1-3), of c over snapshot] assms(4-6)
    by (simp add: keeps_height_def input_execs_def cert_authentic_def)
qed

end
