(* ===== verification/Taxis_Agreement.thy ===== *)
theory Taxis_Agreement
  imports Taxis_Refinement
begin

text \<open>
  A cell of validators running the engine of \<open>consensus.rs\<close>. The honest ones process inputs one at a time, in
  any order and from any peer; nothing is assumed of the other validators or of the network except that valid
  signatures of honest validators are on messages they sent. Two honest validators never commit different
  blocks at one height, and no honest validator signs two votes that would convict it of equivocation.
\<close>

record 'st network =
  n_engines :: "byte \<Rightarrow> 'st engine"
  n_votes :: "vote set"
  n_execs :: "(u64 \<times> byte list \<times> byte list \<times> byte) set"
  n_commits :: "(byte \<times> u64 \<times> byte list) set"

text \<open>The methods of the engine that a driver calls besides \<open>step\<close>.\<close>

inductive driver_call :: "('e, 'm, 's, 'p, 'k, 'c, 'st) config \<Rightarrow> 'st engine \<Rightarrow> 'st engine \<Rightarrow> bool" for G where
  "driver_call G s (fst (submit G tx s))"
| "driver_call G s (enable_sortition secret roots base s)"
| "driver_call G s (fst (set_reward_per_block G reward s))"
| "driver_call G s (note_skeleton_ask served s)"
| "driver_call G s (note_shard_ask served s)"
| "driver_call G s (note_shard_taken s)"
| "driver_call G s (note_shard_sent s)"

definition exec_content :: "exec_vote \<Rightarrow> u64 \<times> byte list \<times> byte list \<times> byte" where
  "exec_content v = (xv_height v, xv_state_root v, xv_head v, xv_voter v)"

text \<open>An input in which every valid signature of an honest validator is on something it sent.\<close>

definition deliverable :: "('e, 'm, 's, 'p, 'k, 'c, 'st) config \<Rightarrow> byte set \<Rightarrow> 'st network \<Rightarrow> engine_input \<Rightarrow> bool" where
  "deliverable G H N inp \<longleftrightarrow> (\<forall>sv \<in> input_votes inp. authentic G H (n_votes N) sv) \<and>
     (\<forall>v \<in> input_execs inp. xv_voter v \<in> H \<and> (\<exists>vk. vget (g_verifiers G) (xv_voter v) = Some vk \<and> xv_verify (g_crypto G) v vk) \<longrightarrow>
        exec_content v \<in> n_execs N)"

definition after_step :: "byte \<Rightarrow> 'st engine \<times> engine_output list \<Rightarrow> 'st network \<Rightarrow> 'st network" where
  "after_step i r N = N\<lparr>n_engines := (n_engines N)(i := fst r), n_votes := n_votes N \<union> sv_vote ` set (votes_out (snd r)),
     n_execs := n_execs N \<union> exec_content ` set (execs_out (snd r)),
     n_commits := n_commits N \<union> Pair i ` set (commits_out (snd r))\<rparr>"

inductive reachable :: "(byte \<Rightarrow> ('e, 'm, 's, 'p, 'k, 'c, 'st) config) \<Rightarrow> byte set \<Rightarrow> (byte \<Rightarrow> 'st) \<Rightarrow> 'st network \<Rightarrow> bool"
  for Gs H genesis where
  start: "reachable Gs H genesis \<lparr>n_engines = (\<lambda>i. engine_new (genesis i)), n_votes = {}, n_execs = {}, n_commits = {}\<rparr>"
| input: "reachable Gs H genesis N \<Longrightarrow> i \<in> H \<Longrightarrow> low (n_engines N i) \<Longrightarrow> keeps_height inp (n_engines N i) \<Longrightarrow>
    deliverable (Gs i) H N inp \<Longrightarrow> reachable Gs H genesis (after_step i (step (Gs i) inp (n_engines N i)) N)"
| driver: "reachable Gs H genesis N \<Longrightarrow> i \<in> H \<Longrightarrow> driver_call (Gs i) (n_engines N i) s \<Longrightarrow>
    reachable Gs H genesis (N\<lparr>n_engines := (n_engines N)(i := s)\<rparr>)"

text \<open>One cell: every honest validator knows its seat, and all share the cryptography, parameters and keys.\<close>

definition one_cell :: "(byte \<Rightarrow> ('e, 'm, 's, 'p, 'k, 'c, 'st) config) \<Rightarrow> byte set \<Rightarrow> ('e, 'm, 's) crypto \<Rightarrow> cell_params \<Rightarrow> ('e, 'm) hybrid_verifier list \<Rightarrow> bool" where
  "one_cell Gs H C p vks \<longleftrightarrow> (\<forall>i \<in> H. g_me (Gs i) = i \<and> g_crypto (Gs i) = C \<and> g_params (Gs i) = p \<and> g_verifiers (Gs i) = vks)"

definition the_cell :: "byte set \<Rightarrow> cell_params \<Rightarrow> ('e, 'm) hybrid_verifier list \<Rightarrow> assembly" where
  "the_cell H p vks = \<lparr>y_n = length vks, y_quorum = cp_quorum p, y_honest = H, y_nil = NIL\<rparr>"

lemma cell_of_the_cell: "one_cell Gs H C p vks \<Longrightarrow> i \<in> H \<Longrightarrow> cell_of (Gs i) H = the_cell H p vks"
  by (simp add: one_cell_def cell_of_def the_cell_def)

text \<open>In a cell derived from its plane order with at most \<open>f\<close> dishonest validators, quorums meet.\<close>

lemma for_order_quorums_meet:
  assumes "for_order q = Some p" "q < 2 ^ 31" "length vks = cp_n p" "card ({i. unat i < cp_n p} - H) \<le> cp_f p"
  shows "quorums_meet (the_cell H p vks)"
  using for_order_Some(4) [OF assms(1,2)] assms(3,4) by (simp add: quorums_meet_def the_cell_def)

section \<open>The invariant of the cell\<close>

definition log_backs :: "assembly \<Rightarrow> vote list \<Rightarrow> 'st network \<Rightarrow> bool" where
  "log_backs A K N \<longleftrightarrow> set K = n_votes N \<and> disciplined A K \<and> (\<forall>(h, root, b, i) \<in> n_execs N. decided A K h b) \<and>
     (\<forall>(i, h, b) \<in> n_commits N. decided A K h b)"

definition engines_sound :: "(byte \<Rightarrow> ('e, 'm, 's, 'p, 'k, 'c, 'st) config) \<Rightarrow> byte set \<Rightarrow> assembly \<Rightarrow> vote list \<Rightarrow> (byte \<Rightarrow> 'st engine) \<Rightarrow> bool" where
  "engines_sound Gs H A K es \<longleftrightarrow> (\<forall>i \<in> H. seat_inv A i (seat_of (es i)) K \<and> sound (Gs i) H K (es i))"

lemma seat_steps_log:
  assumes "seat_steps G H (a, K) (a', K')"
  shows "\<exists>L. K' = K @ L \<and> (\<forall>v \<in> set L. v_voter v = g_me G)"
  using assms
proof (induction "(a', K')" arbitrary: a' K' rule: rtranclp_induct)
  case (step q)
  obtain b M where q: "q = (b, M)" by fastforce
  from step.hyps(3) [OF q] obtain L where L: "M = K @ L" "\<forall>v \<in> set L. v_voter v = g_me G" by auto
  from step.hyps(2) q L show ?case by (auto elim!: seat_step.cases)
qed simp

lemma seat_steps_inv:
  assumes "seat_steps G H (a, K) (a', K')" "disciplined (cell_of G H) K" "seat_inv (cell_of G H) (g_me G) a K"
  shows "disciplined (cell_of G H) K' \<and> seat_inv (cell_of G H) (g_me G) a' K'"
  using assms(1)
proof (induction "(a', K')" arbitrary: a' K' rule: rtranclp_induct)
  case base
  then show ?case using assms(2,3) by simp
next
  case (step q)
  obtain b M where q: "q = (b, M)" by fastforce
  from step.hyps(3) [OF q] have "disciplined (cell_of G H) M" "seat_inv (cell_of G H) (g_me G) b M" by auto
  from seat_step_inv [OF step.hyps(2) [unfolded q] this] show ?case .
qed

lemma driver_call_frame: "driver_call G s t \<Longrightarrow> core t = core s \<and> e_exec_queue t = e_exec_queue s"
  by (induction rule: driver_call.induct)
     (auto simp: submit_def Let_def enable_sortition_def set_reward_per_block_def note_skeleton_ask_def note_shard_ask_def
        note_shard_taken_def note_shard_sent_def)

lemma start_sound: "sound G H [] (engine_new g)" "seat_inv A i (seat_of (engine_new g)) []"
  by (simp_all add: sound_def core_sound_def votes_authentic_def proposals_keyed_def queue_sound_def engine_new_def
      seat_inv_def seat_votes_def seat_lock_def seat_of_def)

lemma deliverable_execs:
  assumes "deliverable G H N inp" "log_backs (cell_of G H) K N" "v \<in> input_execs inp"
  shows "exec_authentic G H K v"
  using assms by (auto simp: deliverable_def log_backs_def exec_authentic_def exec_content_def)

lemma step_keeps_sound:
  assumes "one_cell Gs H C p vks" "quorums_meet (the_cell H p vks)" "i \<in> H"
    and "log_backs (the_cell H p vks) K N" "engines_sound Gs H (the_cell H p vks) K (n_engines N)"
    and "low (n_engines N i)" "keeps_height inp (n_engines N i)" "deliverable (Gs i) H N inp"
  shows "\<exists>K'. log_backs (the_cell H p vks) K' (after_step i (step (Gs i) inp (n_engines N i)) N) \<and>
    engines_sound Gs H (the_cell H p vks) K' (n_engines (after_step i (step (Gs i) inp (n_engines N i)) N))"
proof -
  let ?A = "the_cell H p vks" and ?G = "Gs i" and ?s = "n_engines N i"
  let ?r = "step ?G inp ?s"
  have A: "cell_of (Gs j) H = ?A" if "j \<in> H" for j using cell_of_the_cell [OF assms(1) that] .
  have me: "g_me ?G = i" using assms(1,3) by (simp add: one_cell_def)
  have K: "set K = n_votes N" "disciplined ?A K" using assms(4) by (simp_all add: log_backs_def)
  have s: "seat_inv ?A i (seat_of ?s) K" "sound ?G H K ?s" using assms(3,5) by (simp_all add: engines_sound_def)
  have "follows ?G H K ?s ?r"
    by (rule step_follows [OF s(2) assms(6)])
       (use A [OF assms(3)] assms(2,4,7,8) K(1) deliverable_execs [OF assms(8)] in \<open>auto simp: deliverable_def\<close>)
  then obtain L where L: "seat_steps ?G H (seat_of ?s, K) (seat_of (fst ?r), K @ L)" "sound ?G H (K @ L) (fst ?r)"
    "sv_vote ` set (votes_out (snd ?r)) = set L" "outputs_decided ?G H (K @ L) (snd ?r)"
    by (auto simp: follows_def)
  have own: "\<forall>v \<in> set L. v_voter v = i" using seat_steps_log [OF L(1)] me by auto
  have inv: "disciplined ?A (K @ L)" "seat_inv ?A i (seat_of (fst ?r)) (K @ L)"
    using seat_steps_inv [OF L(1)] K(2) s(1) by (simp_all add: A [OF assms(3)] me)
  have grow: "decided ?A (K @ L) h b" if "decided ?A K h b" for h b by (rule decided_grows [OF that]) auto
  have "log_backs ?A (K @ L) (after_step i ?r N)"
    using assms(4) inv(1) L(3,4) grow A [OF assms(3)]
    by (fastforce simp: log_backs_def after_step_def outputs_decided_def exec_content_def)
  moreover have "engines_sound Gs H ?A (K @ L) (n_engines (after_step i ?r N))"
  proof -
    have "seat_inv ?A j (seat_of (n_engines N j)) (K @ L) \<and> sound (Gs j) H (K @ L) (n_engines N j)" if "j \<in> H" "j \<noteq> i" for j
      using assms(5) that own seat_inv_other [of ?A j _ K L] sound_grows [of "Gs j" H K _ "K @ L"] by (auto simp: engines_sound_def)
    then show ?thesis using inv(2) L(2) by (simp add: engines_sound_def after_step_def)
  qed
  ultimately show ?thesis by blast
qed

lemma reachable_sound:
  assumes "reachable Gs H genesis N" "one_cell Gs H C p vks" "quorums_meet (the_cell H p vks)"
  shows "\<exists>K. log_backs (the_cell H p vks) K N \<and> engines_sound Gs H (the_cell H p vks) K (n_engines N)"
  using assms(1)
proof (induction rule: reachable.induct)
  case start
  have "log_backs (the_cell H p vks) [] \<lparr>n_engines = (\<lambda>i. engine_new (genesis i)), n_votes = {}, n_execs = {}, n_commits = {}\<rparr>"
    by (simp add: log_backs_def disciplined_def votes_once_def commits_backed_def locks_kept_def)
  then show ?case by (intro exI [of _ "[]"]) (simp add: engines_sound_def start_sound)
next
  case (input N i inp)
  then show ?case using step_keeps_sound [OF assms(2,3)] by blast
next
  case (driver N i s)
  then obtain K where K: "log_backs (the_cell H p vks) K N" "engines_sound Gs H (the_cell H p vks) K (n_engines N)" by auto
  have c: "core s = core (n_engines N i)" "e_exec_queue s = e_exec_queue (n_engines N i)"
    using driver_call_frame [OF driver.hyps(3)] by auto
  have "seat_inv (the_cell H p vks) i (seat_of s) K" "sound (Gs i) H K s"
    using K(2) driver.hyps(2) seat_frame [OF c(1)] sound_frame [OF _ c(1)] c(2) by (auto simp: engines_sound_def)
  with K show ?case by (intro exI [of _ K]) (auto simp: engines_sound_def log_backs_def)
qed

section \<open>A run\<close>

text \<open>
  A cell of one validator with a quorum of one. It receives the first block, prepares it, sees its own
  prepare quorum, commits, sees its own commit quorum and finalizes, all in one step.
\<close>

definition solo_crypto :: "(byte, byte, byte list) crypto" where
  "solo_crypto = toy_crypto\<lparr>blake3 := (\<lambda>_. replicate 32 7)\<rparr>"

definition solo_config :: "(byte, byte, byte list, unit, unit, unit, unit) config" where
  "solo_config = \<lparr>g_crypto = solo_crypto, g_sealing = toy_sealing,
     g_machine = sm_default (\<lambda>tx st. (st, ExApplied)) (\<lambda>_. []) (\<lambda>_. []) (\<lambda>_. Some ()),
     g_kem_keys = \<lparr>pk_encode = (\<lambda>_. []), pk_decode = (\<lambda>_. None)\<rparr>,
     g_params = \<lparr>cp_q = 0, cp_n = 1, cp_f = 0, cp_quorum = 1\<rparr>, g_me = 0,
     g_signer = \<lparr>hs_ed = (\<lambda>_. replicate 64 0), hs_ml = (\<lambda>_. replicate 3309 0)\<rparr>, g_kem_secret = (),
     g_verifiers = [toy_key 0], g_keyper_founding = [], g_seed = [], g_epoch = 0\<rparr>"

definition solo_block :: block where
  "solo_block = with_reveals solo_crypto (assemble solo_crypto GENESIS_PARENT 0 0 (leader_byte solo_config 0 0) []) []"

lemma solo_hash: "hash_labeled solo_crypto l x = replicate 32 7"
  by (simp add: hash_labeled_def solo_crypto_def)

lemma solo_verify: "sv_verify solo_crypto (own_vote solo_config ph h r b) (toy_key 0)"
  by (simp add: sv_verify_def own_vote_def sv_sign_def solo_config_def sig_bytes_verify_def hsig_from_bytes_def hybrid_verify_def
      hsig_to_bytes_def hybrid_sign_def solo_crypto_def toy_crypto_def toy_key_def crypto_lens)

lemma solo_block_sel: "block_hash solo_crypto solo_block = replicate 32 7" "hd_height (b_header solo_block) = 0"
  "hd_parent (b_header solo_block) = GENESIS_PARENT" "hd_epoch (b_header solo_block) = 0"
  "hd_proposer (b_header solo_block) = leader_byte solo_config 0 0" "b_sealed_txs solo_block = []" "b_reveals solo_block = []"
  "b_pol solo_block = None" "b_last_commit solo_block = None" "b_witness solo_block = None"
  by (simp_all add: solo_block_def with_reveals_def assemble_def block_hash_def header_hash_def solo_config_def solo_hash Let_def)

lemma solo_structure: "verify_structure solo_crypto solo_block"
proof -
  have "8 \<le> budget_for solo_crypto GENESIS_PARENT 0 0 (leader_byte solo_config 0 0) None []"
    by (simp add: budget_for_def payload_budget_overhead block_overhead_def MAX_FRAME_def WITNESS_ALLOWANCE_def with_reveals_def
       assemble_def MAX_HEIGHT_def header_to_wire_def commitment_lengths solo_hash Let_def GENESIS_PARENT_def put_var_bytes_def opt_bytes_def)
  then show ?thesis
    using fresh_block_verifies [of solo_crypto GENESIS_PARENT 0 0 "leader_byte solo_config 0 0" None "[]" None "[]"]
    by (simp add: fresh_block_def solo_block_def pack_to_budget_def hash_width_def solo_crypto_def GENESIS_PARENT_def with_reveals_def assemble_def Let_def)
qed

lemma solo_shards: "reconstruct_payload solo_crypto solo_block (map Some (da_shards solo_block)) = Some []"
proof -
  let ?lost = "replicate 7 False"
  have drop: "drop_shards ?lost (erasure_encode data) = map Some (erasure_encode data)" for data
    by (rule nth_equalityI) (simp_all add: drop_shards_def)
  have "mask_of (map Some (erasure_encode data)) = 0" for data
    by (rule bit_eqI) (auto simp: bit_mask_of)
  moreover have "is_recoverable_fano 0" by code_simp
  ultimately have "erasure_reconstruct (map Some (erasure_encode data)) = Some data" for data
    using reconstruct_encode [of ?lost data] by (simp add: drop)
  then show ?thesis
    using solo_structure decode_encode_payload [of "[]"]
    by (simp add: reconstruct_payload_def da_shards_def payload_bytes_def verify_structure_def solo_block_sel payload_wf_def)
qed


lemma own_vote_effects:
  assumes "vget (g_verifiers G) (g_me G) = Some vk" "sv_verify (g_crypto G) (own_vote G ph (height s) r b) vk"
  shows "set (commits_out (snd ((case ph of Prepare \<Rightarrow> check_prepared (accept_vote G) G b r | Commit \<Rightarrow> check_committed G b)
      (store_vote (own_vote G ph (height s) r b) s)))) \<subseteq> set (commits_out (snd (accept_vote G (own_vote G ph (height s) r b) s)))"
  using assms by (subst accept_vote_rec, cases ph) (auto simp: accept_vote_body_def Let_def then_out_def case_prod_beta)

definition solo_start :: "unit engine" where
  "solo_start = (engine_new ())\<lparr>e_proposals := [(replicate 32 7, solo_block)], e_sent_prepare := {0}\<rparr>"

lemma solo_sel: "g_verifiers solo_config = [toy_key 0]" "g_me solo_config = 0" "g_crypto solo_config = solo_crypto"
  "cp_quorum (g_params solo_config) = 1" "g_epoch solo_config = 0" "height (engine_new ()) = 0" "height solo_start = 0"
  by (simp_all add: solo_config_def height_def engine_new_def chain_new_def chain_next_height_def solo_start_def)

lemma solo_start_sel:
  "e_round (engine_new g) = 0" "e_proposals (engine_new g) = []" "e_pending_finalize (engine_new g) = []" "e_sent_prepare (engine_new g) = {}"
  "e_locked_block (engine_new g) = None" "e_sortition (engine_new g) = None" "ch_head (e_chain (engine_new g)) = GENESIS_PARENT"
  by (simp_all add: engine_new_def chain_new_def)

lemma solo_proposal: "on_propose solo_config solo_block (map Some (da_shards solo_block)) (engine_new ()) =
    cast_vote (accept_vote solo_config) (own_vote solo_config Prepare 0 0 (replicate 32 7)) solo_start"
  using solo_structure solo_shards
  by (simp add: on_propose_def Let_def solo_block_sel solo_sel pol_ok_def note_valid_value_def sortition_round0_def valid_last_commit_def
      vote_on_proposal_def solo_start_sel bt_contains_def bt_get_def solo_start_def)

lemma solo_cert:
  assumes "e_round s = r" "height s = h" "(case ph of Prepare \<Rightarrow> e_prepares s | Commit \<Rightarrow> e_commits s) = [own_vote solo_config ph h r b]"
  shows "cert_ok solo_config (collect_cert solo_config ph b s)"
  using assms solo_verify [of ph h r b]
  by (cases ph) (simp_all add: collect_cert_def cert_verify_iff vote_counts_def solo_sel own_vote_sel)


lemma cast_commits [simp]: "commits_out (snd (cast_vote acc sv s)) = commits_out (snd (acc sv s))"
  by (simp add: cast_vote_def case_prod_beta)

lemma solo_effects:
  assumes "height s = 0"
  shows "set (commits_out (snd ((case ph of Prepare \<Rightarrow> check_prepared (accept_vote solo_config) solo_config b r | Commit \<Rightarrow> check_committed solo_config b)
      (store_vote (own_vote solo_config ph 0 r b) s)))) \<subseteq> set (commits_out (snd (accept_vote solo_config (own_vote solo_config ph 0 r b) s)))"
  using own_vote_effects [of solo_config "toy_key 0" ph s r b] solo_verify [of ph 0 r b] assms by (simp add: solo_sel vget_def)

lemma solo_commits:
  "(0, replicate 32 7) \<in> set (commits_out (snd (step solo_config (InPropose solo_block (map Some (da_shards solo_block))) (engine_new ()))))"
proof -
  let ?b = "replicate 32 7 :: byte list"
  let ?p = "own_vote solo_config Prepare 0 0 ?b" and ?c = "own_vote solo_config Commit 0 0 ?b"
  define s1 where "s1 = store_vote ?p solo_start"
  define s2 where "s2 = s1\<lparr>e_locked_block := Some ?b, e_locked_cert := Some (collect_cert solo_config Prepare ?b s1), e_sent_commit := insert 0 {}\<rparr>"
  define s3 where "s3 = store_vote ?c s2"
  have s1: "s1 = solo_start\<lparr>e_prepares := [?p]\<rparr>" by (simp add: s1_def store_vote_def Let_def) (simp add: solo_start_def engine_new_def)
  have s3: "s3 = s2\<lparr>e_commits := [?c]\<rparr>" by (simp add: s3_def store_vote_def Let_def) (simp add: s2_def s1 solo_start_def engine_new_def)
  have h: "height s1 = 0" "height s2 = 0" "height s3 = 0" "e_round s1 = 0" "e_round s3 = 0" "e_sent_commit s1 = {}"
    by (simp_all add: s3 s2_def s1 solo_start_def engine_new_def height_def chain_new_def chain_next_height_def)
  have "check_committed solo_config ?b s3 = finalize solo_config ?b s3"
    using solo_cert [of s3 0 0 Commit ?b] h by (simp add: check_committed_def s3)
  moreover have "bt_get (e_proposals s3) ?b = Some solo_block" by (simp add: s3 s2_def s1 solo_start_def bt_get_def)
  ultimately have "(0, ?b) \<in> set (commits_out (snd (check_committed solo_config ?b s3)))"
    using finalize_commits(4) [of s3 ?b solo_block solo_config] h by simp
  then have "(0, ?b) \<in> set (commits_out (snd (accept_vote solo_config ?c s2)))"
    using solo_effects [OF h(2), of ?b 0 Commit] by (auto simp: s3_def)
  moreover have "check_prepared (accept_vote solo_config) solo_config ?b 0 s1 = cast_vote (accept_vote solo_config) ?c s2"
    using solo_cert [of s1 0 0 Prepare ?b] h by (simp add: check_prepared_def Let_def s2_def s1 NIL_def)
  ultimately have "(0, ?b) \<in> set (commits_out (snd (accept_vote solo_config ?p solo_start)))"
    using solo_effects [OF solo_sel(7), of ?b 0 Prepare] by (auto simp: s1_def)
  then show ?thesis by (simp add: solo_proposal)
qed

lemma solo_reachable:
  "reachable (\<lambda>_. solo_config) {0} (\<lambda>_. ()) (after_step 0 (step solo_config (InPropose solo_block (map Some (da_shards solo_block))) (engine_new ()))
     \<lparr>n_engines = (\<lambda>i. engine_new ()), n_votes = {}, n_execs = {}, n_commits = {}\<rparr>)"
  using reachable.input [OF reachable.start, of 0 "{0}" "\<lambda>_. ()" "InPropose solo_block (map Some (da_shards solo_block))" "\<lambda>_. solo_config"]
  by (simp add: low_def solo_sel keeps_height_def deliverable_def opt_votes_def solo_block_sel input_execs_def)

abbreviation solo_end :: "unit network" where
  "solo_end \<equiv> after_step 0 (step solo_config (InPropose solo_block (map Some (da_shards solo_block))) (engine_new ()))
     \<lparr>n_engines = (\<lambda>i. engine_new ()), n_votes = {}, n_execs = {}, n_commits = {}\<rparr>"

lemma solo_cell: "one_cell (\<lambda>_. solo_config) {0} solo_crypto (g_params solo_config) [toy_key 0]"
  by (simp add: one_cell_def solo_sel)

lemma solo_quorum: "length [toy_key 0] + card ({i :: byte. unat i < length [toy_key 0]} - {0}) < 2 * cp_quorum (g_params solo_config)"
proof -
  have none: "{i :: byte. unat i < length [toy_key 0]} - {0} = {}" by (auto simp: unat_eq_0)
  show ?thesis unfolding none by (simp add: solo_sel)
qed

lemma solo_votes: "ballot Prepare 0 0 (replicate 32 7) 0 \<in> n_votes solo_end"
  by (simp add: after_step_def solo_proposal cast_vote_def case_prod_beta image_Un) (simp add: solo_sel)

section \<open>Safety of the cell\<close>

text \<open>
  C1. Agreement: in a cell whose quorums meet in an honest validator (twice the quorum exceeds the validators plus the
  dishonest ones, which \<open>for_order_quorums_meet\<close> gives for every cell derived from its plane order below \<open>2 ^ 31\<close> with
  at most \<open>f\<close> dishonest validators), any two honest validators that report a block committed at one
  height report the same block hash. The dishonest validators may send anything that does not carry a valid signature
  of an honest validator on a vote or an execution attestation it did not make, and messages may be delayed, dropped,
  repeated and reordered arbitrarily; blocks adopted through certificates and through state synchronization are
  included. The runs considered are those in which an honest validator processes no input at the last representable
  height \<open>2 ^ 64 - 1\<close>, keeps its state (no restart), and is never rolled back by a
  \<open>SyncResp\<close> to a checkpoint below its own height, which the code does only after the validator found its
  state root diverged from a certified one.
\<close>

theorem honest_validators_agree:
  assumes "one_cell Gs H C p vks" "reachable Gs H genesis N"
    and "length vks + card ({i. unat i < length vks} - H) < 2 * cp_quorum p"
    and "(i, h, b) \<in> n_commits N" "(j, h, b') \<in> n_commits N"
  shows "b = b'"
proof -
  have q: "quorums_meet (the_cell H p vks)" using assms(3) by (simp add: quorums_meet_def the_cell_def)
  obtain K where "log_backs (the_cell H p vks) K N" using reachable_sound [OF assms(2,1) q] by auto
  then have "decided (the_cell H p vks) K h b" "decided (the_cell H p vks) K h b'" "disciplined (the_cell H p vks) K"
    using assms(4,5) by (auto simp: log_backs_def)
  then show ?thesis using commits_agree [OF q] unfolding decided_def by blast
qed

theorem honest_validators_agree_witness:
  "{b. (0, 0, b) \<in> n_commits solo_end} = {replicate 32 7}"
proof -
  have "(0, 0, replicate 32 7) \<in> n_commits solo_end" using solo_commits by (simp add: after_step_def)
  then show ?thesis using honest_validators_agree [OF solo_cell solo_reachable solo_quorum] by blast
qed

text \<open>
  C2. An honest validator never equivocates: in the runs of the agreement theorem (below the last height, no restart, no
  roll-back below the own height), of the votes it sent in one height, round and phase all name the same block, so that
  \<open>detect_equivocation\<close> finds no evidence in any two signed votes whose content it sent, whatever key they are checked against.
\<close>

theorem honest_never_equivocates:
  assumes "one_cell Gs H C p vks" "reachable Gs H genesis N"
    and "length vks + card ({i. unat i < length vks} - H) < 2 * cp_quorum p"
    and "sv_vote x \<in> n_votes N" "sv_vote y \<in> n_votes N"
  shows "detect_equivocation C x y vk = None"
proof -
  have q: "quorums_meet (the_cell H p vks)" using assms(3) by (simp add: quorums_meet_def the_cell_def)
  obtain K where "log_backs (the_cell H p vks) K N" using reachable_sound [OF assms(2,1) q] by auto
  then have "votes_once K" "sv_vote x \<in> set K" "sv_vote y \<in> set K"
    using assms(4,5) by (simp_all add: log_backs_def disciplined_def)
  then have "v_voter (sv_vote x) = v_voter (sv_vote y) \<and> v_height (sv_vote x) = v_height (sv_vote y) \<and>
      v_round (sv_vote x) = v_round (sv_vote y) \<and> v_phase (sv_vote x) = v_phase (sv_vote y) \<longrightarrow> v_block (sv_vote x) = v_block (sv_vote y)"
    unfolding votes_once_def by blast
  then show ?thesis by (auto simp: detect_equivocation_def Let_def)
qed

theorem honest_never_equivocates_witness:
  "detect_equivocation solo_crypto (own_vote solo_config Prepare 0 0 (replicate 32 7)) (own_vote solo_config Prepare 0 0 (replicate 32 7)) (toy_key 0) = None"
  by (rule honest_never_equivocates [OF solo_cell solo_reachable solo_quorum]) (use solo_votes in \<open>simp_all add: solo_sel\<close>)

end
