(* ===== verification/Taxis_Reoffer.thy ===== *)
theory Taxis_Reoffer
  imports Taxis_Agreement
begin

text \<open>
  Two places where the engine of \<open>consensus.rs\<close> does not do what it means to.

  Re-offering a locked block: \<open>maybe_propose\<close> attaches the certificate of the lock to the held block and then
  records its own certificate of the parent in it. That certificate is hashed into the header, so the block
  offered is another block, and the attached certificate is not one for it.

  Adopting a checkpoint below the own height, which a validator does after its state diverged: the record of
  what it voted for at the heights above the checkpoint is erased with the rest of the round state.
\<close>

section \<open>Re-offering\<close>

lemma hash_after_last_commit:
  assumes "hash_of G (with_last_commit (g_crypto G) b cert) = hash_of G b" "\<not> collides (g_crypto G) X"
    and "header_input (with_last_commit (g_crypto G) b cert) \<in> X" "header_input b \<in> X"
  shows "commit_last (g_crypto G) (Some cert) = hd_last_commit_root (b_header b)"
proof -
  have "header_to_wire (b_header (with_last_commit (g_crypto G) b cert)) = header_to_wire (b_header b)"
    using assms hash_labeled_inj [of "g_crypto G" HEADER_LABEL] by (simp add: block_hash_def header_hash_def header_input_def)
  then show ?thesis by (simp add: with_last_commit_def header_to_wire_def)
qed

lemma proposal_reoffers:
  assumes "reoffer s = Some (locked, pol)" "e_last_finalized_cert s = Some cert"
  shows "proposal_block G s = with_last_commit (g_crypto G) (locked\<lparr>b_pol := Some pol, b_witness := None\<rparr>) cert"
  using assms by (simp add: proposal_block_def Let_def)

text \<open>
  C16. Re-offering a locked block can lose its justification: a validator that re-offers the value it is locked on, with the certificate
  that locked it, records its own certificate of the parent in the block. When that differs from the one the block was
  prepared with (each validator assembles its own from the votes it received first), the block it sends has another hash:
  no receiver accepts the attached proof of lock, and none locked elsewhere is released by it, or two of the four named
  strings collide.
\<close>

theorem reoffer_changes_identity:
  assumes "reoffer s = Some (locked, pol)" "e_last_finalized_cert s = Some cert"
    and "c_block pol = hash_of G locked" "last_commit_matches (g_crypto G) locked"
    and "b_last_commit locked = Some cert0" "cert_to_bytes cert \<noteq> cert_to_bytes cert0"
  shows "(\<not> pol_ok G (proposal_block G s) t \<and> \<not> unlocks_us G (proposal_block G s) t) \<or>
    collides (g_crypto G) {header_input (proposal_block G s), header_input locked,
      labeled_hasher LAST_COMMIT_LABEL (cert_to_bytes cert), labeled_hasher LAST_COMMIT_LABEL (cert_to_bytes cert0)}"
    (is "_ \<or> collides ?C ?X")
proof (rule disjCI)
  let ?b = "proposal_block G s"
  assume nc: "\<not> collides ?C ?X"
  have b: "?b = with_last_commit ?C (locked\<lparr>b_pol := Some pol, b_witness := None\<rparr>) cert" by (rule proposal_reoffers [OF assms(1,2)])
  have "hash_of G ?b \<noteq> hash_of G locked"
  proof
    assume "hash_of G ?b = hash_of G locked"
    then have "commit_last ?C (Some cert) = hd_last_commit_root (b_header locked)"
      using hash_after_last_commit [of G "locked\<lparr>b_pol := Some pol, b_witness := None\<rparr>" cert ?X] nc
      by (simp add: b block_hash_def header_input_def)
    then have "hash_labeled ?C LAST_COMMIT_LABEL (cert_to_bytes cert) = hash_labeled ?C LAST_COMMIT_LABEL (cert_to_bytes cert0)"
      using assms(4,5) by (simp add: last_commit_matches_def commit_last_def)
    then have "cert_to_bytes cert = cert_to_bytes cert0" by (rule hash_labeled_inj [OF _ nc]) simp_all
    with assms(6) show False by simp
  qed
  moreover have "b_pol ?b = Some pol" by (simp add: b with_last_commit_def)
  ultimately show "\<not> pol_ok G ?b t \<and> \<not> unlocks_us G ?b t"
    using assms(3) by (auto simp: pol_ok_def unlocks_us_def pol_shape_releases_def split: option.splits)
qed

text \<open>A validator locked on a block prepared with one certificate of its parent, holding another one itself.\<close>

definition plain_config :: "(byte, byte, byte list, unit, unit, unit, unit) config" where
  "plain_config = solo_config\<lparr>g_crypto := toy_crypto\<lparr>blake3 := (\<lambda>x. x)\<rparr>\<rparr>"

definition locked_toy_block :: block where
  "locked_toy_block = with_last_commit (g_crypto plain_config)
     (assemble (g_crypto plain_config) (replicate 32 7) 10 0 0 []) (toy_cert 7 [0, 1, 2, 3, 4])"

definition locked_toy :: "unit engine" where
  "locked_toy = (engine_new ())\<lparr>e_proposals := [(hash_of plain_config locked_toy_block, locked_toy_block)],
     e_locked_block := Some (hash_of plain_config locked_toy_block),
     e_locked_cert := Some \<lparr>c_phase = Prepare, c_height = 10, c_round = 0, c_block = hash_of plain_config locked_toy_block, c_votes = []\<rparr>,
     e_last_finalized_cert := Some (toy_cert 7 [0, 1, 2, 3, 4, 5])\<rparr>"

theorem reoffer_changes_identity_witness:
  "\<not> pol_ok plain_config (proposal_block plain_config locked_toy) locked_toy \<and>
   \<not> unlocks_us plain_config (proposal_block plain_config locked_toy) locked_toy"
proof -
  have "length (cert_to_bytes (toy_cert 7 [0, 1, 2, 3, 4, 5])) \<noteq> length (cert_to_bytes (toy_cert 7 [0, 1, 2, 3, 4]))"
    by (simp add: cert_to_bytes_def toy_cert_def toy_vote_def sv_to_bytes_def vote_to_bytes_def)
  then have differ: "cert_to_bytes (toy_cert 7 [0, 1, 2, 3, 4, 5]) \<noteq> cert_to_bytes (toy_cert 7 [0, 1, 2, 3, 4])" by auto
  have "\<not> collides (g_crypto plain_config) X" for X by (simp add: collides_def plain_config_def)
  then show ?thesis
    using reoffer_changes_identity [of locked_toy locked_toy_block
        "\<lparr>c_phase = Prepare, c_height = 10, c_round = 0, c_block = hash_of plain_config locked_toy_block, c_votes = []\<rparr>"
        "toy_cert 7 [0, 1, 2, 3, 4, 5]" plain_config "toy_cert 7 [0, 1, 2, 3, 4]" locked_toy] differ
    by (simp add: locked_toy_def reoffer_def bt_get_def last_commit_matches_def locked_toy_block_def with_last_commit_def)
qed

section \<open>Rolling back\<close>

text \<open>
  A diverged validator resumes right above the adopted checkpoint, however far below its own height that is, with
  no lock and no record of its votes: it will prepare again at heights at which it has already voted.
\<close>

lemma rollback_forgets_votes:
  assumes "e_diverged s = Some d" "xc_verify (g_crypto G) cert (cp_quorum (g_params G)) (g_verifiers G)"
    and "sm_restore (g_machine G) snapshot = Some st" "sm_state_root (g_machine G) st = xc_state_root cert"
    and "s' = fst (on_sync_resp G cert [] snapshot s)"
  shows "height s' = saturating_add (xc_height cert) 1" "e_sent_prepare s' = {}" "e_sent_commit s' = {}" "e_locked_block s' = None"
  using assms(1-4) unfolding assms(5)
  by (simp_all add: on_sync_resp_def install_snapshot_def reset_round_state_def maybe_request_body_def height_def chain_next_height_def
      chain_restore_def bump_def bump_by_def bt_get_def Let_def)

end
