(* ===== verification/Spec2Isabelle.thy ===== *)
theory Spec2Isabelle
  imports Ergon_Codec Stream_Net Dromos_Stake Hermes_Htlc Thesauros_Por Dromos_Storage Dromos_Names Obolos_Wire Dromos_Ledger Fano_Erasure Threshold_Seal Taxis_Reoffer
begin

text \<open>
  A verification library for the FANOS protocol stack, the Rust workspace under \<open>src/rust/crates\<close>.

  \<^bold>\<open>The program.\<close> FANOS is a stack of sans-I/O crates: state machines that take inputs and return outputs
  and are driven by a daemon. The part modelled here is its replicated ledger and what the ledger rests on.
  TAXIS orders transactions and certifies blocks by quorum: an elected leader proposes a block of sealed
  transactions, the validators prepare and commit it, open the transactions by threshold and execute them.
  DROMOS executes them on one hybrid ledger made of
  sub-ledgers: transparent tokens, the shielded pool of OBOLOS, names, storage deals of THESAUROS, atomic
  swaps of HERMES and validator stake. A transaction may also be an ERGON term, a composition of primitive
  effects whose footprint of state keys is derived from the term; the scheduler uses access lists to run
  disjoint transactions in one wave. STREAM carries bytes between nodes over a network that drops, reorders
  and duplicates.

  \<^bold>\<open>The theories\<close>, from the bottom:

  \<^item> \<open>Fanos_Prelude\<close>: results, checked and saturating arithmetic, big- and little-endian integers, readers of
    byte lists, binary search, sorting with deduplication, and the locale \<open>codec\<close>, the contract of a
    wire encoding (decoding inverts encoding, and accepts nothing else), interpreted at every encoding below.
  \<^item> \<open>Fanos_Crypto\<close>: \<open>fanos-pqcrypto/src/sig.rs\<close>, \<open>fanos-primitives/src/hash.rs\<close>. Ed25519, ML-DSA-65 and
    BLAKE3 are fields of a parameter record; what a theorem needs of them is one of its hypotheses.
  \<^item> \<open>Btree\<close>, \<open>Primitives_Codec\<close>, \<open>Merkle\<close>: the standard library's ordered maps (locale \<open>ordered_map\<close>),
    \<open>fanos-primitives/src/codec.rs\<close> and \<open>merkle.rs\<close>. A Merkle proof opens one leaf only, or a hash collides.
  \<^item> \<open>Ergon_Value\<close>, \<open>Ergon_Term\<close>, \<open>Ergon_Exec\<close>, \<open>Ergon_Codec\<close>, \<open>Ergon_State\<close>: \<open>fanos-ergon/src\<close>. Terms with
    their derived footprint, admission and price; the interpreter with confinement and rollback over a
    key-value store, and again over an arbitrary \<open>State\<close>; the codec. Execution writes inside the footprint,
    depends on the footprint only, and admitted parallel branches commute.
  \<^item> \<open>Dromos_Scheduler\<close>: \<open>scheduler.rs\<close>. The one-pass wave assignment computes the levels of the conflict
    graph; the locale \<open>access_steps\<close> states what a step may touch, and any execution of the waves equals the
    serial one (interpreted at ERGON calls).
  \<^item> \<open>Dromos_Token\<close>, \<open>Dromos_Stake\<close>, \<open>Dromos_Names\<close>, \<open>Dromos_Storage\<close>, \<open>Hermes_Htlc\<close>: the sub-ledgers
    (\<open>token.rs\<close>, \<open>stake.rs\<close>, \<open>naming.rs\<close>, \<open>storage.rs\<close>, \<open>hermes.rs\<close> of \<open>fanos-dromos\<close>, \<open>fanos-hermes\<close>).
  \<^item> \<open>Thesauros_Deal\<close>, \<open>Thesauros_Por\<close>: \<open>fanos-thesauros/src\<close>. The deal state machine and the
    proof-of-retrievability audit.
  \<^item> \<open>Obolos_Commit\<close>, \<open>Obolos_Tree\<close>, \<open>Obolos_Tx\<close>, \<open>Obolos_Pool\<close>, \<open>Obolos_Wire\<close>: \<open>fanos-obolos/src\<close>. Lattice
    commitments, the note tree, transaction proofs, the pool and its wire formats.
  \<^item> \<open>Dromos_Hybrid\<close>, \<open>Dromos_Ergon\<close>, \<open>Dromos_Ledger\<close>: \<open>hybrid.rs\<close>, \<open>bridge.rs\<close>, \<open>ergon_host.rs\<close>. The composed
    ledger: its settlement rules, ERGON on the ledger, and the state machine the consensus drives (dispatch,
    batch verification, access lists, wave execution, conservation gate, root, snapshot). The relation
    \<open>ledger_reach\<close> holds of the ledgers reachable from a genesis, with the ledgers passed through; all are
    solvent as long as none on the way has a supply of \<open>2 ^ 64\<close> or more.
  \<^item> \<open>Taxis_Quorum\<close>: \<open>params.rs\<close>, \<open>vote.rs\<close>. Quorum sizes, votes, certificates and equivocation.
  \<^item> \<open>Wire_Varint\<close>, \<open>Bounded_Map\<close>, \<open>Pq_Vrf\<close>: \<open>fanos-wire/src/varint.rs\<close> and \<open>wire.rs\<close>,
    \<open>fanos-primitives/src/collections.rs\<close>, \<open>fanos-vrf/src/pqvrf.rs\<close>. Integers and sequences on the wire, the
    map with a cap, the hash-based verifiable random function.
  \<^item> \<open>Taxis_Committee\<close>, \<open>Taxis_Block\<close>, \<open>Taxis_Checkpoint\<close>, \<open>Taxis_Keyper\<close>, \<open>Taxis_Msg\<close>, \<open>Taxis_Chain\<close>: the files
    of \<open>fanos-taxis/src\<close> of the same names, with \<open>tx.rs\<close> and \<open>wire.rs\<close> in \<open>Taxis_Block\<close> and the messages of
    \<open>consensus.rs\<close> in \<open>Taxis_Msg\<close>. Leader election, blocks and their commitments, execution certificates, the
    registry of sealing keys, the wire forms.
  \<^item> \<open>Taxis_Engine\<close>, \<open>Taxis_Step\<close>: the engine of \<open>consensus.rs\<close>, every handler of \<open>step\<close> and every call of its
    driver, over the record \<open>engine\<close> of its fields and the record \<open>config\<close> of what is fixed at construction.
    The application is any record of the operations of the trait \<open>StateMachine\<close> (\<open>Taxis_State\<close>).
  \<^item> \<open>Taxis_Frame\<close>, \<open>Taxis_Fuel\<close>, \<open>Taxis_Protocol\<close>, \<open>Taxis_Refinement\<close>, \<open>Taxis_Agreement\<close>, \<open>Taxis_Reoffer\<close>: what
    the handlers leave alone; the end of the recursion of \<open>accept_vote\<close>; the abstract voting protocol (seats
    that prepare once per round, lock what a quorum prepared, and a log of votes), whose quorums decide one
    block per height; the simulation of \<open>step\<close> by it; a cell of such engines with dishonest members, where
    honest validators agree; and two places where the engine does not do what it means to.
  \<^item> \<open>Fano_Erasure\<close>: \<open>fanos-geometry/src/fano.rs\<close>, \<open>erasure.rs\<close>, \<open>lrc.rs\<close> and \<open>da.rs\<close> of \<open>fanos-code\<close>. The
    erasure code over the Fano plane that disperses a block: which losses the peeling decoder recovers.
  \<^item> \<open>Field_Gf2m\<close>, \<open>Shamir\<close>, \<open>Threshold_Seal\<close>: \<open>fanos-field\<close>, \<open>fanos-primitives/src/shamir.rs\<close>,
    \<open>fanos-threshold\<close>. Binary fields (bytes are an instance of the library's \<open>field\<close> class), secret sharing
    with its correctness and perfect secrecy, and sealing to a committee.
  \<^item> \<open>Stream_Receiver\<close>, \<open>Stream_Sender\<close>, \<open>Stream_Net\<close>: \<open>fanos-stream/src/lib.rs\<close>, the two ends and their
    composition over an arbitrary network.

  \<^bold>\<open>Conventions.\<close> A struct is a record, an enum a datatype, a \<open>w\<close>-bit integer a word: \<open>+\<close> wraps as in a
  release build, and \<open>checked_\<close>, \<open>saturating_\<close> and widened operations are written as such. \<open>usize\<close> values that
  only count what is in memory are natural numbers. \<open>Option\<close> and \<open>Result\<close> are \<open>option\<close> and sums, errors on
  the left. A method that mutates \<open>self\<close> returns the new state. \<open>BTreeMap\<close> is its sorted entry list.
  \<open>debug_assert!\<close> has no effect in a release build; where the asserted fact holds it is a lemma.

  \<^bold>\<open>Loops.\<close> Structural recursion, or a measure. Three loops of the sources are not known to end: sampling the commitment parameters, drawing the
  distinct leaves of an audit challenge from a hash stream, and advancing a receiver's frontier; they return an
  option, and the theorems about them show when they return. \<open>accept_vote\<close> calls itself through the votes a
  validator casts in reaction to a vote; its fuel is the number of votes it can still cast at a height, two for
  each 32-bit round, and \<open>accept_vote_rec\<close> shows that it is never used up. \<open>execute_block\<close> is an option because it may run
  an audit. Threads appear as parameters: the number of workers that verify a batch and which of them panic.

  \<^bold>\<open>What the properties show.\<close> For ERGON: confinement, dependence on the footprint, independence of parallel
  branches, rollback, codecs. For the consensus: agreement of honest validators, no equivocation by an honest
  validator, termination of the vote recursion, accountability of conflicting certificates, and block hashes
  that bind the block. For the ledger: solvency of the reachable ledgers below the supply bound, determinism of a
  block, conservation of supply, no replay, terms that debit their caller only, the transfer
  term as a refinement of the native transfer, snapshots. For the components: single spending and value
  conservation in the pool, deal accounting, swaps that pay once, audits that accept only the stored data,
  quorum intersection with accountability, blocks recovered from any four of seven shards, secrets recovered
  from a threshold of shares and hidden from fewer, and streams that deliver a prefix of what was written. Some
  properties exhibit a flaw of the code, each named in its text: a self-transfer term that mints, notes that
  spend twice, outputs of unbound value, name payments that do not bind the operation, roots that do not bind
  contract terms, locked blocks that change identity when they are offered again, votes forgotten in a roll-back.

  \<^bold>\<open>Not modelled.\<close> Sockets, files, timers and the daemon (\<open>fanos-node\<close>, \<open>fanos-quic\<close>, \<open>fanos-session\<close>,
  \<open>fanos-proxy\<close>, \<open>fanos-ffi\<close>, \<open>fanos-wasm\<close>), simulators and test kits, user interfaces; the floating-point
  calculi (\<open>fanos-diakrisis\<close>, \<open>fanos-holarch\<close>, \<open>fanos-telemetry\<close>); constructions over third-party groups
  (the rest of \<open>fanos-vrf\<close>, \<open>fanos-keygen\<close>, \<open>fanos-incentives\<close>) and the zero-knowledge proof systems of OBOLOS.
  The agreement theorem leaves out a validator that restarts without its state and the roll-back of a diverged
  one (\<open>keeps_height\<close>), and stops before the last 64-bit height. Left for an extension: liveness of the
  consensus, the availability sampler and the hierarchy of cells of TAXIS, the larger projective planes, the
  diagnosis codes, the overlay and onion engines, the other frame formats.
\<close>

end
